(* ===== verification/Prelude.thy ===== *)
theory Prelude
  imports Main "HOL-Library.FSet" "HOL-Library.Finite_Map" "HOL-Library.Multiset"
begin

text \<open>
  Shared vocabulary of the development: results that may carry an error, the loops of
  the source as folds that stop at the first error, and the generic facts about lists,
  finite maps and sorted iteration that the component theories use.

  A Rust \<open>Result<T, E>\<close> is the sum \<open>'e + 'a\<close>: \<open>Inl e\<close> is \<open>Err(e)\<close> and \<open>Inr x\<close> is
  \<open>Ok(x)\<close>.  The question mark operator is \<open>bindE\<close>.
\<close>

named_theorems result_simps \<open>characterisations of successful results\<close>

section \<open>Results\<close>

definition bindE :: "'e + 'a \<Rightarrow> ('a \<Rightarrow> 'e + 'b) \<Rightarrow> 'e + 'b" where
  "bindE r f = (case r of Inl e \<Rightarrow> Inl e | Inr x \<Rightarrow> f x)"

definition map_err :: "('e \<Rightarrow> 'f) \<Rightarrow> 'e + 'a \<Rightarrow> 'f + 'a" where
  "map_err h r = (case r of Inl e \<Rightarrow> Inl (h e) | Inr x \<Rightarrow> Inr x)"

definition map_ok :: "('a \<Rightarrow> 'b) \<Rightarrow> 'e + 'a \<Rightarrow> 'e + 'b" where
  "map_ok h r = (case r of Inl e \<Rightarrow> Inl e | Inr x \<Rightarrow> Inr (h x))"

definition ok_or :: "'e \<Rightarrow> 'a option \<Rightarrow> 'e + 'a" where
  "ok_or e v = (case v of None \<Rightarrow> Inl e | Some x \<Rightarrow> Inr x)"

definition is_ok :: "'e + 'a \<Rightarrow> bool" where
  "is_ok r = (case r of Inl e \<Rightarrow> False | Inr x \<Rightarrow> True)"

lemma bindE_simps [simp]:
  "bindE (Inl e) f = Inl e"
  "bindE (Inr x) f = f x"
  by (simp_all add: bindE_def)

lemma bindE_Inr_iff [simp, result_simps]:
  "bindE r f = Inr y \<longleftrightarrow> (\<exists>x. r = Inr x \<and> f x = Inr y)"
  by (cases r) auto

lemma bindE_Inl_iff [result_simps]:
  "bindE r f = Inl e \<longleftrightarrow> r = Inl e \<or> (\<exists>x. r = Inr x \<and> f x = Inl e)"
  by (cases r) auto

lemma bindE_assoc: "bindE (bindE r f) g = bindE r (\<lambda>x. bindE (f x) g)"
  by (cases r) auto

lemma bindE_cong [fundef_cong]:
  assumes "r = r'" and "\<And>x. r' = Inr x \<Longrightarrow> f x = f' x"
  shows "bindE r f = bindE r' f'"
  using assms by (cases r') auto

lemma map_err_simps [simp]:
  "map_err h (Inl e) = Inl (h e)"
  "map_err h (Inr x) = Inr x"
  by (simp_all add: map_err_def)

lemma map_err_Inr_iff [simp, result_simps]: "map_err h r = Inr y \<longleftrightarrow> r = Inr y"
  by (cases r) auto

lemma map_ok_simps [simp]:
  "map_ok h (Inl e) = Inl e"
  "map_ok h (Inr x) = Inr (h x)"
  by (simp_all add: map_ok_def)

lemma map_ok_Inr_iff [simp, result_simps]: "map_ok h r = Inr y \<longleftrightarrow> (\<exists>x. r = Inr x \<and> y = h x)"
  by (cases r) auto

lemma ok_or_simps [simp]:
  "ok_or e None = Inl e"
  "ok_or e (Some x) = Inr x"
  by (simp_all add: ok_or_def)

lemma ok_or_Inr_iff [simp, result_simps]: "ok_or e v = Inr x \<longleftrightarrow> v = Some x"
  by (cases v) auto

lemma is_ok_simps [simp]:
  "is_ok (Inl e) = False"
  "is_ok (Inr x) = True"
  by (simp_all add: is_ok_def)

lemma is_ok_iff: "is_ok r \<longleftrightarrow> (\<exists>x. r = Inr x)"
  by (cases r) auto

lemma unit_result_cases:
  fixes r :: "'e + unit"
  obtains (ok) "r = Inr ()" | (err) e where "r = Inl e"
  by (cases r) auto

section \<open>Loops that stop at the first error\<close>

fun foldE :: "('a \<Rightarrow> 's \<Rightarrow> 'e + 's) \<Rightarrow> 'a list \<Rightarrow> 's \<Rightarrow> 'e + 's" where
  "foldE f [] s = Inr s"
| "foldE f (x # xs) s = bindE (f x s) (foldE f xs)"

lemma foldE_append: "foldE f (xs @ ys) s = bindE (foldE f xs s) (foldE f ys)"
proof (induction xs arbitrary: s)
  case (Cons x xs)
  then have "foldE f (xs @ ys) = (\<lambda>t. bindE (foldE f xs t) (foldE f ys))"
    by blast
  then show ?case
    by (simp add: bindE_assoc)
qed simp

lemma foldE_invariant:
  assumes "foldE f xs s = Inr t" and "P s"
    and "\<And>x s t. x \<in> set xs \<Longrightarrow> P s \<Longrightarrow> f x s = Inr t \<Longrightarrow> P t"
  shows "P t"
  using assms by (induction xs arbitrary: s) auto

text \<open>A loop whose body only checks: every element must pass.\<close>

definition checkE :: "('a \<Rightarrow> 'e + unit) \<Rightarrow> 'a list \<Rightarrow> 'e + unit" where
  "checkE f xs = foldE (\<lambda>x _. f x) xs ()"

lemma checkE_simps [simp]:
  "checkE f [] = Inr ()"
  "checkE f (x # xs) = bindE (f x) (\<lambda>_. checkE f xs)"
  by (simp_all add: checkE_def)

lemma checkE_Inr_iff [simp, result_simps]: "checkE f xs = Inr u \<longleftrightarrow> (\<forall>x \<in> set xs. f x = Inr ())"
  by (induction xs) auto

text \<open>A fallible \<open>map\<close> collected into a vector.\<close>

fun mapE :: "('a \<Rightarrow> 'e + 'b) \<Rightarrow> 'a list \<Rightarrow> 'e + 'b list" where
  "mapE f [] = Inr []"
| "mapE f (x # xs) = bindE (f x) (\<lambda>y. bindE (mapE f xs) (\<lambda>ys. Inr (y # ys)))"

lemma mapE_list_all2: "mapE f xs = Inr ys \<longleftrightarrow> list_all2 (\<lambda>x y. f x = Inr y) xs ys"
  by (induction xs arbitrary: ys) (auto simp: list_all2_Cons1)

lemma mapE_length: "mapE f xs = Inr ys \<Longrightarrow> length ys = length xs"
  by (auto simp: mapE_list_all2 dest: list_all2_lengthD)

lemma mapE_nth: "mapE f xs = Inr ys \<Longrightarrow> i < length xs \<Longrightarrow> f (xs ! i) = Inr (ys ! i)"
  unfolding mapE_list_all2 by (rule list_all2_nthD)

lemma mapE_total: "\<forall>x \<in> set xs. f x = Inr (g x) \<Longrightarrow> mapE f xs = Inr (map g xs)"
  by (simp add: mapE_list_all2 list_all2_conv_all_nth)

section \<open>Duplicate detection in a loop\<close>

text \<open>
  The source often walks a vector and inserts a key of each element into a set, failing
  when the key was there already.
\<close>

lemma enumerate_set_nth: "(i, x) \<in> set (List.enumerate k xs) \<longleftrightarrow> k \<le> i \<and> i < k + length xs \<and> x = xs ! (i - k)"
  by (auto simp: in_set_enumerate_eq)

section \<open>Sorted iteration over finite maps and sets\<close>

lemma sorted_list_of_fset_set [simp]: "set (sorted_list_of_fset A) = fset A"
  by (simp add: sorted_list_of_fset.rep_eq)

lemma sorted_list_of_fset_distinct [simp]: "distinct (sorted_list_of_fset A)"
  by (simp add: sorted_list_of_fset.rep_eq)

lemma sorted_list_of_fset_length [simp]: "length (sorted_list_of_fset A) = fcard A"
  by (simp add: sorted_list_of_fset.rep_eq fcard.rep_eq)

lemma sorted_list_of_fmap_keys: "map fst (sorted_list_of_fmap m) = sorted_list_of_fset (fmdom m)"
  by (simp add: sorted_list_of_fmap_def comp_def)

lemma sorted_list_of_fmap_length [simp]: "length (sorted_list_of_fmap m) = fcard (fmdom m)"
  by (simp add: sorted_list_of_fmap_def)

lemma sorted_list_of_fmap_mem: "(k, v) \<in> set (sorted_list_of_fmap m) \<longleftrightarrow> fmlookup m k = Some v"
  by (auto simp: sorted_list_of_fmap_def image_iff fmlookup_dom_iff)

lemma ball_sorted_list_of_fmap:
  "(\<forall>kv \<in> set (sorted_list_of_fmap m). P kv) \<longleftrightarrow> (\<forall>k v. fmlookup m k = Some v \<longrightarrow> P (k, v))"
  by (metis sorted_list_of_fmap_mem surj_pair)

lemma sorted_list_of_fmap_fst: "fst ` set (sorted_list_of_fmap m) = fset (fmdom m)"
  using arg_cong [OF sorted_list_of_fmap_keys [of m], of set] by simp

lemma fmap_of_sorted_list [simp]: "fmap_of_list (sorted_list_of_fmap m) = m"
proof (rule fmap_ext)
  fix k
  have "distinct (map fst (sorted_list_of_fmap m))"
    by (simp add: sorted_list_of_fmap_keys)
  then show "fmlookup (fmap_of_list (sorted_list_of_fmap m)) k = fmlookup m k"
    by (metis fmlookup_of_list map_of_eq_Some_iff not_Some_eq sorted_list_of_fmap_mem)
qed

section \<open>Overlapping quorums\<close>

lemma quorum_overlap:
  assumes "A \<subseteq> {..<n}" and "B \<subseteq> {..<n}" and "n + k \<le> card A + card B"
  shows "k \<le> card (A \<inter> B)"
proof -
  have fin: "finite A" "finite B"
    using assms(1,2) finite_subset by blast+
  have "card (A \<union> B) \<le> n"
    using card_mono [of "{..<n}" "A \<union> B"] assms(1,2) by simp
  then show ?thesis
    using card_Un_Int [OF fin] assms(3) by linarith
qed

lemma quorum_honest:
  assumes "A \<subseteq> {..<n}" and "B \<subseteq> {..<n}" and "n + card (F \<inter> {..<n}) < card A + card B"
  obtains i where "i \<in> A" "i \<in> B" "i < n" "i \<notin> F"
proof -
  have "Suc (card (F \<inter> {..<n})) \<le> card (A \<inter> B)"
    by (rule quorum_overlap [OF assms(1,2)]) (use assms(3) in simp)
  then have "\<not> A \<inter> B \<subseteq> F \<inter> {..<n}"
    using card_mono [of "F \<inter> {..<n}" "A \<inter> B"] by auto
  then show thesis
    using that assms(1) by auto
qed

section \<open>Registers that keep what they have been told\<close>

text \<open>
  The interface on which agreement rests: a state whose steps never change the entry a register
  holds for a key.
\<close>

locale permanent_register =
  fixes inv :: "'s \<Rightarrow> bool" and step :: "'s \<Rightarrow> 's \<Rightarrow> bool" and locked :: "'s \<Rightarrow> 'k \<Rightarrow> 'v option"
  assumes inv_step: "inv s \<Longrightarrow> step s s' \<Longrightarrow> inv s'"
    and locked_step: "inv s \<Longrightarrow> step s s' \<Longrightarrow> locked s k = Some v \<Longrightarrow> locked s' k = Some v"
begin

lemma inv_run: "step\<^sup>*\<^sup>* s s' \<Longrightarrow> inv s \<Longrightarrow> inv s'"
  by (induction rule: rtranclp_induct) (auto intro: inv_step)

lemma locked_run: "step\<^sup>*\<^sup>* s s' \<Longrightarrow> inv s \<Longrightarrow> locked s k = Some v \<Longrightarrow> locked s' k = Some v"
proof (induction rule: rtranclp_induct)
  case (step t u)
  then show ?case
    using inv_run locked_step by blast
qed simp

lemma locked_agree: "step\<^sup>*\<^sup>* s s' \<Longrightarrow> inv s \<Longrightarrow> locked s k = Some v \<Longrightarrow> locked s' k = Some v' \<Longrightarrow> v' = v"
  using locked_run by fastforce

end

end
