(* ===== verification/Bytes.thy ===== *)
theory Bytes
  imports Prelude "HOL-Library.Word" "HOL-Library.List_Lexorder"
begin

text \<open>
  Machine data: unsigned words, the fixed-size byte arrays \<open>[u8; N]\<close> of the source as a
  type of byte lists of length \<open>N\<close>, and the little- and big-endian conversions of the
  standard library (\<open>to_le_bytes\<close>, \<open>from_le_bytes\<close>, \<open>to_be_bytes\<close>).  Byte arrays are
  ordered lexicographically, as \<open>Ord\<close> orders them in Rust; this is the order in which
  the \<open>BTreeMap\<close>s and \<open>BTreeSet\<close>s of the program are iterated.
\<close>

type_synonym u8 = "8 word"
type_synonym u16 = "16 word"
type_synonym u32 = "32 word"
type_synonym u64 = "64 word"

section \<open>Fixed-size arrays\<close>

typedef (overloaded) ('n::len) byte_array = "{bs :: u8 list. length bs = LENGTH('n)}"
  morphisms array_bytes Abs_byte_array
  by (rule exI [of _ "replicate LENGTH('n) 0"]) simp

type_synonym digest = "32 byte_array"
type_synonym public_key = "32 byte_array"
type_synonym signature = "64 byte_array"

lemma length_array_bytes [simp]: "length (array_bytes (a :: 'n::len byte_array)) = LENGTH('n)"
  using array_bytes [of a] by simp

lemma array_eq_iff: "a = b \<longleftrightarrow> array_bytes a = array_bytes b"
  by (simp add: array_bytes_inject)

text \<open>
  \<open>mk_array\<close> fills an array from a list, as \<open>try_into\<close> on a slice of the right length
  does; it is total, so it truncates or pads with zeros otherwise.
\<close>

definition mk_array :: "u8 list \<Rightarrow> 'n::len byte_array" where
  "mk_array bs = Abs_byte_array (take LENGTH('n) (bs @ replicate LENGTH('n) 0))"

text \<open>The array expression \<open>[b; N]\<close>.\<close>

definition repeat_array :: "u8 \<Rightarrow> 'n::len byte_array" where
  "repeat_array b = Abs_byte_array (replicate LENGTH('n) b)"

abbreviation zero_array :: "'n::len byte_array" where
  "zero_array \<equiv> repeat_array 0"

text \<open>Assignment to one byte, \<open>a[i] = b\<close>.\<close>

definition array_update :: "'n::len byte_array \<Rightarrow> nat \<Rightarrow> u8 \<Rightarrow> 'n byte_array" where
  "array_update a i b = Abs_byte_array ((array_bytes a)[i := b])"

lemma array_abs_rep [code abstype]: "Abs_byte_array (array_bytes a) = a"
  by (rule array_bytes_inverse)

lemma bytes_mk_array [code abstract]:
  "array_bytes (mk_array bs :: 'n::len byte_array) = take LENGTH('n) (bs @ replicate LENGTH('n) 0)"
  by (simp add: mk_array_def Abs_byte_array_inverse)

lemma bytes_repeat_array [code abstract]:
  "array_bytes (repeat_array b :: 'n::len byte_array) = replicate LENGTH('n) b"
  by (simp add: repeat_array_def Abs_byte_array_inverse)

lemma bytes_array_update [code abstract]:
  "array_bytes (array_update a i b) = (array_bytes a)[i := b]"
  by (simp add: array_update_def Abs_byte_array_inverse)

lemma mk_array_exact: "length bs = LENGTH('n::len) \<Longrightarrow> array_bytes (mk_array bs :: 'n byte_array) = bs"
  by (simp add: bytes_mk_array)

lemma mk_array_bytes [simp]: "mk_array (array_bytes a) = a"
  by (simp add: array_eq_iff bytes_mk_array)

lemma mk_array_inj:
  "length bs = LENGTH('n::len) \<Longrightarrow> length cs = LENGTH('n) \<Longrightarrow>
    (mk_array bs :: 'n byte_array) = mk_array cs \<longleftrightarrow> bs = cs"
  by (simp add: array_eq_iff mk_array_exact)

instantiation byte_array :: (len) linorder
begin

definition less_eq_byte_array :: "'a byte_array \<Rightarrow> 'a byte_array \<Rightarrow> bool" where
  "less_eq_byte_array a b \<longleftrightarrow> array_bytes a \<le> array_bytes b"

definition less_byte_array :: "'a byte_array \<Rightarrow> 'a byte_array \<Rightarrow> bool" where
  "less_byte_array a b \<longleftrightarrow> array_bytes a < array_bytes b"

instance
  by standard (auto simp: less_eq_byte_array_def less_byte_array_def array_eq_iff)

end

instantiation byte_array :: (len) equal
begin

definition equal_byte_array :: "'a byte_array \<Rightarrow> 'a byte_array \<Rightarrow> bool" where
  "equal_byte_array a b \<longleftrightarrow> array_bytes a = array_bytes b"

instance
  by standard (simp add: equal_byte_array_def array_eq_iff)

end

section \<open>Endian conversions\<close>

fun le_of_nat :: "nat \<Rightarrow> nat \<Rightarrow> u8 list" where
  "le_of_nat 0 v = []"
| "le_of_nat (Suc n) v = of_nat v # le_of_nat n (v div 256)"

fun nat_of_le :: "u8 list \<Rightarrow> nat" where
  "nat_of_le [] = 0"
| "nat_of_le (b # bs) = unat b + 256 * nat_of_le bs"

lemma length_le_of_nat [simp]: "length (le_of_nat n v) = n"
  by (induction n arbitrary: v) simp_all

lemma unat_bound: "unat (w :: 'a::len word) < 2 ^ LENGTH('a)"
  by (rule unsigned_less)

lemma unat_u8_lt: "unat (b :: u8) < 256"
  using unat_bound [of b] by simp

lemma nat_of_le_of_nat: "nat_of_le (le_of_nat n v) = v mod 256 ^ n"
proof (induction n arbitrary: v)
  case (Suc n)
  have "unat (of_nat v :: u8) = v mod 256"
    by (simp add: unat_of_nat)
  with Suc show ?case
    by (simp add: mod_mult2_eq)
qed simp

lemma u8_256_times: "(256 :: u8) * x = 0"
proof -
  have "(256 :: u8) = 0"
    by simp
  then show ?thesis
    by (metis mult_zero_left)
qed

lemma le_of_nat_of_le [simp]: "le_of_nat (length bs) (nat_of_le bs) = bs"
proof (induction bs)
  case (Cons b bs)
  have "(unat b + 256 * nat_of_le bs) div 256 = nat_of_le bs"
    using unat_u8_lt [of b] by simp
  moreover have "of_nat (unat b + 256 * nat_of_le bs) = b"
    by (simp add: u8_256_times)
  ultimately show ?case
    using Cons by simp
qed simp

lemma nat_of_le_bound: "nat_of_le bs < 256 ^ length bs"
proof (induction bs)
  case (Cons b bs)
  then show ?case
    using unat_u8_lt [of b] by simp
qed simp

definition to_le16 :: "u16 \<Rightarrow> u8 list" where
  "to_le16 w = le_of_nat 2 (unat w)"

definition to_le32 :: "u32 \<Rightarrow> u8 list" where
  "to_le32 w = le_of_nat 4 (unat w)"

definition to_le64 :: "u64 \<Rightarrow> u8 list" where
  "to_le64 w = le_of_nat 8 (unat w)"

definition to_be32 :: "u32 \<Rightarrow> u8 list" where
  "to_be32 w = rev (le_of_nat 4 (unat w))"

definition from_le16 :: "u8 list \<Rightarrow> u16" where
  "from_le16 bs = of_nat (nat_of_le bs)"

definition from_le32 :: "u8 list \<Rightarrow> u32" where
  "from_le32 bs = of_nat (nat_of_le bs)"

definition from_le64 :: "u8 list \<Rightarrow> u64" where
  "from_le64 bs = of_nat (nat_of_le bs)"

definition from_be32 :: "u8 list \<Rightarrow> u32" where
  "from_be32 bs = of_nat (nat_of_le (rev bs))"

lemma length_to_le [simp]:
  "length (to_le16 a) = 2"
  "length (to_le32 b) = 4"
  "length (to_le64 c) = 8"
  "length (to_be32 b) = 4"
  by (simp_all add: to_le16_def to_le32_def to_le64_def to_be32_def)

lemma from_to_le16 [simp]: "from_le16 (to_le16 w) = w"
  using unat_bound [of w] by (simp add: from_le16_def to_le16_def nat_of_le_of_nat)

lemma from_to_le32 [simp]: "from_le32 (to_le32 w) = w"
  using unat_bound [of w] by (simp add: from_le32_def to_le32_def nat_of_le_of_nat)

lemma from_to_le64 [simp]: "from_le64 (to_le64 w) = w"
  using unat_bound [of w] by (simp add: from_le64_def to_le64_def nat_of_le_of_nat)

lemma from_to_be32 [simp]: "from_be32 (to_be32 w) = w"
  using unat_bound [of w] by (simp add: from_be32_def to_be32_def nat_of_le_of_nat)

lemma to_from_le16: "length bs = 2 \<Longrightarrow> to_le16 (from_le16 bs) = bs"
  using nat_of_le_bound [of bs] le_of_nat_of_le [of bs]
  by (simp add: from_le16_def to_le16_def unat_of_nat)

lemma to_from_le32: "length bs = 4 \<Longrightarrow> to_le32 (from_le32 bs) = bs"
  using nat_of_le_bound [of bs] le_of_nat_of_le [of bs]
  by (simp add: from_le32_def to_le32_def unat_of_nat)

lemma to_from_le64: "length bs = 8 \<Longrightarrow> to_le64 (from_le64 bs) = bs"
  using nat_of_le_bound [of bs] le_of_nat_of_le [of bs]
  by (simp add: from_le64_def to_le64_def unat_of_nat)

lemma to_from_be32:
  assumes "length bs = 4"
  shows "to_be32 (from_be32 bs) = bs"
proof -
  have "le_of_nat 4 (nat_of_le (rev bs)) = rev bs"
    using le_of_nat_of_le [of "rev bs"] assms by simp
  moreover have "nat_of_le (rev bs) < 2 ^ 32"
    using nat_of_le_bound [of "rev bs"] assms by simp
  ultimately show ?thesis
    by (simp add: from_be32_def to_be32_def unat_of_nat)
qed

lemma to_le_inj [simp]:
  "to_le16 a = to_le16 a' \<longleftrightarrow> a = a'"
  "to_le32 b = to_le32 b' \<longleftrightarrow> b = b'"
  "to_le64 c = to_le64 c' \<longleftrightarrow> c = c'"
  by (metis from_to_le16, metis from_to_le32, metis from_to_le64)

section \<open>Splitting concatenations of fixed-width fields\<close>

text \<open>Two concatenations whose heads have one length agree head by head.\<close>

lemma fixed_append_eq: "length a = length b \<Longrightarrow> a @ x = b @ y \<longleftrightarrow> a = b \<and> x = y"
  by simp

lemma concat_map_fixed_inj:
  assumes "concat (map f xs) = concat (map f ys)"
    and "length xs = length ys"
    and "\<And>x y. length (f x) = length (f y)"
    and "\<And>x y. f x = f y \<Longrightarrow> x = y"
  shows "xs = ys"
  using assms(2,1)
proof (induction xs ys rule: list_induct2)
  case (Cons x xs y ys)
  then have "f x @ concat (map f xs) = f y @ concat (map f ys)"
    by simp
  then have "f x = f y" and "concat (map f xs) = concat (map f ys)"
    using assms(3) by auto
  then show ?case
    using Cons.IH assms(4) by simp
qed simp

text \<open>ASCII byte strings \<open>b"..."\<close>.\<close>

definition ascii :: "string \<Rightarrow> u8 list" where
  "ascii s = map of_char s"

section \<open>Checked and saturating arithmetic\<close>

definition checked_add64 :: "u64 \<Rightarrow> u64 \<Rightarrow> u64 option" where
  "checked_add64 a b = (if unat a + unat b < 2 ^ 64 then Some (a + b) else None)"

definition saturating_add64 :: "u64 \<Rightarrow> u64 \<Rightarrow> u64" where
  "saturating_add64 a b = (if unat a + unat b < 2 ^ 64 then a + b else - 1)"

lemma checked_add64_Some_iff:
  "checked_add64 a b = Some c \<longleftrightarrow> unat a + unat b < 2 ^ 64 \<and> unat c = unat a + unat b"
  by (auto simp: checked_add64_def unat_word_ariths word_unat_eq_iff)

lemma unat_saturating_add64: "unat (saturating_add64 a b) = min (2 ^ 64 - 1) (unat a + unat b)"
proof (cases "unat a + unat b < 2 ^ 64")
  case False
  moreover have "unat (- 1 :: u64) = 2 ^ 64 - 1"
    by (simp add: unsigned_minus_1_eq_mask mask_eq_exp_minus_1)
  ultimately show ?thesis
    by (simp add: saturating_add64_def)
qed (simp add: saturating_add64_def unat_word_ariths)

end
