(* ===== verification/Codec.thy ===== *)
theory Codec
  imports Bytes
begin

text \<open>
  The byte-level part of \<open>integration001/src/wire.rs\<close>: \<open>Encoder\<close>, \<open>Decoder\<close>, the frames on
  a stream, and the \<open>exact_codec!\<close> macro, with the interface every message format of the
  program satisfies (locales \<open>reader\<close> and \<open>codec\<close>).

  An \<open>Encoder\<close> is only ever appended to, so a \<open>put\<close> function is the bytes it appends, or an
  error.  A \<open>take\<close> function reads from a \<open>Decoder\<close>, a byte slice with an offset, and returns
  the decoder it leaves.  The labels that name a field in an error message are not modelled.
\<close>

section \<open>Errors, encoder and decoder\<close>

datatype wire_error =
    PayloadTooLarge | LengthOverflow | Truncated | TrailingBytes | BadBoolean | CountExceeded
  | ZeroCount | BadPhase | DuplicateEntry | KeyMismatch | BadTag | BadLifecycle | FrameTooLarge | FrameIo

definition MAX_FRAME_LEN :: nat where "MAX_FRAME_LEN = 1024 * 1024"
definition MAX_COLLECTION_LEN :: nat where "MAX_COLLECTION_LEN = 2048"

definition put_bool :: "bool \<Rightarrow> u8 list" where
  "put_bool b = [if b then 1 else 0]"

definition put_bounded_count :: "nat \<Rightarrow> nat \<Rightarrow> wire_error + u8 list" where
  "put_bounded_count items max_count =
    (if items > max_count then Inl CountExceeded
     else if items \<ge> 2 ^ 32 then Inl CountExceeded
     else Inr (to_le32 (of_nat items)))"

definition put_count :: "nat \<Rightarrow> wire_error + u8 list" where
  "put_count items = put_bounded_count items MAX_COLLECTION_LEN"

definition encoder_finish :: "u8 list \<Rightarrow> wire_error + u8 list" where
  "encoder_finish bs = (if length bs > MAX_FRAME_LEN then Inl PayloadTooLarge else Inr bs)"

record decoder =
  d_bytes :: "u8 list"
  d_offset :: nat

type_synonym 'a taker = "decoder \<Rightarrow> wire_error + 'a \<times> decoder"

definition decoder_new :: "u8 list \<Rightarrow> wire_error + decoder" where
  "decoder_new bs =
    (if length bs > MAX_FRAME_LEN then Inl PayloadTooLarge else Inr \<lparr>d_bytes = bs, d_offset = 0\<rparr>)"

definition take_bytes :: "nat \<Rightarrow> u8 list taker" where
  "take_bytes len d =
    (let stop = d_offset d + len in
     if stop \<ge> 2 ^ 64 then Inl LengthOverflow
     else if stop > length (d_bytes d) then Inl Truncated
     else Inr (take len (drop (d_offset d) (d_bytes d)), d\<lparr>d_offset := stop\<rparr>))"

text \<open>Sequencing of reads, a pure result and a failure.\<close>

definition bindD :: "'a taker \<Rightarrow> ('a \<Rightarrow> 'b taker) \<Rightarrow> 'b taker" where
  "bindD t f d = bindE (t d) (\<lambda>(v, d'). f v d')"

definition returnD :: "'a \<Rightarrow> 'a taker" where
  "returnD v d = Inr (v, d)"

definition failD :: "wire_error \<Rightarrow> 'a taker" where
  "failD e d = Inl e"

definition take_u8 :: "u8 taker" where
  "take_u8 = bindD (take_bytes 1) (\<lambda>bs. returnD (bs ! 0))"

definition take_bool :: "bool taker" where
  "take_bool = bindD take_u8 (\<lambda>b.
    if b = 0 then returnD False else if b = 1 then returnD True else failD BadBoolean)"

definition take_u16 :: "u16 taker" where
  "take_u16 = bindD (take_bytes 2) (\<lambda>bs. returnD (from_le16 bs))"

definition take_u32 :: "u32 taker" where
  "take_u32 = bindD (take_bytes 4) (\<lambda>bs. returnD (from_le32 bs))"

definition take_u64 :: "u64 taker" where
  "take_u64 = bindD (take_bytes 8) (\<lambda>bs. returnD (from_le64 bs))"

definition take_fixed :: "('n::len) byte_array taker" where
  "take_fixed = bindD (take_bytes LENGTH('n)) (\<lambda>bs. returnD (mk_array bs))"

definition take_bounded_count :: "nat \<Rightarrow> nat taker" where
  "take_bounded_count max_count = bindD take_u32 (\<lambda>w.
    if unat w > max_count then failD CountExceeded else returnD (unat w))"

definition take_count :: "nat taker" where
  "take_count = take_bounded_count MAX_COLLECTION_LEN"

definition decoder_finish :: "decoder \<Rightarrow> wire_error + unit" where
  "decoder_finish d = (if d_offset d \<noteq> length (d_bytes d) then Inl TrailingBytes else Inr ())"

text \<open>
  The two loops of the source: \<open>count\<close> elements in a row, and \<open>count\<close> elements whose keys must
  be new (the element is read first, then its key is inserted into a set or map, which fails
  on a duplicate).
\<close>

fun take_many :: "nat \<Rightarrow> 'a taker \<Rightarrow> 'a list taker" where
  "take_many 0 t = returnD []"
| "take_many (Suc n) t = bindD t (\<lambda>x. bindD (take_many n t) (\<lambda>xs. returnD (x # xs)))"

fun take_distinct :: "nat \<Rightarrow> 'a taker \<Rightarrow> ('a \<Rightarrow> 'k) \<Rightarrow> 'k set \<Rightarrow> 'a list taker" where
  "take_distinct 0 t key seen = returnD []"
| "take_distinct (Suc n) t key seen = bindD t (\<lambda>x.
    if key x \<in> seen then failD DuplicateEntry
    else bindD (take_distinct n t key (insert (key x) seen)) (\<lambda>xs. returnD (x # xs)))"

text \<open>The functions that the macro \<open>exact_codec!\<close> generates.\<close>

definition exact_encode :: "('a \<Rightarrow> wire_error + u8 list) \<Rightarrow> 'a \<Rightarrow> wire_error + u8 list" where
  "exact_encode put v = bindE (put v) encoder_finish"

definition exact_decode :: "'a taker \<Rightarrow> u8 list \<Rightarrow> wire_error + 'a" where
  "exact_decode t bs =
    bindE (decoder_new bs) (\<lambda>d. bindE (t d) (\<lambda>(v, d'). bindE (decoder_finish d') (\<lambda>_. Inr v)))"

section \<open>Frames\<close>

text \<open>
  A stream to write to is the bytes written, a stream to read from the bytes that arrive before
  it ends; reading returns what is left.
\<close>

definition write_frame :: "u8 list \<Rightarrow> wire_error + u8 list" where
  "write_frame payload =
    (if length payload > MAX_FRAME_LEN then Inl FrameTooLarge
     else if length payload \<ge> 2 ^ 32 then Inl FrameTooLarge
     else Inr (to_be32 (of_nat (length payload)) @ payload))"

definition read_exact :: "nat \<Rightarrow> u8 list \<Rightarrow> wire_error + u8 list \<times> u8 list" where
  "read_exact n stream = (if length stream < n then Inl FrameIo else Inr (take n stream, drop n stream))"

definition read_frame :: "u8 list \<Rightarrow> wire_error + u8 list \<times> u8 list" where
  "read_frame stream =
    bindE (read_exact 4 stream) (\<lambda>(header, rest).
    let len = unat (from_be32 header) in
    if len > MAX_FRAME_LEN then Inl FrameTooLarge
    else read_exact len rest)"

section \<open>What a read consumes\<close>

definition decoder_ok :: "decoder \<Rightarrow> bool" where
  "decoder_ok d \<longleftrightarrow> d_offset d \<le> length (d_bytes d) \<and> length (d_bytes d) \<le> MAX_FRAME_LEN"

definition remaining :: "decoder \<Rightarrow> u8 list" where
  "remaining d = drop (d_offset d) (d_bytes d)"

definition advance :: "nat \<Rightarrow> decoder \<Rightarrow> decoder" where
  "advance n d = d\<lparr>d_offset := d_offset d + n\<rparr>"

text \<open>\<open>reads t v bs\<close>: where \<open>bs\<close> comes next, \<open>t\<close> returns \<open>v\<close> and consumes exactly \<open>bs\<close>.\<close>

definition reads :: "'a taker \<Rightarrow> 'a \<Rightarrow> u8 list \<Rightarrow> bool" where
  "reads t v bs \<longleftrightarrow> (\<forall>d rest. decoder_ok d \<longrightarrow> remaining d = bs @ rest \<longrightarrow> t d = Inr (v, advance (length bs) d))"

text \<open>\<open>parses t P\<close>: whatever \<open>t\<close> accepts, the bytes it consumed satisfy \<open>P\<close> with the value.\<close>

definition parses :: "'a taker \<Rightarrow> ('a \<Rightarrow> u8 list \<Rightarrow> bool) \<Rightarrow> bool" where
  "parses t P \<longleftrightarrow> (\<forall>d v d'. decoder_ok d \<longrightarrow> t d = Inr (v, d') \<longrightarrow>
    (\<exists>bs rest. remaining d = bs @ rest \<and> d' = advance (length bs) d \<and> P v bs))"

lemma remaining_advance:
  "remaining d = bs @ rest \<Longrightarrow> remaining (advance (length bs) d) = rest"
proof -
  have "remaining (advance (length bs) d) = drop (length bs) (remaining d)"
    by (simp add: remaining_def advance_def add.commute)
  then show "remaining d = bs @ rest \<Longrightarrow> remaining (advance (length bs) d) = rest"
    by simp
qed

lemma decoder_ok_advance:
  assumes "decoder_ok d" and "remaining d = bs @ rest"
  shows "decoder_ok (advance (length bs) d)"
proof -
  have "length (remaining d) = length bs + length rest"
    using assms(2) by simp
  then show ?thesis
    using assms(1) by (auto simp: decoder_ok_def remaining_def advance_def)
qed

lemma advance_zero [simp]: "advance 0 d = d"
  by (simp add: advance_def)

lemma advance_advance [simp]: "advance m (advance n d) = advance (n + m) d"
  by (simp add: advance_def add.assoc)

lemma reads_return [intro]: "reads (returnD v) v []"
  by (simp add: reads_def returnD_def)

lemma reads_bind:
  assumes "reads t v bs" and "reads (f v) w cs"
  shows "reads (bindD t f) w (bs @ cs)"
  unfolding reads_def
proof (intro allI impI)
  fix d rest assume d: "decoder_ok d" "remaining d = (bs @ cs) @ rest"
  then have "t d = Inr (v, advance (length bs) d)"
    using assms(1) by (auto simp: reads_def)
  moreover have "f v (advance (length bs) d) = Inr (w, advance (length cs) (advance (length bs) d))"
    using assms(2) d decoder_ok_advance [OF d(1), of bs "cs @ rest"] remaining_advance [of d bs "cs @ rest"]
    by (simp add: reads_def)
  ultimately show "bindD t f d = Inr (w, advance (length (bs @ cs)) d)"
    by (simp add: bindD_def)
qed

lemma reads_last:
  assumes "reads t v bs" and "f v = returnD w"
  shows "reads (bindD t f) w bs"
  using reads_bind [OF assms(1), of f w "[]"] assms(2) by auto

lemma parses_return: "P v [] \<Longrightarrow> parses (returnD v) P"
  unfolding parses_def returnD_def by (metis Inr_inject Pair_inject advance_zero append_Nil list.size(3))

lemma parses_fail: "parses (failD e) P"
  by (simp add: parses_def failD_def)

lemma parses_bind:
  assumes "parses t P" and "\<And>v bs. P v bs \<Longrightarrow> parses (f v) (\<lambda>w cs. R w (bs @ cs))"
  shows "parses (bindD t f) R"
  unfolding parses_def
proof (intro allI impI)
  fix d w d'' assume d: "decoder_ok d" "bindD t f d = Inr (w, d'')"
  then obtain v d' where v: "t d = Inr (v, d')" "f v d' = Inr (w, d'')"
    by (auto simp: bindD_def)
  then obtain bs rest where bs: "remaining d = bs @ rest" "d' = advance (length bs) d" "P v bs"
    using assms(1) d(1) unfolding parses_def by blast
  then obtain cs rest' where "remaining d' = cs @ rest'" "d'' = advance (length cs) d'" "R w (bs @ cs)"
    using assms(2) [OF bs(3)] v(2) decoder_ok_advance [OF d(1) bs(1)] bs(2) unfolding parses_def by blast
  moreover have "remaining d' = rest"
    using bs remaining_advance by simp
  ultimately show "\<exists>bs rest. remaining d = bs @ rest \<and> d'' = advance (length bs) d \<and> R w bs"
    using bs by (intro exI [of _ "bs @ cs"] exI [of _ rest']) simp
qed

lemma parses_mono: "parses t P \<Longrightarrow> (\<And>v bs. P v bs \<Longrightarrow> R v bs) \<Longrightarrow> parses t R"
  by (fastforce simp: parses_def)

section \<open>Primitive reads\<close>

lemma reads_bytes: "length bs < 2 ^ 32 \<Longrightarrow> reads (take_bytes (length bs)) bs bs"
  unfolding reads_def
proof (intro allI impI)
  fix d rest assume len: "length bs < 2 ^ 32" and d: "decoder_ok d" "remaining d = bs @ rest"
  have "d_offset d + length bs \<le> length (d_bytes d)"
    using arg_cong [OF d(2), of length] d(1) unfolding remaining_def decoder_ok_def length_drop length_append
    by linarith
  moreover have "length (d_bytes d) < 2 ^ 64"
    using d(1) by (simp add: decoder_ok_def MAX_FRAME_LEN_def)
  ultimately show "take_bytes (length bs) d = Inr (bs, advance (length bs) d)"
    using d(2) by (simp add: take_bytes_def Let_def remaining_def advance_def)
qed

lemma parses_bytes: "parses (take_bytes n) (\<lambda>v bs. v = bs \<and> length bs = n)"
  unfolding parses_def
proof (intro allI impI)
  fix d v d' assume d: "decoder_ok d" "take_bytes n d = Inr (v, d')"
  then have *: "d_offset d + n \<le> length (d_bytes d)" "v = take n (remaining d)" "d' = advance n d"
    by (auto simp: take_bytes_def Let_def remaining_def advance_def split: if_splits)
  then have "length v = n"
    by (simp add: remaining_def)
  then show "\<exists>bs rest. remaining d = bs @ rest \<and> d' = advance (length bs) d \<and> v = bs \<and> length bs = n"
    using * by (intro exI [of _ v] exI [of _ "drop n (remaining d)"]) simp
qed

lemma reads_prim:
  "reads take_u8 b [b]"
  "reads take_u16 w2 (to_le16 w2)"
  "reads take_u32 w4 (to_le32 w4)"
  "reads take_u64 w8 (to_le64 w8)"
  unfolding take_u8_def take_u16_def take_u32_def take_u64_def
  using reads_last [OF reads_bytes [of "[b]"], of "\<lambda>bs. returnD (bs ! 0)" b]
    reads_last [OF reads_bytes [of "to_le16 w2"], of "\<lambda>bs. returnD (from_le16 bs)" w2]
    reads_last [OF reads_bytes [of "to_le32 w4"], of "\<lambda>bs. returnD (from_le32 bs)" w4]
    reads_last [OF reads_bytes [of "to_le64 w8"], of "\<lambda>bs. returnD (from_le64 bs)" w8]
  by simp_all

lemma reads_fixed:
  "LENGTH('n::len) < 2 ^ 32 \<Longrightarrow> reads take_fixed (a :: 'n byte_array) (array_bytes a)"
  unfolding take_fixed_def
  using reads_last [OF reads_bytes [of "array_bytes a"], of "\<lambda>bs. returnD (mk_array bs)" a] by simp

lemma reads_bool: "reads take_bool b (put_bool b)"
  unfolding take_bool_def put_bool_def
  by (rule reads_last [OF reads_prim(1)]) simp

lemma reads_bounded_count:
  assumes "put_bounded_count n k = Inr bs"
  shows "reads (take_bounded_count k) n bs"
proof -
  have "unat (of_nat n :: u32) = n"
    using assms by (simp add: put_bounded_count_def unat_of_nat split: if_splits)
  then show ?thesis
    using assms unfolding take_bounded_count_def
    by (intro reads_last [of _ "of_nat n"]) (auto simp: put_bounded_count_def reads_prim split: if_splits)
qed

lemma parses_prim:
  "parses take_u8 (\<lambda>v bs. bs = [v])"
  "parses take_u16 (\<lambda>v bs. bs = to_le16 v)"
  "parses take_u32 (\<lambda>v bs. bs = to_le32 v)"
  "parses take_u64 (\<lambda>v bs. bs = to_le64 v)"
  "parses take_fixed (\<lambda>(v :: 'n::len byte_array) bs. bs = array_bytes v)"
  unfolding take_u8_def take_u16_def take_u32_def take_u64_def take_fixed_def
  by (rule parses_bind [OF parses_bytes], rule parses_return,
      auto simp: to_from_le16 to_from_le32 to_from_le64 mk_array_exact length_Suc_conv)+

lemma parses_bool: "parses take_bool (\<lambda>v bs. bs = put_bool v)"
  unfolding take_bool_def
  by (rule parses_bind [OF parses_prim(1)]) (auto intro!: parses_return parses_fail simp: put_bool_def)

lemma parses_bounded_count: "parses (take_bounded_count k) (\<lambda>n bs. put_bounded_count n k = Inr bs)"
  unfolding take_bounded_count_def
proof (rule parses_bind [OF parses_prim(3)])
  fix w bs assume bs: "bs = to_le32 w"
  show "parses (if k < unat w then failD CountExceeded else returnD (unat w))
      (\<lambda>n cs. put_bounded_count n k = Inr (bs @ cs))"
    using bs unat_bound [of w] by (auto intro!: parses_return parses_fail simp: put_bounded_count_def)
qed

lemma put_bounded_count_Inr_iff:
  "k < 2 ^ 32 \<Longrightarrow> put_bounded_count n k = Inr bs \<longleftrightarrow> n \<le> k \<and> bs = to_le32 (of_nat n)"
  by (auto simp: put_bounded_count_def)

section \<open>The interface of a message format\<close>

text \<open>
  A \<open>reader\<close> accepts what its writer writes; a \<open>codec\<close> accepts nothing else.  \<open>wf\<close> is what the
  reader checks and the writer does not.
\<close>

locale reader =
  fixes wf :: "'a \<Rightarrow> bool"
    and put :: "'a \<Rightarrow> wire_error + u8 list"
    and take_one :: "'a taker"
  assumes reads_put: "wf v \<Longrightarrow> put v = Inr bs \<Longrightarrow> reads take_one v bs"
begin

lemma decode_encode:
  assumes "wf v" and "exact_encode put v = Inr bs"
  shows "exact_decode take_one bs = Inr v"
proof -
  have put: "put v = Inr bs" and len: "length bs \<le> MAX_FRAME_LEN"
    using assms(2) by (auto simp: exact_encode_def encoder_finish_def split: if_splits)
  let ?d = "\<lparr>d_bytes = bs, d_offset = 0\<rparr>"
  have "take_one ?d = Inr (v, advance (length bs) ?d)"
    using reads_put [OF assms(1) put] len by (simp add: reads_def decoder_ok_def remaining_def)
  then show ?thesis
    using len by (simp add: exact_decode_def decoder_new_def decoder_finish_def advance_def)
qed

lemma reads_many:
  assumes "\<forall>x \<in> set xs. wf x" and "mapE put xs = Inr bss"
  shows "reads (take_many (length xs) take_one) xs (concat bss)"
  using assms
proof (induction xs arbitrary: bss)
  case (Cons x xs)
  then obtain bs bss' where b: "put x = Inr bs" "mapE put xs = Inr bss'" "bss = bs # bss'"
    by auto
  have "reads (take_many (length xs) take_one) xs (concat bss')"
    using Cons b by simp
  then have "reads (bindD (take_many (length xs) take_one) (\<lambda>xs. returnD (x # xs))) (x # xs) (concat bss')"
    by (rule reads_last) simp
  then show ?case
    using Cons.prems(1) b reads_bind [OF reads_put [of x bs]] by simp
qed (simp add: reads_return)

lemma reads_distinct:
  assumes "\<forall>x \<in> set xs. wf x" and "mapE put xs = Inr bss"
    and "distinct (map key xs)" and "key ` set xs \<inter> seen = {}"
  shows "reads (take_distinct (length xs) take_one key seen) xs (concat bss)"
  using assms
proof (induction xs arbitrary: bss seen)
  case (Cons x xs)
  then obtain bs bss' where b: "put x = Inr bs" "mapE put xs = Inr bss'" "bss = bs # bss'"
    by auto
  have "reads (take_distinct (length xs) take_one key (insert (key x) seen)) xs (concat bss')"
    using Cons b by auto
  then have "reads (bindD (take_distinct (length xs) take_one key (insert (key x) seen))
      (\<lambda>xs. returnD (x # xs))) (x # xs) (concat bss')"
    by (rule reads_last) simp
  then show ?case
    using Cons.prems b by (simp, intro reads_bind [OF reads_put [of x bs]]) auto
qed (simp add: reads_return)

end

locale codec = reader +
  assumes parses_take: "parses take_one (\<lambda>v bs. wf v \<and> put v = Inr bs)"
begin

lemma decode_iff: "exact_decode take_one bs = Inr v \<longleftrightarrow> wf v \<and> exact_encode put v = Inr bs"
proof
  assume dec: "exact_decode take_one bs = Inr v"
  let ?d = "\<lparr>d_bytes = bs, d_offset = 0\<rparr>"
  obtain d' where len: "length bs \<le> MAX_FRAME_LEN" and t: "take_one ?d = Inr (v, d')"
    and fin: "d_offset d' = length (d_bytes d')"
    using dec by (auto simp: exact_decode_def decoder_new_def decoder_finish_def split: if_splits)
  have "decoder_ok ?d"
    using len by (simp add: decoder_ok_def)
  then obtain cs rest where cs: "remaining ?d = cs @ rest" "d' = advance (length cs) ?d" "wf v" "put v = Inr cs"
    using parses_take t unfolding parses_def by blast
  then have "cs = bs"
    using fin by (simp add: remaining_def advance_def)
  then show "wf v \<and> exact_encode put v = Inr bs"
    using cs len by (simp add: exact_encode_def encoder_finish_def)
qed (use decode_encode in blast)

lemma parses_many: "parses (take_many n take_one) (\<lambda>xs bs. length xs = n \<and> (\<forall>x \<in> set xs. wf x) \<and>
    (\<exists>bss. mapE put xs = Inr bss \<and> bs = concat bss))"
proof (induction n)
  case 0
  then show ?case by (simp add: parses_return)
next
  case (Suc n)
  show ?case
    unfolding take_many.simps
    by (rule parses_bind [OF parses_take], rule parses_bind [OF Suc.IH], rule parses_return) auto
qed

lemma parses_distinct: "parses (take_distinct n take_one key seen) (\<lambda>xs bs. length xs = n \<and>
    (\<forall>x \<in> set xs. wf x) \<and> distinct (map key xs) \<and> key ` set xs \<inter> seen = {} \<and>
    (\<exists>bss. mapE put xs = Inr bss \<and> bs = concat bss))"
proof (induction n arbitrary: seen)
  case 0
  then show ?case by (simp add: parses_return)
next
  case (Suc n)
  show ?case
    unfolding take_distinct.simps
  proof (rule parses_bind [OF parses_take])
    fix x bs assume x: "wf x \<and> put x = Inr bs"
    let ?R = "\<lambda>xs cs. length xs = Suc n \<and> (\<forall>x \<in> set xs. wf x) \<and> distinct (map key xs) \<and>
      key ` set xs \<inter> seen = {} \<and> (\<exists>bss. mapE put xs = Inr bss \<and> bs @ cs = concat bss)"
    have "parses (bindD (take_distinct n take_one key (insert (key x) seen)) (\<lambda>xs. returnD (x # xs))) ?R"
      if "key x \<notin> seen"
      by (rule parses_bind [OF Suc.IH], rule parses_return) (use x that in auto)
    then show "parses (if key x \<in> seen then failD DuplicateEntry
        else bindD (take_distinct n take_one key (insert (key x) seen)) (\<lambda>xs. returnD (x # xs))) ?R"
      by (simp add: parses_fail)
  qed
qed

end

text \<open>The primitive formats.\<close>

interpretation fixed32: codec "\<lambda>_. True" "\<lambda>a. Inr (array_bytes a)" "take_fixed :: 32 byte_array taker"
  by unfold_locales (use reads_fixed [where 'n = 32] in auto, rule parses_mono [OF parses_prim(5)], simp)

section \<open>Frames on a stream\<close>

lemma read_write_frame:
  assumes "write_frame payload = Inr bs"
  shows "read_frame (bs @ rest) = Inr (payload, rest)"
proof -
  have len: "length payload \<le> MAX_FRAME_LEN" "length payload < 2 ^ 32"
    and bs: "bs = to_be32 (of_nat (length payload)) @ payload"
    using assms by (auto simp: write_frame_def split: if_splits)
  have "unat (of_nat (length payload) :: u32) = length payload"
    using len(2) by (simp add: unat_of_nat)
  then show ?thesis
    using len by (simp add: bs read_frame_def read_exact_def)
qed

lemma read_frame_InrD:
  assumes "read_frame stream = Inr (payload, rest)"
  shows "length payload \<le> MAX_FRAME_LEN" and "\<exists>bs. write_frame payload = Inr bs \<and> stream = bs @ rest"
proof -
  let ?len = "unat (from_be32 (take 4 stream))"
  have four: "4 \<le> length stream" and le: "?len \<le> MAX_FRAME_LEN"
    and split: "payload = take ?len (drop 4 stream)" "rest = drop ?len (drop 4 stream)"
    and "?len \<le> length (drop 4 stream)"
    using assms by (auto simp: read_frame_def read_exact_def Let_def not_less split: if_splits)
  then have len: "length payload = ?len"
    by simp
  then show "length payload \<le> MAX_FRAME_LEN"
    using le by simp
  have "to_be32 (of_nat (length payload)) = take 4 stream"
    using four len to_from_be32 [of "take 4 stream"] by simp
  then have "write_frame payload = Inr (take 4 stream @ payload)"
    using le len by (simp add: write_frame_def MAX_FRAME_LEN_def)
  moreover have "stream = (take 4 stream @ payload) @ rest"
    unfolding split by (metis append.assoc append_take_drop_id)
  ultimately show "\<exists>bs. write_frame payload = Inr bs \<and> stream = bs @ rest"
    by blast
qed

end
