(* ===== verification/Crypto.thy ===== *)
theory Crypto
  imports Bytes
begin

text \<open>
  The cryptographic libraries the program calls (\<open>blake3\<close>, \<open>ed25519_dalek\<close>) are not
  part of the repository.  They are a parameter of the model: a record of the five
  functions the code calls, passed to every definition that uses one of them.

  What the program relies on is stated as named predicates of that record.  None of
  them says that hashes never collide: theorems about digests conclude with an explicit
  pair of distinct inputs that the hash function maps to one value (\<open>collide\<close>).
\<close>

record crypto =
  blake3 :: "u8 list \<Rightarrow> digest"
  public_of :: "digest \<Rightarrow> public_key"
  key_ok :: "public_key \<Rightarrow> bool"
  sign_with :: "digest \<Rightarrow> u8 list \<Rightarrow> signature"
  verify_strict :: "public_key \<Rightarrow> u8 list \<Rightarrow> signature \<Rightarrow> bool"

text \<open>
  \<open>SigningKey::from_bytes\<close> takes any 32 bytes, so a signing key is its seed;
  \<open>public_of\<close> is \<open>verifying_key().to_bytes()\<close>, \<open>key_ok\<close> says that
  \<open>VerifyingKey::from_bytes\<close> accepts the bytes.
\<close>

type_synonym signing_key = digest

definition collide :: "crypto \<Rightarrow> u8 list \<Rightarrow> u8 list \<Rightarrow> bool" where
  "collide C x y \<longleftrightarrow> x \<noteq> y \<and> blake3 C x = blake3 C y"

text \<open>Documented behaviour of Ed25519: an honest signature verifies under its key.\<close>

definition signatures_verify :: "crypto \<Rightarrow> bool" where
  "signatures_verify C \<longleftrightarrow>
    (\<forall>sk m. key_ok C (public_of C sk) \<and> verify_strict C (public_of C sk) m (sign_with C sk m))"

lemma signatures_verifyD:
  assumes "signatures_verify C"
  shows "key_ok C (public_of C sk)" and "verify_strict C (public_of C sk) m (sign_with C sk m)"
  using assms by (auto simp: signatures_verify_def)

lemma collideI: "blake3 C x = blake3 C y \<Longrightarrow> x \<noteq> y \<Longrightarrow> collide C x y"
  by (simp add: collide_def)

section \<open>A concrete instance\<close>

text \<open>
  A computable stand-in for the libraries, used only to show that the hypotheses of the
  theorems hold at concrete inputs: the digest is a one and the last 31 bytes of the input,
  and a signature is the key followed by the message.
\<close>

definition lab_crypto :: crypto where
  "lab_crypto =
    \<lparr>blake3 = (\<lambda>m. mk_array (1 # rev m)),
     public_of = (\<lambda>sk. sk),
     key_ok = (\<lambda>_. True),
     sign_with = (\<lambda>sk m. mk_array (array_bytes sk @ m)),
     verify_strict = (\<lambda>pk m s. s = mk_array (array_bytes pk @ m))\<rparr>"

lemma lab_crypto_simps [simp]:
  "blake3 lab_crypto m = mk_array (1 # rev m)"
  "public_of lab_crypto sk = sk"
  "key_ok lab_crypto pk"
  "sign_with lab_crypto sk m = mk_array (array_bytes sk @ m)"
  "verify_strict lab_crypto pk m s \<longleftrightarrow> s = mk_array (array_bytes pk @ m)"
  by (simp_all add: lab_crypto_def)

lemma lab_signatures_verify: "signatures_verify lab_crypto"
  by (simp add: signatures_verify_def)

lemma lab_digest_bytes: "31 \<le> length m \<Longrightarrow> array_bytes (blake3 lab_crypto m) = 1 # take 31 (rev m)"
  by (simp add: bytes_mk_array)

lemma lab_digest_nonzero: "blake3 lab_crypto m \<noteq> zero_array"
proof
  assume "blake3 lab_crypto m = zero_array"
  then have "array_bytes (blake3 lab_crypto m) ! 0 = array_bytes (zero_array :: digest) ! 0"
    by simp
  then show False
    by (simp add: bytes_mk_array bytes_repeat_array)
qed

end
