(* ===== verification/Cells.thy ===== *)
theory Cells
  imports Crypto
begin

text \<open>
  Committees, monetary cells and transactions (\<open>integration001/src/model.rs\<close>, first
  half): the data types, their canonical byte encodings and hashes, and the checks that a
  manifest, a cell and a transaction pass before anything is signed or applied.
\<close>

section \<open>Data\<close>

definition PROTOCOL_VERSION :: u16 where "PROTOCOL_VERSION = 1"
definition NETWORK_ID :: u32 where "NETWORK_ID = 1"
definition N :: nat where "N = 7"
definition Q :: nat where "Q = 5"
definition OLD_EPOCH :: u64 where "OLD_EPOCH = 100"
definition PHASE_PREVOTE :: u8 where "PHASE_PREVOTE = 1"
definition PHASE_PRECOMMIT :: u8 where "PHASE_PRECOMMIT = 2"
definition ASSET_CALIBRE :: u32 where "ASSET_CALIBRE = 1"

lemmas model_consts = PROTOCOL_VERSION_def NETWORK_ID_def N_def Q_def
  PHASE_PREVOTE_def PHASE_PRECOMMIT_def ASSET_CALIBRE_def

lemma phases_distinct [simp]: "PHASE_PREVOTE \<noteq> PHASE_PRECOMMIT" "PHASE_PRECOMMIT \<noteq> PHASE_PREVOTE"
  by (simp_all add: model_consts)

record committee_member =
  cm_index :: u8
  cm_public_key :: public_key

record committee_manifest =
  m_network_id :: u32
  m_epoch :: u64
  m_threshold :: u8
  m_members :: "committee_member list"

record cell_ref =
  cr_asset_id :: u32
  cr_id :: digest
  cr_generation :: u64

text \<open>The derived \<open>Ord\<close> of \<open>CellRef\<close>: lexicographic in the order of the fields.\<close>

instantiation cell_ref_ext :: (linorder) linorder
begin

definition less_eq_cell_ref_ext :: "'a cell_ref_scheme \<Rightarrow> 'a cell_ref_scheme \<Rightarrow> bool" where
  "less_eq_cell_ref_ext a b \<longleftrightarrow>
    cr_asset_id a < cr_asset_id b \<or> cr_asset_id a = cr_asset_id b \<and>
    (cr_id a < cr_id b \<or> cr_id a = cr_id b \<and>
    (cr_generation a < cr_generation b \<or> cr_generation a = cr_generation b \<and>
     cell_ref.more a \<le> cell_ref.more b))"

definition less_cell_ref_ext :: "'a cell_ref_scheme \<Rightarrow> 'a cell_ref_scheme \<Rightarrow> bool" where
  "less_cell_ref_ext a b \<longleftrightarrow> a \<le> b \<and> \<not> b \<le> a"

instance
  by standard (auto simp: less_eq_cell_ref_ext_def less_cell_ref_ext_def)

end

record cell =
  cell_reference :: cell_ref
  cell_amount :: u64
  cell_owner :: public_key
  cell_predecessor :: digest
  cell_state_digest :: digest

record tx_output =
  out_asset_id :: u32
  out_amount :: u64
  out_owner :: public_key

record tx =
  tx_version :: u16
  tx_network_id :: u32
  tx_epoch :: u64
  tx_committee_hash :: digest
  tx_input :: cell
  tx_outputs :: "tx_output list"
  tx_fee :: u64
  tx_salt :: digest

record user_auth =
  auth_signer :: public_key
  auth_signature :: signature

text \<open>
  The source reports failures as message strings.  Each message is a constructor here, grouped by
  the step that raises it.
\<close>

datatype manifest_error =
    WrongNetwork | BadThreshold | BadMemberCount | NonCanonicalIndex | InvalidCommitteeKey
    | DuplicateCommitteeKey

datatype tx_error =
    ZeroValueCell | UnsupportedAsset | CellDigestMismatch | BadOutputCount |
    UnsupportedVersion | TxNetworkMismatch | TxEpochMismatch | TxCommitteeMismatch

datatype value_error =
    ZeroFee | OutputAssetMismatch | ZeroValueOutput | OutputOverflow | NotConserving |
    StateValueOverflow | GenerationOverflow | OutputIndexOverflow

datatype auth_error =
    SignerNotOwner | InvalidOwnerKey | InvalidOwnerSignature

datatype vote_error =
    InvalidPhase | SignerNotMember | KeySlotMismatch | PrevoteWithJustify |
    PrecommitWithoutJustify | VoteContextMismatch | VoteCommitteeMismatch |
    VoteIndexMismatch | InvalidValidatorKey | InvalidVoteSignature

datatype qc_error =
    MixedStatement | JustifyMismatch | DuplicateSigner | BadVoteCount | UnexpectedJustify
    | UnsortedSigners | EmptyQc

datatype proposal_error =
    JustifyNotLower | ProposalIntentMismatch | WrongProposer | ProposerNotMember |
    InvalidProposerKey | InvalidProposalSignature

datatype state_error =
    DuplicateGenesisRef | DuplicateGenesisId | LiveKeyMismatch | LiveIdUnknown |
    LiveAndSpent | SpentIdUnknown | SpentStillLive | ReceiptKeyMismatch | ReceiptEmpty

datatype apply_error =
    RoundMismatch | InputNotLive | InputStateMismatch | DuplicateOutputRef |
    OutputIdCollision

datatype model_error =
    ManifestError manifest_error
  | TxError tx_error
  | ValueError value_error
  | AuthError auth_error
  | VoteError vote_error
  | QcError qc_error
  | ProposalError proposal_error
  | StateError state_error
  | ApplyError apply_error

section \<open>Hashing and keys\<close>

definition hash_domain :: "crypto \<Rightarrow> string \<Rightarrow> u8 list \<Rightarrow> digest" where
  "hash_domain C domain bs = blake3 C (ascii domain @ bs)"

definition deterministic_key :: "crypto \<Rightarrow> string \<Rightarrow> u64 \<Rightarrow> signing_key" where
  "deterministic_key C domain label = blake3 C (ascii domain @ to_le64 label)"

definition lab_user_key :: "crypto \<Rightarrow> u64 \<Rightarrow> signing_key" where
  "lab_user_key C label = deterministic_key C ''CALIBRE_INTEGRATION001_LAB_USER_KEY_V1'' label"

definition lab_validator_key :: "crypto \<Rightarrow> u64 \<Rightarrow> nat \<Rightarrow> signing_key" where
  "lab_validator_key C epoch index =
    deterministic_key C ''CALIBRE_INTEGRATION001_LAB_VALIDATOR_KEY_V1'' (epoch * 1000 + of_nat index)"

definition lab_committee :: "crypto \<Rightarrow> u64 \<Rightarrow> committee_manifest" where
  "lab_committee C epoch =
    \<lparr>m_network_id = NETWORK_ID, m_epoch = epoch, m_threshold = of_nat Q,
     m_members = map (\<lambda>index. \<lparr>cm_index = of_nat index,
                              cm_public_key = public_of C (lab_validator_key C epoch index)\<rparr>) [0..<N]\<rparr>"

section \<open>Committee manifests\<close>

definition validate_member ::
    "crypto \<Rightarrow> nat \<times> committee_member \<Rightarrow> public_key set \<Rightarrow> model_error + public_key set" where
  "validate_member C em keys = (case em of (expected, member) \<Rightarrow>
     if unat (cm_index member) \<noteq> expected then Inl (ManifestError NonCanonicalIndex)
     else if \<not> key_ok C (cm_public_key member) then Inl (ManifestError InvalidCommitteeKey)
     else if cm_public_key member \<in> keys then Inl (ManifestError DuplicateCommitteeKey)
     else Inr (insert (cm_public_key member) keys))"

definition validate_manifest :: "crypto \<Rightarrow> committee_manifest \<Rightarrow> model_error + unit" where
  "validate_manifest C manifest =
    (if m_network_id manifest \<noteq> NETWORK_ID then Inl (ManifestError WrongNetwork)
     else if unat (m_threshold manifest) \<noteq> Q then Inl (ManifestError BadThreshold)
     else if length (m_members manifest) \<noteq> N then Inl (ManifestError BadMemberCount)
     else map_ok (\<lambda>_. ()) (foldE (validate_member C) (List.enumerate 0 (m_members manifest)) {}))"

definition member_bytes :: "committee_member \<Rightarrow> u8 list" where
  "member_bytes member = cm_index member # array_bytes (cm_public_key member)"

definition manifest_bytes :: "committee_manifest \<Rightarrow> u8 list" where
  "manifest_bytes manifest =
    to_le16 PROTOCOL_VERSION @ to_le32 (m_network_id manifest) @ to_le64 (m_epoch manifest) @
    [m_threshold manifest] @ to_le32 (of_nat (length (m_members manifest))) @
    concat (map member_bytes (m_members manifest))"

definition committee_hash :: "crypto \<Rightarrow> committee_manifest \<Rightarrow> model_error + digest" where
  "committee_hash C manifest =
    bindE (validate_manifest C manifest) (\<lambda>_.
      Inr (hash_domain C ''CALIBRE_INTEGRATION001_COMMITTEE_V1'' (manifest_bytes manifest)))"

section \<open>Cells\<close>

definition cell_ref_bytes :: "cell_ref \<Rightarrow> u8 list" where
  "cell_ref_bytes r = to_le32 (cr_asset_id r) @ array_bytes (cr_id r) @ to_le64 (cr_generation r)"

definition compute_cell_digest :: "crypto \<Rightarrow> cell_ref \<Rightarrow> u64 \<Rightarrow> public_key \<Rightarrow> digest \<Rightarrow> digest" where
  "compute_cell_digest C r amount owner predecessor =
    hash_domain C ''CALIBRE_INTEGRATION001_CELL_V1''
      (cell_ref_bytes r @ to_le64 amount @ array_bytes owner @ array_bytes predecessor)"

definition make_genesis_cell :: "crypto \<Rightarrow> u64 \<Rightarrow> u64 \<Rightarrow> public_key \<Rightarrow> cell" where
  "make_genesis_cell C label amount owner =
    (let r = \<lparr>cr_asset_id = ASSET_CALIBRE,
              cr_id = hash_domain C ''CALIBRE_INTEGRATION001_GENESIS_ID_V1'' (to_le64 label),
              cr_generation = 0\<rparr>
     in \<lparr>cell_reference = r, cell_amount = amount, cell_owner = owner,
         cell_predecessor = zero_array,
         cell_state_digest = compute_cell_digest C r amount owner zero_array\<rparr>)"

definition validate_cell :: "crypto \<Rightarrow> cell \<Rightarrow> model_error + unit" where
  "validate_cell C cell =
    (if cell_amount cell = 0 then Inl (TxError ZeroValueCell)
     else if cr_asset_id (cell_reference cell) \<noteq> ASSET_CALIBRE then Inl (TxError UnsupportedAsset)
     else if cell_state_digest cell \<noteq> compute_cell_digest C (cell_reference cell) (cell_amount cell)
               (cell_owner cell) (cell_predecessor cell) then Inl (TxError CellDigestMismatch)
     else Inr ())"

section \<open>Transactions\<close>

definition cell_bytes :: "cell \<Rightarrow> u8 list" where
  "cell_bytes cell =
    cell_ref_bytes (cell_reference cell) @ to_le64 (cell_amount cell) @ array_bytes (cell_owner cell) @
    array_bytes (cell_predecessor cell) @ array_bytes (cell_state_digest cell)"

definition output_bytes :: "tx_output \<Rightarrow> u8 list" where
  "output_bytes out = to_le32 (out_asset_id out) @ to_le64 (out_amount out) @ array_bytes (out_owner out)"

definition tx_bytes :: "tx \<Rightarrow> model_error + u8 list" where
  "tx_bytes tx =
    (if tx_outputs tx = [] \<or> length (tx_outputs tx) > 8 then Inl (TxError BadOutputCount)
     else Inr (to_le16 (tx_version tx) @ to_le32 (tx_network_id tx) @ to_le64 (tx_epoch tx) @
               array_bytes (tx_committee_hash tx) @ cell_bytes (tx_input tx) @
               to_le32 (of_nat (length (tx_outputs tx))) @
               concat (map output_bytes (tx_outputs tx)) @
               to_le64 (tx_fee tx) @ array_bytes (tx_salt tx)))"

definition intent_hash :: "crypto \<Rightarrow> tx \<Rightarrow> model_error + digest" where
  "intent_hash C tx =
    bindE (tx_bytes tx) (\<lambda>bs. Inr (hash_domain C ''CALIBRE_INTEGRATION001_TX_INTENT_V1'' bs))"

definition conflict_key :: "crypto \<Rightarrow> cell_ref \<Rightarrow> digest" where
  "conflict_key C r = hash_domain C ''CALIBRE_INTEGRATION001_CONFLICT_KEY_V1'' (cell_ref_bytes r)"

text \<open>The body of the loop over the outputs in \<open>validate_tx\<close>; the state is the running total.\<close>

definition add_output :: "tx \<Rightarrow> tx_output \<Rightarrow> u64 \<Rightarrow> model_error + u64" where
  "add_output tx out acc =
    (if out_asset_id out \<noteq> cr_asset_id (cell_reference (tx_input tx)) then Inl (ValueError OutputAssetMismatch)
     else if out_amount out = 0 then Inl (ValueError ZeroValueOutput)
     else ok_or (ValueError OutputOverflow) (checked_add64 acc (out_amount out)))"

definition validate_tx :: "crypto \<Rightarrow> tx \<Rightarrow> committee_manifest \<Rightarrow> model_error + unit" where
  "validate_tx C tx manifest =
    bindE (validate_manifest C manifest) (\<lambda>_.
    bindE (validate_cell C (tx_input tx)) (\<lambda>_.
    if tx_version tx \<noteq> PROTOCOL_VERSION then Inl (TxError UnsupportedVersion)
    else if tx_network_id tx \<noteq> m_network_id manifest then Inl (TxError TxNetworkMismatch)
    else if tx_epoch tx \<noteq> m_epoch manifest then Inl (TxError TxEpochMismatch)
    else bindE (committee_hash C manifest) (\<lambda>h.
    if tx_committee_hash tx \<noteq> h then Inl (TxError TxCommitteeMismatch)
    else if tx_fee tx = 0 then Inl (ValueError ZeroFee)
    else bindE (foldE (add_output tx) (tx_outputs tx) (tx_fee tx)) (\<lambda>total.
    if total \<noteq> cell_amount (tx_input tx) then Inl (ValueError NotConserving)
    else bindE (intent_hash C tx) (\<lambda>_. Inr ())))))"

definition user_message :: "crypto \<Rightarrow> tx \<Rightarrow> model_error + u8 list" where
  "user_message C tx = bindE (intent_hash C tx) (\<lambda>h. Inr (array_bytes h))"

definition sign_user :: "crypto \<Rightarrow> tx \<Rightarrow> signing_key \<Rightarrow> model_error + user_auth" where
  "sign_user C tx key =
    bindE (user_message C tx) (\<lambda>msg.
      Inr \<lparr>auth_signer = public_of C key, auth_signature = sign_with C key msg\<rparr>)"

definition verify_user_auth ::
    "crypto \<Rightarrow> tx \<Rightarrow> user_auth \<Rightarrow> committee_manifest \<Rightarrow> model_error + unit" where
  "verify_user_auth C tx auth manifest =
    bindE (validate_tx C tx manifest) (\<lambda>_.
    if auth_signer auth \<noteq> cell_owner (tx_input tx) then Inl (AuthError SignerNotOwner)
    else if \<not> key_ok C (auth_signer auth) then Inl (AuthError InvalidOwnerKey)
    else bindE (user_message C tx) (\<lambda>msg.
    if verify_strict C (auth_signer auth) msg (auth_signature auth) then Inr ()
    else Inl (AuthError InvalidOwnerSignature)))"

definition make_transfer ::
    "crypto \<Rightarrow> committee_manifest \<Rightarrow> cell \<Rightarrow> tx_output list \<Rightarrow> u64 \<Rightarrow> digest \<Rightarrow> model_error + tx" where
  "make_transfer C manifest input outputs fee salt =
    bindE (committee_hash C manifest) (\<lambda>h.
    let tx = \<lparr>tx_version = PROTOCOL_VERSION, tx_network_id = m_network_id manifest,
              tx_epoch = m_epoch manifest, tx_committee_hash = h, tx_input = input,
              tx_outputs = outputs, tx_fee = fee, tx_salt = salt\<rparr>
    in bindE (validate_tx C tx manifest) (\<lambda>_. Inr tx))"

section \<open>Manifest facts\<close>

definition valid_manifest :: "crypto \<Rightarrow> committee_manifest \<Rightarrow> bool" where
  "valid_manifest C manifest \<longleftrightarrow>
    m_network_id manifest = NETWORK_ID \<and> unat (m_threshold manifest) = Q \<and>
    length (m_members manifest) = N \<and>
    (\<forall>i < N. unat (cm_index (m_members manifest ! i)) = i \<and> key_ok C (cm_public_key (m_members manifest ! i))) \<and>
    distinct (map cm_public_key (m_members manifest))"

lemma validate_members_iff:
  "foldE (validate_member C) (List.enumerate k ms) keys = Inr keys' \<longleftrightarrow>
    (\<forall>i < length ms. unat (cm_index (ms ! i)) = k + i \<and> key_ok C (cm_public_key (ms ! i))) \<and>
    distinct (map cm_public_key ms) \<and> cm_public_key ` set ms \<inter> keys = {} \<and>
    keys' = keys \<union> cm_public_key ` set ms"
proof (induction ms arbitrary: k keys)
  case (Cons m ms)
  have "foldE (validate_member C) (List.enumerate k (m # ms)) keys = Inr keys' \<longleftrightarrow>
      unat (cm_index m) = k \<and> key_ok C (cm_public_key m) \<and> cm_public_key m \<notin> keys \<and>
      foldE (validate_member C) (List.enumerate (Suc k) ms) (insert (cm_public_key m) keys) = Inr keys'"
    by (auto simp: validate_member_def)
  also have "\<dots> \<longleftrightarrow> (\<forall>i < length (m # ms). unat (cm_index ((m # ms) ! i)) = k + i \<and>
        key_ok C (cm_public_key ((m # ms) ! i))) \<and>
      distinct (map cm_public_key (m # ms)) \<and> cm_public_key ` set (m # ms) \<inter> keys = {} \<and>
      keys' = keys \<union> cm_public_key ` set (m # ms)"
    unfolding Cons.IH by (auto simp: All_less_Suc2)
  finally show ?case .
qed auto

lemma validate_manifest_iff [result_simps]:
  "validate_manifest C manifest = Inr u \<longleftrightarrow> valid_manifest C manifest"
  by (auto simp: validate_manifest_def valid_manifest_def validate_members_iff)

lemma committee_hash_Inr_iff [result_simps]:
  "committee_hash C manifest = Inr h \<longleftrightarrow> valid_manifest C manifest \<and>
    h = hash_domain C ''CALIBRE_INTEGRATION001_COMMITTEE_V1'' (manifest_bytes manifest)"
  by (auto simp: committee_hash_def validate_manifest_iff)

section \<open>The encodings that are hashed are unambiguous\<close>

lemma length_member_bytes [simp]: "length (member_bytes m) = 33"
  by (simp add: member_bytes_def)

lemma length_cell_ref_bytes [simp]: "length (cell_ref_bytes r) = 44"
  by (simp add: cell_ref_bytes_def)

lemma length_cell_bytes [simp]: "length (cell_bytes c) = 148"
  by (simp add: cell_bytes_def)

lemma length_output_bytes [simp]: "length (output_bytes out) = 44"
  by (simp add: output_bytes_def)

lemma array_bytes_inject_iff [simp]: "array_bytes a = array_bytes b \<longleftrightarrow> a = b"
  by (simp add: array_bytes_inject)

lemma member_bytes_inj [simp]: "member_bytes a = member_bytes b \<longleftrightarrow> a = b"
  by (auto simp: member_bytes_def committee_member.equality)

lemma cell_ref_bytes_inj [simp]: "cell_ref_bytes a = cell_ref_bytes b \<longleftrightarrow> a = b"
  by (auto simp: cell_ref_bytes_def fixed_append_eq cell_ref.equality)

lemma cell_bytes_inj [simp]: "cell_bytes a = cell_bytes b \<longleftrightarrow> a = b"
  by (auto simp: cell_bytes_def fixed_append_eq cell.equality)

lemma output_bytes_inj [simp]: "output_bytes a = output_bytes b \<longleftrightarrow> a = b"
  by (auto simp: output_bytes_def fixed_append_eq tx_output.equality)

lemma small_count_inj:
  assumes "to_le32 (of_nat m) = to_le32 (of_nat n)" and "m < 2 ^ 32" and "n < 2 ^ 32"
  shows "m = n"
proof -
  have "(of_nat m :: u32) = of_nat n"
    using assms(1) by simp
  then have "unat (of_nat m :: u32) = unat (of_nat n :: u32)"
    by simp
  then show ?thesis
    using assms(2,3) by (simp add: unat_of_nat)
qed

lemma concat_fixed_length: "(\<And>x. length (f x) = n) \<Longrightarrow> length (concat (map f xs)) = n * length xs"
  by (induction xs) simp_all

text \<open>A counted sequence of fixed-width elements, followed by anything.\<close>

lemma counted_append_eq:
  assumes eq: "to_le32 (of_nat (length xs)) @ concat (map f xs) @ a =
      to_le32 (of_nat (length ys)) @ concat (map f ys) @ b"
    and bounds: "length xs < 2 ^ 32" "length ys < 2 ^ 32"
    and width: "\<And>x. length (f x) = w"
    and inj: "\<And>x y. f x = f y \<Longrightarrow> x = y"
  shows "xs = ys \<and> a = b"
proof -
  have "to_le32 (of_nat (length xs)) = to_le32 (of_nat (length ys))"
    and rest: "concat (map f xs) @ a = concat (map f ys) @ b"
    using eq by (simp_all add: fixed_append_eq)
  then have len: "length xs = length ys"
    using bounds by (blast intro: small_count_inj)
  then have "length (concat (map f xs)) = length (concat (map f ys))"
    by (simp only: concat_fixed_length [where f = f and n = w, OF width])
  then have "concat (map f xs) = concat (map f ys)" and ab: "a = b"
    using rest append_eq_append_conv by blast+
  then have "xs = ys"
    using concat_map_fixed_inj [of f xs ys] len width inj by metis
  with ab show ?thesis by simp
qed

lemma manifest_bytes_inj:
  assumes "manifest_bytes a = manifest_bytes b"
    and "length (m_members a) < 2 ^ 32" and "length (m_members b) < 2 ^ 32"
  shows "a = b"
proof -
  have eq: "m_network_id a = m_network_id b \<and> m_epoch a = m_epoch b \<and> m_threshold a = m_threshold b \<and>
    to_le32 (of_nat (length (m_members a))) @ concat (map member_bytes (m_members a)) @ [] =
    to_le32 (of_nat (length (m_members b))) @ concat (map member_bytes (m_members b)) @ []"
    using assms(1) by (simp add: manifest_bytes_def fixed_append_eq)
  then have "m_members a = m_members b"
    using counted_append_eq [where f = member_bytes and w = 33 and a = "[]" and b = "[]",
        OF _ assms(2,3) length_member_bytes] member_bytes_inj by blast
  with eq show ?thesis by simp
qed

lemma tx_bytes_inj:
  assumes "tx_bytes a = Inr bs" and "tx_bytes b = Inr bs"
  shows "a = b"
proof -
  have lens: "length (tx_outputs a) < 2 ^ 32" "length (tx_outputs b) < 2 ^ 32"
    using assms by (auto simp: tx_bytes_def split: if_splits)
  have eq: "tx_version a = tx_version b \<and> tx_network_id a = tx_network_id b \<and> tx_epoch a = tx_epoch b \<and>
    tx_committee_hash a = tx_committee_hash b \<and> tx_input a = tx_input b \<and>
    to_le32 (of_nat (length (tx_outputs a))) @ concat (map output_bytes (tx_outputs a)) @
      (to_le64 (tx_fee a) @ array_bytes (tx_salt a)) =
    to_le32 (of_nat (length (tx_outputs b))) @ concat (map output_bytes (tx_outputs b)) @
      (to_le64 (tx_fee b) @ array_bytes (tx_salt b))"
    using assms by (auto simp: tx_bytes_def fixed_append_eq split: if_splits)
  then have "tx_outputs a = tx_outputs b \<and>
    to_le64 (tx_fee a) @ array_bytes (tx_salt a) = to_le64 (tx_fee b) @ array_bytes (tx_salt b)"
    using counted_append_eq [where f = output_bytes and w = 44, OF _ lens length_output_bytes]
      output_bytes_inj by blast
  with eq show ?thesis by (simp add: fixed_append_eq)
qed

lemma hash_domain_collide:
  assumes "hash_domain C d x = hash_domain C d y"
  shows "x = y \<or> collide C (ascii d @ x) (ascii d @ y)"
  using assms by (auto simp: hash_domain_def collide_def)

lemma intent_hash_Inr_iff [result_simps]:
  "intent_hash C tx = Inr h \<longleftrightarrow> (\<exists>bs. tx_bytes tx = Inr bs \<and>
    h = hash_domain C ''CALIBRE_INTEGRATION001_TX_INTENT_V1'' bs)"
  by (auto simp: intent_hash_def)

section \<open>What an accepted transaction satisfies\<close>

definition outputs_value :: "tx_output list \<Rightarrow> nat" where
  "outputs_value outs = sum_list (map (\<lambda>out. unat (out_amount out)) outs)"

lemma outputs_value_simps [simp]:
  "outputs_value [] = 0"
  "outputs_value (out # outs) = unat (out_amount out) + outputs_value outs"
  by (simp_all add: outputs_value_def)

lemma add_outputs_iff:
  "foldE (add_output tx) outs acc = Inr res \<longleftrightarrow>
    (\<forall>out \<in> set outs. out_asset_id out = cr_asset_id (cell_reference (tx_input tx)) \<and> out_amount out \<noteq> 0) \<and>
    unat acc + outputs_value outs < 2 ^ 64 \<and> unat res = unat acc + outputs_value outs"
proof (induction outs arbitrary: acc)
  case Nil
  then show ?case
    using unat_bound [of acc] by (auto simp: word_unat_eq_iff)
next
  case (Cons out outs)
  have "foldE (add_output tx) (out # outs) acc = Inr res \<longleftrightarrow>
      out_asset_id out = cr_asset_id (cell_reference (tx_input tx)) \<and> out_amount out \<noteq> 0 \<and>
      (\<exists>mid. checked_add64 acc (out_amount out) = Some mid \<and> foldE (add_output tx) outs mid = Inr res)"
    by (auto simp: add_output_def)
  also have "\<dots> \<longleftrightarrow> out_asset_id out = cr_asset_id (cell_reference (tx_input tx)) \<and> out_amount out \<noteq> 0 \<and>
      (\<forall>o' \<in> set outs. out_asset_id o' = cr_asset_id (cell_reference (tx_input tx)) \<and> out_amount o' \<noteq> 0) \<and>
      unat acc + outputs_value (out # outs) < 2 ^ 64 \<and> unat res = unat acc + outputs_value (out # outs)"
    unfolding Cons.IH checked_add64_Some_iff
    by (auto intro!: exI [of _ "acc + out_amount out"] simp: unat_word_ariths)
  finally show ?case by auto
qed

lemma validate_cell_Inr_iff [result_simps]:
  "validate_cell C c = Inr u \<longleftrightarrow> cell_amount c \<noteq> 0 \<and> cr_asset_id (cell_reference c) = ASSET_CALIBRE \<and>
    cell_state_digest c = compute_cell_digest C (cell_reference c) (cell_amount c) (cell_owner c) (cell_predecessor c)"
  by (auto simp: validate_cell_def)

definition valid_tx :: "crypto \<Rightarrow> tx \<Rightarrow> committee_manifest \<Rightarrow> bool" where
  "valid_tx C tx manifest \<longleftrightarrow>
    valid_manifest C manifest \<and> validate_cell C (tx_input tx) = Inr () \<and>
    tx_version tx = PROTOCOL_VERSION \<and> tx_network_id tx = m_network_id manifest \<and>
    tx_epoch tx = m_epoch manifest \<and> committee_hash C manifest = Inr (tx_committee_hash tx) \<and>
    tx_fee tx \<noteq> 0 \<and> tx_outputs tx \<noteq> [] \<and> length (tx_outputs tx) \<le> 8 \<and>
    (\<forall>out \<in> set (tx_outputs tx). out_asset_id out = ASSET_CALIBRE \<and> out_amount out \<noteq> 0) \<and>
    unat (tx_fee tx) + outputs_value (tx_outputs tx) = unat (cell_amount (tx_input tx))"

lemma validate_tx_iff [result_simps]: "validate_tx C tx manifest = Inr u \<longleftrightarrow> valid_tx C tx manifest"
proof -
  have "validate_tx C tx manifest = Inr u \<longleftrightarrow>
    validate_manifest C manifest = Inr () \<and> validate_cell C (tx_input tx) = Inr () \<and>
    tx_version tx = PROTOCOL_VERSION \<and> tx_network_id tx = m_network_id manifest \<and>
    tx_epoch tx = m_epoch manifest \<and> committee_hash C manifest = Inr (tx_committee_hash tx) \<and>
    tx_fee tx \<noteq> 0 \<and>
    foldE (add_output tx) (tx_outputs tx) (tx_fee tx) = Inr (cell_amount (tx_input tx)) \<and>
    (\<exists>h. intent_hash C tx = Inr h)"
    by (auto simp: validate_tx_def)
  also have "\<dots> \<longleftrightarrow> valid_tx C tx manifest"
    using unat_bound [of "cell_amount (tx_input tx)"]
    by (auto simp: valid_tx_def validate_manifest_iff add_outputs_iff validate_cell_Inr_iff
        intent_hash_Inr_iff tx_bytes_def)
  finally show ?thesis .
qed

lemma verify_user_auth_iff [result_simps]:
  "verify_user_auth C tx auth manifest = Inr u \<longleftrightarrow>
    valid_tx C tx manifest \<and> auth_signer auth = cell_owner (tx_input tx) \<and> key_ok C (auth_signer auth) \<and>
    (\<exists>h. intent_hash C tx = Inr h \<and> verify_strict C (auth_signer auth) (array_bytes h) (auth_signature auth))"
  by (auto simp: verify_user_auth_def validate_tx_iff user_message_def)

end
