(* ===== verification/Quorum.thy ===== *)
theory Quorum
  imports Cells
begin

text \<open>
  Votes, quorum certificates and proposals (\<open>integration001/src/model.rs\<close>, second half):
  the signed statements of the validators, the certificate of five to seven of them, and
  the conflict-local proposer.
\<close>

section \<open>Data\<close>

record vote =
  v_network_id :: u32
  v_epoch :: u64
  v_committee_hash :: digest
  v_phase :: u8
  v_round :: u64
  v_conflict_key :: digest
  v_intent :: digest
  v_justify :: digest
  v_signer_index :: u8
  v_signature :: signature

record qc =
  qc_votes :: "vote list"

record proposal =
  pr_round :: u64
  pr_proposer_index :: u8
  pr_tx :: tx
  pr_auth :: user_auth
  pr_intent :: digest
  pr_justify :: "qc option"
  pr_signature :: signature

section \<open>The conflict-local leader\<close>

definition leader :: "digest \<Rightarrow> u64 \<Rightarrow> nat" where
  "leader conflict rnd =
    (let offset = unat (from_le64 (take 8 (array_bytes conflict))) mod N
     in (offset + unat rnd mod N) mod N)"

section \<open>Votes\<close>

definition vote_statement_bytes ::
    "committee_manifest \<Rightarrow> digest \<Rightarrow> u8 \<Rightarrow> u64 \<Rightarrow> digest \<Rightarrow> digest \<Rightarrow> digest \<Rightarrow> u8 \<Rightarrow> u8 list" where
  "vote_statement_bytes manifest h phase rnd conflict intent justify signer_index =
    to_le16 PROTOCOL_VERSION @ to_le32 (m_network_id manifest) @ to_le64 (m_epoch manifest) @
    array_bytes h @ [phase] @ to_le64 rnd @ array_bytes conflict @ array_bytes intent @
    array_bytes justify @ [signer_index]"

definition vote_message ::
    "crypto \<Rightarrow> committee_manifest \<Rightarrow> u8 \<Rightarrow> u64 \<Rightarrow> digest \<Rightarrow> digest \<Rightarrow> digest \<Rightarrow> u8 \<Rightarrow> model_error + u8 list" where
  "vote_message C manifest phase rnd conflict intent justify signer_index =
    (if phase \<noteq> PHASE_PREVOTE \<and> phase \<noteq> PHASE_PRECOMMIT then Inl (VoteError InvalidPhase)
     else bindE (committee_hash C manifest) (\<lambda>h.
       Inr (array_bytes (hash_domain C ''CALIBRE_INTEGRATION001_VOTE_STATEMENT_V1''
         (vote_statement_bytes manifest h phase rnd conflict intent justify signer_index)))))"

definition sign_vote ::
    "crypto \<Rightarrow> committee_manifest \<Rightarrow> u8 \<Rightarrow> u64 \<Rightarrow> digest \<Rightarrow> digest \<Rightarrow> digest \<Rightarrow> u8 \<Rightarrow> signing_key
      \<Rightarrow> model_error + vote" where
  "sign_vote C manifest phase rnd conflict intent justify signer_index key =
    bindE (validate_manifest C manifest) (\<lambda>_.
    if unat signer_index \<ge> length (m_members manifest) then Inl (VoteError SignerNotMember)
    else let member = m_members manifest ! unat signer_index in
    if cm_index member \<noteq> signer_index \<or> cm_public_key member \<noteq> public_of C key
    then Inl (VoteError KeySlotMismatch)
    else if phase = PHASE_PREVOTE \<and> justify \<noteq> zero_array then Inl (VoteError PrevoteWithJustify)
    else if phase = PHASE_PRECOMMIT \<and> justify = zero_array then Inl (VoteError PrecommitWithoutJustify)
    else bindE (vote_message C manifest phase rnd conflict intent justify signer_index) (\<lambda>msg.
    bindE (committee_hash C manifest) (\<lambda>h.
    Inr \<lparr>v_network_id = m_network_id manifest, v_epoch = m_epoch manifest, v_committee_hash = h,
         v_phase = phase, v_round = rnd, v_conflict_key = conflict, v_intent = intent,
         v_justify = justify, v_signer_index = signer_index, v_signature = sign_with C key msg\<rparr>)))"

definition verify_vote :: "crypto \<Rightarrow> vote \<Rightarrow> committee_manifest \<Rightarrow> model_error + unit" where
  "verify_vote C vote manifest =
    bindE (validate_manifest C manifest) (\<lambda>_.
    if v_network_id vote \<noteq> m_network_id manifest \<or> v_epoch vote \<noteq> m_epoch manifest
    then Inl (VoteError VoteContextMismatch)
    else bindE (committee_hash C manifest) (\<lambda>h.
    if v_committee_hash vote \<noteq> h then Inl (VoteError VoteCommitteeMismatch)
    else if v_phase vote = PHASE_PREVOTE \<and> v_justify vote \<noteq> zero_array
    then Inl (VoteError PrevoteWithJustify)
    else if v_phase vote = PHASE_PRECOMMIT \<and> v_justify vote = zero_array
    then Inl (VoteError PrecommitWithoutJustify)
    else if unat (v_signer_index vote) \<ge> length (m_members manifest) then Inl (VoteError SignerNotMember)
    else let member = m_members manifest ! unat (v_signer_index vote) in
    if cm_index member \<noteq> v_signer_index vote then Inl (VoteError VoteIndexMismatch)
    else if \<not> key_ok C (cm_public_key member) then Inl (VoteError InvalidValidatorKey)
    else bindE (vote_message C manifest (v_phase vote) (v_round vote) (v_conflict_key vote)
                 (v_intent vote) (v_justify vote) (v_signer_index vote)) (\<lambda>msg.
    if verify_strict C (cm_public_key member) msg (v_signature vote) then Inr ()
    else Inl (VoteError InvalidVoteSignature))))"

section \<open>Quorum certificates\<close>

text \<open>The statement every vote of a certificate must make.\<close>

definition same_statement :: "vote \<Rightarrow> u8 \<Rightarrow> u64 \<Rightarrow> digest \<Rightarrow> digest \<Rightarrow> bool" where
  "same_statement vote phase rnd conflict intent \<longleftrightarrow>
    v_phase vote = phase \<and> v_round vote = rnd \<and> v_conflict_key vote = conflict \<and> v_intent vote = intent"

definition verify_qc_vote ::
    "crypto \<Rightarrow> committee_manifest \<Rightarrow> u8 \<Rightarrow> u64 \<Rightarrow> digest \<Rightarrow> digest \<Rightarrow> digest option
      \<Rightarrow> vote \<Rightarrow> u8 option \<Rightarrow> model_error + u8 option" where
  "verify_qc_vote C manifest phase rnd conflict intent expected_justify vote prior =
    bindE (verify_vote C vote manifest) (\<lambda>_.
    if \<not> same_statement vote phase rnd conflict intent then Inl (QcError MixedStatement)
    else if (case expected_justify of Some justify \<Rightarrow> v_justify vote \<noteq> justify | None \<Rightarrow> False)
    then Inl (QcError JustifyMismatch)
    else if expected_justify = None \<and> v_justify vote \<noteq> zero_array then Inl (QcError UnexpectedJustify)
    else if (case prior of Some previous \<Rightarrow> v_signer_index vote \<le> previous | None \<Rightarrow> False)
    then Inl (QcError UnsortedSigners)
    else Inr (Some (v_signer_index vote)))"

definition verify_qc ::
    "crypto \<Rightarrow> qc \<Rightarrow> committee_manifest \<Rightarrow> u8 \<Rightarrow> u64 \<Rightarrow> digest \<Rightarrow> digest \<Rightarrow> digest option
      \<Rightarrow> model_error + unit" where
  "verify_qc C qc manifest phase rnd conflict intent expected_justify =
    (if length (qc_votes qc) < Q \<or> length (qc_votes qc) > N then Inl (QcError BadVoteCount)
     else map_ok (\<lambda>_. ())
       (foldE (verify_qc_vote C manifest phase rnd conflict intent expected_justify) (qc_votes qc) None))"

text \<open>One turn of the collecting loop of \<open>assemble_qc\<close>: the votes seen so far, by signer index.\<close>

definition collect_vote ::
    "crypto \<Rightarrow> committee_manifest \<Rightarrow> u8 \<Rightarrow> u64 \<Rightarrow> digest \<Rightarrow> digest \<Rightarrow> digest option
      \<Rightarrow> vote \<Rightarrow> (u8, vote) fmap \<Rightarrow> model_error + (u8, vote) fmap" where
  "collect_vote C manifest phase rnd conflict intent expected_justify vote by_index =
    bindE (verify_vote C vote manifest) (\<lambda>_.
    if \<not> same_statement vote phase rnd conflict intent then Inl (QcError MixedStatement)
    else if (case expected_justify of Some justify \<Rightarrow> v_justify vote \<noteq> justify | None \<Rightarrow> False)
    then Inl (QcError JustifyMismatch)
    else if fmlookup by_index (v_signer_index vote) \<noteq> None then Inl (QcError DuplicateSigner)
    else Inr (fmupd (v_signer_index vote) vote by_index))"

definition assemble_qc ::
    "crypto \<Rightarrow> vote list \<Rightarrow> committee_manifest \<Rightarrow> u8 \<Rightarrow> u64 \<Rightarrow> digest \<Rightarrow> digest \<Rightarrow> digest option
      \<Rightarrow> model_error + qc" where
  "assemble_qc C votes manifest phase rnd conflict intent expected_justify =
    bindE (foldE (collect_vote C manifest phase rnd conflict intent expected_justify) votes fmempty)
      (\<lambda>by_index.
    let qc = \<lparr>qc_votes = map snd (sorted_list_of_fmap by_index)\<rparr> in
    bindE (verify_qc C qc manifest phase rnd conflict intent expected_justify) (\<lambda>_. Inr qc))"

definition qc_bytes :: "qc \<Rightarrow> vote \<Rightarrow> u8 list" where
  "qc_bytes qc first =
    to_le32 (of_nat (length (qc_votes qc))) @
    concat (map (\<lambda>vote. v_signer_index vote # array_bytes (v_signature vote)) (qc_votes qc)) @
    [v_phase first] @ to_le64 (v_round first) @ array_bytes (v_conflict_key first) @
    array_bytes (v_intent first) @ array_bytes (v_justify first)"

definition qc_digest :: "crypto \<Rightarrow> qc \<Rightarrow> committee_manifest \<Rightarrow> model_error + digest" where
  "qc_digest C qc manifest =
    (case qc_votes qc of
       [] \<Rightarrow> Inl (QcError EmptyQc)
     | first # _ \<Rightarrow>
         bindE (verify_qc C qc manifest (v_phase first) (v_round first) (v_conflict_key first)
                 (v_intent first)
                 (if v_phase first = PHASE_PRECOMMIT then Some (v_justify first) else None)) (\<lambda>_.
         Inr (hash_domain C ''CALIBRE_INTEGRATION001_QC_V1'' (qc_bytes qc first))))"

section \<open>Proposals\<close>

definition proposal_message ::
    "crypto \<Rightarrow> committee_manifest \<Rightarrow> u64 \<Rightarrow> u8 \<Rightarrow> digest \<Rightarrow> digest \<Rightarrow> model_error + u8 list" where
  "proposal_message C manifest rnd proposer_index intent justify_digest =
    bindE (committee_hash C manifest) (\<lambda>h.
      Inr (array_bytes (hash_domain C ''CALIBRE_INTEGRATION001_PROPOSAL_V1''
        (to_le16 PROTOCOL_VERSION @ to_le32 (m_network_id manifest) @ to_le64 (m_epoch manifest) @
         array_bytes h @ to_le64 rnd @ [proposer_index] @ array_bytes intent @
         array_bytes justify_digest))))"

text \<open>The digest of the justification of a proposal of round \<open>round\<close>, shared by its maker and its checker.\<close>

definition justify_digest_of ::
    "crypto \<Rightarrow> committee_manifest \<Rightarrow> u64 \<Rightarrow> digest \<Rightarrow> digest \<Rightarrow> qc option \<Rightarrow> model_error + digest" where
  "justify_digest_of C manifest rnd conflict intent justify =
    (case justify of
       None \<Rightarrow> Inr zero_array
     | Some qc \<Rightarrow>
         (case qc_votes qc of
            [] \<Rightarrow> Inl (QcError EmptyQc)
          | first # _ \<Rightarrow>
              bindE (verify_qc C qc manifest PHASE_PREVOTE (v_round first) conflict intent None) (\<lambda>_.
              if v_round first \<ge> rnd then Inl (ProposalError JustifyNotLower)
              else qc_digest C qc manifest)))"

definition make_proposal ::
    "crypto \<Rightarrow> committee_manifest \<Rightarrow> u64 \<Rightarrow> tx \<Rightarrow> user_auth \<Rightarrow> qc option \<Rightarrow> model_error + proposal" where
  "make_proposal C manifest rnd tx auth justify =
    bindE (verify_user_auth C tx auth manifest) (\<lambda>_.
    bindE (intent_hash C tx) (\<lambda>intent.
    let conflict = conflict_key C (cell_reference (tx_input tx));
        proposer_index = of_nat (leader conflict rnd)
    in bindE (justify_digest_of C manifest rnd conflict intent justify) (\<lambda>jd.
    let key = lab_validator_key C (m_epoch manifest) (unat (proposer_index :: u8))
    in bindE (proposal_message C manifest rnd proposer_index intent jd) (\<lambda>msg.
    Inr \<lparr>pr_round = rnd, pr_proposer_index = proposer_index, pr_tx = tx, pr_auth = auth,
         pr_intent = intent, pr_justify = justify, pr_signature = sign_with C key msg\<rparr>))))"

definition verify_proposal :: "crypto \<Rightarrow> proposal \<Rightarrow> committee_manifest \<Rightarrow> model_error + unit" where
  "verify_proposal C p manifest =
    bindE (verify_user_auth C (pr_tx p) (pr_auth p) manifest) (\<lambda>_.
    bindE (intent_hash C (pr_tx p)) (\<lambda>intent.
    if pr_intent p \<noteq> intent then Inl (ProposalError ProposalIntentMismatch)
    else let conflict = conflict_key C (cell_reference (tx_input (pr_tx p))) in
    if unat (pr_proposer_index p) \<noteq> leader conflict (pr_round p) then Inl (ProposalError WrongProposer)
    else bindE (justify_digest_of C manifest (pr_round p) conflict (pr_intent p) (pr_justify p)) (\<lambda>jd.
    if unat (pr_proposer_index p) \<ge> length (m_members manifest) then Inl (ProposalError ProposerNotMember)
    else let member = m_members manifest ! unat (pr_proposer_index p) in
    if \<not> key_ok C (cm_public_key member) then Inl (ProposalError InvalidProposerKey)
    else bindE (proposal_message C manifest (pr_round p) (pr_proposer_index p) (pr_intent p) jd) (\<lambda>msg.
    if verify_strict C (cm_public_key member) msg (pr_signature p) then Inr ()
    else Inl (ProposalError InvalidProposalSignature)))))"

section \<open>The leader rotates over the committee\<close>

lemma leader_eq: "leader conflict rnd = (leader conflict 0 + unat rnd) mod N"
  by (simp add: leader_def Let_def mod_add_right_eq)

lemma leader_lt_N: "leader conflict rnd < N"
  by (simp add: leader_def Let_def N_def)

lemma rotation_covers:
  assumes "j < (7 :: nat)"
  shows "\<exists>k < 7. (a + k) mod 7 = j"
proof -
  obtain q r where a: "a = 7 * q + r" and r: "r < 7"
    by (metis mod_less_divisor mult_div_mod_eq zero_less_numeral)
  show ?thesis
  proof (cases "r \<le> j")
    case True
    then have "a + (j - r) = 7 * q + j"
      using a by simp
    then have "(a + (j - r)) mod 7 = j"
      using assms by simp
    then show ?thesis
      using assms by (intro exI [of _ "j - r"]) simp
  next
    case False
    then have "a + (j + 7 - r) = 7 * (q + 1) + j"
      using a r by simp
    then have "(a + (j + 7 - r)) mod 7 = j"
      using assms by (metis mod_less mod_mult_self4)
    then show ?thesis
      using False by (intro exI [of _ "j + 7 - r"]) simp
  qed
qed

section \<open>Accepted votes\<close>

text \<open>The statement a vote makes, as the bytes that are hashed and signed.\<close>

definition vote_statement :: "committee_manifest \<Rightarrow> vote \<Rightarrow> u8 list" where
  "vote_statement manifest vote =
    vote_statement_bytes manifest (v_committee_hash vote) (v_phase vote) (v_round vote)
      (v_conflict_key vote) (v_intent vote) (v_justify vote) (v_signer_index vote)"

definition signed_statement :: "crypto \<Rightarrow> committee_manifest \<Rightarrow> vote \<Rightarrow> u8 list" where
  "signed_statement C manifest vote =
    array_bytes (hash_domain C ''CALIBRE_INTEGRATION001_VOTE_STATEMENT_V1'' (vote_statement manifest vote))"

definition valid_vote :: "crypto \<Rightarrow> vote \<Rightarrow> committee_manifest \<Rightarrow> bool" where
  "valid_vote C vote manifest \<longleftrightarrow>
    valid_manifest C manifest \<and>
    v_network_id vote = m_network_id manifest \<and> v_epoch vote = m_epoch manifest \<and>
    committee_hash C manifest = Inr (v_committee_hash vote) \<and>
    (v_phase vote = PHASE_PREVOTE \<and> v_justify vote = zero_array \<or>
     v_phase vote = PHASE_PRECOMMIT \<and> v_justify vote \<noteq> zero_array) \<and>
    unat (v_signer_index vote) < N \<and>
    verify_strict C (cm_public_key (m_members manifest ! unat (v_signer_index vote)))
      (signed_statement C manifest vote) (v_signature vote)"

lemma vote_message_Inr_iff [result_simps]:
  "vote_message C manifest phase rnd conflict intent justify i = Inr msg \<longleftrightarrow>
    (phase = PHASE_PREVOTE \<or> phase = PHASE_PRECOMMIT) \<and>
    (\<exists>h. committee_hash C manifest = Inr h \<and>
      msg = array_bytes (hash_domain C ''CALIBRE_INTEGRATION001_VOTE_STATEMENT_V1''
        (vote_statement_bytes manifest h phase rnd conflict intent justify i)))"
  by (auto simp: vote_message_def)

lemma valid_manifest_member:
  assumes "valid_manifest C manifest" and "i < N"
  shows "unat (cm_index (m_members manifest ! i)) = i"
    and "key_ok C (cm_public_key (m_members manifest ! i))"
  using assms by (auto simp: valid_manifest_def)

lemma valid_manifest_length [simp]: "valid_manifest C manifest \<Longrightarrow> length (m_members manifest) = N"
  by (simp add: valid_manifest_def)

lemma verify_vote_iff [result_simps]: "verify_vote C vote manifest = Inr u \<longleftrightarrow> valid_vote C vote manifest"
proof
  assume "verify_vote C vote manifest = Inr u"
  then show "valid_vote C vote manifest"
    by (auto simp: verify_vote_def valid_vote_def Let_def validate_manifest_iff signed_statement_def
        vote_statement_def vote_message_Inr_iff not_le split: if_splits)
next
  assume v: "valid_vote C vote manifest"
  then have "cm_index (m_members manifest ! unat (v_signer_index vote)) = v_signer_index vote"
    using valid_manifest_member(1) [of C manifest "unat (v_signer_index vote)"]
    by (simp add: valid_vote_def word_unat_eq_iff)
  with v show "verify_vote C vote manifest = Inr u"
    by (auto simp: verify_vote_def valid_vote_def Let_def validate_manifest_iff signed_statement_def
        vote_statement_def vote_message_def valid_manifest_member)
qed

lemma sign_vote_valid:
  assumes "signatures_verify C"
    and "sign_vote C manifest phase rnd conflict intent justify i key = Inr vote"
  shows "valid_vote C vote manifest"
  using assms(2) signatures_verifyD [OF assms(1)]
  by (auto simp: sign_vote_def valid_vote_def Let_def validate_manifest_iff vote_message_Inr_iff
      signed_statement_def vote_statement_def not_le split: if_splits)

lemma sign_vote_fields:
  assumes "sign_vote C manifest phase rnd conflict intent justify i key = Inr vote"
  shows "v_phase vote = phase" "v_round vote = rnd" "v_conflict_key vote = conflict"
    "v_intent vote = intent" "v_justify vote = justify" "v_signer_index vote = i"
  using assms by (auto simp: sign_vote_def Let_def split: if_splits)

lemma vote_statement_bytes_inj:
  assumes "vote_statement_bytes m h p r c x j i = vote_statement_bytes m' h' p' r' c' x' j' i'"
  shows "h = h' \<and> p = p' \<and> r = r' \<and> c = c' \<and> x = x' \<and> j = j' \<and> i = i'"
  using assms by (simp add: vote_statement_bytes_def fixed_append_eq)

section \<open>Accepted certificates\<close>

definition expected_ok :: "digest option \<Rightarrow> vote \<Rightarrow> bool" where
  "expected_ok expected_justify vote \<longleftrightarrow>
    v_justify vote = (case expected_justify of None \<Rightarrow> zero_array | Some justify \<Rightarrow> justify)"

definition valid_qc ::
    "crypto \<Rightarrow> qc \<Rightarrow> committee_manifest \<Rightarrow> u8 \<Rightarrow> u64 \<Rightarrow> digest \<Rightarrow> digest \<Rightarrow> digest option \<Rightarrow> bool" where
  "valid_qc C qc manifest phase rnd conflict intent expected_justify \<longleftrightarrow>
    Q \<le> length (qc_votes qc) \<and> length (qc_votes qc) \<le> N \<and>
    (\<forall>vote \<in> set (qc_votes qc). valid_vote C vote manifest \<and> same_statement vote phase rnd conflict intent \<and>
      expected_ok expected_justify vote) \<and>
    sorted_wrt (<) (map v_signer_index (qc_votes qc))"

lemma verify_qc_vote_iff:
  "verify_qc_vote C manifest phase rnd conflict intent ej vote prior = Inr res \<longleftrightarrow>
    valid_vote C vote manifest \<and> same_statement vote phase rnd conflict intent \<and> expected_ok ej vote \<and>
    (\<forall>previous. prior = Some previous \<longrightarrow> previous < v_signer_index vote) \<and> res = Some (v_signer_index vote)"
  by (auto simp: verify_qc_vote_def verify_vote_iff expected_ok_def not_le split: option.splits if_splits)

lemma verify_qc_votes_iff:
  "foldE (verify_qc_vote C manifest phase rnd conflict intent ej) votes prior = Inr res \<longleftrightarrow>
    (\<forall>vote \<in> set votes. valid_vote C vote manifest \<and> same_statement vote phase rnd conflict intent \<and>
      expected_ok ej vote) \<and>
    sorted_wrt (<) (map v_signer_index votes) \<and>
    (\<forall>previous. prior = Some previous \<longrightarrow> (\<forall>vote \<in> set votes. previous < v_signer_index vote)) \<and>
    res = (if votes = [] then prior else Some (v_signer_index (last votes)))"
proof (induction votes arbitrary: prior)
  case (Cons vote votes)
  have "foldE (verify_qc_vote C manifest phase rnd conflict intent ej) (vote # votes) prior = Inr res \<longleftrightarrow>
    valid_vote C vote manifest \<and> same_statement vote phase rnd conflict intent \<and> expected_ok ej vote \<and>
    (\<forall>previous. prior = Some previous \<longrightarrow> previous < v_signer_index vote) \<and>
    foldE (verify_qc_vote C manifest phase rnd conflict intent ej) votes (Some (v_signer_index vote)) = Inr res"
    by (auto simp: verify_qc_vote_iff)
  then show ?case
    unfolding Cons.IH by (auto dest: less_trans)
qed auto

lemma verify_qc_iff [result_simps]:
  "verify_qc C qc manifest phase rnd conflict intent ej = Inr u \<longleftrightarrow>
    valid_qc C qc manifest phase rnd conflict intent ej"
  by (auto simp: verify_qc_def valid_qc_def verify_qc_votes_iff not_less)

definition signers :: "qc \<Rightarrow> nat set" where
  "signers qc = (\<lambda>vote. unat (v_signer_index vote)) ` set (qc_votes qc)"

lemma valid_qc_signers:
  assumes "valid_qc C qc manifest phase rnd conflict intent ej"
  shows "signers qc \<subseteq> {..<N}" and "card (signers qc) = length (qc_votes qc)"
    and "Q \<le> card (signers qc)"
proof -
  show "signers qc \<subseteq> {..<N}"
    using assms by (auto simp: valid_qc_def signers_def valid_vote_def)
  have "distinct (map v_signer_index (qc_votes qc))"
    using assms strict_sorted_iff by (auto simp: valid_qc_def)
  then have "distinct (map (\<lambda>vote. unat (v_signer_index vote)) (qc_votes qc))"
    by (simp add: distinct_map inj_on_def word_unat_eq_iff)
  then show card: "card (signers qc) = length (qc_votes qc)"
    unfolding signers_def by (metis distinct_card length_map list.set_map)
  show "Q \<le> card (signers qc)"
    using assms card by (simp add: valid_qc_def)
qed

text \<open>Two quorums of a committee of seven share at least three members.\<close>

lemma quorums_intersect:
  assumes "A \<subseteq> {..<N}" and "B \<subseteq> {..<N}" and "Q \<le> card A" and "Q \<le> card B"
  shows "3 \<le> card (A \<inter> B)"
  by (rule quorum_overlap [OF assms(1,2)]) (use assms(3,4) in \<open>simp add: N_def Q_def\<close>)

section \<open>Assembling a certificate\<close>

definition votes_by_index :: "vote list \<Rightarrow> (u8, vote) fmap" where
  "votes_by_index votes = fmap_of_list (map (\<lambda>vote. (v_signer_index vote, vote)) votes)"

lemma collect_vote_iff:
  "collect_vote C manifest phase rnd conflict intent ej vote m = Inr m' \<longleftrightarrow>
    valid_vote C vote manifest \<and> same_statement vote phase rnd conflict intent \<and>
    (\<forall>justify. ej = Some justify \<longrightarrow> v_justify vote = justify) \<and>
    fmlookup m (v_signer_index vote) = None \<and> m' = fmupd (v_signer_index vote) vote m"
  by (auto simp: collect_vote_def verify_vote_iff split: option.splits if_splits)

lemma collect_votes_iff:
  "foldE (collect_vote C manifest phase rnd conflict intent ej) votes m = Inr m' \<longleftrightarrow>
    (\<forall>vote \<in> set votes. valid_vote C vote manifest \<and> same_statement vote phase rnd conflict intent \<and>
      (\<forall>justify. ej = Some justify \<longrightarrow> v_justify vote = justify) \<and> v_signer_index vote |\<notin>| fmdom m) \<and>
    distinct (map v_signer_index votes) \<and>
    m' = m ++\<^sub>f votes_by_index votes"
proof (induction votes arbitrary: m)
  case Nil
  then show ?case by (auto simp: votes_by_index_def)
next
  case (Cons vote votes)
  have upd: "v_signer_index vote \<notin> v_signer_index ` set votes \<Longrightarrow>
      fmupd (v_signer_index vote) vote m ++\<^sub>f votes_by_index votes = m ++\<^sub>f votes_by_index (vote # votes)"
    by (rule fmap_ext) (auto simp: votes_by_index_def fmlookup_of_list map_of_eq_None_iff fset_of_list_elem
      dest!: map_of_SomeD split: option.splits)
  show ?case
    using upd by (auto simp: collect_vote_iff Cons.IH fmlookup_dom_iff)
qed

lemma votes_by_index_lookup:
  assumes "distinct (map v_signer_index votes)"
  shows "fmlookup (votes_by_index votes) i = Some v \<longleftrightarrow> v \<in> set votes \<and> v_signer_index v = i"
proof -
  have "distinct (map fst (map (\<lambda>vote. (v_signer_index vote, vote)) votes))"
    using assms by (simp add: comp_def)
  then show ?thesis
    by (auto simp: votes_by_index_def fmlookup_of_list)
qed

lemma sorted_list_of_fmap_votes:
  assumes "distinct (map v_signer_index votes)"
  shows "mset (map snd (sorted_list_of_fmap (votes_by_index votes))) = mset votes"
    and "map v_signer_index (map snd (sorted_list_of_fmap (votes_by_index votes))) =
      sorted_list_of_set (v_signer_index ` set votes)"
proof -
  let ?m = "votes_by_index votes" and ?l = "sorted_list_of_fmap (votes_by_index votes)"
  note lookup = votes_by_index_lookup [OF assms]
  have mem: "(i, v) \<in> set ?l \<longleftrightarrow> v \<in> set votes \<and> v_signer_index v = i" for i v
    by (simp add: sorted_list_of_fmap_mem lookup)
  have idx: "map v_signer_index (map snd ?l) = map fst ?l"
    using mem by (auto simp: map_eq_conv)
  have keys: "map fst ?l = sorted_list_of_set (v_signer_index ` set votes)"
    unfolding sorted_list_of_fmap_keys by (simp add: votes_by_index_def sorted_list_of_fset.rep_eq image_image fset_of_list.rep_eq)
  show "map v_signer_index (map snd ?l) = sorted_list_of_set (v_signer_index ` set votes)"
    using idx keys by simp
  have "distinct (map v_signer_index (map snd ?l))"
    unfolding idx keys by simp
  then have "distinct (map snd ?l)"
    using distinct_map by blast
  moreover have "distinct votes"
    using assms by (simp add: distinct_map)
  moreover have "set (map snd ?l) = set votes"
    using mem by force
  ultimately show "mset (map snd ?l) = mset votes"
    using set_eq_iff_mset_eq_distinct by blast
qed

lemma assemble_qc_Inr_iff [result_simps]:
  "assemble_qc C votes manifest phase rnd conflict intent ej = Inr qc \<longleftrightarrow>
    distinct (map v_signer_index votes) \<and>
    qc = \<lparr>qc_votes = map snd (sorted_list_of_fmap (votes_by_index votes))\<rparr> \<and>
    valid_qc C qc manifest phase rnd conflict intent ej"
proof -
  have set: "distinct (map v_signer_index votes) \<Longrightarrow>
      set (map snd (sorted_list_of_fmap (votes_by_index votes))) = set votes"
    using sorted_list_of_fmap_votes(1) by (metis mset_eq_setD)
  have "assemble_qc C votes manifest phase rnd conflict intent ej = Inr qc \<longleftrightarrow>
    (\<forall>vote \<in> set votes. valid_vote C vote manifest \<and> same_statement vote phase rnd conflict intent \<and>
      (\<forall>justify. ej = Some justify \<longrightarrow> v_justify vote = justify)) \<and>
    distinct (map v_signer_index votes) \<and>
    qc = \<lparr>qc_votes = map snd (sorted_list_of_fmap (votes_by_index votes))\<rparr> \<and>
    valid_qc C qc manifest phase rnd conflict intent ej"
    by (auto simp: assemble_qc_def collect_votes_iff verify_qc_iff Let_def)
  then show ?thesis
    using set by (auto simp: valid_qc_def expected_ok_def)
qed

lemma votes_by_index_perm:
  assumes "mset votes = mset votes'" and "distinct (map v_signer_index votes)"
  shows "votes_by_index votes = votes_by_index votes'"
proof -
  have "distinct (map v_signer_index votes')"
    using assms by (metis mset_eq_imp_distinct_iff mset_map)
  then have "fmlookup (votes_by_index votes) i = Some v \<longleftrightarrow> fmlookup (votes_by_index votes') i = Some v" for i v
    using assms by (simp add: votes_by_index_lookup mset_eq_setD [OF assms(1)])
  then show ?thesis
    by (intro fmap_ext) (metis not_Some_eq)
qed

lemma assemble_qc_perm:
  assumes "assemble_qc C votes manifest phase rnd conflict intent ej = Inr qc"
    and "mset votes = mset votes'"
  shows "assemble_qc C votes' manifest phase rnd conflict intent ej = Inr qc"
proof -
  have "distinct (map v_signer_index votes')"
    using assms by (metis assemble_qc_Inr_iff mset_eq_imp_distinct_iff mset_map)
  moreover have "votes_by_index votes' = votes_by_index votes"
    using assms votes_by_index_perm by (metis assemble_qc_Inr_iff)
  ultimately show ?thesis
    using assms(1) by (auto simp: assemble_qc_Inr_iff)
qed

section \<open>Certificate digests\<close>

lemma valid_qc_nonempty:
  assumes "valid_qc C qc manifest phase rnd conflict intent ej"
  obtains first rest where "qc_votes qc = first # rest" "same_statement first phase rnd conflict intent"
    "expected_ok ej first" "valid_vote C first manifest"
  using assms by (cases "qc_votes qc") (auto simp: valid_qc_def Q_def)

lemma qc_digest_valid:
  assumes "valid_qc C qc manifest phase rnd conflict intent ej"
    and "phase = PHASE_PREVOTE \<Longrightarrow> ej = None" and "phase = PHASE_PRECOMMIT \<Longrightarrow> ej \<noteq> None"
  shows "qc_digest C qc manifest =
    Inr (hash_domain C ''CALIBRE_INTEGRATION001_QC_V1'' (qc_bytes qc (hd (qc_votes qc))))"
proof -
  obtain first rest where qc: "qc_votes qc = first # rest"
    and st: "same_statement first phase rnd conflict intent" and ok: "expected_ok ej first"
    and v: "valid_vote C first manifest"
    using assms(1) by (rule valid_qc_nonempty)
  have "ej = (if v_phase first = PHASE_PRECOMMIT then Some (v_justify first) else None)"
    using st ok v assms(2,3) by (auto simp: same_statement_def expected_ok_def valid_vote_def split: option.splits)
  then have "verify_qc C qc manifest (v_phase first) (v_round first) (v_conflict_key first) (v_intent first)
      (if v_phase first = PHASE_PRECOMMIT then Some (v_justify first) else None) = Inr ()"
    using assms(1) st by (auto simp: verify_qc_iff same_statement_def)
  then show ?thesis
    by (simp add: qc_digest_def qc)
qed

lemma qc_digest_InrD:
  assumes "qc_digest C qc manifest = Inr d"
  obtains first rest where "qc_votes qc = first # rest"
    "valid_qc C qc manifest (v_phase first) (v_round first) (v_conflict_key first) (v_intent first)
      (if v_phase first = PHASE_PRECOMMIT then Some (v_justify first) else None)"
    "d = hash_domain C ''CALIBRE_INTEGRATION001_QC_V1'' (qc_bytes qc first)"
  using assms that by (auto simp: qc_digest_def verify_qc_iff split: list.splits)

lemma qc_bytes_inj:
  assumes "qc_bytes a fa = qc_bytes b fb"
    and "length (qc_votes a) \<le> N" and "length (qc_votes b) \<le> N"
  shows "map (\<lambda>v. (v_signer_index v, v_signature v)) (qc_votes a) = map (\<lambda>v. (v_signer_index v, v_signature v)) (qc_votes b)"
    and "v_phase fa = v_phase fb" "v_round fa = v_round fb" "v_conflict_key fa = v_conflict_key fb"
    "v_intent fa = v_intent fb" "v_justify fa = v_justify fb"
proof -
  let ?g = "\<lambda>v. (v_signer_index v, v_signature v)" and ?f = "\<lambda>(i, s). i # array_bytes (s :: signature)"
  let ?tail = "\<lambda>v. [v_phase v] @ to_le64 (v_round v) @ array_bytes (v_conflict_key v) @
    array_bytes (v_intent v) @ array_bytes (v_justify v)"
  have form: "qc_bytes q v = to_le32 (of_nat (length (map ?g (qc_votes q)))) @
      concat (map ?f (map ?g (qc_votes q))) @ ?tail v" for q v
    by (simp add: qc_bytes_def comp_def)
  have "map ?g (qc_votes a) = map ?g (qc_votes b) \<and> ?tail fa = ?tail fb"
  proof (rule counted_append_eq [where f = ?f and w = 65])
    show "to_le32 (of_nat (length (map ?g (qc_votes a)))) @ concat (map ?f (map ?g (qc_votes a))) @ ?tail fa =
        to_le32 (of_nat (length (map ?g (qc_votes b)))) @ concat (map ?f (map ?g (qc_votes b))) @ ?tail fb"
      using assms(1) by (simp only: form)
  qed (use assms(2,3) in \<open>auto simp: N_def split: prod.splits\<close>)
  then show "map ?g (qc_votes a) = map ?g (qc_votes b)" "v_phase fa = v_phase fb" "v_round fa = v_round fb"
    "v_conflict_key fa = v_conflict_key fb" "v_intent fa = v_intent fb" "v_justify fa = v_justify fb"
    by (simp_all add: fixed_append_eq)
qed

text \<open>Under one manifest, an accepted certificate is determined by the bytes that are hashed.\<close>

lemma valid_vote_context:
  assumes "valid_vote C v manifest" and "valid_vote C w manifest"
    and "same_statement v phase rnd conflict intent" and "same_statement w phase rnd conflict intent"
    and "v_justify v = v_justify w" "v_signer_index v = v_signer_index w" "v_signature v = v_signature w"
  shows "v = w"
  using assms by (auto simp: valid_vote_def same_statement_def intro: vote.equality)

lemma qc_bytes_determines:
  assumes va: "valid_qc C a manifest p r c x ja" and vb: "valid_qc C b manifest p' r' c' x' jb"
    and qa: "qc_votes a = fa # resta" and qb: "qc_votes b = fb # restb"
    and eq: "qc_bytes a fa = qc_bytes b fb"
  shows "a = b"
proof -
  have lens: "length (qc_votes a) \<le> N" "length (qc_votes b) \<le> N"
    using va vb by (auto simp: valid_qc_def)
  note inj = qc_bytes_inj [OF eq lens]
  have va': "\<forall>v \<in> set (qc_votes a). valid_vote C v manifest \<and> same_statement v p r c x \<and> v_justify v = v_justify fa"
    using va qa by (auto simp: valid_qc_def expected_ok_def)
  have "p' = p \<and> r' = r \<and> c' = c \<and> x' = x"
    using inj va vb qa qb by (auto simp: valid_qc_def same_statement_def)
  then have vb': "\<forall>v \<in> set (qc_votes b). valid_vote C v manifest \<and> same_statement v p r c x \<and> v_justify v = v_justify fa"
    using vb qb inj(6) by (auto simp: valid_qc_def expected_ok_def)
  have len: "length (qc_votes a) = length (qc_votes b)"
    using inj(1) by (rule map_eq_imp_length_eq)
  have "qc_votes a = qc_votes b"
  proof (rule nth_equalityI [OF len])
    fix i assume i: "i < length (qc_votes a)"
    have "(v_signer_index (qc_votes a ! i), v_signature (qc_votes a ! i)) =
        (v_signer_index (qc_votes b ! i), v_signature (qc_votes b ! i))"
      using inj(1) i len by (metis (no_types, lifting) nth_map)
    moreover have "qc_votes a ! i \<in> set (qc_votes a)" "qc_votes b ! i \<in> set (qc_votes b)"
      using i len by simp_all
    ultimately show "qc_votes a ! i = qc_votes b ! i"
      using va' vb' by (auto intro!: valid_vote_context)
  qed
  then show ?thesis by simp
qed

section \<open>Proposals\<close>

lemma leader_u8: "unat (of_nat (leader c r) :: u8) = leader c r"
  using leader_lt_N [of c r] by (simp add: unat_of_nat N_def)

lemma proposal_message_Inr_iff [result_simps]:
  "proposal_message C manifest rnd i intent jd = Inr msg \<longleftrightarrow> (\<exists>h. committee_hash C manifest = Inr h \<and>
    msg = array_bytes (hash_domain C ''CALIBRE_INTEGRATION001_PROPOSAL_V1''
        (to_le16 PROTOCOL_VERSION @ to_le32 (m_network_id manifest) @ to_le64 (m_epoch manifest) @
         array_bytes h @ to_le64 rnd @ [i] @ array_bytes intent @ array_bytes jd)))"
  by (auto simp: proposal_message_def)

lemma lab_committee_member:
  "i < N \<Longrightarrow> m_members (lab_committee C e) ! i =
    \<lparr>cm_index = of_nat i, cm_public_key = public_of C (lab_validator_key C e i)\<rparr>"
  by (simp add: lab_committee_def)

lemma lab_committee_epoch [simp]: "m_epoch (lab_committee C e) = e"
  by (simp add: lab_committee_def)

lemma make_proposal_verifies:
  assumes sig: "signatures_verify C"
    and mk: "make_proposal C (lab_committee C e) rnd tx auth justify = Inr p"
  shows "verify_proposal C p (lab_committee C e) = Inr ()"
proof -
  let ?M = "lab_committee C e" and ?c = "conflict_key C (cell_reference (tx_input tx))"
  obtain intent jd msg where ua: "verify_user_auth C tx auth ?M = Inr ()"
    and ih: "intent_hash C tx = Inr intent"
    and jd: "justify_digest_of C ?M rnd ?c intent justify = Inr jd"
    and msg: "proposal_message C ?M rnd (of_nat (leader ?c rnd)) intent jd = Inr msg"
    and p: "p = \<lparr>pr_round = rnd, pr_proposer_index = of_nat (leader ?c rnd), pr_tx = tx, pr_auth = auth,
         pr_intent = intent, pr_justify = justify,
         pr_signature = sign_with C (lab_validator_key C e (leader ?c rnd)) msg\<rparr>"
    using mk by (auto simp: make_proposal_def Let_def leader_u8)
  have "valid_manifest C ?M"
    using ua by (simp add: verify_user_auth_iff valid_tx_def)
  then have "length (m_members ?M) = N"
    by simp
  with ua ih jd msg p leader_lt_N [of ?c rnd] signatures_verifyD [OF sig] show ?thesis
    by (simp add: verify_proposal_def Let_def leader_u8 lab_committee_member not_le)
qed

lemma verify_proposalD:
  assumes "verify_proposal C p manifest = Inr ()"
  shows "verify_user_auth C (pr_tx p) (pr_auth p) manifest = Inr ()"
    and "intent_hash C (pr_tx p) = Inr (pr_intent p)"
    and "unat (pr_proposer_index p) = leader (conflict_key C (cell_reference (tx_input (pr_tx p)))) (pr_round p)"
  using assms by (auto simp: verify_proposal_def Let_def split: if_splits)

end
