(* ===== verification/Ledger.thy ===== *)
theory Ledger
  imports Quorum
begin

text \<open>
  The monetary state machine (\<open>State\<close> in \<open>integration001/src/model.rs\<close>): live cells, spent
  references, known identifiers and applied receipts; genesis, validation, the state root
  and \<open>apply_finalized\<close>, the only operation that changes value.
\<close>

section \<open>Data\<close>

record apply_receipt =
  rc_intent :: digest
  rc_certificate_digest :: digest
  rc_output_refs :: "cell_ref list"

record state =
  st_live :: "(cell_ref, cell) fmap"
  st_spent_by :: "(cell_ref, digest) fmap"
  st_known_ids :: "digest fset"
  st_applied :: "(digest, apply_receipt) fmap"

datatype apply_outcome = Applied apply_receipt | AlreadyApplied apply_receipt

definition empty_state :: state where
  "empty_state = \<lparr>st_live = fmempty, st_spent_by = fmempty, st_known_ids = {||}, st_applied = fmempty\<rparr>"

section \<open>Outputs\<close>

definition output_ref :: "crypto \<Rightarrow> tx \<Rightarrow> nat \<Rightarrow> model_error + cell_ref" where
  "output_ref C tx output_index =
    bindE (ok_or (ValueError GenerationOverflow) (checked_add64 (cr_generation (cell_reference (tx_input tx))) 1))
      (\<lambda>generation.
    bindE (intent_hash C tx) (\<lambda>intent.
    if output_index \<ge> 2 ^ 32 then Inl (ValueError OutputIndexOverflow)
    else Inr \<lparr>cr_asset_id = cr_asset_id (cell_reference (tx_input tx)),
              cr_id = hash_domain C ''CALIBRE_INTEGRATION001_OUTPUT_REF_V1''
                (array_bytes intent @ to_le32 (of_nat output_index)),
              cr_generation = generation\<rparr>))"

definition fee_collector :: "crypto \<Rightarrow> public_key" where
  "fee_collector C = public_of C (lab_user_key C 9999)"

definition output_cell :: "crypto \<Rightarrow> tx \<Rightarrow> nat \<times> tx_output \<Rightarrow> model_error + cell" where
  "output_cell C tx io = (case io of (index, out) \<Rightarrow>
    bindE (output_ref C tx index) (\<lambda>r.
      let predecessor = cell_state_digest (tx_input tx)
      in Inr \<lparr>cell_reference = r, cell_amount = out_amount out, cell_owner = out_owner out,
              cell_predecessor = predecessor,
              cell_state_digest = compute_cell_digest C r (out_amount out) (out_owner out) predecessor\<rparr>))"

definition effects :: "crypto \<Rightarrow> tx \<Rightarrow> tx_output list" where
  "effects C tx = tx_outputs tx @
    [\<lparr>out_asset_id = cr_asset_id (cell_reference (tx_input tx)), out_amount = tx_fee tx,
      out_owner = fee_collector C\<rparr>]"

definition materialize_outputs :: "crypto \<Rightarrow> tx \<Rightarrow> model_error + cell list" where
  "materialize_outputs C tx = mapE (output_cell C tx) (List.enumerate 0 (effects C tx))"

section \<open>Genesis, validation and totals\<close>

definition add_genesis :: "crypto \<Rightarrow> cell \<Rightarrow> state \<Rightarrow> model_error + state" where
  "add_genesis C cell s =
    bindE (validate_cell C cell) (\<lambda>_.
    if cell_reference cell |\<in>| fmdom (st_live s) then Inl (StateError DuplicateGenesisRef)
    else if cr_id (cell_reference cell) |\<in>| st_known_ids s then Inl (StateError DuplicateGenesisId)
    else Inr (s\<lparr>st_live := fmupd (cell_reference cell) cell (st_live s),
                st_known_ids := finsert (cr_id (cell_reference cell)) (st_known_ids s)\<rparr>))"

definition from_cells :: "crypto \<Rightarrow> cell list \<Rightarrow> model_error + state" where
  "from_cells C cells = foldE (add_genesis C) cells empty_state"

definition live_cell :: "state \<Rightarrow> cell_ref \<Rightarrow> cell option" where
  "live_cell s r = fmlookup (st_live s) r"

definition check_live :: "crypto \<Rightarrow> state \<Rightarrow> cell_ref \<times> cell \<Rightarrow> model_error + unit" where
  "check_live C s rc = (case rc of (r, cell) \<Rightarrow>
    if r \<noteq> cell_reference cell then Inl (StateError LiveKeyMismatch)
    else bindE (validate_cell C cell) (\<lambda>_.
    if cr_id r |\<notin>| st_known_ids s then Inl (StateError LiveIdUnknown)
    else if r |\<in>| fmdom (st_spent_by s) then Inl (StateError LiveAndSpent)
    else Inr ()))"

definition check_spent :: "state \<Rightarrow> cell_ref \<Rightarrow> model_error + unit" where
  "check_spent s r =
    (if cr_id r |\<notin>| st_known_ids s then Inl (StateError SpentIdUnknown)
     else if r |\<in>| fmdom (st_live s) then Inl (StateError SpentStillLive)
     else Inr ())"

definition check_receipt :: "digest \<times> apply_receipt \<Rightarrow> model_error + unit" where
  "check_receipt ir = (case ir of (intent, receipt) \<Rightarrow>
    if intent \<noteq> rc_intent receipt then Inl (StateError ReceiptKeyMismatch)
    else if rc_output_refs receipt = [] then Inl (StateError ReceiptEmpty)
    else Inr ())"

definition validate_state :: "crypto \<Rightarrow> state \<Rightarrow> model_error + unit" where
  "validate_state C s =
    bindE (checkE (check_live C s) (sorted_list_of_fmap (st_live s))) (\<lambda>_.
    bindE (checkE (check_spent s) (map fst (sorted_list_of_fmap (st_spent_by s)))) (\<lambda>_.
    checkE check_receipt (sorted_list_of_fmap (st_applied s))))"

definition total_value :: "state \<Rightarrow> model_error + u64" where
  "total_value s =
    foldE (\<lambda>cell acc. ok_or (ValueError StateValueOverflow) (checked_add64 acc (cell_amount cell)))
      (map snd (sorted_list_of_fmap (st_live s))) 0"

section \<open>The state root\<close>

definition state_root_bytes :: "state \<Rightarrow> u8 list" where
  "state_root_bytes s =
    to_le16 PROTOCOL_VERSION @
    to_le32 (of_nat (fcard (fmdom (st_live s)))) @
    concat (map (\<lambda>(r, cell). cell_ref_bytes r @ to_le64 (cell_amount cell) @ array_bytes (cell_owner cell) @
        array_bytes (cell_predecessor cell) @ array_bytes (cell_state_digest cell))
      (sorted_list_of_fmap (st_live s))) @
    to_le32 (of_nat (fcard (fmdom (st_spent_by s)))) @
    concat (map (\<lambda>(r, intent). cell_ref_bytes r @ array_bytes intent) (sorted_list_of_fmap (st_spent_by s))) @
    to_le32 (of_nat (fcard (st_known_ids s))) @
    concat (map array_bytes (sorted_list_of_fset (st_known_ids s))) @
    to_le32 (of_nat (fcard (fmdom (st_applied s)))) @
    concat (map (\<lambda>(intent, receipt). array_bytes intent @
        to_le32 (of_nat (length (rc_output_refs receipt))) @ concat (map cell_ref_bytes (rc_output_refs receipt)))
      (sorted_list_of_fmap (st_applied s)))"

definition state_root :: "crypto \<Rightarrow> state \<Rightarrow> digest" where
  "state_root C s = hash_domain C ''CALIBRE_INTEGRATION001_STATE_ROOT_V1'' (state_root_bytes s)"

section \<open>Applying a finalized transaction\<close>

text \<open>The certificate part of \<open>apply_finalized\<close>: both certificates certify this transaction, linked by digest.\<close>

definition check_finality ::
    "crypto \<Rightarrow> tx \<Rightarrow> qc \<Rightarrow> qc \<Rightarrow> committee_manifest \<Rightarrow> model_error + digest" where
  "check_finality C tx prevote_qc precommit_qc manifest =
    bindE (intent_hash C tx) (\<lambda>intent.
    let conflict = conflict_key C (cell_reference (tx_input tx)) in
    case qc_votes prevote_qc of [] \<Rightarrow> Inl (QcError EmptyQc) | prevote # _ \<Rightarrow>
    bindE (verify_qc C prevote_qc manifest PHASE_PREVOTE (v_round prevote) conflict intent None) (\<lambda>_.
    bindE (qc_digest C prevote_qc manifest) (\<lambda>prevote_digest.
    case qc_votes precommit_qc of [] \<Rightarrow> Inl (QcError EmptyQc) | precommit # _ \<Rightarrow>
    if v_round precommit \<noteq> v_round prevote then Inl (ApplyError RoundMismatch)
    else bindE (verify_qc C precommit_qc manifest PHASE_PRECOMMIT (v_round precommit) conflict intent
                  (Some prevote_digest)) (\<lambda>_. Inr intent))))"

definition check_output_cell :: "crypto \<Rightarrow> state \<Rightarrow> cell \<Rightarrow> cell_ref set \<Rightarrow> model_error + cell_ref set" where
  "check_output_cell C s cell refs =
    bindE (validate_cell C cell) (\<lambda>_.
    if cell_reference cell \<in> refs then Inl (ApplyError DuplicateOutputRef)
    else if cr_id (cell_reference cell) |\<in>| st_known_ids s then Inl (ApplyError OutputIdCollision)
    else Inr (insert (cell_reference cell) refs))"

definition commit_output :: "cell \<Rightarrow> state \<Rightarrow> state" where
  "commit_output cell s =
    s\<lparr>st_known_ids := finsert (cr_id (cell_reference cell)) (st_known_ids s),
      st_live := fmupd (cell_reference cell) cell (st_live s)\<rparr>"

definition commit :: "tx \<Rightarrow> digest \<Rightarrow> apply_receipt \<Rightarrow> cell list \<Rightarrow> state \<Rightarrow> state" where
  "commit tx intent receipt outputs s =
    (let r = cell_reference (tx_input tx);
         s1 = s\<lparr>st_live := fmdrop r (st_live s), st_spent_by := fmupd r intent (st_spent_by s)\<rparr>;
         s2 = fold commit_output outputs s1
     in s2\<lparr>st_applied := fmupd intent receipt (st_applied s2)\<rparr>)"

definition apply_finalized ::
    "crypto \<Rightarrow> state \<Rightarrow> tx \<Rightarrow> user_auth \<Rightarrow> qc \<Rightarrow> qc \<Rightarrow> committee_manifest
      \<Rightarrow> model_error + apply_outcome \<times> state" where
  "apply_finalized C s tx auth prevote_qc precommit_qc manifest =
    bindE (check_finality C tx prevote_qc precommit_qc manifest) (\<lambda>intent.
    case fmlookup (st_applied s) intent of
      Some receipt \<Rightarrow>
        bindE (verify_user_auth C tx auth manifest) (\<lambda>_. Inr (AlreadyApplied receipt, s))
    | None \<Rightarrow>
        bindE (verify_user_auth C tx auth manifest) (\<lambda>_.
        case fmlookup (st_live s) (cell_reference (tx_input tx)) of
          None \<Rightarrow> Inl (ApplyError InputNotLive)
        | Some current \<Rightarrow>
            if current \<noteq> tx_input tx then Inl (ApplyError InputStateMismatch)
            else bindE (qc_digest C precommit_qc manifest) (\<lambda>certificate_digest.
            bindE (materialize_outputs C tx) (\<lambda>outputs.
            bindE (foldE (check_output_cell C s) outputs {}) (\<lambda>_.
            let receipt = \<lparr>rc_intent = intent, rc_certificate_digest = certificate_digest,
                           rc_output_refs = map cell_reference outputs\<rparr>
            in Inr (Applied receipt, commit tx intent receipt outputs s))))))"

section \<open>Materialised outputs\<close>

lemma output_ref_InrD:
  assumes "output_ref C tx i = Inr r"
  obtains intent where "intent_hash C tx = Inr intent"
    "cr_asset_id r = cr_asset_id (cell_reference (tx_input tx))"
    "cr_id r = hash_domain C ''CALIBRE_INTEGRATION001_OUTPUT_REF_V1'' (array_bytes intent @ to_le32 (of_nat i))"
    "unat (cr_generation r) = unat (cr_generation (cell_reference (tx_input tx))) + 1"
  using assms by (auto simp: output_ref_def checked_add64_Some_iff split: if_splits)

lemma output_cell_InrD:
  assumes "output_cell C tx (i, out) = Inr c"
  shows "output_ref C tx i = Inr (cell_reference c)" "cell_amount c = out_amount out"
    "cell_owner c = out_owner out" "cell_predecessor c = cell_state_digest (tx_input tx)"
    "cell_state_digest c =
      compute_cell_digest C (cell_reference c) (cell_amount c) (cell_owner c) (cell_predecessor c)"
  using assms by (auto simp: output_cell_def Let_def)

lemma materialize_nth:
  assumes "materialize_outputs C tx = Inr outs" and "i < length (effects C tx)"
  shows "output_cell C tx (i, effects C tx ! i) = Inr (outs ! i)"
  using mapE_nth [OF assms(1) [unfolded materialize_outputs_def], of i] assms(2)
  by (simp add: nth_enumerate_eq)

lemma materialize_length: "materialize_outputs C tx = Inr outs \<Longrightarrow> length outs = length (effects C tx)"
  by (drule mapE_length [OF _, unfolded materialize_outputs_def [symmetric]] |
      simp add: materialize_outputs_def mapE_length)+

lemma materialize_coins:
  assumes "materialize_outputs C tx = Inr outs"
  shows "map (\<lambda>c. (cell_owner c, unat (cell_amount c))) outs =
    map (\<lambda>out. (out_owner out, unat (out_amount out))) (effects C tx)"
proof (rule nth_equalityI)
  show len: "length (map (\<lambda>c. (cell_owner c, unat (cell_amount c))) outs) =
      length (map (\<lambda>out. (out_owner out, unat (out_amount out))) (effects C tx))"
    using materialize_length [OF assms] by simp
  fix i assume "i < length (map (\<lambda>c. (cell_owner c, unat (cell_amount c))) outs)"
  then have i: "i < length outs" "i < length (effects C tx)"
    using len by simp_all
  show "map (\<lambda>c. (cell_owner c, unat (cell_amount c))) outs ! i =
      map (\<lambda>out. (out_owner out, unat (out_amount out))) (effects C tx) ! i"
    using output_cell_InrD(2,3) [OF materialize_nth [OF assms i(2)]] i by simp
qed

section \<open>Checks in iteration order as quantified conditions\<close>

lemma check_live_iff:
  "check_live C s (r, c) = Inr u \<longleftrightarrow> r = cell_reference c \<and> validate_cell C c = Inr () \<and>
    cr_id r |\<in>| st_known_ids s \<and> r |\<notin>| fmdom (st_spent_by s)"
  by (auto simp: check_live_def)

lemma check_spent_iff:
  "check_spent s r = Inr u \<longleftrightarrow> cr_id r |\<in>| st_known_ids s \<and> r |\<notin>| fmdom (st_live s)"
  by (auto simp: check_spent_def)

lemma check_receipt_iff:
  "check_receipt (i, rc) = Inr u \<longleftrightarrow> i = rc_intent rc \<and> rc_output_refs rc \<noteq> []"
  by (auto simp: check_receipt_def)

definition state_ok :: "crypto \<Rightarrow> state \<Rightarrow> bool" where
  "state_ok C s \<longleftrightarrow>
    (\<forall>r c. fmlookup (st_live s) r = Some c \<longrightarrow> r = cell_reference c \<and> validate_cell C c = Inr () \<and>
      cr_id r |\<in>| st_known_ids s \<and> r |\<notin>| fmdom (st_spent_by s)) \<and>
    (\<forall>r. r |\<in>| fmdom (st_spent_by s) \<longrightarrow> cr_id r |\<in>| st_known_ids s \<and> r |\<notin>| fmdom (st_live s)) \<and>
    (\<forall>i rc. fmlookup (st_applied s) i = Some rc \<longrightarrow> i = rc_intent rc \<and> rc_output_refs rc \<noteq> [])"

lemma validate_state_iff [result_simps]: "validate_state C s = Inr u \<longleftrightarrow> state_ok C s"
proof -
  have "validate_state C s = Inr u \<longleftrightarrow>
      (\<forall>r c. fmlookup (st_live s) r = Some c \<longrightarrow> check_live C s (r, c) = Inr ()) \<and>
      (\<forall>r \<in> fset (fmdom (st_spent_by s)). check_spent s r = Inr ()) \<and>
      (\<forall>i rc. fmlookup (st_applied s) i = Some rc \<longrightarrow> check_receipt (i, rc) = Inr ())"
    by (simp add: validate_state_def ball_sorted_list_of_fmap sorted_list_of_fmap_fst)
  then show ?thesis
    unfolding check_live_iff check_spent_iff check_receipt_iff state_ok_def by blast
qed

section \<open>Value of a state\<close>

definition live_value :: "state \<Rightarrow> nat" where
  "live_value s = (\<Sum>r \<in> fset (fmdom (st_live s)). unat (cell_amount (the (fmlookup (st_live s) r))))"

lemma sum_cells_iff:
  "foldE (\<lambda>cell acc. ok_or e (checked_add64 acc (cell_amount cell))) cells acc = Inr v \<longleftrightarrow>
    unat acc + sum_list (map (\<lambda>c. unat (cell_amount c)) cells) < 2 ^ 64 \<and>
    unat v = unat acc + sum_list (map (\<lambda>c. unat (cell_amount c)) cells)"
proof (induction cells arbitrary: acc)
  case Nil
  then show ?case using unat_bound [of acc] by (auto simp: word_unat_eq_iff)
next
  case (Cons c cells)
  have "foldE (\<lambda>cell acc. ok_or e (checked_add64 acc (cell_amount cell))) (c # cells) acc = Inr v \<longleftrightarrow>
    (\<exists>mid. unat acc + unat (cell_amount c) < 2 ^ 64 \<and> unat mid = unat acc + unat (cell_amount c) \<and>
      foldE (\<lambda>cell acc. ok_or e (checked_add64 acc (cell_amount cell))) cells mid = Inr v)"
    by (auto simp: checked_add64_Some_iff)
  then show ?case
    unfolding Cons.IH by (auto intro!: exI [of _ "acc + cell_amount c"] simp: unat_word_ariths)
qed

lemma live_value_list: "live_value s = sum_list (map (\<lambda>c. unat (cell_amount c)) (map snd (sorted_list_of_fmap (st_live s))))"
proof -
  have "live_value s = (\<Sum>r \<leftarrow> sorted_list_of_fset (fmdom (st_live s)). unat (cell_amount (the (fmlookup (st_live s) r))))"
    unfolding live_value_def by (simp add: sum_list_distinct_conv_sum_set)
  then show ?thesis
    by (simp add: sorted_list_of_fmap_def comp_def)
qed

lemma total_value_iff [result_simps]: "total_value s = Inr v \<longleftrightarrow> live_value s < 2 ^ 64 \<and> unat v = live_value s"
  unfolding total_value_def sum_cells_iff live_value_list by simp

section \<open>The effect of a commit\<close>

definition cells_map :: "cell list \<Rightarrow> (cell_ref, cell) fmap" where
  "cells_map cells = fmap_of_list (rev (map (\<lambda>c. (cell_reference c, c)) cells))"

lemma fold_commit_output:
  "fold commit_output cells s =
    s\<lparr>st_live := st_live s ++\<^sub>f cells_map cells,
      st_known_ids := st_known_ids s |\<union>| fset_of_list (map (\<lambda>c. cr_id (cell_reference c)) cells)\<rparr>"
proof (induction cells arbitrary: s)
  case Nil
  then show ?case by (simp add: cells_map_def)
next
  case (Cons c cells)
  have "fmupd (cell_reference c) c m ++\<^sub>f cells_map cells = m ++\<^sub>f cells_map (c # cells)" for m
    by (rule fmap_ext) (auto simp: cells_map_def fmlookup_of_list map_add_def split: option.splits)
  then show ?case
    unfolding fold_simps(2) Cons.IH by (simp add: commit_output_def)
qed

lemma commit_simps [simp]:
  "st_live (commit tx intent rc outs s) = fmdrop (cell_reference (tx_input tx)) (st_live s) ++\<^sub>f cells_map outs"
  "st_spent_by (commit tx intent rc outs s) = fmupd (cell_reference (tx_input tx)) intent (st_spent_by s)"
  "st_known_ids (commit tx intent rc outs s) =
    st_known_ids s |\<union>| fset_of_list (map (\<lambda>c. cr_id (cell_reference c)) outs)"
  "st_applied (commit tx intent rc outs s) = fmupd intent rc (st_applied s)"
  by (simp_all add: commit_def Let_def fold_commit_output)

lemma check_outputs_iff:
  "foldE (check_output_cell C s) cells refs = Inr refs' \<longleftrightarrow>
    (\<forall>c \<in> set cells. validate_cell C c = Inr () \<and> cr_id (cell_reference c) |\<notin>| st_known_ids s) \<and>
    distinct (map cell_reference cells) \<and> cell_reference ` set cells \<inter> refs = {} \<and>
    refs' = refs \<union> cell_reference ` set cells"
proof (induction cells arbitrary: refs)
  case (Cons c cells)
  have "foldE (check_output_cell C s) (c # cells) refs = Inr refs' \<longleftrightarrow>
    validate_cell C c = Inr () \<and> cell_reference c \<notin> refs \<and> cr_id (cell_reference c) |\<notin>| st_known_ids s \<and>
    foldE (check_output_cell C s) cells (insert (cell_reference c) refs) = Inr refs'"
    by (auto simp: check_output_cell_def)
  then show ?case
    unfolding Cons.IH by auto
qed auto

text \<open>Everything a successful first application establishes, in one place.\<close>

lemma apply_Applied_iff:
  "apply_finalized C s tx auth pq cq manifest = Inr (Applied rc, s') \<longleftrightarrow>
    (\<exists>intent cd outs. check_finality C tx pq cq manifest = Inr intent \<and>
      fmlookup (st_applied s) intent = None \<and>
      verify_user_auth C tx auth manifest = Inr () \<and>
      fmlookup (st_live s) (cell_reference (tx_input tx)) = Some (tx_input tx) \<and>
      qc_digest C cq manifest = Inr cd \<and>
      materialize_outputs C tx = Inr outs \<and>
      (\<forall>c \<in> set outs. validate_cell C c = Inr () \<and> cr_id (cell_reference c) |\<notin>| st_known_ids s) \<and>
      distinct (map cell_reference outs) \<and>
      rc = \<lparr>rc_intent = intent, rc_certificate_digest = cd, rc_output_refs = map cell_reference outs\<rparr> \<and>
      s' = commit tx intent rc outs s)"
  by (auto simp: apply_finalized_def Let_def check_outputs_iff split: option.splits if_splits)

lemma apply_AlreadyApplied_iff:
  "apply_finalized C s tx auth pq cq manifest = Inr (AlreadyApplied rc, s') \<longleftrightarrow>
    (\<exists>intent. check_finality C tx pq cq manifest = Inr intent \<and>
      fmlookup (st_applied s) intent = Some rc \<and> verify_user_auth C tx auth manifest = Inr () \<and> s' = s)"
  by (auto simp: apply_finalized_def Let_def split: option.splits if_splits)

lemma cells_map_lookup:
  assumes "distinct (map cell_reference cells)"
  shows "fmlookup (cells_map cells) r = Some c \<longleftrightarrow> c \<in> set cells \<and> cell_reference c = r"
proof -
  have "distinct (map fst (rev (map (\<lambda>c. (cell_reference c, c)) cells)))"
    using assms by (simp add: rev_map [symmetric] comp_def)
  then show ?thesis
    by (auto simp: cells_map_def fmlookup_of_list)
qed

lemma cells_map_dom [simp]: "fset (fmdom (cells_map cells)) = cell_reference ` set cells"
  by (simp add: cells_map_def fset_of_list.rep_eq image_image)

section \<open>A commit keeps the state valid and moves the exact value\<close>

text \<open>What the checks of \<open>apply_finalized\<close> leave for the commit.\<close>

definition committable :: "crypto \<Rightarrow> state \<Rightarrow> tx \<Rightarrow> cell list \<Rightarrow> bool" where
  "committable C s tx outs \<longleftrightarrow>
    fmlookup (st_live s) (cell_reference (tx_input tx)) = Some (tx_input tx) \<and>
    (\<forall>c \<in> set outs. validate_cell C c = Inr () \<and> cr_id (cell_reference c) |\<notin>| st_known_ids s) \<and>
    distinct (map cell_reference outs)"

lemma committable_fresh:
  assumes "committable C s tx outs" and "state_ok C s" and "r \<in> cell_reference ` set outs"
  shows "fmlookup (st_live s) r = None" and "fmlookup (st_spent_by s) r = None"
    and "r \<noteq> cell_reference (tx_input tx)"
proof -
  have new: "cr_id r |\<notin>| st_known_ids s"
    using assms(1,3) by (auto simp: committable_def)
  have live: "fmlookup (st_live s) q = Some c \<Longrightarrow> cr_id q |\<in>| st_known_ids s" for q c
    using assms(2) by (auto simp: state_ok_def)
  show "fmlookup (st_live s) r = None"
    using new live by (cases "fmlookup (st_live s) r") auto
  have "r |\<in>| fmdom (st_spent_by s) \<Longrightarrow> cr_id r |\<in>| st_known_ids s"
    using assms(2) by (auto simp: state_ok_def)
  then show "fmlookup (st_spent_by s) r = None"
    using new by (metis fmdom_notD)
  show "r \<noteq> cell_reference (tx_input tx)"
    using new live assms(1) by (auto simp: committable_def)
qed

lemma commit_live_lookup:
  assumes "distinct (map cell_reference outs)"
  shows "fmlookup (st_live (commit tx intent rc outs s)) r = Some c \<longleftrightarrow>
    c \<in> set outs \<and> cell_reference c = r \<or>
    r \<notin> cell_reference ` set outs \<and> r \<noteq> cell_reference (tx_input tx) \<and> fmlookup (st_live s) r = Some c"
proof -
  have "r |\<in>| fmdom (cells_map outs) \<longleftrightarrow> r \<in> cell_reference ` set outs"
    by simp
  then show ?thesis
    using cells_map_lookup [OF assms, of r c] by (cases "r \<in> cell_reference ` set outs") auto
qed

lemma commit_state_ok:
  assumes ok: "state_ok C s" and cm: "committable C s tx outs" and "outs \<noteq> []"
    and rc: "rc_intent rc = intent" "rc_output_refs rc = map cell_reference outs"
  shows "state_ok C (commit tx intent rc outs s)"
  unfolding state_ok_def
proof (intro conjI allI impI)
  let ?s' = "commit tx intent rc outs s" and ?i = "cell_reference (tx_input tx)"
  have dist: "distinct (map cell_reference outs)"
    using cm by (simp add: committable_def)
  have input: "cr_id ?i |\<in>| st_known_ids s"
    using cm ok by (auto simp: committable_def state_ok_def)
  note live = commit_live_lookup [OF dist]
  note fresh = committable_fresh [OF cm ok]
  { fix r c assume r: "fmlookup (st_live ?s') r = Some c"
    then consider (new) "c \<in> set outs" "cell_reference c = r" |
      (old) "r \<noteq> ?i" "r \<notin> cell_reference ` set outs" "fmlookup (st_live s) r = Some c"
      unfolding live by blast
    then have "r = cell_reference c \<and> validate_cell C c = Inr () \<and> cr_id r |\<in>| st_known_ids ?s' \<and>
      r |\<notin>| fmdom (st_spent_by ?s')"
    proof cases
      case new
      then have "r \<in> cell_reference ` set outs"
        by blast
      with new fresh [of r] cm show ?thesis
        by (auto simp: committable_def fset_of_list.rep_eq fmdom_notI)
    next
      case old
      with ok show ?thesis
        by (simp add: state_ok_def)
    qed
    then show "r = cell_reference c" "validate_cell C c = Inr ()" "cr_id r |\<in>| st_known_ids ?s'"
      "r |\<notin>| fmdom (st_spent_by ?s')"
      by blast+ }
  { fix r assume r: "r |\<in>| fmdom (st_spent_by ?s')"
    then have known: "cr_id r |\<in>| st_known_ids s"
      using ok input by (auto simp: state_ok_def)
    then show "cr_id r |\<in>| st_known_ids ?s'"
      by simp
    have "r \<notin> cell_reference ` set outs"
      using known cm by (auto simp: committable_def)
    moreover have "r = ?i \<or> r |\<notin>| fmdom (st_live s)"
      using r ok by (auto simp: state_ok_def)
    ultimately have "fmlookup (st_live ?s') r \<noteq> Some c" for c
      unfolding live by (metis fmdomI imageI)
    then show "r |\<notin>| fmdom (st_live ?s')"
      by (meson fmlookup_dom_iff) }
  { fix i r assume "fmlookup (st_applied ?s') i = Some r"
    then show "i = rc_intent r" "rc_output_refs r \<noteq> []"
      using ok rc \<open>outs \<noteq> []\<close> by (auto simp: state_ok_def split: if_splits) }
qed

text \<open>
  The abstract view: a ledger is a multiset of coins (owner and amount).  A transfer takes
  one coin away and adds the coins of its effects.
\<close>

definition coins :: "state \<Rightarrow> (public_key \<times> nat) multiset" where
  "coins s = image_mset (\<lambda>r. let c = the (fmlookup (st_live s) r) in (cell_owner c, unat (cell_amount c)))
    (mset_set (fset (fmdom (st_live s))))"

definition spend_coins ::
    "public_key \<times> nat \<Rightarrow> (public_key \<times> nat) list \<Rightarrow> (public_key \<times> nat) multiset
      \<Rightarrow> (public_key \<times> nat) multiset" where
  "spend_coins coin new M = M - {#coin#} + mset new"

lemma live_value_coins: "live_value s = sum_mset (image_mset snd (coins s))"
  by (simp add: live_value_def coins_def Let_def image_mset.compositionality comp_def sum_unfold_sum_mset)

lemma commit_coins:
  assumes ok: "state_ok C s" and cm: "committable C s tx outs"
  shows "coins (commit tx intent rc outs s) =
    spend_coins (cell_owner (tx_input tx), unat (cell_amount (tx_input tx)))
      (map (\<lambda>c. (cell_owner c, unat (cell_amount c))) outs) (coins s)"
proof -
  let ?s' = "commit tx intent rc outs s" and ?i = "cell_reference (tx_input tx)"
  let ?coin = "\<lambda>s r. let c = the (fmlookup (st_live s) r) in (cell_owner c, unat (cell_amount c))"
  let ?A = "fset (fmdom (st_live s)) - {?i}" and ?B = "cell_reference ` set outs"
  have dist: "distinct (map cell_reference outs)"
    using cm by (simp add: committable_def)
  note live = commit_live_lookup [OF dist]
  note fresh = committable_fresh [OF cm ok]
  have i: "fmlookup (st_live s) ?i = Some (tx_input tx)"
    using cm by (simp add: committable_def)
  then have iin: "?i \<in> fset (fmdom (st_live s))"
    by (simp add: fmlookup_dom_iff)
  have dom: "fset (fmdom (st_live ?s')) = ?A \<union> ?B"
    by auto
  have disj: "?A \<inter> ?B = {}"
    using fresh(1) by (auto simp: fmlookup_dom_iff)
  have old: "?coin ?s' r = ?coin s r" if "r \<in> ?A" for r
  proof -
    have "r |\<in>| fmdom (st_live s)"
      using that by simp
    then obtain c where c: "fmlookup (st_live s) r = Some c"
      by (rule fmdomE)
    moreover have "r \<notin> ?B"
      using that disj by blast
    ultimately have "fmlookup (st_live ?s') r = Some c"
      unfolding live using that by simp
    then show ?thesis
      using c by simp
  qed
  have new: "?coin ?s' (cell_reference c) = (cell_owner c, unat (cell_amount c))" if "c \<in> set outs" for c
  proof -
    have "fmlookup (st_live ?s') (cell_reference c) = Some c"
      unfolding live using that by simp
    then show ?thesis
      by simp
  qed
  have new_list: "map (?coin ?s') (map cell_reference outs) = map (\<lambda>c. (cell_owner c, unat (cell_amount c))) outs"
    unfolding map_map comp_def by (rule map_cong [OF refl], rule new)
  have "coins ?s' = image_mset (?coin ?s') (mset_set ?A) + image_mset (?coin ?s') (mset_set ?B)"
    unfolding coins_def dom by (simp add: mset_set_Union disj)
  also have "image_mset (?coin ?s') (mset_set ?A) = image_mset (?coin s) (mset_set ?A)"
    by (rule image_mset_cong, rule old) simp
  also have "image_mset (?coin s) (mset_set ?A) = coins s - {#?coin s ?i#}"
    unfolding coins_def using iin by (simp add: mset_set_Diff image_mset_Diff)
  also have "mset_set ?B = mset (map cell_reference outs)"
    using mset_set_set [OF dist] by simp
  also have "image_mset (?coin ?s') (mset (map cell_reference outs)) =
      mset (map (\<lambda>c. (cell_owner c, unat (cell_amount c))) outs)"
    by (simp only: mset_map [symmetric] new_list)
  finally show ?thesis
    using i by (simp add: spend_coins_def Let_def)
qed

lemma coin_present:
  assumes "fmlookup (st_live s) r = Some c"
  shows "(cell_owner c, unat (cell_amount c)) \<in># coins s"
proof -
  have "r \<in> fset (fmdom (st_live s))"
    using assms by (simp add: fmlookup_dom_iff)
  then show ?thesis
    using assms by (auto simp: coins_def Let_def image_iff intro!: bexI [of _ r])
qed

text \<open>What two accepted certificates establish.\<close>

lemma check_finalityD:
  assumes "check_finality C tx pq cq manifest = Inr intent"
  shows "intent_hash C tx = Inr intent"
    and "\<exists>rnd d. valid_qc C pq manifest PHASE_PREVOTE rnd (conflict_key C (cell_reference (tx_input tx))) intent None \<and>
      qc_digest C pq manifest = Inr d \<and>
      valid_qc C cq manifest PHASE_PRECOMMIT rnd (conflict_key C (cell_reference (tx_input tx))) intent (Some d)"
  using assms
  by (cases "qc_votes pq"; cases "qc_votes cq"; auto simp: check_finality_def Let_def verify_qc_iff split: if_splits)+

lemma apply_Applied_committable:
  assumes "apply_finalized C s tx auth pq cq manifest = Inr (Applied rc, s')"
  obtains outs intent where "committable C s tx outs" "materialize_outputs C tx = Inr outs" "outs \<noteq> []"
    "s' = commit tx intent rc outs s" "rc_intent rc = intent" "rc_output_refs rc = map cell_reference outs"
    "valid_tx C tx manifest" "intent_hash C tx = Inr intent"
proof -
  obtain intent cd outs where *: "check_finality C tx pq cq manifest = Inr intent"
    "verify_user_auth C tx auth manifest = Inr ()"
    "fmlookup (st_live s) (cell_reference (tx_input tx)) = Some (tx_input tx)"
    "materialize_outputs C tx = Inr outs"
    "\<forall>c \<in> set outs. validate_cell C c = Inr () \<and> cr_id (cell_reference c) |\<notin>| st_known_ids s"
    "distinct (map cell_reference outs)"
    "rc = \<lparr>rc_intent = intent, rc_certificate_digest = cd, rc_output_refs = map cell_reference outs\<rparr>"
    "s' = commit tx intent rc outs s"
    using assms unfolding apply_Applied_iff by blast
  have "length outs = length (effects C tx)"
    using *(4) by (rule materialize_length)
  then have "outs \<noteq> []"
    by (auto simp: effects_def)
  moreover have "intent_hash C tx = Inr intent"
    using *(1) by (rule check_finalityD)
  moreover have "valid_tx C tx manifest"
    using *(2) by (simp add: verify_user_auth_iff)
  ultimately show thesis
    using * by (intro that [of outs intent]) (simp_all add: committable_def)
qed

text \<open>The refinement to coins, with the fee as one more coin.\<close>

lemma apply_refines_coins:
  assumes "apply_finalized C s tx auth pq cq manifest = Inr (Applied rc, s')" and "state_ok C s"
  shows "coins s' = spend_coins (cell_owner (tx_input tx), unat (cell_amount (tx_input tx)))
    (map (\<lambda>out. (out_owner out, unat (out_amount out))) (tx_outputs tx) @
      [(fee_collector C, unat (tx_fee tx))]) (coins s)"
proof -
  obtain outs intent where cm: "committable C s tx outs" and m: "materialize_outputs C tx = Inr outs"
    and s': "s' = commit tx intent rc outs s"
    using assms(1) by (rule apply_Applied_committable)
  show ?thesis
    unfolding s' commit_coins [OF assms(2) cm] materialize_coins [OF m] by (simp add: effects_def)
qed

lemma apply_preserves_ok:
  assumes "apply_finalized C s tx auth pq cq manifest = Inr (res, s')" and "state_ok C s"
  shows "state_ok C s'"
proof (cases res)
  case (Applied rc)
  with assms(1) obtain outs intent where "committable C s tx outs" "outs \<noteq> []"
    "s' = commit tx intent rc outs s" "rc_intent rc = intent" "rc_output_refs rc = map cell_reference outs"
    by (metis apply_Applied_committable)
  then show ?thesis
    using commit_state_ok [OF assms(2)] by simp
next
  case (AlreadyApplied rc)
  with assms show ?thesis
    by (auto simp: apply_AlreadyApplied_iff)
qed

lemma apply_conserves_value:
  assumes ap: "apply_finalized C s tx auth pq cq manifest = Inr (res, s')" and ok: "state_ok C s"
  shows "live_value s' = live_value s"
proof (cases res)
  case (Applied rc)
  note ap = ap [unfolded Applied]
  obtain outs intent where cm: "committable C s tx outs" and v: "valid_tx C tx manifest"
    using ap by (rule apply_Applied_committable)
  let ?coin = "(cell_owner (tx_input tx), unat (cell_amount (tx_input tx)))"
  have "?coin \<in># coins s"
    using cm coin_present by (auto simp: committable_def)
  then have split: "coins s = (coins s - {#?coin#}) + {#?coin#}"
    by simp
  have "live_value s' = sum_mset (image_mset snd (coins s - {#?coin#})) +
      (outputs_value (tx_outputs tx) + unat (tx_fee tx))"
    unfolding live_value_coins apply_refines_coins [OF ap ok]
    by (simp add: spend_coins_def comp_def outputs_value_def sum_mset_sum_list [symmetric] image_mset.compositionality)
  also have "outputs_value (tx_outputs tx) + unat (tx_fee tx) = unat (cell_amount (tx_input tx))"
    using v by (simp add: valid_tx_def)
  also have "sum_mset (image_mset snd (coins s - {#?coin#})) + unat (cell_amount (tx_input tx)) = live_value s"
    unfolding live_value_coins by (subst (2) split) simp
  finally show ?thesis .
next
  case (AlreadyApplied rc)
  with ap show ?thesis
    by (auto simp: apply_AlreadyApplied_iff)
qed

lemma from_cells_ok:
  assumes "from_cells C cells = Inr s"
  shows "state_ok C s \<and> st_spent_by s = fmempty \<and> st_applied s = fmempty"
proof -
  have "state_ok C empty_state \<and> st_spent_by empty_state = fmempty \<and> st_applied empty_state = fmempty"
    by (simp add: state_ok_def empty_state_def)
  with assms show ?thesis
    unfolding from_cells_def
    by (rule foldE_invariant [where P = "\<lambda>s. state_ok C s \<and> st_spent_by s = fmempty \<and> st_applied s = fmempty"])
       (auto simp: add_genesis_def state_ok_def split: if_splits)
qed

section \<open>Runs of the ledger\<close>

text \<open>One successful call of \<open>apply_finalized\<close>, whatever transaction and certificates it is given.\<close>

inductive ledger_step :: "crypto \<Rightarrow> committee_manifest \<Rightarrow> state \<Rightarrow> state \<Rightarrow> bool"
  for C :: crypto and manifest :: committee_manifest where
  applies: "apply_finalized C s tx auth pq cq manifest = Inr (res, s') \<Longrightarrow> ledger_step C manifest s s'"

inductive_cases ledger_stepE: "ledger_step C manifest s s'"

abbreviation ledger_run :: "crypto \<Rightarrow> committee_manifest \<Rightarrow> state \<Rightarrow> state \<Rightarrow> bool" where
  "ledger_run C manifest \<equiv> (ledger_step C manifest)\<^sup>*\<^sup>*"

lemma apply_result_cases:
  assumes "apply_finalized C s tx auth pq cq manifest = Inr (res, s')"
  obtains (applied) rc intent outs where "res = Applied rc" "check_finality C tx pq cq manifest = Inr intent"
    "fmlookup (st_applied s) intent = None" "s' = commit tx intent rc outs s" "rc_intent rc = intent"
    "cell_reference (tx_input tx) |\<in>| fmdom (st_live s)"
  | (again) rc where "res = AlreadyApplied rc" "s' = s"
proof (cases res)
  case (Applied rc)
  obtain i cd outs where "check_finality C tx pq cq manifest = Inr i" "fmlookup (st_applied s) i = None"
    "fmlookup (st_live s) (cell_reference (tx_input tx)) = Some (tx_input tx)"
    "rc = \<lparr>rc_intent = i, rc_certificate_digest = cd, rc_output_refs = map cell_reference outs\<rparr>"
    "s' = commit tx i rc outs s"
    using assms unfolding Applied apply_Applied_iff by blast
  with Applied show thesis
    by (intro that(1) [of rc i outs]) (auto intro: fmdomI)
next
  case (AlreadyApplied rc)
  with assms that(2) show thesis
    by (auto simp: apply_AlreadyApplied_iff)
qed

lemma ledger_run_ok: "ledger_run C manifest s s' \<Longrightarrow> state_ok C s \<Longrightarrow> state_ok C s'"
  by (induction rule: rtranclp_induct) (auto elim!: ledger_stepE dest: apply_preserves_ok)

lemma ledger_run_value:
  "ledger_run C manifest s s' \<Longrightarrow> state_ok C s \<Longrightarrow> state_ok C s' \<and> live_value s' = live_value s"
  by (induction rule: rtranclp_induct) (auto elim!: ledger_stepE dest: apply_preserves_ok apply_conserves_value)

lemma ledger_step_spent:
  assumes "ledger_step C manifest s s'" and "state_ok C s" and "fmlookup (st_spent_by s) r = Some i"
  shows "fmlookup (st_spent_by s') r = Some i"
  using assms(1)
proof (rule ledger_stepE)
  fix tx auth pq cq res
  assume "apply_finalized C s tx auth pq cq manifest = Inr (res, s')"
  then show ?thesis
  proof (cases rule: apply_result_cases)
    case (applied rc intent outs)
    have "r |\<notin>| fmdom (st_live s)"
      using assms(2,3) by (auto simp: state_ok_def intro: fmdomI)
    with applied assms(3) show ?thesis
      by auto
  qed (use assms in simp)
qed

lemma ledger_step_receipt:
  assumes "ledger_step C manifest s s'" and "fmlookup (st_applied s) i = Some rc"
  shows "fmlookup (st_applied s') i = Some rc"
  using assms(1)
proof (rule ledger_stepE)
  fix tx auth pq cq res
  assume "apply_finalized C s tx auth pq cq manifest = Inr (res, s')"
  then show ?thesis
    using assms(2) by (cases rule: apply_result_cases) auto
qed

lemma ledger_run_spent:
  "ledger_run C manifest s s' \<Longrightarrow> state_ok C s \<Longrightarrow> fmlookup (st_spent_by s) r = Some i \<Longrightarrow>
    state_ok C s' \<and> fmlookup (st_spent_by s') r = Some i"
proof (induction rule: rtranclp_induct)
  case (step t u)
  then show ?case
    using ledger_step_spent ledger_run_ok by (metis r_into_rtranclp)
qed simp

lemma ledger_run_receipt:
  "ledger_run C manifest s s' \<Longrightarrow> fmlookup (st_applied s) i = Some rc \<Longrightarrow> fmlookup (st_applied s') i = Some rc"
  by (induction rule: rtranclp_induct) (auto dest: ledger_step_receipt)

lemma apply_again:
  assumes "apply_finalized C s tx auth pq cq manifest = Inr (Applied rc, s1)"
    and "ledger_run C manifest s1 s2"
    and "check_finality C tx pq' cq' manifest = Inr intent"
  shows "apply_finalized C s2 tx auth pq' cq' manifest = Inr (AlreadyApplied rc, s2)"
proof -
  obtain i where i: "check_finality C tx pq cq manifest = Inr i" and a: "verify_user_auth C tx auth manifest = Inr ()"
    and s1: "fmlookup (st_applied s1) i = Some rc"
    using assms(1) by (auto simp: apply_Applied_iff)
  have "intent = i"
    using check_finalityD(1) [OF i] check_finalityD(1) [OF assms(3)] by simp
  then show ?thesis
    using ledger_run_receipt [OF assms(2) s1] assms(3) a by (auto simp: apply_AlreadyApplied_iff)
qed

lemma no_double_spend:
  assumes "apply_finalized C s tx auth pq cq manifest = Inr (Applied rc, s1)" and ok: "state_ok C s"
    and run: "ledger_run C manifest s1 s2"
    and same: "cell_reference (tx_input tx') = cell_reference (tx_input tx)"
  shows "apply_finalized C s2 tx' auth' pq' cq' manifest \<noteq> Inr (Applied rc', s3)"
proof
  assume two: "apply_finalized C s2 tx' auth' pq' cq' manifest = Inr (Applied rc', s3)"
  obtain i where "fmlookup (st_spent_by s1) (cell_reference (tx_input tx)) = Some i"
    using assms(1) by (auto simp: apply_Applied_iff)
  then have "state_ok C s2" "fmlookup (st_spent_by s2) (cell_reference (tx_input tx)) = Some i"
    using ledger_run_spent [OF run] apply_preserves_ok [OF assms(1) ok] by blast+
  then have "cell_reference (tx_input tx') |\<notin>| fmdom (st_live s2)"
    unfolding same by (auto simp: state_ok_def intro: fmdomI)
  with two show False
    by (auto simp: apply_Applied_iff intro: fmdomI)
qed

section \<open>Independent transactions commute\<close>

lemma commit_commute:
  assumes "a \<noteq> b" "i \<noteq> j" and "a = cell_reference (tx_input tx)" "b = cell_reference (tx_input ty)"
    and "a \<notin> cell_reference ` set ys" "b \<notin> cell_reference ` set xs"
    and "cell_reference ` set xs \<inter> cell_reference ` set ys = {}"
  shows "commit ty j rj ys (commit tx i ri xs s) = commit tx i ri xs (commit ty j rj ys s)"
proof (rule state.equality)
  show "st_live (commit ty j rj ys (commit tx i ri xs s)) = st_live (commit tx i ri xs (commit ty j rj ys s))"
    using assms by (intro fmap_ext) auto
  show "st_spent_by (commit ty j rj ys (commit tx i ri xs s)) = st_spent_by (commit tx i ri xs (commit ty j rj ys s))"
    using assms by (intro fmap_ext) auto
  show "st_applied (commit ty j rj ys (commit tx i ri xs s)) = st_applied (commit tx i ri xs (commit ty j rj ys s))"
    using assms by (intro fmap_ext) auto
qed (auto simp: commit_def Let_def fold_commit_output)

lemma apply_commute:
  assumes ok: "state_ok C s"
    and a: "apply_finalized C s tx auth pq cq manifest = Inr (Applied ra, s1)"
    and b: "apply_finalized C s1 ty auth' pq' cq' manifest = Inr (Applied rb, s2)"
    and indep: "cell_reference (tx_input ty) |\<in>| fmdom (st_live s)"
  shows "\<exists>s1'. apply_finalized C s ty auth' pq' cq' manifest = Inr (Applied rb, s1') \<and>
    apply_finalized C s1' tx auth pq cq manifest = Inr (Applied ra, s2)"
proof -
  let ?a = "cell_reference (tx_input tx)" and ?b = "cell_reference (tx_input ty)"
  obtain i d xs where A: "check_finality C tx pq cq manifest = Inr i" "fmlookup (st_applied s) i = None"
      "verify_user_auth C tx auth manifest = Inr ()" "fmlookup (st_live s) ?a = Some (tx_input tx)"
      "qc_digest C cq manifest = Inr d" "materialize_outputs C tx = Inr xs"
      "\<forall>c \<in> set xs. validate_cell C c = Inr () \<and> cr_id (cell_reference c) |\<notin>| st_known_ids s"
      "distinct (map cell_reference xs)"
      "ra = \<lparr>rc_intent = i, rc_certificate_digest = d, rc_output_refs = map cell_reference xs\<rparr>"
      "s1 = commit tx i ra xs s"
    using a unfolding apply_Applied_iff by blast
  obtain j e ys where B: "check_finality C ty pq' cq' manifest = Inr j" "fmlookup (st_applied s1) j = None"
      "verify_user_auth C ty auth' manifest = Inr ()" "fmlookup (st_live s1) ?b = Some (tx_input ty)"
      "qc_digest C cq' manifest = Inr e" "materialize_outputs C ty = Inr ys"
      "\<forall>c \<in> set ys. validate_cell C c = Inr () \<and> cr_id (cell_reference c) |\<notin>| st_known_ids s1"
      "distinct (map cell_reference ys)"
      "rb = \<lparr>rc_intent = j, rc_certificate_digest = e, rc_output_refs = map cell_reference ys\<rparr>"
      "s2 = commit ty j rb ys s1"
    using b unfolding apply_Applied_iff by blast
  have cm: "committable C s tx xs"
    using A by (simp add: committable_def)
  have known: "cr_id r |\<in>| st_known_ids s" if "r |\<in>| fmdom (st_live s)" for r
    using that ok by (auto simp: state_ok_def elim!: fmdomE)
  have ain: "?a |\<in>| fmdom (st_live s)"
    using A(4) by (rule fmdomI)
  have ij: "i \<noteq> j" "fmlookup (st_applied s) j = None"
    using B(2) unfolding A(10) by (auto split: if_splits)
  have b_xs: "?b \<notin> cell_reference ` set xs"
    using known [OF indep] A(7) by auto
  have ab: "?a \<noteq> ?b" and b_live: "fmlookup (st_live s) ?b = Some (tx_input ty)"
    using B(4) b_xs unfolding A(10) commit_live_lookup [OF A(8)] by auto
  have ys_fresh: "cr_id (cell_reference c) |\<notin>| st_known_ids s"
    "cell_reference c \<notin> cell_reference ` set xs" if "c \<in> set ys" for c
    using that B(7) unfolding A(10) by (auto simp: fset_of_list_elem)
  have a_ys: "?a \<notin> cell_reference ` set ys"
    using known [OF ain] ys_fresh(1) by auto
  let ?s1' = "commit ty j rb ys s"
  have first: "apply_finalized C s ty auth' pq' cq' manifest = Inr (Applied rb, ?s1')"
    unfolding apply_Applied_iff using B ij b_live ys_fresh by auto
  have xs_fresh: "cr_id (cell_reference c) |\<notin>| st_known_ids ?s1'" if c: "c \<in> set xs" for c
  proof
    assume "cr_id (cell_reference c) |\<in>| st_known_ids ?s1'"
    then obtain c' where "c' \<in> set ys" "cr_id (cell_reference c') = cr_id (cell_reference c)"
      using A(7) c by (auto simp: fset_of_list_elem)
    then show False
      using B(7) c unfolding A(10) by (auto simp: fset_of_list_elem image_iff)
  qed
  have disj: "cell_reference ` set xs \<inter> cell_reference ` set ys = {}"
  proof (rule equals0I, elim IntE)
    fix r assume "r \<in> cell_reference ` set xs" "r \<in> cell_reference ` set ys"
    from \<open>r \<in> cell_reference ` set ys\<close> show False
      by (rule imageE) (use ys_fresh(2) \<open>r \<in> cell_reference ` set xs\<close> in simp)
  qed
  have s2: "s2 = commit tx i ra xs ?s1'"
    unfolding B(10) A(10)
    by (rule commit_commute [OF ab ij(1) refl refl a_ys b_xs disj])
  have "apply_finalized C ?s1' tx auth pq cq manifest = Inr (Applied ra, s2)"
    unfolding apply_Applied_iff
    by (intro exI [of _ i] exI [of _ d] exI [of _ xs]) (use A ij a_ys ab xs_fresh s2 in auto)
  with first show ?thesis
    by blast
qed

section \<open>The state root\<close>

text \<open>What the root commits to: everything but the certificate digests of the receipts.\<close>

definition semantic_view :: "state \<Rightarrow> (cell_ref, cell) fmap \<times> (cell_ref, digest) fmap \<times> digest fset \<times>
    (digest, cell_ref list) fmap" where
  "semantic_view s = (st_live s, st_spent_by s, st_known_ids s, fmmap rc_output_refs (st_applied s))"

lemma sorted_list_of_fmap_fmmap:
  "sorted_list_of_fmap (fmmap f m) = map (\<lambda>(k, v). (k, f v)) (sorted_list_of_fmap m)"
  by (auto simp: sorted_list_of_fmap_def fmlookup_dom_iff)

lemma state_root_bytes_view:
  "state_root_bytes s =
    (let (live, spent, known, app) = semantic_view s in
    to_le16 PROTOCOL_VERSION @
    to_le32 (of_nat (length (sorted_list_of_fmap live))) @
    concat (map (\<lambda>(r, cell). cell_ref_bytes r @ to_le64 (cell_amount cell) @ array_bytes (cell_owner cell) @
        array_bytes (cell_predecessor cell) @ array_bytes (cell_state_digest cell)) (sorted_list_of_fmap live)) @
    to_le32 (of_nat (length (sorted_list_of_fmap spent))) @
    concat (map (\<lambda>(r, intent). cell_ref_bytes r @ array_bytes intent) (sorted_list_of_fmap spent)) @
    to_le32 (of_nat (length (sorted_list_of_fset known))) @
    concat (map array_bytes (sorted_list_of_fset known)) @
    to_le32 (of_nat (length (sorted_list_of_fmap app))) @
    concat (map (\<lambda>(intent, refs). array_bytes intent @
        to_le32 (of_nat (length refs)) @ concat (map cell_ref_bytes refs)) (sorted_list_of_fmap app)))"
proof -
  have "map (\<lambda>(intent, receipt). array_bytes intent @
        to_le32 (of_nat (length (rc_output_refs receipt))) @ concat (map cell_ref_bytes (rc_output_refs receipt)))
      (sorted_list_of_fmap (st_applied s)) =
    map (\<lambda>(intent, refs). array_bytes intent @ to_le32 (of_nat (length refs)) @ concat (map cell_ref_bytes refs))
      (sorted_list_of_fmap (fmmap rc_output_refs (st_applied s)))"
    by (simp add: sorted_list_of_fmap_fmmap split: prod.split)
  then show ?thesis
    by (simp add: state_root_bytes_def semantic_view_def Let_def)
qed

lemma state_root_view: "semantic_view s = semantic_view t \<Longrightarrow> state_root C s = state_root C t"
  by (simp add: state_root_def state_root_bytes_view)

text \<open>Any certificates for one transaction lead to one view, hence one root.\<close>

lemma apply_view:
  assumes "apply_finalized C s tx auth pq cq manifest = Inr (Applied rc, s1)"
    and "apply_finalized C s tx auth' pq' cq' manifest' = Inr (Applied rc', s2)"
  shows "semantic_view s1 = semantic_view s2"
proof -
  obtain i cd outs where A: "check_finality C tx pq cq manifest = Inr i" "materialize_outputs C tx = Inr outs"
    "s1 = commit tx i rc outs s" "rc_output_refs rc = map cell_reference outs"
    using assms(1) by (auto simp: apply_Applied_iff)
  obtain j cd' outs' where B: "check_finality C tx pq' cq' manifest' = Inr j" "materialize_outputs C tx = Inr outs'"
    "s2 = commit tx j rc' outs' s" "rc_output_refs rc' = map cell_reference outs'"
    using assms(2) by (auto simp: apply_Applied_iff)
  have "j = i" "outs' = outs"
    using A(1,2) B(1,2) check_finalityD(1) by (metis Inr_inject)+
  then show ?thesis
    using A B by (auto simp: semantic_view_def intro!: fmap_ext)
qed

text \<open>A counted sequence of self-delimiting elements, followed by anything.\<close>

lemma counted_prefix_eq:
  assumes eq: "to_le32 (of_nat (length xs)) @ concat (map f xs) @ a =
      to_le32 (of_nat (length ys)) @ concat (map f ys) @ b"
    and bounds: "length xs < 2 ^ 32" "length ys < 2 ^ 32"
    and ok: "\<forall>x \<in> set xs. P x" "\<forall>y \<in> set ys. P y"
    and prefix: "\<And>x y u v. P x \<Longrightarrow> P y \<Longrightarrow> f x @ u = f y @ v \<Longrightarrow> x = y \<and> u = v"
  shows "xs = ys \<and> a = b"
proof -
  have "to_le32 (of_nat (length xs)) = to_le32 (of_nat (length ys))"
    and rest: "concat (map f xs) @ a = concat (map f ys) @ b"
    using eq by (simp_all add: fixed_append_eq)
  then have "length xs = length ys"
    using bounds by (blast intro: small_count_inj)
  then show ?thesis
    using rest ok
  proof (induction xs ys rule: list_induct2)
    case (Cons x xs y ys)
    then have "f x @ (concat (map f xs) @ a) = f y @ (concat (map f ys) @ b)"
      by simp
    then have "x = y \<and> concat (map f xs) @ a = concat (map f ys) @ b"
      using Cons.prems by (intro prefix) simp_all
    then show ?case
      using Cons by simp
  qed simp
qed

text \<open>The collections of a state fit the 32-bit counts that the root writes.\<close>

definition countable_state :: "state \<Rightarrow> bool" where
  "countable_state s \<longleftrightarrow> fcard (fmdom (st_live s)) < 2 ^ 32 \<and> fcard (fmdom (st_spent_by s)) < 2 ^ 32 \<and>
    fcard (st_known_ids s) < 2 ^ 32 \<and> fcard (fmdom (st_applied s)) < 2 ^ 32 \<and>
    (\<forall>i rc. fmlookup (st_applied s) i = Some rc \<longrightarrow> length (rc_output_refs rc) < 2 ^ 32)"

lemma sorted_list_of_fmap_inj: "sorted_list_of_fmap m = sorted_list_of_fmap m' \<longleftrightarrow> m = m'"
  by (metis fmap_of_sorted_list)

lemma sorted_list_of_fset_inj: "sorted_list_of_fset A = sorted_list_of_fset B \<longleftrightarrow> A = B"
  by (metis sorted_list_of_fset_set fset_inject)

lemma state_root_bytes_inj:
  assumes eq: "state_root_bytes s = state_root_bytes t"
    and ok: "state_ok C s" "state_ok C t" and fits: "countable_state s" "countable_state t"
  shows "semantic_view s = semantic_view t"
proof -
  let ?live = "\<lambda>(r, cell). cell_ref_bytes r @ to_le64 (cell_amount cell) @ array_bytes (cell_owner cell) @
        array_bytes (cell_predecessor cell) @ array_bytes (cell_state_digest cell)"
  let ?spent = "\<lambda>(r, intent). cell_ref_bytes r @ array_bytes (intent :: digest)"
  let ?app = "\<lambda>(intent, refs). array_bytes (intent :: digest) @ to_le32 (of_nat (length refs)) @
        concat (map cell_ref_bytes refs)"
  let ?apps = "\<lambda>s. sorted_list_of_fmap (fmmap rc_output_refs (st_applied s))"
  have eq': "to_le32 (of_nat (length (sorted_list_of_fmap (st_live s)))) @ concat (map ?live (sorted_list_of_fmap (st_live s))) @
      to_le32 (of_nat (length (sorted_list_of_fmap (st_spent_by s)))) @ concat (map ?spent (sorted_list_of_fmap (st_spent_by s))) @
      to_le32 (of_nat (length (sorted_list_of_fset (st_known_ids s)))) @ concat (map array_bytes (sorted_list_of_fset (st_known_ids s))) @
      to_le32 (of_nat (length (?apps s))) @ concat (map ?app (?apps s)) @ [] =
    to_le32 (of_nat (length (sorted_list_of_fmap (st_live t)))) @ concat (map ?live (sorted_list_of_fmap (st_live t))) @
      to_le32 (of_nat (length (sorted_list_of_fmap (st_spent_by t)))) @ concat (map ?spent (sorted_list_of_fmap (st_spent_by t))) @
      to_le32 (of_nat (length (sorted_list_of_fset (st_known_ids t)))) @ concat (map array_bytes (sorted_list_of_fset (st_known_ids t))) @
      to_le32 (of_nat (length (?apps t))) @ concat (map ?app (?apps t)) @ []"
    using eq by (simp add: state_root_bytes_view semantic_view_def)
  note b = fits [unfolded countable_state_def]
  have key: "\<forall>x \<in> set (sorted_list_of_fmap (st_live u)). fst x = cell_reference (snd x)" if "state_ok C u" for u
    using that by (auto simp: state_ok_def sorted_list_of_fmap_mem)
  have 1: "sorted_list_of_fmap (st_live s) = sorted_list_of_fmap (st_live t) \<and>
    to_le32 (of_nat (length (sorted_list_of_fmap (st_spent_by s)))) @ concat (map ?spent (sorted_list_of_fmap (st_spent_by s))) @
      to_le32 (of_nat (length (sorted_list_of_fset (st_known_ids s)))) @ concat (map array_bytes (sorted_list_of_fset (st_known_ids s))) @
      to_le32 (of_nat (length (?apps s))) @ concat (map ?app (?apps s)) @ [] =
    to_le32 (of_nat (length (sorted_list_of_fmap (st_spent_by t)))) @ concat (map ?spent (sorted_list_of_fmap (st_spent_by t))) @
      to_le32 (of_nat (length (sorted_list_of_fset (st_known_ids t)))) @ concat (map array_bytes (sorted_list_of_fset (st_known_ids t))) @
      to_le32 (of_nat (length (?apps t))) @ concat (map ?app (?apps t)) @ []"
    by (rule counted_prefix_eq [OF eq', where P = "\<lambda>x. fst x = cell_reference (snd x)"])
       (use b key ok in \<open>auto simp: fixed_append_eq intro: cell.equality\<close>)
  have 2: "sorted_list_of_fmap (st_spent_by s) = sorted_list_of_fmap (st_spent_by t) \<and>
    to_le32 (of_nat (length (sorted_list_of_fset (st_known_ids s)))) @ concat (map array_bytes (sorted_list_of_fset (st_known_ids s))) @
      to_le32 (of_nat (length (?apps s))) @ concat (map ?app (?apps s)) @ [] =
    to_le32 (of_nat (length (sorted_list_of_fset (st_known_ids t)))) @ concat (map array_bytes (sorted_list_of_fset (st_known_ids t))) @
      to_le32 (of_nat (length (?apps t))) @ concat (map ?app (?apps t)) @ []"
    by (rule counted_prefix_eq [OF conjunct2 [OF 1], where P = "\<lambda>_. True"])
       (use b in \<open>auto simp: fixed_append_eq\<close>)
  have 3: "sorted_list_of_fset (st_known_ids s) = sorted_list_of_fset (st_known_ids t) \<and>
      to_le32 (of_nat (length (?apps s))) @ concat (map ?app (?apps s)) @ [] =
      to_le32 (of_nat (length (?apps t))) @ concat (map ?app (?apps t)) @ []"
    by (rule counted_prefix_eq [OF conjunct2 [OF 2], where P = "\<lambda>_. True"])
       (use b in \<open>auto simp: fixed_append_eq\<close>)
  have app_ok: "\<forall>x \<in> set (?apps u). length (snd x) < 2 ^ 32" if "countable_state u" for u
    using that by (auto simp: countable_state_def sorted_list_of_fmap_mem)
  have prefix: "x = y \<and> u = v" if "length (snd x) < 2 ^ 32" "length (snd y) < 2 ^ 32" "?app x @ u = ?app y @ v"
    for x y and u v :: "u8 list"
    using that counted_append_eq [where f = cell_ref_bytes and w = 44 and xs = "snd x" and ys = "snd y" and a = u and b = v]
    by (cases x; cases y) (auto simp: fixed_append_eq)
  have 4: "?apps s = ?apps t \<and> ([] :: u8 list) = []"
  proof (rule counted_prefix_eq [OF conjunct2 [OF 3], where P = "\<lambda>x. length (snd x) < 2 ^ 32"])
    show "length (?apps s) < 2 ^ 32" "length (?apps t) < 2 ^ 32"
      using b by simp_all
    show "\<forall>x \<in> set (?apps s). length (snd x) < 2 ^ 32" "\<forall>x \<in> set (?apps t). length (snd x) < 2 ^ 32"
      using app_ok fits by blast+
  qed (rule prefix)
  show ?thesis
    using 1 2 3 4 by (simp add: semantic_view_def sorted_list_of_fmap_inj sorted_list_of_fset_inj)
qed

end
