(* ===== verification/Wire.thy ===== *)
theory Wire
  imports Codec Ledger
begin

text \<open>
  The formats of the data types (\<open>integration001/src/wire.rs\<close>): committee manifests, cells,
  transactions, votes, certificates, proposals, receipts, whole states and snapshots, each as
  the \<open>put\<close> and \<open>take\<close> function of the source and an interpretation of \<open>reader\<close> or \<open>codec\<close>.
\<close>

section \<open>Formats\<close>

definition MAX_OUTPUTS :: nat where "MAX_OUTPUTS = 8"
definition MAX_RECEIPT_OUTPUTS :: nat where "MAX_RECEIPT_OUTPUTS = MAX_OUTPUTS + 1"
definition MAX_VOTES :: nat where "MAX_VOTES = N"

lemmas wire_limits = MAX_OUTPUTS_def MAX_RECEIPT_OUTPUTS_def MAX_VOTES_def MAX_COLLECTION_LEN_def N_def

definition put_phase :: "u8 \<Rightarrow> wire_error + u8 list" where
  "put_phase phase = (if phase \<noteq> PHASE_PREVOTE \<and> phase \<noteq> PHASE_PRECOMMIT then Inl BadPhase else Inr [phase])"

definition take_phase :: "u8 taker" where
  "take_phase = bindD take_u8 (\<lambda>phase.
    if phase \<noteq> PHASE_PREVOTE \<and> phase \<noteq> PHASE_PRECOMMIT then failD BadPhase else returnD phase)"

definition put_committee_member :: "committee_member \<Rightarrow> u8 list" where
  "put_committee_member member = [cm_index member] @ array_bytes (cm_public_key member)"

definition take_committee_member :: "committee_member taker" where
  "take_committee_member = bindD take_u8 (\<lambda>index. bindD take_fixed (\<lambda>key.
    returnD \<lparr>cm_index = index, cm_public_key = key\<rparr>))"

definition put_committee_manifest :: "committee_manifest \<Rightarrow> wire_error + u8 list" where
  "put_committee_manifest manifest =
    bindE (put_bounded_count (length (m_members manifest)) N) (\<lambda>n.
    Inr (to_le32 (m_network_id manifest) @ to_le64 (m_epoch manifest) @ [m_threshold manifest] @ n @
         concat (map put_committee_member (m_members manifest))))"

definition take_committee_manifest :: "committee_manifest taker" where
  "take_committee_manifest = bindD take_u32 (\<lambda>network_id. bindD take_u64 (\<lambda>epoch.
    bindD take_u8 (\<lambda>threshold. bindD (take_bounded_count N) (\<lambda>n.
    bindD (take_distinct n take_committee_member cm_index {}) (\<lambda>members.
    returnD \<lparr>m_network_id = network_id, m_epoch = epoch, m_threshold = threshold, m_members = members\<rparr>)))))"

definition put_cell_ref :: "cell_ref \<Rightarrow> u8 list" where
  "put_cell_ref r = to_le32 (cr_asset_id r) @ array_bytes (cr_id r) @ to_le64 (cr_generation r)"

definition take_cell_ref :: "cell_ref taker" where
  "take_cell_ref = bindD take_u32 (\<lambda>asset_id. bindD take_fixed (\<lambda>i. bindD take_u64 (\<lambda>generation.
    returnD \<lparr>cr_asset_id = asset_id, cr_id = i, cr_generation = generation\<rparr>)))"

definition put_cell :: "cell \<Rightarrow> u8 list" where
  "put_cell cell = put_cell_ref (cell_reference cell) @ to_le64 (cell_amount cell) @
    array_bytes (cell_owner cell) @ array_bytes (cell_predecessor cell) @ array_bytes (cell_state_digest cell)"

definition take_cell :: "cell taker" where
  "take_cell = bindD take_cell_ref (\<lambda>r. bindD take_u64 (\<lambda>amount. bindD take_fixed (\<lambda>owner.
    bindD take_fixed (\<lambda>predecessor. bindD take_fixed (\<lambda>state_digest.
    returnD \<lparr>cell_reference = r, cell_amount = amount, cell_owner = owner,
             cell_predecessor = predecessor, cell_state_digest = state_digest\<rparr>)))))"

definition put_output :: "tx_output \<Rightarrow> u8 list" where
  "put_output out = to_le32 (out_asset_id out) @ to_le64 (out_amount out) @ array_bytes (out_owner out)"

definition take_output :: "tx_output taker" where
  "take_output = bindD take_u32 (\<lambda>asset_id. bindD take_u64 (\<lambda>amount. bindD take_fixed (\<lambda>owner.
    returnD \<lparr>out_asset_id = asset_id, out_amount = amount, out_owner = owner\<rparr>)))"

definition put_tx :: "tx \<Rightarrow> wire_error + u8 list" where
  "put_tx tx =
    (if tx_outputs tx = [] then Inl ZeroCount
     else bindE (put_bounded_count (length (tx_outputs tx)) MAX_OUTPUTS) (\<lambda>n.
       Inr (to_le16 (tx_version tx) @ to_le32 (tx_network_id tx) @ to_le64 (tx_epoch tx) @
            array_bytes (tx_committee_hash tx) @ put_cell (tx_input tx) @ n @
            concat (map put_output (tx_outputs tx)) @ to_le64 (tx_fee tx) @ array_bytes (tx_salt tx))))"

definition take_tx :: "tx taker" where
  "take_tx = bindD take_u16 (\<lambda>version. bindD take_u32 (\<lambda>network_id. bindD take_u64 (\<lambda>epoch.
    bindD take_fixed (\<lambda>h. bindD take_cell (\<lambda>input. bindD (take_bounded_count MAX_OUTPUTS) (\<lambda>n.
    if n = 0 then failD ZeroCount else
    bindD (take_many n take_output) (\<lambda>outputs. bindD take_u64 (\<lambda>fee. bindD take_fixed (\<lambda>salt.
    returnD \<lparr>tx_version = version, tx_network_id = network_id, tx_epoch = epoch, tx_committee_hash = h,
             tx_input = input, tx_outputs = outputs, tx_fee = fee, tx_salt = salt\<rparr>)))))))))"

definition put_user_auth :: "user_auth \<Rightarrow> u8 list" where
  "put_user_auth auth = array_bytes (auth_signer auth) @ array_bytes (auth_signature auth)"

definition take_user_auth :: "user_auth taker" where
  "take_user_auth = bindD take_fixed (\<lambda>signer. bindD take_fixed (\<lambda>sig.
    returnD \<lparr>auth_signer = signer, auth_signature = sig\<rparr>))"

definition put_vote :: "vote \<Rightarrow> wire_error + u8 list" where
  "put_vote vote =
    bindE (put_phase (v_phase vote)) (\<lambda>phase.
    Inr (to_le32 (v_network_id vote) @ to_le64 (v_epoch vote) @ array_bytes (v_committee_hash vote) @ phase @
         to_le64 (v_round vote) @ array_bytes (v_conflict_key vote) @ array_bytes (v_intent vote) @
         array_bytes (v_justify vote) @ [v_signer_index vote] @ array_bytes (v_signature vote)))"

definition take_vote :: "vote taker" where
  "take_vote = bindD take_u32 (\<lambda>network_id. bindD take_u64 (\<lambda>epoch. bindD take_fixed (\<lambda>h.
    bindD take_phase (\<lambda>phase. bindD take_u64 (\<lambda>rnd. bindD take_fixed (\<lambda>conflict.
    bindD take_fixed (\<lambda>intent. bindD take_fixed (\<lambda>justify. bindD take_u8 (\<lambda>index.
    bindD take_fixed (\<lambda>sig.
    returnD \<lparr>v_network_id = network_id, v_epoch = epoch, v_committee_hash = h, v_phase = phase,
             v_round = rnd, v_conflict_key = conflict, v_intent = intent, v_justify = justify,
             v_signer_index = index, v_signature = sig\<rparr>))))))))))"

definition put_qc :: "qc \<Rightarrow> wire_error + u8 list" where
  "put_qc qc =
    (if qc_votes qc = [] then Inl ZeroCount
     else bindE (put_bounded_count (length (qc_votes qc)) MAX_VOTES) (\<lambda>n.
          bindE (mapE put_vote (qc_votes qc)) (\<lambda>votes. Inr (n @ concat votes))))"

definition take_qc :: "qc taker" where
  "take_qc = bindD (take_bounded_count MAX_VOTES) (\<lambda>n.
    if n = 0 then failD ZeroCount
    else bindD (take_many n take_vote) (\<lambda>votes. returnD \<lparr>qc_votes = votes\<rparr>))"

definition put_proposal :: "proposal \<Rightarrow> wire_error + u8 list" where
  "put_proposal p =
    bindE (put_tx (pr_tx p)) (\<lambda>tx.
    bindE (case pr_justify p of None \<Rightarrow> Inr [] | Some qc \<Rightarrow> put_qc qc) (\<lambda>justify.
    Inr (to_le64 (pr_round p) @ [pr_proposer_index p] @ tx @ put_user_auth (pr_auth p) @
         array_bytes (pr_intent p) @ put_bool (pr_justify p \<noteq> None) @ justify @ array_bytes (pr_signature p))))"

definition take_proposal :: "proposal taker" where
  "take_proposal = bindD take_u64 (\<lambda>rnd. bindD take_u8 (\<lambda>index. bindD take_tx (\<lambda>tx.
    bindD take_user_auth (\<lambda>auth. bindD take_fixed (\<lambda>intent. bindD take_bool (\<lambda>present.
    bindD (if present then bindD take_qc (\<lambda>qc. returnD (Some qc)) else returnD None) (\<lambda>justify.
    bindD take_fixed (\<lambda>sig.
    returnD \<lparr>pr_round = rnd, pr_proposer_index = index, pr_tx = tx, pr_auth = auth, pr_intent = intent,
             pr_justify = justify, pr_signature = sig\<rparr>))))))))"

definition put_apply_receipt :: "apply_receipt \<Rightarrow> wire_error + u8 list" where
  "put_apply_receipt receipt =
    bindE (put_bounded_count (length (rc_output_refs receipt)) MAX_RECEIPT_OUTPUTS) (\<lambda>n.
    Inr (array_bytes (rc_intent receipt) @ array_bytes (rc_certificate_digest receipt) @ n @
         concat (map put_cell_ref (rc_output_refs receipt))))"

definition take_apply_receipt :: "apply_receipt taker" where
  "take_apply_receipt = bindD take_fixed (\<lambda>intent. bindD take_fixed (\<lambda>cd.
    bindD (take_bounded_count MAX_RECEIPT_OUTPUTS) (\<lambda>n. bindD (take_many n take_cell_ref) (\<lambda>refs.
    returnD \<lparr>rc_intent = intent, rc_certificate_digest = cd, rc_output_refs = refs\<rparr>))))"

section \<open>Whole states and snapshots\<close>

definition put_live :: "cell_ref \<times> cell \<Rightarrow> wire_error + u8 list" where
  "put_live rc = (case rc of (r, cell) \<Rightarrow>
    if r \<noteq> cell_reference cell then Inl KeyMismatch else Inr (put_cell cell))"

definition put_spent :: "cell_ref \<times> digest \<Rightarrow> u8 list" where
  "put_spent ri = (case ri of (r, intent) \<Rightarrow> put_cell_ref r @ array_bytes intent)"

definition put_applied :: "digest \<times> apply_receipt \<Rightarrow> wire_error + u8 list" where
  "put_applied ir = (case ir of (intent, receipt) \<Rightarrow>
    if intent \<noteq> rc_intent receipt then Inl KeyMismatch else put_apply_receipt receipt)"

definition put_state :: "state \<Rightarrow> wire_error + u8 list" where
  "put_state s =
    bindE (put_count (fcard (fmdom (st_live s)))) (\<lambda>n_live.
    bindE (mapE put_live (sorted_list_of_fmap (st_live s))) (\<lambda>live.
    bindE (put_count (fcard (fmdom (st_spent_by s)))) (\<lambda>n_spent.
    bindE (put_count (fcard (st_known_ids s))) (\<lambda>n_known.
    bindE (put_count (fcard (fmdom (st_applied s)))) (\<lambda>n_applied.
    bindE (mapE put_applied (sorted_list_of_fmap (st_applied s))) (\<lambda>app.
    Inr (n_live @ concat live @ n_spent @ concat (map put_spent (sorted_list_of_fmap (st_spent_by s))) @
         n_known @ concat (map array_bytes (sorted_list_of_fset (st_known_ids s))) @
         n_applied @ concat app)))))))"

definition take_spent :: "(cell_ref \<times> digest) taker" where
  "take_spent = bindD take_cell_ref (\<lambda>r. bindD take_fixed (\<lambda>intent. returnD (r, intent)))"

definition take_state :: "state taker" where
  "take_state =
    bindD take_count (\<lambda>n_live. bindD (take_distinct n_live take_cell cell_reference {}) (\<lambda>live.
    bindD take_count (\<lambda>n_spent. bindD (take_distinct n_spent take_spent fst {}) (\<lambda>spent.
    bindD take_count (\<lambda>n_known. bindD (take_distinct n_known take_fixed id {}) (\<lambda>known.
    bindD take_count (\<lambda>n_applied. bindD (take_distinct n_applied take_apply_receipt rc_intent {}) (\<lambda>app.
    returnD \<lparr>st_live = fmap_of_list (map (\<lambda>c. (cell_reference c, c)) live),
             st_spent_by = fmap_of_list spent,
             st_known_ids = fset_of_list known,
             st_applied = fmap_of_list (map (\<lambda>rc. (rc_intent rc, rc)) app)\<rparr>))))))))"

definition put_snapshot :: "cell list \<Rightarrow> wire_error + u8 list" where
  "put_snapshot cells =
    bindE (put_count (length cells)) (\<lambda>n.
    if distinct (map cell_reference cells) then Inr (n @ concat (map put_cell cells)) else Inl DuplicateEntry)"

definition take_snapshot :: "cell list taker" where
  "take_snapshot = bindD take_count (\<lambda>n. take_distinct n take_cell cell_reference {})"

section \<open>The public encoders and decoders\<close>

definition encode_committee_manifest :: "committee_manifest \<Rightarrow> wire_error + u8 list" where
  "encode_committee_manifest = exact_encode put_committee_manifest"
definition decode_committee_manifest :: "u8 list \<Rightarrow> wire_error + committee_manifest" where
  "decode_committee_manifest = exact_decode take_committee_manifest"

definition encode_cell_ref :: "cell_ref \<Rightarrow> wire_error + u8 list" where
  "encode_cell_ref = exact_encode (\<lambda>r. Inr (put_cell_ref r))"
definition decode_cell_ref :: "u8 list \<Rightarrow> wire_error + cell_ref" where
  "decode_cell_ref = exact_decode take_cell_ref"

definition encode_cell :: "cell \<Rightarrow> wire_error + u8 list" where
  "encode_cell = exact_encode (\<lambda>c. Inr (put_cell c))"
definition decode_cell :: "u8 list \<Rightarrow> wire_error + cell" where
  "decode_cell = exact_decode take_cell"

definition encode_tx :: "tx \<Rightarrow> wire_error + u8 list" where
  "encode_tx = exact_encode put_tx"
definition decode_tx :: "u8 list \<Rightarrow> wire_error + tx" where
  "decode_tx = exact_decode take_tx"

definition encode_user_auth :: "user_auth \<Rightarrow> wire_error + u8 list" where
  "encode_user_auth = exact_encode (\<lambda>a. Inr (put_user_auth a))"
definition decode_user_auth :: "u8 list \<Rightarrow> wire_error + user_auth" where
  "decode_user_auth = exact_decode take_user_auth"

definition encode_vote :: "vote \<Rightarrow> wire_error + u8 list" where
  "encode_vote = exact_encode put_vote"
definition decode_vote :: "u8 list \<Rightarrow> wire_error + vote" where
  "decode_vote = exact_decode take_vote"

definition encode_qc :: "qc \<Rightarrow> wire_error + u8 list" where
  "encode_qc = exact_encode put_qc"
definition decode_qc :: "u8 list \<Rightarrow> wire_error + qc" where
  "decode_qc = exact_decode take_qc"

definition encode_proposal :: "proposal \<Rightarrow> wire_error + u8 list" where
  "encode_proposal = exact_encode put_proposal"
definition decode_proposal :: "u8 list \<Rightarrow> wire_error + proposal" where
  "decode_proposal = exact_decode take_proposal"

definition encode_state :: "state \<Rightarrow> wire_error + u8 list" where
  "encode_state = exact_encode put_state"
definition decode_state :: "u8 list \<Rightarrow> wire_error + state" where
  "decode_state = exact_decode take_state"

definition encode_state_snapshot :: "cell list \<Rightarrow> wire_error + u8 list" where
  "encode_state_snapshot = exact_encode put_snapshot"
definition decode_state_snapshot :: "u8 list \<Rightarrow> wire_error + cell list" where
  "decode_state_snapshot = exact_decode take_snapshot"

section \<open>Every format is a codec\<close>

lemma mapE_pure [simp]: "mapE (\<lambda>x. Inr (f x)) xs = Inr (map f xs)"
  by (induction xs) simp_all

lemma reads_eq: "reads t v cs \<Longrightarrow> cs = bs \<Longrightarrow> reads t v bs"
  by simp

lemmas read_rules = reads_prim reads_fixed [where 'n = 32, simplified] reads_fixed [where 'n = 64, simplified] reads_bool
lemmas parse_rules = parses_prim parses_bool

lemma reads_phase: "put_phase p = Inr bs \<Longrightarrow> reads take_phase p bs"
  unfolding take_phase_def
  by (rule reads_last [of _ p]) (auto simp: put_phase_def reads_prim split: if_splits)

lemma parses_phase: "parses take_phase (\<lambda>p bs. put_phase p = Inr bs)"
  unfolding take_phase_def
  by (rule parses_bind [OF parses_prim(1)]) (auto intro!: parses_return parses_fail simp: put_phase_def)

lemma reads_committee_member: "reads take_committee_member m (put_committee_member m)"
  unfolding take_committee_member_def
  by (cases m, hypsubst, rule reads_eq, (rule reads_bind, rule read_rules)+, rule reads_return)
     (simp add: put_committee_member_def)

lemma parses_committee_member: "parses take_committee_member (\<lambda>m bs. bs = put_committee_member m)"
  unfolding take_committee_member_def put_committee_member_def
  by ((rule parses_bind, rule parse_rules)+, rule parses_return) simp

interpretation member_codec: codec "\<lambda>_. True" "\<lambda>m. Inr (put_committee_member m)" take_committee_member
  by unfold_locales (auto simp: reads_committee_member intro: parses_mono [OF parses_committee_member])

lemma reads_cell_ref: "reads take_cell_ref r (put_cell_ref r)"
  unfolding take_cell_ref_def
  by (cases r, hypsubst, rule reads_eq, (rule reads_bind, rule read_rules)+, rule reads_return)
     (simp add: put_cell_ref_def)

lemma parses_cell_ref: "parses take_cell_ref (\<lambda>r bs. bs = put_cell_ref r)"
  unfolding take_cell_ref_def put_cell_ref_def
  by ((rule parses_bind, rule parse_rules)+, rule parses_return) simp

interpretation cell_ref_codec: codec "\<lambda>_. True" "\<lambda>r. Inr (put_cell_ref r)" take_cell_ref
  by unfold_locales (auto simp: reads_cell_ref intro: parses_mono [OF parses_cell_ref])

lemma reads_cell: "reads take_cell c (put_cell c)"
  unfolding take_cell_def
  by (cases c, hypsubst, rule reads_eq, (rule reads_bind, rule read_rules reads_cell_ref)+, rule reads_return)
     (simp add: put_cell_def)

lemma parses_cell: "parses take_cell (\<lambda>c bs. bs = put_cell c)"
  unfolding take_cell_def put_cell_def
  by ((rule parses_bind, rule parse_rules parses_cell_ref)+, rule parses_return) simp

interpretation cell_codec: codec "\<lambda>_. True" "\<lambda>c. Inr (put_cell c)" take_cell
  by unfold_locales (auto simp: reads_cell intro: parses_mono [OF parses_cell])

lemma reads_output: "reads take_output out (put_output out)"
  unfolding take_output_def
  by (cases out, hypsubst, rule reads_eq, (rule reads_bind, rule read_rules)+, rule reads_return)
     (simp add: put_output_def)

lemma parses_output: "parses take_output (\<lambda>out bs. bs = put_output out)"
  unfolding take_output_def put_output_def
  by ((rule parses_bind, rule parse_rules)+, rule parses_return) simp

interpretation output_codec: codec "\<lambda>_. True" "\<lambda>out. Inr (put_output out)" take_output
  by unfold_locales (auto simp: reads_output intro: parses_mono [OF parses_output])

lemma reads_user_auth: "reads take_user_auth a (put_user_auth a)"
  unfolding take_user_auth_def
  by (cases a, hypsubst, rule reads_eq, (rule reads_bind, rule read_rules)+, rule reads_return)
     (simp add: put_user_auth_def)

lemma parses_user_auth: "parses take_user_auth (\<lambda>a bs. bs = put_user_auth a)"
  unfolding take_user_auth_def put_user_auth_def
  by ((rule parses_bind, rule parse_rules)+, rule parses_return) simp

interpretation user_auth_codec: codec "\<lambda>_. True" "\<lambda>a. Inr (put_user_auth a)" take_user_auth
  by unfold_locales (auto simp: reads_user_auth intro: parses_mono [OF parses_user_auth])

lemma reads_vote:
  assumes "put_vote v = Inr bs"
  shows "reads take_vote v bs"
proof (cases v)
  case (fields nid ep h p r ck i j si sg)
  obtain ph where ph: "put_phase p = Inr ph"
    using assms unfolding fields put_vote_def by auto
  show ?thesis
    unfolding fields take_vote_def
    by (rule reads_eq, (rule reads_bind, rule read_rules reads_phase [OF ph])+, rule reads_return)
       (use assms ph in \<open>simp add: put_vote_def fields\<close>)
qed

lemma parses_vote: "parses take_vote (\<lambda>v bs. put_vote v = Inr bs)"
  unfolding take_vote_def put_vote_def
  by ((rule parses_bind, rule parse_rules parses_phase)+, rule parses_return) simp

interpretation vote_codec: codec "\<lambda>_. True" put_vote take_vote
  by unfold_locales (auto intro: reads_vote parses_mono [OF parses_vote])

lemma reads_tx:
  assumes "put_tx tx = Inr bs"
  shows "reads take_tx tx bs"
proof (cases tx)
  case (fields ver nid ep h inp outs fee salt)
  obtain n where ne: "outs \<noteq> []" and n: "put_bounded_count (length outs) MAX_OUTPUTS = Inr n"
    using assms unfolding fields put_tx_def by (auto split: if_splits)
  have many: "reads (take_many (length outs) take_output) outs (concat (map put_output outs))"
    using output_codec.reads_many [of outs] by simp
  have z: "length outs \<noteq> 0"
    using ne by simp
  show ?thesis
    unfolding fields take_tx_def
    by (rule reads_eq, (rule reads_bind, rule read_rules reads_cell reads_bounded_count [OF n])+, subst if_not_P [OF z],
        (rule reads_bind, rule read_rules many)+, rule reads_return)
       (use assms ne n in \<open>simp add: put_tx_def fields\<close>)
qed

lemma parses_tx: "parses take_tx (\<lambda>tx bs. put_tx tx = Inr bs)"
  unfolding take_tx_def
proof ((rule parses_bind, rule parse_rules parses_cell parses_bounded_count)+, goal_cases)
  case (1 ver b1 nid b2 ep b3 h b4 inp b5 n b6)
  let ?R = "\<lambda>tx cs. put_tx tx = Inr (b1 @ b2 @ b3 @ b4 @ b5 @ b6 @ cs)"
  have "parses (bindD (take_many n take_output) (\<lambda>outputs. bindD take_u64 (\<lambda>fee. bindD take_fixed (\<lambda>salt.
    returnD \<lparr>tx_version = ver, tx_network_id = nid, tx_epoch = ep, tx_committee_hash = h,
             tx_input = inp, tx_outputs = outputs, tx_fee = fee, tx_salt = salt\<rparr>)))) ?R" if "n \<noteq> 0"
    by ((rule parses_bind, rule parse_rules output_codec.parses_many)+, rule parses_return)
       (use 1 that in \<open>auto simp: put_tx_def\<close>)
  then show ?case
    by (simp add: parses_fail)
qed

interpretation tx_codec: codec "\<lambda>_. True" put_tx take_tx
  by unfold_locales (auto intro: reads_tx parses_mono [OF parses_tx])

lemma reads_qc:
  assumes "put_qc qc = Inr bs"
  shows "reads take_qc qc bs"
proof (cases qc)
  case (fields votes)
  obtain n vs where ne: "votes \<noteq> []" and n: "put_bounded_count (length votes) MAX_VOTES = Inr n"
    and vs: "mapE put_vote votes = Inr vs"
    using assms unfolding fields put_qc_def by (auto split: if_splits)
  have many: "reads (take_many (length votes) take_vote) votes (concat vs)"
    using vote_codec.reads_many [of votes] vs by simp
  have z: "length votes \<noteq> 0"
    using ne by simp
  show ?thesis
    unfolding fields take_qc_def
    by (rule reads_eq, (rule reads_bind, rule reads_bounded_count [OF n])+, subst if_not_P [OF z],
        (rule reads_bind, rule many)+, rule reads_return)
       (use assms ne n vs in \<open>simp add: put_qc_def fields\<close>)
qed

lemma parses_qc: "parses take_qc (\<lambda>qc bs. put_qc qc = Inr bs)"
  unfolding take_qc_def
proof (rule parses_bind, rule parses_bounded_count)
  fix n b assume n: "put_bounded_count n MAX_VOTES = Inr b"
  have "parses (bindD (take_many n take_vote) (\<lambda>votes. returnD \<lparr>qc_votes = votes\<rparr>)) (\<lambda>qc cs. put_qc qc = Inr (b @ cs))"
    if "n \<noteq> 0"
    by ((rule parses_bind, rule vote_codec.parses_many)+, rule parses_return) (use n that in \<open>auto simp: put_qc_def\<close>)
  then show "parses (if n = 0 then failD ZeroCount else bindD (take_many n take_vote) (\<lambda>votes. returnD \<lparr>qc_votes = votes\<rparr>))
      (\<lambda>qc cs. put_qc qc = Inr (b @ cs))"
    by (simp add: parses_fail)
qed

interpretation qc_codec: codec "\<lambda>_. True" put_qc take_qc
  by unfold_locales (auto intro: reads_qc parses_mono [OF parses_qc])

lemma reads_proposal:
  assumes "put_proposal p = Inr bs"
  shows "reads take_proposal p bs"
proof (cases p)
  case (fields rnd idx tx auth intent justify sig)
  obtain tb jb where tb: "put_tx tx = Inr tb" and jb: "(case justify of None \<Rightarrow> Inr [] | Some qc \<Rightarrow> put_qc qc) = Inr jb"
    using assms unfolding fields put_proposal_def by auto
  have justify: "reads (if justify \<noteq> None then bindD take_qc (\<lambda>qc. returnD (Some qc)) else returnD None) justify jb"
  proof (cases justify)
    case None
    then show ?thesis
      using jb by (simp add: reads_return)
  next
    case (Some qc)
    then show ?thesis
      using jb reads_last [OF reads_qc, of qc jb "\<lambda>qc. returnD (Some qc)"] by simp
  qed
  show ?thesis
    unfolding fields take_proposal_def
    by (rule reads_eq, (rule reads_bind, rule read_rules reads_tx [OF tb] reads_user_auth justify)+, rule reads_return)
       (use assms tb jb in \<open>simp add: put_proposal_def fields\<close>)
qed

lemma parses_optional_qc:
  "parses (if present then bindD take_qc (\<lambda>qc. returnD (Some qc)) else returnD None)
    (\<lambda>justify bs. present = (justify \<noteq> None) \<and> (case justify of None \<Rightarrow> Inr [] | Some qc \<Rightarrow> put_qc qc) = Inr bs)"
proof (cases present)
  case True
  then show ?thesis
    by (simp only: if_True) ((rule parses_bind, rule parses_qc, rule parses_return), simp)
qed (simp add: parses_return)

lemma parses_proposal: "parses take_proposal (\<lambda>p bs. put_proposal p = Inr bs)"
  unfolding take_proposal_def put_proposal_def
  by ((rule parses_bind, rule parse_rules parses_tx parses_user_auth parses_optional_qc)+, rule parses_return) auto

interpretation proposal_codec: codec "\<lambda>_. True" put_proposal take_proposal
  by unfold_locales (auto intro: reads_proposal parses_mono [OF parses_proposal])

lemma reads_apply_receipt:
  assumes "put_apply_receipt rc = Inr bs"
  shows "reads take_apply_receipt rc bs"
proof (cases rc)
  case (fields intent cd refs)
  obtain n where n: "put_bounded_count (length refs) MAX_RECEIPT_OUTPUTS = Inr n"
    using assms unfolding fields put_apply_receipt_def by auto
  have many: "reads (take_many (length refs) take_cell_ref) refs (concat (map put_cell_ref refs))"
    using cell_ref_codec.reads_many [of refs] by simp
  show ?thesis
    unfolding fields take_apply_receipt_def
    by (rule reads_eq, (rule reads_bind, rule read_rules reads_bounded_count [OF n] many)+, rule reads_return)
       (use assms n in \<open>simp add: put_apply_receipt_def fields\<close>)
qed

lemma parses_apply_receipt: "parses take_apply_receipt (\<lambda>rc bs. put_apply_receipt rc = Inr bs)"
  unfolding take_apply_receipt_def put_apply_receipt_def
  by ((rule parses_bind, rule parse_rules parses_bounded_count cell_ref_codec.parses_many)+, rule parses_return) auto

interpretation receipt_codec: codec "\<lambda>_. True" put_apply_receipt take_apply_receipt
  by unfold_locales (auto intro: reads_apply_receipt parses_mono [OF parses_apply_receipt])

text \<open>A manifest is read back only if its indices are distinct: the reader checks what the writer does not.\<close>

lemma reads_committee_manifest:
  assumes "put_committee_manifest m = Inr bs" and "distinct (map cm_index (m_members m))"
  shows "reads take_committee_manifest m bs"
proof (cases m)
  case (fields nid ep th ms)
  obtain n where n: "put_bounded_count (length ms) N = Inr n"
    using assms unfolding fields put_committee_manifest_def by auto
  have many: "reads (take_distinct (length ms) take_committee_member cm_index {}) ms (concat (map put_committee_member ms))"
    using member_codec.reads_distinct [of ms _ cm_index "{}"] assms(2) fields by simp
  show ?thesis
    unfolding fields take_committee_manifest_def
    by (rule reads_eq, (rule reads_bind, rule read_rules reads_bounded_count [OF n] many)+, rule reads_return)
       (use assms n in \<open>simp add: put_committee_manifest_def fields\<close>)
qed

lemma parses_committee_manifest:
  "parses take_committee_manifest (\<lambda>m bs. distinct (map cm_index (m_members m)) \<and> put_committee_manifest m = Inr bs)"
  unfolding take_committee_manifest_def put_committee_manifest_def
  by ((rule parses_bind, rule parse_rules parses_bounded_count member_codec.parses_distinct)+, rule parses_return) auto

interpretation manifest_codec: codec "\<lambda>m. distinct (map cm_index (m_members m))" put_committee_manifest take_committee_manifest
  by unfold_locales (auto intro: reads_committee_manifest parses_committee_manifest)

lemma reads_snapshot:
  assumes "put_snapshot cells = Inr bs"
  shows "reads take_snapshot cells bs"
proof -
  obtain n where n: "put_bounded_count (length cells) MAX_COLLECTION_LEN = Inr n" and d: "distinct (map cell_reference cells)"
    and bs: "bs = n @ concat (map put_cell cells)"
    using assms by (auto simp: put_snapshot_def put_count_def split: if_splits)
  have "reads (take_distinct (length cells) take_cell cell_reference {}) cells (concat (map put_cell cells))"
    using cell_codec.reads_distinct [of cells _ cell_reference "{}"] d by simp
  then show ?thesis
    unfolding bs take_snapshot_def take_count_def by (rule reads_bind [OF reads_bounded_count [OF n]])
qed

lemma parses_snapshot: "parses take_snapshot (\<lambda>cells bs. put_snapshot cells = Inr bs)"
  unfolding take_snapshot_def take_count_def
  by (rule parses_bind, rule parses_bounded_count, rule parses_mono [OF cell_codec.parses_distinct])
     (auto simp: put_snapshot_def put_count_def)

interpretation snapshot_codec: codec "\<lambda>_. True" put_snapshot take_snapshot
  by unfold_locales (auto intro: reads_snapshot parses_mono [OF parses_snapshot])

section \<open>A whole state reads back\<close>

lemma reads_spent: "reads take_spent ri (put_spent ri)"
  unfolding take_spent_def
  by (cases ri, hypsubst, rule reads_eq, (rule reads_bind, rule read_rules reads_cell_ref)+, rule reads_return)
     (simp add: put_spent_def)

lemma parses_spent: "parses take_spent (\<lambda>ri bs. bs = put_spent ri)"
  unfolding take_spent_def put_spent_def
  by ((rule parses_bind, rule parse_rules parses_cell_ref)+, rule parses_return) simp

interpretation spent_codec: codec "\<lambda>_. True" "\<lambda>ri. Inr (put_spent ri)" take_spent
  by unfold_locales (auto simp: reads_spent intro: parses_mono [OF parses_spent])

lemma put_live_all:
  "mapE put_live l = Inr bss \<longleftrightarrow> (\<forall>(r, c) \<in> set l. r = cell_reference c) \<and> bss = map (\<lambda>rc. put_cell (snd rc)) l"
  by (induction l arbitrary: bss) (auto simp: put_live_def split: if_splits)

lemma put_applied_all:
  "mapE put_applied l = Inr bss \<longleftrightarrow> (\<forall>(i, rc) \<in> set l. i = rc_intent rc) \<and> mapE put_apply_receipt (map snd l) = Inr bss"
  by (induction l arbitrary: bss) (auto simp: put_applied_def split: if_splits)

lemma keyed_entries:
  assumes "\<forall>(k, v) \<in> set (sorted_list_of_fmap m). k = key v"
  shows "map key (map snd (sorted_list_of_fmap m)) = sorted_list_of_fset (fmdom m)"
    and "fmap_of_list (map (\<lambda>v. (key v, v)) (map snd (sorted_list_of_fmap m))) = m"
proof -
  have "map key (map snd (sorted_list_of_fmap m)) = map fst (sorted_list_of_fmap m)"
    using assms by auto
  then show "map key (map snd (sorted_list_of_fmap m)) = sorted_list_of_fset (fmdom m)"
    by (simp only: sorted_list_of_fmap_keys)
  have "map (\<lambda>v. (key v, v)) (map snd (sorted_list_of_fmap m)) = sorted_list_of_fmap m"
    using assms by (auto intro!: map_idI)
  then show "fmap_of_list (map (\<lambda>v. (key v, v)) (map snd (sorted_list_of_fmap m))) = m"
    by simp
qed

lemma fset_of_sorted_list [simp]: "fset_of_list (sorted_list_of_fset A) = A"
  by (metis fset_inverse fset_of_list.rep_eq sorted_list_of_fset_set)

lemma reads_state:
  assumes "put_state s = Inr bs"
  shows "reads take_state s bs"
proof -
  let ?L = "sorted_list_of_fmap (st_live s)" and ?S = "sorted_list_of_fmap (st_spent_by s)"
  let ?K = "sorted_list_of_fset (st_known_ids s)" and ?A = "sorted_list_of_fmap (st_applied s)"
  obtain n1 n2 n3 n4 app where n: "put_bounded_count (length (map snd ?L)) MAX_COLLECTION_LEN = Inr n1"
      "put_bounded_count (length ?S) MAX_COLLECTION_LEN = Inr n2"
      "put_bounded_count (length ?K) MAX_COLLECTION_LEN = Inr n3"
      "put_bounded_count (length (map snd ?A)) MAX_COLLECTION_LEN = Inr n4"
    and live: "\<forall>(r, c) \<in> set ?L. r = cell_reference c"
    and applied: "\<forall>(i, rc) \<in> set ?A. i = rc_intent rc" "mapE put_apply_receipt (map snd ?A) = Inr app"
    and bs: "bs = n1 @ concat (map put_cell (map snd ?L)) @ n2 @ concat (map put_spent ?S) @
      n3 @ concat (map array_bytes ?K) @ n4 @ concat app"
    using assms by (auto simp: put_state_def put_count_def put_live_all put_applied_all comp_def)
  have dist: "distinct (map fst ?S)" "distinct (map cell_reference (map snd ?L))" "distinct (map rc_intent (map snd ?A))"
    using keyed_entries(1) [OF live] keyed_entries(1) [OF applied(1)] by (simp_all only: sorted_list_of_fmap_keys sorted_list_of_fset_distinct)
  have r1: "reads (take_distinct (length (map snd ?L)) take_cell cell_reference {}) (map snd ?L) (concat (map put_cell (map snd ?L)))"
    by (rule cell_codec.reads_distinct) (use dist in \<open>simp_all only: mapE_pure, simp_all\<close>)
  have r2: "reads (take_distinct (length ?S) take_spent fst {}) ?S (concat (map put_spent ?S))"
    by (rule spent_codec.reads_distinct) (use dist in simp_all)
  have r3: "reads (take_distinct (length ?K) take_fixed id {}) ?K (concat (map array_bytes ?K))"
    by (rule fixed32.reads_distinct) simp_all
  have r4: "reads (take_distinct (length (map snd ?A)) take_apply_receipt rc_intent {}) (map snd ?A) (concat app)"
    by (rule receipt_codec.reads_distinct) (use dist applied in simp_all)
  have s: "s = \<lparr>st_live = fmap_of_list (map (\<lambda>c. (cell_reference c, c)) (map snd ?L)), st_spent_by = fmap_of_list ?S,
      st_known_ids = fset_of_list ?K, st_applied = fmap_of_list (map (\<lambda>rc. (rc_intent rc, rc)) (map snd ?A))\<rparr>"
    using keyed_entries(2) [OF live] keyed_entries(2) [OF applied(1)] by simp
  show ?thesis
    unfolding take_state_def take_count_def
    by (subst s, rule reads_eq,
        rule reads_bind [OF reads_bounded_count [OF n(1)]], rule reads_bind [OF r1],
        rule reads_bind [OF reads_bounded_count [OF n(2)]], rule reads_bind [OF r2],
        rule reads_bind [OF reads_bounded_count [OF n(3)]], rule reads_bind [OF r3],
        rule reads_bind [OF reads_bounded_count [OF n(4)]], rule reads_bind [OF r4], rule reads_return)
       (simp add: bs)
qed

interpretation state_reader: reader "\<lambda>_. True" put_state take_state
  by unfold_locales (rule reads_state)

lemmas wire_defs = encode_committee_manifest_def decode_committee_manifest_def encode_cell_ref_def decode_cell_ref_def
  encode_cell_def decode_cell_def encode_tx_def decode_tx_def encode_user_auth_def decode_user_auth_def
  encode_vote_def decode_vote_def encode_qc_def decode_qc_def encode_proposal_def decode_proposal_def
  encode_state_def decode_state_def encode_state_snapshot_def decode_state_snapshot_def

end
