(* ===== verification/Store.thy ===== *)
theory Store
  imports Cells
begin

text \<open>
  The write-ahead log of a validator (\<open>integration001/src/store.rs\<close>): the records, their
  encoding and checksum, the replay of a log, and the operations of \<open>WalStore\<close>, each of
  which appends a record before it changes the state in memory.

  The file is its bytes.  Appending takes the outcome of the writes and of the final sync as
  an argument: \<open>None\<close> when all succeed, \<open>Some n\<close> when one fails after \<open>n\<close> bytes of the record
  have reached the file.  The fields that \<open>WalStore\<close> and \<open>ReplayState\<close> have in common are one
  record, \<open>replay_state\<close>.
\<close>

section \<open>Data\<close>

datatype lifecycle = Initialized | Active | Retired

datatype persist_outcome = Persisted | AlreadyPresent

record snapshot =
  sn_committee_hash :: digest
  sn_epoch :: u64
  sn_state_root :: digest
  sn_bytes :: "u8 list"

record activation_record =
  ac_handoff_hash :: digest
  ac_snapshot :: snapshot

record retirement_record =
  rt_handoff_hash :: digest
  rt_next_committee :: digest
  rt_next_epoch :: u64
  rt_snapshot :: snapshot

record precommit_lock =
  pl_round :: u64
  pl_digest :: digest

record applied_record =
  ap_tx_digest :: digest
  ap_certificate_digest :: digest
  ap_prior_state_root :: digest
  ap_next_snapshot :: snapshot

record vote_key =
  vk_conflict_key :: digest
  vk_round :: u64
  vk_phase :: u8

record replay_state =
  rs_initial_snapshot :: snapshot
  rs_lifecycle :: lifecycle
  rs_current_snapshot :: snapshot
  rs_activation :: "activation_record option"
  rs_retirement :: "retirement_record option"
  rs_votes :: "(vote_key, digest) fmap"
  rs_locks :: "(digest, precommit_lock) fmap"
  rs_applied :: "(digest, applied_record) fmap"
  rs_next_sequence :: u64

record wal_store =
  ws_file :: "u8 list"
  ws_committee_hash :: digest
  ws_epoch :: u64
  ws_state :: replay_state
  ws_poisoned :: bool

datatype replay_error =
    Incomplete | BadMagic | BadWalVersion | NonzeroReserved | PayloadTooLong | BadSequence |
    BadChecksum | MisplacedInitialization | NoInitialization | SequenceOverflow

datatype payload_error =
    TruncatedPayload | TrailingPayload | SnapshotTooLong | SnapshotCommittee | SnapshotEpoch | UnknownPhase

datatype record_error =
    AfterRetirement | MisplacedActivation | ActivationChangedState | RecordNotActive | ConflictingVote |
    DuplicateVote | VoteBelowLock | VoteAgainstLock

datatype record_error2 =
    ZeroDigests | DuplicateApply | BadLineage | RootNotAdvanced | SameCommittee | SkippedEpoch |
    EpochOverflow | RetirementChangedState | UnknownKind

datatype operation_error =
    MissingGenesis | GenesisConflict | Poisoned | NotActive | ActivationConflict | RetiredCommittee |
    ApplyConflict | RetirementConflict | RootMismatch | SequenceExhausted

datatype store_error =
    ReplayError replay_error
  | PayloadError payload_error
  | RecordError record_error
  | RecordError2 record_error2
  | OperationError operation_error
  | AppendFailed

definition WAL_VERSION :: u16 where "WAL_VERSION = 1"
definition HEADER_LEN :: nat where "HEADER_LEN = 24"
definition CHECKSUM_LEN :: nat where "CHECKSUM_LEN = 32"
definition MAX_SNAPSHOT_BYTES :: nat where "MAX_SNAPSHOT_BYTES = 8 * 1024 * 1024"
definition MAX_PAYLOAD_BYTES :: nat where "MAX_PAYLOAD_BYTES = MAX_SNAPSHOT_BYTES + 512"
definition KIND_INITIALIZE :: u8 where "KIND_INITIALIZE = 1"
definition KIND_ACTIVATE :: u8 where "KIND_ACTIVATE = 2"
definition KIND_VOTE :: u8 where "KIND_VOTE = 3"
definition KIND_APPLY :: u8 where "KIND_APPLY = 4"
definition KIND_RETIRE :: u8 where "KIND_RETIRE = 5"

lemmas wal_consts = HEADER_LEN_def CHECKSUM_LEN_def MAX_SNAPSHOT_BYTES_def MAX_PAYLOAD_BYTES_def
lemmas wal_kinds = KIND_INITIALIZE_def KIND_ACTIVATE_def KIND_VOTE_def KIND_APPLY_def KIND_RETIRE_def

section \<open>Payloads\<close>

text \<open>Reading from the front of a payload: the value and what is left.\<close>

definition slice_take :: "nat \<Rightarrow> u8 list \<Rightarrow> store_error + u8 list \<times> u8 list" where
  "slice_take len inp =
    (if length inp < len then Inl (PayloadError TruncatedPayload) else Inr (take len inp, drop len inp))"

definition slice_u8 :: "u8 list \<Rightarrow> store_error + u8 \<times> u8 list" where
  "slice_u8 inp = bindE (slice_take 1 inp) (\<lambda>(bs, rest). Inr (bs ! 0, rest))"

definition slice_u32 :: "u8 list \<Rightarrow> store_error + u32 \<times> u8 list" where
  "slice_u32 inp = bindE (slice_take 4 inp) (\<lambda>(bs, rest). Inr (from_le32 bs, rest))"

definition slice_u64 :: "u8 list \<Rightarrow> store_error + u64 \<times> u8 list" where
  "slice_u64 inp = bindE (slice_take 8 inp) (\<lambda>(bs, rest). Inr (from_le64 bs, rest))"

definition slice_digest :: "u8 list \<Rightarrow> store_error + digest \<times> u8 list" where
  "slice_digest inp = bindE (slice_take 32 inp) (\<lambda>(bs, rest). Inr (mk_array bs, rest))"

definition slice_finish :: "u8 list \<Rightarrow> store_error + unit" where
  "slice_finish inp = (if inp = [] then Inr () else Inl (PayloadError TrailingPayload))"

definition encode_snapshot :: "snapshot \<Rightarrow> store_error + u8 list" where
  "encode_snapshot s =
    (if length (sn_bytes s) > MAX_SNAPSHOT_BYTES then Inl (PayloadError SnapshotTooLong)
     else Inr (array_bytes (sn_committee_hash s) @ to_le64 (sn_epoch s) @ array_bytes (sn_state_root s) @
               to_le32 (of_nat (length (sn_bytes s))) @ sn_bytes s))"

definition decode_snapshot :: "u8 list \<Rightarrow> store_error + snapshot \<times> u8 list" where
  "decode_snapshot inp =
    bindE (slice_digest inp) (\<lambda>(committee, inp).
    bindE (slice_u64 inp) (\<lambda>(epoch, inp).
    bindE (slice_digest inp) (\<lambda>(root, inp).
    bindE (slice_u32 inp) (\<lambda>(len, inp).
    if unat len > MAX_SNAPSHOT_BYTES then Inl (PayloadError SnapshotTooLong)
    else bindE (slice_take (unat len) inp) (\<lambda>(bs, inp).
      Inr (\<lparr>sn_committee_hash = committee, sn_epoch = epoch, sn_state_root = root, sn_bytes = bs\<rparr>, inp))))))"

definition decode_snapshot_exact :: "u8 list \<Rightarrow> store_error + snapshot" where
  "decode_snapshot_exact payload =
    bindE (decode_snapshot payload) (\<lambda>(s, inp). bindE (slice_finish inp) (\<lambda>_. Inr s))"

definition validate_snapshot :: "snapshot \<Rightarrow> digest \<Rightarrow> u64 \<Rightarrow> store_error + unit" where
  "validate_snapshot s committee epoch =
    (if sn_committee_hash s \<noteq> committee then Inl (PayloadError SnapshotCommittee)
     else if sn_epoch s \<noteq> epoch then Inl (PayloadError SnapshotEpoch)
     else if length (sn_bytes s) > MAX_SNAPSHOT_BYTES then Inl (PayloadError SnapshotTooLong)
     else Inr ())"

definition validate_phase :: "u8 \<Rightarrow> store_error + unit" where
  "validate_phase phase =
    (if phase = PHASE_PREVOTE \<or> phase = PHASE_PRECOMMIT then Inr () else Inl (PayloadError UnknownPhase))"

definition is_zero :: "digest \<Rightarrow> bool" where
  "is_zero d = list_all (\<lambda>b. b = 0) (array_bytes d)"

section \<open>Records\<close>

definition wal_checksum :: "crypto \<Rightarrow> u8 list \<Rightarrow> u8 list \<Rightarrow> digest" where
  "wal_checksum C header payload =
    blake3 C (ascii ''CALIBRE_INTEGRATION001_APPEND_ONLY_WAL_CHECKSUM_V1'' @ header @ payload)"

definition record_header :: "u64 \<Rightarrow> u8 \<Rightarrow> nat \<Rightarrow> u8 list" where
  "record_header sequence kind len =
    ascii ''CALINT1W'' @ to_le16 WAL_VERSION @ [kind] @ [0] @ to_le32 (of_nat len) @ to_le64 sequence"

definition record_bytes :: "crypto \<Rightarrow> u64 \<Rightarrow> u8 \<Rightarrow> u8 list \<Rightarrow> u8 list" where
  "record_bytes C sequence kind payload =
    (let header = record_header sequence kind (length payload)
     in header @ payload @ array_bytes (wal_checksum C header payload))"

definition append_record ::
    "crypto \<Rightarrow> nat option \<Rightarrow> u8 list \<Rightarrow> u64 \<Rightarrow> u8 \<Rightarrow> u8 list \<Rightarrow> (store_error + unit) \<times> u8 list" where
  "append_record C io file sequence kind payload =
    (if length payload > MAX_PAYLOAD_BYTES then (Inl (ReplayError PayloadTooLong), file)
     else case io of
       None \<Rightarrow> (Inr (), file @ record_bytes C sequence kind payload)
     | Some n \<Rightarrow> (Inl AppendFailed, file @ take n (record_bytes C sequence kind payload)))"

text \<open>The checks of one turn of the loop of \<open>replay_wal\<close> up to the checksum: kind, payload and the bytes after the record.\<close>

definition parse_record ::
    "crypto \<Rightarrow> u8 list \<Rightarrow> u64 \<Rightarrow> store_error + u8 \<times> u8 list \<times> u8 list" where
  "parse_record C bs sequence =
    (let remaining = length bs in
     if remaining < HEADER_LEN + CHECKSUM_LEN then Inl (ReplayError Incomplete)
     else let header = take HEADER_LEN bs in
     if take 8 header \<noteq> ascii ''CALINT1W'' then Inl (ReplayError BadMagic)
     else if from_le16 (take 2 (drop 8 header)) \<noteq> WAL_VERSION then Inl (ReplayError BadWalVersion)
     else let kind = header ! 10 in
     if header ! 11 \<noteq> 0 then Inl (ReplayError NonzeroReserved)
     else let payload_len = unat (from_le32 (take 4 (drop 12 header))) in
     if payload_len > MAX_PAYLOAD_BYTES then Inl (ReplayError PayloadTooLong)
     else if from_le64 (take 8 (drop 16 header)) \<noteq> sequence then Inl (ReplayError BadSequence)
     else let record_len = HEADER_LEN + payload_len + CHECKSUM_LEN in
     if record_len > remaining then Inl (ReplayError Incomplete)
     else let payload = take payload_len (drop HEADER_LEN bs);
              checksum = take CHECKSUM_LEN (drop (HEADER_LEN + payload_len) bs) in
     if checksum \<noteq> array_bytes (wal_checksum C header payload) then Inl (ReplayError BadChecksum)
     else Inr (kind, payload, drop record_len bs))"

definition initial_replay :: "snapshot \<Rightarrow> replay_state" where
  "initial_replay s =
    \<lparr>rs_initial_snapshot = s, rs_lifecycle = Initialized, rs_current_snapshot = s, rs_activation = None,
     rs_retirement = None, rs_votes = fmempty, rs_locks = fmempty, rs_applied = fmempty, rs_next_sequence = 1\<rparr>"

definition require_active :: "replay_state \<Rightarrow> store_error + unit" where
  "require_active st =
    (if rs_lifecycle st = Active then Inr () else Inl (RecordError RecordNotActive))"

definition replay_activate :: "replay_state \<Rightarrow> u8 list \<Rightarrow> digest \<Rightarrow> u64 \<Rightarrow> store_error + replay_state" where
  "replay_activate st payload committee epoch =
    (if rs_lifecycle st \<noteq> Initialized \<or> rs_activation st \<noteq> None then Inl (RecordError MisplacedActivation)
     else bindE (slice_digest payload) (\<lambda>(handoff, inp).
     bindE (decode_snapshot inp) (\<lambda>(s, inp).
     bindE (slice_finish inp) (\<lambda>_.
     bindE (validate_snapshot s committee epoch) (\<lambda>_.
     if s \<noteq> rs_current_snapshot st then Inl (RecordError ActivationChangedState)
     else Inr (st\<lparr>rs_lifecycle := Active, rs_current_snapshot := s,
                  rs_activation := Some \<lparr>ac_handoff_hash = handoff, ac_snapshot = s\<rparr>\<rparr>))))))"

definition insert_vote :: "digest \<Rightarrow> u64 \<Rightarrow> u8 \<Rightarrow> digest \<Rightarrow> replay_state \<Rightarrow> replay_state" where
  "insert_vote conflict rnd phase d st =
    (let key = \<lparr>vk_conflict_key = conflict, vk_round = rnd, vk_phase = phase\<rparr>;
         st1 = st\<lparr>rs_votes := fmupd key d (rs_votes st)\<rparr>
     in if phase = PHASE_PRECOMMIT
        then st1\<lparr>rs_locks := fmupd conflict \<lparr>pl_round = rnd, pl_digest = d\<rparr> (rs_locks st1)\<rparr> else st1)"

definition check_lock :: "replay_state \<Rightarrow> digest \<Rightarrow> u64 \<Rightarrow> digest \<Rightarrow> store_error + unit" where
  "check_lock st conflict rnd d =
    (case fmlookup (rs_locks st) conflict of
       None \<Rightarrow> Inr ()
     | Some lock \<Rightarrow>
         if rnd < pl_round lock then Inl (RecordError VoteBelowLock)
         else if d \<noteq> pl_digest lock then Inl (RecordError VoteAgainstLock)
         else Inr ())"

definition replay_vote :: "replay_state \<Rightarrow> u8 list \<Rightarrow> store_error + replay_state" where
  "replay_vote st payload =
    bindE (require_active st) (\<lambda>_.
    bindE (slice_digest payload) (\<lambda>(conflict, inp).
    bindE (slice_u64 inp) (\<lambda>(rnd, inp).
    bindE (slice_u8 inp) (\<lambda>(phase, inp).
    bindE (slice_digest inp) (\<lambda>(d, inp).
    bindE (slice_finish inp) (\<lambda>_.
    bindE (validate_phase phase) (\<lambda>_.
    case fmlookup (rs_votes st) \<lparr>vk_conflict_key = conflict, vk_round = rnd, vk_phase = phase\<rparr> of
      Some old \<Rightarrow> if old \<noteq> d then Inl (RecordError ConflictingVote) else Inl (RecordError DuplicateVote)
    | None \<Rightarrow> bindE (check_lock st conflict rnd d) (\<lambda>_. Inr (insert_vote conflict rnd phase d st)))))))))"

definition replay_apply :: "replay_state \<Rightarrow> u8 list \<Rightarrow> digest \<Rightarrow> u64 \<Rightarrow> store_error + replay_state" where
  "replay_apply st payload committee epoch =
    bindE (require_active st) (\<lambda>_.
    bindE (slice_digest payload) (\<lambda>(tx_digest, inp).
    bindE (slice_digest inp) (\<lambda>(cd, inp).
    bindE (slice_digest inp) (\<lambda>(prior_root, inp).
    bindE (decode_snapshot inp) (\<lambda>(s, inp).
    bindE (slice_finish inp) (\<lambda>_.
    bindE (validate_snapshot s committee epoch) (\<lambda>_.
    if is_zero tx_digest \<or> is_zero cd then Inl (RecordError2 ZeroDigests)
    else if tx_digest |\<in>| fmdom (rs_applied st) then Inl (RecordError2 DuplicateApply)
    else if prior_root \<noteq> sn_state_root (rs_current_snapshot st) then Inl (RecordError2 BadLineage)
    else if sn_state_root s = prior_root then Inl (RecordError2 RootNotAdvanced)
    else Inr (st\<lparr>rs_applied := fmupd tx_digest
                   \<lparr>ap_tx_digest = tx_digest, ap_certificate_digest = cd, ap_prior_state_root = prior_root,
                    ap_next_snapshot = s\<rparr> (rs_applied st),
                 rs_current_snapshot := s\<rparr>))))))))"

definition replay_retire :: "replay_state \<Rightarrow> u8 list \<Rightarrow> digest \<Rightarrow> u64 \<Rightarrow> store_error + replay_state" where
  "replay_retire st payload committee epoch =
    bindE (require_active st) (\<lambda>_.
    bindE (slice_digest payload) (\<lambda>(handoff, inp).
    bindE (slice_digest inp) (\<lambda>(next_committee, inp).
    bindE (slice_u64 inp) (\<lambda>(next_epoch, inp).
    bindE (decode_snapshot inp) (\<lambda>(s, inp).
    bindE (slice_finish inp) (\<lambda>_.
    if is_zero handoff then Inl (RecordError2 ZeroDigests)
    else if next_committee = committee then Inl (RecordError2 SameCommittee)
    else bindE (ok_or (RecordError2 EpochOverflow) (checked_add64 epoch 1)) (\<lambda>required.
    if next_epoch \<noteq> required then Inl (RecordError2 SkippedEpoch)
    else if s \<noteq> rs_current_snapshot st then Inl (RecordError2 RetirementChangedState)
    else Inr (st\<lparr>rs_lifecycle := Retired,
                 rs_retirement := Some \<lparr>rt_handoff_hash = handoff, rt_next_committee = next_committee,
                   rt_next_epoch = next_epoch, rt_snapshot = s\<rparr>\<rparr>))))))))"

definition replay_record ::
    "replay_state \<Rightarrow> u8 \<Rightarrow> u8 list \<Rightarrow> digest \<Rightarrow> u64 \<Rightarrow> store_error + replay_state" where
  "replay_record st kind payload committee epoch =
    (if rs_lifecycle st = Retired then Inl (RecordError AfterRetirement)
     else if kind = KIND_ACTIVATE then replay_activate st payload committee epoch
     else if kind = KIND_VOTE then replay_vote st payload
     else if kind = KIND_APPLY then replay_apply st payload committee epoch
     else if kind = KIND_RETIRE then replay_retire st payload committee epoch
     else if kind = KIND_INITIALIZE then Inl (ReplayError MisplacedInitialization)
     else Inl (RecordError2 UnknownKind))"

text \<open>The effect of one record on the state of the replay, \<open>None\<close> before the initialization record.\<close>

definition replay_step ::
    "digest \<Rightarrow> u64 \<Rightarrow> u64 \<Rightarrow> u8 \<Rightarrow> u8 list \<Rightarrow> replay_state option \<Rightarrow> store_error + replay_state option" where
  "replay_step committee epoch sequence kind payload st =
    (if kind = KIND_INITIALIZE then
       (if sequence \<noteq> 0 \<or> st \<noteq> None then Inl (ReplayError MisplacedInitialization)
        else bindE (decode_snapshot_exact payload) (\<lambda>s.
          bindE (validate_snapshot s committee epoch) (\<lambda>_. Inr (Some (initial_replay s)))))
     else case st of
       None \<Rightarrow> Inl (ReplayError NoInitialization)
     | Some replay \<Rightarrow> map_ok Some (replay_record replay kind payload committee epoch))"

lemma parse_record_shorter:
  "parse_record C bs sequence = Inr (kind, payload, rest) \<Longrightarrow> length rest < length bs"
  by (auto simp: parse_record_def Let_def wal_consts split: if_splits)

function replay_loop ::
    "crypto \<Rightarrow> digest \<Rightarrow> u64 \<Rightarrow> u8 list \<Rightarrow> u64 \<Rightarrow> replay_state option \<Rightarrow> store_error + u64 \<times> replay_state option" where
  "replay_loop C committee epoch bs sequence st =
    (if bs = [] then Inr (sequence, st)
     else bindE (parse_record C bs sequence) (\<lambda>record.
       bindE (replay_step committee epoch sequence (fst record) (fst (snd record)) st) (\<lambda>st'.
       bindE (ok_or (ReplayError SequenceOverflow) (checked_add64 sequence 1)) (\<lambda>next_sequence.
         replay_loop C committee epoch (snd (snd record)) next_sequence st'))))"
  by pat_completeness auto
termination
  by (relation "measure (\<lambda>(C, committee, epoch, bs, sequence, st). length bs)")
     (auto dest: parse_record_shorter)

declare replay_loop.simps [simp del]

definition replay_wal :: "crypto \<Rightarrow> u8 list \<Rightarrow> digest \<Rightarrow> u64 \<Rightarrow> store_error + replay_state" where
  "replay_wal C bs committee epoch =
    bindE (replay_loop C committee epoch bs 0 None) (\<lambda>(sequence, st).
    case st of
      None \<Rightarrow> Inl (ReplayError NoInitialization)
    | Some replay \<Rightarrow> Inr (replay\<lparr>rs_next_sequence := sequence\<rparr>))"

section \<open>The store\<close>

definition open_store ::
    "crypto \<Rightarrow> nat option \<Rightarrow> u8 list \<Rightarrow> digest \<Rightarrow> u64 \<Rightarrow> snapshot option \<Rightarrow> (store_error + wal_store) \<times> u8 list" where
  "open_store C io file committee epoch genesis =
    (if file = [] then
       (case genesis of
          None \<Rightarrow> (Inl (OperationError MissingGenesis), file)
        | Some s \<Rightarrow>
            (case bindE (validate_snapshot s committee epoch) (\<lambda>_. encode_snapshot s) of
               Inl e \<Rightarrow> (Inl e, file)
             | Inr payload \<Rightarrow>
                 (case append_record C io file 0 KIND_INITIALIZE payload of (res, file') \<Rightarrow>
                   (map_ok (\<lambda>_. \<lparr>ws_file = file', ws_committee_hash = committee, ws_epoch = epoch,
                                 ws_state = initial_replay s, ws_poisoned = False\<rparr>) res, file'))))
     else
       (bindE (replay_wal C file committee epoch) (\<lambda>replay.
        bindE (case genesis of
                 None \<Rightarrow> Inr ()
               | Some provided \<Rightarrow>
                   bindE (validate_snapshot provided committee epoch) (\<lambda>_.
                   if provided \<noteq> rs_initial_snapshot replay then Inl (OperationError GenesisConflict)
                   else Inr ())) (\<lambda>_.
        Inr \<lparr>ws_file = file, ws_committee_hash = committee, ws_epoch = epoch, ws_state = replay,
             ws_poisoned = False\<rparr>)), file))"

definition ws_lifecycle :: "wal_store \<Rightarrow> lifecycle" where
  "ws_lifecycle w = rs_lifecycle (ws_state w)"

definition current_snapshot :: "wal_store \<Rightarrow> snapshot" where
  "current_snapshot w = rs_current_snapshot (ws_state w)"

definition initial_snapshot :: "wal_store \<Rightarrow> snapshot" where
  "initial_snapshot w = rs_initial_snapshot (ws_state w)"

definition vote_digest :: "wal_store \<Rightarrow> digest \<Rightarrow> u64 \<Rightarrow> u8 \<Rightarrow> digest option" where
  "vote_digest w conflict rnd phase =
    fmlookup (rs_votes (ws_state w)) \<lparr>vk_conflict_key = conflict, vk_round = rnd, vk_phase = phase\<rparr>"

definition lock_of :: "wal_store \<Rightarrow> digest \<Rightarrow> precommit_lock option" where
  "lock_of w conflict = fmlookup (rs_locks (ws_state w)) conflict"

definition applied_record_of :: "wal_store \<Rightarrow> digest \<Rightarrow> applied_record option" where
  "applied_record_of w tx_digest = fmlookup (rs_applied (ws_state w)) tx_digest"

definition applied_count :: "wal_store \<Rightarrow> nat" where
  "applied_count w = fcard (fmdom (rs_applied (ws_state w)))"

definition wal_bytes :: "wal_store \<Rightarrow> nat" where
  "wal_bytes w = length (ws_file w)"

definition ensure_healthy :: "wal_store \<Rightarrow> store_error + unit" where
  "ensure_healthy w = (if ws_poisoned w then Inl (OperationError Poisoned) else Inr ())"

definition ensure_active :: "wal_store \<Rightarrow> store_error + unit" where
  "ensure_active w =
    bindE (ensure_healthy w) (\<lambda>_.
    case ws_lifecycle w of
      Active \<Rightarrow> Inr ()
    | Initialized \<Rightarrow> Inl (OperationError NotActive)
    | Retired \<Rightarrow> Inl (OperationError RetiredCommittee))"

text \<open>
  \<open>append\<close>: a failed write poisons the store.  When the sequence number is exhausted the record
  has been written and the call fails, without poisoning.
\<close>

definition wal_append :: "crypto \<Rightarrow> nat option \<Rightarrow> u8 \<Rightarrow> u8 list \<Rightarrow> wal_store \<Rightarrow> (store_error + unit) \<times> wal_store" where
  "wal_append C io kind payload w =
    (let sequence = rs_next_sequence (ws_state w) in
     case append_record C io (ws_file w) sequence kind payload of
       (Inr _, file') \<Rightarrow>
         (case checked_add64 sequence 1 of
            Some next_sequence \<Rightarrow>
              (Inr (), w\<lparr>ws_file := file', ws_state := (ws_state w)\<lparr>rs_next_sequence := next_sequence\<rparr>\<rparr>)
          | None \<Rightarrow> (Inl (OperationError SequenceExhausted), w\<lparr>ws_file := file'\<rparr>))
     | (Inl e, file') \<Rightarrow> (Inl e, w\<lparr>ws_file := file', ws_poisoned := True\<rparr>))"

text \<open>The common end of the operations: append the record, then change the state in memory.\<close>

definition append_then ::
    "crypto \<Rightarrow> nat option \<Rightarrow> u8 \<Rightarrow> u8 list \<Rightarrow> (replay_state \<Rightarrow> replay_state) \<Rightarrow> wal_store
      \<Rightarrow> (store_error + persist_outcome) \<times> wal_store" where
  "append_then C io kind payload update w =
    (case wal_append C io kind payload w of
       (Inr _, w') \<Rightarrow> (Inr Persisted, w'\<lparr>ws_state := update (ws_state w')\<rparr>)
     | (Inl e, w') \<Rightarrow> (Inl e, w'))"

definition activate_store ::
    "crypto \<Rightarrow> nat option \<Rightarrow> digest \<Rightarrow> snapshot \<Rightarrow> wal_store \<Rightarrow> (store_error + persist_outcome) \<times> wal_store" where
  "activate_store C io handoff s w =
    (case bindE (ensure_healthy w) (\<lambda>_. validate_snapshot s (ws_committee_hash w) (ws_epoch w)) of
       Inl e \<Rightarrow> (Inl e, w)
     | Inr _ \<Rightarrow>
       (case ws_lifecycle w of
          Initialized \<Rightarrow>
            if s \<noteq> current_snapshot w then (Inl (OperationError ActivationConflict), w)
            else (case encode_snapshot s of
                Inl e \<Rightarrow> (Inl e, w)
              | Inr bs \<Rightarrow>
                  append_then C io KIND_ACTIVATE (array_bytes handoff @ bs)
                    (\<lambda>st. st\<lparr>rs_lifecycle := Active, rs_current_snapshot := s,
                             rs_activation := Some \<lparr>ac_handoff_hash = handoff, ac_snapshot = s\<rparr>\<rparr>) w)
        | Active \<Rightarrow>
            (case rs_activation (ws_state w) of
               None \<Rightarrow> (Inl (OperationError NotActive), w)
             | Some existing \<Rightarrow>
                 if ac_handoff_hash existing = handoff \<and> ac_snapshot existing = s
                 then (Inr AlreadyPresent, w) else (Inl (OperationError ActivationConflict), w))
        | Retired \<Rightarrow> (Inl (OperationError RetiredCommittee), w)))"

definition vote_payload :: "digest \<Rightarrow> u64 \<Rightarrow> u8 \<Rightarrow> digest \<Rightarrow> u8 list" where
  "vote_payload conflict rnd phase d = array_bytes conflict @ to_le64 rnd @ [phase] @ array_bytes d"

definition persist_vote ::
    "crypto \<Rightarrow> nat option \<Rightarrow> digest \<Rightarrow> u64 \<Rightarrow> u8 \<Rightarrow> digest \<Rightarrow> wal_store
      \<Rightarrow> (store_error + persist_outcome) \<times> wal_store" where
  "persist_vote C io conflict rnd phase d w =
    (case bindE (ensure_active w) (\<lambda>_. validate_phase phase) of
       Inl e \<Rightarrow> (Inl e, w)
     | Inr _ \<Rightarrow>
       (case vote_digest w conflict rnd phase of
          Some existing \<Rightarrow>
            if existing = d then (Inr AlreadyPresent, w) else (Inl (RecordError ConflictingVote), w)
        | None \<Rightarrow>
            (case check_lock (ws_state w) conflict rnd d of
               Inl e \<Rightarrow> (Inl e, w)
             | Inr _ \<Rightarrow>
                 append_then C io KIND_VOTE (vote_payload conflict rnd phase d)
                   (insert_vote conflict rnd phase d) w)))"

definition apply_payload :: "digest \<Rightarrow> digest \<Rightarrow> digest \<Rightarrow> u8 list \<Rightarrow> u8 list" where
  "apply_payload tx_digest cd prior_root bs =
    array_bytes tx_digest @ array_bytes cd @ array_bytes prior_root @ bs"

definition apply_verified ::
    "crypto \<Rightarrow> nat option \<Rightarrow> digest \<Rightarrow> digest \<Rightarrow> snapshot \<Rightarrow> wal_store
      \<Rightarrow> (store_error + persist_outcome) \<times> wal_store" where
  "apply_verified C io tx_digest cd s w =
    (case bindE (ensure_healthy w) (\<lambda>_. validate_snapshot s (ws_committee_hash w) (ws_epoch w)) of
       Inl e \<Rightarrow> (Inl e, w)
     | Inr _ \<Rightarrow>
       if is_zero tx_digest \<or> is_zero cd then (Inl (RecordError2 ZeroDigests), w)
       else (case applied_record_of w tx_digest of
          Some existing \<Rightarrow>
            if ap_certificate_digest existing = cd \<and> ap_next_snapshot existing = s
            then (Inr AlreadyPresent, w) else (Inl (OperationError ApplyConflict), w)
        | None \<Rightarrow>
            if ws_lifecycle w \<noteq> Active then (Inl (OperationError NotActive), w)
            else if sn_state_root s = sn_state_root (current_snapshot w)
            then (Inl (RecordError2 RootNotAdvanced), w)
            else (case encode_snapshot s of
                Inl e \<Rightarrow> (Inl e, w)
              | Inr bs \<Rightarrow>
                  let prior_root = sn_state_root (current_snapshot w) in
                  append_then C io KIND_APPLY (apply_payload tx_digest cd prior_root bs)
                    (\<lambda>st. st\<lparr>rs_applied := fmupd tx_digest
                               \<lparr>ap_tx_digest = tx_digest, ap_certificate_digest = cd,
                                ap_prior_state_root = prior_root, ap_next_snapshot = s\<rparr> (rs_applied st),
                             rs_current_snapshot := s\<rparr>) w)))"

definition retire_payload :: "digest \<Rightarrow> digest \<Rightarrow> u64 \<Rightarrow> u8 list \<Rightarrow> u8 list" where
  "retire_payload handoff next_committee next_epoch bs =
    array_bytes handoff @ array_bytes next_committee @ to_le64 next_epoch @ bs"

text \<open>The checks of \<open>retire\<close> on a committee that is not retired.\<close>

definition check_retirement :: "wal_store \<Rightarrow> digest \<Rightarrow> digest \<Rightarrow> u64 \<Rightarrow> digest \<Rightarrow> store_error + unit" where
  "check_retirement w handoff next_committee next_epoch root =
    (if ws_lifecycle w \<noteq> Active then Inl (OperationError NotActive)
     else bindE (ok_or (RecordError2 EpochOverflow) (checked_add64 (ws_epoch w) 1)) (\<lambda>required.
     if next_epoch \<noteq> required then Inl (RecordError2 SkippedEpoch)
     else if next_committee = ws_committee_hash w then Inl (RecordError2 SameCommittee)
     else if root \<noteq> sn_state_root (current_snapshot w) then Inl (OperationError RootMismatch)
     else if is_zero handoff then Inl (RecordError2 ZeroDigests)
     else Inr ()))"

definition retire_store ::
    "crypto \<Rightarrow> nat option \<Rightarrow> digest \<Rightarrow> digest \<Rightarrow> u64 \<Rightarrow> digest \<Rightarrow> wal_store
      \<Rightarrow> (store_error + persist_outcome) \<times> wal_store" where
  "retire_store C io handoff next_committee next_epoch root w =
    (case ensure_healthy w of
       Inl e \<Rightarrow> (Inl e, w)
     | Inr _ \<Rightarrow>
       if ws_lifecycle w = Retired then
         (case rs_retirement (ws_state w) of
            None \<Rightarrow> (Inl (OperationError RetirementConflict), w)
          | Some existing \<Rightarrow>
              if rt_handoff_hash existing = handoff \<and> rt_next_committee existing = next_committee \<and>
                 rt_next_epoch existing = next_epoch \<and> sn_state_root (rt_snapshot existing) = root
              then (Inr AlreadyPresent, w) else (Inl (OperationError RetirementConflict), w))
       else (case bindE (check_retirement w handoff next_committee next_epoch root)
                   (\<lambda>_. encode_snapshot (current_snapshot w)) of
           Inl e \<Rightarrow> (Inl e, w)
         | Inr bs \<Rightarrow>
             append_then C io KIND_RETIRE (retire_payload handoff next_committee next_epoch bs)
               (\<lambda>st. st\<lparr>rs_lifecycle := Retired,
                        rs_retirement := Some \<lparr>rt_handoff_hash = handoff, rt_next_committee = next_committee,
                          rt_next_epoch = next_epoch, rt_snapshot = rs_current_snapshot st\<rparr>\<rparr>) w))"

section \<open>Payloads read back\<close>

lemma slice_take_append [simp]: "length bs = n \<Longrightarrow> slice_take n (bs @ rest) = Inr (bs, rest)"
  by (auto simp: slice_take_def)

lemma slice_simps [simp]:
  "slice_digest (array_bytes d @ rest) = Inr (d, rest)"
  "slice_u64 (to_le64 w @ rest) = Inr (w, rest)"
  "slice_u32 (to_le32 v @ rest) = Inr (v, rest)"
  "slice_u8 (b # rest) = Inr (b, rest)"
  "slice_finish [] = Inr ()"
  using slice_take_append [of "[b]" 1 rest]
  by (simp_all add: slice_digest_def slice_u64_def slice_u32_def slice_u8_def slice_finish_def)

lemma slice_digest_all [simp]: "slice_digest (array_bytes d) = Inr (d, [])"
  using slice_simps(1) [of d "[]"] by simp

lemma encode_snapshot_Inr_iff: "encode_snapshot s = Inr bs \<longleftrightarrow> length (sn_bytes s) \<le> MAX_SNAPSHOT_BYTES \<and>
    bs = array_bytes (sn_committee_hash s) @ to_le64 (sn_epoch s) @ array_bytes (sn_state_root s) @
         to_le32 (of_nat (length (sn_bytes s))) @ sn_bytes s"
  by (auto simp: encode_snapshot_def)

lemma encode_snapshot_length: "encode_snapshot s = Inr bs \<Longrightarrow> length bs \<le> MAX_SNAPSHOT_BYTES + 76"
  by (auto simp: encode_snapshot_Inr_iff)

lemma decode_encode_snapshot:
  assumes "encode_snapshot s = Inr bs"
  shows "decode_snapshot (bs @ rest) = Inr (s, rest)"
proof -
  have len: "length (sn_bytes s) \<le> MAX_SNAPSHOT_BYTES"
    using assms by (simp add: encode_snapshot_Inr_iff)
  then have "unat (of_nat (length (sn_bytes s)) :: u32) = length (sn_bytes s)"
    by (simp add: unat_of_nat wal_consts)
  with assms len show ?thesis
    by (auto simp: encode_snapshot_Inr_iff decode_snapshot_def)
qed

lemma decode_encode_snapshot_all [simp]: "encode_snapshot s = Inr bs \<Longrightarrow> decode_snapshot bs = Inr (s, [])"
  using decode_encode_snapshot [of s bs "[]"] by simp

section \<open>Records read back\<close>

lemma length_header [simp]: "length (record_header sequence kind len) = HEADER_LEN"
  by (simp add: record_header_def ascii_def HEADER_LEN_def)

lemma length_record [simp]: "length (record_bytes C sequence kind payload) = HEADER_LEN + length payload + CHECKSUM_LEN"
  by (simp add: record_bytes_def Let_def CHECKSUM_LEN_def)

lemma header_fields:
  fixes sequence kind len
  assumes "len \<le> MAX_PAYLOAD_BYTES"
  defines "h \<equiv> record_header sequence kind len"
  shows "take 8 h = ascii ''CALINT1W''" "from_le16 (take 2 (drop 8 h)) = WAL_VERSION"
    "h ! 10 = kind" "h ! 11 = 0" "unat (from_le32 (take 4 (drop 12 h))) = len"
    "from_le64 (take 8 (drop 16 h)) = sequence"
proof -
  let ?m = "ascii ''CALINT1W''"
  have m: "length ?m = 8"
    by (simp add: ascii_def)
  have h: "h = ?m @ to_le16 WAL_VERSION @ [kind] @ [0] @ to_le32 (of_nat len) @ to_le64 sequence"
    by (simp add: h_def record_header_def)
  have h11: "h = (?m @ to_le16 WAL_VERSION @ [kind]) @ 0 # to_le32 (of_nat len) @ to_le64 sequence"
    by (simp add: h)
  have h10: "h = (?m @ to_le16 WAL_VERSION) @ kind # [0] @ to_le32 (of_nat len) @ to_le64 sequence"
    by (simp add: h)
  have h12: "h = (?m @ to_le16 WAL_VERSION @ [kind] @ [0]) @ to_le32 (of_nat len) @ to_le64 sequence"
    by (simp add: h)
  have h16: "h = (?m @ to_le16 WAL_VERSION @ [kind] @ [0] @ to_le32 (of_nat len)) @ to_le64 sequence"
    by (simp add: h)
  show "take 8 h = ?m"
    unfolding h using m by simp
  show "from_le16 (take 2 (drop 8 h)) = WAL_VERSION"
    unfolding h using m by simp
  show "h ! 10 = kind"
    unfolding h10 using m by (simp add: nth_append)
  show "h ! 11 = 0"
    unfolding h11 using m by (simp add: nth_append)
  have "drop 12 h = to_le32 (of_nat len) @ to_le64 sequence"
    unfolding h12 using m by simp
  then show "unat (from_le32 (take 4 (drop 12 h))) = len"
    using assms(1) by (simp add: unat_of_nat wal_consts)
  have "drop 16 h = to_le64 sequence"
    unfolding h16 using m by simp
  then show "from_le64 (take 8 (drop 16 h)) = sequence"
    by simp
qed

lemma parse_record_bytes:
  assumes "length payload \<le> MAX_PAYLOAD_BYTES"
  shows "parse_record C (record_bytes C sequence kind payload @ rest) sequence = Inr (kind, payload, rest)"
proof -
  let ?h = "record_header sequence kind (length payload)"
  let ?bs = "record_bytes C sequence kind payload @ rest"
  have bs: "?bs = ?h @ payload @ array_bytes (wal_checksum C ?h payload) @ rest"
    by (simp add: record_bytes_def Let_def)
  have hd: "take HEADER_LEN ?bs = ?h"
    unfolding bs by (simp add: HEADER_LEN_def [symmetric])
  have pl: "take (length payload) (drop HEADER_LEN ?bs) = payload"
    unfolding bs by simp
  have ck: "take CHECKSUM_LEN (drop (HEADER_LEN + length payload) ?bs) = array_bytes (wal_checksum C ?h payload)"
    unfolding bs by (simp add: CHECKSUM_LEN_def)
  have rest: "drop (HEADER_LEN + length payload + CHECKSUM_LEN) ?bs = rest"
    using length_record [of C sequence kind payload] by (simp add: add.commute)
  show ?thesis
    unfolding parse_record_def Let_def hd header_fields [OF assms] pl ck rest using assms by simp
qed

lemma parse_record_append:
  assumes "parse_record C bs sequence = Inr (kind, payload, rest)"
  shows "parse_record C (bs @ extra) sequence = Inr (kind, payload, rest @ extra)"
proof -
  define len where "len = unat (from_le32 (take 4 (drop 12 (take HEADER_LEN bs))))"
  have ge: "HEADER_LEN + CHECKSUM_LEN \<le> length bs" "HEADER_LEN + len + CHECKSUM_LEN \<le> length bs"
    using assms by (auto simp: parse_record_def Let_def len_def split: if_splits)
  have "take HEADER_LEN (bs @ extra) = take HEADER_LEN bs"
    "take len (drop HEADER_LEN (bs @ extra)) = take len (drop HEADER_LEN bs)"
    "take CHECKSUM_LEN (drop (HEADER_LEN + len) (bs @ extra)) = take CHECKSUM_LEN (drop (HEADER_LEN + len) bs)"
    "drop (HEADER_LEN + len + CHECKSUM_LEN) (bs @ extra) = drop (HEADER_LEN + len + CHECKSUM_LEN) bs @ extra"
    using ge by simp_all
  then show ?thesis
    using assms ge by (auto simp: parse_record_def Let_def len_def [symmetric] split: if_splits)
qed

text \<open>A record cut anywhere is recognised as incomplete.\<close>

lemma parse_torn_record:
  assumes "length payload \<le> MAX_PAYLOAD_BYTES" and "n < length (record_bytes C sequence kind payload)"
  shows "parse_record C (take n (record_bytes C sequence kind payload)) sequence = Inl (ReplayError Incomplete)"
proof (cases "n < HEADER_LEN + CHECKSUM_LEN")
  case True
  then show ?thesis
    by (simp add: parse_record_def Let_def)
next
  case False
  let ?h = "record_header sequence kind (length payload)"
  have hd: "take HEADER_LEN (take n (record_bytes C sequence kind payload)) = ?h"
    using False by (simp add: record_bytes_def Let_def min_def)
  have len: "length (take n (record_bytes C sequence kind payload)) = n"
    using assms(2) by simp
  show ?thesis
    unfolding parse_record_def Let_def hd header_fields [OF assms(1)] len using False assms by simp
qed

section \<open>Replay of a log that grows\<close>

lemma replay_loop_Nil [simp]: "replay_loop C cm ep [] sequence st = Inr (sequence, st)"
  by (simp add: replay_loop.simps)

lemma replay_loop_append:
  assumes "replay_loop C cm ep bs sequence st = Inr (sequence', st')"
  shows "replay_loop C cm ep (bs @ extra) sequence st = replay_loop C cm ep extra sequence' st'"
  using assms
proof (induction C cm ep bs sequence st rule: replay_loop.induct)
  case (1 C cm ep bs sequence st)
  show ?case
  proof (cases "bs = []")
    case True
    with 1 show ?thesis by simp
  next
    case False
    with "1.prems" obtain kind payload rest st1 next_sequence where
      step: "parse_record C bs sequence = Inr (kind, payload, rest)"
        "replay_step cm ep sequence kind payload st = Inr st1"
        "checked_add64 sequence 1 = Some next_sequence"
        "replay_loop C cm ep rest next_sequence st1 = Inr (sequence', st')"
      by (subst (asm) replay_loop.simps) auto
    have "replay_loop C cm ep (rest @ extra) next_sequence st1 = replay_loop C cm ep extra sequence' st'"
      using "1.IH" [OF False, of "(kind, payload, rest)" st1 next_sequence] step by simp
    then show ?thesis
      using False step parse_record_append [OF step(1), of extra] by (subst replay_loop.simps) simp
  qed
qed

text \<open>A log that uses up the sequence numbers stays unreadable whatever follows.\<close>

definition no_overflow :: "store_error + 'a \<Rightarrow> bool" where
  "no_overflow r \<longleftrightarrow> r \<noteq> Inl (ReplayError SequenceOverflow)"

lemma no_overflow_bind: "no_overflow r \<Longrightarrow> (\<And>x. no_overflow (f x)) \<Longrightarrow> no_overflow (bindE r f)"
  by (cases r) (auto simp: no_overflow_def)

lemma no_overflow_if: "no_overflow a \<Longrightarrow> no_overflow b \<Longrightarrow> no_overflow (if c then a else b)"
  by simp

lemma no_overflow_split: "(\<And>a b. no_overflow (f a b)) \<Longrightarrow> no_overflow (case x of (a, b) \<Rightarrow> f a b)"
  by (cases x) simp

lemma no_overflow_option: "no_overflow a \<Longrightarrow> (\<And>x. no_overflow (f x)) \<Longrightarrow> no_overflow (case v of None \<Rightarrow> a | Some x \<Rightarrow> f x)"
  by (cases v) simp_all

lemma no_overflow_base:
  "no_overflow (Inr x)" "no_overflow (Inl (PayloadError e1))" "no_overflow (Inl (RecordError e2))"
  "no_overflow (Inl (RecordError2 e3))" "no_overflow (Inl (ReplayError MisplacedInitialization))"
  "no_overflow (Inl (ReplayError NoInitialization))"
  "no_overflow (slice_take n inp)" "no_overflow (slice_finish inp)" "no_overflow (validate_snapshot s cm ep)"
  "no_overflow (validate_phase ph)" "no_overflow (ok_or (RecordError2 e3) v)" "no_overflow (require_active st)"
  by (simp_all add: no_overflow_def slice_take_def slice_finish_def validate_snapshot_def validate_phase_def
      ok_or_def require_active_def split: option.split)

lemmas no_overflow_rules = no_overflow_bind no_overflow_if no_overflow_split no_overflow_option no_overflow_base

lemma no_overflow_slices:
  "no_overflow (slice_u8 inp)" "no_overflow (slice_u32 inp)" "no_overflow (slice_u64 inp)"
  "no_overflow (slice_digest inp)" "no_overflow (decode_snapshot inp)" "no_overflow (check_lock st c rnd d)"
  unfolding slice_u8_def slice_u32_def slice_u64_def slice_digest_def decode_snapshot_def check_lock_def
  by (intro no_overflow_rules)+

lemma replay_record_no_overflow:
  "no_overflow (replay_activate st p cm ep)" "no_overflow (replay_vote st p)"
  "no_overflow (replay_apply st p cm ep)" "no_overflow (replay_retire st p cm ep)"
  unfolding replay_activate_def replay_vote_def replay_apply_def replay_retire_def
  by (intro no_overflow_rules no_overflow_slices)+

lemma no_overflow_map: "no_overflow r \<Longrightarrow> no_overflow (map_ok f r)"
  by (cases r) (auto simp: no_overflow_def)

lemma replay_step_no_overflow: "no_overflow (replay_step cm ep s k p st)"
  unfolding replay_step_def replay_record_def decode_snapshot_exact_def
  by (intro no_overflow_rules no_overflow_slices replay_record_no_overflow no_overflow_map)

lemma parse_no_overflow: "no_overflow (parse_record C bs sequence)"
  by (simp add: parse_record_def Let_def no_overflow_def)

lemma replay_loop_overflow:
  assumes "replay_loop C cm ep bs sequence st = Inl (ReplayError SequenceOverflow)"
  shows "replay_loop C cm ep (bs @ extra) sequence st = Inl (ReplayError SequenceOverflow)"
  using assms
proof (induction C cm ep bs sequence st rule: replay_loop.induct)
  case (1 C cm ep bs sequence st)
  have ne: "bs \<noteq> []"
    using "1.prems" by auto
  then obtain kind payload rest st1 where
    step: "parse_record C bs sequence = Inr (kind, payload, rest)"
      "replay_step cm ep sequence kind payload st = Inr st1"
      "checked_add64 sequence 1 = None \<or> (\<exists>next_sequence. checked_add64 sequence 1 = Some next_sequence \<and>
        replay_loop C cm ep rest next_sequence st1 = Inl (ReplayError SequenceOverflow))"
    using "1.prems" parse_no_overflow [of C bs sequence] replay_step_no_overflow [of cm ep sequence]
    by (subst (asm) replay_loop.simps) (auto simp: bindE_Inl_iff no_overflow_def ok_or_def split: option.splits)
  from step(3) show ?case
  proof
    assume "checked_add64 sequence 1 = None"
    then show ?thesis
      using ne step parse_record_append [OF step(1), of extra] by (subst replay_loop.simps) simp
  next
    assume "\<exists>next_sequence. checked_add64 sequence 1 = Some next_sequence \<and>
        replay_loop C cm ep rest next_sequence st1 = Inl (ReplayError SequenceOverflow)"
    then obtain next_sequence where nx: "checked_add64 sequence 1 = Some next_sequence"
      "replay_loop C cm ep rest next_sequence st1 = Inl (ReplayError SequenceOverflow)"
      by blast
    have "replay_loop C cm ep (rest @ extra) next_sequence st1 = Inl (ReplayError SequenceOverflow)"
      using "1.IH" [OF ne, of "(kind, payload, rest)" st1 next_sequence] step nx by simp
    then show ?thesis
      using ne step nx parse_record_append [OF step(1), of extra] by (subst replay_loop.simps) simp
  qed
qed

end
