(* ===== verification/StoreSafety.thy ===== *)
theory StoreSafety
  imports Store
begin

text \<open>
  What the write-ahead log guarantees: the state in memory is the replay of the file, a torn
  record is recognised, and no decision is forgotten or contradicted over any sequence of
  operations, failed writes and restarts.
\<close>

section \<open>Replaying one more record\<close>

text \<open>The sequence number of the state plays no part in a record.\<close>

lemma insert_vote_simps [simp]:
  "rs_votes (insert_vote c r p d st) = fmupd \<lparr>vk_conflict_key = c, vk_round = r, vk_phase = p\<rparr> d (rs_votes st)"
  "rs_locks (insert_vote c r p d st) =
    (if p = PHASE_PRECOMMIT then fmupd c \<lparr>pl_round = r, pl_digest = d\<rparr> (rs_locks st) else rs_locks st)"
  "rs_lifecycle (insert_vote c r p d st) = rs_lifecycle st"
  "rs_initial_snapshot (insert_vote c r p d st) = rs_initial_snapshot st"
  "rs_current_snapshot (insert_vote c r p d st) = rs_current_snapshot st"
  "rs_activation (insert_vote c r p d st) = rs_activation st"
  "rs_retirement (insert_vote c r p d st) = rs_retirement st"
  "rs_applied (insert_vote c r p d st) = rs_applied st"
  "rs_next_sequence (insert_vote c r p d st) = rs_next_sequence st"
  by (simp_all add: insert_vote_def Let_def)

lemma insert_vote_sequence:
  "insert_vote c r p d (st\<lparr>rs_next_sequence := n\<rparr>) = (insert_vote c r p d st)\<lparr>rs_next_sequence := n\<rparr>"
  by (simp add: insert_vote_def Let_def)

lemma check_lock_sequence [simp]: "check_lock (st\<lparr>rs_next_sequence := n\<rparr>) c r d = check_lock st c r d"
  by (simp add: check_lock_def)

lemma require_active_sequence [simp]: "require_active (st\<lparr>rs_next_sequence := n\<rparr>) = require_active st"
  by (simp add: require_active_def)

definition seq_free :: "(replay_state \<Rightarrow> store_error + replay_state) \<Rightarrow> bool" where
  "seq_free f \<longleftrightarrow> (\<forall>st n. f (st\<lparr>rs_next_sequence := n\<rparr>) = map_ok (\<lambda>s. s\<lparr>rs_next_sequence := n\<rparr>) (f st))"

lemma map_ok_bindE: "map_ok h (bindE r f) = bindE r (\<lambda>x. map_ok h (f x))"
  by (cases r) simp_all

lemma map_ok_if: "map_ok h (if c then a else b) = (if c then map_ok h a else map_ok h b)"
  by simp

lemma map_ok_split: "map_ok h (case x of (a, b) \<Rightarrow> f a b) = (case x of (a, b) \<Rightarrow> map_ok h (f a b))"
  by (cases x) simp

lemma map_ok_option: "map_ok h (case v of None \<Rightarrow> a | Some x \<Rightarrow> f x) = (case v of None \<Rightarrow> map_ok h a | Some x \<Rightarrow> map_ok h (f x))"
  by (cases v) simp_all

lemmas map_ok_push = map_ok_bindE map_ok_if map_ok_split map_ok_option

lemma sequence_update_last:
  "rs_lifecycle_update f0 (rs_next_sequence_update g st) = rs_next_sequence_update g (rs_lifecycle_update f0 st)"
  "rs_current_snapshot_update f1 (rs_next_sequence_update g st) = rs_next_sequence_update g (rs_current_snapshot_update f1 st)"
  "rs_activation_update f2 (rs_next_sequence_update g st) = rs_next_sequence_update g (rs_activation_update f2 st)"
  "rs_retirement_update f3 (rs_next_sequence_update g st) = rs_next_sequence_update g (rs_retirement_update f3 st)"
  "rs_votes_update f4 (rs_next_sequence_update g st) = rs_next_sequence_update g (rs_votes_update f4 st)"
  "rs_locks_update f5 (rs_next_sequence_update g st) = rs_next_sequence_update g (rs_locks_update f5 st)"
  "rs_applied_update f6 (rs_next_sequence_update g st) = rs_next_sequence_update g (rs_applied_update f6 st)"
  by (cases st; simp)+

lemma sequence_update_parts:
  "replay_activate (st\<lparr>rs_next_sequence := n\<rparr>) payload cm ep =
    map_ok (\<lambda>s. s\<lparr>rs_next_sequence := n\<rparr>) (replay_activate st payload cm ep)"
  "replay_vote (st\<lparr>rs_next_sequence := n\<rparr>) payload = map_ok (\<lambda>s. s\<lparr>rs_next_sequence := n\<rparr>) (replay_vote st payload)"
  "replay_apply (st\<lparr>rs_next_sequence := n\<rparr>) payload cm ep =
    map_ok (\<lambda>s. s\<lparr>rs_next_sequence := n\<rparr>) (replay_apply st payload cm ep)"
  "replay_retire (st\<lparr>rs_next_sequence := n\<rparr>) payload cm ep =
    map_ok (\<lambda>s. s\<lparr>rs_next_sequence := n\<rparr>) (replay_retire st payload cm ep)"
  by (simp_all add: replay_activate_def replay_vote_def replay_apply_def replay_retire_def map_ok_push
      insert_vote_sequence sequence_update_last split del: if_split cong: if_cong option.case_cong prod.case_cong)

lemma seq_free_record: "seq_free (\<lambda>st. replay_record st kind payload cm ep)"
  unfolding seq_free_def replay_record_def by (simp add: sequence_update_parts map_ok_if split del: if_split cong: if_cong)

lemma record_bytes_nonempty [simp]: "record_bytes C sequence kind payload \<noteq> []"
proof
  assume "record_bytes C sequence kind payload = []"
  then show False
    using length_record [of C sequence kind payload] by (simp add: HEADER_LEN_def)
qed

lemma replay_wal_append:
  assumes "replay_wal C f cm ep = Inr st" and "length payload \<le> MAX_PAYLOAD_BYTES" and "kind \<noteq> KIND_INITIALIZE"
    and "replay_record st kind payload cm ep = Inr st'"
  shows "replay_wal C (f @ record_bytes C (rs_next_sequence st) kind payload) cm ep =
    (case checked_add64 (rs_next_sequence st) 1 of
       None \<Rightarrow> Inl (ReplayError SequenceOverflow)
     | Some n \<Rightarrow> Inr (st'\<lparr>rs_next_sequence := n\<rparr>))"
proof -
  obtain sequence st0 where loop: "replay_loop C cm ep f 0 None = Inr (sequence, Some st0)"
    and st: "st = st0\<lparr>rs_next_sequence := sequence\<rparr>"
    using assms(1) by (auto simp: replay_wal_def split: option.splits)
  have seq: "rs_next_sequence st = sequence"
    by (simp add: st)
  obtain st0' where step: "replay_record st0 kind payload cm ep = Inr st0'" and st': "st' = st0'\<lparr>rs_next_sequence := sequence\<rparr>"
    using assms(4) seq_free_record [of kind payload cm ep] unfolding st seq_free_def by auto
  have "replay_loop C cm ep (record_bytes C sequence kind payload) sequence (Some st0) =
      (case checked_add64 sequence 1 of
         None \<Rightarrow> Inl (ReplayError SequenceOverflow) | Some n \<Rightarrow> Inr (n, Some st0'))"
  proof -
    show ?thesis
      using parse_record_bytes [OF assms(2), of C sequence kind "[]"] assms(3) step
      by (subst replay_loop.simps) (auto simp: replay_step_def split: option.split)
  qed
  then show ?thesis
    unfolding seq replay_wal_def replay_loop_append [OF loop] by (simp add: st' split: option.split)
qed

lemma replay_wal_torn:
  assumes "replay_wal C f cm ep = Inr st" and "length payload \<le> MAX_PAYLOAD_BYTES"
    and "0 < n" and "n < length (record_bytes C (rs_next_sequence st) kind payload)"
  shows "replay_wal C (f @ take n (record_bytes C (rs_next_sequence st) kind payload)) cm ep = Inl (ReplayError Incomplete)"
proof -
  obtain sequence st0 where loop: "replay_loop C cm ep f 0 None = Inr (sequence, Some st0)"
    and st: "st = st0\<lparr>rs_next_sequence := sequence\<rparr>"
    using assms(1) by (auto simp: replay_wal_def split: option.splits)
  have seq: "rs_next_sequence st = sequence"
    by (simp add: st)
  have "take n (record_bytes C sequence kind payload) \<noteq> []"
    using assms(3) by simp
  then show ?thesis
    using parse_torn_record [OF assms(2), of n C sequence kind] assms(4)
    unfolding seq replay_wal_def replay_loop_append [OF loop] by (subst replay_loop.simps) simp
qed

lemma replay_wal_overflow:
  "replay_wal C f cm ep = Inl (ReplayError SequenceOverflow) \<Longrightarrow>
    replay_wal C (f @ extra) cm ep = Inl (ReplayError SequenceOverflow)"
  using replay_loop_overflow [of C cm ep f 0 None extra]
  by (auto simp: replay_wal_def bindE_Inl_iff split: option.splits)

section \<open>What every record preserves\<close>

text \<open>\<open>st'\<close> has kept every decision of \<open>st\<close>.\<close>

definition extends :: "replay_state \<Rightarrow> replay_state \<Rightarrow> bool" where
  "extends st st' \<longleftrightarrow>
    rs_initial_snapshot st' = rs_initial_snapshot st \<and>
    (\<forall>k d. fmlookup (rs_votes st) k = Some d \<longrightarrow> fmlookup (rs_votes st') k = Some d) \<and>
    (\<forall>c l. fmlookup (rs_locks st) c = Some l \<longrightarrow>
      (\<exists>l'. fmlookup (rs_locks st') c = Some l' \<and> pl_digest l' = pl_digest l \<and> pl_round l \<le> pl_round l')) \<and>
    (\<forall>t a. fmlookup (rs_applied st) t = Some a \<longrightarrow> fmlookup (rs_applied st') t = Some a) \<and>
    (rs_lifecycle st = Active \<longrightarrow> rs_lifecycle st' \<noteq> Initialized \<and> rs_activation st' = rs_activation st) \<and>
    (rs_lifecycle st = Retired \<longrightarrow> rs_lifecycle st' = Retired \<and> rs_activation st' = rs_activation st \<and>
      rs_retirement st' = rs_retirement st \<and> rs_current_snapshot st' = rs_current_snapshot st)"

definition replay_ok :: "replay_state \<Rightarrow> bool" where
  "replay_ok st \<longleftrightarrow>
    (rs_activation st = None \<longleftrightarrow> rs_lifecycle st = Initialized) \<and>
    (rs_retirement st \<noteq> None \<longleftrightarrow> rs_lifecycle st = Retired) \<and>
    (\<forall>c l. fmlookup (rs_locks st) c = Some l \<longrightarrow>
      fmlookup (rs_votes st) \<lparr>vk_conflict_key = c, vk_round = pl_round l, vk_phase = PHASE_PRECOMMIT\<rparr> = Some (pl_digest l)) \<and>
    (\<forall>c r d. fmlookup (rs_votes st) \<lparr>vk_conflict_key = c, vk_round = r, vk_phase = PHASE_PRECOMMIT\<rparr> = Some d \<longrightarrow>
      (\<exists>l. fmlookup (rs_locks st) c = Some l \<and> pl_digest l = d \<and> r \<le> pl_round l)) \<and>
    (\<forall>t a. fmlookup (rs_applied st) t = Some a \<longrightarrow> ap_tx_digest a = t)"

lemma extends_refl [simp, intro]: "extends st st"
  by (simp add: extends_def)

lemma extends_trans:
  assumes "extends a b" and "extends b c"
  shows "extends a c"
proof -
  have "\<exists>l''. fmlookup (rs_locks c) k = Some l'' \<and> pl_digest l'' = pl_digest l \<and> pl_round l \<le> pl_round l''"
    if l: "fmlookup (rs_locks a) k = Some l" for k l
  proof -
    obtain l' where "fmlookup (rs_locks b) k = Some l'" "pl_digest l' = pl_digest l" "pl_round l \<le> pl_round l'"
      using l assms(1) unfolding extends_def by blast
    moreover obtain l'' where "fmlookup (rs_locks c) k = Some l''" "pl_digest l'' = pl_digest l'" "pl_round l' \<le> pl_round l''"
      using \<open>fmlookup (rs_locks b) k = Some l'\<close> assms(2) unfolding extends_def by blast
    ultimately show ?thesis
      by (auto intro: order_trans)
  qed
  moreover have "rs_lifecycle a = Active \<Longrightarrow> rs_lifecycle c \<noteq> Initialized \<and> rs_activation c = rs_activation a"
    using assms unfolding extends_def by (cases "rs_lifecycle b") simp_all
  ultimately show ?thesis
    using assms by (simp add: extends_def)
qed

lemma extends_sequence [simp]:
  "extends st (st'\<lparr>rs_next_sequence := n\<rparr>) = extends st st'"
  "extends (st\<lparr>rs_next_sequence := n\<rparr>) st' = extends st st'"
  by (simp_all add: extends_def)

lemma replay_ok_sequence [simp]: "replay_ok (st\<lparr>rs_next_sequence := n\<rparr>) = replay_ok st"
  by (simp add: replay_ok_def)

lemma initial_replay_ok: "replay_ok (initial_replay s)"
  by (simp add: replay_ok_def initial_replay_def)

lemma check_lock_Inr_iff:
  "check_lock st c r d = Inr u \<longleftrightarrow> (\<forall>l. fmlookup (rs_locks st) c = Some l \<longrightarrow> pl_round l \<le> r \<and> d = pl_digest l)"
  by (auto simp: check_lock_def not_less split: option.splits if_splits)

lemma insert_vote_keeps:
  assumes "check_lock st c r d = Inr ()"
    and "fmlookup (rs_votes st) \<lparr>vk_conflict_key = c, vk_round = r, vk_phase = p\<rparr> = None"
  shows "extends st (insert_vote c r p d st)" and "replay_ok st \<Longrightarrow> replay_ok (insert_vote c r p d st)"
proof -
  note lock = assms(1) [unfolded check_lock_Inr_iff]
  show "extends st (insert_vote c r p d st)"
    using lock assms(2) by (auto simp: extends_def)
  assume ok: "replay_ok st"
  then have "\<forall>c' l. fmlookup (rs_locks (insert_vote c r p d st)) c' = Some l \<longrightarrow>
      fmlookup (rs_votes (insert_vote c r p d st))
        \<lparr>vk_conflict_key = c', vk_round = pl_round l, vk_phase = PHASE_PRECOMMIT\<rparr> = Some (pl_digest l)"
    using assms(2) by (auto simp: replay_ok_def split: if_splits)
  moreover have "\<exists>l. fmlookup (rs_locks (insert_vote c r p d st)) c' = Some l \<and> pl_digest l = d' \<and> r' \<le> pl_round l"
    if "fmlookup (rs_votes (insert_vote c r p d st)) \<lparr>vk_conflict_key = c', vk_round = r', vk_phase = PHASE_PRECOMMIT\<rparr> = Some d'"
    for c' r' d'
  proof (cases "c' = c \<and> r' = r \<and> p = PHASE_PRECOMMIT")
    case True
    with that show ?thesis by simp
  next
    case False
    then have "fmlookup (rs_votes st) \<lparr>vk_conflict_key = c', vk_round = r', vk_phase = PHASE_PRECOMMIT\<rparr> = Some d'"
      using that by (auto split: if_splits)
    then obtain l where "fmlookup (rs_locks st) c' = Some l" "pl_digest l = d'" "r' \<le> pl_round l"
      using ok unfolding replay_ok_def by blast
    then show ?thesis
      using lock by (cases "c' = c") auto
  qed
  ultimately show "replay_ok (insert_vote c r p d st)"
    using ok by (simp add: replay_ok_def)
qed

lemma replay_record_keeps:
  assumes "replay_record st kind payload cm ep = Inr st'"
  shows "extends st st'" and "replay_ok st \<Longrightarrow> replay_ok st'"
proof -
  have "extends st st' \<and> (replay_ok st \<longrightarrow> replay_ok st')"
  proof -
    from assms consider (activate) "replay_activate st payload cm ep = Inr st'"
      | (vote) "replay_vote st payload = Inr st'"
      | (app) "replay_apply st payload cm ep = Inr st'"
      | (retire) "replay_retire st payload cm ep = Inr st'"
      by (auto simp: replay_record_def split: if_splits)
    then show ?thesis
    proof cases
      case activate
      then show ?thesis
        by (auto simp: replay_activate_def extends_def replay_ok_def split: if_splits)
    next
      case vote
      then obtain c r p d where "(case fmlookup (rs_votes st) \<lparr>vk_conflict_key = c, vk_round = r, vk_phase = p\<rparr> of
          Some old \<Rightarrow> if old \<noteq> d then Inl (RecordError ConflictingVote) else Inl (RecordError DuplicateVote)
        | None \<Rightarrow> bindE (check_lock st c r d) (\<lambda>_. Inr (insert_vote c r p d st))) = Inr st'"
        unfolding replay_vote_def by (auto simp del: if_split)
      then have "fmlookup (rs_votes st) \<lparr>vk_conflict_key = c, vk_round = r, vk_phase = p\<rparr> = None"
        "check_lock st c r d = Inr ()" "st' = insert_vote c r p d st"
        by (cases "fmlookup (rs_votes st) \<lparr>vk_conflict_key = c, vk_round = r, vk_phase = p\<rparr>"; auto split: if_splits)+
      then show ?thesis
        using insert_vote_keeps by blast
    next
      case app
      then have "rs_lifecycle st = Active"
        by (auto simp: replay_apply_def require_active_def split: if_splits)
      with app show ?thesis
        by (auto simp: replay_apply_def extends_def replay_ok_def dest: fmdomI split: if_splits)
    next
      case retire
      then have "rs_lifecycle st = Active"
        by (auto simp: replay_retire_def require_active_def split: if_splits)
      with retire show ?thesis
        by (auto simp: replay_retire_def extends_def replay_ok_def split: if_splits)
    qed
  qed
  then show "extends st st'" and "replay_ok st \<Longrightarrow> replay_ok st'"
    by simp_all
qed

lemma replay_loop_ok:
  assumes "replay_loop C cm ep bs sequence st = Inr (sequence', st')" and "\<forall>r. st = Some r \<longrightarrow> replay_ok r"
  shows "\<forall>r. st' = Some r \<longrightarrow> replay_ok r"
  using assms
proof (induction C cm ep bs sequence st rule: replay_loop.induct)
  case (1 C cm ep bs sequence st)
  show ?case
  proof (cases "bs = []")
    case True
    with 1 show ?thesis by simp
  next
    case False
    with "1.prems" obtain kind payload rest st1 n where
      step: "parse_record C bs sequence = Inr (kind, payload, rest)"
        "replay_step cm ep sequence kind payload st = Inr st1"
        "checked_add64 sequence 1 = Some n"
        "replay_loop C cm ep rest n st1 = Inr (sequence', st')"
      by (subst (asm) replay_loop.simps) auto
    have "\<forall>r. st1 = Some r \<longrightarrow> replay_ok r"
      using step(2) "1.prems"(2) replay_record_keeps(2)
      by (auto simp: replay_step_def initial_replay_ok split: if_splits option.splits)
    then show ?thesis
      using "1.IH" [OF False, of "(kind, payload, rest)" st1 n] step by simp
  qed
qed

lemma replay_wal_ok: "replay_wal C f cm ep = Inr st \<Longrightarrow> replay_ok st"
  using replay_loop_ok [of C cm ep f 0 None] by (auto simp: replay_wal_def split: option.splits)

section \<open>What an operation of the store does\<close>

text \<open>
  Each operation either leaves the store alone or appends one record that the replay of the
  log accepts, with the same effect as the update in memory.
\<close>

definition legal_append :: "wal_store \<Rightarrow> u8 \<Rightarrow> u8 list \<Rightarrow> (replay_state \<Rightarrow> replay_state) \<Rightarrow> bool" where
  "legal_append w kind payload update \<longleftrightarrow>
    \<not> ws_poisoned w \<and> kind \<noteq> KIND_INITIALIZE \<and> length payload \<le> MAX_PAYLOAD_BYTES \<and>
    replay_record (ws_state w) kind payload (ws_committee_hash w) (ws_epoch w) = Inr (update (ws_state w)) \<and>
    (\<forall>st n. update (st\<lparr>rs_next_sequence := n\<rparr>) = (update st)\<lparr>rs_next_sequence := n\<rparr>)"

lemma validate_snapshot_Inr_iff: "validate_snapshot s cm ep = Inr u \<longleftrightarrow>
    sn_committee_hash s = cm \<and> sn_epoch s = ep \<and> length (sn_bytes s) \<le> MAX_SNAPSHOT_BYTES"
  by (auto simp: validate_snapshot_def)

lemma ensure_active_Inr_iff: "ensure_active w = Inr u \<longleftrightarrow> \<not> ws_poisoned w \<and> rs_lifecycle (ws_state w) = Active"
  by (auto simp: ensure_active_def ensure_healthy_def ws_lifecycle_def split: lifecycle.splits)

lemma activate_legal:
  assumes "replay_ok (ws_state w)"
  obtains "snd (activate_store C io handoff s w) = w"
  | bs update where "activate_store C io handoff s w = append_then C io KIND_ACTIVATE (array_bytes handoff @ bs) update w"
      "legal_append w KIND_ACTIVATE (array_bytes handoff @ bs) update"
proof (cases "\<exists>e. activate_store C io handoff s w = (e, w)")
  case True
  then show thesis using that(1) by auto
next
  case False
  let ?u = "\<lambda>st. st\<lparr>rs_lifecycle := Active, rs_current_snapshot := s,
                    rs_activation := Some \<lparr>ac_handoff_hash = handoff, ac_snapshot = s\<rparr>\<rparr>"
  from False obtain bs where *: "\<not> ws_poisoned w" "validate_snapshot s (ws_committee_hash w) (ws_epoch w) = Inr ()"
    "rs_lifecycle (ws_state w) = Initialized" "s = rs_current_snapshot (ws_state w)" "encode_snapshot s = Inr bs"
    "activate_store C io handoff s w = append_then C io KIND_ACTIVATE (array_bytes handoff @ bs) ?u w"
    by (auto simp: activate_store_def ensure_healthy_def ws_lifecycle_def current_snapshot_def
        split: sum.splits if_splits lifecycle.splits option.splits)
  have "rs_activation (ws_state w) = None"
    using * assms by (simp add: replay_ok_def)
  then have "legal_append w KIND_ACTIVATE (array_bytes handoff @ bs) ?u"
    using * encode_snapshot_length [of s bs]
    by (auto simp: legal_append_def wal_kinds wal_consts replay_record_def replay_activate_def)
  then show thesis
    using that(2) *(6) by blast
qed

lemma vote_legal:
  obtains "snd (persist_vote C io c r p d w) = w"
  | "persist_vote C io c r p d w = append_then C io KIND_VOTE (vote_payload c r p d) (insert_vote c r p d) w"
      "legal_append w KIND_VOTE (vote_payload c r p d) (insert_vote c r p d)"
proof (cases "\<exists>e. persist_vote C io c r p d w = (e, w)")
  case True
  then show thesis using that(1) by auto
next
  case False
  then have *: "\<not> ws_poisoned w" "rs_lifecycle (ws_state w) = Active" "validate_phase p = Inr ()"
    "fmlookup (rs_votes (ws_state w)) \<lparr>vk_conflict_key = c, vk_round = r, vk_phase = p\<rparr> = None"
    "check_lock (ws_state w) c r d = Inr ()"
    "persist_vote C io c r p d w = append_then C io KIND_VOTE (vote_payload c r p d) (insert_vote c r p d) w"
    by (auto simp: persist_vote_def ensure_active_def ensure_healthy_def ws_lifecycle_def vote_digest_def
        split: sum.splits if_splits option.splits lifecycle.splits)
  have "legal_append w KIND_VOTE (vote_payload c r p d) (insert_vote c r p d)"
    using * by (auto simp: legal_append_def wal_kinds wal_consts replay_record_def replay_vote_def
        vote_payload_def require_active_def insert_vote_sequence)
  then show thesis
    using that(2) *(6) by blast
qed

lemma apply_legal:
  obtains "snd (apply_verified C io t cd s w) = w"
  | payload update where "apply_verified C io t cd s w = append_then C io KIND_APPLY payload update w"
      "legal_append w KIND_APPLY payload update" "rs_current_snapshot (update (ws_state w)) = s"
proof (cases "\<exists>e. apply_verified C io t cd s w = (e, w)")
  case True
  then show thesis using that(1) by auto
next
  case False
  let ?root = "sn_state_root (current_snapshot w)"
  let ?u = "\<lambda>st. st\<lparr>rs_applied := fmupd t \<lparr>ap_tx_digest = t, ap_certificate_digest = cd,
      ap_prior_state_root = ?root, ap_next_snapshot = s\<rparr> (rs_applied st), rs_current_snapshot := s\<rparr>"
  from False obtain bs where *: "\<not> ws_poisoned w" "validate_snapshot s (ws_committee_hash w) (ws_epoch w) = Inr ()"
    "\<not> is_zero t" "\<not> is_zero cd" "fmlookup (rs_applied (ws_state w)) t = None"
    "rs_lifecycle (ws_state w) = Active" "sn_state_root s \<noteq> ?root" "encode_snapshot s = Inr bs"
    "apply_verified C io t cd s w = append_then C io KIND_APPLY (apply_payload t cd ?root bs) ?u w"
    by (auto simp: apply_verified_def ensure_healthy_def ws_lifecycle_def applied_record_of_def Let_def
        split: sum.splits if_splits option.splits)
  have "legal_append w KIND_APPLY (apply_payload t cd ?root bs) ?u"
    using * encode_snapshot_length [of s bs]
    by (auto simp: legal_append_def wal_kinds wal_consts replay_record_def replay_apply_def
        apply_payload_def require_active_def current_snapshot_def elim!: fmdomE)
  then show thesis
    using that(2) [OF *(9)] by simp
qed

lemma retire_legal:
  obtains "snd (retire_store C io h nc ne root w) = w"
  | payload update where "retire_store C io h nc ne root w = append_then C io KIND_RETIRE payload update w"
      "legal_append w KIND_RETIRE payload update"
proof (cases "\<exists>e. retire_store C io h nc ne root w = (e, w)")
  case True
  then show thesis using that(1) by auto
next
  case False
  let ?u = "\<lambda>st. st\<lparr>rs_lifecycle := Retired, rs_retirement := Some \<lparr>rt_handoff_hash = h, rt_next_committee = nc,
      rt_next_epoch = ne, rt_snapshot = rs_current_snapshot st\<rparr>\<rparr>"
  from False obtain bs where *: "\<not> ws_poisoned w" "check_retirement w h nc ne root = Inr ()"
    "encode_snapshot (rs_current_snapshot (ws_state w)) = Inr bs"
    "retire_store C io h nc ne root w = append_then C io KIND_RETIRE (retire_payload h nc ne bs) ?u w"
    by (auto simp: retire_store_def ensure_healthy_def current_snapshot_def split: sum.splits if_splits option.splits)
  then have "legal_append w KIND_RETIRE (retire_payload h nc ne bs) ?u"
    using encode_snapshot_length [of "rs_current_snapshot (ws_state w)" bs]
    by (auto simp: legal_append_def wal_kinds wal_consts replay_record_def replay_retire_def
        retire_payload_def require_active_def check_retirement_def ws_lifecycle_def split: if_splits)
  then show thesis
    using that(2) *(4) by blast
qed

section \<open>The invariant of the store\<close>

text \<open>
  A healthy store is what a replay of its file gives (or the file has used up its sequence
  numbers and cannot be replayed at all); a poisoned store has forgotten nothing that a replay
  of its file could still remember.
\<close>

definition replayed :: "crypto \<Rightarrow> wal_store \<Rightarrow> store_error + replay_state" where
  "replayed C w = replay_wal C (ws_file w) (ws_committee_hash w) (ws_epoch w)"

definition store_inv :: "crypto \<Rightarrow> wal_store \<Rightarrow> bool" where
  "store_inv C w \<longleftrightarrow> replay_ok (ws_state w) \<and> ws_file w \<noteq> [] \<and>
    (if ws_poisoned w then \<forall>st. replayed C w = Inr st \<longrightarrow> extends (ws_state w) st
     else replayed C w = Inr (ws_state w) \<or>
       replayed C w = Inl (ReplayError SequenceOverflow) \<and> checked_add64 (rs_next_sequence (ws_state w)) 1 = None)"

text \<open>All outcomes of appending a legal record.\<close>

lemma append_then_cases:
  assumes "append_then C io kind payload update w = (res, w')" and "length payload \<le> MAX_PAYLOAD_BYTES"
  obtains (failed) n where "io = Some n" "res = Inl AppendFailed"
      "w' = w\<lparr>ws_file := ws_file w @ take n (record_bytes C (rs_next_sequence (ws_state w)) kind payload), ws_poisoned := True\<rparr>"
  | (exhausted) "io = None" "checked_add64 (rs_next_sequence (ws_state w)) 1 = None" "res = Inl (OperationError SequenceExhausted)"
      "w' = w\<lparr>ws_file := ws_file w @ record_bytes C (rs_next_sequence (ws_state w)) kind payload\<rparr>"
  | (written) n where "io = None" "checked_add64 (rs_next_sequence (ws_state w)) 1 = Some n" "res = Inr Persisted"
      "w' = w\<lparr>ws_file := ws_file w @ record_bytes C (rs_next_sequence (ws_state w)) kind payload,
              ws_state := update ((ws_state w)\<lparr>rs_next_sequence := n\<rparr>)\<rparr>"
  using assms
  by (auto simp: append_then_def wal_append_def append_record_def Let_def split: option.splits)

lemma append_then_inv:
  assumes inv: "store_inv C w" and legal: "legal_append w kind payload update"
    and app: "append_then C io kind payload update w = (res, w')"
  shows "store_inv C w'" and "extends (ws_state w) (ws_state w')"
proof -
  let ?st = "ws_state w" and ?cm = "ws_committee_hash w" and ?ep = "ws_epoch w"
  let ?rec = "record_bytes C (rs_next_sequence (ws_state w)) kind payload"
  have l: "kind \<noteq> KIND_INITIALIZE" "length payload \<le> MAX_PAYLOAD_BYTES" "\<not> ws_poisoned w"
    "replay_record ?st kind payload ?cm ?ep = Inr (update ?st)"
    "update (?st\<lparr>rs_next_sequence := n\<rparr>) = (update ?st)\<lparr>rs_next_sequence := n\<rparr>" for n
    using legal by (simp_all add: legal_append_def)
  have ok: "replay_ok ?st" "ws_file w \<noteq> []"
    using inv by (simp_all add: store_inv_def)
  have now: "replay_wal C (ws_file w) ?cm ?ep = Inr ?st \<or>
      replay_wal C (ws_file w) ?cm ?ep = Inl (ReplayError SequenceOverflow) \<and> checked_add64 (rs_next_sequence ?st) 1 = None"
    using inv l(3) by (simp add: store_inv_def replayed_def)
  note keeps = replay_record_keeps [OF l(4)]
  note full = replay_wal_append [OF _ l(2,1,4), where C = C and f = "ws_file w"]
  have "store_inv C w' \<and> extends ?st (ws_state w')"
    using app l(2)
  proof (cases rule: append_then_cases)
    case (failed n)
    have "extends ?st st" if st: "replay_wal C (ws_file w @ take n ?rec) ?cm ?ep = Inr st" for st
    proof -
      have "replay_wal C (ws_file w) ?cm ?ep = Inr ?st"
        using now replay_wal_overflow [of C "ws_file w" ?cm ?ep "take n ?rec"] st by auto
      then show ?thesis
        using st keeps(1) full replay_wal_torn [OF _ l(2), of C "ws_file w" ?cm ?ep ?st n kind]
        by (cases "n = 0"; cases "n < length ?rec") (auto split: option.splits)
    qed
    with failed ok show ?thesis
      by (auto simp: store_inv_def replayed_def)
  next
    case exhausted
    then show ?thesis
      using ok now full replay_wal_overflow [of C "ws_file w" ?cm ?ep ?rec] l(3)
      by (auto simp: store_inv_def replayed_def)
  next
    case (written n)
    then show ?thesis
      using ok now full replay_wal_overflow [of C "ws_file w" ?cm ?ep ?rec] l keeps
      by (auto simp: store_inv_def replayed_def)
  qed
  then show "store_inv C w'" and "extends (ws_state w) (ws_state w')"
    by simp_all
qed

section \<open>Runs of the store\<close>

text \<open>Operations with any outcome of the file writes, and restarts from the file.\<close>

inductive store_step :: "crypto \<Rightarrow> wal_store \<Rightarrow> wal_store \<Rightarrow> bool" for C :: crypto where
  activate: "activate_store C io handoff s w = (res, w') \<Longrightarrow> store_step C w w'"
| vote: "persist_vote C io c r p d w = (res, w') \<Longrightarrow> store_step C w w'"
| applied: "apply_verified C io t cd s w = (res, w') \<Longrightarrow> store_step C w w'"
| retire: "retire_store C io h nc ne root w = (res, w') \<Longrightarrow> store_step C w w'"
| restart: "open_store C io (ws_file w) (ws_committee_hash w) (ws_epoch w) genesis = (Inr w', file') \<Longrightarrow>
    store_step C w w'"

inductive_cases store_stepE: "store_step C w w'"

abbreviation store_run :: "crypto \<Rightarrow> wal_store \<Rightarrow> wal_store \<Rightarrow> bool" where
  "store_run C \<equiv> (store_step C)\<^sup>*\<^sup>*"

lemma open_existing:
  assumes "open_store C io file cm ep genesis = (Inr w, file')" and "file \<noteq> []"
  shows "w = \<lparr>ws_file = file, ws_committee_hash = cm, ws_epoch = ep, ws_state = ws_state w, ws_poisoned = False\<rparr>"
    and "replay_wal C file cm ep = Inr (ws_state w)"
  using assms by (auto simp: open_store_def)

lemma open_inv:
  assumes "open_store C io file cm ep genesis = (Inr w, file')"
  shows "store_inv C w"
proof (cases "file = []")
  case False
  then show ?thesis
    using open_existing [OF assms False] replay_wal_ok by (cases w) (auto simp: store_inv_def replayed_def)
next
  case True
  then obtain s bs where s: "validate_snapshot s cm ep = Inr ()" "encode_snapshot s = Inr bs"
    and w: "w = \<lparr>ws_file = record_bytes C 0 KIND_INITIALIZE bs, ws_committee_hash = cm, ws_epoch = ep,
                ws_state = initial_replay s, ws_poisoned = False\<rparr>"
    using assms by (auto simp: open_store_def append_record_def split: option.splits sum.splits if_splits)
  have len: "length bs \<le> MAX_PAYLOAD_BYTES"
    using encode_snapshot_length [OF s(2)] by (simp add: wal_consts)
  have "replay_loop C cm ep (record_bytes C 0 KIND_INITIALIZE bs) 0 None = Inr (1, Some (initial_replay s))"
    using parse_record_bytes [OF len, of C 0 KIND_INITIALIZE "[]"] s
    by (subst replay_loop.simps) (simp add: replay_step_def decode_snapshot_exact_def checked_add64_def)
  then have "replay_wal C (record_bytes C 0 KIND_INITIALIZE bs) cm ep = Inr (initial_replay s)"
    by (simp add: replay_wal_def initial_replay_def)
  then show ?thesis
    by (simp add: w store_inv_def replayed_def initial_replay_ok)
qed

lemma append_or_same_inv:
  assumes "store_inv C w" and "op = (res, w')"
    and "snd op = w \<or> (\<exists>io kind payload update. op = append_then C io kind payload update w \<and> legal_append w kind payload update)"
  shows "store_inv C w' \<and> extends (ws_state w) (ws_state w')"
  using assms append_then_inv by (metis extends_refl snd_conv)

lemma store_step_inv:
  assumes "store_step C w w'" and inv: "store_inv C w"
  shows "store_inv C w' \<and> extends (ws_state w) (ws_state w')"
  using assms(1)
proof (rule store_stepE)
  have ok: "replay_ok (ws_state w)"
    using inv by (simp add: store_inv_def)
  show ?thesis if "activate_store C io handoff s w = (res, w')" for io handoff s res
    using inv that by (rule append_or_same_inv) (rule activate_legal [OF ok, of C io handoff s]; blast)
  show ?thesis if "persist_vote C io c r p d w = (res, w')" for io c r p d res
    using inv that by (rule append_or_same_inv) (rule vote_legal [of C io c r p d w]; blast)
  show ?thesis if "apply_verified C io t cd s w = (res, w')" for io t cd s res
    using inv that by (rule append_or_same_inv) (rule apply_legal [of C io t cd s w]; blast)
  show ?thesis if "retire_store C io h nc ne root w = (res, w')" for io h nc ne root res
    using inv that by (rule append_or_same_inv) (rule retire_legal [of C io h nc ne root w]; blast)
  show ?thesis if op: "open_store C io (ws_file w) (ws_committee_hash w) (ws_epoch w) genesis = (Inr w', file')"
    for io genesis file'
  proof -
    have "ws_file w \<noteq> []"
      using inv by (simp add: store_inv_def)
    then have "replayed C w = Inr (ws_state w')"
      using open_existing(2) [OF op] by (simp add: replayed_def)
    then have "extends (ws_state w) (ws_state w')"
      using inv by (auto simp: store_inv_def split: if_splits)
    then show ?thesis
      using open_inv [OF op] by simp
  qed
qed

lemma store_run_inv:
  "store_run C w w' \<Longrightarrow> store_inv C w \<Longrightarrow> store_inv C w' \<and> extends (ws_state w) (ws_state w')"
  by (induction rule: rtranclp_induct) (auto dest: store_step_inv intro: extends_trans)

section \<open>Restart\<close>

text \<open>Fewer records than sequence numbers.\<close>

definition has_room :: "wal_store \<Rightarrow> bool" where
  "has_room w \<longleftrightarrow> checked_add64 (rs_next_sequence (ws_state w)) 1 \<noteq> None"

lemma reopen_healthy:
  assumes "store_inv C w" and "\<not> ws_poisoned w" and "has_room w"
  shows "open_store C io (ws_file w) (ws_committee_hash w) (ws_epoch w) None = (Inr w, ws_file w)"
  using assms by (cases w) (auto simp: store_inv_def replayed_def has_room_def open_store_def)

text \<open>What a restart finds after an append that failed once \<open>n\<close> bytes were written.\<close>

lemma reopen_after_failure:
  assumes inv: "store_inv C w" and room: "has_room w" and legal: "legal_append w kind payload update"
    and app: "append_then C (Some n) kind payload update w = (res, w')"
  shows "fst (open_store C io (ws_file w') (ws_committee_hash w) (ws_epoch w) None) =
    (if n = 0 then Inr w
     else if n < length (record_bytes C (rs_next_sequence (ws_state w)) kind payload)
     then Inl (ReplayError Incomplete)
     else Inr (snd (append_then C None kind payload update w)))"
proof -
  let ?st = "ws_state w" and ?cm = "ws_committee_hash w" and ?ep = "ws_epoch w"
  let ?rec = "record_bytes C (rs_next_sequence (ws_state w)) kind payload"
  have l: "kind \<noteq> KIND_INITIALIZE" "length payload \<le> MAX_PAYLOAD_BYTES" "\<not> ws_poisoned w"
    "replay_record ?st kind payload ?cm ?ep = Inr (update ?st)"
    "update (?st\<lparr>rs_next_sequence := k\<rparr>) = (update ?st)\<lparr>rs_next_sequence := k\<rparr>" for k
    using legal by (simp_all add: legal_append_def)
  have now: "replay_wal C (ws_file w) ?cm ?ep = Inr ?st" and ne: "ws_file w \<noteq> []"
    using inv l(3) room by (auto simp: store_inv_def replayed_def has_room_def)
  obtain k where k: "checked_add64 (rs_next_sequence ?st) 1 = Some k"
    using room by (auto simp: has_room_def)
  have content: "ws_file w' = ws_file w @ take n ?rec"
    using app l(2) by (cases rule: append_then_cases) auto
  have none: "snd (append_then C None kind payload update w) =
      w\<lparr>ws_file := ws_file w @ ?rec, ws_state := (update ?st)\<lparr>rs_next_sequence := k\<rparr>\<rparr>"
    using l(2,5) k by (simp add: append_then_def wal_append_def append_record_def Let_def)
  consider "n = 0" | "0 < n" "n < length ?rec" | "0 < n" "\<not> n < length ?rec"
    by linarith
  then show ?thesis
  proof cases
    case 1
    then show ?thesis
      using content reopen_healthy [OF inv l(3) room, of io] by simp
  next
    case 2
    then show ?thesis
      using replay_wal_torn [OF now l(2) 2] ne by (simp add: content open_store_def)
  next
    case 3
    then have "open_store C io (ws_file w') ?cm ?ep None = (Inr (snd (append_then C None kind payload update w)), ws_file w @ ?rec)"
      using replay_wal_append [OF now l(2,1,4)] ne k l(3) unfolding none content by (cases w) (simp add: open_store_def)
    then show ?thesis
      using 3 by simp
  qed
qed

section \<open>Votes are never contradicted\<close>

text \<open>The store provides the permanent register of the prelude, with the digest locked for each key.\<close>

definition locked_digest :: "wal_store \<Rightarrow> digest \<Rightarrow> digest option" where
  "locked_digest w conflict = map_option pl_digest (fmlookup (rs_locks (ws_state w)) conflict)"

definition voted :: "wal_store \<Rightarrow> vote_key \<Rightarrow> digest option" where
  "voted w key = fmlookup (rs_votes (ws_state w)) key"

lemma extends_locked:
  assumes "extends (ws_state w) (ws_state w')" and "locked_digest w c = Some d"
  shows "locked_digest w' c = Some d"
proof -
  obtain l where "fmlookup (rs_locks (ws_state w)) c = Some l" "pl_digest l = d"
    using assms(2) by (auto simp: locked_digest_def)
  then obtain l' where "fmlookup (rs_locks (ws_state w')) c = Some l'" "pl_digest l' = d"
    using assms(1) unfolding extends_def by metis
  then show ?thesis
    by (simp add: locked_digest_def)
qed

lemma extends_voted:
  "extends (ws_state w) (ws_state w') \<Longrightarrow> voted w key = Some d \<Longrightarrow> voted w' key = Some d"
  by (simp add: extends_def voted_def)

interpretation lock_register: permanent_register "store_inv C" "store_step C" locked_digest for C
  by unfold_locales (use store_step_inv extends_locked in blast)+

interpretation vote_register: permanent_register "store_inv C" "store_step C" voted for C
  by unfold_locales (use store_step_inv extends_voted in blast)+

text \<open>The outcomes of a vote that is accepted.\<close>

lemma persist_vote_okD:
  assumes "persist_vote C io c r p d w = (Inr res, w')"
  shows "rs_lifecycle (ws_state w) = Active" "\<not> ws_poisoned w"
    and "res = Persisted \<Longrightarrow> check_lock (ws_state w) c r d = Inr () \<and>
      fmlookup (rs_votes (ws_state w)) \<lparr>vk_conflict_key = c, vk_round = r, vk_phase = p\<rparr> = None \<and>
      (\<exists>n f. w' = w\<lparr>ws_file := f, ws_state := insert_vote c r p d ((ws_state w)\<lparr>rs_next_sequence := n\<rparr>)\<rparr>)"
    and "res = AlreadyPresent \<Longrightarrow> w' = w \<and>
      fmlookup (rs_votes (ws_state w)) \<lparr>vk_conflict_key = c, vk_round = r, vk_phase = p\<rparr> = Some d"
proof -
  have *: "ensure_active w = Inr ()" "validate_phase p = Inr ()"
    using assms by (auto simp: persist_vote_def split: sum.splits)
  then show "rs_lifecycle (ws_state w) = Active" "\<not> ws_poisoned w"
    by (simp_all add: ensure_active_Inr_iff)
  have len: "length (vote_payload c r p d) \<le> MAX_PAYLOAD_BYTES"
    by (simp add: vote_payload_def wal_consts)
  show "res = Persisted \<Longrightarrow> check_lock (ws_state w) c r d = Inr () \<and>
      fmlookup (rs_votes (ws_state w)) \<lparr>vk_conflict_key = c, vk_round = r, vk_phase = p\<rparr> = None \<and>
      (\<exists>n f. w' = w\<lparr>ws_file := f, ws_state := insert_vote c r p d ((ws_state w)\<lparr>rs_next_sequence := n\<rparr>)\<rparr>)"
  proof -
    assume "res = Persisted"
    with assms * have 1: "fmlookup (rs_votes (ws_state w)) \<lparr>vk_conflict_key = c, vk_round = r, vk_phase = p\<rparr> = None"
      "check_lock (ws_state w) c r d = Inr ()"
      "append_then C io KIND_VOTE (vote_payload c r p d) (insert_vote c r p d) w = (Inr Persisted, w')"
      by (auto simp: persist_vote_def vote_digest_def split: option.splits if_splits sum.splits)
    from 1(3) len show ?thesis
      by (cases rule: append_then_cases) (use 1 in auto)
  qed
  show "res = AlreadyPresent \<Longrightarrow> w' = w \<and>
      fmlookup (rs_votes (ws_state w)) \<lparr>vk_conflict_key = c, vk_round = r, vk_phase = p\<rparr> = Some d"
  proof -
    have "append_then C io kind payload u w \<noteq> (Inr AlreadyPresent, w')" for kind payload u
      by (auto simp: append_then_def split: prod.split sum.split)
    then show "res = AlreadyPresent \<Longrightarrow> ?thesis"
      using assms * by (auto simp: persist_vote_def vote_digest_def split: option.splits if_splits sum.splits)
  qed
qed

lemma precommit_is_locked:
  assumes "replay_ok (ws_state w)"
    and "fmlookup (rs_votes (ws_state w)) \<lparr>vk_conflict_key = c, vk_round = r, vk_phase = PHASE_PRECOMMIT\<rparr> = Some d"
  shows "locked_digest w c = Some d"
  using assms unfolding replay_ok_def locked_digest_def by fastforce

text \<open>An accepted vote is on record, an accepted precommit is the lock; and neither is accepted against the record.\<close>

lemma persist_vote_records:
  assumes "persist_vote C io c r p d w = (Inr res, w')" and "store_inv C w"
  shows "voted w' \<lparr>vk_conflict_key = c, vk_round = r, vk_phase = p\<rparr> = Some d"
    and "p = PHASE_PRECOMMIT \<Longrightarrow> locked_digest w' c = Some d"
proof -
  have ok: "replay_ok (ws_state w)"
    using assms(2) by (simp add: store_inv_def)
  show "voted w' \<lparr>vk_conflict_key = c, vk_round = r, vk_phase = p\<rparr> = Some d"
    using persist_vote_okD [OF assms(1)] by (cases res) (auto simp: voted_def)
  show "p = PHASE_PRECOMMIT \<Longrightarrow> locked_digest w' c = Some d"
  proof (cases res)
    case AlreadyPresent
    assume "p = PHASE_PRECOMMIT"
    then show ?thesis
      using persist_vote_okD(4) [OF assms(1) AlreadyPresent] precommit_is_locked [OF ok, of c r d] by simp
  qed (use persist_vote_okD(3) [OF assms(1)] in \<open>auto simp: locked_digest_def\<close>)
qed

lemma persist_vote_consistent:
  assumes "persist_vote C io c r p d w = (Inr res, w')" and "store_inv C w"
  shows "voted w \<lparr>vk_conflict_key = c, vk_round = r, vk_phase = p\<rparr> = Some d' \<Longrightarrow> d = d'"
    and "p = PHASE_PRECOMMIT \<or> res = Persisted \<Longrightarrow> locked_digest w c = Some d' \<Longrightarrow> d = d'"
proof -
  have ok: "replay_ok (ws_state w)"
    using assms(2) by (simp add: store_inv_def)
  show "voted w \<lparr>vk_conflict_key = c, vk_round = r, vk_phase = p\<rparr> = Some d' \<Longrightarrow> d = d'"
    using persist_vote_okD(3,4) [OF assms(1)] by (cases res) (auto simp: voted_def)
  show "d = d'" if "p = PHASE_PRECOMMIT \<or> res = Persisted" "locked_digest w c = Some d'"
  proof (cases res)
    case Persisted
    then show ?thesis
      using persist_vote_okD(3) [OF assms(1)] that(2) by (auto simp: check_lock_Inr_iff locked_digest_def)
  next
    case AlreadyPresent
    then have "locked_digest w c = Some d"
      using that(1) persist_vote_okD(4) [OF assms(1)] precommit_is_locked [OF ok, of c r d] by simp
    then show ?thesis
      using that(2) by simp
  qed
qed

section \<open>Retirement is terminal\<close>

lemma retire_okD:
  assumes "retire_store C io h nc ne root w = (Inr res, w')"
  shows "rs_lifecycle (ws_state w') = Retired"
proof (cases "rs_lifecycle (ws_state w) = Retired")
  case True
  then show ?thesis
    using assms by (auto simp: retire_store_def ws_lifecycle_def split: sum.splits option.splits if_splits)
next
  case False
  then obtain payload u where app: "append_then C io KIND_RETIRE payload u w = (Inr res, w')"
    and u: "\<And>st. rs_lifecycle (u st) = Retired"
    using assms by (auto simp: retire_store_def ws_lifecycle_def split: sum.splits option.splits if_splits)
  then show ?thesis
    by (auto simp: append_then_def split: prod.splits sum.splits)
qed

lemma retired_refuses:
  assumes "rs_lifecycle (ws_state w) = Retired"
  shows "fst (persist_vote C io c r p d w) \<noteq> Inr res"
    and "fst (activate_store C io handoff s w) \<noteq> Inr res"
    and "fst (apply_verified C io t cd s w) \<noteq> Inr Persisted"
    and "fst (retire_store C io h nc ne root w) \<noteq> Inr Persisted"
proof -
  show "fst (persist_vote C io c r p d w) \<noteq> Inr res"
  proof
    assume "fst (persist_vote C io c r p d w) = Inr res"
    then have "persist_vote C io c r p d w = (Inr res, snd (persist_vote C io c r p d w))"
      by (simp add: prod_eq_iff)
    then show False
      using persist_vote_okD(1) assms by fastforce
  qed
  show "fst (activate_store C io handoff s w) \<noteq> Inr res"
    using assms by (auto simp: activate_store_def ws_lifecycle_def split: sum.splits)
  show "fst (apply_verified C io t cd s w) \<noteq> Inr Persisted"
    using assms by (auto simp: apply_verified_def ws_lifecycle_def split: sum.splits option.splits)
  show "fst (retire_store C io h nc ne root w) \<noteq> Inr Persisted"
    using assms by (auto simp: retire_store_def ws_lifecycle_def split: sum.splits option.splits)
qed

lemma retired_run:
  assumes "store_run C w w'" and "store_inv C w" and "rs_lifecycle (ws_state w) = Retired"
  shows "rs_lifecycle (ws_state w') = Retired"
    and "rs_retirement (ws_state w') = rs_retirement (ws_state w)"
    and "rs_current_snapshot (ws_state w') = rs_current_snapshot (ws_state w)"
  using store_run_inv [OF assms(1,2)] assms(3) by (simp_all add: extends_def)

section \<open>Certified applies\<close>

lemma apply_verified_again:
  assumes "apply_verified C io t cd s w = (Inr res, w1)" and "store_inv C w"
    and "store_run C w1 w2" and "\<not> ws_poisoned w2"
    and "ws_committee_hash w2 = ws_committee_hash w" and "ws_epoch w2 = ws_epoch w"
  shows "apply_verified C io' t cd s w2 = (Inr AlreadyPresent, w2)"
proof -
  have inv1: "store_inv C w1"
    using store_step_inv [OF store_step.applied [OF assms(1)] assms(2)] by simp
  have v: "validate_snapshot s (ws_committee_hash w) (ws_epoch w) = Inr ()" "\<not> is_zero t" "\<not> is_zero cd"
    using assms(1) by (auto simp: apply_verified_def split: sum.splits if_splits)
  have "\<exists>a. fmlookup (rs_applied (ws_state w1)) t = Some a \<and> ap_certificate_digest a = cd \<and> ap_next_snapshot a = s"
    using assms(1) v by (auto simp: apply_verified_def applied_record_of_def append_then_def wal_append_def Let_def
        split: sum.splits if_splits option.splits prod.splits)
  then obtain a where "fmlookup (rs_applied (ws_state w2)) t = Some a" "ap_certificate_digest a = cd" "ap_next_snapshot a = s"
    using store_run_inv [OF assms(3) inv1] by (auto simp: extends_def)
  then show ?thesis
    using v assms(4,5,6) by (simp add: apply_verified_def ensure_healthy_def applied_record_of_def)
qed

end
