(* ===== verification/Messages.thy ===== *)
theory Messages
  imports Wire StoreSafety
begin

text \<open>
  The messages between controller and validator (\<open>Request\<close>, \<open>Response\<close> and the lifecycle a
  validator reports, in \<open>integration001/src/wire.rs\<close>), with their codecs.
\<close>

section \<open>Data\<close>

datatype request =
    Ping
  | Prevote proposal
  | Precommit proposal qc
  | Apply tx user_auth qc qc
  | QueryState

datatype response =
    Pong u8 u64 digest
  | VoteResponse vote
  | AppliedResponse digest bool
  | StateResponse digest u64 u64 lifecycle
  | Rejected u16

definition REQUEST_PING :: u8 where "REQUEST_PING = 1"
definition REQUEST_PREVOTE :: u8 where "REQUEST_PREVOTE = 2"
definition REQUEST_PRECOMMIT :: u8 where "REQUEST_PRECOMMIT = 3"
definition REQUEST_APPLY :: u8 where "REQUEST_APPLY = 4"
definition REQUEST_QUERY_STATE :: u8 where "REQUEST_QUERY_STATE = 5"

definition RESPONSE_PONG :: u8 where "RESPONSE_PONG = 1"
definition RESPONSE_VOTE :: u8 where "RESPONSE_VOTE = 2"
definition RESPONSE_APPLIED :: u8 where "RESPONSE_APPLIED = 3"
definition RESPONSE_STATE :: u8 where "RESPONSE_STATE = 4"
definition RESPONSE_REJECTED :: u8 where "RESPONSE_REJECTED = 6"

lemmas message_tags = REQUEST_PING_def REQUEST_PREVOTE_def REQUEST_PRECOMMIT_def REQUEST_APPLY_def
  REQUEST_QUERY_STATE_def RESPONSE_PONG_def RESPONSE_VOTE_def RESPONSE_APPLIED_def RESPONSE_STATE_def
  RESPONSE_REJECTED_def

section \<open>Requests\<close>

fun put_request :: "request \<Rightarrow> wire_error + u8 list" where
  "put_request Ping = Inr [REQUEST_PING]"
| "put_request (Prevote p) = bindE (put_proposal p) (\<lambda>pb. Inr ([REQUEST_PREVOTE] @ pb))"
| "put_request (Precommit p prevote_qc) =
    bindE (put_proposal p) (\<lambda>pb. bindE (put_qc prevote_qc) (\<lambda>qb. Inr ([REQUEST_PRECOMMIT] @ pb @ qb)))"
| "put_request (Apply tx auth prevote_qc finality_qc) =
    bindE (put_tx tx) (\<lambda>tb. bindE (put_qc prevote_qc) (\<lambda>qb. bindE (put_qc finality_qc) (\<lambda>fb.
      Inr ([REQUEST_APPLY] @ tb @ put_user_auth auth @ qb @ fb))))"
| "put_request QueryState = Inr [REQUEST_QUERY_STATE]"

definition take_request :: "request taker" where
  "take_request = bindD take_u8 (\<lambda>tag.
    if tag = REQUEST_PING then returnD Ping
    else if tag = REQUEST_PREVOTE then bindD take_proposal (\<lambda>p. returnD (Prevote p))
    else if tag = REQUEST_PRECOMMIT then
      bindD take_proposal (\<lambda>p. bindD take_qc (\<lambda>qc. returnD (Precommit p qc)))
    else if tag = REQUEST_APPLY then
      bindD take_tx (\<lambda>tx. bindD take_user_auth (\<lambda>auth. bindD take_qc (\<lambda>pq. bindD take_qc (\<lambda>fq.
        returnD (Apply tx auth pq fq)))))
    else if tag = REQUEST_QUERY_STATE then returnD QueryState
    else failD BadTag)"

definition encode_request :: "request \<Rightarrow> wire_error + u8 list" where
  "encode_request = exact_encode put_request"

definition decode_request :: "u8 list \<Rightarrow> wire_error + request" where
  "decode_request = exact_decode take_request"

section \<open>Responses\<close>

definition put_lifecycle :: "lifecycle \<Rightarrow> u8 list" where
  "put_lifecycle l = [case l of Initialized \<Rightarrow> 1 | Active \<Rightarrow> 2 | Retired \<Rightarrow> 3]"

definition take_lifecycle :: "lifecycle taker" where
  "take_lifecycle = bindD take_u8 (\<lambda>v.
    if v = 1 then returnD Initialized else if v = 2 then returnD Active
    else if v = 3 then returnD Retired else failD BadLifecycle)"

fun put_response :: "response \<Rightarrow> wire_error + u8 list" where
  "put_response (Pong index epoch h) = Inr ([RESPONSE_PONG] @ [index] @ to_le64 epoch @ array_bytes h)"
| "put_response (VoteResponse vote) = bindE (put_vote vote) (\<lambda>vb. Inr ([RESPONSE_VOTE] @ vb))"
| "put_response (AppliedResponse root idempotent) =
    Inr ([RESPONSE_APPLIED] @ array_bytes root @ put_bool idempotent)"
| "put_response (StateResponse root snapshot_bytes wal_len l) =
    Inr ([RESPONSE_STATE] @ array_bytes root @ to_le64 snapshot_bytes @ to_le64 wal_len @ put_lifecycle l)"
| "put_response (Rejected code) = Inr ([RESPONSE_REJECTED] @ to_le16 code)"

definition take_response :: "response taker" where
  "take_response = bindD take_u8 (\<lambda>tag.
    if tag = RESPONSE_PONG then
      bindD take_u8 (\<lambda>index. bindD take_u64 (\<lambda>epoch. bindD take_fixed (\<lambda>h. returnD (Pong index epoch h))))
    else if tag = RESPONSE_VOTE then bindD take_vote (\<lambda>vote. returnD (VoteResponse vote))
    else if tag = RESPONSE_APPLIED then
      bindD take_fixed (\<lambda>root. bindD take_bool (\<lambda>idempotent. returnD (AppliedResponse root idempotent)))
    else if tag = RESPONSE_STATE then
      bindD take_fixed (\<lambda>root. bindD take_u64 (\<lambda>snapshot_bytes. bindD take_u64 (\<lambda>wal_len.
        bindD take_lifecycle (\<lambda>l. returnD (StateResponse root snapshot_bytes wal_len l)))))
    else if tag = RESPONSE_REJECTED then bindD take_u16 (\<lambda>code. returnD (Rejected code))
    else failD BadTag)"

definition encode_response :: "response \<Rightarrow> wire_error + u8 list" where
  "encode_response = exact_encode put_response"

definition decode_response :: "u8 list \<Rightarrow> wire_error + response" where
  "decode_response = exact_decode take_response"

section \<open>Both are codecs\<close>

lemma reads_tagged:
  assumes "reads (f tag) v bs"
  shows "reads (bindD take_u8 f) v ([tag] @ bs)"
  by (rule reads_bind [where v = tag]) (simp_all add: assms reads_prim)

lemma reads_request: "put_request r = Inr bs \<Longrightarrow> reads take_request r bs"
  unfolding take_request_def
proof (induction r rule: put_request.induct)
  case 1
  then show ?case
    using reads_tagged [of _ REQUEST_PING Ping "[]"] by (auto simp: message_tags reads_return)
next
  case (2 p)
  then obtain pb where "put_proposal p = Inr pb" "bs = [REQUEST_PREVOTE] @ pb"
    by auto
  then show ?case
    by (simp only:) (rule reads_tagged, simp add: message_tags reads_last [OF reads_proposal])
next
  case (3 p qc)
  then obtain pb qb where "put_proposal p = Inr pb" "put_qc qc = Inr qb" "bs = [REQUEST_PRECOMMIT] @ pb @ qb"
    by auto
  then show ?case
    by (simp only:) (rule reads_tagged, simp add: message_tags reads_bind [OF reads_proposal] reads_last [OF reads_qc])
next
  case (4 tx auth pq fq)
  then obtain tb qb fb where "put_tx tx = Inr tb" "put_qc pq = Inr qb" "put_qc fq = Inr fb"
    "bs = [REQUEST_APPLY] @ tb @ put_user_auth auth @ qb @ fb"
    by auto
  then show ?case
    by (simp only:) (rule reads_tagged, simp add: message_tags reads_bind [OF reads_tx] reads_bind [OF reads_user_auth]
        reads_bind [OF reads_qc] reads_last [OF reads_qc])
next
  case 5
  then show ?case
    using reads_tagged [of _ REQUEST_QUERY_STATE QueryState "[]"] by (auto simp: message_tags reads_return)
qed

lemma parses_if:
  assumes "c \<Longrightarrow> parses a P" and "\<not> c \<Longrightarrow> parses b P"
  shows "parses (if c then a else b) P"
  using assms by (cases c) simp_all

lemma parses_request: "parses take_request (\<lambda>r bs. put_request r = Inr bs)"
  unfolding take_request_def
  by (rule parses_bind [OF parses_prim(1)],
      (rule parses_if | rule parses_fail | (rule parses_return, simp)
       | (rule parses_bind, rule parses_proposal parses_qc parses_tx parses_user_auth))+)

interpretation request_codec: codec "\<lambda>_. True" put_request take_request
  by unfold_locales (auto intro: reads_request parses_mono [OF parses_request])

lemma reads_lifecycle: "reads take_lifecycle l (put_lifecycle l)"
  unfolding take_lifecycle_def put_lifecycle_def
  by (rule reads_last [OF reads_prim(1)]) (cases l; simp)

lemma parses_lifecycle: "parses take_lifecycle (\<lambda>l bs. bs = put_lifecycle l)"
  unfolding take_lifecycle_def
  by (rule parses_bind [OF parses_prim(1)],
      (rule parses_if | rule parses_fail | (rule parses_return, simp add: put_lifecycle_def))+)

lemma reads_response: "put_response r = Inr bs \<Longrightarrow> reads take_response r bs"
proof -
  have tagged: "reads take_response r ([tag] @ cs)"
    if "reads (if tag = RESPONSE_PONG then
      bindD take_u8 (\<lambda>index. bindD take_u64 (\<lambda>epoch. bindD take_fixed (\<lambda>h. returnD (Pong index epoch h))))
    else if tag = RESPONSE_VOTE then bindD take_vote (\<lambda>vote. returnD (VoteResponse vote))
    else if tag = RESPONSE_APPLIED then
      bindD take_fixed (\<lambda>root. bindD take_bool (\<lambda>idempotent. returnD (AppliedResponse root idempotent)))
    else if tag = RESPONSE_STATE then
      bindD take_fixed (\<lambda>root. bindD take_u64 (\<lambda>snapshot_bytes. bindD take_u64 (\<lambda>wal_len.
        bindD take_lifecycle (\<lambda>l. returnD (StateResponse root snapshot_bytes wal_len l)))))
    else if tag = RESPONSE_REJECTED then bindD take_u16 (\<lambda>code. returnD (Rejected code))
    else failD BadTag) r cs" for tag cs
    unfolding take_response_def by (rule reads_tagged) (rule that)
  assume put: "put_response r = Inr bs"
  show "reads take_response r bs"
  proof (cases r)
    case (Pong index epoch h)
    with put have "bs = [RESPONSE_PONG] @ ([index] @ to_le64 epoch @ array_bytes h)"
      by simp
    then show ?thesis
      unfolding Pong by (simp only:) (rule tagged [unfolded Pong],
        simp add: message_tags reads_bind [OF reads_prim(1), simplified] reads_bind [OF reads_prim(4)] reads_last [OF read_rules(5)])
  next
    case (VoteResponse vote)
    with put obtain vb where "put_vote vote = Inr vb" "bs = [RESPONSE_VOTE] @ vb"
      by auto
    then show ?thesis
      unfolding VoteResponse by (simp only:) (rule tagged [unfolded VoteResponse], simp add: message_tags reads_last [OF reads_vote])
  next
    case (AppliedResponse root idem)
    with put have "bs = [RESPONSE_APPLIED] @ (array_bytes root @ put_bool idem)"
      by simp
    then show ?thesis
      unfolding AppliedResponse by (simp only:) (rule tagged [unfolded AppliedResponse],
        simp add: message_tags reads_bind [OF read_rules(5)] reads_last [OF reads_bool])
  next
    case (StateResponse root sb wb l)
    with put have "bs = [RESPONSE_STATE] @ (array_bytes root @ to_le64 sb @ to_le64 wb @ put_lifecycle l)"
      by simp
    then show ?thesis
      unfolding StateResponse by (simp only:) (rule tagged [unfolded StateResponse],
        simp add: message_tags reads_bind [OF read_rules(5)] reads_bind [OF reads_prim(4)] reads_last [OF reads_lifecycle])
  next
    case (Rejected code)
    with put have "bs = [RESPONSE_REJECTED] @ to_le16 code"
      by simp
    then show ?thesis
      unfolding Rejected by (simp only:) (rule tagged [unfolded Rejected], simp add: message_tags reads_last [OF reads_prim(2)])
  qed
qed

lemma parses_response: "parses take_response (\<lambda>r bs. put_response r = Inr bs)"
  unfolding take_response_def
  by (rule parses_bind [OF parses_prim(1)],
      (rule parses_if | rule parses_fail | (rule parses_return, simp)
       | (rule parses_bind, rule parse_rules parses_vote parses_lifecycle))+)

interpretation response_codec: codec "\<lambda>_. True" put_response take_response
  by unfold_locales (auto intro: reads_response parses_mono [OF parses_response])

end
