(* ===== verification/Node.thy ===== *)
theory Node
  imports Messages
begin

text \<open>
  The validator (\<open>integration001/src/node.rs\<close>): its arguments, the checks on start-up, the
  handlers of the five requests and the service of one connection.  A handler returns its
  response (or the code of the rejection) and the server it leaves; the outcome of the writes
  to the log is an argument, as in the store.
\<close>

section \<open>Data\<close>

record node_config =
  nc_epoch :: u64
  nc_index :: u8
  nc_port :: u16
  nc_wal_path :: string
  nc_snapshot_path :: string
  nc_byzantine :: bool

record node_server =
  ns_index :: u8
  ns_byzantine :: bool
  ns_committee_hash :: digest
  ns_manifest :: committee_manifest
  ns_signing_key :: signing_key
  ns_state :: state
  ns_store :: wal_store

datatype argument_error =
    WrongArgumentCount | NotAnInteger | ZeroValue | IndexNotU8 | IndexNotMember | EmptyPath | SamePath | BadMarker

datatype shape_error =
    ShapeLiveKey | SharedIdentifier | LiveIdentifierUnknown | ShapeLiveAndSpent | LiveSpentShareId |
    SpentIdentifierUnknown | SpentWithoutReceipt | KnownIdsDiffer

datatype receipt_error =
    ShapeReceiptKey | ZeroCertificate | NoOutputs | RepeatedOutput | OutputAbsent

datatype start_error =
    SlotMissing | KeyMismatchInSlot | SnapshotTooLarge | NotPureGenesis | KnownCountDiffers |
    WrapperMismatch | AppliedCountDiffers | ReceiptNotInWal | CertificateDiffers

datatype node_error =
    ArgumentError argument_error
  | ShapeError shape_error
  | ReceiptError receipt_error
  | StartError start_error
  | NodeModelError model_error
  | NodeWireError wire_error
  | NodeStoreError store_error

definition REJECT_BAD_FRAME :: u16 where "REJECT_BAD_FRAME = 1"
definition REJECT_BAD_REQUEST :: u16 where "REJECT_BAD_REQUEST = 2"
definition REJECT_INVALID_PROPOSAL :: u16 where "REJECT_INVALID_PROPOSAL = 10"
definition REJECT_INPUT_NOT_LIVE :: u16 where "REJECT_INPUT_NOT_LIVE = 11"
definition REJECT_INVALID_PREVOTE_QC :: u16 where "REJECT_INVALID_PREVOTE_QC = 12"
definition REJECT_LOCAL_PREVOTE_MISSING :: u16 where "REJECT_LOCAL_PREVOTE_MISSING = 13"
definition REJECT_DURABLE_LOCK :: u16 where "REJECT_DURABLE_LOCK = 14"
definition REJECT_SIGNING :: u16 where "REJECT_SIGNING = 15"
definition REJECT_DURABLE_VOTE :: u16 where "REJECT_DURABLE_VOTE = 16"
definition REJECT_VOTE_PERSIST :: u16 where "REJECT_VOTE_PERSIST = 17"
definition REJECT_INVALID_FINALITY :: u16 where "REJECT_INVALID_FINALITY = 20"
definition REJECT_STATE_APPLY :: u16 where "REJECT_STATE_APPLY = 21"
definition REJECT_STATE_PERSIST :: u16 where "REJECT_STATE_PERSIST = 22"
definition REJECT_QUERY :: u16 where "REJECT_QUERY = 30"

definition NODE_ARG_COUNT :: nat where "NODE_ARG_COUNT = 6"

section \<open>Arguments\<close>

text \<open>
  \<open>str::parse\<close> for an unsigned integer: an optional plus sign and at least one digit, with a
  value below the bound of the type.
\<close>

fun digits_value :: "nat \<Rightarrow> string \<Rightarrow> nat option" where
  "digits_value acc [] = Some acc"
| "digits_value acc (c # cs) =
    (let d = of_char c :: nat in
     if 48 \<le> d \<and> d \<le> 57 then digits_value (acc * 10 + (d - 48)) cs else None)"

definition parse_unsigned :: "nat \<Rightarrow> string \<Rightarrow> nat option" where
  "parse_unsigned bound s =
    (let ds = (case s of c # cs \<Rightarrow> if c = CHR ''+'' then cs else s | [] \<Rightarrow> []) in
     if ds = [] then None
     else case digits_value 0 ds of
       None \<Rightarrow> None
     | Some v \<Rightarrow> if v < bound then Some v else None)"

definition parse_nonzero :: "nat \<Rightarrow> string \<Rightarrow> node_error + nat" where
  "parse_nonzero bound s =
    (case parse_unsigned bound s of
       None \<Rightarrow> Inl (ArgumentError NotAnInteger)
     | Some v \<Rightarrow> if v = 0 then Inl (ArgumentError ZeroValue) else Inr v)"

text \<open>
  Two \<open>PathBuf\<close>s are equal when their components are: empty components and \<open>.\<close> are dropped,
  except a leading \<open>.\<close>; a leading slash counts.
\<close>

fun split_slash :: "string \<Rightarrow> string list" where
  "split_slash [] = [[]]"
| "split_slash (c # cs) =
    (if c = CHR ''/'' then [] # split_slash cs
     else case split_slash cs of [] \<Rightarrow> [[c]] | part # parts \<Rightarrow> (c # part) # parts)"

definition path_components :: "string \<Rightarrow> string list" where
  "path_components p =
    (let parts = split_slash p;
         body = filter (\<lambda>c. c \<noteq> [] \<and> c \<noteq> ''.'') parts
     in if hd parts = [] \<and> p \<noteq> [] then ''/'' # body
        else if hd parts = ''.'' then ''.'' # body
        else body)"

definition same_path :: "string \<Rightarrow> string \<Rightarrow> bool" where
  "same_path p q \<longleftrightarrow> path_components p = path_components q"

definition parse_node_config :: "string list \<Rightarrow> node_error + node_config" where
  "parse_node_config args =
    (if length args \<noteq> NODE_ARG_COUNT then Inl (ArgumentError WrongArgumentCount)
     else bindE (parse_nonzero (2 ^ 64) (args ! 0)) (\<lambda>epoch.
     bindE (ok_or (ArgumentError IndexNotU8) (parse_unsigned (2 ^ 8) (args ! 1))) (\<lambda>index.
     if index \<ge> N then Inl (ArgumentError IndexNotMember)
     else bindE (parse_nonzero (2 ^ 16) (args ! 2)) (\<lambda>port.
     if args ! 3 = [] \<or> args ! 4 = [] then Inl (ArgumentError EmptyPath)
     else if same_path (args ! 3) (args ! 4) then Inl (ArgumentError SamePath)
     else bindE (if args ! 5 = ''0'' then Inr False else if args ! 5 = ''1'' then Inr True
                 else Inl (ArgumentError BadMarker)) (\<lambda>byzantine.
     Inr \<lparr>nc_epoch = of_nat epoch, nc_index = of_nat index, nc_port = of_nat port,
          nc_wal_path = args ! 3, nc_snapshot_path = args ! 4, nc_byzantine = byzantine\<rparr>)))))"

section \<open>Checks on a state\<close>

definition check_shape_live :: "crypto \<Rightarrow> state \<Rightarrow> cell_ref \<times> cell \<Rightarrow> digest fset \<Rightarrow> node_error + digest fset" where
  "check_shape_live C s rc ids = (case rc of (r, cell) \<Rightarrow>
    if r \<noteq> cell_reference cell then Inl (ShapeError ShapeLiveKey)
    else bindE (map_err NodeModelError (validate_cell C cell)) (\<lambda>_.
    if cr_id r |\<in>| ids then Inl (ShapeError SharedIdentifier)
    else if cr_id r |\<notin>| st_known_ids s then Inl (ShapeError LiveIdentifierUnknown)
    else if r |\<in>| fmdom (st_spent_by s) then Inl (ShapeError ShapeLiveAndSpent)
    else Inr (finsert (cr_id r) ids)))"

definition check_shape_spent :: "state \<Rightarrow> cell_ref \<times> digest \<Rightarrow> digest fset \<Rightarrow> node_error + digest fset" where
  "check_shape_spent s ri ids = (case ri of (r, intent) \<Rightarrow>
    if cr_id r |\<in>| ids then Inl (ShapeError LiveSpentShareId)
    else if cr_id r |\<notin>| st_known_ids s then Inl (ShapeError SpentIdentifierUnknown)
    else if intent |\<notin>| fmdom (st_applied s) then Inl (ShapeError SpentWithoutReceipt)
    else Inr (finsert (cr_id r) ids))"

definition check_output_ref :: "state \<Rightarrow> cell_ref \<Rightarrow> digest fset \<Rightarrow> node_error + digest fset" where
  "check_output_ref s r outs =
    (if cr_id r |\<in>| outs then Inl (ReceiptError RepeatedOutput)
     else if r |\<notin>| fmdom (st_live s) \<and> r |\<notin>| fmdom (st_spent_by s) then Inl (ReceiptError OutputAbsent)
     else Inr (finsert (cr_id r) outs))"

definition check_shape_receipt ::
    "state \<Rightarrow> digest \<times> apply_receipt \<Rightarrow> digest fset \<Rightarrow> node_error + digest fset" where
  "check_shape_receipt s ir outs = (case ir of (intent, receipt) \<Rightarrow>
    if intent \<noteq> rc_intent receipt then Inl (ReceiptError ShapeReceiptKey)
    else if rc_certificate_digest receipt = zero_array then Inl (ReceiptError ZeroCertificate)
    else if rc_output_refs receipt = [] then Inl (ReceiptError NoOutputs)
    else foldE (check_output_ref s) (rc_output_refs receipt) outs)"

definition validate_state_shape :: "crypto \<Rightarrow> state \<Rightarrow> node_error + unit" where
  "validate_state_shape C s =
    bindE (map_err NodeModelError (validate_state C s)) (\<lambda>_.
    bindE (foldE (check_shape_live C s) (sorted_list_of_fmap (st_live s)) {||}) (\<lambda>ids.
    bindE (foldE (check_shape_spent s) (sorted_list_of_fmap (st_spent_by s)) ids) (\<lambda>ids.
    if ids \<noteq> st_known_ids s then Inl (ShapeError KnownIdsDiffer)
    else map_ok (\<lambda>_. ()) (foldE (check_shape_receipt s) (sorted_list_of_fmap (st_applied s)) {||}))))"

definition validate_pure_genesis :: "state \<Rightarrow> node_error + unit" where
  "validate_pure_genesis s =
    (if fmdom (st_spent_by s) \<noteq> {||} \<or> fmdom (st_applied s) \<noteq> {||} then Inl (StartError NotPureGenesis)
     else if fcard (st_known_ids s) \<noteq> fcard (fmdom (st_live s)) then Inl (StartError KnownCountDiffers)
     else Inr ())"

definition check_durable_receipt :: "wal_store \<Rightarrow> digest \<times> apply_receipt \<Rightarrow> node_error + unit" where
  "check_durable_receipt w ir = (case ir of (intent, receipt) \<Rightarrow>
    case applied_record_of w intent of
      None \<Rightarrow> Inl (StartError ReceiptNotInWal)
    | Some durable \<Rightarrow>
        if ap_certificate_digest durable \<noteq> rc_certificate_digest receipt then Inl (StartError CertificateDiffers)
        else Inr ())"

definition reconcile_state_with_wal :: "state \<Rightarrow> wal_store \<Rightarrow> node_error + unit" where
  "reconcile_state_with_wal s w =
    (if fcard (fmdom (st_applied s)) \<noteq> applied_count w then Inl (StartError AppliedCountDiffers)
     else checkE (check_durable_receipt w) (sorted_list_of_fmap (st_applied s)))"

definition genesis_activation_digest :: "crypto \<Rightarrow> digest \<Rightarrow> u64 \<Rightarrow> digest \<Rightarrow> digest" where
  "genesis_activation_digest C h epoch root =
    blake3 C (ascii ''CALIBRE_INTEGRATION001_GENESIS_ACTIVATION_V1'' @ array_bytes h @ to_le64 epoch @ array_bytes root)"

definition adversarial_qc_digest :: "crypto \<Rightarrow> qc \<Rightarrow> wire_error + digest" where
  "adversarial_qc_digest C qc =
    bindE (encode_qc qc) (\<lambda>bs.
    let d = blake3 C (ascii ''CALIBRE_INTEGRATION001_ADVERSARIAL_QC_BYTES_V1'' @ bs) in
    Inr (if d = zero_array then array_update d 0 1 else d))"

section \<open>Start-up\<close>

text \<open>The bytes of the initial-state file, if they fit a frame.\<close>

definition read_bounded_snapshot :: "u8 list \<Rightarrow> node_error + u8 list" where
  "read_bounded_snapshot content =
    (if length content > MAX_FRAME_LEN then Inl (StartError SnapshotTooLarge) else Inr content)"

text \<open>The part of \<open>NodeServer::open\<close> before the log is opened: manifest, committee hash, key and initial snapshot.\<close>

definition prepare_node ::
    "crypto \<Rightarrow> node_config \<Rightarrow> u8 list \<Rightarrow> node_error + committee_manifest \<times> digest \<times> signing_key \<times> snapshot" where
  "prepare_node C config content =
    (let manifest = lab_committee C (nc_epoch config) in
     bindE (map_err NodeModelError (committee_hash C manifest)) (\<lambda>h.
     let key = lab_validator_key C (nc_epoch config) (unat (nc_index config)) in
     if unat (nc_index config) \<ge> length (m_members manifest) then Inl (StartError SlotMissing)
     else let member = m_members manifest ! unat (nc_index config) in
     if cm_index member \<noteq> nc_index config \<or> cm_public_key member \<noteq> public_of C key
     then Inl (StartError KeyMismatchInSlot)
     else bindE (read_bounded_snapshot content) (\<lambda>initial_bytes.
     bindE (map_err NodeWireError (decode_state initial_bytes)) (\<lambda>initial_state.
     bindE (validate_state_shape C initial_state) (\<lambda>_.
     bindE (validate_pure_genesis initial_state) (\<lambda>_.
     Inr (manifest, h, key,
       \<lparr>sn_committee_hash = h, sn_epoch = nc_epoch config, sn_state_root = state_root C initial_state,
        sn_bytes = initial_bytes\<rparr>)))))))"

text \<open>The part after it: the durable state must be well formed and agree with its wrapper and with the log.\<close>

definition load_durable_state :: "crypto \<Rightarrow> digest \<Rightarrow> u64 \<Rightarrow> wal_store \<Rightarrow> node_error + state" where
  "load_durable_state C h epoch w =
    (let durable = current_snapshot w in
     bindE (map_err NodeWireError (decode_state (sn_bytes durable))) (\<lambda>s.
     bindE (validate_state_shape C s) (\<lambda>_.
     if sn_committee_hash durable \<noteq> h \<or> sn_epoch durable \<noteq> epoch \<or> sn_state_root durable \<noteq> state_root C s
     then Inl (StartError WrapperMismatch)
     else bindE (reconcile_state_with_wal s w) (\<lambda>_. Inr s))))"

definition activate_if_new ::
    "crypto \<Rightarrow> nat option \<Rightarrow> digest \<Rightarrow> u64 \<Rightarrow> snapshot \<Rightarrow> wal_store \<Rightarrow> (node_error + wal_store) \<times> u8 list" where
  "activate_if_new C io h epoch s w =
    (if ws_lifecycle w = Initialized then
       (case activate_store C io (genesis_activation_digest C h epoch (sn_state_root s)) s w of
          (Inl e, w') \<Rightarrow> (Inl (NodeStoreError e), ws_file w')
        | (Inr _, w') \<Rightarrow> (Inr w', ws_file w'))
     else (Inr w, ws_file w))"

definition open_node ::
    "crypto \<Rightarrow> nat option \<Rightarrow> nat option \<Rightarrow> u8 list \<Rightarrow> u8 list \<Rightarrow> node_config \<Rightarrow> (node_error + node_server) \<times> u8 list" where
  "open_node C io io' file content config =
    (case prepare_node C config content of
       Inl e \<Rightarrow> (Inl e, file)
     | Inr (manifest, h, key, initial) \<Rightarrow>
       (case open_store C io file h (nc_epoch config) (Some initial) of
          (Inl e, file1) \<Rightarrow> (Inl (NodeStoreError e), file1)
        | (Inr w, file1) \<Rightarrow>
          (case activate_if_new C io' h (nc_epoch config) initial w of
             (Inl e, file2) \<Rightarrow> (Inl e, file2)
           | (Inr w', file2) \<Rightarrow>
               (bindE (load_durable_state C h (nc_epoch config) w') (\<lambda>s.
                Inr \<lparr>ns_index = nc_index config, ns_byzantine = nc_byzantine config, ns_committee_hash = h,
                     ns_manifest = manifest, ns_signing_key = key, ns_state = s, ns_store = w'\<rparr>), file2))))"

section \<open>Handlers\<close>

definition validate_live_proposal :: "crypto \<Rightarrow> node_server \<Rightarrow> proposal \<Rightarrow> u16 + unit" where
  "validate_live_proposal C n p =
    bindE (map_err (\<lambda>_. REJECT_INVALID_PROPOSAL) (verify_proposal C p (ns_manifest n))) (\<lambda>_.
    if live_cell (ns_state n) (cell_reference (tx_input (pr_tx p))) \<noteq> Some (tx_input (pr_tx p))
    then Inl REJECT_INPUT_NOT_LIVE else Inr ())"

definition durable_vote_rejection :: "node_server \<Rightarrow> digest \<Rightarrow> u64 \<Rightarrow> u8 \<Rightarrow> digest \<Rightarrow> u16 option" where
  "durable_vote_rejection n conflict rnd phase intent =
    (if (case lock_of (ns_store n) conflict of
           Some lock \<Rightarrow> rnd < pl_round lock \<or> intent \<noteq> pl_digest lock | None \<Rightarrow> False)
     then Some REJECT_DURABLE_LOCK
     else if (case vote_digest (ns_store n) conflict rnd phase of
                Some existing \<Rightarrow> existing \<noteq> intent | None \<Rightarrow> False)
     then Some REJECT_DURABLE_VOTE
     else None)"

text \<open>Sign as this node; a failure is the rejection \<open>REJECT_SIGNING\<close>.\<close>

definition sign_as :: "crypto \<Rightarrow> node_server \<Rightarrow> u8 \<Rightarrow> u64 \<Rightarrow> digest \<Rightarrow> digest \<Rightarrow> digest \<Rightarrow> u16 + vote" where
  "sign_as C n phase rnd conflict intent justify =
    map_err (\<lambda>_. REJECT_SIGNING)
      (sign_vote C (ns_manifest n) phase rnd conflict intent justify (ns_index n) (ns_signing_key n))"

text \<open>The durable part of an honest vote, shared by both phases: classify conflicts, then write.\<close>

definition persist_own_vote ::
    "crypto \<Rightarrow> nat option \<Rightarrow> node_server \<Rightarrow> digest \<Rightarrow> u64 \<Rightarrow> u8 \<Rightarrow> digest \<Rightarrow> (u16 + unit) \<times> node_server" where
  "persist_own_vote C io n conflict rnd phase intent =
    (case durable_vote_rejection n conflict rnd phase intent of
       Some code \<Rightarrow> (Inl code, n)
     | None \<Rightarrow>
       (case persist_vote C io conflict rnd phase intent (ns_store n) of
          (res, w) \<Rightarrow> (map_ok (\<lambda>_. ()) (map_err (\<lambda>_. REJECT_VOTE_PERSIST) res), n\<lparr>ns_store := w\<rparr>)))"

definition handle_prevote :: "crypto \<Rightarrow> nat option \<Rightarrow> proposal \<Rightarrow> node_server \<Rightarrow> (u16 + vote) \<times> node_server" where
  "handle_prevote C io p n =
    (let conflict = conflict_key C (cell_reference (tx_input (pr_tx p))) in
     if ns_byzantine n then (sign_as C n PHASE_PREVOTE (pr_round p) conflict (pr_intent p) zero_array, n)
     else case validate_live_proposal C n p of
       Inl code \<Rightarrow> (Inl code, n)
     | Inr _ \<Rightarrow>
       (case persist_own_vote C io n conflict (pr_round p) PHASE_PREVOTE (pr_intent p) of
          (Inl code, n') \<Rightarrow> (Inl code, n')
        | (Inr _, n') \<Rightarrow> (sign_as C n' PHASE_PREVOTE (pr_round p) conflict (pr_intent p) zero_array, n')))"

text \<open>The checks of an honest precommit before anything is written: the digest of the prevote certificate.\<close>

definition check_precommit :: "crypto \<Rightarrow> node_server \<Rightarrow> proposal \<Rightarrow> qc \<Rightarrow> u16 + digest" where
  "check_precommit C n p prevote_qc =
    (let conflict = conflict_key C (cell_reference (tx_input (pr_tx p))) in
     bindE (validate_live_proposal C n p) (\<lambda>_.
     bindE (map_err (\<lambda>_. REJECT_INVALID_PREVOTE_QC)
       (verify_qc C prevote_qc (ns_manifest n) PHASE_PREVOTE (pr_round p) conflict (pr_intent p) None)) (\<lambda>_.
     bindE (map_err (\<lambda>_. REJECT_INVALID_PREVOTE_QC) (qc_digest C prevote_qc (ns_manifest n))) (\<lambda>d.
     if vote_digest (ns_store n) conflict (pr_round p) PHASE_PREVOTE \<noteq> Some (pr_intent p)
     then Inl REJECT_LOCAL_PREVOTE_MISSING else Inr d))))"

definition byzantine_justification :: "crypto \<Rightarrow> node_server \<Rightarrow> qc \<Rightarrow> u16 + digest" where
  "byzantine_justification C n prevote_qc =
    (case qc_digest C prevote_qc (ns_manifest n) of
       Inr d \<Rightarrow> Inr d
     | Inl _ \<Rightarrow> map_err (\<lambda>_. REJECT_SIGNING) (adversarial_qc_digest C prevote_qc))"

definition handle_precommit ::
    "crypto \<Rightarrow> nat option \<Rightarrow> proposal \<Rightarrow> qc \<Rightarrow> node_server \<Rightarrow> (u16 + vote) \<times> node_server" where
  "handle_precommit C io p prevote_qc n =
    (let conflict = conflict_key C (cell_reference (tx_input (pr_tx p))) in
     if ns_byzantine n then
       (bindE (byzantine_justification C n prevote_qc)
          (\<lambda>d. sign_as C n PHASE_PRECOMMIT (pr_round p) conflict (pr_intent p) d), n)
     else case check_precommit C n p prevote_qc of
       Inl code \<Rightarrow> (Inl code, n)
     | Inr d \<Rightarrow>
       (case persist_own_vote C io n conflict (pr_round p) PHASE_PRECOMMIT (pr_intent p) of
          (Inl code, n') \<Rightarrow> (Inl code, n')
        | (Inr _, n') \<Rightarrow> (sign_as C n' PHASE_PRECOMMIT (pr_round p) conflict (pr_intent p) d, n')))"

definition verify_finality_chain :: "crypto \<Rightarrow> node_server \<Rightarrow> tx \<Rightarrow> qc \<Rightarrow> qc \<Rightarrow> u16 + unit" where
  "verify_finality_chain C n tx prevote_qc finality_qc =
    map_err (\<lambda>_. REJECT_INVALID_FINALITY)
     (bindE (intent_hash C tx) (\<lambda>intent.
      let conflict = conflict_key C (cell_reference (tx_input tx)) in
      case qc_votes prevote_qc of [] \<Rightarrow> Inl (QcError EmptyQc) | prevote # _ \<Rightarrow>
      bindE (verify_qc C prevote_qc (ns_manifest n) PHASE_PREVOTE (v_round prevote) conflict intent None) (\<lambda>_.
      bindE (qc_digest C prevote_qc (ns_manifest n)) (\<lambda>prevote_digest.
      verify_qc C finality_qc (ns_manifest n) PHASE_PRECOMMIT (v_round prevote) conflict intent
        (Some prevote_digest)))))"

text \<open>The next state and the snapshot to persist, for a transaction applied for the first time.\<close>

definition next_snapshot :: "crypto \<Rightarrow> node_server \<Rightarrow> state \<Rightarrow> u16 + snapshot" where
  "next_snapshot C n s =
    bindE (map_err (\<lambda>_. REJECT_STATE_APPLY) (validate_state_shape C s)) (\<lambda>_.
    bindE (map_err (\<lambda>_. REJECT_STATE_APPLY) (encode_state s)) (\<lambda>bs.
    Inr \<lparr>sn_committee_hash = ns_committee_hash n, sn_epoch = m_epoch (ns_manifest n),
         sn_state_root = state_root C s, sn_bytes = bs\<rparr>))"

definition handle_apply ::
    "crypto \<Rightarrow> nat option \<Rightarrow> tx \<Rightarrow> user_auth \<Rightarrow> qc \<Rightarrow> qc \<Rightarrow> node_server
      \<Rightarrow> (u16 + digest \<times> bool) \<times> node_server" where
  "handle_apply C io tx auth prevote_qc finality_qc n =
    (case bindE (verify_finality_chain C n tx prevote_qc finality_qc) (\<lambda>_.
        map_err (\<lambda>_. REJECT_INVALID_FINALITY)
          (apply_finalized C (ns_state n) tx auth prevote_qc finality_qc (ns_manifest n))) of
       Inl code \<Rightarrow> (Inl code, n)
     | Inr (AlreadyApplied _, _) \<Rightarrow> (Inr (state_root C (ns_state n), True), n)
     | Inr (Applied receipt, s) \<Rightarrow>
       (case next_snapshot C n s of
          Inl code \<Rightarrow> (Inl code, n)
        | Inr snap \<Rightarrow>
          (case apply_verified C io (rc_intent receipt) (rc_certificate_digest receipt) snap (ns_store n) of
             (Inl _, w) \<Rightarrow> (Inl REJECT_STATE_PERSIST, n\<lparr>ns_store := w\<rparr>)
           | (Inr outcome, w) \<Rightarrow>
               (Inr (state_root C s, outcome = AlreadyPresent), n\<lparr>ns_store := w, ns_state := s\<rparr>))))"

fun handle_request ::
    "crypto \<Rightarrow> nat option \<Rightarrow> request \<Rightarrow> node_server \<Rightarrow> (u16 + response \<times> bool) \<times> node_server" where
  "handle_request C io Ping n = (Inr (Pong (ns_index n) (m_epoch (ns_manifest n)) (ns_committee_hash n), False), n)"
| "handle_request C io (Prevote p) n =
    (case handle_prevote C io p n of (res, n') \<Rightarrow> (map_ok (\<lambda>vote. (VoteResponse vote, False)) res, n'))"
| "handle_request C io (Precommit p prevote_qc) n =
    (case handle_precommit C io p prevote_qc n of (res, n') \<Rightarrow> (map_ok (\<lambda>vote. (VoteResponse vote, False)) res, n'))"
| "handle_request C io (Apply tx auth prevote_qc finality_qc) n =
    (case handle_apply C io tx auth prevote_qc finality_qc n of (res, n') \<Rightarrow>
      (map_ok (\<lambda>(root, idempotent). (AppliedResponse root idempotent, False)) res, n'))"
| "handle_request C io QueryState n =
    (let snapshot_len = length (sn_bytes (current_snapshot (ns_store n))) in
     (if snapshot_len \<ge> 2 ^ 64 then Inl REJECT_QUERY
      else Inr (StateResponse (state_root C (ns_state n)) (of_nat snapshot_len)
             (of_nat (wal_bytes (ns_store n))) (ws_lifecycle (ns_store n)), False), n))"

section \<open>One connection\<close>

text \<open>
  The bytes written back to the peer, whether to shut down, and the server after it.  A
  response that cannot be encoded or written is dropped, as in the code; the socket options
  are not modelled.
\<close>

definition send_response :: "response \<Rightarrow> wire_error + u8 list" where
  "send_response r = bindE (encode_response r) write_frame"

definition sent :: "wire_error + u8 list \<Rightarrow> u8 list" where
  "sent r = (case r of Inl _ \<Rightarrow> [] | Inr bs \<Rightarrow> bs)"

definition serve_connection ::
    "crypto \<Rightarrow> nat option \<Rightarrow> u8 list \<Rightarrow> node_server \<Rightarrow> u8 list \<times> bool \<times> node_server" where
  "serve_connection C io stream n =
    (case read_frame stream of
       Inl _ \<Rightarrow> (sent (send_response (Rejected REJECT_BAD_FRAME)), False, n)
     | Inr (payload, _) \<Rightarrow>
       (case decode_request payload of
          Inl _ \<Rightarrow> (sent (send_response (Rejected REJECT_BAD_REQUEST)), False, n)
        | Inr request \<Rightarrow>
          (case handle_request C io request n of
             (Inl code, n') \<Rightarrow> (sent (send_response (Rejected code)), False, n')
           | (Inr (response, shutdown), n') \<Rightarrow> (sent (send_response response), shutdown, n'))))"

end
