(* ===== verification/NodeSafety.thy ===== *)
theory NodeSafety
  imports Node
begin

text \<open>
  What a validator keeps over any sequence of requests, failed writes and restarts: its
  identity, the invariant of its log, and every vote that left it.
\<close>

section \<open>Requests and the log\<close>

text \<open>What a handler can do to the rest of the server: at most one operation of the store.\<close>

definition same_identity :: "node_server \<Rightarrow> node_server \<Rightarrow> bool" where
  "same_identity n n' \<longleftrightarrow> ns_index n' = ns_index n \<and> ns_byzantine n' = ns_byzantine n \<and>
    ns_committee_hash n' = ns_committee_hash n \<and> ns_manifest n' = ns_manifest n \<and>
    ns_signing_key n' = ns_signing_key n"

lemma persist_own_vote_effect:
  assumes "persist_own_vote C io n c r p d = (res, n')"
  shows "same_identity n n' \<and> ns_state n' = ns_state n \<and>
    (ns_store n' = ns_store n \<or> store_step C (ns_store n) (ns_store n'))"
  using assms
  by (auto simp: persist_own_vote_def same_identity_def split: option.splits prod.splits intro: store_step.vote)

lemma handle_vote_effect:
  shows "handle_prevote C io p n = (res, n') \<Longrightarrow> same_identity n n' \<and> ns_state n' = ns_state n \<and>
      (ns_store n' = ns_store n \<or> store_step C (ns_store n) (ns_store n'))"
    and "handle_precommit C io p q n = (res, n') \<Longrightarrow> same_identity n n' \<and> ns_state n' = ns_state n \<and>
      (ns_store n' = ns_store n \<or> store_step C (ns_store n) (ns_store n'))"
  by (auto simp: handle_prevote_def handle_precommit_def Let_def same_identity_def
      split: if_splits sum.splits prod.splits dest!: persist_own_vote_effect)

lemma handle_apply_effect:
  assumes "handle_apply C io tx auth pq fq n = (res, n')"
  shows "same_identity n n' \<and> (ns_store n' = ns_store n \<or> store_step C (ns_store n) (ns_store n'))"
  using assms
  by (auto simp: handle_apply_def same_identity_def split: sum.splits prod.splits apply_outcome.splits
      intro: store_step.applied)

lemma handle_request_effect:
  assumes "handle_request C io req n = (res, n')"
  shows "same_identity n n' \<and> (ns_store n' = ns_store n \<or> store_step C (ns_store n) (ns_store n'))"
  using assms
  by (cases req) (auto simp: Let_def same_identity_def split: prod.splits
      dest!: handle_vote_effect handle_apply_effect)

section \<open>The committee of a log\<close>

lemma append_then_committee:
  "ws_committee_hash (snd (append_then C io kind payload u w)) = ws_committee_hash w"
  "ws_epoch (snd (append_then C io kind payload u w)) = ws_epoch w"
  by (auto simp: append_then_def wal_append_def Let_def split: prod.splits sum.splits option.splits)

lemma store_step_committee:
  assumes "store_step C w w'" and inv: "store_inv C w"
  shows "ws_committee_hash w' = ws_committee_hash w \<and> ws_epoch w' = ws_epoch w"
proof -
  have ok: "replay_ok (ws_state w)" and ne: "ws_file w \<noteq> []"
    using inv by (simp_all add: store_inv_def)
  have same: ?thesis if "op = (res, w')" "snd op = w \<or> (\<exists>io kind payload u. op = append_then C io kind payload u w)" for op :: "(store_error + persist_outcome) \<times> wal_store" and res
    using that append_then_committee by (metis snd_conv)
  from assms(1) show ?thesis
  proof (rule store_stepE)
    show ?thesis if "activate_store C io handoff s w = (res, w')" for io handoff s res
      using that by (rule same) (rule activate_legal [OF ok, of C io handoff s]; blast)
    show ?thesis if "persist_vote C io c r p d w = (res, w')" for io c r p d res
      using that by (rule same) (rule vote_legal [of C io c r p d w]; blast)
    show ?thesis if "apply_verified C io t cd s w = (res, w')" for io t cd s res
      using that by (rule same) (rule apply_legal [of C io t cd s w]; blast)
    show ?thesis if "retire_store C io h nc ne root w = (res, w')" for io h nc ne root res
      using that by (rule same) (rule retire_legal [of C io h nc ne root w]; blast)
    show ?thesis if "open_store C io (ws_file w) (ws_committee_hash w) (ws_epoch w) genesis = (Inr w', file')"
      for io genesis file'
      using open_existing(1) [OF that ne] by (metis wal_store.select_convs(2,3))
  qed
qed

section \<open>The invariant of a validator\<close>

definition node_inv :: "crypto \<Rightarrow> node_config \<Rightarrow> node_server \<Rightarrow> bool" where
  "node_inv C config n \<longleftrightarrow>
    ns_index n = nc_index config \<and> ns_byzantine n = nc_byzantine config \<and>
    ns_manifest n = lab_committee C (nc_epoch config) \<and>
    committee_hash C (ns_manifest n) = Inr (ns_committee_hash n) \<and>
    ns_signing_key n = lab_validator_key C (nc_epoch config) (unat (nc_index config)) \<and>
    store_inv C (ns_store n) \<and> ws_committee_hash (ns_store n) = ns_committee_hash n \<and>
    ws_epoch (ns_store n) = nc_epoch config \<and> rs_lifecycle (ws_state (ns_store n)) \<noteq> Initialized"

text \<open>A request with any outcome of its writes, or a restart of the process on its log.\<close>

inductive node_step :: "crypto \<Rightarrow> node_config \<Rightarrow> node_server \<Rightarrow> node_server \<Rightarrow> bool"
  for C :: crypto and config :: node_config where
  request: "handle_request C io req n = (res, n') \<Longrightarrow> node_step C config n n'"
| restart: "open_node C io io' (ws_file (ns_store n)) content config = (Inr n', file') \<Longrightarrow> node_step C config n n'"

inductive_cases node_stepE: "node_step C config n n'"

abbreviation node_run :: "crypto \<Rightarrow> node_config \<Rightarrow> node_server \<Rightarrow> node_server \<Rightarrow> bool" where
  "node_run C config \<equiv> (node_step C config)\<^sup>*\<^sup>*"

lemma prepare_nodeD:
  assumes "prepare_node C config content = Inr (manifest, h, key, initial)"
  shows "manifest = lab_committee C (nc_epoch config)" "committee_hash C manifest = Inr h"
    "key = lab_validator_key C (nc_epoch config) (unat (nc_index config))"
    "sn_committee_hash initial = h" "sn_epoch initial = nc_epoch config"
  using assms by (auto simp: prepare_node_def Let_def split: if_splits)

lemma open_nodeD:
  assumes "open_node C io io' file content config = (Inr n, file')"
  obtains initial w file1 where
    "prepare_node C config content = Inr (ns_manifest n, ns_committee_hash n, ns_signing_key n, initial)"
    "open_store C io file (ns_committee_hash n) (nc_epoch config) (Some initial) = (Inr w, file1)"
    "activate_if_new C io' (ns_committee_hash n) (nc_epoch config) initial w = (Inr (ns_store n), file')"
    "load_durable_state C (ns_committee_hash n) (nc_epoch config) (ns_store n) = Inr (ns_state n)"
    "ns_index n = nc_index config" "ns_byzantine n = nc_byzantine config"
  using assms by (auto simp: open_node_def split: sum.splits prod.splits)

lemma open_store_committee:
  assumes "open_store C io file cm ep genesis = (Inr w, file')"
  shows "ws_committee_hash w = cm" "ws_epoch w = ep" "ws_file w = file'"
  using assms by (auto simp: open_store_def split: if_splits option.splits sum.splits prod.splits)

lemma activate_okD:
  assumes "activate_store C io handoff s w = (Inr res, w')"
  shows "rs_lifecycle (ws_state w') = Active"
  using assms
  by (auto simp: activate_store_def append_then_def wal_append_def Let_def ws_lifecycle_def
      split: sum.splits prod.splits option.splits lifecycle.splits if_splits)

lemma activate_if_new_effect:
  assumes "activate_if_new C io h ep s w = (Inr w', file')"
  shows "(w' = w \<or> store_step C w w') \<and> rs_lifecycle (ws_state w') \<noteq> Initialized"
proof (cases "rs_lifecycle (ws_state w) = Initialized")
  case True
  then obtain res where "activate_store C io (genesis_activation_digest C h ep (sn_state_root s)) s w = (Inr res, w')"
    using assms by (auto simp: activate_if_new_def ws_lifecycle_def split: prod.splits sum.splits)
  then show ?thesis
    using activate_okD store_step.activate by fastforce
next
  case False
  then show ?thesis
    using assms by (auto simp: activate_if_new_def ws_lifecycle_def)
qed

lemma open_node_inv:
  assumes "open_node C io io' file content config = (Inr n, file')"
  shows "node_inv C config n"
  using assms
proof (rule open_nodeD)
  fix initial w file1
  assume *: "prepare_node C config content = Inr (ns_manifest n, ns_committee_hash n, ns_signing_key n, initial)"
    "open_store C io file (ns_committee_hash n) (nc_epoch config) (Some initial) = (Inr w, file1)"
    "activate_if_new C io' (ns_committee_hash n) (nc_epoch config) initial w = (Inr (ns_store n), file')"
    "ns_index n = nc_index config" "ns_byzantine n = nc_byzantine config"
  have inv: "store_inv C w"
    using *(2) by (rule open_inv)
  have "store_inv C (ns_store n) \<and> ws_committee_hash (ns_store n) = ws_committee_hash w \<and>
      ws_epoch (ns_store n) = ws_epoch w \<and> rs_lifecycle (ws_state (ns_store n)) \<noteq> Initialized"
    using activate_if_new_effect [OF *(3)] inv store_step_inv store_step_committee by metis
  then show ?thesis
    using prepare_nodeD [OF *(1)] open_store_committee [OF *(2)] *(4,5) by (simp add: node_inv_def)
qed

text \<open>A restart reads the log and writes nothing.\<close>

lemma restart_store:
  assumes inv: "node_inv C config n"
    and op: "open_node C io io' (ws_file (ns_store n)) content config = (Inr n', file')"
  shows "store_step C (ns_store n) (ns_store n') \<and> file' = ws_file (ns_store n) \<and>
    replayed C (ns_store n) = Inr (ws_state (ns_store n'))"
  using op
proof (rule open_nodeD)
  fix initial w file1
  assume *: "prepare_node C config content = Inr (ns_manifest n', ns_committee_hash n', ns_signing_key n', initial)"
    "open_store C io (ws_file (ns_store n)) (ns_committee_hash n') (nc_epoch config) (Some initial) = (Inr w, file1)"
    "activate_if_new C io' (ns_committee_hash n') (nc_epoch config) initial w = (Inr (ns_store n'), file')"
  have sinv: "store_inv C (ns_store n)" and life: "rs_lifecycle (ws_state (ns_store n)) \<noteq> Initialized"
    using inv by (simp_all add: node_inv_def)
  have "ns_committee_hash n' = ns_committee_hash n"
    using prepare_nodeD(1,2) [OF *(1)] inv by (auto simp: node_inv_def)
  then have open': "open_store C io (ws_file (ns_store n)) (ws_committee_hash (ns_store n)) (ws_epoch (ns_store n)) (Some initial)
      = (Inr w, file1)"
    using *(2) inv by (simp add: node_inv_def)
  then have step: "store_step C (ns_store n) w"
    by (rule store_step.restart)
  then have "extends (ws_state (ns_store n)) (ws_state w)"
    using store_step_inv sinv by blast
  then have "rs_lifecycle (ws_state w) \<noteq> Initialized"
    using life unfolding extends_def by (cases "rs_lifecycle (ws_state (ns_store n))") auto
  then have "ns_store n' = w" "file' = ws_file w"
    using *(3) by (auto simp: activate_if_new_def ws_lifecycle_def)
  moreover have "file1 = ws_file (ns_store n)"
    using open' sinv by (auto simp: open_store_def store_inv_def)
  moreover have "replayed C (ns_store n) = Inr (ws_state w)"
    using open_existing(2) [OF open'] sinv by (simp add: replayed_def store_inv_def)
  ultimately show ?thesis
    using step open_store_committee(3) [OF *(2)] by simp
qed

lemma node_step_store:
  assumes "node_step C config n n'" and "node_inv C config n"
  shows "ns_store n' = ns_store n \<or> store_step C (ns_store n) (ns_store n')"
  using assms(1)
  by (rule node_stepE) (use handle_request_effect restart_store [OF assms(2)] in blast)+

lemma node_step_inv:
  assumes "node_step C config n n'" and "node_inv C config n"
  shows "node_inv C config n'"
  using assms(1)
proof (rule node_stepE)
  fix io req res assume h: "handle_request C io req n = (res, n')"
  have sinv: "store_inv C (ns_store n)"
    using assms(2) by (simp add: node_inv_def)
  from handle_request_effect [OF h] consider "ns_store n' = ns_store n" | "store_step C (ns_store n) (ns_store n')"
    by blast
  then have "store_inv C (ns_store n') \<and> ws_committee_hash (ns_store n') = ws_committee_hash (ns_store n) \<and>
      ws_epoch (ns_store n') = ws_epoch (ns_store n) \<and> extends (ws_state (ns_store n)) (ws_state (ns_store n'))"
    by cases (use sinv store_step_inv store_step_committee in auto)
  moreover from this have "rs_lifecycle (ws_state (ns_store n')) \<noteq> Initialized"
    using assms(2) unfolding node_inv_def extends_def by (cases "rs_lifecycle (ws_state (ns_store n))") auto
  ultimately show ?thesis
    using assms(2) handle_request_effect [OF h] by (auto simp: node_inv_def same_identity_def)
qed (rule open_node_inv)

interpretation node_locks: permanent_register "node_inv C config" "node_step C config" "\<lambda>n. locked_digest (ns_store n)"
  for C config
proof
  show "node_inv C config n'" if "node_inv C config n" "node_step C config n n'" for n n'
    using that node_step_inv by blast
  show "locked_digest (ns_store n') k = Some v"
    if "node_inv C config n" "node_step C config n n'" "locked_digest (ns_store n) k = Some v" for n n' k v
    using node_step_store [OF that(2,1)] lock_register.locked_step that(1,3) by (metis node_inv_def)
qed

interpretation node_votes: permanent_register "node_inv C config" "node_step C config" "\<lambda>n. voted (ns_store n)"
  for C config
proof
  show "node_inv C config n'" if "node_inv C config n" "node_step C config n n'" for n n'
    using that node_step_inv by blast
  show "voted (ns_store n') k = Some v"
    if "node_inv C config n" "node_step C config n n'" "voted (ns_store n) k = Some v" for n n' k v
    using node_step_store [OF that(2,1)] vote_register.locked_step that(1,3) by (metis node_inv_def)
qed

section \<open>A vote leaves an honest validator only after it is durable\<close>

lemma sign_as_fields:
  assumes "sign_as C n phase rnd c x j = Inr v"
  shows "v_phase v = phase" "v_round v = rnd" "v_conflict_key v = c" "v_intent v = x" "v_justify v = j"
    "v_signer_index v = ns_index n"
  using assms sign_vote_fields by (simp_all add: sign_as_def)

lemma persist_own_vote_okD:
  assumes "persist_own_vote C io n c r p d = (Inr u, n')"
  obtains res where "persist_vote C io c r p d (ns_store n) = (Inr res, ns_store n')"
    "durable_vote_rejection n c r p d = None"
  using assms by (auto simp: persist_own_vote_def split: option.splits prod.splits)

text \<open>The key under which a vote is stored.\<close>

definition key_of :: "vote \<Rightarrow> vote_key" where
  "key_of v = \<lparr>vk_conflict_key = v_conflict_key v, vk_round = v_round v, vk_phase = v_phase v\<rparr>"

lemma vote_response_durable:
  assumes "handle_request C io req n = (Inr (VoteResponse v, sd), n')" and "node_inv C config n"
  shows "v_signer_index v = nc_index config"
    and "\<not> nc_byzantine config \<Longrightarrow> voted (ns_store n') (key_of v) = Some (v_intent v)"
    and "\<not> nc_byzantine config \<Longrightarrow> v_phase v = PHASE_PRECOMMIT \<Longrightarrow>
      locked_digest (ns_store n') (v_conflict_key v) = Some (v_intent v)"
proof -
  have inv: "store_inv C (ns_store n)" "ns_index n = nc_index config" "ns_byzantine n = nc_byzantine config"
    using assms(2) by (simp_all add: node_inv_def)
  note rec = persist_vote_records [OF _ inv(1)]
  have main: "v_signer_index v = nc_index config \<and> (\<not> nc_byzantine config \<longrightarrow>
      voted (ns_store n') (key_of v) = Some (v_intent v) \<and>
      (v_phase v = PHASE_PRECOMMIT \<longrightarrow> locked_digest (ns_store n') (v_conflict_key v) = Some (v_intent v)))"
  proof (cases req)
    case (Prevote p)
    then have h: "handle_prevote C io p n = (Inr v, n')"
      using assms(1) by (auto split: prod.splits)
    show ?thesis
    proof (cases "nc_byzantine config")
      case True
      then show ?thesis
        using h inv by (auto simp: handle_prevote_def Let_def dest!: sign_as_fields(6))
    next
      case False
      then obtain u where own: "persist_own_vote C io n (conflict_key C (cell_reference (tx_input (pr_tx p)))) (pr_round p)
          PHASE_PREVOTE (pr_intent p) = (Inr u, n')"
        and s: "sign_as C n' PHASE_PREVOTE (pr_round p) (conflict_key C (cell_reference (tx_input (pr_tx p)))) (pr_intent p) zero_array = Inr v"
        using h inv by (auto simp: handle_prevote_def Let_def split: sum.splits prod.splits)
      have "ns_index n' = nc_index config"
        using persist_own_vote_effect [OF own] inv by (simp add: same_identity_def)
      then show ?thesis
        using persist_own_vote_okD [OF own] rec sign_as_fields [OF s] by (metis key_of_def)
    qed
  next
    case (Precommit p q)
    then have h: "handle_precommit C io p q n = (Inr v, n')"
      using assms(1) by (auto split: prod.splits)
    show ?thesis
    proof (cases "nc_byzantine config")
      case True
      then show ?thesis
        using h inv by (auto simp: handle_precommit_def Let_def dest!: sign_as_fields(6))
    next
      case False
      then obtain u d where own: "persist_own_vote C io n (conflict_key C (cell_reference (tx_input (pr_tx p)))) (pr_round p)
          PHASE_PRECOMMIT (pr_intent p) = (Inr u, n')"
        and s: "sign_as C n' PHASE_PRECOMMIT (pr_round p) (conflict_key C (cell_reference (tx_input (pr_tx p)))) (pr_intent p) d = Inr v"
        using h inv by (auto simp: handle_precommit_def Let_def split: sum.splits prod.splits)
      have "ns_index n' = nc_index config"
        using persist_own_vote_effect [OF own] inv by (simp add: same_identity_def)
      then show ?thesis
        using persist_own_vote_okD [OF own] rec sign_as_fields [OF s] by (metis key_of_def)
    qed
  qed (use assms(1) in \<open>auto simp: Let_def split: prod.splits if_splits\<close>)
  then show "v_signer_index v = nc_index config"
    and "\<not> nc_byzantine config \<Longrightarrow> voted (ns_store n') (key_of v) = Some (v_intent v)"
    and "\<not> nc_byzantine config \<Longrightarrow> v_phase v = PHASE_PRECOMMIT \<Longrightarrow>
      locked_digest (ns_store n') (v_conflict_key v) = Some (v_intent v)"
    by simp_all
qed

section \<open>The state of a validator is a ledger state of constant value\<close>

text \<open>A durable snapshot of value \<open>v\<close>: its bytes decode to a valid state with that live value.\<close>

definition snapshot_worth :: "crypto \<Rightarrow> nat \<Rightarrow> snapshot \<Rightarrow> bool" where
  "snapshot_worth C v s \<longleftrightarrow> (\<exists>st. decode_state (sn_bytes s) = Inr st \<and> state_ok C st \<and> live_value st = v)"

definition node_worth :: "crypto \<Rightarrow> nat \<Rightarrow> node_server \<Rightarrow> bool" where
  "node_worth C v n \<longleftrightarrow> state_ok C (ns_state n) \<and> live_value (ns_state n) = v \<and>
    (\<forall>st. replayed C (ns_store n) = Inr st \<longrightarrow> snapshot_worth C v (rs_current_snapshot st))"

lemma append_then_replayed:
  assumes inv: "store_inv C w" and legal: "legal_append w kind payload update"
    and app: "append_then C io kind payload update w = (res, w')"
    and rep: "replayed C w' = Inr st"
  shows "replayed C w = Inr (ws_state w)"
    and "rs_current_snapshot st = rs_current_snapshot (ws_state w) \<or>
      rs_current_snapshot st = rs_current_snapshot (update (ws_state w))"
proof -
  let ?st = "ws_state w" and ?cm = "ws_committee_hash w" and ?ep = "ws_epoch w"
  let ?rec = "record_bytes C (rs_next_sequence (ws_state w)) kind payload"
  have l: "kind \<noteq> KIND_INITIALIZE" "length payload \<le> MAX_PAYLOAD_BYTES" "\<not> ws_poisoned w"
    "replay_record ?st kind payload ?cm ?ep = Inr (update ?st)"
    "update (?st\<lparr>rs_next_sequence := n\<rparr>) = (update ?st)\<lparr>rs_next_sequence := n\<rparr>" for n
    using legal by (simp_all add: legal_append_def)
  have "\<exists>k. ws_file w' = ws_file w @ take k ?rec" and same: "ws_committee_hash w' = ?cm" "ws_epoch w' = ?ep"
    using app l(2) by (cases rule: append_then_cases; auto intro: exI [of _ "length ?rec"])+
  then obtain k where k: "ws_file w' = ws_file w @ take k ?rec"
    by blast
  have rep': "replay_wal C (ws_file w @ take k ?rec) ?cm ?ep = Inr st"
    using rep by (simp add: replayed_def k same)
  then show now: "replayed C w = Inr ?st"
    using inv l(3) replay_wal_overflow [of C "ws_file w" ?cm ?ep "take k ?rec"]
    by (auto simp: store_inv_def replayed_def)
  note now = now [unfolded replayed_def]
  show "rs_current_snapshot st = rs_current_snapshot ?st \<or> rs_current_snapshot st = rs_current_snapshot (update ?st)"
    using rep' now replay_wal_append [OF now l(2,1,4)] replay_wal_torn [OF now l(2), of k kind]
    by (cases "k = 0"; cases "k < length ?rec") (auto split: option.splits)
qed

lemma persist_vote_worth:
  assumes "persist_vote C io c r p d w = (res, w')" and "store_inv C w"
    and "\<forall>st. replayed C w = Inr st \<longrightarrow> P (rs_current_snapshot st)" and "replayed C w' = Inr st"
  shows "P (rs_current_snapshot st)"
proof (rule vote_legal [of C io c r p d w])
  assume "snd (persist_vote C io c r p d w) = w"
  then show ?thesis
    using assms by auto
next
  assume *: "persist_vote C io c r p d w = append_then C io KIND_VOTE (vote_payload c r p d) (insert_vote c r p d) w"
    "legal_append w KIND_VOTE (vote_payload c r p d) (insert_vote c r p d)"
  then have "append_then C io KIND_VOTE (vote_payload c r p d) (insert_vote c r p d) w = (res, w')"
    using assms(1) by simp
  from append_then_replayed [OF assms(2) *(2) this assms(4)] show ?thesis
    using assms(3) by auto
qed

lemma apply_verified_worth:
  assumes "apply_verified C io t cd s w = (res, w')" and "store_inv C w"
    and "\<forall>st. replayed C w = Inr st \<longrightarrow> P (rs_current_snapshot st)" and "P s" and "replayed C w' = Inr st"
  shows "P (rs_current_snapshot st)"
proof (rule apply_legal [of C io t cd s w])
  assume "snd (apply_verified C io t cd s w) = w"
  then show ?thesis
    using assms by auto
next
  fix payload update
  assume *: "apply_verified C io t cd s w = append_then C io KIND_APPLY payload update w"
    "legal_append w KIND_APPLY payload update" "rs_current_snapshot (update (ws_state w)) = s"
  then have "append_then C io KIND_APPLY payload update w = (res, w')"
    using assms(1) by simp
  from append_then_replayed [OF assms(2) *(2) this assms(5)] show ?thesis
    using assms(3,4) *(3) by auto
qed

lemma next_snapshot_worth:
  assumes "next_snapshot C n s = Inr snap" and "state_ok C s" and "live_value s = v"
  shows "snapshot_worth C v snap"
proof -
  have "encode_state s = Inr (sn_bytes snap)"
    using assms(1) by (auto simp: next_snapshot_def)
  then have "decode_state (sn_bytes snap) = Inr s"
    using state_reader.decode_encode by (simp add: wire_defs)
  then show ?thesis
    using assms(2,3) by (simp add: snapshot_worth_def)
qed

lemma persist_own_vote_worth:
  assumes "persist_own_vote C io n c r p d = (res, n')" and "store_inv C (ns_store n)" and "node_worth C v n"
  shows "node_worth C v n'"
  using assms(1)
proof (cases "durable_vote_rejection n c r p d")
  case None
  then obtain res' where pv: "persist_vote C io c r p d (ns_store n) = (res', ns_store n')" and "ns_state n' = ns_state n"
    using assms(1) by (auto simp: persist_own_vote_def split: prod.splits)
  moreover have "snapshot_worth C v (rs_current_snapshot st)" if "replayed C (ns_store n') = Inr st" for st
    by (rule persist_vote_worth [where P = "snapshot_worth C v", OF pv assms(2) _ that]) (use assms(3) in \<open>simp add: node_worth_def\<close>)
  ultimately show ?thesis
    using assms(3) by (simp add: node_worth_def)
qed (use assms in \<open>simp add: persist_own_vote_def\<close>)

lemma handle_apply_worth:
  assumes "handle_apply C io tx auth pq fq n = (res, n')" and "store_inv C (ns_store n)" and "node_worth C v n"
  shows "node_worth C v n'"
proof (cases "n' = n")
  case True
  with assms show ?thesis by simp
next
  case False
  have worth: "state_ok C (ns_state n)" "live_value (ns_state n) = v"
    "\<forall>st. replayed C (ns_store n) = Inr st \<longrightarrow> snapshot_worth C v (rs_current_snapshot st)"
    using assms(3) by (simp_all add: node_worth_def)
  from False obtain rc s snap res' where
    ap: "apply_finalized C (ns_state n) tx auth pq fq (ns_manifest n) = Inr (Applied rc, s)"
    and snap: "next_snapshot C n s = Inr snap"
    and av: "apply_verified C io (rc_intent rc) (rc_certificate_digest rc) snap (ns_store n) = (res', ns_store n')"
    and st: "ns_state n' = s \<or> ns_state n' = ns_state n"
    using assms(1) unfolding handle_apply_def
    by (auto split: sum.splits prod.splits apply_outcome.splits)
  have s: "state_ok C s" "live_value s = v"
    using apply_preserves_ok [OF ap worth(1)] apply_conserves_value [OF ap worth(1)] worth(2) by simp_all
  have "snapshot_worth C v (rs_current_snapshot st)" if "replayed C (ns_store n') = Inr st" for st
    by (rule apply_verified_worth [where P = "snapshot_worth C v", OF av assms(2) _ next_snapshot_worth [OF snap s] that]) (use worth in simp)
  then show ?thesis
    using s worth st by (auto simp: node_worth_def)
qed

lemma handle_request_worth:
  assumes "handle_request C io req n = (res, n')" and "store_inv C (ns_store n)" and "node_worth C v n"
  shows "node_worth C v n'"
proof (cases req)
  case (Prevote p)
  then obtain r where h: "handle_prevote C io p n = (r, n')"
    using assms(1) by (auto split: prod.splits)
  then consider "n' = n" | c rd ph x r' where "persist_own_vote C io n c rd ph x = (r', n')"
    unfolding handle_prevote_def Let_def by (auto split: if_splits sum.splits prod.splits)
  then show ?thesis
    using assms persist_own_vote_worth by cases auto
next
  case (Precommit p q)
  then obtain r where h: "handle_precommit C io p q n = (r, n')"
    using assms(1) by (auto split: prod.splits)
  then consider "n' = n" | c rd ph x r' where "persist_own_vote C io n c rd ph x = (r', n')"
    unfolding handle_precommit_def Let_def by (auto split: if_splits sum.splits prod.splits)
  then show ?thesis
    using assms persist_own_vote_worth by cases auto
next
  case (Apply tx auth pq fq)
  then obtain r where "handle_apply C io tx auth pq fq n = (r, n')"
    using assms(1) by (auto split: prod.splits)
  then show ?thesis
    using handle_apply_worth assms by blast
qed (use assms in \<open>auto simp: Let_def\<close>)

lemma load_durable_stateD:
  assumes "load_durable_state C h ep w = Inr s"
  shows "decode_state (sn_bytes (current_snapshot w)) = Inr s" "state_ok C s"
    "sn_state_root (current_snapshot w) = state_root C s"
  using assms
  by (auto simp: load_durable_state_def Let_def validate_state_shape_def validate_state_iff split: if_splits)

lemma append_then_ok_healthy: "append_then C io kind payload u w = (Inr res, w') \<Longrightarrow> ws_poisoned w' = ws_poisoned w"
  by (auto simp: append_then_def wal_append_def Let_def split: prod.splits sum.splits option.splits)

lemma activate_ok_healthy:
  assumes "activate_store C io handoff s w = (Inr res, w')"
  shows "ws_poisoned w' = ws_poisoned w"
  using assms unfolding activate_store_def
  by (auto split: sum.splits if_splits lifecycle.splits option.splits dest: append_then_ok_healthy)

lemma open_node_loaded:
  assumes "open_node C io io' file content config = (Inr n, file')"
  shows "decode_state (sn_bytes (rs_current_snapshot (ws_state (ns_store n)))) = Inr (ns_state n)"
    and "state_ok C (ns_state n)" and "\<not> ws_poisoned (ns_store n)"
  using assms
proof (atomize (full), rule open_nodeD)
  fix initial w file1
  assume *: "open_store C io file (ns_committee_hash n) (nc_epoch config) (Some initial) = (Inr w, file1)"
    "activate_if_new C io' (ns_committee_hash n) (nc_epoch config) initial w = (Inr (ns_store n), file')"
    "load_durable_state C (ns_committee_hash n) (nc_epoch config) (ns_store n) = Inr (ns_state n)"
  have "\<not> ws_poisoned w"
    using *(1) by (auto simp: open_store_def split: if_splits option.splits sum.splits prod.splits)
  then have "\<not> ws_poisoned (ns_store n)"
    using *(2) activate_ok_healthy
    by (auto simp: activate_if_new_def split: if_splits prod.splits sum.splits)
  then show "decode_state (sn_bytes (rs_current_snapshot (ws_state (ns_store n)))) = Inr (ns_state n) \<and>
      state_ok C (ns_state n) \<and> \<not> ws_poisoned (ns_store n)"
    using load_durable_stateD [OF *(3)] by (simp add: current_snapshot_def)
qed

lemma open_node_worth:
  assumes "open_node C io io' file content config = (Inr n, file')"
  shows "node_worth C (live_value (ns_state n)) n"
proof -
  have "store_inv C (ns_store n)"
    using open_node_inv [OF assms] by (simp add: node_inv_def)
  then have "replayed C (ns_store n) = Inr st \<Longrightarrow> st = ws_state (ns_store n)" for st
    using open_node_loaded(3) [OF assms] by (auto simp: store_inv_def)
  then show ?thesis
    using open_node_loaded [OF assms] by (auto simp: node_worth_def snapshot_worth_def)
qed

lemma node_step_worth:
  assumes "node_step C config n n'" and "node_inv C config n" and "node_worth C v n"
  shows "node_worth C v n'"
  using assms(1)
proof (rule node_stepE)
  show ?thesis if "handle_request C io req n = (res, n')" for io req res
    using handle_request_worth [OF that] assms(2,3) by (simp add: node_inv_def)
next
  fix io io' content file' assume op: "open_node C io io' (ws_file (ns_store n)) content config = (Inr n', file')"
  have rep: "replayed C (ns_store n) = Inr (ws_state (ns_store n'))"
    using restart_store [OF assms(2) op] by simp
  then have "snapshot_worth C v (rs_current_snapshot (ws_state (ns_store n')))"
    using assms(3) by (simp add: node_worth_def)
  then have "live_value (ns_state n') = v"
    using open_node_loaded(1) [OF op] by (auto simp: snapshot_worth_def)
  then show ?thesis
    using open_node_worth [OF op] by simp
qed

lemma node_run_worth:
  "node_run C config n n' \<Longrightarrow> node_inv C config n \<Longrightarrow> node_worth C v n \<Longrightarrow> node_inv C config n' \<and> node_worth C v n'"
  by (induction rule: rtranclp_induct) (auto dest: node_step_inv node_step_worth)

section \<open>The marker of a faulty validator does not reach the state\<close>

lemma byzantine_update_simps [simp]:
  "verify_finality_chain C (n\<lparr>ns_byzantine := b\<rparr>) tx pq fq = verify_finality_chain C n tx pq fq"
  "next_snapshot C (n\<lparr>ns_byzantine := b\<rparr>) s = next_snapshot C n s"
  by (simp_all add: verify_finality_chain_def next_snapshot_def cong: list.case_cong)

lemma apply_ignores_byzantine:
  "handle_apply C io tx auth pq fq (n\<lparr>ns_byzantine := b\<rparr>) =
    (case handle_apply C io tx auth pq fq n of (res, n') \<Rightarrow> (res, n'\<lparr>ns_byzantine := b\<rparr>))"
  by (simp add: handle_apply_def split: sum.split prod.split apply_outcome.split)

end
