(* ===== verification/Fixture.thy ===== *)
theory Fixture
  imports Ledger
begin

text \<open>
  The controller's fixtures and offline checks (\<open>integration001/src/main.rs\<close>): the genesis and
  the transfers of a run, the negative matrices, the exhaustive model of conflicting votes, the
  shuffled schedules and the application of finalized transfers in a given order.  Arithmetic
  on fields wraps, as it does in the release build the repository configures; an index out of
  range is a panic and an error value here.
\<close>

datatype fixture_error =
    FixtureModelError model_error
  | Panicked
  | MutationSurvived string
  | NegativeAccepted string
  | DualQuorum u8 u8 u8
  | WrongCaseCount u64
  | ObservedMismatch
  | ObservedDuplicate
  | EmptyFinalityQc
  | InvalidTransferIndex nat
  | RepeatedTransfer nat

definition LAB_SEED :: u64 where "LAB_SEED = 0xc411b2e520260001"
definition ALICE_KEY_LABEL :: u64 where "ALICE_KEY_LABEL = 1"
definition BOB_KEY_LABEL :: u64 where "BOB_KEY_LABEL = 2"
definition CHARLIE_KEY_LABEL :: u64 where "CHARLIE_KEY_LABEL = 3"
definition MALLORY_KEY_LABEL :: u64 where "MALLORY_KEY_LABEL = 4"
definition BENCH_OWNER_KEY_LABEL :: u64 where "BENCH_OWNER_KEY_LABEL = 10"

record lab_fixture =
  fx_manifest :: committee_manifest
  fx_genesis :: state
  fx_alice :: signing_key
  fx_bob :: public_key
  fx_charlie :: public_key
  fx_mallory :: signing_key
  fx_bench_owner :: signing_key
  fx_main_input :: cell
  fx_negative_inputs :: "cell list"
  fx_bench_inputs :: "cell list"

record finalized_transfer =
  ft_tx :: tx
  ft_auth :: user_auth
  ft_prevote_qc :: qc
  ft_qc :: qc

definition labelled_digest :: "crypto \<Rightarrow> string \<Rightarrow> u64 \<Rightarrow> digest" where
  "labelled_digest C domain label = blake3 C (ascii domain @ to_le64 label)"

definition hex_nibble :: "u8 \<Rightarrow> char" where
  "hex_nibble b = (''0123456789abcdef'' ! unat b)"

definition hex_prefix :: "u8 list \<Rightarrow> nat \<Rightarrow> string" where
  "hex_prefix bs n = concat (map (\<lambda>b. [hex_nibble (b div 16), hex_nibble (b mod 16)]) (take n bs))"

section \<open>Genesis and transfers\<close>

definition build_fixture :: "crypto \<Rightarrow> nat \<Rightarrow> model_error + lab_fixture" where
  "build_fixture C bench_count =
    (let alice = lab_user_key C ALICE_KEY_LABEL;
         bench_owner = lab_user_key C BENCH_OWNER_KEY_LABEL;
         main_input = make_genesis_cell C 1 100 (public_of C alice);
         negative_inputs = map (\<lambda>index. make_genesis_cell C (10 + of_nat index) 100 (public_of C alice)) [0..<3];
         bench_inputs = map (\<lambda>index. make_genesis_cell C (1000 + of_nat index) 10 (public_of C bench_owner)) [0..<bench_count]
     in bindE (from_cells C (main_input # negative_inputs @ bench_inputs)) (\<lambda>genesis.
     Inr \<lparr>fx_manifest = lab_committee C OLD_EPOCH, fx_genesis = genesis, fx_alice = alice,
          fx_bob = public_of C (lab_user_key C BOB_KEY_LABEL),
          fx_charlie = public_of C (lab_user_key C CHARLIE_KEY_LABEL),
          fx_mallory = lab_user_key C MALLORY_KEY_LABEL, fx_bench_owner = bench_owner,
          fx_main_input = main_input, fx_negative_inputs = negative_inputs, fx_bench_inputs = bench_inputs\<rparr>))"

definition make_single_recipient_transfer ::
    "crypto \<Rightarrow> committee_manifest \<Rightarrow> cell \<Rightarrow> public_key \<Rightarrow> u64 \<Rightarrow> u64 \<Rightarrow> u64 \<Rightarrow> model_error + tx" where
  "make_single_recipient_transfer C manifest input recipient amount fee salt_label =
    make_transfer C manifest input
      [\<lparr>out_asset_id = ASSET_CALIBRE, out_amount = amount, out_owner = recipient\<rparr>] fee
      (labelled_digest C ''CALIBRE_INTEGRATION001_LAB_SALT_V1'' salt_label)"

definition make_main_transfer :: "crypto \<Rightarrow> lab_fixture \<Rightarrow> public_key \<Rightarrow> u64 \<Rightarrow> model_error + tx \<times> user_auth" where
  "make_main_transfer C fixture recipient salt_label =
    (let asset = cr_asset_id (cell_reference (fx_main_input fixture)) in
     bindE (make_transfer C (fx_manifest fixture) (fx_main_input fixture)
       [\<lparr>out_asset_id = asset, out_amount = 60, out_owner = recipient\<rparr>,
        \<lparr>out_asset_id = asset, out_amount = 39, out_owner = public_of C (fx_alice fixture)\<rparr>] 1
       (labelled_digest C ''CALIBRE_INTEGRATION001_MAIN_SALT_V1'' salt_label)) (\<lambda>tx.
     bindE (sign_user C tx (fx_alice fixture)) (\<lambda>auth. Inr (tx, auth))))"

definition make_bench_transfers :: "crypto \<Rightarrow> lab_fixture \<Rightarrow> model_error + (tx \<times> user_auth) list" where
  "make_bench_transfers C fixture =
    mapE (\<lambda>(index, input).
      bindE (make_single_recipient_transfer C (fx_manifest fixture) input
        (public_of C (lab_user_key C (1000 + of_nat index))) 9 1 (20000 + of_nat index)) (\<lambda>tx.
      bindE (sign_user C tx (fx_bench_owner fixture)) (\<lambda>auth. Inr (tx, auth))))
    (List.enumerate 0 (fx_bench_inputs fixture))"

text \<open>Certificates signed with the laboratory keys of the given validators.\<close>

definition fixture_finality_chain ::
    "crypto \<Rightarrow> committee_manifest \<Rightarrow> tx \<Rightarrow> u64 \<Rightarrow> nat list \<Rightarrow> model_error + qc \<times> qc" where
  "fixture_finality_chain C manifest tx rnd signer_indices =
    (let conflict = conflict_key C (cell_reference (tx_input tx));
         sign = (\<lambda>phase intent justify index. sign_vote C manifest phase rnd conflict intent justify
           (of_nat index) (lab_validator_key C (m_epoch manifest) index))
     in bindE (intent_hash C tx) (\<lambda>intent.
     bindE (mapE (sign PHASE_PREVOTE intent zero_array) signer_indices) (\<lambda>prevotes.
     bindE (assemble_qc C prevotes manifest PHASE_PREVOTE rnd conflict intent None) (\<lambda>prevote_qc.
     bindE (qc_digest C prevote_qc manifest) (\<lambda>prevote_digest.
     bindE (mapE (sign PHASE_PRECOMMIT intent prevote_digest) signer_indices) (\<lambda>precommits.
     bindE (assemble_qc C precommits manifest PHASE_PRECOMMIT rnd conflict intent (Some prevote_digest)) (\<lambda>precommit_qc.
     Inr (prevote_qc, precommit_qc))))))))"

section \<open>Schedules\<close>

text \<open>One xorshift step, and the Fisher-Yates loop from the top index down.\<close>

definition xorshift :: "u64 \<Rightarrow> u64" where
  "xorshift s0 =
    (let s1 = Bit_Operations.xor s0 (push_bit 13 s0);
         s2 = Bit_Operations.xor s1 (drop_bit 7 s1)
     in Bit_Operations.xor s2 (push_bit 17 s2))"

definition swap_nth :: "'a list \<Rightarrow> nat \<Rightarrow> nat \<Rightarrow> 'a list" where
  "swap_nth xs i j = xs[i := xs ! j, j := xs ! i]"

definition shuffle_step :: "nat \<Rightarrow> nat list \<times> u64 \<Rightarrow> nat list \<times> u64" where
  "shuffle_step upper vs =
    (let state = xorshift (snd vs) in (swap_nth (fst vs) upper (unat state mod (upper + 1)), state))"

definition deterministic_permutation :: "nat \<Rightarrow> u64 \<Rightarrow> nat list" where
  "deterministic_permutation n state = fst (fold shuffle_step (rev [1..<n]) ([0..<n], state))"

definition apply_transfer ::
    "crypto \<Rightarrow> finalized_transfer list \<Rightarrow> committee_manifest \<Rightarrow> nat \<Rightarrow> state \<Rightarrow> fixture_error + state" where
  "apply_transfer C finalized manifest index s =
    (if index \<ge> length finalized then Inl (InvalidTransferIndex index)
     else let transfer = finalized ! index in
     bindE (map_err FixtureModelError
       (apply_finalized C s (ft_tx transfer) (ft_auth transfer) (ft_prevote_qc transfer) (ft_qc transfer) manifest))
     (\<lambda>(outcome, s'). case outcome of
        Applied _ \<Rightarrow> Inr s'
      | AlreadyApplied _ \<Rightarrow> Inl (RepeatedTransfer index)))"

definition apply_in_order ::
    "crypto \<Rightarrow> state \<Rightarrow> finalized_transfer list \<Rightarrow> nat list \<Rightarrow> committee_manifest \<Rightarrow> fixture_error + state" where
  "apply_in_order C starting_state finalized order manifest =
    foldE (apply_transfer C finalized manifest) order starting_state"

section \<open>Negative cases\<close>

text \<open>\<open>bytes[0] ^= 1\<close>.\<close>

definition flip_first :: "('n::len) byte_array \<Rightarrow> 'n byte_array" where
  "flip_first a = array_update a 0 (Bit_Operations.xor (array_bytes a ! 0) 1)"

definition with_output :: "nat \<Rightarrow> (tx_output \<Rightarrow> tx_output) \<Rightarrow> tx \<Rightarrow> tx" where
  "with_output i f tx = tx\<lparr>tx_outputs := (tx_outputs tx)[i := f (tx_outputs tx ! i)]\<rparr>"

definition with_input :: "(cell \<Rightarrow> cell) \<Rightarrow> tx \<Rightarrow> tx" where
  "with_input f tx = tx\<lparr>tx_input := f (tx_input tx)\<rparr>"

definition signed_field_mutations :: "tx \<Rightarrow> (string \<times> tx) list" where
  "signed_field_mutations tx =
    [(''recipient'', with_output 0 (\<lambda>o'. o'\<lparr>out_owner := flip_first (out_owner o')\<rparr>) tx),
     (''protocol version'', tx\<lparr>tx_version := tx_version tx + 1\<rparr>),
     (''amount'', with_output 1 (\<lambda>o'. o'\<lparr>out_amount := out_amount o' - 1\<rparr>)
        (with_output 0 (\<lambda>o'. o'\<lparr>out_amount := out_amount o' + 1\<rparr>) tx)),
     (''fee'', with_output 1 (\<lambda>o'. o'\<lparr>out_amount := out_amount o' - 1\<rparr>) (tx\<lparr>tx_fee := tx_fee tx + 1\<rparr>)),
     (''input identity'', with_input (\<lambda>c. c\<lparr>cell_reference := (cell_reference c)\<lparr>cr_id := flip_first (cr_id (cell_reference c))\<rparr>\<rparr>) tx),
     (''input generation'', with_input (\<lambda>c. c\<lparr>cell_reference := (cell_reference c)\<lparr>cr_generation := cr_generation (cell_reference c) + 1\<rparr>\<rparr>) tx),
     (''input state digest'', with_input (\<lambda>c. c\<lparr>cell_state_digest := flip_first (cell_state_digest c)\<rparr>) tx),
     (''input owner'', with_input (\<lambda>c. c\<lparr>cell_owner := flip_first (cell_owner c)\<rparr>) tx),
     (''input predecessor'', with_input (\<lambda>c. c\<lparr>cell_predecessor := flip_first (cell_predecessor c)\<rparr>) tx),
     (''asset'', with_output 0 (\<lambda>o'. o'\<lparr>out_asset_id := out_asset_id o' + 1\<rparr>) tx),
     (''network'', tx\<lparr>tx_network_id := tx_network_id tx + 1\<rparr>),
     (''committee generation'', tx\<lparr>tx_epoch := tx_epoch tx + 1\<rparr>),
     (''committee identity'', tx\<lparr>tx_committee_hash := flip_first (tx_committee_hash tx)\<rparr>),
     (''ordered output effects'', tx\<lparr>tx_outputs := swap_nth (tx_outputs tx) 0 1\<rparr>),
     (''transaction salt'', tx\<lparr>tx_salt := flip_first (tx_salt tx)\<rparr>)]"

definition signed_field_mutations_rejected ::
    "crypto \<Rightarrow> tx \<Rightarrow> user_auth \<Rightarrow> committee_manifest \<Rightarrow> fixture_error + nat" where
  "signed_field_mutations_rejected C tx auth manifest =
    (if length (tx_outputs tx) < 2 then Inl Panicked
     else bindE (checkE (\<lambda>(name, mutated).
         if is_ok (verify_user_auth C mutated auth manifest) then Inl (MutationSurvived name) else Inr ())
       (signed_field_mutations tx)) (\<lambda>_. Inr (length (signed_field_mutations tx))))"

definition conservation_negatives :: "tx \<Rightarrow> (string \<times> tx) list" where
  "conservation_negatives base =
    [(''hidden mint'', with_output 0 (\<lambda>o'. o'\<lparr>out_amount := out_amount o' + 1\<rparr>) base),
     (''missing value'', with_output 0 (\<lambda>o'. o'\<lparr>out_amount := out_amount o' - 1\<rparr>) base),
     (''overflow'', with_output 0 (\<lambda>o'. o'\<lparr>out_amount := - 1\<rparr>) base),
     (''zero fee'', (with_output 1 (\<lambda>o'. o'\<lparr>out_amount := out_amount o' + tx_fee base\<rparr>) base)\<lparr>tx_fee := 0\<rparr>)]"

definition conservation_negatives_rejected :: "crypto \<Rightarrow> lab_fixture \<Rightarrow> tx \<Rightarrow> fixture_error + unit" where
  "conservation_negatives_rejected C fixture base =
    (if length (tx_outputs base) < 2 then Inl Panicked
     else checkE (\<lambda>(name, bad).
         if is_ok (validate_tx C bad (fx_manifest fixture)) then Inl (NegativeAccepted name) else Inr ())
       (conservation_negatives base))"

text \<open>Votes returned by validators must be valid, for the statement asked, and by distinct signers.\<close>

definition observe_vote ::
    "crypto \<Rightarrow> committee_manifest \<Rightarrow> u8 \<Rightarrow> u64 \<Rightarrow> digest \<Rightarrow> digest \<Rightarrow> vote \<Rightarrow> u8 set \<Rightarrow> fixture_error + u8 set" where
  "observe_vote C manifest phase rnd conflict intent vote seen =
    bindE (map_err FixtureModelError (verify_vote C vote manifest)) (\<lambda>_.
    if \<not> same_statement vote phase rnd conflict intent then Inl ObservedMismatch
    else if v_signer_index vote \<in> seen then Inl ObservedDuplicate
    else Inr (insert (v_signer_index vote) seen))"

definition verify_observed_votes ::
    "crypto \<Rightarrow> vote list \<Rightarrow> committee_manifest \<Rightarrow> u8 \<Rightarrow> u64 \<Rightarrow> digest \<Rightarrow> digest \<Rightarrow> fixture_error + unit" where
  "verify_observed_votes C votes manifest phase rnd conflict intent =
    map_ok (\<lambda>_. ()) (foldE (observe_vote C manifest phase rnd conflict intent) votes {})"

definition with_first :: "(vote \<Rightarrow> vote) \<Rightarrow> qc \<Rightarrow> qc" where
  "with_first f qc = (case qc_votes qc of [] \<Rightarrow> qc | v # vs \<Rightarrow> qc\<lparr>qc_votes := f v # vs\<rparr>)"

definition quorum_negatives :: "qc \<Rightarrow> vote \<Rightarrow> (string \<times> qc) list" where
  "quorum_negatives qc first_vote =
    [(''four shares'', \<lparr>qc_votes = take 4 (qc_votes qc)\<rparr>),
     (''duplicate identities'', \<lparr>qc_votes = replicate 5 first_vote\<rparr>),
     (''non-member'', with_first (\<lambda>v. v\<lparr>v_signer_index := of_nat N\<rparr>) qc),
     (''wrong committee'', with_first (\<lambda>v. v\<lparr>v_committee_hash := flip_first (v_committee_hash v)\<rparr>) qc),
     (''wrong generation'', with_first (\<lambda>v. v\<lparr>v_epoch := v_epoch v + 1\<rparr>) qc),
     (''altered payload'', with_first (\<lambda>v. v\<lparr>v_intent := flip_first (v_intent v)\<rparr>) qc),
     (''invalid signature'', with_first (\<lambda>v. v\<lparr>v_signature := flip_first (v_signature v)\<rparr>) qc)]"

definition quorum_negative_matrix :: "crypto \<Rightarrow> finalized_transfer \<Rightarrow> committee_manifest \<Rightarrow> fixture_error + nat" where
  "quorum_negative_matrix C finalized manifest =
    (case qc_votes (ft_qc finalized) of
       [] \<Rightarrow> Inl EmptyFinalityQc
     | first_vote # _ \<Rightarrow>
       (let conflict = conflict_key C (cell_reference (tx_input (ft_tx finalized)));
            verify = (\<lambda>qc intent. verify_qc C qc manifest PHASE_PRECOMMIT (v_round first_vote) conflict intent
              (Some (v_justify first_vote)))
        in bindE (map_err FixtureModelError (intent_hash C (ft_tx finalized))) (\<lambda>intent.
        bindE (map_err FixtureModelError (verify (ft_qc finalized) intent)) (\<lambda>_.
        bindE (checkE (\<lambda>(name, bad). if is_ok (verify bad intent) then Inl (NegativeAccepted name) else Inr ())
          (quorum_negatives (ft_qc finalized) first_vote)) (\<lambda>_.
        Inr (length (quorum_negatives (ft_qc finalized) first_vote)))))))"

section \<open>The abstract conflict model\<close>

definition count_ones :: "u8 \<Rightarrow> nat" where
  "count_ones w = length (filter (bit w) [0..<8])"

definition dual_quorum :: "u8 \<Rightarrow> u8 \<Rightarrow> u8 \<Rightarrow> bool" where
  "dual_quorum honest_choices byzantine_zero byzantine_one \<longleftrightarrow>
    (let honest_a = count_ones honest_choices;
         honest_b = 5 - honest_a;
         byzantine_a = of_bool (bit byzantine_zero 0) + of_bool (bit byzantine_one 0);
         byzantine_b = of_bool (bit byzantine_zero 1) + of_bool (bit byzantine_one 1)
     in honest_a + byzantine_a \<ge> 5 \<and> honest_b + byzantine_b \<ge> (5 :: nat))"

definition conflict_cases :: "(u8 \<times> u8 \<times> u8) list" where
  "conflict_cases =
    [(of_nat h, of_nat z, of_nat w). h \<leftarrow> [0..<32], z \<leftarrow> [0..<4], w \<leftarrow> [0..<4]]"

definition exhaustive_conflict_safety_cases :: "fixture_error + u64" where
  "exhaustive_conflict_safety_cases =
    bindE (foldE (\<lambda>(h, z, w) n. if dual_quorum h z w then Inl (DualQuorum h z w) else Inr (saturating_add64 n 1))
      conflict_cases 0) (\<lambda>cases.
    if cases \<noteq> 512 then Inl (WrongCaseCount cases) else Inr cases)"

section \<open>Facts\<close>

subsection \<open>Shuffling\<close>

lemma mset_swap_nth: "i < length xs \<Longrightarrow> j < length xs \<Longrightarrow> mset (swap_nth xs i j) = mset xs"
  unfolding swap_nth_def by (rule mset_swap)

lemma length_swap_nth [simp]: "length (swap_nth xs i j) = length xs"
  by (simp add: swap_nth_def)

lemma fold_shuffle_mset:
  assumes "\<forall>i \<in> set is. i < length (fst vs)"
  shows "mset (fst (fold shuffle_step is vs)) = mset (fst vs)"
  using assms
proof (induction "is" arbitrary: vs)
  case (Cons i "is")
  then have i: "i < length (fst vs)"
    by simp
  then have "unat (xorshift (snd vs)) mod (i + 1) < length (fst vs)"
    using mod_less_divisor [of "i + 1" "unat (xorshift (snd vs))"] by linarith
  with i have "mset (fst (shuffle_step i vs)) = mset (fst vs)" "length (fst (shuffle_step i vs)) = length (fst vs)"
    by (simp_all add: shuffle_step_def Let_def mset_swap_nth)
  then show ?case
    using Cons by simp
qed simp

lemma mset_deterministic_permutation: "mset (deterministic_permutation n seed) = mset [0..<n]"
  unfolding deterministic_permutation_def by (subst fold_shuffle_mset) auto

subsection \<open>Orders of application\<close>

definition transfer_input :: "finalized_transfer list \<Rightarrow> nat \<Rightarrow> cell_ref" where
  "transfer_input finalized i = cell_reference (tx_input (ft_tx (finalized ! i)))"

lemma apply_transfer_iff:
  "apply_transfer C fts m i s = Inr s' \<longleftrightarrow> i < length fts \<and>
    (\<exists>rc. apply_finalized C s (ft_tx (fts ! i)) (ft_auth (fts ! i)) (ft_prevote_qc (fts ! i)) (ft_qc (fts ! i)) m =
      Inr (Applied rc, s'))"
  by (auto simp: apply_transfer_def Let_def split: apply_outcome.splits) (metis apply_outcome.exhaust)

lemma apply_transfer_step: "apply_transfer C fts m i s = Inr s' \<Longrightarrow> ledger_step C m s s'"
  by (auto simp: apply_transfer_iff intro: ledger_step.applies)

lemma apply_transfer_ok: "apply_transfer C fts m i s = Inr s' \<Longrightarrow> state_ok C s \<Longrightarrow> state_ok C s'"
  using apply_transfer_step ledger_run_ok by blast

lemma apply_in_order_run: "apply_in_order C s fts order m = Inr s' \<Longrightarrow> ledger_run C m s s'"
  unfolding apply_in_order_def
proof (induction order arbitrary: s)
  case (Cons i order)
  then show ?case
    by (auto intro: converse_rtranclp_into_rtranclp dest: apply_transfer_step)
qed simp

lemma apply_transfer_input:
  assumes "apply_transfer C fts m i s = Inr s'" and "state_ok C s"
  shows "transfer_input fts i |\<in>| fmdom (st_live s)"
    and "fmlookup (st_spent_by s') (transfer_input fts i) \<noteq> None"
    and "r |\<in>| fmdom (st_live s) \<Longrightarrow> r \<noteq> transfer_input fts i \<Longrightarrow> r |\<in>| fmdom (st_live s')"
proof -
  obtain rc where ap: "apply_finalized C s (ft_tx (fts ! i)) (ft_auth (fts ! i)) (ft_prevote_qc (fts ! i)) (ft_qc (fts ! i)) m =
      Inr (Applied rc, s')"
    using assms(1) by (auto simp: apply_transfer_iff)
  from apply_Applied_committable [OF ap] obtain outs intent
    where cm: "committable C s (ft_tx (fts ! i)) outs" and s': "s' = commit (ft_tx (fts ! i)) intent rc outs s"
    by metis
  show "transfer_input fts i |\<in>| fmdom (st_live s)"
    using cm by (auto simp: committable_def transfer_input_def intro: fmdomI)
  show "fmlookup (st_spent_by s') (transfer_input fts i) \<noteq> None"
    by (simp add: s' transfer_input_def)
  assume r: "r |\<in>| fmdom (st_live s)" "r \<noteq> transfer_input fts i"
  then obtain c where c: "fmlookup (st_live s) r = Some c"
    by (auto simp: fmlookup_dom_iff)
  then have "r \<notin> cell_reference ` set outs"
    using committable_fresh(1) [OF cm assms(2)] by fastforce
  moreover have "distinct (map cell_reference outs)"
    using cm by (simp add: committable_def)
  ultimately have "fmlookup (st_live s') r = Some c"
    using commit_live_lookup r(2) c unfolding s' transfer_input_def by blast
  then show "r |\<in>| fmdom (st_live s')"
    by (rule fmdomI)
qed

lemma spent_not_input:
  assumes "apply_in_order C s fts order m = Inr s'" and "state_ok C s"
    and "fmlookup (st_spent_by s) r \<noteq> None" and "i \<in> set order"
  shows "transfer_input fts i \<noteq> r"
  using assms
proof (induction order arbitrary: s)
  case (Cons j order)
  then obtain s1 where s1: "apply_transfer C fts m j s = Inr s1" "apply_in_order C s1 fts order m = Inr s'"
    by (auto simp: apply_in_order_def)
  have ok1: "state_ok C s1"
    using apply_transfer_ok [OF s1(1)] Cons.prems(2) .
  have "r |\<notin>| fmdom (st_live s)"
    using Cons.prems(2,3) unfolding state_ok_def by (metis fmdom_notI fmdomI option.exhaust)
  moreover have "fmlookup (st_spent_by s1) r \<noteq> None"
    using ledger_step_spent [OF apply_transfer_step [OF s1(1)] Cons.prems(2)] Cons.prems(3) by fastforce
  ultimately show ?case
    using Cons.IH [OF s1(2) ok1] Cons.prems(4) apply_transfer_input(1) [OF s1(1) Cons.prems(2)] by auto
qed simp

text \<open>After one transfer of a successful schedule, the inputs of the later ones are still live.\<close>

lemma later_inputs_live:
  assumes "apply_transfer C fts m i s = Inr s1" and "apply_in_order C s1 fts order m = Inr s'" and "state_ok C s"
    and "\<forall>j \<in> set order. transfer_input fts j |\<in>| fmdom (st_live s)"
  shows "\<forall>j \<in> set order. transfer_input fts j |\<in>| fmdom (st_live s1)"
proof
  fix j assume j: "j \<in> set order"
  have "transfer_input fts j \<noteq> transfer_input fts i"
    using spent_not_input [OF assms(2) apply_transfer_ok [OF assms(1,3)] apply_transfer_input(2) [OF assms(1,3)] j] .
  then show "transfer_input fts j |\<in>| fmdom (st_live s1)"
    using apply_transfer_input(3) [OF assms(1,3)] assms(4) j by blast
qed

lemma apply_transfer_swap:
  assumes "apply_transfer C fts m i s = Inr s1" and "apply_transfer C fts m j s1 = Inr s2" and "state_ok C s"
    and "transfer_input fts j |\<in>| fmdom (st_live s)"
  obtains t where "apply_transfer C fts m j s = Inr t" "apply_transfer C fts m i t = Inr s2"
  using assms apply_commute [OF assms(3)] unfolding apply_transfer_iff transfer_input_def by blast

lemma apply_to_front:
  assumes "apply_in_order C s fts (xs @ i # ys) m = Inr s'" and "state_ok C s"
    and "\<forall>j \<in> set (xs @ i # ys). transfer_input fts j |\<in>| fmdom (st_live s)"
  shows "apply_in_order C s fts (i # xs @ ys) m = Inr s'"
  using assms
proof (induction xs arbitrary: s)
  case (Cons x xs)
  then obtain s1 where s1: "apply_transfer C fts m x s = Inr s1" "apply_in_order C s1 fts (xs @ i # ys) m = Inr s'"
    by (auto simp: apply_in_order_def)
  have "\<forall>j \<in> set (xs @ i # ys). transfer_input fts j |\<in>| fmdom (st_live s1)"
    using later_inputs_live [OF s1 Cons.prems(2)] Cons.prems(3) by simp
  then have "apply_in_order C s1 fts (i # xs @ ys) m = Inr s'"
    using Cons.IH [OF s1(2) apply_transfer_ok [OF s1(1) Cons.prems(2)]] by simp
  then obtain s2 where s2: "apply_transfer C fts m i s1 = Inr s2" "apply_in_order C s2 fts (xs @ ys) m = Inr s'"
    by (auto simp: apply_in_order_def)
  have "transfer_input fts i |\<in>| fmdom (st_live s)"
    using Cons.prems(3) by simp
  then obtain t where "apply_transfer C fts m i s = Inr t" "apply_transfer C fts m x t = Inr s2"
    using apply_transfer_swap [OF s1(1) s2(1) Cons.prems(2)] by blast
  then show ?case
    using s2(2) by (simp add: apply_in_order_def)
qed simp

lemma apply_in_order_perm:
  assumes "apply_in_order C s fts order m = Inr s'" and "state_ok C s"
    and "\<forall>j \<in> set order. transfer_input fts j |\<in>| fmdom (st_live s)" and "mset order' = mset order"
  shows "apply_in_order C s fts order' m = Inr s'"
  using assms
proof (induction order' arbitrary: s order)
  case (Cons i rest)
  have "i \<in> set order"
    using Cons.prems(4) by (metis list.set_intros(1) mset_eq_setD)
  then obtain xs ys where order: "order = xs @ i # ys"
    by (meson split_list)
  then have front: "apply_in_order C s fts (i # xs @ ys) m = Inr s'"
    using apply_to_front Cons.prems(1,2,3) by blast
  then obtain s1 where s1: "apply_transfer C fts m i s = Inr s1" "apply_in_order C s1 fts (xs @ ys) m = Inr s'"
    by (auto simp: apply_in_order_def)
  have "\<forall>j \<in> set (xs @ ys). transfer_input fts j |\<in>| fmdom (st_live s1)"
    using later_inputs_live [OF s1 Cons.prems(2)] Cons.prems(3) order by simp
  moreover have "mset rest = mset (xs @ ys)"
    using Cons.prems(4) order by simp
  ultimately have "apply_in_order C s1 fts rest m = Inr s'"
    using Cons.IH [OF s1(2) apply_transfer_ok [OF s1(1) Cons.prems(2)]] by blast
  then show ?case
    using s1(1) by (simp add: apply_in_order_def)
qed simp

subsection \<open>Negative matrices\<close>

lemma valid_tx_value:
  assumes "valid_tx C tx manifest"
  shows "unat (tx_fee tx) + outputs_value (tx_outputs tx) = unat (cell_amount (tx_input tx))"
    and "\<forall>out \<in> set (tx_outputs tx). out_amount out \<noteq> 0" and "tx_fee tx \<noteq> 0"
  using assms by (simp_all add: valid_tx_def)

lemma unat_pos: "(w :: u64) \<noteq> 0 \<Longrightarrow> 0 < unat w"
  by (simp add: unat_gt_0)

lemma first_amount_changed:
  assumes ok: "valid_tx C tx manifest" and "tx_outputs tx \<noteq> []"
    and new: "w \<noteq> out_amount (tx_outputs tx ! 0)"
  shows "\<not> valid_tx C (with_output 0 (\<lambda>out. out\<lparr>out_amount := w\<rparr>) tx) manifest"
proof
  obtain out outs where outs: "tx_outputs tx = out # outs"
    using assms(2) by (cases "tx_outputs tx") auto
  assume "valid_tx C (with_output 0 (\<lambda>out. out\<lparr>out_amount := w\<rparr>) tx) manifest"
  from valid_tx_value(1) [OF this] valid_tx_value(1) [OF ok] have "unat w = unat (out_amount out)"
    by (simp add: with_output_def outs)
  then show False
    using new by (simp add: outs word_unat_eq_iff)
qed

lemma conservation_negatives_invalid:
  assumes ok: "valid_tx C tx manifest" and "2 \<le> length (tx_outputs tx)"
  shows "\<forall>(name, bad) \<in> set (conservation_negatives tx). \<not> valid_tx C bad manifest"
proof -
  let ?a = "out_amount (tx_outputs tx ! 0)"
  have ne: "tx_outputs tx \<noteq> []"
    using assms(2) by auto
  have max: "?a \<noteq> - 1"
  proof
    assume "?a = - 1"
    obtain out outs where outs: "tx_outputs tx = out # outs"
      using ne by (cases "tx_outputs tx") auto
    have "unat ?a = 2 ^ 64 - 1"
      using \<open>?a = - 1\<close> by (simp add: unsigned_minus_1_eq_mask mask_eq_exp_minus_1)
    then have "2 ^ 64 \<le> unat (tx_fee tx) + outputs_value (tx_outputs tx)"
      using unat_pos [OF valid_tx_value(3) [OF ok]] by (simp add: outs)
    then show False
      using valid_tx_value(1) [OF ok] unat_bound [of "cell_amount (tx_input tx)"] by simp
  qed
  have "with_output 0 (\<lambda>o'. o'\<lparr>out_amount := out_amount o' + 1\<rparr>) tx = with_output 0 (\<lambda>out. out\<lparr>out_amount := ?a + 1\<rparr>) tx"
    "with_output 0 (\<lambda>o'. o'\<lparr>out_amount := out_amount o' - 1\<rparr>) tx = with_output 0 (\<lambda>out. out\<lparr>out_amount := ?a - 1\<rparr>) tx"
    by (simp_all add: with_output_def)
  then show ?thesis
    using first_amount_changed [OF ok ne] max
    by (auto simp: conservation_negatives_def valid_tx_def)
qed

lemma is_ok_validate_tx: "is_ok (validate_tx C tx m) \<longleftrightarrow> valid_tx C tx m"
  by (auto simp: is_ok_iff validate_tx_iff)

lemma conservation_negatives_ok:
  assumes "valid_tx C tx (fx_manifest fixture)" and "2 \<le> length (tx_outputs tx)"
  shows "conservation_negatives_rejected C fixture tx = Inr ()"
  using conservation_negatives_invalid [OF assms] assms(2)
  by (auto simp: conservation_negatives_rejected_def is_ok_validate_tx split: prod.splits)

lemma flip_first_neq [simp]: "flip_first a \<noteq> (a :: ('n::len) byte_array)"
proof -
  have "array_bytes (flip_first a) ! 0 \<noteq> array_bytes a ! 0"
  proof -
    have "Bit_Operations.xor (array_bytes a ! 0) 1 \<noteq> array_bytes a ! 0"
      by (metis bit.xor_left_self bit.xor_self xor.right_neutral zero_neq_one)
    then show ?thesis
      by (simp add: flip_first_def bytes_array_update)
  qed
  then show ?thesis
    by metis
qed

lemma verify_observed_votes_iff:
  "foldE (observe_vote C manifest phase rnd conflict intent) votes seen = Inr seen' \<longleftrightarrow>
    (\<forall>v \<in> set votes. valid_vote C v manifest \<and> same_statement v phase rnd conflict intent) \<and>
    distinct (map v_signer_index votes) \<and> v_signer_index ` set votes \<inter> seen = {} \<and>
    seen' = seen \<union> v_signer_index ` set votes"
  by (induction votes arbitrary: seen) (auto simp: observe_vote_def verify_vote_iff)

lemma is_ok_verify_qc: "is_ok (verify_qc C qc m p r c x j) \<longleftrightarrow> valid_qc C qc m p r c x j"
  by (auto simp: is_ok_iff verify_qc_iff)

text \<open>Six of the seven altered certificates are refused whatever the signature scheme does.\<close>

lemma valid_qc_first:
  assumes "valid_qc C qc m p r c x j" and "qc_votes qc = v # vs"
  shows "valid_vote C v m" and "same_statement v p r c x"
  using assms by (simp_all add: valid_qc_def)

lemma with_first_invalid:
  assumes ok: "valid_qc C qc m p r c x j" and qc: "qc_votes qc = v # vs"
    and bad: "\<not> valid_vote C (f v) m \<or> \<not> same_statement (f v) p r c x"
  shows "\<not> valid_qc C (with_first f qc) m p r c x j"
  using bad valid_qc_first [of C "with_first f qc" m p r c x j "f v" vs] by (auto simp: with_first_def qc)

lemma invalid_vote_changes:
  assumes "valid_vote C v m"
  shows "\<not> valid_vote C (v\<lparr>v_signer_index := of_nat N\<rparr>) m"
    and "\<not> valid_vote C (v\<lparr>v_committee_hash := flip_first (v_committee_hash v)\<rparr>) m"
    and "\<not> valid_vote C (v\<lparr>v_epoch := v_epoch v + 1\<rparr>) m"
proof -
  have "unat (of_nat N :: u8) = N"
    by (simp add: N_def)
  then show "\<not> valid_vote C (v\<lparr>v_signer_index := of_nat N\<rparr>) m"
    by (simp add: valid_vote_def)
  show "\<not> valid_vote C (v\<lparr>v_committee_hash := flip_first (v_committee_hash v)\<rparr>) m"
    using assms flip_first_neq [of "v_committee_hash v", THEN not_sym] by (auto simp: valid_vote_def)
  show "\<not> valid_vote C (v\<lparr>v_epoch := v_epoch v + 1\<rparr>) m"
    using assms by (auto simp: valid_vote_def)
qed

lemma short_qc_invalid: "length (qc_votes qc) < Q \<Longrightarrow> \<not> valid_qc C qc m p r c x j"
  by (simp add: valid_qc_def)

lemma replicated_qc_invalid: "\<not> valid_qc C \<lparr>qc_votes = replicate 5 v\<rparr> m p r c x j"
  by (simp add: valid_qc_def numeral_eq_Suc)

lemma quorum_negative_matrix_result:
  assumes "intent_hash C (ft_tx ft) = Inr intent" and qc: "qc_votes (ft_qc ft) = v # vs"
    and ok: "valid_qc C (ft_qc ft) m PHASE_PRECOMMIT (v_round v) (conflict_key C (cell_reference (tx_input (ft_tx ft)))) intent
      (Some (v_justify v))"
  shows "quorum_negative_matrix C ft m =
    (if valid_qc C (with_first (\<lambda>v. v\<lparr>v_signature := flip_first (v_signature v)\<rparr>) (ft_qc ft)) m PHASE_PRECOMMIT (v_round v)
        (conflict_key C (cell_reference (tx_input (ft_tx ft)))) intent (Some (v_justify v))
     then Inl (NegativeAccepted ''invalid signature'') else Inr 7)"
proof -
  let ?c = "conflict_key C (cell_reference (tx_input (ft_tx ft)))"
  let ?valid = "\<lambda>qc. valid_qc C qc m PHASE_PRECOMMIT (v_round v) ?c intent (Some (v_justify v))"
  note v = valid_qc_first [OF ok qc]
  have verified: "verify_qc C (ft_qc ft) m PHASE_PRECOMMIT (v_round v) ?c intent (Some (v_justify v)) = Inr ()"
    using ok by (simp add: verify_qc_iff)
  have bad: "\<not> ?valid \<lparr>qc_votes = take 4 (qc_votes (ft_qc ft))\<rparr>" "\<not> ?valid \<lparr>qc_votes = replicate 5 v\<rparr>"
    by (rule short_qc_invalid, simp add: Q_def) (rule replicated_qc_invalid)
  have first_bad: "\<not> ?valid (with_first f (ft_qc ft))"
    if "\<not> valid_vote C (f v) m \<or> \<not> same_statement (f v) PHASE_PRECOMMIT (v_round v) ?c intent" for f
    by (rule with_first_invalid [where f = f, OF ok qc that])
  have altered: "\<not> same_statement (v\<lparr>v_intent := flip_first (v_intent v)\<rparr>) PHASE_PRECOMMIT (v_round v) ?c intent"
    using v(2) flip_first_neq [of intent] by (simp add: same_statement_def)
  have "\<not> ?valid (with_first (\<lambda>v. v\<lparr>v_signer_index := of_nat N\<rparr>) (ft_qc ft))"
    "\<not> ?valid (with_first (\<lambda>v. v\<lparr>v_committee_hash := flip_first (v_committee_hash v)\<rparr>) (ft_qc ft))"
    "\<not> ?valid (with_first (\<lambda>v. v\<lparr>v_epoch := v_epoch v + 1\<rparr>) (ft_qc ft))"
    "\<not> ?valid (with_first (\<lambda>v. v\<lparr>v_intent := flip_first (v_intent v)\<rparr>) (ft_qc ft))"
    using invalid_vote_changes [OF v(1)] altered by (intro first_bad; blast)+
  note bad = bad this
  show ?thesis
    unfolding quorum_negative_matrix_def qc
    by (simp add: assms(1) verified is_ok_verify_qc quorum_negatives_def bad bad [unfolded qc])
qed

subsection \<open>The abstract conflict model\<close>

text \<open>No choice of the five honest votes and the two double votes gives both sides a quorum.\<close>

lemma no_dual_quorum: "\<not> dual_quorum h z w"
proof -
  have "of_bool p + of_bool q \<le> (2 :: nat)" for p q
    by (simp add: of_bool_def)
  from this [of "bit z 0" "bit w 0"] this [of "bit z 1" "bit w 1"] show ?thesis
    unfolding dual_quorum_def Let_def by linarith
qed

lemma foldE_count:
  assumes "\<forall>x \<in> set xs. \<not> P x" and "unat n + length xs < 2 ^ 64"
  shows "foldE (\<lambda>x n. if P x then Inl (e x) else Inr (saturating_add64 n 1)) xs n = Inr (n + of_nat (length xs))"
  using assms
proof (induction xs arbitrary: n)
  case (Cons x xs)
  then have "unat n + 1 < 2 ^ 64"
    by simp
  then have "saturating_add64 n 1 = n + 1" and "unat (n + 1) = unat n + 1"
    by (simp_all add: saturating_add64_def unat_word_ariths)
  then show ?case
    using Cons by (simp add: add.assoc)
qed simp

lemma conflict_cases_length: "length conflict_cases = 512"
  by (simp add: conflict_cases_def length_concat comp_def sum_list_triv)

lemma exhaustive_cases: "exhaustive_conflict_safety_cases = Inr 512"
proof -
  have "foldE (\<lambda>x n. if (case x of (h, z, w) \<Rightarrow> dual_quorum h z w) then Inl (case x of (h, z, w) \<Rightarrow> DualQuorum h z w)
      else Inr (saturating_add64 n 1)) conflict_cases 0 = Inr (512 :: u64)"
    by (subst foldE_count) (auto simp: no_dual_quorum conflict_cases_length)
  moreover have "(\<lambda>(h, z, w) n. if dual_quorum h z w then Inl (DualQuorum h z w) else Inr (saturating_add64 n 1)) =
    (\<lambda>x n. if (case x of (h, z, w) \<Rightarrow> dual_quorum h z w) then Inl (case x of (h, z, w) \<Rightarrow> DualQuorum h z w)
      else Inr (saturating_add64 n 1))"
    by (auto simp: fun_eq_iff)
  ultimately show ?thesis
    by (simp add: exhaustive_conflict_safety_cases_def)
qed

end
