(* ===== verification/Config.thy ===== *)
theory Config
  imports Node
begin

text \<open>
  The controller's command line (\<open>integration001/src/config.rs\<close>).  The loop over an index
  becomes recursion over the arguments that are left; each round consumes one option with its
  value or fails.
\<close>

definition MAX_BENCH_COUNT :: nat where "MAX_BENCH_COUNT = 128"
definition DEFAULT_BENCH_COUNT :: nat where "DEFAULT_BENCH_COUNT = MAX_BENCH_COUNT"

record controller_config =
  cc_bench_count :: nat
  cc_evidence_path :: "string option"

datatype config_error =
    BenchCountMissing | BenchCountInvalid | BenchCountOutOfRange
  | EvidenceMissing | EvidenceEmpty | CampaignNotImplemented | UnknownArgument

definition default_config :: controller_config where
  "default_config = \<lparr>cc_bench_count = DEFAULT_BENCH_COUNT, cc_evidence_path = None\<rparr>"

text \<open>The value of \<open>--bench-count\<close>: a \<open>usize\<close> within its bounds.\<close>

definition parse_bench_count :: "string \<Rightarrow> config_error + nat" where
  "parse_bench_count raw =
    bindE (ok_or BenchCountInvalid (parse_unsigned (2 ^ 64) raw)) (\<lambda>value.
    if 1 \<le> value \<and> value \<le> MAX_BENCH_COUNT then Inr value else Inl BenchCountOutOfRange)"

fun parse_options :: "string list \<Rightarrow> controller_config \<Rightarrow> config_error + controller_config" where
  "parse_options [] config = Inr config"
| "parse_options (arg # rest) config =
    (if arg = ''--bench-count'' then
       (case rest of
          [] \<Rightarrow> Inl BenchCountMissing
        | raw # rest' \<Rightarrow>
            bindE (parse_bench_count raw) (\<lambda>value. parse_options rest' (config\<lparr>cc_bench_count := value\<rparr>)))
     else if arg = ''--evidence'' then
       (case rest of
          [] \<Rightarrow> Inl EvidenceMissing
        | raw # rest' \<Rightarrow>
            if raw = [] then Inl EvidenceEmpty
            else parse_options rest' (config\<lparr>cc_evidence_path := Some raw\<rparr>))
     else if arg = ''--campaign'' \<or> arg = ''--full-campaign'' then Inl CampaignNotImplemented
     else Inl UnknownArgument)"

definition parse_controller_args :: "string list \<Rightarrow> config_error + controller_config" where
  "parse_controller_args args = parse_options args default_config"

section \<open>The language of accepted command lines\<close>

datatype cli_option = BenchOption string | EvidenceOption string

fun option_words :: "cli_option \<Rightarrow> string list" where
  "option_words (BenchOption raw) = [''--bench-count'', raw]"
| "option_words (EvidenceOption path) = [''--evidence'', path]"

fun option_valid :: "cli_option \<Rightarrow> bool" where
  "option_valid (BenchOption raw) \<longleftrightarrow> is_ok (parse_bench_count raw)"
| "option_valid (EvidenceOption path) \<longleftrightarrow> path \<noteq> []"

fun apply_option :: "cli_option \<Rightarrow> controller_config \<Rightarrow> controller_config" where
  "apply_option (BenchOption raw) config =
    (case parse_bench_count raw of Inr value \<Rightarrow> config\<lparr>cc_bench_count := value\<rparr> | Inl _ \<Rightarrow> config)"
| "apply_option (EvidenceOption path) config = config\<lparr>cc_evidence_path := Some path\<rparr>"

lemma parse_bench_count_Inr_iff:
  "parse_bench_count raw = Inr value \<longleftrightarrow> parse_unsigned (2 ^ 64) raw = Some value \<and> 1 \<le> value \<and> value \<le> MAX_BENCH_COUNT"
  by (auto simp: parse_bench_count_def)

text \<open>Accepted options are consumed one after the other.\<close>

lemma parse_options_words:
  assumes "\<forall>opt \<in> set opts. option_valid opt"
  shows "parse_options (concat (map option_words opts) @ rest) config = parse_options rest (fold apply_option opts config)"
  using assms
proof (induction opts arbitrary: config)
  case (Cons opt opts)
  then show ?case
    by (cases opt) (auto simp: is_ok_iff)
qed simp

lemma parse_options_Inr_iff:
  "parse_options args config = Inr c \<longleftrightarrow>
    (\<exists>opts. args = concat (map option_words opts) \<and> (\<forall>opt \<in> set opts. option_valid opt) \<and>
      c = fold apply_option opts config)" (is "?L = ?R")
proof
  assume ?L
  then show ?R
  proof (induction args config rule: parse_options.induct)
    case (1 config)
    then show ?case
      by (intro exI [of _ "[]"]) simp
  next
    case (2 arg rest config)
    from 2(3) consider raw n rest' where "arg = ''--bench-count''" "rest = raw # rest'"
        "parse_bench_count raw = Inr n" "parse_options rest' (config\<lparr>cc_bench_count := n\<rparr>) = Inr c"
      | raw rest' where "arg = ''--evidence''" "rest = raw # rest'" "raw \<noteq> []"
        "parse_options rest' (config\<lparr>cc_evidence_path := Some raw\<rparr>) = Inr c"
      by (auto split: if_splits list.splits)
    then show ?case
    proof cases
      case bench: 1
      obtain opts where "rest' = concat (map option_words opts)" "\<forall>opt \<in> set opts. option_valid opt"
        "c = fold apply_option opts (config\<lparr>cc_bench_count := n\<rparr>)"
        using 2(1) [OF bench(1,2,3,4)] by blast
      then show ?thesis
        using bench by (intro exI [of _ "BenchOption raw # opts"]) simp
    next
      case evidence: 2
      have "arg \<noteq> ''--bench-count''"
        using evidence(1) by simp
      then obtain opts where "rest' = concat (map option_words opts)" "\<forall>opt \<in> set opts. option_valid opt"
        "c = fold apply_option opts (config\<lparr>cc_evidence_path := Some raw\<rparr>)"
        using 2(2) evidence by blast
      then show ?thesis
        using evidence by (intro exI [of _ "EvidenceOption raw # opts"]) simp
    qed
  qed
next
  assume ?R
  then show ?L
    using parse_options_words [of _ "[]" config] by auto
qed

text \<open>What the bounds promise of a parsed configuration.\<close>

definition config_ok :: "controller_config \<Rightarrow> bool" where
  "config_ok c \<longleftrightarrow> 1 \<le> cc_bench_count c \<and> cc_bench_count c \<le> MAX_BENCH_COUNT \<and> cc_evidence_path c \<noteq> Some []"

lemma default_config_ok: "config_ok default_config"
  by (simp add: config_ok_def default_config_def DEFAULT_BENCH_COUNT_def MAX_BENCH_COUNT_def)

lemma apply_option_ok: "option_valid opt \<Longrightarrow> config_ok c \<Longrightarrow> config_ok (apply_option opt c)"
  by (cases opt) (auto simp: config_ok_def is_ok_iff parse_bench_count_Inr_iff split: sum.splits)

lemma fold_option_ok: "\<forall>opt \<in> set opts. option_valid opt \<Longrightarrow> config_ok c \<Longrightarrow> config_ok (fold apply_option opts c)"
  by (induction opts arbitrary: c) (auto simp: apply_option_ok)

end
