(* ===== verification/Metrics.thy ===== *)
theory Metrics
  imports Node "HOL-Library.Char_ord"
begin

text \<open>
  The controller's measurements (\<open>integration001/src/metrics.rs\<close>): saturating counters that
  worker threads share, latency percentiles by nearest rank, and the JSON report.  Strings are
  their UTF-8 bytes, so that the order of the \<open>BTreeMap\<close>s is the lexicographic order of
  character lists; the escapes only concern bytes below 128.  The printing of floating-point
  numbers and the test that one is finite are parameters.
\<close>

section \<open>Counters\<close>

text \<open>
  \<open>WireCounters\<close> holds the three numbers of a \<open>WireSnapshot\<close> in atomics; each method below is
  one or more atomic updates of them.
\<close>

record wire_snapshot =
  wc_requests :: u64
  wc_bytes_sent :: u64
  wc_bytes_received :: u64

definition empty_counters :: wire_snapshot where
  "empty_counters = \<lparr>wc_requests = 0, wc_bytes_sent = 0, wc_bytes_received = 0\<rparr>"

definition merge_wire :: "wire_snapshot \<Rightarrow> wire_snapshot \<Rightarrow> wire_snapshot" where
  "merge_wire other c =
    c\<lparr>wc_requests := saturating_add64 (wc_requests c) (wc_requests other),
      wc_bytes_sent := saturating_add64 (wc_bytes_sent c) (wc_bytes_sent other),
      wc_bytes_received := saturating_add64 (wc_bytes_received c) (wc_bytes_received other)\<rparr>"

definition increment_requests :: "wire_snapshot \<Rightarrow> wire_snapshot" where
  "increment_requests c = c\<lparr>wc_requests := saturating_add64 (wc_requests c) 1\<rparr>"

definition add_bytes_sent :: "u64 \<Rightarrow> wire_snapshot \<Rightarrow> wire_snapshot" where
  "add_bytes_sent n c = c\<lparr>wc_bytes_sent := saturating_add64 (wc_bytes_sent c) n\<rparr>"

definition add_bytes_received :: "u64 \<Rightarrow> wire_snapshot \<Rightarrow> wire_snapshot" where
  "add_bytes_received n c = c\<lparr>wc_bytes_received := saturating_add64 (wc_bytes_received c) n\<rparr>"

definition record_request :: "u64 \<Rightarrow> u64 \<Rightarrow> wire_snapshot \<Rightarrow> wire_snapshot" where
  "record_request s r c = add_bytes_received r (add_bytes_sent s (increment_requests c))"

text \<open>The atomic updates, as the operations whose order the scheduler chooses.\<close>

datatype counter_op = CountRequest | CountSent u64 | CountReceived u64

fun count_op :: "counter_op \<Rightarrow> wire_snapshot \<Rightarrow> wire_snapshot" where
  "count_op CountRequest c = increment_requests c"
| "count_op (CountSent n) c = add_bytes_sent n c"
| "count_op (CountReceived n) c = add_bytes_received n c"

definition request_ops :: "u64 \<times> u64 \<Rightarrow> counter_op list" where
  "request_ops sr = [CountRequest, CountSent (fst sr), CountReceived (snd sr)]"

lemma record_request_ops: "record_request s r c = fold count_op (request_ops (s, r)) c"
  by (simp add: record_request_def request_ops_def)

fun op_amounts :: "counter_op \<Rightarrow> nat \<times> nat \<times> nat" where
  "op_amounts CountRequest = (1, 0, 0)"
| "op_amounts (CountSent n) = (0, unat n, 0)"
| "op_amounts (CountReceived n) = (0, 0, unat n)"

definition counter_value :: "wire_snapshot \<Rightarrow> nat \<times> nat \<times> nat" where
  "counter_value c = (unat (wc_requests c), unat (wc_bytes_sent c), unat (wc_bytes_received c))"

definition capped :: "nat \<Rightarrow> nat" where
  "capped n = min (2 ^ 64 - 1) n"

lemma unat_u64_capped: "capped (unat (w :: u64)) = unat w"
  using unat_bound [of w] by (simp add: capped_def)

lemma capped_add: "capped (capped a + b) = capped (a + b)"
  by (simp add: capped_def min_def)

lemma saturating_capped: "unat (saturating_add64 a b) = capped (unat a + unat b)"
  by (simp add: unat_saturating_add64 capped_def)

lemma counter_value_inj: "counter_value c = counter_value d \<Longrightarrow> c = (d :: wire_snapshot)"
  by (cases c; cases d) (simp add: counter_value_def word_unat_eq_iff)

text \<open>Each counter is the capped sum of the amounts, in whatever order they arrive.\<close>

lemma fold_count_op:
  "counter_value (fold count_op ops c) =
    (capped (unat (wc_requests c) + (\<Sum>x\<leftarrow>ops. fst (op_amounts x))),
     capped (unat (wc_bytes_sent c) + (\<Sum>x\<leftarrow>ops. fst (snd (op_amounts x)))),
     capped (unat (wc_bytes_received c) + (\<Sum>x\<leftarrow>ops. snd (snd (op_amounts x)))))"
proof (induction ops arbitrary: c)
  case Nil
  then show ?case
    by (simp add: counter_value_def unat_u64_capped)
next
  case (Cons x ops)
  then show ?case
    by (cases x) (simp_all add: increment_requests_def add_bytes_sent_def add_bytes_received_def
      saturating_capped capped_add add.assoc)
qed

section \<open>Percentiles\<close>

record latency_summary =
  ls_samples :: u64
  ls_p50_us :: u64
  ls_p95_us :: u64
  ls_p99_us :: u64
  ls_max_us :: u64

definition saturating_usize :: "nat \<Rightarrow> nat" where
  "saturating_usize n = min (2 ^ 64 - 1) n"

definition nearest_rank :: "u64 list \<Rightarrow> nat \<Rightarrow> u64" where
  "nearest_rank xs percentile =
    (let n = length xs;
         rank = saturating_usize (saturating_usize (n * percentile) + 99) div 100
     in xs ! (min (max rank 1) n - 1))"

definition summarize_latencies :: "u64 list \<Rightarrow> latency_summary option" where
  "summarize_latencies samples =
    (if samples = [] then None
     else let xs = sort samples in
       Some \<lparr>ls_samples = of_nat (min (2 ^ 64 - 1) (length xs)), ls_p50_us = nearest_rank xs 50,
             ls_p95_us = nearest_rank xs 95, ls_p99_us = nearest_rank xs 99, ls_max_us = last xs\<rparr>)"

text \<open>
  The definition the code cites: the nearest-rank percentile of a sample is its least member
  that at least \<open>p\<close> per cent of the sample does not exceed.
\<close>

definition is_percentile :: "nat \<Rightarrow> u64 list \<Rightarrow> u64 \<Rightarrow> bool" where
  "is_percentile p samples v \<longleftrightarrow> v \<in> set samples \<and>
    p * length samples \<le> 100 * length (filter (\<lambda>x. x \<le> v) samples) \<and>
    100 * length (filter (\<lambda>x. x < v) samples) < p * length samples"

lemma filter_sort_length: "length (filter P (sort xs)) = length (filter P xs)"
  by (metis mset_filter mset_sort size_mset)

lemma sorted_rank_le:
  assumes "sorted (xs :: 'a::linorder list)" and "k < length xs"
  shows "Suc k \<le> length (filter (\<lambda>x. x \<le> xs ! k) xs)"
proof -
  have "set (take (Suc k) xs) \<subseteq> {x. x \<le> xs ! k}"
    using assms by (auto simp: in_set_conv_nth sorted_iff_nth_mono)
  then have "filter (\<lambda>x. x \<le> xs ! k) (take (Suc k) xs) = take (Suc k) xs"
    by (auto simp: filter_id_conv)
  then have "length (filter (\<lambda>x. x \<le> xs ! k) (take (Suc k) xs @ drop (Suc k) xs)) \<ge> Suc k"
    using assms(2) by (simp only: filter_append length_append) simp
  then show ?thesis
    by simp
qed

lemma sorted_rank_less:
  assumes "sorted (xs :: 'a::linorder list)" and "k < length xs"
  shows "length (filter (\<lambda>x. x < xs ! k) xs) \<le> k"
proof -
  have "set (drop k xs) \<subseteq> {x. xs ! k \<le> x}"
    using assms by (auto simp: in_set_conv_nth sorted_iff_nth_mono)
  then have "filter (\<lambda>x. x < xs ! k) (drop k xs) = []"
    by (auto simp: filter_empty_conv)
  then have "length (filter (\<lambda>x. x < xs ! k) (take k xs @ drop k xs)) \<le> k"
    by (simp only: filter_append length_append) (simp add: le_trans [OF length_filter_le])
  then show ?thesis
    by simp
qed

text \<open>With fewer than \<open>2 ^ 57\<close> samples nothing saturates and the rank is the rounded-up share.\<close>

lemma nearest_rank_sorted:
  assumes "sorted xs" and "xs \<noteq> []" and "length xs < 2 ^ 57" and "1 \<le> p" and "p \<le> 100"
  shows "is_percentile p xs (nearest_rank xs p)"
proof -
  let ?n = "length xs"
  let ?k = "(?n * p + 99) div 100"
  have n: "0 < ?n"
    using assms(2) by simp
  have small: "?n * p \<le> 2 ^ 57 * 100"
    using assms(3,5) by (intro mult_mono) auto
  then have "saturating_usize (saturating_usize (?n * p) + 99) = ?n * p + 99"
    by (simp add: saturating_usize_def)
  moreover have pos: "1 \<le> ?k"
    using n assms(4) by (simp add: Suc_le_eq div_greater_zero_iff)
  moreover have "?n * p \<le> ?n * 100"
    using assms(5) by (rule mult_le_mono2)
  then have upto: "?k \<le> ?n"
    by linarith
  ultimately have v: "nearest_rank xs p = xs ! (?k - 1)"
    by (simp add: nearest_rank_def Let_def max_def min_def)
  have k: "?k - 1 < ?n"
    using pos upto by linarith
  have "p * ?n \<le> 100 * ?k" "100 * (?k - 1) < p * ?n"
    using pos n by (simp_all add: mult.commute)
  then show ?thesis
    unfolding is_percentile_def v
    using sorted_rank_le [OF assms(1) k] sorted_rank_less [OF assms(1) k] nth_mem [OF k] pos
    by (intro conjI) linarith+
qed

lemma is_percentile_sort: "is_percentile p (sort xs) v \<longleftrightarrow> is_percentile p xs v"
  by (simp add: is_percentile_def filter_sort_length)

lemma percentile_unique:
  assumes "is_percentile p xs v" and "is_percentile p xs w"
  shows "v = w"
proof -
  have "\<not> v < w" if "is_percentile p xs v" "is_percentile p xs w" for v w
  proof
    assume "v < w"
    then have "length (filter (\<lambda>x. x \<le> v) xs) \<le> length (filter (\<lambda>x. x < w) xs)"
      by (induction xs) auto
    then show False
      using that unfolding is_percentile_def by linarith
  qed
  then show ?thesis
    using assms by (metis linorder_neqE)
qed

lemma last_sort_Max:
  fixes xs :: "'a::linorder list"
  assumes "xs \<noteq> []"
  shows "last (sort xs) = Max (set xs)"
proof (rule Max_eqI [symmetric])
  fix y assume "y \<in> set xs"
  then obtain k where k: "k < length (sort xs)" "y = sort xs ! k"
    by (metis in_set_conv_nth set_sort)
  then have "sort xs ! k \<le> sort xs ! (length (sort xs) - 1)"
    by (intro sorted_nth_mono) auto
  moreover have "sort xs \<noteq> []"
    using k(1) by fastforce
  ultimately show "y \<le> last (sort xs)"
    using k(2) by (simp add: last_conv_nth)
next
  show "last (sort xs) \<in> set xs"
    using assms by (metis last_in_set length_0_conv length_sort set_sort)
qed simp

lemma percentile_mono:
  assumes "is_percentile p xs v" and "is_percentile q xs w" and "p \<le> q"
  shows "v \<le> w"
proof (rule ccontr)
  assume "\<not> v \<le> w"
  then have "length (filter (\<lambda>x. x \<le> w) xs) \<le> length (filter (\<lambda>x. x < v) xs)"
    by (induction xs) auto
  moreover have "p * length xs \<le> q * length xs"
    using assms(3) by simp
  ultimately show False
    using assms unfolding is_percentile_def by linarith
qed

section \<open>A run's metrics\<close>

record run_metrics =
  rm_wire :: wire_snapshot
  rm_phases :: "(string, u64 list) fmap"

definition new_metrics :: run_metrics where
  "new_metrics = \<lparr>rm_wire = empty_counters, rm_phases = fmempty\<rparr>"

definition metrics_request :: "u64 \<Rightarrow> u64 \<Rightarrow> run_metrics \<Rightarrow> run_metrics" where
  "metrics_request s r m = m\<lparr>rm_wire := record_request s r (rm_wire m)\<rparr>"

text \<open>\<open>entry(phase).or_default()\<close> followed by \<open>extend_from_slice\<close>.\<close>

definition phase_samples :: "(string, u64 list) fmap \<Rightarrow> string \<Rightarrow> u64 list" where
  "phase_samples phases phase = (case fmlookup phases phase of Some xs \<Rightarrow> xs | None \<Rightarrow> [])"

definition extend_phase :: "string \<times> u64 list \<Rightarrow> (string, u64 list) fmap \<Rightarrow> (string, u64 list) fmap" where
  "extend_phase kv phases = fmupd (fst kv) (phase_samples phases (fst kv) @ snd kv) phases"

definition record_latency_us :: "string \<Rightarrow> u64 \<Rightarrow> run_metrics \<Rightarrow> run_metrics" where
  "record_latency_us phase us m = m\<lparr>rm_phases := extend_phase (phase, [us]) (rm_phases m)\<rparr>"

text \<open>\<open>record_latency\<close>: an elapsed time in microseconds, cut to 64 bits.\<close>

definition record_latency :: "string \<Rightarrow> nat \<Rightarrow> run_metrics \<Rightarrow> run_metrics" where
  "record_latency phase micros = record_latency_us phase (of_nat (min (2 ^ 64 - 1) micros))"

definition phase_summary :: "string \<Rightarrow> run_metrics \<Rightarrow> latency_summary option" where
  "phase_summary phase m = Option.bind (fmlookup (rm_phases m) phase) summarize_latencies"

definition summarize_phases :: "(string, u64 list) fmap \<Rightarrow> (string \<times> latency_summary) list" where
  "summarize_phases phases =
    List.map_filter (\<lambda>(phase, samples). map_option (Pair phase) (summarize_latencies samples)) (sorted_list_of_fmap phases)"

definition phase_summaries :: "run_metrics \<Rightarrow> (string \<times> latency_summary) list" where
  "phase_summaries m = summarize_phases (rm_phases m)"

text \<open>\<open>snapshot\<close> is the record itself; merging goes phase by phase in key order.\<close>

definition merge_metrics :: "run_metrics \<Rightarrow> run_metrics \<Rightarrow> run_metrics" where
  "merge_metrics snap m =
    m\<lparr>rm_wire := merge_wire (rm_wire snap) (rm_wire m),
      rm_phases := fold extend_phase (sorted_list_of_fmap (rm_phases snap)) (rm_phases m)\<rparr>"

lemma phase_samples_upd [simp]:
  "phase_samples (fmupd k v phases) phase = (if phase = k then v else phase_samples phases phase)"
  by (simp add: phase_samples_def)

lemma fold_extend_phase_other:
  "phase \<notin> fst ` set kvs \<Longrightarrow> phase_samples (fold extend_phase kvs phases) phase = phase_samples phases phase"
  by (induction kvs arbitrary: phases) (auto simp: extend_phase_def)

lemma fold_extend_phase:
  assumes "distinct (map fst kvs)"
  shows "phase_samples (fold extend_phase kvs phases) phase =
    phase_samples phases phase @ (case map_of kvs phase of Some xs \<Rightarrow> xs | None \<Rightarrow> [])"
  using assms
proof (induction kvs arbitrary: phases)
  case (Cons kv kvs)
  then show ?case
    by (cases kv) (auto simp: fold_extend_phase_other extend_phase_def image_iff split: option.split dest!: map_of_SomeD)
qed simp

lemma map_of_sorted_list_of_fmap: "map_of (sorted_list_of_fmap m) = fmlookup m"
  by (metis fmap_of_list.rep_eq fmap_of_sorted_list)

lemma merge_metrics_samples:
  "phase_samples (rm_phases (merge_metrics snap m)) phase =
    phase_samples (rm_phases m) phase @ phase_samples (rm_phases snap) phase"
proof -
  have "distinct (map fst (sorted_list_of_fmap (rm_phases snap)))"
    by (simp add: sorted_list_of_fmap_keys)
  from fold_extend_phase [OF this] show ?thesis
    by (simp add: merge_metrics_def map_of_sorted_list_of_fmap phase_samples_def)
qed

lemma merge_wire_value:
  "counter_value (merge_wire c d) =
    (capped (unat (wc_requests c) + unat (wc_requests d)),
     capped (unat (wc_bytes_sent c) + unat (wc_bytes_sent d)),
     capped (unat (wc_bytes_received c) + unat (wc_bytes_received d)))"
  by (simp add: merge_wire_def counter_value_def saturating_capped add.commute)

section \<open>The JSON report\<close>

definition hex_digit :: "nat \<Rightarrow> char" where
  "hex_digit d = (''0123456789abcdef'' ! d)"

definition escape_char :: "char \<Rightarrow> string" where
  "escape_char c =
    (if c = CHR 0x22 then [CHR 0x5C, CHR 0x22]
     else if c = CHR 0x5C then [CHR 0x5C, CHR 0x5C]
     else if c = CHR 0x08 then [CHR 0x5C, CHR ''b'']
     else if c = CHR 0x0C then [CHR 0x5C, CHR ''f'']
     else if c = CHR 0x0A then [CHR 0x5C, CHR ''n'']
     else if c = CHR 0x0D then [CHR 0x5C, CHR ''r'']
     else if c = CHR 0x09 then [CHR 0x5C, CHR ''t'']
     else let n = of_char c :: nat in
       if n \<le> 31 then [CHR 0x5C, CHR ''u'', CHR ''0'', CHR ''0'', hex_digit (n div 16 mod 16), hex_digit (n mod 16)]
       else [c])"

definition json_escape :: "string \<Rightarrow> string" where
  "json_escape s = concat (map escape_char s)"

definition quoted :: "string \<Rightarrow> string" where
  "quoted s = CHR 0x22 # json_escape s @ [CHR 0x22]"

text \<open>\<open>u64::to_string\<close>.\<close>

fun decimal :: "nat \<Rightarrow> string" where
  "decimal n = (if n < 10 then [char_of (48 + n)] else decimal (n div 10) @ [char_of (48 + n mod 10)])"

declare decimal.simps [simp del]

text \<open>The loops that push a comma before every entry but the first.\<close>

fun commas :: "string list \<Rightarrow> string" where
  "commas [] = []"
| "commas [x] = x"
| "commas (x # xs) = x @ '','' @ commas xs"

definition json_object :: "(string \<times> string) list \<Rightarrow> string" where
  "json_object kvs = ''{'' @ commas (map (\<lambda>(k, v). quoted k @ '':'' @ v) kvs) @ ''}''"

definition push_string_map :: "string \<Rightarrow> (string, string) fmap \<Rightarrow> string" where
  "push_string_map name m =
    quoted name @ '':'' @ json_object (map (\<lambda>(k, v). (k, quoted v)) (sorted_list_of_fmap m))"

definition push_bool_map :: "string \<Rightarrow> (string, bool) fmap \<Rightarrow> string" where
  "push_bool_map name m =
    quoted name @ '':'' @ json_object (map (\<lambda>(k, v). (k, if v then ''true'' else ''false'')) (sorted_list_of_fmap m))"

definition push_number_map :: "('f \<Rightarrow> string) \<Rightarrow> string \<Rightarrow> (string, 'f) fmap \<Rightarrow> string" where
  "push_number_map display name m =
    quoted name @ '':'' @ json_object (map (\<lambda>(k, v). (k, display v)) (sorted_list_of_fmap m))"

text \<open>\<open>collect\<close> into a \<open>BTreeMap\<close>: a later entry replaces an earlier one.\<close>

definition btree_collect :: "('k \<times> 'v) list \<Rightarrow> ('k, 'v) fmap" where
  "btree_collect kvs = fold (\<lambda>(k, v). fmupd k v) kvs fmempty"

definition wire_json :: "wire_snapshot \<Rightarrow> string" where
  "wire_json c = json_object
    [(''requests'', decimal (unat (wc_requests c))), (''bytes_sent'', decimal (unat (wc_bytes_sent c))),
     (''bytes_received'', decimal (unat (wc_bytes_received c)))]"

definition summary_json :: "latency_summary \<Rightarrow> string" where
  "summary_json s = json_object
    [(''samples'', decimal (unat (ls_samples s))), (''p50'', decimal (unat (ls_p50_us s))),
     (''p95'', decimal (unat (ls_p95_us s))), (''p99'', decimal (unat (ls_p99_us s))),
     (''max'', decimal (unat (ls_max_us s)))]"

text \<open>The bytes written to the report, or the name of the first metric that is not finite.\<close>

definition write_json ::
    "('f \<Rightarrow> bool) \<Rightarrow> ('f \<Rightarrow> string) \<Rightarrow> run_metrics \<Rightarrow> (string \<times> string) list \<Rightarrow> (string \<times> bool) list
      \<Rightarrow> (string \<times> 'f) list \<Rightarrow> string + string" where
  "write_json finite_f display run metadata gates numbers =
    (let metrics = btree_collect numbers in
     case find (\<lambda>(k, v). \<not> finite_f v) (sorted_list_of_fmap metrics) of
       Some (name, _) \<Rightarrow> Inl name
     | None \<Rightarrow> Inr
        (''{'' @ push_string_map ''metadata'' (btree_collect metadata)
         @ '','' @ push_bool_map ''gates'' (btree_collect gates)
         @ '','' @ push_number_map display ''metrics'' metrics
         @ '','' @ quoted ''wire'' @ '':'' @ wire_json (rm_wire run)
         @ '','' @ quoted ''latency_us'' @ '':''
         @ json_object (map (\<lambda>(k, s). (k, summary_json s)) (summarize_phases (rm_phases run))) @ ''}''))"

text \<open>
  A reader of JSON strings, written from the grammar of RFC 8259 (for code points below 256):
  what follows the opening quotation mark, up to the closing one.
\<close>

definition hex_value :: "char \<Rightarrow> nat option" where
  "hex_value c = (let n = of_char c :: nat in
    if 48 \<le> n \<and> n \<le> 57 then Some (n - 48)
    else if 97 \<le> n \<and> n \<le> 102 then Some (n - 87)
    else if 65 \<le> n \<and> n \<le> 70 then Some (n - 55) else None)"

fun read_escape :: "string \<Rightarrow> (char \<times> string) option" where
  "read_escape [] = None"
| "read_escape (c # cs) =
    (if c = CHR 0x22 \<or> c = CHR 0x5C \<or> c = CHR ''/'' then Some (c, cs)
     else if c = CHR ''b'' then Some (CHR 0x08, cs)
     else if c = CHR ''f'' then Some (CHR 0x0C, cs)
     else if c = CHR ''n'' then Some (CHR 0x0A, cs)
     else if c = CHR ''r'' then Some (CHR 0x0D, cs)
     else if c = CHR ''t'' then Some (CHR 0x09, cs)
     else if c = CHR ''u'' then
       (case cs of
          z # z' # h # l # rest \<Rightarrow>
            if z = CHR ''0'' \<and> z' = CHR ''0'' then
              (case (hex_value h, hex_value l) of
                 (Some a, Some b) \<Rightarrow> Some (char_of (16 * a + b), rest)
               | _ \<Rightarrow> None)
            else None
        | _ \<Rightarrow> None)
     else None)"

lemma read_escape_shorter: "read_escape cs = Some (c, rest) \<Longrightarrow> length rest < length cs"
  by (cases cs) (auto split: if_splits list.splits option.splits)

function read_string :: "string \<Rightarrow> (string \<times> string) option" where
  "read_string [] = None"
| "read_string (c # cs) =
    (if c = CHR 0x22 then Some ([], cs)
     else if c = CHR 0x5C then
       (case read_escape cs of
          None \<Rightarrow> None
        | Some (d, rest) \<Rightarrow> map_option (\<lambda>(s, t). (d # s, t)) (read_string rest))
     else if (of_char c :: nat) < 32 then None
     else map_option (\<lambda>(s, t). (c # s, t)) (read_string cs))"
  by pat_completeness auto
termination
  by (relation "measure length") (auto dest: read_escape_shorter)

lemma hex_value_digit: "d < 16 \<Longrightarrow> hex_value (hex_digit d) = Some d"
proof -
  assume "d < 16"
  then have "d \<in> set [0..<16]"
    by simp
  moreover have "\<forall>d \<in> set [0..<16]. hex_value (hex_digit d) = Some d"
    by code_simp
  ultimately show ?thesis
    by blast
qed

lemma hex_digits_value: "n \<le> 31 \<Longrightarrow> 16 * (n div 16 mod 16) + n mod 16 = (n :: nat)"
  using div_mult_mod_eq [of n 16] by simp

lemma read_string_escape:
  "read_string (escape_char c @ t) = map_option (\<lambda>(s, r). (c # s, r)) (read_string t)"
proof (cases "(of_char c :: nat) \<le> 31 \<and> c \<notin> {CHR 0x08, CHR 0x0C, CHR 0x0A, CHR 0x0D, CHR 0x09}")
  case True
  let ?n = "of_char c :: nat"
  have small: "?n \<le> 31"
    using True by (rule conjunct1)
  have quote: "c \<noteq> CHR 0x22"
    by (rule notI) (use small in simp)
  moreover have "c \<noteq> CHR 0x5C"
    by (rule notI) (use small in simp)
  ultimately have "escape_char c = [CHR 0x5C, CHR ''u'', CHR ''0'', CHR ''0'', hex_digit (?n div 16 mod 16), hex_digit (?n mod 16)]"
    using True by (simp add: escape_char_def Let_def)
  moreover have "16 * (?n div 16 mod 16) + ?n mod 16 = ?n"
    using small by (rule hex_digits_value)
  ultimately show ?thesis
    by (simp add: hex_value_digit)
next
  case False
  then have "32 \<le> (of_char c :: nat) \<or> c \<in> {CHR 0x08, CHR 0x0C, CHR 0x0A, CHR 0x0D, CHR 0x09}"
    by linarith
  then consider (special) "c \<in> {CHR 0x22, CHR 0x5C, CHR 0x08, CHR 0x0C, CHR 0x0A, CHR 0x0D, CHR 0x09}"
    | (plain) "c \<noteq> CHR 0x22" "c \<noteq> CHR 0x5C" "\<not> (of_char c :: nat) < 32"
    by (metis insertCI insertE not_less)
  then show ?thesis
  proof cases
    case special
    then show ?thesis
      by (elim insertE) (simp_all add: escape_char_def)
  next
    case plain
    moreover have "c \<notin> {CHR 0x08, CHR 0x0C, CHR 0x0A, CHR 0x0D, CHR 0x09}"
    proof
      assume "c \<in> {CHR 0x08, CHR 0x0C, CHR 0x0A, CHR 0x0D, CHR 0x09}"
      then have "(of_char c :: nat) < 32"
        by (elim insertE) simp_all
      then show False
        using plain(3) by simp
    qed
    ultimately show ?thesis
      by (simp add: escape_char_def)
  qed
qed

lemma read_string_json_escape: "read_string (json_escape s @ CHR 0x22 # t) = Some (s, t)"
  by (induction s) (simp_all add: json_escape_def read_string_escape)

lemma decimal_digits: "digits_value acc (decimal n) = Some (acc * 10 ^ length (decimal n) + n)"
proof (induction n arbitrary: acc rule: decimal.induct)
  case (1 n)
  have digit: "digits_value a [char_of (48 + d)] = Some (a * 10 + d)" if "d < 10" for a d
    using that by simp
  have more: "digits_value a (xs @ ys) = Option.bind (digits_value a xs) (\<lambda>b. digits_value b ys)" for a xs ys
    by (induction xs arbitrary: a) (auto simp: Let_def)
  show ?case
  proof (cases "n < 10")
    case True
    then show ?thesis
      using digit [OF True, of acc] by (simp add: decimal.simps [of n])
  next
    case False
    have "(acc * 10 ^ length (decimal (n div 10)) + n div 10) * 10 + n mod 10 = acc * 10 ^ Suc (length (decimal (n div 10))) + n"
      by (simp add: algebra_simps)
    then show ?thesis
      using False 1 [OF False, of acc] digit [of "n mod 10"] by (simp add: decimal.simps [of n] more)
  qed
qed

lemma parse_decimal: "n < bound \<Longrightarrow> parse_unsigned bound (decimal n) = Some n"
proof -
  assume n: "n < bound"
  have "decimal n \<noteq> [] \<and> hd (decimal n) \<noteq> CHR ''+''"
  proof (induction n rule: decimal.induct)
    case (1 n)
    show ?case
    proof (cases "n < 10")
      case True
      then have "n \<in> set [0..<10]"
        by simp
      moreover have "\<forall>d \<in> set [0..<10]. char_of (48 + d) \<noteq> CHR ''+''"
        by code_simp
      ultimately show ?thesis
        using True by (simp add: decimal.simps [of n])
    qed (use 1 in \<open>simp add: decimal.simps [of n]\<close>)
  qed
  then show ?thesis
    using n decimal_digits [of 0 n] by (cases "decimal n") (auto simp: parse_unsigned_def)
qed

lemma decimal_head: "\<exists>d ds. decimal n = d # ds \<and> 48 \<le> (of_char d :: nat) \<and> (of_char d :: nat) \<le> 57"
proof (induction n rule: decimal.induct)
  case (1 n)
  show ?case
  proof (cases "n < 10")
    case True
    then have "decimal n = [char_of (48 + n)]"
      by (subst decimal.simps) simp
    moreover have "(of_char (char_of (48 + n) :: char) :: nat) = 48 + n"
      using True by (simp add: of_char_of)
    ultimately show ?thesis
      using True by simp
  next
    case False
    then show ?thesis
      using 1 by (auto simp del: decimal.simps simp: decimal.simps [of n])
  qed
qed

lemma parse_unsigned_decimal: "parse_unsigned bound (decimal n) = (if n < bound then Some n else None)"
proof -
  obtain d ds where d: "decimal n = d # ds" "48 \<le> (of_char d :: nat)"
    using decimal_head by blast
  then have "d \<noteq> CHR ''+''"
    by (rule_tac notI) simp
  then show ?thesis
    using decimal_digits [of 0 n] d(1) by (simp add: parse_unsigned_def del: decimal.simps)
qed

lemma fold_concat_map_ops: "fold (\<lambda>x. fold f (g x)) xs = fold f (concat (map g xs))"
  by (induction xs) auto

end
