(* ===== verification/Controller.thy ===== *)
theory Controller
  imports NodeSafety Fixture Config Metrics
begin

text \<open>
  The controller as a client of the validators (\<open>integration001/src/main.rs\<close>): one request and
  its response, the collection of votes, the finalization of a transfer in two rounds, its
  application and the queries.  The validators are the servers of \<open>Node\<close>, one per port; the
  network is a parameter that says for each request and validator whether the connection fails,
  whether the reply is lost, and how the validator's write to its log turns out.
\<close>

section \<open>The world a controller acts on\<close>

datatype link = Unreachable | ReplyLost "nat option" | Reached "nat option"

type_synonym network = "request \<Rightarrow> nat \<Rightarrow> link"

record world =
  w_nodes :: "node_server list"
  w_metrics :: run_metrics

datatype controller_error =
    RemoteWireError wire_error
  | RemoteModelError model_error
  | RemoteFixtureError fixture_error
  | ConnectFailed nat
  | NoReply nat
  | NoPort nat
  | WrongSigner nat u8
  | UnexpectedResponse nat
  | ApplyRejected u16
  | QueriedInactive lifecycle
  | WrongPong nat
  | UnexpectedCase nat
  | UnexpectedVote nat u8
  | AmbiguousRejection nat u16
  | RejectionCount nat
  | HonestSigner u8
  | TooManyShares nat
  | OwnerQuorum nat
  | RunFailed string

type_synonym 'a remote = "world \<Rightarrow> (controller_error + 'a) \<times> world"

definition bindR :: "'a remote \<Rightarrow> ('a \<Rightarrow> 'b remote) \<Rightarrow> 'b remote" where
  "bindR m f w = (case m w of (Inl e, w') \<Rightarrow> (Inl e, w') | (Inr x, w') \<Rightarrow> f x w')"

definition liftR :: "controller_error + 'a \<Rightarrow> 'a remote" where
  "liftR r w = (r, w)"

lemma bindR_simps [simp]:
  "m w = (Inl e, w') \<Longrightarrow> bindR m f w = (Inl e, w')"
  "m w = (Inr x, w') \<Longrightarrow> bindR m f w = f x w'"
  by (simp_all add: bindR_def)

lemma bindR_liftR [simp]:
  "bindR (liftR (Inl e)) f w = (Inl e, w)"
  "bindR (liftR (Inr x)) f w = f x w"
  by (simp_all add: bindR_def liftR_def)

lemma bindR_Inr:
  assumes "bindR m f w = (Inr y, w')"
  obtains x w1 where "m w = (Inr x, w1)" "f x w1 = (Inr y, w')"
  using assms by (auto simp: bindR_def split: prod.splits sum.splits)

lemma liftR_Inr [simp]: "liftR r w = (Inr x, w') \<longleftrightarrow> r = Inr x \<and> w' = w"
  by (auto simp: liftR_def)

section \<open>Requests\<close>

definition u64_len :: "nat \<Rightarrow> u64" where
  "u64_len n = of_nat (min (2 ^ 64 - 1) n)"

text \<open>
  Connect, write the frame, let the validator serve it, read the reply.  A frame that cannot be
  written leaves the validator with an empty stream, which changes nothing.
\<close>

definition rpc_raw :: "crypto \<Rightarrow> link \<Rightarrow> nat \<Rightarrow> u8 list \<Rightarrow> u8 list remote" where
  "rpc_raw C link i payload w =
    (let serve = (\<lambda>io frame. case serve_connection C io frame (w_nodes w ! i) of
       (out, _, n') \<Rightarrow> (out, w\<lparr>w_nodes := (w_nodes w)[i := n']\<rparr>))
     in if i \<ge> length (w_nodes w) then (Inl (ConnectFailed i), w)
     else case link of
       Unreachable \<Rightarrow> (Inl (ConnectFailed i), w)
     | ReplyLost io \<Rightarrow>
       (case write_frame payload of
          Inl e \<Rightarrow> (Inl (RemoteWireError e), w)
        | Inr frame \<Rightarrow> (Inl (NoReply i), snd (serve io frame)))
     | Reached io \<Rightarrow>
       (case write_frame payload of
          Inl e \<Rightarrow> (Inl (RemoteWireError e), w)
        | Inr frame \<Rightarrow>
          (case serve io frame of (out, w') \<Rightarrow>
            (case read_frame out of
               Inl e \<Rightarrow> (Inl (RemoteWireError e), w')
             | Inr (response, _) \<Rightarrow>
               (Inr response, w'\<lparr>w_metrics := metrics_request (u64_len (length payload + 4))
                  (u64_len (length response + 4)) (w_metrics w')\<rparr>)))))"

definition rpc :: "crypto \<Rightarrow> network \<Rightarrow> nat \<Rightarrow> request \<Rightarrow> response remote" where
  "rpc C net i request =
    bindR (liftR (map_err RemoteWireError (encode_request request))) (\<lambda>payload.
    bindR (rpc_raw C (net request i) i payload) (\<lambda>bs.
    liftR (map_err RemoteWireError (decode_response bs))))"

definition require_expected_pong :: "response \<Rightarrow> nat \<Rightarrow> u64 \<Rightarrow> digest \<Rightarrow> controller_error + unit" where
  "require_expected_pong response index epoch h =
    (case response of
       Pong actual_index actual_epoch actual_committee \<Rightarrow>
         if unat actual_index = index \<and> actual_epoch = epoch \<and> actual_committee = h then Inr ()
         else Inl (WrongPong index)
     | _ \<Rightarrow> Inl (WrongPong index))"

definition request_vote :: "crypto \<Rightarrow> network \<Rightarrow> nat \<Rightarrow> request \<Rightarrow> vote option remote" where
  "request_vote C net index request w =
    (if index \<ge> length (w_nodes w) then (Inl (NoPort index), w)
     else bindR (rpc C net index request) (\<lambda>response.
       liftR (case response of
          VoteResponse vote \<Rightarrow>
            if unat (v_signer_index vote) = index then Inr (Some vote)
            else Inl (WrongSigner index (v_signer_index vote))
        | Rejected _ \<Rightarrow> Inr None
        | _ \<Rightarrow> Inl (UnexpectedResponse index))) w)"

fun collect_votes :: "crypto \<Rightarrow> network \<Rightarrow> nat list \<Rightarrow> request \<Rightarrow> vote list remote" where
  "collect_votes C net [] request w = (Inr [], w)"
| "collect_votes C net (index # indices) request w =
    bindR (request_vote C net index request) (\<lambda>vote.
    bindR (collect_votes C net indices request) (\<lambda>votes.
    liftR (Inr (case vote of Some v \<Rightarrow> v # votes | None \<Rightarrow> votes)))) w"

section \<open>Transfers\<close>

definition HONEST_INDICES :: "nat list" where "HONEST_INDICES = [2, 3, 4, 5, 6]"

definition finalize_transfer ::
    "crypto \<Rightarrow> network \<Rightarrow> nat \<Rightarrow> committee_manifest \<Rightarrow> tx \<Rightarrow> user_auth \<Rightarrow> u64 \<Rightarrow> finalized_transfer remote" where
  "finalize_transfer C net elapsed manifest tx auth rnd =
    (let conflict = conflict_key C (cell_reference (tx_input tx)) in
     bindR (liftR (map_err RemoteModelError (make_proposal C manifest rnd tx auth None))) (\<lambda>proposal.
     bindR (liftR (map_err RemoteModelError (intent_hash C tx))) (\<lambda>intent.
     bindR (collect_votes C net HONEST_INDICES (Prevote proposal)) (\<lambda>prevotes.
     bindR (liftR (map_err RemoteModelError
       (assemble_qc C prevotes manifest PHASE_PREVOTE rnd conflict intent None))) (\<lambda>prevote_qc.
     bindR (liftR (map_err RemoteModelError (qc_digest C prevote_qc manifest))) (\<lambda>prevote_digest.
     bindR (collect_votes C net HONEST_INDICES (Precommit proposal prevote_qc)) (\<lambda>precommits.
     bindR (liftR (map_err RemoteModelError
       (assemble_qc C precommits manifest PHASE_PRECOMMIT rnd conflict intent (Some prevote_digest)))) (\<lambda>qc.
     (\<lambda>w. (Inr \<lparr>ft_tx = tx, ft_auth = auth, ft_prevote_qc = prevote_qc, ft_qc = qc\<rparr>,
            w\<lparr>w_metrics := record_latency ''client_submit_to_qc'' elapsed (w_metrics w)\<rparr>))))))))))"

definition apply_to_validator :: "crypto \<Rightarrow> network \<Rightarrow> nat \<Rightarrow> finalized_transfer \<Rightarrow> (digest \<times> bool) remote" where
  "apply_to_validator C net i finalized =
    bindR (rpc C net i (Apply (ft_tx finalized) (ft_auth finalized) (ft_prevote_qc finalized) (ft_qc finalized)))
    (\<lambda>response. liftR (case response of
       AppliedResponse root idempotent \<Rightarrow> Inr (root, idempotent)
     | Rejected code \<Rightarrow> Inl (ApplyRejected code)
     | _ \<Rightarrow> Inl (UnexpectedResponse i)))"

record query_summary =
  q_state_root :: digest
  q_snapshot_bytes :: u64
  q_wal_bytes :: u64

definition query_validator :: "crypto \<Rightarrow> network \<Rightarrow> nat \<Rightarrow> query_summary remote" where
  "query_validator C net i =
    bindR (rpc C net i QueryState)
    (\<lambda>response. liftR (case response of
       StateResponse root snapshot_len wal_len life \<Rightarrow>
         if life = Active then Inr \<lparr>q_state_root = root, q_snapshot_bytes = snapshot_len, q_wal_bytes = wal_len\<rparr>
         else Inl (QueriedInactive life)
     | _ \<Rightarrow> Inl (UnexpectedResponse i)))"

text \<open>The applications of one worker of \<open>apply_bench_to_live_nodes\<close>: its validator's schedule, in order.\<close>

fun apply_schedule :: "crypto \<Rightarrow> network \<Rightarrow> nat \<Rightarrow> finalized_transfer list \<Rightarrow> nat list \<Rightarrow> unit remote" where
  "apply_schedule C net i finalized [] w = (Inr (), w)"
| "apply_schedule C net i finalized (t # order) w =
    (if t \<ge> length finalized then (Inl (RemoteFixtureError (InvalidTransferIndex t)), w)
     else bindR (apply_to_validator C net i (finalized ! t)) (\<lambda>(_, idempotent).
       if idempotent then liftR (Inl (RemoteFixtureError (RepeatedTransfer t)))
       else apply_schedule C net i finalized order) w)"

section \<open>Owner-authorization negatives\<close>

text \<open>The three ways a proposal's authorization is spoiled.\<close>

definition spoil_auth :: "crypto \<Rightarrow> lab_fixture \<Rightarrow> tx \<Rightarrow> nat \<Rightarrow> proposal \<Rightarrow> controller_error + proposal" where
  "spoil_auth C fixture tx case_index p =
    (if case_index = 0 then Inr (p\<lparr>pr_auth := (pr_auth p)\<lparr>auth_signature := zero_array\<rparr>\<rparr>)
     else if case_index = 1 then
       map_ok (\<lambda>auth. p\<lparr>pr_auth := auth\<rparr>) (map_err RemoteModelError (sign_user C tx (fx_mallory fixture)))
     else if case_index = 2 then
       Inr (p\<lparr>pr_auth := (pr_auth p)\<lparr>auth_signature := flip_first (auth_signature (pr_auth p))\<rparr>\<rparr>)
     else Inl (UnexpectedCase case_index))"

text \<open>Every validator is asked: the two fixture adversaries may vote, the five others must reject as invalid.\<close>

fun ask_all :: "crypto \<Rightarrow> network \<Rightarrow> request \<Rightarrow> nat list \<Rightarrow> vote list \<times> nat \<Rightarrow> (vote list \<times> nat) remote" where
  "ask_all C net request [] acc w = (Inr acc, w)"
| "ask_all C net request (index # indices) acc w =
    bindR (rpc C net index request) (\<lambda>response. case response of
       VoteResponse vote \<Rightarrow>
         if unat (v_signer_index vote) = index \<and> index < 2
         then ask_all C net request indices (fst acc @ [vote], snd acc)
         else liftR (Inl (UnexpectedVote index (v_signer_index vote)))
     | Rejected code \<Rightarrow>
         if index \<ge> 2 \<and> code = REJECT_INVALID_PROPOSAL then ask_all C net request indices (fst acc, snd acc + 1)
         else liftR (Inl (AmbiguousRejection index code))
     | _ \<Rightarrow> liftR (Inl (UnexpectedResponse index))) w"

definition check_adversary_vote :: "crypto \<Rightarrow> committee_manifest \<Rightarrow> vote \<Rightarrow> controller_error + unit" where
  "check_adversary_vote C manifest vote =
    bindE (map_err RemoteModelError (verify_vote C vote manifest)) (\<lambda>_.
    if unat (v_signer_index vote) \<ge> 2 then Inl (HonestSigner (v_signer_index vote)) else Inr ())"

text \<open>What the collected votes and rejections of one case must satisfy; the number of distinct signers.\<close>

definition judge_owner_case ::
    "crypto \<Rightarrow> committee_manifest \<Rightarrow> tx \<Rightarrow> u64 \<Rightarrow> vote list \<Rightarrow> nat \<Rightarrow> nat \<Rightarrow> controller_error + nat" where
  "judge_owner_case C manifest tx rnd votes case_rejections case_index =
    (let conflict = conflict_key C (cell_reference (tx_input tx)) in
     if case_rejections \<noteq> 5 then Inl (RejectionCount case_rejections)
     else bindE (map_err RemoteModelError (intent_hash C tx)) (\<lambda>intent.
     bindE (map_err RemoteFixtureError
       (verify_observed_votes C votes manifest PHASE_PREVOTE rnd conflict intent)) (\<lambda>_.
     bindE (checkE (check_adversary_vote C manifest) votes) (\<lambda>_.
     let signers = card (v_signer_index ` set votes) in
     if signers > 2 then Inl (TooManyShares signers)
     else if is_ok (assemble_qc C votes manifest PHASE_PREVOTE rnd conflict intent None)
     then Inl (OwnerQuorum case_index)
     else Inr signers))))"

definition owner_case ::
    "crypto \<Rightarrow> network \<Rightarrow> lab_fixture \<Rightarrow> nat \<times> cell \<Rightarrow> (nat \<times> nat) remote" where
  "owner_case C net fixture ci =
    (case ci of (case_index, input) \<Rightarrow>
     bindR (liftR (map_err RemoteModelError (make_single_recipient_transfer C (fx_manifest fixture) input
       (fx_bob fixture) 99 1 (10000 + of_nat case_index)))) (\<lambda>tx.
     bindR (liftR (map_err RemoteModelError (sign_user C tx (fx_alice fixture)))) (\<lambda>valid_auth.
     bindR (liftR (map_err RemoteModelError
       (make_proposal C (fx_manifest fixture) (40 + of_nat case_index) tx valid_auth None))) (\<lambda>valid_proposal.
     bindR (liftR (spoil_auth C fixture tx case_index valid_proposal)) (\<lambda>proposal.
     bindR (ask_all C net (Prevote proposal) [0..<N] ([], 0)) (\<lambda>(votes, case_rejections).
     bindR (liftR (judge_owner_case C (fx_manifest fixture) tx (pr_round proposal) votes case_rejections case_index))
       (\<lambda>signers. liftR (Inr (signers, case_rejections)))))))))"

fun owner_cases ::
    "crypto \<Rightarrow> network \<Rightarrow> lab_fixture \<Rightarrow> (nat \<times> cell) list \<Rightarrow> u64 \<times> u64 \<Rightarrow> (u64 \<times> u64) remote" where
  "owner_cases C net fixture [] totals w = (Inr totals, w)"
| "owner_cases C net fixture (ci # cis) totals w =
    bindR (owner_case C net fixture ci) (\<lambda>(signers, rejections).
    owner_cases C net fixture cis
      (saturating_add64 (fst totals) (of_nat signers), saturating_add64 (snd totals) (of_nat rejections))) w"

definition live_owner_authorization_negatives :: "crypto \<Rightarrow> network \<Rightarrow> lab_fixture \<Rightarrow> (u64 \<times> u64) remote" where
  "live_owner_authorization_negatives C net fixture =
    owner_cases C net fixture (List.enumerate 0 (fx_negative_inputs fixture)) (0, 0)"

end
