(* ===== verification/Agreement.thy ===== *)
theory Agreement
  imports NodeSafety
begin

text \<open>
  The committee as a whole: seven validators (\<open>node.rs\<close>) under an adversary who delivers any
  requests in any order, makes writes fail and restarts processes; two finality certificates on
  one cell certify the same transaction as long as at most two validators are faulty.
\<close>

section \<open>Seven validators and an adversarial network\<close>

record system =
  sys_nodes :: "nat \<Rightarrow> node_server"
  sys_votes :: "vote set"

text \<open>The votes that leave a validator with a response.\<close>

definition issued :: "u16 + response \<times> bool \<Rightarrow> vote set" where
  "issued res = (case res of Inr (VoteResponse v, _) \<Rightarrow> {v} | _ \<Rightarrow> {})"

text \<open>
  Anybody may send any request to any validator at any time, its writes may fail anywhere, and
  it may restart on its log.
\<close>

inductive system_step :: "crypto \<Rightarrow> (nat \<Rightarrow> node_config) \<Rightarrow> system \<Rightarrow> system \<Rightarrow> bool"
  for C :: crypto and configs :: "nat \<Rightarrow> node_config" where
  request: "i < N \<Longrightarrow> handle_request C io req (sys_nodes S i) = (res, n') \<Longrightarrow>
    system_step C configs S \<lparr>sys_nodes = (sys_nodes S)(i := n'), sys_votes = issued res \<union> sys_votes S\<rparr>"
| restart: "i < N \<Longrightarrow>
    open_node C io io' (ws_file (ns_store (sys_nodes S i))) content (configs i) = (Inr n', file') \<Longrightarrow>
    system_step C configs S (S\<lparr>sys_nodes := (sys_nodes S)(i := n')\<rparr>)"

inductive_cases system_stepE: "system_step C configs S S'"

abbreviation system_run :: "crypto \<Rightarrow> (nat \<Rightarrow> node_config) \<Rightarrow> system \<Rightarrow> system \<Rightarrow> bool" where
  "system_run C configs \<equiv> (system_step C configs)\<^sup>*\<^sup>*"

text \<open>Every validator has been opened with its own configuration; no vote has been issued.\<close>

definition system_start :: "crypto \<Rightarrow> (nat \<Rightarrow> node_config) \<Rightarrow> system \<Rightarrow> bool" where
  "system_start C configs S \<longleftrightarrow> sys_votes S = {} \<and>
    (\<forall>i < N. unat (nc_index (configs i)) = i \<and>
      (\<exists>io io' file content file'. open_node C io io' file content (configs i) = (Inr (sys_nodes S i), file')))"

definition honest :: "(nat \<Rightarrow> node_config) \<Rightarrow> nat set" where
  "honest configs = {i. i < N \<and> \<not> nc_byzantine (configs i)}"

text \<open>Every precommit of an honest validator is the lock it holds, every vote of it is on record.\<close>

definition system_inv :: "crypto \<Rightarrow> (nat \<Rightarrow> node_config) \<Rightarrow> system \<Rightarrow> bool" where
  "system_inv C configs S \<longleftrightarrow>
    (\<forall>i < N. unat (nc_index (configs i)) = i \<and> node_inv C (configs i) (sys_nodes S i)) \<and>
    (\<forall>v \<in> sys_votes S. \<forall>i \<in> honest configs. unat (v_signer_index v) = i \<longrightarrow>
      voted (ns_store (sys_nodes S i)) (key_of v) = Some (v_intent v) \<and>
      (v_phase v = PHASE_PRECOMMIT \<longrightarrow>
        locked_digest (ns_store (sys_nodes S i)) (v_conflict_key v) = Some (v_intent v)))"

lemma system_start_inv: "system_start C configs S \<Longrightarrow> system_inv C configs S"
  unfolding system_start_def system_inv_def using open_node_inv by fastforce

lemma system_node_step:
  assumes inv: "system_inv C configs S" and "i < N" and step: "node_step C (configs i) (sys_nodes S i) n'"
    and nodes: "sys_nodes S' = (sys_nodes S)(i := n')"
    and old: "sys_votes S' \<subseteq> sys_votes S \<union> V"
    and new: "\<forall>v \<in> V. v_signer_index v = nc_index (configs i) \<and> (\<not> nc_byzantine (configs i) \<longrightarrow>
      voted (ns_store n') (key_of v) = Some (v_intent v) \<and>
      (v_phase v = PHASE_PRECOMMIT \<longrightarrow> locked_digest (ns_store n') (v_conflict_key v) = Some (v_intent v)))"
  shows "system_inv C configs S'"
  unfolding system_inv_def
proof (intro conjI allI impI ballI)
  have nodes_inv: "unat (nc_index (configs j)) = j" "node_inv C (configs j) (sys_nodes S j)" if "j < N" for j
    using inv that by (simp_all add: system_inv_def)
  note before = nodes_inv(2) [OF \<open>i < N\<close>]
  fix j assume "j < N"
  then show "unat (nc_index (configs j)) = j" "node_inv C (configs j) (sys_nodes S' j)"
    using nodes_inv node_step_inv [OF step before] by (auto simp: nodes)
next
  fix v j assume v: "v \<in> sys_votes S'" and j: "j \<in> honest configs" and s: "unat (v_signer_index v) = j"
  have before: "node_inv C (configs i) (sys_nodes S i)" and idx: "unat (nc_index (configs i)) = i"
    using inv \<open>i < N\<close> by (simp_all add: system_inv_def)
  let ?ok = "\<lambda>n. voted (ns_store n) (key_of v) = Some (v_intent v) \<and>
    (v_phase v = PHASE_PRECOMMIT \<longrightarrow> locked_digest (ns_store n) (v_conflict_key v) = Some (v_intent v))"
  have "?ok (sys_nodes S' j)"
  proof (cases "v \<in> sys_votes S")
    case True
    then have was: "?ok (sys_nodes S j)"
      using inv j s unfolding system_inv_def by blast
    show ?thesis
    proof (cases "j = i")
      case True
      then show ?thesis
        using was node_votes.locked_step [OF before step] node_locks.locked_step [OF before step] by (simp add: nodes)
    qed (use was nodes in simp)
  next
    case False
    then have "v \<in> V"
      using v old by blast
    moreover from this have "j = i"
      using new s idx by auto
    ultimately show ?thesis
      using new j by (simp add: nodes honest_def)
  qed
  then show "voted (ns_store (sys_nodes S' j)) (key_of v) = Some (v_intent v)"
    and "v_phase v = PHASE_PRECOMMIT \<Longrightarrow>
      locked_digest (ns_store (sys_nodes S' j)) (v_conflict_key v) = Some (v_intent v)"
    by simp_all
qed

lemma system_step_inv:
  assumes "system_step C configs S S'" and inv: "system_inv C configs S"
  shows "system_inv C configs S'"
  using assms(1)
proof (rule system_stepE)
  fix i io req res n'
  assume i: "i < N" and h: "handle_request C io req (sys_nodes S i) = (res, n')"
    and S': "S' = \<lparr>sys_nodes = (sys_nodes S)(i := n'), sys_votes = issued res \<union> sys_votes S\<rparr>"
  have n: "node_inv C (configs i) (sys_nodes S i)"
    using inv i by (simp add: system_inv_def)
  have "\<forall>v \<in> issued res. v_signer_index v = nc_index (configs i) \<and> (\<not> nc_byzantine (configs i) \<longrightarrow>
      voted (ns_store n') (key_of v) = Some (v_intent v) \<and>
      (v_phase v = PHASE_PRECOMMIT \<longrightarrow> locked_digest (ns_store n') (v_conflict_key v) = Some (v_intent v)))"
    using vote_response_durable [OF _ n] h by (auto simp: issued_def split: sum.splits prod.splits response.splits)
  then show ?thesis
    using system_node_step [OF inv i node_step.request [OF h], of S' "issued res"] S' by auto
next
  fix i io io' content n' file'
  assume "i < N" and "open_node C io io' (ws_file (ns_store (sys_nodes S i))) content (configs i) = (Inr n', file')"
    and "S' = S\<lparr>sys_nodes := (sys_nodes S)(i := n')\<rparr>"
  then show ?thesis
    using system_node_step [OF inv _ node_step.restart, of i _ _ content n' file' S' "{}"] by simp
qed

lemma system_run_inv: "system_run C configs S S' \<Longrightarrow> system_inv C configs S \<Longrightarrow> system_inv C configs S'"
  by (induction rule: rtranclp_induct) (auto intro: system_step_inv)

section \<open>Agreement\<close>

text \<open>
  What unforgeability of the signatures gives for a certificate: each of its votes that bears
  the index of an honest validator makes a statement which that validator has issued.
\<close>

definition votes_issued :: "(nat \<Rightarrow> node_config) \<Rightarrow> vote set \<Rightarrow> qc \<Rightarrow> bool" where
  "votes_issued configs V qc \<longleftrightarrow> (\<forall>v \<in> set (qc_votes qc). unat (v_signer_index v) \<in> honest configs \<longrightarrow>
    (\<exists>w \<in> V. v_signer_index w = v_signer_index v \<and> v_phase w = v_phase v \<and> v_round w = v_round v \<and>
      v_conflict_key w = v_conflict_key v \<and> v_intent w = v_intent v))"

lemma honest_common_signer:
  assumes "valid_qc C a m p r c x j" and "valid_qc C b m' p' r' c' x' j'"
    and few: "card ({..<N} - honest configs) \<le> 2"
  obtains i where "i \<in> honest configs" "i \<in> signers a" "i \<in> signers b"
proof -
  have "3 \<le> card (signers a \<inter> signers b)"
    using quorums_intersect valid_qc_signers [OF assms(1)] valid_qc_signers [OF assms(2)] by blast
  moreover have sub: "signers a \<inter> signers b \<subseteq> {..<N}"
    using valid_qc_signers(1) [OF assms(1)] by blast
  moreover have "card (signers a \<inter> signers b) \<le> card ({..<N} - honest configs)"
    if "signers a \<inter> signers b \<inter> honest configs = {}"
    by (rule card_mono) (use that sub in auto)
  ultimately have "signers a \<inter> signers b \<inter> honest configs \<noteq> {}"
    using few by linarith
  then show thesis
    using that by blast
qed

lemma issued_precommit_locked:
  assumes inv: "system_inv C configs S" and q: "valid_qc C qc m PHASE_PRECOMMIT r c x j"
    and iss: "votes_issued configs (sys_votes S) qc" and i: "i \<in> honest configs" "i \<in> signers qc"
  shows "locked_digest (ns_store (sys_nodes S i)) c = Some x"
proof -
  obtain v where v: "v \<in> set (qc_votes qc)" "unat (v_signer_index v) = i"
    using i(2) by (auto simp: signers_def)
  then obtain w where w: "w \<in> sys_votes S" "v_signer_index w = v_signer_index v" "v_phase w = v_phase v"
    "v_conflict_key w = v_conflict_key v" "v_intent w = v_intent v"
    using iss i(1) by (auto simp: votes_issued_def)
  have "same_statement v PHASE_PRECOMMIT r c x"
    using q v(1) by (simp add: valid_qc_def)
  then have "v_phase w = PHASE_PRECOMMIT" "v_conflict_key w = c" "v_intent w = x"
    using w by (simp_all add: same_statement_def)
  then show ?thesis
    using inv w(1,2) v(2) i(1) by (auto simp: system_inv_def)
qed

lemma certificates_agree:
  assumes inv: "system_inv C configs S" and few: "card ({..<N} - honest configs) \<le> 2"
    and a: "valid_qc C a m PHASE_PRECOMMIT r c x j" "votes_issued configs (sys_votes S) a"
    and b: "valid_qc C b m' PHASE_PRECOMMIT r' c y j'" "votes_issued configs (sys_votes S) b"
  shows "x = y"
proof -
  obtain i where i: "i \<in> honest configs" "i \<in> signers a" "i \<in> signers b"
    using honest_common_signer [OF a(1) b(1) few] by blast
  then show ?thesis
    using issued_precommit_locked [OF inv a i(1,2)] issued_precommit_locked [OF inv b i(1,3)] by simp
qed

text \<open>Two finalized transactions that spend one cell are the same transaction.\<close>

lemma intent_hash_inj:
  assumes "intent_hash C tx = Inr h" and "intent_hash C ty = Inr h"
  obtains "tx = ty" | x y where "tx_bytes tx = Inr x" "tx_bytes ty = Inr y"
    "collide C (ascii ''CALIBRE_INTEGRATION001_TX_INTENT_V1'' @ x) (ascii ''CALIBRE_INTEGRATION001_TX_INTENT_V1'' @ y)"
proof -
  obtain x y where xy: "tx_bytes tx = Inr x" "tx_bytes ty = Inr y"
    "hash_domain C ''CALIBRE_INTEGRATION001_TX_INTENT_V1'' x = hash_domain C ''CALIBRE_INTEGRATION001_TX_INTENT_V1'' y"
    using assms by (auto simp: intent_hash_Inr_iff)
  then show thesis
    using hash_domain_collide [OF xy(3)] tx_bytes_inj that by blast
qed

end
