(* ===== verification/Progress.thy ===== *)
theory Progress
  imports Controller Agreement
begin

text \<open>
  Progress of the protocol when nothing goes wrong, for any cryptography whose honest
  signatures verify: five validators' votes always make a certificate, a valid transfer of a
  live cell is always applied, a fresh validator starts, and a controller that reaches the five
  honest validators finalizes its transfer.
\<close>

section \<open>Signing\<close>

lemma u8_index: "i < N \<Longrightarrow> unat (of_nat i :: u8) = i"
  by (simp add: N_def unat_of_nat)

lemma lab_committee_valid:
  assumes "signatures_verify C" and "inj_on (\<lambda>i. public_of C (lab_validator_key C e i)) {..<N}"
  shows "valid_manifest C (lab_committee C e)"
proof -
  have "map cm_public_key (m_members (lab_committee C e)) = map (\<lambda>i. public_of C (lab_validator_key C e i)) [0..<N]"
    by (simp add: lab_committee_def)
  moreover have "distinct \<dots>"
    using assms(2) by (simp add: distinct_map lessThan_atLeast0)
  moreover have "m_network_id (lab_committee C e) = NETWORK_ID" "unat (m_threshold (lab_committee C e)) = Q"
    "length (m_members (lab_committee C e)) = N"
    by (simp_all add: lab_committee_def Q_def)
  ultimately show ?thesis
    using signatures_verifyD(1) [OF assms(1)] by (simp add: valid_manifest_def lab_committee_member u8_index)
qed

definition may_justify :: "u8 \<Rightarrow> digest \<Rightarrow> bool" where
  "may_justify phase j \<longleftrightarrow> phase = PHASE_PREVOTE \<and> j = zero_array \<or> phase = PHASE_PRECOMMIT \<and> j \<noteq> zero_array"

lemma sign_vote_lab:
  assumes m: "valid_manifest C (lab_committee C e)" and "i < N" and "may_justify phase j"
  obtains v where "sign_vote C (lab_committee C e) phase r c x j (of_nat i) (lab_validator_key C e i) = Inr v"
proof -
  note i = u8_index [OF assms(2)]
  obtain h where h: "committee_hash C (lab_committee C e) = Inr h"
    using m by (auto simp: committee_hash_Inr_iff)
  have "PHASE_PREVOTE \<noteq> PHASE_PRECOMMIT"
    by (simp add: PHASE_PREVOTE_def PHASE_PRECOMMIT_def)
  then obtain msg where "vote_message C (lab_committee C e) phase r c x j (of_nat i) = Inr msg"
    using assms(3) h by (auto simp: vote_message_def may_justify_def)
  then have "\<exists>v. sign_vote C (lab_committee C e) phase r c x j (of_nat i) (lab_validator_key C e i) = Inr v"
    using assms h i \<open>PHASE_PREVOTE \<noteq> PHASE_PRECOMMIT\<close>
    by (auto simp: sign_vote_def validate_manifest_iff [THEN iffD2] lab_committee_member may_justify_def Let_def)
  then show thesis
    using that by blast
qed

text \<open>Votes that make one statement for one certificate.\<close>

definition votes_for ::
    "crypto \<Rightarrow> committee_manifest \<Rightarrow> u8 \<Rightarrow> u64 \<Rightarrow> digest \<Rightarrow> digest \<Rightarrow> digest option \<Rightarrow> vote list \<Rightarrow> bool" where
  "votes_for C m phase rnd conflict intent ej votes \<longleftrightarrow>
    (\<forall>v \<in> set votes. valid_vote C v m \<and> same_statement v phase rnd conflict intent \<and> expected_ok ej v) \<and>
    distinct (map v_signer_index votes)"

lemma votes_for_length:
  assumes "votes_for C m p r c x ej votes"
  shows "length votes \<le> N"
proof -
  have "distinct (map (\<lambda>v. unat (v_signer_index v)) votes)"
    using assms by (simp add: votes_for_def distinct_map inj_on_def word_unat_eq_iff)
  moreover have "set (map (\<lambda>v. unat (v_signer_index v)) votes) \<subseteq> {..<N}"
    using assms by (auto simp: votes_for_def valid_vote_def)
  ultimately have "length (map (\<lambda>v. unat (v_signer_index v)) votes) \<le> card {..<N}"
    by (metis card_mono distinct_card finite_lessThan)
  then show ?thesis
    by simp
qed

lemma assemble_qc_complete:
  assumes votes: "votes_for C m p r c x ej votes" and "Q \<le> length votes"
  obtains qc where "assemble_qc C votes m p r c x ej = Inr qc" "valid_qc C qc m p r c x ej"
proof -
  let ?vs = "map snd (sorted_list_of_fmap (votes_by_index votes))"
  have d: "distinct (map v_signer_index votes)"
    using votes by (simp add: votes_for_def)
  note sorted = sorted_list_of_fmap_votes [OF d]
  have "set ?vs = set votes" "length ?vs = length votes"
    using sorted(1) by (metis mset_eq_setD, metis mset_eq_length)
  moreover have "sorted_wrt (<) (map v_signer_index ?vs)"
    using sorted(2) by (metis strict_sorted_list_of_set)
  ultimately have "valid_qc C \<lparr>qc_votes = ?vs\<rparr> m p r c x ej"
    using votes assms(2) votes_for_length [OF votes] by (simp add: valid_qc_def votes_for_def)
  then show thesis
    using that d assemble_qc_Inr_iff by blast
qed

lemma sign_votes_lab:
  assumes sig: "signatures_verify C" and m: "valid_manifest C (lab_committee C e)"
    and "may_justify phase j" and "\<forall>i \<in> set is. i < N" and "distinct is"
    and ej: "ej = (if phase = PHASE_PREVOTE then None else Some j)"
  obtains votes where
    "mapE (\<lambda>i. sign_vote C (lab_committee C e) phase r c x j (of_nat i) (lab_validator_key C e i)) is = Inr votes"
    "votes_for C (lab_committee C e) phase r c x ej votes" "length votes = length is"
    "map v_signer_index votes = map of_nat is"
proof -
  let ?sign = "\<lambda>i. sign_vote C (lab_committee C e) phase r c x j (of_nat i) (lab_validator_key C e i)"
  have "\<forall>i \<in> set is. \<exists>v. ?sign i = Inr v"
    using sign_vote_lab [OF m _ assms(3)] assms(4) by blast
  then obtain f where f: "\<forall>i \<in> set is. ?sign i = Inr (f i)"
    by metis
  have fields: "valid_vote C (f i) (lab_committee C e) \<and> same_statement (f i) phase r c x \<and> expected_ok ej (f i) \<and>
      v_signer_index (f i) = of_nat i" if "i \<in> set is" for i
  proof -
    have s: "?sign i = Inr (f i)"
      using f that by blast
    show ?thesis
      using sign_vote_valid [OF sig s] sign_vote_fields [OF s] assms(3) ej
      by (auto simp: same_statement_def expected_ok_def may_justify_def)
  qed
  have "inj_on (of_nat :: nat \<Rightarrow> u8) (set is)"
    using assms(4) u8_index by (metis inj_onI)
  then have "distinct (map v_signer_index (map f is))"
    using fields assms(5) by (simp add: distinct_map comp_inj_on inj_on_def)
  then have "votes_for C (lab_committee C e) phase r c x ej (map f is)"
    using fields unfolding votes_for_def by auto
  moreover have "map v_signer_index (map f is) = map of_nat is"
    using fields by simp
  moreover have "mapE ?sign is = Inr (map f is)"
    using f by (rule mapE_total)
  ultimately show thesis
    using that [of "map f is"] by simp
qed

section \<open>Certificates from five keys\<close>

lemma phases_differ [simp]: "PHASE_PREVOTE \<noteq> PHASE_PRECOMMIT" "PHASE_PRECOMMIT \<noteq> PHASE_PREVOTE"
  by (simp_all add: PHASE_PREVOTE_def PHASE_PRECOMMIT_def)

lemma valid_chain_finality:
  assumes "intent_hash C tx = Inr x"
    and pq: "valid_qc C pq m PHASE_PREVOTE r (conflict_key C (cell_reference (tx_input tx))) x None"
    and d: "qc_digest C pq m = Inr d"
    and cq: "valid_qc C cq m PHASE_PRECOMMIT r (conflict_key C (cell_reference (tx_input tx))) x (Some d)"
  shows "check_finality C tx pq cq m = Inr x"
proof -
  obtain v vs w ws where "qc_votes pq = v # vs" "v_round v = r" "qc_votes cq = w # ws" "v_round w = r"
    using valid_qc_nonempty [OF pq] valid_qc_nonempty [OF cq] by (metis same_statement_def)
  then show ?thesis
    using assms by (simp add: check_finality_def verify_qc_iff [THEN iffD2] Let_def)
qed

lemma assemble_qc_length:
  assumes "assemble_qc C votes m p r c x ej = Inr qc"
  shows "length (qc_votes qc) = length votes"
proof -
  have "distinct (map v_signer_index votes)" "qc_votes qc = map snd (sorted_list_of_fmap (votes_by_index votes))"
    using assms by (simp_all add: assemble_qc_Inr_iff)
  then show ?thesis
    using sorted_list_of_fmap_votes(1) mset_eq_length by metis
qed

lemma fixture_chain_complete:
  assumes sig: "signatures_verify C" and m: "valid_manifest C (lab_committee C e)"
    and intent: "intent_hash C tx = Inr x"
    and signers: "\<forall>i \<in> set is. i < N" "distinct is" "Q \<le> length is"
    and nonzero: "\<And>m. blake3 C m \<noteq> zero_array"
  obtains pq cq where "fixture_finality_chain C (lab_committee C e) tx r is = Inr (pq, cq)"
    "check_finality C tx pq cq (lab_committee C e) = Inr x"
proof -
  let ?m = "lab_committee C e" and ?c = "conflict_key C (cell_reference (tx_input tx))"
  have prevotable: "may_justify PHASE_PREVOTE zero_array"
    by (simp add: may_justify_def)
  obtain prevotes where pre:
    "mapE (\<lambda>i. sign_vote C ?m PHASE_PREVOTE r ?c x zero_array (of_nat i) (lab_validator_key C e i)) is = Inr prevotes"
    "votes_for C ?m PHASE_PREVOTE r ?c x None prevotes" "length prevotes = length is"
    by (rule sign_votes_lab [OF sig m prevotable signers(1,2), of None r ?c x]) simp_all
  obtain pq where pq: "assemble_qc C prevotes ?m PHASE_PREVOTE r ?c x None = Inr pq"
    "valid_qc C pq ?m PHASE_PREVOTE r ?c x None"
    using assemble_qc_complete [OF pre(2)] pre(3) signers(3) by metis
  obtain d where d: "qc_digest C pq ?m = Inr d" "d \<noteq> zero_array"
    using qc_digest_valid [OF pq(2)] nonzero by (auto simp: hash_domain_def)
  then have committable: "may_justify PHASE_PRECOMMIT d"
    by (simp add: may_justify_def)
  obtain precommits where com:
    "mapE (\<lambda>i. sign_vote C ?m PHASE_PRECOMMIT r ?c x d (of_nat i) (lab_validator_key C e i)) is = Inr precommits"
    "votes_for C ?m PHASE_PRECOMMIT r ?c x (Some d) precommits" "length precommits = length is"
    by (rule sign_votes_lab [OF sig m committable signers(1,2), of "Some d" r ?c x]) simp_all
  obtain cq where cq: "assemble_qc C precommits ?m PHASE_PRECOMMIT r ?c x (Some d) = Inr cq"
    "valid_qc C cq ?m PHASE_PRECOMMIT r ?c x (Some d)"
    using assemble_qc_complete [OF com(2)] com(3) signers(3) by metis
  have "check_finality C tx pq cq ?m = Inr x"
    using valid_chain_finality [OF intent pq(2) d(1) cq(2)] .
  moreover have "fixture_finality_chain C ?m tx r is = Inr (pq, cq)"
    using intent pre(1) pq(1) d(1) com(1) cq(1) by (simp add: fixture_finality_chain_def Let_def)
  ultimately show thesis
    using that by blast
qed

section \<open>Applying a transfer\<close>

definition output_id :: "crypto \<Rightarrow> digest \<Rightarrow> nat \<Rightarrow> digest" where
  "output_id C intent i =
    hash_domain C ''CALIBRE_INTEGRATION001_OUTPUT_REF_V1'' (array_bytes intent @ to_le32 (of_nat i))"

lemma output_ref_complete:
  assumes "intent_hash C tx = Inr x" and "unat (cr_generation (cell_reference (tx_input tx))) + 1 < 2 ^ 64"
    and "i < 2 ^ 32"
  shows "output_ref C tx i = Inr \<lparr>cr_asset_id = cr_asset_id (cell_reference (tx_input tx)), cr_id = output_id C x i,
    cr_generation = cr_generation (cell_reference (tx_input tx)) + 1\<rparr>"
  using assms by (simp add: output_ref_def output_id_def checked_add64_def)

text \<open>The cells a transfer creates, written out.\<close>

definition output_cells :: "crypto \<Rightarrow> digest \<Rightarrow> tx \<Rightarrow> cell list" where
  "output_cells C x tx = map (\<lambda>(i, out).
    let r = \<lparr>cr_asset_id = cr_asset_id (cell_reference (tx_input tx)), cr_id = output_id C x i,
             cr_generation = cr_generation (cell_reference (tx_input tx)) + 1\<rparr>
    in \<lparr>cell_reference = r, cell_amount = out_amount out, cell_owner = out_owner out,
        cell_predecessor = cell_state_digest (tx_input tx),
        cell_state_digest = compute_cell_digest C r (out_amount out) (out_owner out) (cell_state_digest (tx_input tx))\<rparr>)
    (List.enumerate 0 (effects C tx))"

lemma materialize_complete:
  assumes "intent_hash C tx = Inr x" and "unat (cr_generation (cell_reference (tx_input tx))) + 1 < 2 ^ 64"
    and "length (tx_outputs tx) \<le> 8"
  shows "materialize_outputs C tx = Inr (output_cells C x tx)"
  unfolding materialize_outputs_def output_cells_def
proof (rule mapE_total, safe)
  fix i out assume "(i, out) \<in> set (List.enumerate 0 (effects C tx))"
  then have "i < 2 ^ 32"
    using assms(3) by (auto simp: in_set_enumerate_eq effects_def)
  then show "output_cell C tx (i, out) =
      Inr (let r = \<lparr>cr_asset_id = cr_asset_id (cell_reference (tx_input tx)), cr_id = output_id C x i,
                   cr_generation = cr_generation (cell_reference (tx_input tx)) + 1\<rparr>
           in \<lparr>cell_reference = r, cell_amount = out_amount out, cell_owner = out_owner out,
               cell_predecessor = cell_state_digest (tx_input tx),
               cell_state_digest = compute_cell_digest C r (out_amount out) (out_owner out) (cell_state_digest (tx_input tx))\<rparr>)"
    by (simp add: output_cell_def output_ref_complete [OF assms(1,2)] Let_def)
qed

lemma apply_complete:
  assumes live: "fmlookup (st_live s) (cell_reference (tx_input tx)) = Some (tx_input tx)"
    and auth: "verify_user_auth C tx auth m = Inr ()"
    and fin: "check_finality C tx pq cq m = Inr x" and new: "fmlookup (st_applied s) x = None"
    and gen: "unat (cr_generation (cell_reference (tx_input tx))) + 1 < 2 ^ 64"
    and ids: "inj_on (output_id C x) {..length (tx_outputs tx)}"
      "\<And>i. i \<le> length (tx_outputs tx) \<Longrightarrow> output_id C x i |\<notin>| st_known_ids s"
  obtains rc where "apply_finalized C s tx auth pq cq m = Inr (Applied rc, commit tx x rc (output_cells C x tx) s)"
    "rc_intent rc = x" "rc_output_refs rc = map cell_reference (output_cells C x tx)" "qc_digest C cq m = Inr (rc_certificate_digest rc)"
proof -
  have tx: "valid_tx C tx m"
    using auth by (simp add: verify_user_auth_iff)
  have x: "intent_hash C tx = Inr x"
    using check_finalityD(1) [OF fin] .
  obtain d rnd dp where "valid_qc C cq m PHASE_PRECOMMIT rnd (conflict_key C (cell_reference (tx_input tx))) x (Some dp)"
    using check_finalityD(2) [OF fin] by blast
  then obtain cd where cd: "qc_digest C cq m = Inr cd"
    using qc_digest_valid by fastforce
  let ?outs = "output_cells C x tx"
  have "length (tx_outputs tx) \<le> 8"
    using tx by (simp add: valid_tx_def)
  note mat = materialize_complete [OF x gen this]
  have asset: "\<forall>out \<in> set (effects C tx). out_amount out \<noteq> 0 \<and> cr_asset_id (cell_reference (tx_input tx)) = ASSET_CALIBRE"
    using tx by (auto simp: valid_tx_def effects_def validate_cell_Inr_iff)
  have cells: "\<forall>c \<in> set ?outs. validate_cell C c = Inr () \<and> cr_id (cell_reference c) |\<notin>| st_known_ids s"
  proof
    fix c assume "c \<in> set ?outs"
    then obtain i out where i: "(i, out) \<in> set (List.enumerate 0 (effects C tx))" and c: "c = (let r = \<lparr>cr_asset_id = cr_asset_id (cell_reference (tx_input tx)), cr_id = output_id C x i,
                   cr_generation = cr_generation (cell_reference (tx_input tx)) + 1\<rparr>
           in \<lparr>cell_reference = r, cell_amount = out_amount out, cell_owner = out_owner out,
               cell_predecessor = cell_state_digest (tx_input tx),
               cell_state_digest = compute_cell_digest C r (out_amount out) (out_owner out) (cell_state_digest (tx_input tx))\<rparr>)"
      by (auto simp: output_cells_def)
    have "i < length (effects C tx)" "out \<in> set (effects C tx)"
      using i by (auto simp: in_set_enumerate_eq)
    then have "i \<le> length (tx_outputs tx)" "out \<in> set (effects C tx)"
      by (simp_all add: effects_def)
    then show "validate_cell C c = Inr () \<and> cr_id (cell_reference c) |\<notin>| st_known_ids s"
      using asset ids(2) by (auto simp: c Let_def validate_cell_Inr_iff)
  qed
  have refs: "map cell_reference ?outs = map (\<lambda>i. \<lparr>cr_asset_id = cr_asset_id (cell_reference (tx_input tx)), cr_id = output_id C x i,
                   cr_generation = cr_generation (cell_reference (tx_input tx)) + 1\<rparr>) [0..<Suc (length (tx_outputs tx))]"
    by (rule nth_equalityI) (simp_all add: output_cells_def effects_def nth_enumerate_eq Let_def del: upt_Suc)
  have "distinct (map cell_reference ?outs)"
    unfolding refs distinct_map using ids(1) by (auto simp: inj_on_def simp del: upt_Suc)
  then show thesis
    using that [of "\<lparr>rc_intent = x, rc_certificate_digest = cd, rc_output_refs = map cell_reference ?outs\<rparr>"]
      apply_Applied_iff fin new auth live cd mat cells by auto
qed

section \<open>Messages are delivered\<close>

lemma length_put_cell [simp]: "length (put_cell c) = 148"
  by (simp add: put_cell_def put_cell_ref_def)

lemma put_tx_ok:
  assumes "tx_outputs tx \<noteq> []" and "length (tx_outputs tx) \<le> 8"
  obtains bs where "put_tx tx = Inr bs" "length bs \<le> 600"
proof -
  have "length (concat (map put_output (tx_outputs tx))) = 44 * length (tx_outputs tx)"
    by (rule concat_fixed_length) (simp add: put_output_def)
  then show thesis
    using that assms by (simp add: put_tx_def put_bounded_count_Inr_iff wire_limits put_bounded_count_def)
qed

lemma put_vote_ok:
  assumes "v_phase v = PHASE_PREVOTE \<or> v_phase v = PHASE_PRECOMMIT"
  obtains bs where "put_vote v = Inr bs" "length bs = 214"
  using that assms by (auto simp: put_vote_def put_phase_def)

lemma put_qc_ok:
  assumes "valid_qc C qc m p r c x ej" and "p = PHASE_PREVOTE \<or> p = PHASE_PRECOMMIT"
  obtains bs where "put_qc qc = Inr bs" "length bs \<le> 1600"
proof -
  have phases: "\<forall>v \<in> set (qc_votes qc). v_phase v = PHASE_PREVOTE \<or> v_phase v = PHASE_PRECOMMIT"
    using assms by (auto simp: valid_qc_def same_statement_def)
  have len: "5 \<le> length (qc_votes qc)" "length (qc_votes qc) \<le> 7"
    using assms(1) by (simp_all add: valid_qc_def Q_def N_def)
  let ?put = "\<lambda>v. projr (put_vote v)"
  have "\<forall>v \<in> set (qc_votes qc). put_vote v = Inr (?put v)"
    using phases by (metis put_vote_ok sum.sel(2))
  then have "mapE put_vote (qc_votes qc) = Inr (map ?put (qc_votes qc))"
    by (rule mapE_total)
  moreover have "length (concat (map ?put vs)) = 214 * length vs" if "set vs \<subseteq> set (qc_votes qc)" for vs
    using that phases by (induction vs) (auto elim!: put_vote_ok)
  ultimately have "put_qc qc = Inr (to_le32 (of_nat (length (qc_votes qc))) @ concat (map ?put (qc_votes qc)))"
    "length (concat (map ?put (qc_votes qc))) \<le> 1500"
    using len by (auto simp: put_qc_def put_bounded_count_def wire_limits)
  then show thesis
    using that by simp
qed

lemma put_proposal_ok:
  assumes "tx_outputs (pr_tx p) \<noteq> []" "length (tx_outputs (pr_tx p)) \<le> 8" "pr_justify p = None"
  obtains bs where "put_proposal p = Inr bs" "length bs \<le> 900"
  by (rule put_tx_ok [OF assms(1,2)]) (use that assms(3) in \<open>simp add: put_proposal_def put_user_auth_def put_bool_def\<close>)

lemma exact_encode_ok: "put v = Inr bs \<Longrightarrow> length bs \<le> MAX_FRAME_LEN \<Longrightarrow> exact_encode put v = Inr bs"
  by (simp add: exact_encode_def encoder_finish_def)

lemma encode_request_ok:
  assumes "tx_outputs tx \<noteq> []" "length (tx_outputs tx) \<le> 8"
    and "valid_qc C pq m PHASE_PREVOTE r c x None" and "valid_qc C fq m PHASE_PRECOMMIT r' c x ej"
  shows "pr_tx p = tx \<Longrightarrow> pr_justify p = None \<Longrightarrow> \<exists>bs. encode_request (Prevote p) = Inr bs"
    and "pr_tx p = tx \<Longrightarrow> pr_justify p = None \<Longrightarrow> \<exists>bs. encode_request (Precommit p pq) = Inr bs"
    and "\<exists>bs. encode_request (Apply tx auth pq fq) = Inr bs"
proof -
  obtain pb where pb: "put_qc pq = Inr pb" "length pb \<le> 1600"
    by (rule put_qc_ok [OF assms(3)]) simp
  obtain fb where fb: "put_qc fq = Inr fb" "length fb \<le> 1600"
    by (rule put_qc_ok [OF assms(4)]) simp
  obtain tb where tb: "put_tx tx = Inr tb" "length tb \<le> 600"
    by (rule put_tx_ok [OF assms(1,2)])
  show "\<exists>bs. encode_request (Apply tx auth pq fq) = Inr bs"
    using pb fb tb by (auto simp: encode_request_def MAX_FRAME_LEN_def put_user_auth_def intro!: exact_encode_ok)
  assume p: "pr_tx p = tx" "pr_justify p = None"
  obtain prb where "put_proposal p = Inr prb" "length prb \<le> 900"
    by (rule put_proposal_ok [of p]) (use p assms(1,2) in simp_all)
  then show "\<exists>bs. encode_request (Prevote p) = Inr bs" "\<exists>bs. encode_request (Precommit p pq) = Inr bs"
    using pb by (auto simp: encode_request_def MAX_FRAME_LEN_def intro!: exact_encode_ok)
qed

lemma encode_vote_response_ok:
  assumes "v_phase v = PHASE_PREVOTE \<or> v_phase v = PHASE_PRECOMMIT"
  shows "\<exists>bs. encode_response (VoteResponse v) = Inr bs"
  by (rule put_vote_ok [OF assms]) (auto simp: encode_response_def MAX_FRAME_LEN_def intro!: exact_encode_ok)

lemma exact_encode_bound: "exact_encode put v = Inr bs \<Longrightarrow> length bs \<le> MAX_FRAME_LEN"
  by (auto simp: exact_encode_def encoder_finish_def split: if_splits)

lemma write_frame_ok: "length bs \<le> MAX_FRAME_LEN \<Longrightarrow> \<exists>frame. write_frame bs = Inr frame"
  by (simp add: write_frame_def MAX_FRAME_LEN_def)

text \<open>A request that can be encoded reaches its validator, and an encodable response comes back.\<close>

lemma serve_request:
  assumes "encode_request req = Inr payload" and "write_frame payload = Inr frame"
    and "handle_request C io req n = (Inr (resp, sd), n')"
  shows "serve_connection C io frame n = (sent (send_response resp), sd, n')"
proof -
  have "read_frame frame = Inr (payload, [])"
    using read_write_frame [OF assms(2), of "[]"] by simp
  moreover have "decode_request payload = Inr req"
    using request_codec.decode_encode [of req payload] assms(1) unfolding decode_request_def encode_request_def by blast
  ultimately show ?thesis
    using assms(3) by (simp add: serve_connection_def)
qed

lemma rpc_delivers:
  assumes req: "encode_request req = Inr payload" and net: "net req i = Reached io" and i: "i < length (w_nodes w)"
    and handle: "handle_request C io req (w_nodes w ! i) = (Inr (resp, sd), n')" and out: "encode_response resp = Inr bs"
  obtains m where "rpc C net i req w = (Inr resp, w\<lparr>w_nodes := (w_nodes w)[i := n'], w_metrics := m\<rparr>)"
proof -
  obtain frame where frame: "write_frame payload = Inr frame"
    using write_frame_ok [OF exact_encode_bound [OF req [unfolded encode_request_def]]] by blast
  obtain reply where reply: "write_frame bs = Inr reply"
    using write_frame_ok [OF exact_encode_bound [OF out [unfolded encode_response_def]]] by blast
  have "sent (send_response resp) = reply"
    using out reply by (simp add: sent_def send_response_def)
  moreover have "read_frame reply = Inr (bs, [])"
    using read_write_frame [OF reply, of "[]"] by simp
  moreover have "decode_response bs = Inr resp"
    using response_codec.decode_encode [of resp bs] out unfolding decode_response_def encode_response_def by blast
  ultimately show thesis
    using that req net i serve_request [OF req frame handle] frame
    by (simp add: rpc_def rpc_raw_def bindR_def liftR_def Let_def)
qed

section \<open>Votes of a validator that is free to vote\<close>

text \<open>
  An honest, active, healthy validator with room for \<open>k\<close> records, no lock that stands against
  intent \<open>x\<close> in round \<open>r\<close>, and no vote for another intent in that round.
\<close>

definition free_for :: "replay_state \<Rightarrow> digest \<Rightarrow> u64 \<Rightarrow> digest \<Rightarrow> bool" where
  "free_for st c r x \<longleftrightarrow>
    (\<forall>l. fmlookup (rs_locks st) c = Some l \<longrightarrow> pl_round l \<le> r \<and> pl_digest l = x) \<and>
    (\<forall>p d. fmlookup (rs_votes st) \<lparr>vk_conflict_key = c, vk_round = r, vk_phase = p\<rparr> = Some d \<longrightarrow> d = x)"

definition voter :: "crypto \<Rightarrow> node_config \<Rightarrow> digest \<Rightarrow> u64 \<Rightarrow> digest \<Rightarrow> nat \<Rightarrow> node_server \<Rightarrow> bool" where
  "voter C config c r x k n \<longleftrightarrow>
    node_inv C config n \<and> \<not> nc_byzantine config \<and> unat (nc_index config) < N \<and>
    rs_lifecycle (ws_state (ns_store n)) = Active \<and> \<not> ws_poisoned (ns_store n) \<and>
    unat (rs_next_sequence (ws_state (ns_store n))) + k < 2 ^ 64 \<and> free_for (ws_state (ns_store n)) c r x"

lemma free_no_rejection: "free_for (ws_state (ns_store n)) c r x \<Longrightarrow> durable_vote_rejection n c r p x = None"
  by (auto simp: free_for_def durable_vote_rejection_def lock_of_def vote_digest_def split: option.splits)

lemma free_check_lock: "free_for st c r x \<Longrightarrow> check_lock st c r x = Inr ()"
  by (auto simp: free_for_def check_lock_Inr_iff)

lemma free_insert_vote: "free_for st c r x \<Longrightarrow> free_for (insert_vote c r p x (st\<lparr>rs_next_sequence := m\<rparr>)) c r x"
  by (auto simp: free_for_def insert_vote_def Let_def)

lemma insert_vote_fields [simp]:
  "rs_lifecycle (insert_vote c r p x st) = rs_lifecycle st"
  "rs_next_sequence (insert_vote c r p x st) = rs_next_sequence st"
  "fmlookup (rs_votes (insert_vote c r p x st)) \<lparr>vk_conflict_key = c, vk_round = r, vk_phase = p\<rparr> = Some x"
  by (auto simp: insert_vote_def Let_def)

lemma append_then_written:
  assumes "length payload \<le> MAX_PAYLOAD_BYTES" and "unat (rs_next_sequence (ws_state w)) + 1 < 2 ^ 64"
  shows "append_then C None kind payload update w = (Inr Persisted,
    w\<lparr>ws_file := ws_file w @ record_bytes C (rs_next_sequence (ws_state w)) kind payload,
      ws_state := update ((ws_state w)\<lparr>rs_next_sequence := rs_next_sequence (ws_state w) + 1\<rparr>)\<rparr>)"
  using assms by (simp add: append_then_def wal_append_def append_record_def checked_add64_def Let_def)

text \<open>A free validator can always write its vote.\<close>

definition store_free :: "digest \<Rightarrow> u64 \<Rightarrow> digest \<Rightarrow> nat \<Rightarrow> wal_store \<Rightarrow> bool" where
  "store_free c r x k w \<longleftrightarrow> rs_lifecycle (ws_state w) = Active \<and> \<not> ws_poisoned w \<and>
    unat (rs_next_sequence (ws_state w)) + k < 2 ^ 64 \<and> free_for (ws_state w) c r x"

lemma voter_store: "voter C config c r x k n \<longleftrightarrow> node_inv C config n \<and> \<not> nc_byzantine config \<and>
    unat (nc_index config) < N \<and> store_free c r x k (ns_store n)"
  by (auto simp: voter_def store_free_def)

lemma persist_vote_free:
  assumes free: "store_free c r x (Suc k) w" and p: "p = PHASE_PREVOTE \<or> p = PHASE_PRECOMMIT"
  obtains res w' where "persist_vote C None c r p x w = (Inr res, w')" "store_free c r x k w'"
    "vote_digest w' c r p = Some x"
proof (cases "vote_digest w c r p")
  case None
  have ok: "bindE (ensure_active w) (\<lambda>_. validate_phase p) = Inr ()" "check_lock (ws_state w) c r x = Inr ()"
    using free p free_check_lock
    by (auto simp: store_free_def ensure_active_Inr_iff validate_phase_def)
  have room: "unat (rs_next_sequence (ws_state w)) + 1 < 2 ^ 64" "length (vote_payload c r p x) \<le> MAX_PAYLOAD_BYTES"
    using free by (simp_all add: store_free_def vote_payload_def MAX_PAYLOAD_BYTES_def MAX_SNAPSHOT_BYTES_def)
  let ?w = "w\<lparr>ws_file := ws_file w @ record_bytes C (rs_next_sequence (ws_state w)) KIND_VOTE (vote_payload c r p x),
      ws_state := insert_vote c r p x ((ws_state w)\<lparr>rs_next_sequence := rs_next_sequence (ws_state w) + 1\<rparr>)\<rparr>"
  have "persist_vote C None c r p x w = (Inr Persisted, ?w)"
    using None ok append_then_written [OF room(2,1)] by (simp add: persist_vote_def)
  moreover have "unat (rs_next_sequence (ws_state w) + 1) = unat (rs_next_sequence (ws_state w)) + 1"
    using room(1) by (simp add: unat_word_ariths)
  then have "store_free c r x k ?w"
    using free free_insert_vote by (simp add: store_free_def)
  moreover have "vote_digest ?w c r p = Some x"
    by (simp add: vote_digest_def)
  ultimately show thesis
    using that by blast
next
  case (Some d)
  then have "d = x"
    using free by (auto simp: store_free_def free_for_def vote_digest_def)
  moreover have "bindE (ensure_active w) (\<lambda>_. validate_phase p) = Inr ()"
    using free p by (auto simp: store_free_def ensure_active_Inr_iff validate_phase_def)
  ultimately have "persist_vote C None c r p x w = (Inr AlreadyPresent, w)"
    using Some by (simp add: persist_vote_def)
  moreover have "store_free c r x k w"
    using free by (simp add: store_free_def)
  ultimately show thesis
    using that Some \<open>d = x\<close> by blast
qed

lemma persist_own_vote_free:
  assumes "store_free c r x (Suc k) (ns_store n)" and p: "p = PHASE_PREVOTE \<or> p = PHASE_PRECOMMIT"
  obtains w' where "persist_own_vote C None n c r p x = (Inr (), n\<lparr>ns_store := w'\<rparr>)" "store_free c r x k w'"
    "vote_digest w' c r p = Some x"
proof -
  obtain res w' where "persist_vote C None c r p x (ns_store n) = (Inr res, w')" "store_free c r x k w'"
    "vote_digest w' c r p = Some x"
    using persist_vote_free [OF assms] .
  moreover have "durable_vote_rejection n c r p x = None"
    using assms(1) by (intro free_no_rejection) (simp add: store_free_def)
  ultimately show thesis
    using that by (simp add: persist_own_vote_def)
qed

section \<open>The answers of honest validators\<close>

text \<open>What a vote must look like to count for a certificate, and to be the one its member signs.\<close>

definition counts_for ::
    "crypto \<Rightarrow> u64 \<Rightarrow> u8 \<Rightarrow> u64 \<Rightarrow> digest \<Rightarrow> digest \<Rightarrow> digest option \<Rightarrow> vote \<Rightarrow> bool" where
  "counts_for C e p r c x ej v \<longleftrightarrow>
    valid_vote C v (lab_committee C e) \<and> same_statement v p r c x \<and> expected_ok ej v \<and>
    sign_vote C (lab_committee C e) p r c x (case ej of None \<Rightarrow> zero_array | Some j \<Rightarrow> j) (v_signer_index v)
      (lab_validator_key C e (unat (v_signer_index v))) = Inr v"

lemma sign_as_lab:
  assumes sig: "signatures_verify C" and inv: "node_inv C config n" and idx: "unat (nc_index config) < N"
    and "may_justify phase j"
  obtains v where "sign_as C n phase r c x j = Inr v" "v_signer_index v = nc_index config"
    "counts_for C (nc_epoch config) phase r c x (if phase = PHASE_PREVOTE then None else Some j) v"
proof -
  let ?m = "lab_committee C (nc_epoch config)" and ?i = "nc_index config"
  have n: "ns_manifest n = ?m" "ns_signing_key n = lab_validator_key C (nc_epoch config) (unat ?i)" "ns_index n = ?i"
    "valid_manifest C ?m"
    using inv by (auto simp: node_inv_def committee_hash_Inr_iff)
  obtain v where v: "sign_vote C ?m phase r c x j (of_nat (unat ?i)) (lab_validator_key C (nc_epoch config) (unat ?i)) = Inr v"
    using sign_vote_lab [OF n(4) idx assms(4)] by blast
  then have "sign_as C n phase r c x j = Inr v"
    using n by (simp add: sign_as_def)
  then show thesis
    using that [of v] sign_vote_valid [OF sig v] sign_vote_fields [OF v] v assms(4)
    by (auto simp: counts_for_def same_statement_def expected_ok_def may_justify_def)
qed

lemma prevote_succeeds:
  assumes sig: "signatures_verify C" and voter: "voter C config (conflict_key C (cell_reference (tx_input (pr_tx p)))) (pr_round p) (pr_intent p) (Suc k) n"
    and p: "verify_proposal C p (lab_committee C (nc_epoch config)) = Inr ()"
    and live: "live_cell (ns_state n) (cell_reference (tx_input (pr_tx p))) = Some (tx_input (pr_tx p))"
  obtains v n' where "handle_request C None (Prevote p) n = (Inr (VoteResponse v, False), n')"
    "counts_for C (nc_epoch config) PHASE_PREVOTE (pr_round p)
      (conflict_key C (cell_reference (tx_input (pr_tx p)))) (pr_intent p) None v"
    "v_signer_index v = nc_index config"
    "voter C config (conflict_key C (cell_reference (tx_input (pr_tx p)))) (pr_round p) (pr_intent p) k n'" "ns_state n' = ns_state n"
    "vote_digest (ns_store n') (conflict_key C (cell_reference (tx_input (pr_tx p)))) (pr_round p) PHASE_PREVOTE = Some (pr_intent p)"
proof -
  let ?c = "conflict_key C (cell_reference (tx_input (pr_tx p)))"
  have inv: "node_inv C config n" and free: "store_free ?c (pr_round p) (pr_intent p) (Suc k) (ns_store n)"
    and honest: "\<not> nc_byzantine config" and idx: "unat (nc_index config) < N"
    using voter by (simp_all add: voter_store)
  obtain w' where w': "persist_own_vote C None n ?c (pr_round p) PHASE_PREVOTE (pr_intent p) = (Inr (), n\<lparr>ns_store := w'\<rparr>)"
    "store_free ?c (pr_round p) (pr_intent p) k w'" "vote_digest w' ?c (pr_round p) PHASE_PREVOTE = Some (pr_intent p)"
    using persist_own_vote_free [OF free] by blast
  have m: "may_justify PHASE_PREVOTE zero_array"
    by (simp add: may_justify_def)
  obtain v where v: "sign_as C n PHASE_PREVOTE (pr_round p) ?c (pr_intent p) zero_array = Inr v" "v_signer_index v = nc_index config"
    "counts_for C (nc_epoch config) PHASE_PREVOTE (pr_round p) ?c (pr_intent p) None v"
    by (rule sign_as_lab [OF sig inv idx m, of "pr_round p" ?c "pr_intent p"]) simp
  have "validate_live_proposal C n p = Inr ()" "\<not> ns_byzantine n"
    using p live inv honest by (simp_all add: validate_live_proposal_def node_inv_def)
  moreover have "sign_as C (n\<lparr>ns_store := w'\<rparr>) PHASE_PREVOTE (pr_round p) ?c (pr_intent p) zero_array = Inr v"
    using v(1) by (simp add: sign_as_def)
  ultimately have h: "handle_request C None (Prevote p) n = (Inr (VoteResponse v, False), n\<lparr>ns_store := w'\<rparr>)"
    using w'(1) by (simp add: handle_prevote_def Let_def)
  then have "node_inv C config (n\<lparr>ns_store := w'\<rparr>)"
    using node_step_inv [OF node_step.request [OF h] inv] by simp
  then show thesis
    using that h v w' honest idx by (simp add: voter_store)
qed

lemma precommit_succeeds:
  assumes sig: "signatures_verify C" and voter: "voter C config (conflict_key C (cell_reference (tx_input (pr_tx p)))) (pr_round p) (pr_intent p) (Suc k) n"
    and p: "verify_proposal C p (lab_committee C (nc_epoch config)) = Inr ()"
    and live: "live_cell (ns_state n) (cell_reference (tx_input (pr_tx p))) = Some (tx_input (pr_tx p))"
    and pq: "valid_qc C pq (lab_committee C (nc_epoch config)) PHASE_PREVOTE (pr_round p)
      (conflict_key C (cell_reference (tx_input (pr_tx p)))) (pr_intent p) None"
    and d: "qc_digest C pq (lab_committee C (nc_epoch config)) = Inr d" "d \<noteq> zero_array"
    and voted: "vote_digest (ns_store n) (conflict_key C (cell_reference (tx_input (pr_tx p)))) (pr_round p) PHASE_PREVOTE = Some (pr_intent p)"
  obtains v n' where "handle_request C None (Precommit p pq) n = (Inr (VoteResponse v, False), n')"
    "counts_for C (nc_epoch config) PHASE_PRECOMMIT (pr_round p)
      (conflict_key C (cell_reference (tx_input (pr_tx p)))) (pr_intent p) (Some d) v"
    "v_signer_index v = nc_index config"
    "voter C config (conflict_key C (cell_reference (tx_input (pr_tx p)))) (pr_round p) (pr_intent p) k n'" "ns_state n' = ns_state n"
proof -
  let ?c = "conflict_key C (cell_reference (tx_input (pr_tx p)))"
  have inv: "node_inv C config n" and free: "store_free ?c (pr_round p) (pr_intent p) (Suc k) (ns_store n)"
    and honest: "\<not> nc_byzantine config" and idx: "unat (nc_index config) < N"
    using voter by (simp_all add: voter_store)
  obtain w' where w': "persist_own_vote C None n ?c (pr_round p) PHASE_PRECOMMIT (pr_intent p) = (Inr (), n\<lparr>ns_store := w'\<rparr>)"
    "store_free ?c (pr_round p) (pr_intent p) k w'"
    using persist_own_vote_free [OF free] by blast
  have m: "may_justify PHASE_PRECOMMIT d"
    using d(2) by (simp add: may_justify_def)
  obtain v where v: "sign_as C n PHASE_PRECOMMIT (pr_round p) ?c (pr_intent p) d = Inr v" "v_signer_index v = nc_index config"
    "counts_for C (nc_epoch config) PHASE_PRECOMMIT (pr_round p) ?c (pr_intent p) (Some d) v"
    by (rule sign_as_lab [OF sig inv idx m, of "pr_round p" ?c "pr_intent p"]) simp
  have "check_precommit C n p pq = Inr d" "\<not> ns_byzantine n"
    using p live pq d(1) voted inv honest
    by (simp_all add: check_precommit_def validate_live_proposal_def node_inv_def verify_qc_iff [THEN iffD2] Let_def)
  moreover have "sign_as C (n\<lparr>ns_store := w'\<rparr>) PHASE_PRECOMMIT (pr_round p) ?c (pr_intent p) d = Inr v"
    using v(1) by (simp add: sign_as_def)
  ultimately have h: "handle_request C None (Precommit p pq) n = (Inr (VoteResponse v, False), n\<lparr>ns_store := w'\<rparr>)"
    using w'(1) by (simp add: handle_precommit_def Let_def)
  then have "node_inv C config (n\<lparr>ns_store := w'\<rparr>)"
    using node_step_inv [OF node_step.request [OF h] inv] by simp
  then show thesis
    using that h v w' honest idx by (simp add: voter_store)
qed

section \<open>Collecting votes and finalizing\<close>

lemma honest_indices: "distinct HONEST_INDICES" "\<forall>i \<in> set HONEST_INDICES. i < N" "length HONEST_INDICES = Q"
  by (simp_all add: HONEST_INDICES_def N_def Q_def)

lemma collect_votes_complete:
  assumes req: "encode_request req = Inr payload"
    and phase: "\<forall>v. G v \<longrightarrow> v_phase v = PHASE_PREVOTE \<or> v_phase v = PHASE_PRECOMMIT"
    and step: "\<forall>i n. P i n \<longrightarrow> (\<exists>v n'. handle_request C None req n = (Inr (VoteResponse v, False), n') \<and>
      v_signer_index v = of_nat i \<and> G v \<and> R i n')"
    and nodes: "distinct is" "\<forall>i \<in> set is. net req i = Reached None \<and> i < N \<and> i < length (w_nodes w) \<and> P i (w_nodes w ! i)"
  shows "\<exists>votes w'. collect_votes C net is req w = (Inr votes, w') \<and> (\<forall>v \<in> set votes. G v) \<and>
    map v_signer_index votes = map of_nat is \<and> length (w_nodes w') = length (w_nodes w) \<and>
    (\<forall>i \<in> set is. R i (w_nodes w' ! i)) \<and> (\<forall>j. j \<notin> set is \<longrightarrow> w_nodes w' ! j = w_nodes w ! j)"
  using step nodes
proof (induction "is" arbitrary: w)
  case (Cons i "is")
  then have i: "net req i = Reached None" "i < N" "i < length (w_nodes w)" "P i (w_nodes w ! i)" "i \<notin> set is"
    by auto
  then obtain v n' where v: "handle_request C None req (w_nodes w ! i) = (Inr (VoteResponse v, False), n')"
    "v_signer_index v = of_nat i" "G v" "R i n'"
    using Cons.prems(1) i(4) by meson
  obtain bs where "encode_response (VoteResponse v) = Inr bs"
    using encode_vote_response_ok phase v(3) by meson
  then obtain m where m: "rpc C net i req w = (Inr (VoteResponse v), w\<lparr>w_nodes := (w_nodes w)[i := n'], w_metrics := m\<rparr>)"
    using rpc_delivers [where net = net and i = i and w = w, OF req i(1,3) v(1)] by blast
  let ?w = "w\<lparr>w_nodes := (w_nodes w)[i := n'], w_metrics := m\<rparr>"
  have vote: "request_vote C net i req w = (Inr (Some v), ?w)"
    using m i v(2) by (simp add: request_vote_def u8_index)
  have "\<forall>j \<in> set is. net req j = Reached None \<and> j < N \<and> j < length (w_nodes ?w) \<and> P j (w_nodes ?w ! j)"
    using Cons.prems(3) i(5) by (auto simp: nth_list_update)
  then obtain votes w' where rest: "collect_votes C net is req ?w = (Inr votes, w')" "\<forall>v \<in> set votes. G v"
    "map v_signer_index votes = map of_nat is" "length (w_nodes w') = length (w_nodes ?w)"
    "\<forall>j \<in> set is. R j (w_nodes w' ! j)" "\<forall>j. j \<notin> set is \<longrightarrow> w_nodes w' ! j = w_nodes ?w ! j"
    using Cons.IH [of ?w] Cons.prems(1,2) by auto
  have "collect_votes C net (i # is) req w = (Inr (v # votes), w')"
    using vote rest(1) by (simp add: bindR_def liftR_def)
  moreover have "w_nodes w' ! i = n'"
    using rest(6) i(3,5) by simp
  moreover have "w_nodes w' ! j = w_nodes w ! j" if "j \<notin> set (i # is)" for j
    using rest(6) that by auto
  ultimately show ?case
    using rest v by (intro exI [of _ "v # votes"] exI [of _ w']) auto
qed simp

lemma counts_votes_for:
  assumes "\<forall>v \<in> set votes. counts_for C e p r c x ej v" and "map v_signer_index votes = map of_nat is"
    and "distinct is" and "\<forall>i \<in> set is. i < N"
  shows "votes_for C (lab_committee C e) p r c x ej votes" and "length votes = length is"
proof -
  have "inj_on (of_nat :: nat \<Rightarrow> u8) (set is)"
    using assms(4) u8_index by (metis inj_onI)
  then show "votes_for C (lab_committee C e) p r c x ej votes"
    using assms by (simp add: votes_for_def counts_for_def distinct_map)
  show "length votes = length is"
    using assms(2) by (metis length_map)
qed

text \<open>
  The prevote certificate that the honest members of the lab committee sign for a transfer in a
  round: their votes are determined, so there is one, and one digest of it.
\<close>

definition honest_prevote_qc :: "crypto \<Rightarrow> u64 \<Rightarrow> tx \<Rightarrow> u64 \<Rightarrow> model_error + qc" where
  "honest_prevote_qc C e tx r =
    bindE (intent_hash C tx) (\<lambda>x.
    bindE (mapE (\<lambda>i. sign_vote C (lab_committee C e) PHASE_PREVOTE r (conflict_key C (cell_reference (tx_input tx))) x
      zero_array (of_nat i) (lab_validator_key C e i)) HONEST_INDICES) (\<lambda>votes.
    assemble_qc C votes (lab_committee C e) PHASE_PREVOTE r (conflict_key C (cell_reference (tx_input tx))) x None))"

definition honest_prevote_digest :: "crypto \<Rightarrow> u64 \<Rightarrow> tx \<Rightarrow> u64 \<Rightarrow> model_error + digest" where
  "honest_prevote_digest C e tx r =
    bindE (honest_prevote_qc C e tx r) (\<lambda>qc. qc_digest C qc (lab_committee C e))"

lemma counts_signed:
  assumes "\<forall>v \<in> set votes. counts_for C e PHASE_PREVOTE r c x None v" and "map v_signer_index votes = map of_nat is"
    and "\<forall>i \<in> set is. i < N"
  shows "mapE (\<lambda>i. sign_vote C (lab_committee C e) PHASE_PREVOTE r c x zero_array (of_nat i) (lab_validator_key C e i)) is =
    Inr votes"
  using assms
proof (induction votes arbitrary: "is")
  case (Cons v votes)
  then obtain i js where i: "is = i # js" "v_signer_index v = of_nat i" "map v_signer_index votes = map of_nat js" "i < N"
    by (cases "is") auto
  then show ?case
    using Cons.IH [of js] Cons.prems u8_index [OF i(4)] by (auto simp: counts_for_def)
qed simp

lemma honest_prevote_qcI:
  assumes "\<forall>v \<in> set votes. counts_for C e PHASE_PREVOTE r (conflict_key C (cell_reference (tx_input tx))) x None v"
    and "map v_signer_index votes = map of_nat HONEST_INDICES" and "intent_hash C tx = Inr x"
    and "assemble_qc C votes (lab_committee C e) PHASE_PREVOTE r (conflict_key C (cell_reference (tx_input tx))) x None = Inr qc"
    and "qc_digest C qc (lab_committee C e) = Inr d"
  shows "honest_prevote_digest C e tx r = Inr d"
  using counts_signed [OF assms(1,2) honest_indices(2)] assms(3-5)
  by (simp add: honest_prevote_digest_def honest_prevote_qc_def)

lemma honest_prevote_digest_nonzero:
  "(\<And>m. blake3 C m \<noteq> zero_array) \<Longrightarrow> honest_prevote_digest C e tx r \<noteq> Inr zero_array"
  by (auto simp: honest_prevote_digest_def hash_domain_def elim!: qc_digest_InrD) (metis (no_types))

lemma make_proposal_ok:
  assumes "verify_user_auth C tx auth (lab_committee C e) = Inr ()" and "intent_hash C tx = Inr x"
  obtains p where "make_proposal C (lab_committee C e) r tx auth None = Inr p" "pr_tx p = tx" "pr_round p = r"
    "pr_intent p = x" "pr_justify p = None"
proof -
  have "valid_manifest C (lab_committee C e)"
    using assms(1) by (simp add: verify_user_auth_iff valid_tx_def)
  then obtain h where "committee_hash C (lab_committee C e) = Inr h"
    by (auto simp: committee_hash_Inr_iff)
  then show thesis
    using that assms by (simp add: make_proposal_def justify_digest_of_def proposal_message_def Let_def)
qed

text \<open>The cluster in which a controller's transfer must go through.\<close>

definition cluster_ready ::
    "crypto \<Rightarrow> u64 \<Rightarrow> (nat \<Rightarrow> node_config) \<Rightarrow> tx \<Rightarrow> u64 \<Rightarrow> digest \<Rightarrow> nat \<Rightarrow> world \<Rightarrow> bool" where
  "cluster_ready C e configs tx r x k w \<longleftrightarrow>
    (\<forall>i \<in> set HONEST_INDICES. i < length (w_nodes w) \<and> nc_index (configs i) = of_nat i \<and> nc_epoch (configs i) = e \<and>
      voter C (configs i) (conflict_key C (cell_reference (tx_input tx))) r x k (w_nodes w ! i) \<and>
      live_cell (ns_state (w_nodes w ! i)) (cell_reference (tx_input tx)) = Some (tx_input tx))"

definition network_delivers :: "network \<Rightarrow> bool" where
  "network_delivers net \<longleftrightarrow> (\<forall>req. \<forall>i \<in> set HONEST_INDICES. net req i = Reached None)"

lemma finalize_succeeds:
  assumes sig: "signatures_verify C" and nonzero: "honest_prevote_digest C e tx r \<noteq> Inr zero_array"
    and auth: "verify_user_auth C tx auth (lab_committee C e) = Inr ()"
    and x: "intent_hash C tx = Inr x"
    and ready: "cluster_ready C e configs tx r x 2 w" and net: "network_delivers net"
  obtains ft w' where "finalize_transfer C net elapsed (lab_committee C e) tx auth r w = (Inr ft, w')"
    "ft_tx ft = tx" "ft_auth ft = auth" "check_finality C tx (ft_prevote_qc ft) (ft_qc ft) (lab_committee C e) = Inr x"
    "length (qc_votes (ft_qc ft)) = Q" "length (w_nodes w') = length (w_nodes w)"
    "cluster_ready C e configs tx r x 0 w'" "\<forall>j. j \<notin> set HONEST_INDICES \<longrightarrow> w_nodes w' ! j = w_nodes w ! j"
proof -
  let ?m = "lab_committee C e" and ?c = "conflict_key C (cell_reference (tx_input tx))"
  have tx: "valid_tx C tx ?m"
    using auth by (simp add: verify_user_auth_iff)
  then have outs: "tx_outputs tx \<noteq> []" "length (tx_outputs tx) \<le> 8"
    by (simp_all add: valid_tx_def)
  obtain p where p: "make_proposal C ?m r tx auth None = Inr p" "pr_tx p = tx" "pr_round p = r" "pr_intent p = x" "pr_justify p = None"
    using make_proposal_ok [OF auth x] .
  note verified = make_proposal_verifies [OF sig p(1)]
  let ?free = "\<lambda>k i n. nc_index (configs i) = of_nat i \<and> nc_epoch (configs i) = e \<and> voter C (configs i) ?c r x k n \<and>
    live_cell (ns_state n) (cell_reference (tx_input tx)) = Some (tx_input tx)"
  let ?voted = "\<lambda>i n. ?free 1 i n \<and> vote_digest (ns_store n) ?c r PHASE_PREVOTE = Some x"
  have numerals: "(2 :: nat) = Suc 1" "(1 :: nat) = Suc 0"
    by simp_all
  obtain prb where prb: "put_proposal p = Inr prb" "length prb \<le> 900"
    by (rule put_proposal_ok [of p]) (use p outs in simp_all)
  then have "\<exists>bs. encode_request (Prevote p) = Inr bs"
    by (auto simp: encode_request_def MAX_FRAME_LEN_def intro!: exact_encode_ok)
  then obtain payload where payload: "encode_request (Prevote p) = Inr payload" ..
  have step1: "\<exists>v n'. handle_request C None (Prevote p) n = (Inr (VoteResponse v, False), n') \<and> v_signer_index v = of_nat i \<and>
      counts_for C e PHASE_PREVOTE r ?c x None v \<and> ?voted i n'" if "?free 2 i n" for i n
    using prevote_succeeds [OF sig, of "configs i" p 1 n] that p(2-4) verified unfolding numerals(1) by (metis numerals(1))
  have counted1: "\<forall>v. counts_for C e PHASE_PREVOTE r ?c x None v \<longrightarrow> v_phase v = PHASE_PREVOTE \<or> v_phase v = PHASE_PRECOMMIT"
    by (auto simp: counts_for_def same_statement_def)
  have counted2: "\<forall>v. counts_for C e PHASE_PRECOMMIT r ?c x (Some d) v \<longrightarrow> v_phase v = PHASE_PREVOTE \<or> v_phase v = PHASE_PRECOMMIT" for d
    by (auto simp: counts_for_def same_statement_def)
  have nodes: "\<forall>i \<in> set HONEST_INDICES. net (Prevote p) i = Reached None \<and> i < N \<and> i < length (w_nodes w) \<and> ?free 2 i (w_nodes w ! i)"
    using ready net honest_indices(2) unfolding cluster_ready_def network_delivers_def by blast
  have step1: "\<forall>i n. ?free 2 i n \<longrightarrow> (\<exists>v n'. handle_request C None (Prevote p) n = (Inr (VoteResponse v, False), n') \<and>
      v_signer_index v = of_nat i \<and> counts_for C e PHASE_PREVOTE r ?c x None v \<and> ?voted i n')"
    using step1 by (intro allI impI)
  obtain prevotes w1 where c1: "collect_votes C net HONEST_INDICES (Prevote p) w = (Inr prevotes, w1)"
    "\<forall>v \<in> set prevotes. counts_for C e PHASE_PREVOTE r ?c x None v" "map v_signer_index prevotes = map of_nat HONEST_INDICES"
    "length (w_nodes w1) = length (w_nodes w)" "\<forall>i \<in> set HONEST_INDICES. ?voted i (w_nodes w1 ! i)"
    "\<forall>j. j \<notin> set HONEST_INDICES \<longrightarrow> w_nodes w1 ! j = w_nodes w ! j"
    using collect_votes_complete [where P = "?free 2" and R = ?voted and net = net and w = w and
        G = "counts_for C e PHASE_PREVOTE r ?c x None", OF payload counted1 step1 honest_indices(1) nodes]
    by (elim exE conjE) (rule that)
  note for1 = counts_votes_for [OF c1(2,3) honest_indices(1,2)]
  obtain pq where pq: "assemble_qc C prevotes ?m PHASE_PREVOTE r ?c x None = Inr pq" "valid_qc C pq ?m PHASE_PREVOTE r ?c x None"
    using assemble_qc_complete [OF for1(1)] for1(2) honest_indices(3) by (metis order_refl)
  obtain d where d: "qc_digest C pq ?m = Inr d" "d \<noteq> zero_array"
    using qc_digest_valid [OF pq(2)] honest_prevote_qcI [OF c1(2,3) x pq(1)] nonzero by auto
  obtain pb where "put_qc pq = Inr pb" "length pb \<le> 1600"
    by (rule put_qc_ok [OF pq(2)]) simp
  then have "\<exists>bs. encode_request (Precommit p pq) = Inr bs"
    using prb by (auto simp: encode_request_def MAX_FRAME_LEN_def intro!: exact_encode_ok)
  then obtain payload2 where payload2: "encode_request (Precommit p pq) = Inr payload2" ..
  have step2: "\<exists>v n'. handle_request C None (Precommit p pq) n = (Inr (VoteResponse v, False), n') \<and> v_signer_index v = of_nat i \<and>
      counts_for C e PHASE_PRECOMMIT r ?c x (Some d) v \<and> ?free 0 i n'" if "?voted i n" for i n
    using precommit_succeeds [OF sig, of "configs i" p 0 n pq d] that p(2-4) verified pq(2) d by (metis numerals(2))
  have nodes2: "\<forall>i \<in> set HONEST_INDICES. net (Precommit p pq) i = Reached None \<and> i < N \<and> i < length (w_nodes w1) \<and> ?voted i (w_nodes w1 ! i)"
    using nodes c1(4,5) net unfolding network_delivers_def by simp
  have step2: "\<forall>i n. ?voted i n \<longrightarrow> (\<exists>v n'. handle_request C None (Precommit p pq) n = (Inr (VoteResponse v, False), n') \<and>
      v_signer_index v = of_nat i \<and> counts_for C e PHASE_PRECOMMIT r ?c x (Some d) v \<and> ?free 0 i n')"
    using step2 by (intro allI impI)
  obtain precommits w2 where c2: "collect_votes C net HONEST_INDICES (Precommit p pq) w1 = (Inr precommits, w2)"
    "\<forall>v \<in> set precommits. counts_for C e PHASE_PRECOMMIT r ?c x (Some d) v" "map v_signer_index precommits = map of_nat HONEST_INDICES"
    "length (w_nodes w2) = length (w_nodes w1)" "\<forall>i \<in> set HONEST_INDICES. ?free 0 i (w_nodes w2 ! i)"
    "\<forall>j. j \<notin> set HONEST_INDICES \<longrightarrow> w_nodes w2 ! j = w_nodes w1 ! j"
    using collect_votes_complete [where P = ?voted and R = "?free 0" and net = net and w = w1 and
        G = "counts_for C e PHASE_PRECOMMIT r ?c x (Some d)", OF payload2 counted2 step2 honest_indices(1) nodes2]
    by (elim exE conjE) (rule that)
  note for2 = counts_votes_for [OF c2(2,3) honest_indices(1,2)]
  obtain cq where cq: "assemble_qc C precommits ?m PHASE_PRECOMMIT r ?c x (Some d) = Inr cq"
    "valid_qc C cq ?m PHASE_PRECOMMIT r ?c x (Some d)"
    using assemble_qc_complete [OF for2(1)] for2(2) honest_indices(3) by (metis order_refl)
  let ?ft = "\<lparr>ft_tx = tx, ft_auth = auth, ft_prevote_qc = pq, ft_qc = cq\<rparr>"
  have "finalize_transfer C net elapsed ?m tx auth r w =
      (Inr ?ft, w2\<lparr>w_metrics := record_latency ''client_submit_to_qc'' elapsed (w_metrics w2)\<rparr>)"
    using p(1) x c1(1) pq(1) d(1) c2(1) cq(1) by (simp add: finalize_transfer_def Let_def bindR_def liftR_def)
  moreover have "check_finality C tx pq cq ?m = Inr x"
    using valid_chain_finality [OF x pq(2) d(1) cq(2)] .
  moreover have "length (qc_votes cq) = Q"
    using assemble_qc_length [OF cq(1)] for2(2) honest_indices(3) by simp
  moreover have "cluster_ready C e configs tx r x 0 (w2\<lparr>w_metrics := record_latency ''client_submit_to_qc'' elapsed (w_metrics w2)\<rparr>)"
    using c2(4,5) nodes2 by (simp add: cluster_ready_def)
  ultimately show thesis
    using that c1(4,6) c2(4,6) by simp
qed

end
