(* ===== verification/Startup.thy ===== *)
theory Startup
  imports Progress
begin

text \<open>
  How a run begins: the genesis a fixture builds is one every validator of the committee accepts, and a
  validator started on an empty write-ahead log ends up active, with that genesis as its state and with no vote
  and no lock.
\<close>

section \<open>A genesis\<close>

lemma sorted_list_of_fempty [simp]: "sorted_list_of_fset {||} = []" "sorted_list_of_fmap fmempty = []"
  by (metis fcard_fempty length_0_conv sorted_list_of_fset_length)
    (metis fcard_fempty fmdom_empty length_0_conv sorted_list_of_fmap_length)

definition pure_genesis :: "crypto \<Rightarrow> state \<Rightarrow> bool" where
  "pure_genesis C s \<longleftrightarrow> state_ok C s \<and> st_spent_by s = fmempty \<and> st_applied s = fmempty \<and>
    inj_on cr_id (fset (fmdom (st_live s))) \<and> st_known_ids s = cr_id |`| fmdom (st_live s)"

lemma empty_genesis: "pure_genesis C empty_state"
  by (simp add: pure_genesis_def empty_state_def state_ok_def)

lemma genesis_insert:
  assumes "state_ok C s" and "st_spent_by s = fmempty" and "validate_cell C c = Inr ()"
  shows "state_ok C (s\<lparr>st_live := fmupd (cell_reference c) c (st_live s), st_known_ids := finsert (cr_id (cell_reference c)) (st_known_ids s)\<rparr>)"
  using assms unfolding state_ok_def by simp

lemma add_genesis_pure:
  assumes "add_genesis C c s = Inr s'" and "pure_genesis C s"
  shows "pure_genesis C s'" and "fcard (fmdom (st_live s')) = Suc (fcard (fmdom (st_live s)))"
proof -
  have c: "validate_cell C c = Inr ()" "cell_reference c |\<notin>| fmdom (st_live s)" "cr_id (cell_reference c) |\<notin>| st_known_ids s"
    "s' = s\<lparr>st_live := fmupd (cell_reference c) c (st_live s), st_known_ids := finsert (cr_id (cell_reference c)) (st_known_ids s)\<rparr>"
    using assms(1) by (auto simp: add_genesis_def split: if_splits)
  have g: "state_ok C s" "st_spent_by s = fmempty" "st_applied s = fmempty" "inj_on cr_id (fset (fmdom (st_live s)))"
    "st_known_ids s = cr_id |`| fmdom (st_live s)"
    using assms(2) by (simp_all add: pure_genesis_def)
  have "inj_on cr_id (insert (cell_reference c) (fset (fmdom (st_live s))))"
    using g(4,5) c(3) by (intro inj_on_insert [THEN iffD2] conjI) auto
  then show "pure_genesis C s'"
    using genesis_insert [OF g(1,2) c(1)] g by (simp add: pure_genesis_def c(4))
  show "fcard (fmdom (st_live s')) = Suc (fcard (fmdom (st_live s)))"
    using c(2,4) by (simp add: fcard_finsert_disjoint)
qed

lemma from_cells_pure:
  assumes "from_cells C cells = Inr s"
  shows "pure_genesis C s" and "fcard (fmdom (st_live s)) = length cells"
proof -
  have "foldE (add_genesis C) cells t = Inr s \<Longrightarrow> pure_genesis C t \<Longrightarrow>
      pure_genesis C s \<and> fcard (fmdom (st_live s)) = fcard (fmdom (st_live t)) + length cells" for t
  proof (induction cells arbitrary: t)
    case (Cons c cells)
    then obtain t' where "add_genesis C c t = Inr t'" "foldE (add_genesis C) cells t' = Inr s"
      by auto
    with add_genesis_pure [OF this(1) Cons.prems(2)] Cons.IH [of t'] show ?case
      by simp
  qed simp
  from this [of empty_state] show "pure_genesis C s" "fcard (fmdom (st_live s)) = length cells"
    using assms empty_genesis by (simp_all add: from_cells_def empty_state_def)
qed

text \<open>The node's extra checks hold of it.\<close>

lemma check_shape_live_all:
  assumes "\<forall>(r, c) \<in> set xs. fmlookup (st_live s) r = Some c" and "state_ok C s"
    and "distinct (map (\<lambda>rc. cr_id (fst rc)) xs)" and "fset ids \<inter> set (map (\<lambda>rc. cr_id (fst rc)) xs) = {}"
  shows "foldE (check_shape_live C s) xs ids = Inr (ids |\<union>| fset_of_list (map (\<lambda>rc. cr_id (fst rc)) xs))"
  using assms
proof (induction xs arbitrary: ids)
  case (Cons rc xs)
  obtain r c where rc: "rc = (r, c)"
    by fastforce
  have "fmlookup (st_live s) r = Some c" "cr_id r |\<notin>| ids"
    using Cons.prems(1,4) by (auto simp: rc)
  then have "check_shape_live C s rc ids = Inr (finsert (cr_id r) ids)"
    using Cons.prems(2) unfolding state_ok_def by (simp add: rc check_shape_live_def)
  moreover have "foldE (check_shape_live C s) xs (finsert (cr_id r) ids) =
      Inr (finsert (cr_id r) ids |\<union>| fset_of_list (map (\<lambda>rc. cr_id (fst rc)) xs))"
    using Cons.prems by (intro Cons.IH) (auto simp: rc)
  ultimately show ?case
    by (simp add: rc)
qed simp

lemma add_genesis_steps:
  assumes "\<forall>c \<in> set cells. validate_cell C c = Inr ()" and "distinct (map (\<lambda>c. cr_id (cell_reference c)) cells)"
    and "\<forall>c \<in> set cells. cr_id (cell_reference c) |\<notin>| st_known_ids s"
    and "\<forall>r. r |\<in>| fmdom (st_live s) \<longrightarrow> cr_id r |\<in>| st_known_ids s"
  shows "\<exists>s'. foldE (add_genesis C) cells s = Inr s'"
  using assms
proof (induction cells arbitrary: s)
  case (Cons c cells)
  let ?s = "s\<lparr>st_live := fmupd (cell_reference c) c (st_live s), st_known_ids := finsert (cr_id (cell_reference c)) (st_known_ids s)\<rparr>"
  have "\<exists>s'. foldE (add_genesis C) cells ?s = Inr s'"
    by (rule Cons.IH) (use Cons.prems in \<open>auto simp: image_iff\<close>)
  moreover have "add_genesis C c s = Inr ?s"
    using Cons.prems by (auto simp: add_genesis_def)
  ultimately show ?case
    by simp
qed simp

lemma of_nat_u64_inj: "(of_nat a :: u64) = of_nat b \<Longrightarrow> a < 2 ^ 64 \<Longrightarrow> b < 2 ^ 64 \<Longrightarrow> a = b"
  by (auto simp: unat_of_nat dest!: arg_cong [where f = unat])

lemma genesis_cell_id:
  "cr_id (cell_reference (make_genesis_cell C l amount owner)) =
    hash_domain C ''CALIBRE_INTEGRATION001_GENESIS_ID_V1'' (to_le64 l)"
  by (simp add: make_genesis_cell_def Let_def)

lemma from_cells_complete:
  assumes "\<forall>c \<in> set cells. validate_cell C c = Inr ()" and "distinct (map (\<lambda>c. cr_id (cell_reference c)) cells)"
  obtains s where "from_cells C cells = Inr s"
  using add_genesis_steps [OF assms, of empty_state] by (auto simp: from_cells_def empty_state_def)

lemma pure_genesis_shape:
  assumes "pure_genesis C s"
  shows "validate_state_shape C s = Inr ()" and "validate_pure_genesis s = Inr ()"
proof -
  let ?xs = "sorted_list_of_fmap (st_live s)"
  have g: "state_ok C s" "st_spent_by s = fmempty" "st_applied s = fmempty" "inj_on cr_id (fset (fmdom (st_live s)))"
    "st_known_ids s = cr_id |`| fmdom (st_live s)"
    using assms by (simp_all add: pure_genesis_def)
  have keys: "map (\<lambda>rc. cr_id (fst rc)) ?xs = map cr_id (sorted_list_of_fset (fmdom (st_live s)))"
    unfolding sorted_list_of_fmap_keys [symmetric] by simp
  have "foldE (check_shape_live C s) ?xs {||} = Inr ({||} |\<union>| fset_of_list (map (\<lambda>rc. cr_id (fst rc)) ?xs))"
  proof (rule check_shape_live_all [OF _ g(1)])
    show "\<forall>(r, c) \<in> set ?xs. fmlookup (st_live s) r = Some c"
      by (auto simp: sorted_list_of_fmap_mem)
    show "distinct (map (\<lambda>rc. cr_id (fst rc)) ?xs)"
      unfolding keys using g(4) by (simp add: distinct_map)
  qed simp
  then have "foldE (check_shape_live C s) ?xs {||} = Inr (st_known_ids s)"
    unfolding keys g(5) by (simp add: fset_of_sorted_list)
  moreover have "validate_state C s = Inr ()"
    using g(1) by (simp add: validate_state_iff)
  ultimately show "validate_state_shape C s = Inr ()"
    by (simp add: validate_state_shape_def g(2,3))
  show "validate_pure_genesis s = Inr ()"
    using g by (simp add: validate_pure_genesis_def fcard.rep_eq card_image)
qed

lemma pure_genesis_encodes:
  assumes "pure_genesis C s" and "fcard (fmdom (st_live s)) \<le> MAX_COLLECTION_LEN"
  obtains bs where "encode_state s = Inr bs" "decode_state bs = Inr s" "length bs \<le> MAX_FRAME_LEN"
proof -
  have g: "state_ok C s" "st_spent_by s = fmempty" "st_applied s = fmempty" "inj_on cr_id (fset (fmdom (st_live s)))"
    "st_known_ids s = cr_id |`| fmdom (st_live s)"
    using assms(1) by (simp_all add: pure_genesis_def)
  have known: "fcard (st_known_ids s) = fcard (fmdom (st_live s))"
    using g(4,5) by (simp add: fcard.rep_eq card_image)
  have live: "mapE put_live (sorted_list_of_fmap (st_live s)) = Inr (map (\<lambda>rc. put_cell (snd rc)) (sorted_list_of_fmap (st_live s)))"
    using g(1) by (auto simp: put_live_all sorted_list_of_fmap_mem state_ok_def)
  have count: "put_count k = Inr (to_le32 (of_nat k))" if "k \<le> MAX_COLLECTION_LEN" for k
    using that by (simp add: put_count_def put_bounded_count_def MAX_COLLECTION_LEN_def)
  let ?bs = "to_le32 (of_nat (fcard (fmdom (st_live s)))) @ concat (map (\<lambda>rc. put_cell (snd rc)) (sorted_list_of_fmap (st_live s))) @
    to_le32 0 @ to_le32 (of_nat (fcard (st_known_ids s))) @ concat (map array_bytes (sorted_list_of_fset (st_known_ids s))) @ to_le32 0"
  have "put_state s = Inr ?bs"
    using assms(2) g(2,3) count [of 0] by (simp add: put_state_def live count known fcard_fempty)
  moreover have "length ?bs = 16 + 180 * fcard (fmdom (st_live s))"
    by (simp add: concat_fixed_length [where n = 148] concat_fixed_length [where n = 32] known)
  then have "length ?bs \<le> MAX_FRAME_LEN"
    using assms(2) by (simp add: MAX_COLLECTION_LEN_def MAX_FRAME_LEN_def)
  ultimately have enc: "exact_encode put_state s = Inr ?bs"
    by (rule exact_encode_ok)
  then show thesis
    using that state_reader.decode_encode [OF _ enc] \<open>length ?bs \<le> MAX_FRAME_LEN\<close>
    by (simp add: encode_state_def decode_state_def)
qed

section \<open>A validator on an empty log\<close>

definition genesis_snapshot :: "crypto \<Rightarrow> digest \<Rightarrow> u64 \<Rightarrow> state \<Rightarrow> u8 list \<Rightarrow> snapshot" where
  "genesis_snapshot C h ep s bs = \<lparr>sn_committee_hash = h, sn_epoch = ep, sn_state_root = state_root C s, sn_bytes = bs\<rparr>"

lemma fresh_store:
  assumes s: "validate_snapshot snap cm ep = Inr ()"
  obtains w where "open_store C None [] cm ep (Some snap) = (Inr w, ws_file w)" "ws_state w = initial_replay snap" "\<not> ws_poisoned w"
    "ws_committee_hash w = cm" "ws_epoch w = ep"
proof -
  obtain payload where "encode_snapshot snap = Inr payload"
    using s by (auto simp: encode_snapshot_Inr_iff validate_snapshot_Inr_iff)
  moreover from this have "\<not> length payload > MAX_PAYLOAD_BYTES"
    using encode_snapshot_length [of snap payload] by (simp add: MAX_PAYLOAD_BYTES_def)
  ultimately show thesis
    using s by (intro that [of "\<lparr>ws_file = record_bytes C 0 KIND_INITIALIZE payload, ws_committee_hash = cm, ws_epoch = ep,
        ws_state = initial_replay snap, ws_poisoned = False\<rparr>"]) (simp_all add: open_store_def append_record_def)
qed

lemma fresh_activation:
  assumes w: "ws_state w = initial_replay snap" "\<not> ws_poisoned w" "ws_committee_hash w = cm" "ws_epoch w = ep"
    and s: "validate_snapshot snap cm ep = Inr ()"
  obtains w' where "activate_if_new C None cm ep snap w = (Inr w', ws_file w')"
    "ws_state w' = (initial_replay snap)\<lparr>rs_lifecycle := Active, rs_next_sequence := 2,
      rs_activation := Some \<lparr>ac_handoff_hash = genesis_activation_digest C cm ep (sn_state_root snap), ac_snapshot = snap\<rparr>\<rparr>"
    "\<not> ws_poisoned w'" "ws_committee_hash w' = cm" "ws_epoch w' = ep"
proof -
  obtain bs where bs: "encode_snapshot snap = Inr bs"
    using s by (auto simp: encode_snapshot_Inr_iff validate_snapshot_Inr_iff)
  let ?d = "genesis_activation_digest C cm ep (sn_state_root snap)"
  let ?u = "\<lambda>st. st\<lparr>rs_lifecycle := Active, rs_current_snapshot := snap, rs_activation := Some \<lparr>ac_handoff_hash = ?d, ac_snapshot = snap\<rparr>\<rparr>"
  have "length (array_bytes ?d @ bs) \<le> MAX_PAYLOAD_BYTES"
    using encode_snapshot_length [OF bs] by (simp add: MAX_PAYLOAD_BYTES_def)
  moreover have "unat (rs_next_sequence (ws_state w)) + 1 < 2 ^ 64"
    by (simp add: w initial_replay_def)
  ultimately have "append_then C None KIND_ACTIVATE (array_bytes ?d @ bs) ?u w = (Inr Persisted,
      w\<lparr>ws_file := ws_file w @ record_bytes C (rs_next_sequence (ws_state w)) KIND_ACTIVATE (array_bytes ?d @ bs),
        ws_state := ?u ((ws_state w)\<lparr>rs_next_sequence := rs_next_sequence (ws_state w) + 1\<rparr>)\<rparr>)"
    by (rule append_then_written)
  then show thesis
    using w s bs by (intro that [of "w\<lparr>ws_file := ws_file w @ record_bytes C (rs_next_sequence (ws_state w)) KIND_ACTIVATE (array_bytes ?d @ bs),
        ws_state := ?u ((ws_state w)\<lparr>rs_next_sequence := rs_next_sequence (ws_state w) + 1\<rparr>)\<rparr>"])
      (simp_all add: activate_if_new_def activate_store_def ensure_healthy_def ws_lifecycle_def current_snapshot_def initial_replay_def)
qed

definition fresh_node :: "crypto \<Rightarrow> node_config \<Rightarrow> state \<Rightarrow> node_server \<Rightarrow> bool" where
  "fresh_node C config s n \<longleftrightarrow> node_inv C config n \<and> ns_state n = s \<and> rs_lifecycle (ws_state (ns_store n)) = Active \<and>
    \<not> ws_poisoned (ns_store n) \<and> rs_next_sequence (ws_state (ns_store n)) = 2 \<and> rs_votes (ws_state (ns_store n)) = fmempty \<and>
    rs_locks (ws_state (ns_store n)) = fmempty \<and> rs_applied (ws_state (ns_store n)) = fmempty"

lemma fresh_node_starts:
  assumes g: "pure_genesis C s" and enc: "encode_state s = Inr bs" "decode_state bs = Inr s" "length bs \<le> MAX_FRAME_LEN"
    and m: "valid_manifest C (lab_committee C (nc_epoch config))" and i: "unat (nc_index config) < N"
  obtains n where "open_node C None None [] bs config = (Inr n, ws_file (ns_store n))" "fresh_node C config s n"
proof -
  let ?ep = "nc_epoch config" and ?m = "lab_committee C (nc_epoch config)"
  obtain h where h: "committee_hash C ?m = Inr h"
    using m by (auto simp: committee_hash_Inr_iff)
  let ?snap = "genesis_snapshot C h ?ep s bs" and ?key = "lab_validator_key C ?ep (unat (nc_index config))"
  note shape = pure_genesis_shape [OF g]
  have prepared: "prepare_node C config bs = Inr (?m, h, ?key, ?snap)"
    using h i m enc shape lab_committee_member [OF i, of C ?ep]
    by (simp add: prepare_node_def read_bounded_snapshot_def genesis_snapshot_def Let_def)
  have valid: "validate_snapshot ?snap h ?ep = Inr ()"
    using enc(3) by (simp add: validate_snapshot_Inr_iff genesis_snapshot_def MAX_FRAME_LEN_def MAX_SNAPSHOT_BYTES_def)
  obtain w where w: "open_store C None [] h ?ep (Some ?snap) = (Inr w, ws_file w)" "ws_state w = initial_replay ?snap" "\<not> ws_poisoned w"
    "ws_committee_hash w = h" "ws_epoch w = ?ep"
    using fresh_store [OF valid] .
  obtain w' where w': "activate_if_new C None h ?ep ?snap w = (Inr w', ws_file w')"
    "ws_state w' = (initial_replay ?snap)\<lparr>rs_lifecycle := Active, rs_next_sequence := 2,
      rs_activation := Some \<lparr>ac_handoff_hash = genesis_activation_digest C h ?ep (sn_state_root ?snap), ac_snapshot = ?snap\<rparr>\<rparr>"
    "\<not> ws_poisoned w'" "ws_committee_hash w' = h" "ws_epoch w' = ?ep"
    using fresh_activation [OF w(2-5) valid] .
  have "load_durable_state C h ?ep w' = Inr s"
    using enc(2) shape(1) g w'(2)
    by (simp add: load_durable_state_def current_snapshot_def genesis_snapshot_def initial_replay_def reconcile_state_with_wal_def
        applied_count_def pure_genesis_def Let_def)
  then obtain n where n: "open_node C None None [] bs config = (Inr n, ws_file (ns_store n))" "ns_state n = s" "ns_store n = w'"
    using prepared w(1) w'(1) by (simp add: open_node_def)
  moreover have "fresh_node C config s n"
    using open_node_inv [OF n(1)] n(2,3) w'(2,3) by (simp add: fresh_node_def initial_replay_def)
  ultimately show thesis
    using that by blast
qed

lemma fresh_voter:
  assumes "fresh_node C config s n" and "\<not> nc_byzantine config" and "unat (nc_index config) < N" and "k < 2 ^ 63"
  shows "voter C config c r x k n"
  using assms by (simp add: voter_def fresh_node_def free_for_def)

section \<open>The processes of a cluster\<close>

text \<open>
  The arguments \<open>spawn_node\<close> passes to a validator's process, and the role \<open>Cluster::start\<close> gives to each index. The
  ports and paths come from the operating system.
\<close>

definition node_args :: "node_config \<Rightarrow> string list" where
  "node_args config = [decimal (unat (nc_epoch config)), decimal (unat (nc_index config)), decimal (unat (nc_port config)),
    nc_wal_path config, nc_snapshot_path config, if nc_byzantine config then ''1'' else ''0'']"

definition cluster_config :: "u64 \<Rightarrow> (nat \<Rightarrow> u16) \<Rightarrow> (nat \<Rightarrow> string) \<Rightarrow> string \<Rightarrow> nat \<Rightarrow> node_config" where
  "cluster_config epoch ports wal_paths snapshot_path index =
    \<lparr>nc_epoch = epoch, nc_index = of_nat index, nc_port = ports index, nc_wal_path = wal_paths index,
     nc_snapshot_path = snapshot_path, nc_byzantine = (index < 2)\<rparr>"

abbreviation cluster_configs :: "u64 \<Rightarrow> nat \<Rightarrow> node_config" where
  "cluster_configs e \<equiv> cluster_config e (\<lambda>i. 1 + of_nat i) (\<lambda>_. ''wal'') ''snapshot''"

definition node_config_ok :: "node_config \<Rightarrow> bool" where
  "node_config_ok c \<longleftrightarrow> nc_epoch c \<noteq> 0 \<and> unat (nc_index c) < N \<and> nc_port c \<noteq> 0 \<and> nc_wal_path c \<noteq> [] \<and>
    nc_snapshot_path c \<noteq> [] \<and> \<not> same_path (nc_wal_path c) (nc_snapshot_path c)"

lemma parse_nonzero_decimal:
  "v < bound \<Longrightarrow> parse_nonzero bound (decimal v) = (if v = 0 then Inl (ArgumentError ZeroValue) else Inr v)"
  by (simp add: parse_nonzero_def parse_unsigned_decimal)

lemma parse_unsigned_bound: "parse_unsigned bound s = Some v \<Longrightarrow> v < bound"
  by (auto simp: parse_unsigned_def Let_def split: if_splits option.splits)

lemma parse_nonzero_Inr: "parse_nonzero bound s = Inr v \<Longrightarrow> 0 < v \<and> v < bound"
  using parse_unsigned_bound by (auto simp: parse_nonzero_def split: option.splits if_splits)

lemma parse_node_config_ok:
  assumes "parse_node_config args = Inr c"
  shows "node_config_ok c"
proof -
  obtain epoch index port where v: "parse_nonzero (2 ^ 64) (args ! 0) = Inr epoch" "parse_unsigned (2 ^ 8) (args ! 1) = Some index"
    "index < N" "parse_nonzero (2 ^ 16) (args ! 2) = Inr port" "args ! 3 \<noteq> []" "args ! 4 \<noteq> []" "\<not> same_path (args ! 3) (args ! 4)"
    "nc_epoch c = of_nat epoch" "nc_index c = of_nat index" "nc_port c = of_nat port" "nc_wal_path c = args ! 3" "nc_snapshot_path c = args ! 4"
    using assms by (auto simp: parse_node_config_def split: if_splits)
  then have "unat (of_nat epoch :: u64) = epoch" "unat (of_nat port :: u16) = port" "unat (of_nat index :: u8) = index"
    using parse_nonzero_Inr parse_unsigned_bound by (force simp: unat_of_nat)+
  then show ?thesis
    using v parse_nonzero_Inr [OF v(1)] parse_nonzero_Inr [OF v(4)] unfolding node_config_ok_def
    by (metis unat_0 less_irrefl)
qed

lemma parse_node_args:
  assumes "node_config_ok c"
  shows "parse_node_config (node_args c) = Inr c"
proof -
  have "unat (nc_epoch c) < 2 ^ 64" "unat (nc_port c) < 2 ^ 16" "unat (nc_index c) < 2 ^ 8"
    using unat_bound [of "nc_epoch c"] unat_bound [of "nc_port c"] unat_bound [of "nc_index c"] by simp_all
  moreover have "unat (nc_epoch c) \<noteq> 0" "unat (nc_port c) \<noteq> 0"
    using assms by (simp_all add: node_config_ok_def unat_eq_0)
  ultimately show ?thesis
    using assms by (cases c) (simp add: parse_node_config_def node_args_def NODE_ARG_COUNT_def parse_nonzero_decimal parse_unsigned_decimal
        node_config_ok_def nth_Cons' del: decimal.simps)
qed

text \<open>A cluster of fresh validators.\<close>

definition fresh_world :: "crypto \<Rightarrow> u64 \<Rightarrow> state \<Rightarrow> world \<Rightarrow> bool" where
  "fresh_world C e s w \<longleftrightarrow> length (w_nodes w) = N \<and> (\<forall>i < N. fresh_node C (cluster_configs e i) s (w_nodes w ! i))"

lemma fresh_world_ready:
  assumes "fresh_world C e s w" and "live_cell s (cell_reference (tx_input tx)) = Some (tx_input tx)" and "k < 2 ^ 63"
  shows "cluster_ready C e (cluster_configs e) tx r x k w"
proof -
  have "i < length (w_nodes w) \<and> nc_index (cluster_configs e i) = of_nat i \<and> nc_epoch (cluster_configs e i) = e \<and>
      voter C (cluster_configs e i) (conflict_key C (cell_reference (tx_input tx))) r x k (w_nodes w ! i) \<and>
      live_cell (ns_state (w_nodes w ! i)) (cell_reference (tx_input tx)) = Some (tx_input tx)"
    if "i \<in> set HONEST_INDICES" for i
  proof -
    have i: "2 \<le> i" "i < N"
      using that by (auto simp: HONEST_INDICES_def N_def)
    then have n: "fresh_node C (cluster_configs e i) s (w_nodes w ! i)" "length (w_nodes w) = N"
      using assms(1) by (simp_all add: fresh_world_def)
    then have "ns_state (w_nodes w ! i) = s"
      by (simp add: fresh_node_def)
    then show ?thesis
      using fresh_voter [OF n(1) _ _ assms(3)] i n(2) assms(2) u8_index by (simp add: cluster_config_def)
  qed
  then show ?thesis
    by (simp add: cluster_ready_def)
qed

end
