(* ===== verification/Recovery.thy ===== *)
theory Recovery
  imports Startup
begin

text \<open>
  What a validator finds when it restarts: the ledger it holds in memory is always the one its log would load, so a
  restart of a healthy validator on its own log and genesis gives back exactly the validator that stopped.
\<close>

section \<open>The ledger in memory is the ledger of the log\<close>

definition synced :: "crypto \<Rightarrow> node_config \<Rightarrow> node_server \<Rightarrow> bool" where
  "synced C config n \<longleftrightarrow> load_durable_state C (ns_committee_hash n) (nc_epoch config) (ns_store n) = Inr (ns_state n)"

definition same_ledger :: "wal_store \<Rightarrow> wal_store \<Rightarrow> bool" where
  "same_ledger w w' \<longleftrightarrow> rs_current_snapshot (ws_state w') = rs_current_snapshot (ws_state w) \<and>
    rs_applied (ws_state w') = rs_applied (ws_state w)"

lemma same_ledger_refl [simp]: "same_ledger w w"
  by (simp add: same_ledger_def)

lemma reconcile_same_ledger:
  assumes "same_ledger w w'"
  shows "reconcile_state_with_wal s w' = reconcile_state_with_wal s w"
proof -
  have "check_durable_receipt w' = check_durable_receipt w"
    using assms by (simp add: fun_eq_iff check_durable_receipt_def applied_record_of_def same_ledger_def)
  then show ?thesis
    using assms by (simp add: reconcile_state_with_wal_def applied_count_def same_ledger_def)
qed

lemma load_same_ledger:
  assumes "same_ledger w w'"
  shows "load_durable_state C h ep w' = load_durable_state C h ep w"
proof -
  have "rs_current_snapshot (ws_state w') = rs_current_snapshot (ws_state w)"
    using assms by (simp add: same_ledger_def)
  then show ?thesis
    unfolding load_durable_state_def current_snapshot_def reconcile_same_ledger [OF assms] by simp
qed

lemma check_durable_receipt_iff:
  "check_durable_receipt w (i, rc) = Inr () \<longleftrightarrow>
    (\<exists>a. fmlookup (rs_applied (ws_state w)) i = Some a \<and> ap_certificate_digest a = rc_certificate_digest rc)"
  by (auto simp: check_durable_receipt_def applied_record_of_def split: option.splits)

lemma reconcile_iff:
  "reconcile_state_with_wal s w = Inr () \<longleftrightarrow> fcard (fmdom (st_applied s)) = fcard (fmdom (rs_applied (ws_state w))) \<and>
    (\<forall>i rc. fmlookup (st_applied s) i = Some rc \<longrightarrow>
      (\<exists>a. fmlookup (rs_applied (ws_state w)) i = Some a \<and> ap_certificate_digest a = rc_certificate_digest rc))"
  by (simp add: reconcile_state_with_wal_def applied_count_def ball_sorted_list_of_fmap check_durable_receipt_iff)

lemma reconcile_keys:
  assumes "reconcile_state_with_wal s w = Inr ()"
  shows "fmdom (rs_applied (ws_state w)) = fmdom (st_applied s)"
proof -
  have "fmdom (st_applied s) |\<subseteq>| fmdom (rs_applied (ws_state w))"
  proof (rule fsubsetI)
    fix i assume "i |\<in>| fmdom (st_applied s)"
    then obtain rc where "fmlookup (st_applied s) i = Some rc"
      by (meson fmlookup_dom_iff)
    then show "i |\<in>| fmdom (rs_applied (ws_state w))"
      using assms unfolding reconcile_iff by (meson fmdomI)
  qed
  then show ?thesis
    using assms unfolding reconcile_iff by (metis fcard_seteq order_refl)
qed

lemma load_durable_state_iff:
  "load_durable_state C h ep w = Inr s \<longleftrightarrow> decode_state (sn_bytes (rs_current_snapshot (ws_state w))) = Inr s \<and>
    validate_state_shape C s = Inr () \<and> sn_committee_hash (rs_current_snapshot (ws_state w)) = h \<and>
    sn_epoch (rs_current_snapshot (ws_state w)) = ep \<and> sn_state_root (rs_current_snapshot (ws_state w)) = state_root C s \<and>
    reconcile_state_with_wal s w = Inr ()"
  by (auto simp: load_durable_state_def current_snapshot_def Let_def)

lemma persist_vote_same_ledger: "persist_vote C io c r p d w = (res, w') \<Longrightarrow> same_ledger w w'"
  by (cases io) (auto simp: persist_vote_def append_then_def wal_append_def append_record_def same_ledger_def insert_vote_def Let_def
      split: sum.splits option.splits if_splits prod.splits)

lemma persist_own_vote_synced:
  assumes "persist_own_vote C io n c r p d = (res, n')" and "synced C config n"
  shows "synced C config n'"
  using assms load_same_ledger [OF persist_vote_same_ledger]
  by (auto simp: persist_own_vote_def synced_def split: option.splits prod.splits)

lemma handle_prevote_synced:
  assumes "handle_prevote C io p n = (res, n')" and "synced C config n"
  shows "synced C config n'"
  using assms persist_own_vote_synced
  by (auto simp: handle_prevote_def Let_def split: if_splits sum.splits prod.splits)

lemma handle_precommit_synced:
  assumes "handle_precommit C io p q n = (res, n')" and "synced C config n"
  shows "synced C config n'"
  using assms persist_own_vote_synced
  by (auto simp: handle_precommit_def Let_def split: if_splits sum.splits prod.splits)

text \<open>A verified transfer reaches the log and the memory together.\<close>

lemma apply_verified_InlD:
  assumes "apply_verified C io t cd s w = (Inl e, w')"
  shows "same_ledger w w'"
  using assms by (cases io) (auto simp: apply_verified_def append_then_def wal_append_def append_record_def same_ledger_def Let_def
      split: sum.splits option.splits if_splits prod.splits)

lemma apply_verified_PersistedD:
  assumes "apply_verified C io t cd s w = (Inr Persisted, w')"
  shows "rs_current_snapshot (ws_state w') = s" and "fmlookup (rs_applied (ws_state w)) t = None"
    and "\<exists>root. rs_applied (ws_state w') = fmupd t \<lparr>ap_tx_digest = t, ap_certificate_digest = cd, ap_prior_state_root = root,
      ap_next_snapshot = s\<rparr> (rs_applied (ws_state w))"
  using assms by (cases io; auto simp: apply_verified_def append_then_def wal_append_def append_record_def applied_record_of_def Let_def
      split: sum.splits option.splits if_splits prod.splits)+

lemma apply_verified_AlreadyPresentD:
  assumes "apply_verified C io t cd s w = (Inr AlreadyPresent, w')"
  shows "fmlookup (rs_applied (ws_state w)) t \<noteq> None"
  using assms by (auto simp: apply_verified_def append_then_def applied_record_of_def Let_def
      split: sum.splits option.splits if_splits prod.splits)

lemma encode_decode_state: "encode_state s = Inr bs \<Longrightarrow> decode_state bs = Inr s"
  using state_reader.decode_encode by (simp add: encode_state_def decode_state_def)

lemma applied_synced:
  assumes ap: "apply_finalized C (ns_state n) tx auth pq fq (ns_manifest n) = Inr (Applied rc, s')"
  and nx: "next_snapshot C n s' = Inr snap"
  and av: "apply_verified C io (rc_intent rc) (rc_certificate_digest rc) snap (ns_store n) = (Inr outcome, w)"
  and s: "synced C config n" and inv: "node_inv C config n"
  shows "synced C config (n\<lparr>ns_store := w, ns_state := s'\<rparr>)"
proof -
  have loaded: "reconcile_state_with_wal (ns_state n) (ns_store n) = Inr ()"
    using s by (simp add: synced_def load_durable_state_iff)
  obtain intent outs where new: "fmlookup (st_applied (ns_state n)) intent = None" "s' = commit tx intent rc outs (ns_state n)" "rc_intent rc = intent"
    using apply_result_cases [OF ap] by (metis apply_outcome.inject(1) apply_outcome.distinct(1))
  then have fresh: "fmlookup (rs_applied (ws_state (ns_store n))) intent = None"
    using reconcile_keys [OF loaded] by (metis fmdom_notI fmdom_notD)
  have out: "outcome = Persisted"
  proof (cases outcome)
    case AlreadyPresent
    then show ?thesis
      using apply_verified_AlreadyPresentD [of C io "rc_intent rc"] av fresh new(3) by blast
  qed
  note w = apply_verified_PersistedD [OF av [unfolded out]]
  have snap: "validate_state_shape C s' = Inr ()" "\<exists>bs. encode_state s' = Inr bs \<and> sn_bytes snap = bs"
    "sn_committee_hash snap = ns_committee_hash n" "sn_epoch snap = m_epoch (ns_manifest n)" "sn_state_root snap = state_root C s'"
    using nx by (auto simp: next_snapshot_def)
  obtain root where applied: "rs_applied (ws_state w) = fmupd intent \<lparr>ap_tx_digest = intent, ap_certificate_digest = rc_certificate_digest rc,
      ap_prior_state_root = root, ap_next_snapshot = snap\<rparr> (rs_applied (ws_state (ns_store n)))"
    using w(3) new(3) by auto
  have "reconcile_state_with_wal s' w = Inr ()"
    using loaded new(1,2) fresh unfolding reconcile_iff applied
    by (simp add: fcard_finsert_disjoint fmdom_notI)
  moreover have "m_epoch (ns_manifest n) = nc_epoch config"
    using inv by (simp add: node_inv_def)
  ultimately show ?thesis
    using snap encode_decode_state w(1) by (auto simp: synced_def load_durable_state_iff)
qed

lemma handle_apply_synced:
  assumes h: "handle_apply C io tx auth pq fq n = (res, n')" and s: "synced C config n" and inv: "node_inv C config n"
  shows "synced C config n'"
proof (cases "n' = n")
    case False
    then obtain rc s' snap r w where
      ap: "apply_finalized C (ns_state n) tx auth pq fq (ns_manifest n) = Inr (Applied rc, s')"
      and nx: "next_snapshot C n s' = Inr snap"
      and av: "apply_verified C io (rc_intent rc) (rc_certificate_digest rc) snap (ns_store n) = (r, w)"
      and n': "n' = (case r of Inl _ \<Rightarrow> n\<lparr>ns_store := w\<rparr> | Inr _ \<Rightarrow> n\<lparr>ns_store := w, ns_state := s'\<rparr>)"
      using h unfolding handle_apply_def by (auto split: sum.splits prod.splits apply_outcome.splits)
    show ?thesis
    proof (cases r)
      case (Inl e)
      then show ?thesis
        using s load_same_ledger [OF apply_verified_InlD [OF av [unfolded Inl]]] n' by (simp add: synced_def)
    next
      case (Inr outcome)
      then have "synced C config (n\<lparr>ns_store := w, ns_state := s'\<rparr>)"
        using applied_synced [OF ap nx av [unfolded Inr] s inv] by simp
      then show ?thesis
        using n' Inr by simp
    qed
qed (use s in simp)


lemma handle_request_synced:
  assumes "handle_request C io req n = (res, n')" and "synced C config n" and "node_inv C config n"
  shows "synced C config n'"
  using assms handle_prevote_synced handle_precommit_synced handle_apply_synced
  by (cases req) (auto simp: Let_def split: prod.splits)

lemma open_node_synced: "open_node C io io' file content config = (Inr n, file') \<Longrightarrow> synced C config n"
  using open_nodeD by (metis synced_def)

lemma node_step_synced: "node_step C config n n' \<Longrightarrow> synced C config n \<Longrightarrow> node_inv C config n \<Longrightarrow> synced C config n'"
  by (cases rule: node_step.cases) (auto intro: handle_request_synced open_node_synced)

lemma node_run_synced:
  "node_run C config n n' \<Longrightarrow> synced C config n \<Longrightarrow> node_inv C config n \<Longrightarrow> synced C config n' \<and> node_inv C config n'"
  by (induction rule: rtranclp_induct) (auto intro: node_step_synced node_step_inv)

section \<open>Restarting\<close>

definition started_from :: "crypto \<Rightarrow> node_config \<Rightarrow> u8 list \<Rightarrow> node_server \<Rightarrow> bool" where
  "started_from C config content n \<longleftrightarrow>
    prepare_node C config content = Inr (ns_manifest n, ns_committee_hash n, ns_signing_key n, rs_initial_snapshot (ws_state (ns_store n)))"

lemma open_store_initial:
  assumes "open_store C io file cm ep (Some s) = (Inr w, file')"
  shows "rs_initial_snapshot (ws_state w) = s"
  using assms by (auto simp: open_store_def initial_replay_def split: if_splits sum.splits prod.splits)

lemma activate_if_new_initial:
  assumes "activate_if_new C io h ep s w = (Inr w', file')"
  shows "rs_initial_snapshot (ws_state w') = rs_initial_snapshot (ws_state w)"
  using assms by (auto simp: activate_if_new_def activate_store_def append_then_def wal_append_def Let_def
      split: if_splits sum.splits prod.splits option.splits lifecycle.splits)

lemma open_node_started:
  assumes "open_node C io io' file content config = (Inr n, file')"
  shows "started_from C config content n"
proof -
  obtain initial w file1 where "prepare_node C config content = Inr (ns_manifest n, ns_committee_hash n, ns_signing_key n, initial)"
    "open_store C io file (ns_committee_hash n) (nc_epoch config) (Some initial) = (Inr w, file1)"
    "activate_if_new C io' (ns_committee_hash n) (nc_epoch config) initial w = (Inr (ns_store n), file')"
    using open_nodeD [OF assms] .
  then show ?thesis
    using open_store_initial activate_if_new_initial by (simp add: started_from_def)
qed

lemma node_step_initial:
  assumes "node_step C config n n'" and "node_inv C config n"
  shows "rs_initial_snapshot (ws_state (ns_store n')) = rs_initial_snapshot (ws_state (ns_store n))"
proof -
  have "store_inv C (ns_store n)"
    using assms(2) by (simp add: node_inv_def)
  then have "extends (ws_state (ns_store n)) (ws_state (ns_store n'))"
    using node_step_store [OF assms] store_step_inv extends_refl by metis
  then show ?thesis
    by (simp add: extends_def)
qed

lemma node_run_initial:
  "node_run C config n n' \<Longrightarrow> node_inv C config n \<Longrightarrow>
    node_inv C config n' \<and> rs_initial_snapshot (ws_state (ns_store n')) = rs_initial_snapshot (ws_state (ns_store n))"
  by (induction rule: rtranclp_induct) (auto intro: node_step_inv dest: node_step_initial)

lemma node_run_started:
  assumes "open_node C io io' file content config = (Inr n0, file')" and "node_run C config n0 n"
  shows "started_from C config content n"
proof -
  note inv = open_node_inv [OF assms(1)] and run = node_run_initial [OF assms(2) open_node_inv [OF assms(1)]]
  have "ns_manifest n = ns_manifest n0" "ns_committee_hash n = ns_committee_hash n0" "ns_signing_key n = ns_signing_key n0"
    using inv run by (auto simp: node_inv_def)
  then show ?thesis
    using open_node_started [OF assms(1)] run by (simp add: started_from_def)
qed

lemma prepare_node_bytes:
  assumes "prepare_node C config content = Inr (m, h, key, initial)"
  shows "length (sn_bytes initial) \<le> MAX_FRAME_LEN"
  using assms by (auto simp: prepare_node_def read_bounded_snapshot_def Let_def split: if_splits)

lemma restart_restores_node:
  assumes inv: "node_inv C config n" and sync: "synced C config n" and start: "started_from C config content n"
    and healthy: "\<not> ws_poisoned (ns_store n)" and room: "has_room (ns_store n)"
  shows "open_node C io io' (ws_file (ns_store n)) content config = (Inr n, ws_file (ns_store n))"
proof -
  let ?w = "ns_store n"
  have w: "store_inv C ?w" "ws_committee_hash ?w = ns_committee_hash n" "ws_epoch ?w = nc_epoch config" "rs_lifecycle (ws_state ?w) \<noteq> Initialized"
    "ns_index n = nc_index config" "ns_byzantine n = nc_byzantine config"
    using inv by (simp_all add: node_inv_def)
  have prepared: "prepare_node C config content = Inr (ns_manifest n, ns_committee_hash n, ns_signing_key n, rs_initial_snapshot (ws_state ?w))"
    using start by (simp add: started_from_def)
  have reopened: "open_store C io (ws_file ?w) (ns_committee_hash n) (nc_epoch config) None = (Inr ?w, ws_file ?w)" and log: "ws_file ?w \<noteq> []"
    using reopen_healthy [OF w(1) healthy room] w by (simp_all add: store_inv_def)
  have valid: "validate_snapshot (rs_initial_snapshot (ws_state ?w)) (ns_committee_hash n) (nc_epoch config) = Inr ()"
    using prepare_nodeD(4,5) [OF prepared] prepare_node_bytes [OF prepared]
    by (simp add: validate_snapshot_Inr_iff MAX_FRAME_LEN_def MAX_SNAPSHOT_BYTES_def)
  have "open_store C io (ws_file ?w) (ns_committee_hash n) (nc_epoch config) (Some (rs_initial_snapshot (ws_state ?w))) = (Inr ?w, ws_file ?w)"
    using open_existing [OF reopened log] log valid by (simp add: open_store_def)
  moreover have "activate_if_new C io' (ns_committee_hash n) (nc_epoch config) (rs_initial_snapshot (ws_state ?w)) ?w = (Inr ?w, ws_file ?w)"
    using w(4) by (simp add: activate_if_new_def ws_lifecycle_def)
  ultimately show ?thesis
    using prepared sync w(5,6) by (cases n) (simp add: open_node_def synced_def)
qed

end
