(* ===== verification/Shape.thy ===== *)
theory Shape
  imports NodeSafety
begin

text \<open>
  The shape a validator demands of a ledger before it writes or loads it, as one statement about its maps, and its
  preservation by every applied transfer: no finalized transfer is refused because of the ledger it leads to.
\<close>

section \<open>The shape as one statement\<close>

definition cells_of :: "state \<Rightarrow> cell_ref set" where
  "cells_of s = fset (fmdom (st_live s)) \<union> fset (fmdom (st_spent_by s))"

definition receipt_ids :: "apply_receipt \<Rightarrow> digest list" where
  "receipt_ids rc = map cr_id (rc_output_refs rc)"

definition shape_ok :: "crypto \<Rightarrow> state \<Rightarrow> bool" where
  "shape_ok C s \<longleftrightarrow> state_ok C s \<and> inj_on cr_id (cells_of s) \<and> fset (st_known_ids s) = cr_id ` cells_of s \<and>
    (\<forall>r i. fmlookup (st_spent_by s) r = Some i \<longrightarrow> i |\<in>| fmdom (st_applied s)) \<and>
    (\<forall>i rc. fmlookup (st_applied s) i = Some rc \<longrightarrow> rc_certificate_digest rc \<noteq> zero_array \<and>
      set (rc_output_refs rc) \<subseteq> cells_of s) \<and>
    (\<forall>i rc. fmlookup (st_applied s) i = Some rc \<longrightarrow> distinct (receipt_ids rc)) \<and>
    (\<forall>i j rc rd. fmlookup (st_applied s) i = Some rc \<longrightarrow> fmlookup (st_applied s) j = Some rd \<longrightarrow> i \<noteq> j \<longrightarrow>
      set (receipt_ids rc) \<inter> set (receipt_ids rd) = {})"

lemma shape_live_iff:
  "foldE (check_shape_live C s) xs ids = Inr ids' \<longleftrightarrow>
    (\<forall>(r, c) \<in> set xs. r = cell_reference c \<and> validate_cell C c = Inr () \<and> cr_id r |\<in>| st_known_ids s \<and> r |\<notin>| fmdom (st_spent_by s)) \<and>
    distinct (map (\<lambda>x. cr_id (fst x)) xs) \<and> (\<lambda>x. cr_id (fst x)) ` set xs \<inter> fset ids = {} \<and>
    ids' = ids |\<union>| fset_of_list (map (\<lambda>x. cr_id (fst x)) xs)"
proof (induction xs arbitrary: ids)
  case (Cons x xs)
  obtain r c where x: "x = (r, c)"
    by fastforce
  have step: "check_shape_live C s x ids = Inr t \<longleftrightarrow> r = cell_reference c \<and> validate_cell C c = Inr () \<and> cr_id r |\<notin>| ids \<and>
      cr_id r |\<in>| st_known_ids s \<and> r |\<notin>| fmdom (st_spent_by s) \<and> t = finsert (cr_id r) ids" for t
    by (auto simp: x check_shape_live_def)
  show ?case
    unfolding foldE.simps bindE_Inr_iff step Cons.IH by (auto simp: x)
qed auto

lemma shape_spent_iff:
  "foldE (check_shape_spent s) xs ids = Inr ids' \<longleftrightarrow>
    (\<forall>(r, i) \<in> set xs. cr_id r |\<in>| st_known_ids s \<and> i |\<in>| fmdom (st_applied s)) \<and>
    distinct (map (\<lambda>x. cr_id (fst x)) xs) \<and> (\<lambda>x. cr_id (fst x)) ` set xs \<inter> fset ids = {} \<and>
    ids' = ids |\<union>| fset_of_list (map (\<lambda>x. cr_id (fst x)) xs)"
proof (induction xs arbitrary: ids)
  case (Cons x xs)
  obtain r i where x: "x = (r, i)"
    by fastforce
  have step: "check_shape_spent s x ids = Inr t \<longleftrightarrow> cr_id r |\<notin>| ids \<and> cr_id r |\<in>| st_known_ids s \<and>
      i |\<in>| fmdom (st_applied s) \<and> t = finsert (cr_id r) ids" for t
    by (auto simp: x check_shape_spent_def)
  show ?case
    unfolding foldE.simps bindE_Inr_iff step Cons.IH by (auto simp: x)
qed auto

lemma shape_refs_iff:
  "foldE (check_output_ref s) refs outs = Inr outs' \<longleftrightarrow> set refs \<subseteq> cells_of s \<and> distinct (map cr_id refs) \<and>
    cr_id ` set refs \<inter> fset outs = {} \<and> outs' = outs |\<union>| fset_of_list (map cr_id refs)"
proof (induction refs arbitrary: outs)
  case (Cons r refs)
  have step: "check_output_ref s r outs = Inr t \<longleftrightarrow> cr_id r |\<notin>| outs \<and> r \<in> cells_of s \<and> t = finsert (cr_id r) outs" for t
    by (auto simp: check_output_ref_def cells_of_def)
  show ?case
    unfolding foldE.simps bindE_Inr_iff step Cons.IH by auto
qed auto

lemma shape_receipts_iff:
  "foldE (check_shape_receipt s) xs outs = Inr outs' \<longleftrightarrow>
    (\<forall>(i, rc) \<in> set xs. i = rc_intent rc \<and> rc_certificate_digest rc \<noteq> zero_array \<and> rc_output_refs rc \<noteq> [] \<and>
      set (rc_output_refs rc) \<subseteq> cells_of s) \<and>
    distinct (concat (map (\<lambda>x. receipt_ids (snd x)) xs)) \<and>
    set (concat (map (\<lambda>x. receipt_ids (snd x)) xs)) \<inter> fset outs = {} \<and>
    outs' = outs |\<union>| fset_of_list (concat (map (\<lambda>x. receipt_ids (snd x)) xs))"
proof (induction xs arbitrary: outs)
  case (Cons x xs)
  obtain i rc where x: "x = (i, rc)"
    by fastforce
  have step: "check_shape_receipt s x outs = Inr t \<longleftrightarrow> i = rc_intent rc \<and> rc_certificate_digest rc \<noteq> zero_array \<and>
      rc_output_refs rc \<noteq> [] \<and> set (rc_output_refs rc) \<subseteq> cells_of s \<and> distinct (receipt_ids rc) \<and>
      set (receipt_ids rc) \<inter> fset outs = {} \<and> t = outs |\<union>| fset_of_list (receipt_ids rc)" for t
    by (auto simp: x check_shape_receipt_def shape_refs_iff receipt_ids_def)
  show ?case
    unfolding foldE.simps bindE_Inr_iff step Cons.IH by (auto simp: x fset_of_list.rep_eq)
qed auto

lemma disjoint_insert_iff:
  assumes "a \<notin> A" and "\<And>x y. D x y = D y x"
  shows "(\<forall>x \<in> insert a A. \<forall>y \<in> insert a A. x \<noteq> y \<longrightarrow> D x y) \<longleftrightarrow> (\<forall>x \<in> A. \<forall>y \<in> A. x \<noteq> y \<longrightarrow> D x y) \<and> (\<forall>x \<in> A. D a x)"
proof
  assume all: "\<forall>x \<in> insert a A. \<forall>y \<in> insert a A. x \<noteq> y \<longrightarrow> D x y"
  have "D a x" if "x \<in> A" for x
    using all that assms(1) by (metis insertI1 insertI2)
  then show "(\<forall>x \<in> A. \<forall>y \<in> A. x \<noteq> y \<longrightarrow> D x y) \<and> (\<forall>x \<in> A. D a x)"
    using all by simp
next
  assume parts: "(\<forall>x \<in> A. \<forall>y \<in> A. x \<noteq> y \<longrightarrow> D x y) \<and> (\<forall>x \<in> A. D a x)"
  have "D x y" if "x \<in> insert a A" "y \<in> insert a A" "x \<noteq> y" for x y
  proof (cases "y = a")
    case True
    then show ?thesis
      using parts that assms(2) [of x y] by auto
  qed (use parts that in auto)
  then show "\<forall>x \<in> insert a A. \<forall>y \<in> insert a A. x \<noteq> y \<longrightarrow> D x y"
    by blast
qed

lemma distinct_concat_pairwise:
  assumes "distinct xs"
  shows "distinct (concat (map f xs)) \<longleftrightarrow> (\<forall>x \<in> set xs. distinct (f x)) \<and>
    (\<forall>x \<in> set xs. \<forall>y \<in> set xs. x \<noteq> y \<longrightarrow> set (f x) \<inter> set (f y) = {})"
  using assms
proof (induction xs)
  case (Cons a xs)
  then have a: "a \<notin> set xs" and IH: "distinct (concat (map f xs)) \<longleftrightarrow> (\<forall>x \<in> set xs. distinct (f x)) \<and>
      (\<forall>x \<in> set xs. \<forall>y \<in> set xs. x \<noteq> y \<longrightarrow> set (f x) \<inter> set (f y) = {})"
    by simp_all
  have e1: "distinct (concat (map f (a # xs))) \<longleftrightarrow> distinct (f a) \<and> distinct (concat (map f xs)) \<and>
      (\<forall>x \<in> set xs. set (f a) \<inter> set (f x) = {})"
    by auto
  have e2: "(\<forall>x \<in> set (a # xs). \<forall>y \<in> set (a # xs). x \<noteq> y \<longrightarrow> set (f x) \<inter> set (f y) = {}) \<longleftrightarrow>
      (\<forall>x \<in> set xs. \<forall>y \<in> set xs. x \<noteq> y \<longrightarrow> set (f x) \<inter> set (f y) = {}) \<and> (\<forall>x \<in> set xs. set (f a) \<inter> set (f x) = {})"
    unfolding list.set by (rule disjoint_insert_iff [where D = "\<lambda>x y. set (f x) \<inter> set (f y) = {}", OF a]) (subst Int_commute, rule refl)
  have e3: "(\<forall>x \<in> set (a # xs). distinct (f x)) \<longleftrightarrow> distinct (f a) \<and> (\<forall>x \<in> set xs. distinct (f x))"
    by simp
  show ?case
    unfolding e1 e2 e3 IH by (simp only: conj_ac)
qed simp

lemma sorted_list_of_fmap_distinct: "distinct (sorted_list_of_fmap m)"
proof -
  have "distinct (map fst (sorted_list_of_fmap m))"
    by (simp add: sorted_list_of_fmap_keys)
  then show ?thesis
    by (simp add: distinct_map)
qed

lemma sorted_fmap_ids:
  "distinct (map (\<lambda>x. cr_id (fst x)) (sorted_list_of_fmap m)) \<longleftrightarrow> inj_on cr_id (fset (fmdom m))"
  "(\<lambda>x. cr_id (fst x)) ` set (sorted_list_of_fmap m) = cr_id ` fset (fmdom m)"
proof -
  have eq: "map (\<lambda>x. cr_id (fst x)) (sorted_list_of_fmap m) = map cr_id (sorted_list_of_fset (fmdom m))"
    unfolding sorted_list_of_fmap_keys [symmetric] by simp
  show "distinct (map (\<lambda>x. cr_id (fst x)) (sorted_list_of_fmap m)) \<longleftrightarrow> inj_on cr_id (fset (fmdom m))"
    unfolding eq by (simp add: distinct_map)
  show "(\<lambda>x. cr_id (fst x)) ` set (sorted_list_of_fmap m) = cr_id ` fset (fmdom m)"
    using arg_cong [OF eq, of set] by simp
qed

lemma receipts_distinct_iff:
  "distinct (concat (map (\<lambda>x. receipt_ids (snd x)) (sorted_list_of_fmap m))) \<longleftrightarrow>
    (\<forall>i rc. fmlookup m i = Some rc \<longrightarrow> distinct (receipt_ids rc)) \<and>
    (\<forall>i j rc rd. fmlookup m i = Some rc \<longrightarrow> fmlookup m j = Some rd \<longrightarrow> i \<noteq> j \<longrightarrow> set (receipt_ids rc) \<inter> set (receipt_ids rd) = {})"
proof -
  have "(\<forall>x \<in> set (sorted_list_of_fmap m). \<forall>y \<in> set (sorted_list_of_fmap m). x \<noteq> y \<longrightarrow> set (receipt_ids (snd x)) \<inter> set (receipt_ids (snd y)) = {}) \<longleftrightarrow>
      (\<forall>i j rc rd. fmlookup m i = Some rc \<longrightarrow> fmlookup m j = Some rd \<longrightarrow> i \<noteq> j \<longrightarrow> set (receipt_ids rc) \<inter> set (receipt_ids rd) = {})"
    unfolding ball_sorted_list_of_fmap by (metis option.inject prod.inject snd_conv)
  then show ?thesis
    unfolding distinct_concat_pairwise [OF sorted_list_of_fmap_distinct] by (simp add: ball_sorted_list_of_fmap)
qed

lemma validate_state_shape_iff: "validate_state_shape C s = Inr () \<longleftrightarrow> shape_ok C s"
proof -
  let ?ids = "\<lambda>m. fset_of_list (map (\<lambda>x. cr_id (fst x)) (sorted_list_of_fmap m))"
  have ids: "fset (?ids m) = cr_id ` fset (fmdom m)" for m :: "(cell_ref, 'v) fmap"
    using sorted_fmap_ids(2) [of m] by (simp only: fset_of_list.rep_eq list.set_map)
  have "validate_state_shape C s = Inr () \<longleftrightarrow> state_ok C s \<and>
      (\<exists>l p q. foldE (check_shape_live C s) (sorted_list_of_fmap (st_live s)) {||} = Inr l \<and>
        foldE (check_shape_spent s) (sorted_list_of_fmap (st_spent_by s)) l = Inr p \<and> p = st_known_ids s \<and>
        foldE (check_shape_receipt s) (sorted_list_of_fmap (st_applied s)) {||} = Inr q)"
    by (auto simp: validate_state_shape_def validate_state_iff)
  also have "\<dots> \<longleftrightarrow> shape_ok C s"
  proof (cases "state_ok C s")
    case True
    have live: "\<forall>(r, c) \<in> set (sorted_list_of_fmap (st_live s)). r = cell_reference c \<and> validate_cell C c = Inr () \<and>
        cr_id r |\<in>| st_known_ids s \<and> r |\<notin>| fmdom (st_spent_by s)"
      using True by (auto simp: sorted_list_of_fmap_mem state_ok_def)
    have disjoint: "fset (fmdom (st_live s)) \<inter> fset (fmdom (st_spent_by s)) = {}"
      using True by (auto simp: state_ok_def)
    have spent: "(\<forall>(r, i) \<in> set (sorted_list_of_fmap (st_spent_by s)). cr_id r |\<in>| st_known_ids s \<and> i |\<in>| fmdom (st_applied s)) \<longleftrightarrow>
        (\<forall>r i. fmlookup (st_spent_by s) r = Some i \<longrightarrow> i |\<in>| fmdom (st_applied s))"
      unfolding ball_sorted_list_of_fmap prod.case using True unfolding state_ok_def by (metis fmdomI)
    have receipts: "(\<forall>(i, rc) \<in> set (sorted_list_of_fmap (st_applied s)). i = rc_intent rc \<and> rc_certificate_digest rc \<noteq> zero_array \<and>
        rc_output_refs rc \<noteq> [] \<and> set (rc_output_refs rc) \<subseteq> cells_of s) \<longleftrightarrow>
        (\<forall>i rc. fmlookup (st_applied s) i = Some rc \<longrightarrow> rc_certificate_digest rc \<noteq> zero_array \<and> set (rc_output_refs rc) \<subseteq> cells_of s)"
      unfolding ball_sorted_list_of_fmap prod.case using True unfolding state_ok_def by blast
    have known: "?ids (st_live s) |\<union>| ?ids (st_spent_by s) = st_known_ids s \<longleftrightarrow> fset (st_known_ids s) = cr_id ` cells_of s"
      using ids [of "st_live s"] ids [of "st_spent_by s"] by (auto simp: fset_eq_iff cells_of_def image_Un simp del: fset_of_list_map)
    have inj: "inj_on cr_id (cells_of s) \<longleftrightarrow> inj_on cr_id (fset (fmdom (st_live s))) \<and> inj_on cr_id (fset (fmdom (st_spent_by s))) \<and>
        cr_id ` fset (fmdom (st_spent_by s)) \<inter> cr_id ` fset (fmdom (st_live s)) = {}"
      using disjoint by (auto simp: cells_of_def inj_on_Un)
    have l: "foldE (check_shape_live C s) (sorted_list_of_fmap (st_live s)) {||} = Inr l \<longleftrightarrow>
        inj_on cr_id (fset (fmdom (st_live s))) \<and> l = ?ids (st_live s)" for l
      unfolding shape_live_iff sorted_fmap_ids using live by (simp del: fset_of_list_map)
    have p: "foldE (check_shape_spent s) (sorted_list_of_fmap (st_spent_by s)) (?ids (st_live s)) = Inr p \<longleftrightarrow>
        (\<forall>r i. fmlookup (st_spent_by s) r = Some i \<longrightarrow> i |\<in>| fmdom (st_applied s)) \<and> inj_on cr_id (fset (fmdom (st_spent_by s))) \<and>
        cr_id ` fset (fmdom (st_spent_by s)) \<inter> cr_id ` fset (fmdom (st_live s)) = {} \<and> ?ids (st_live s) |\<union>| ?ids (st_spent_by s) = p" for p
      unfolding shape_spent_iff sorted_fmap_ids spent ids by (simp only: eq_commute [of p])
    have q: "(\<exists>q. foldE (check_shape_receipt s) (sorted_list_of_fmap (st_applied s)) {||} = Inr q) \<longleftrightarrow>
        (\<forall>i rc. fmlookup (st_applied s) i = Some rc \<longrightarrow> rc_certificate_digest rc \<noteq> zero_array \<and> set (rc_output_refs rc) \<subseteq> cells_of s) \<and>
        (\<forall>i rc. fmlookup (st_applied s) i = Some rc \<longrightarrow> distinct (receipt_ids rc)) \<and>
        (\<forall>i j rc rd. fmlookup (st_applied s) i = Some rc \<longrightarrow> fmlookup (st_applied s) j = Some rd \<longrightarrow> i \<noteq> j \<longrightarrow>
          set (receipt_ids rc) \<inter> set (receipt_ids rd) = {})"
      unfolding shape_receipts_iff receipts receipts_distinct_iff by simp
    have "(\<exists>l p q. foldE (check_shape_live C s) (sorted_list_of_fmap (st_live s)) {||} = Inr l \<and>
        foldE (check_shape_spent s) (sorted_list_of_fmap (st_spent_by s)) l = Inr p \<and> p = st_known_ids s \<and>
        foldE (check_shape_receipt s) (sorted_list_of_fmap (st_applied s)) {||} = Inr q) \<longleftrightarrow>
      inj_on cr_id (fset (fmdom (st_live s))) \<and>
      foldE (check_shape_spent s) (sorted_list_of_fmap (st_spent_by s)) (?ids (st_live s)) = Inr (st_known_ids s) \<and>
      (\<exists>q. foldE (check_shape_receipt s) (sorted_list_of_fmap (st_applied s)) {||} = Inr q)"
      unfolding l by blast
    also have "\<dots> \<longleftrightarrow> shape_ok C s"
      unfolding p q shape_ok_def inj known [symmetric] by (simp only: True simp_thms conj_ac)
    finally show ?thesis
      using True by simp
  qed (simp add: shape_ok_def)
  finally show ?thesis .
qed

section \<open>Applying a transfer keeps the shape\<close>

lemma materialize_ids:
  assumes "materialize_outputs C tx = Inr outs" and "distinct (map cell_reference outs)"
  shows "inj_on cr_id (cell_reference ` set outs)"
proof (rule inj_onI)
  fix a b assume ab: "a \<in> cell_reference ` set outs" "b \<in> cell_reference ` set outs" "cr_id a = cr_id b"
  have "cr_asset_id (cell_reference c) = cr_asset_id (cell_reference (tx_input tx)) \<and>
      unat (cr_generation (cell_reference c)) = unat (cr_generation (cell_reference (tx_input tx))) + 1" if "c \<in> set outs" for c
  proof -
    from that obtain i where i: "i < length outs" "c = outs ! i"
      unfolding in_set_conv_nth by blast
    then have "output_cell C tx (i, effects C tx ! i) = Inr c"
      using materialize_nth [OF assms(1), of i] materialize_length [OF assms(1)] by simp
    then show ?thesis
      by (rule output_ref_InrD [OF output_cell_InrD(1)]) simp
  qed
  then have *: "cr_asset_id d = cr_asset_id (cell_reference (tx_input tx)) \<and>
      unat (cr_generation d) = unat (cr_generation (cell_reference (tx_input tx))) + 1" if "d \<in> cell_reference ` set outs" for d
    using that by blast
  have "cr_asset_id a = cr_asset_id b" "unat (cr_generation a) = unat (cr_generation b)"
    using * [OF ab(1)] * [OF ab(2)] by simp_all
  then have "cr_asset_id a = cr_asset_id b" "cr_generation a = cr_generation b"
    by (simp_all add: word_unat_eq_iff)
  then show "a = b"
    using ab(3) by (cases a; cases b) simp
qed

lemma commit_cells:
  assumes "committable C s tx outs"
  shows "cells_of (commit tx i rc outs s) = cells_of s \<union> cell_reference ` set outs"
proof -
  have "cell_reference (tx_input tx) \<in> fset (fmdom (st_live s))"
    using assms by (metis committable_def fmdomI)
  then show ?thesis
    by (auto simp: cells_of_def)
qed

lemma commit_shape_ok:
  assumes shape: "shape_ok C s" and cm: "committable C s tx outs" and outs: "outs \<noteq> []" "inj_on cr_id (cell_reference ` set outs)"
    and rc: "rc_intent rc = intent" "rc_output_refs rc = map cell_reference outs" "rc_certificate_digest rc \<noteq> zero_array"
    and fresh: "fmlookup (st_applied s) intent = None"
  shows "shape_ok C (commit tx intent rc outs s)"
proof -
  let ?t = "commit tx intent rc outs s" and ?O = "cell_reference ` set outs"
  have ok: "state_ok C s" and inj: "inj_on cr_id (cells_of s)" and known: "fset (st_known_ids s) = cr_id ` cells_of s"
    and spent: "\<And>r i. fmlookup (st_spent_by s) r = Some i \<Longrightarrow> i |\<in>| fmdom (st_applied s)"
    and refs: "\<And>i rc. fmlookup (st_applied s) i = Some rc \<Longrightarrow> rc_certificate_digest rc \<noteq> zero_array \<and> set (rc_output_refs rc) \<subseteq> cells_of s"
    and distinct: "\<And>i rc. fmlookup (st_applied s) i = Some rc \<Longrightarrow> distinct (receipt_ids rc)"
    and disjoint: "\<And>i j rc rd. fmlookup (st_applied s) i = Some rc \<Longrightarrow> fmlookup (st_applied s) j = Some rd \<Longrightarrow> i \<noteq> j \<Longrightarrow>
      set (receipt_ids rc) \<inter> set (receipt_ids rd) = {}"
    using shape unfolding shape_ok_def by blast+
  have new: "cr_id ` ?O \<inter> cr_id ` cells_of s = {}"
    using cm known unfolding committable_def by auto
  have cells: "cells_of ?t = cells_of s \<union> ?O"
    by (rule commit_cells [OF cm])
  have "inj_on cr_id (cells_of ?t)"
    unfolding cells using inj outs(2) new by (simp add: inj_on_Un) blast
  moreover have "fset (st_known_ids ?t) = cr_id ` cells_of ?t"
    unfolding cells using known by (simp add: fset_of_list.rep_eq image_Un image_image)
  moreover have "state_ok C ?t"
    by (rule commit_state_ok [OF ok cm outs(1) rc(1,2)])
  moreover have "\<forall>r i. fmlookup (st_spent_by ?t) r = Some i \<longrightarrow> i |\<in>| fmdom (st_applied ?t)"
    using spent by simp
  moreover have "\<forall>i rd. fmlookup (st_applied ?t) i = Some rd \<longrightarrow> rc_certificate_digest rd \<noteq> zero_array \<and> set (rc_output_refs rd) \<subseteq> cells_of ?t"
    unfolding cells using refs rc by (auto split: if_splits)
  moreover have "\<forall>i rd. fmlookup (st_applied ?t) i = Some rd \<longrightarrow> distinct (receipt_ids rd)"
  proof -
    have "distinct (map cell_reference outs)"
      using cm by (simp add: committable_def)
    then have "distinct (receipt_ids rc)"
      using outs(2) rc(2) by (simp add: receipt_ids_def distinct_map comp_inj_on_iff [symmetric])
    then show ?thesis
      using distinct by simp
  qed
  moreover have "set (receipt_ids rc) \<inter> set (receipt_ids rd) = {}" if "fmlookup (st_applied s) i = Some rd" for i rd
  proof -
    have "set (receipt_ids rc) = cr_id ` ?O" "set (receipt_ids rd) \<subseteq> cr_id ` cells_of s"
      using refs [OF that] rc(2) by (auto simp: receipt_ids_def)
    then show ?thesis
      using new by blast
  qed
  then have "\<forall>i j ra rd. fmlookup (st_applied ?t) i = Some ra \<longrightarrow> fmlookup (st_applied ?t) j = Some rd \<longrightarrow> i \<noteq> j \<longrightarrow>
      set (receipt_ids ra) \<inter> set (receipt_ids rd) = {}"
    using disjoint by (simp add: Int_commute)
  ultimately show ?thesis
    unfolding shape_ok_def by blast
qed

lemma apply_shape_ok:
  assumes ap: "apply_finalized C s tx auth pq cq m = Inr (Applied rc, s')" and shape: "shape_ok C s"
    and cd: "rc_certificate_digest rc \<noteq> zero_array"
  shows "shape_ok C s'"
proof -
  obtain outs intent where c: "committable C s tx outs" "materialize_outputs C tx = Inr outs" "outs \<noteq> []"
    "s' = commit tx intent rc outs s" "rc_intent rc = intent" "rc_output_refs rc = map cell_reference outs" "intent_hash C tx = Inr intent"
    using apply_Applied_committable [OF ap] by metis
  have "fmlookup (st_applied s) intent = None"
    using ap c(7) check_finalityD(1) unfolding apply_Applied_iff by (metis sum.inject(2))
  moreover have "inj_on cr_id (cell_reference ` set outs)"
    using materialize_ids [OF c(2)] c(1) by (simp add: committable_def)
  ultimately show ?thesis
    unfolding c(4) using commit_shape_ok [OF shape c(1,3) _ c(5,6) cd] by blast
qed

end
