(* ===== verification/Delivery.thy ===== *)
theory Delivery
  imports Recovery Shape
begin

text \<open>
  Applying a finalized transfer at running validators (\<open>handle_apply\<close> of \<open>integration001/src/node.rs\<close>,
  \<open>apply_to_validator\<close> of \<open>integration001/src/main.rs\<close>): the conditions under which the write goes
  through, what the validator answers, and that every validator of a cluster answers the same root.
\<close>

section \<open>At the log\<close>

lemma is_zero_iff: "is_zero d \<longleftrightarrow> d = zero_array"
proof -
  have "list_all (\<lambda>b. b = 0) bs \<longleftrightarrow> bs = replicate (length bs) 0" for bs :: "u8 list"
    by (induction bs) auto
  then show ?thesis
    unfolding is_zero_def array_eq_iff by (metis bytes_repeat_array length_array_bytes)
qed

lemma apply_verified_writes:
  assumes healthy: "\<not> ws_poisoned w" and active: "rs_lifecycle (ws_state w) = Active"
    and room: "unat (rs_next_sequence (ws_state w)) + 1 < 2 ^ 64"
    and snap: "validate_snapshot snap (ws_committee_hash w) (ws_epoch w) = Inr ()"
    and new: "fmlookup (rs_applied (ws_state w)) t = None" and digests: "t \<noteq> zero_array" "cd \<noteq> zero_array"
    and root: "sn_state_root snap \<noteq> sn_state_root (rs_current_snapshot (ws_state w))"
  obtains w' where "apply_verified C None t cd snap w = (Inr Persisted, w')" "\<not> ws_poisoned w'"
    "rs_lifecycle (ws_state w') = Active" "unat (rs_next_sequence (ws_state w')) = unat (rs_next_sequence (ws_state w)) + 1"
proof -
  obtain bs where bs: "encode_snapshot snap = Inr bs" "length bs \<le> MAX_SNAPSHOT_BYTES + 76"
    using snap encode_snapshot_length by (auto simp: encode_snapshot_Inr_iff validate_snapshot_Inr_iff)
  have len: "length (apply_payload t cd (sn_state_root (current_snapshot w)) bs) \<le> MAX_PAYLOAD_BYTES"
    using bs(2) by (simp add: apply_payload_def MAX_PAYLOAD_BYTES_def)
  have checks: "ensure_healthy w = Inr ()" "\<not> is_zero t" "\<not> is_zero cd"
    using healthy digests by (simp_all add: ensure_healthy_def is_zero_iff)
  let ?w' = "w\<lparr>ws_file := ws_file w @ record_bytes C (rs_next_sequence (ws_state w)) KIND_APPLY
        (apply_payload t cd (sn_state_root (current_snapshot w)) bs),
      ws_state := (ws_state w)\<lparr>rs_next_sequence := rs_next_sequence (ws_state w) + 1,
        rs_applied := fmupd t \<lparr>ap_tx_digest = t, ap_certificate_digest = cd,
          ap_prior_state_root = sn_state_root (current_snapshot w), ap_next_snapshot = snap\<rparr> (rs_applied (ws_state w)),
        rs_current_snapshot := snap\<rparr>\<rparr>"
  have "apply_verified C None t cd snap w = (Inr Persisted, ?w')"
    using checks append_then_written [OF len room] active snap new root bs(1)
    by (simp add: apply_verified_def applied_record_of_def ws_lifecycle_def current_snapshot_def Let_def)
  moreover have "unat (rs_next_sequence (ws_state w) + 1) = unat (rs_next_sequence (ws_state w)) + 1"
    using room by (simp add: unat_word_ariths)
  ultimately show thesis
    using healthy active by (intro that [of ?w']) simp_all
qed

section \<open>At a validator\<close>

text \<open>A validator that holds the ledger \<open>s\<close> and can write \<open>k\<close> more records.\<close>

definition applier :: "crypto \<Rightarrow> node_config \<Rightarrow> state \<Rightarrow> nat \<Rightarrow> node_server \<Rightarrow> bool" where
  "applier C config s k n \<longleftrightarrow> node_inv C config n \<and> synced C config n \<and> ns_state n = s \<and>
    rs_lifecycle (ws_state (ns_store n)) = Active \<and> \<not> ws_poisoned (ns_store n) \<and>
    unat (rs_next_sequence (ws_state (ns_store n))) + k < 2 ^ 64"

lemma chain_verified:
  assumes "check_finality C tx pq fq (ns_manifest n) = Inr x"
  shows "verify_finality_chain C n tx pq fq = Inr ()"
  using assms
  by (cases "qc_votes pq"; cases "qc_votes fq"; auto simp: check_finality_def verify_finality_chain_def Let_def split: if_splits)

lemma apply_request_succeeds:
  assumes n: "applier C config s (Suc k) n"
    and ap: "apply_finalized C s tx auth pq fq (lab_committee C (nc_epoch config)) = Inr (Applied rc, s')"
    and enc: "encode_state s' = Inr bs" and root: "state_root C s' \<noteq> state_root C s"
    and digests: "rc_intent rc \<noteq> zero_array" "rc_certificate_digest rc \<noteq> zero_array"
  obtains n' where "handle_request C None (Apply tx auth pq fq) n = (Inr (AppliedResponse (state_root C s') False, False), n')"
    "applier C config s' k n'"
proof -
  let ?w = "ns_store n" and ?m = "lab_committee C (nc_epoch config)"
  have inv: "node_inv C config n" and sync: "synced C config n" and state: "ns_state n = s"
    and w: "rs_lifecycle (ws_state ?w) = Active" "\<not> ws_poisoned ?w" "unat (rs_next_sequence (ws_state ?w)) + Suc k < 2 ^ 64"
    using n by (simp_all add: applier_def)
  have m: "ns_manifest n = ?m" and cm: "ws_committee_hash ?w = ns_committee_hash n" "ws_epoch ?w = nc_epoch config"
    using inv by (simp_all add: node_inv_def)
  have durable: "validate_state_shape C s = Inr ()" "reconcile_state_with_wal s ?w = Inr ()"
    "sn_state_root (rs_current_snapshot (ws_state ?w)) = state_root C s"
    using sync state unfolding synced_def load_durable_state_iff by simp_all
  have fin: "check_finality C tx pq fq ?m = Inr (rc_intent rc)" and fresh: "fmlookup (st_applied s) (rc_intent rc) = None"
    using ap unfolding apply_Applied_iff by auto
  let ?snap = "\<lparr>sn_committee_hash = ns_committee_hash n, sn_epoch = m_epoch ?m, sn_state_root = state_root C s', sn_bytes = bs\<rparr>"
  have "validate_state_shape C s' = Inr ()"
    using apply_shape_ok [OF ap _ digests(2)] durable(1) unfolding validate_state_shape_iff by blast
  then have next_snap: "next_snapshot C n s' = Inr ?snap"
    using enc m by (simp add: next_snapshot_def)
  have valid: "validate_snapshot ?snap (ws_committee_hash ?w) (ws_epoch ?w) = Inr ()"
    using exact_encode_bound [OF enc [unfolded encode_state_def]] cm
    by (simp add: validate_snapshot_Inr_iff MAX_FRAME_LEN_def MAX_SNAPSHOT_BYTES_def)
  have "fmlookup (rs_applied (ws_state ?w)) (rc_intent rc) = None"
    using reconcile_keys [OF durable(2)] fresh by (metis fmdom_notD fmdom_notI)
  then obtain w' where w': "apply_verified C None (rc_intent rc) (rc_certificate_digest rc) ?snap ?w = (Inr Persisted, w')"
    "\<not> ws_poisoned w'" "rs_lifecycle (ws_state w') = Active" "unat (rs_next_sequence (ws_state w')) = unat (rs_next_sequence (ws_state ?w)) + 1"
    using apply_verified_writes [OF w(2,1) _ valid _ digests] root durable(3) w(3)
    by auto
  let ?n = "n\<lparr>ns_store := w', ns_state := s'\<rparr>"
  have h: "handle_request C None (Apply tx auth pq fq) n = (Inr (AppliedResponse (state_root C s') False, False), ?n)"
    using chain_verified [of C tx pq fq n] fin ap next_snap w'(1) m state by (simp add: handle_apply_def)
  have "applier C config s' k ?n"
    using node_step_inv [OF node_step.request [OF h] inv] handle_request_synced [OF h sync inv] w' w(3) by (simp add: applier_def)
  then show thesis
    using h that by blast
qed

section \<open>At every validator of a cluster\<close>

text \<open>The loop of \<open>run_phase_a_once\<close> over all ports: apply, and compare the duplicate flag with the expected one.\<close>

fun apply_at :: "crypto \<Rightarrow> network \<Rightarrow> finalized_transfer \<Rightarrow> bool \<Rightarrow> nat list \<Rightarrow> digest list remote" where
  "apply_at C net finalized expected [] w = (Inr [], w)"
| "apply_at C net finalized expected (i # vs) w =
    bindR (apply_to_validator C net i finalized) (\<lambda>(root, duplicate).
      if duplicate \<noteq> expected then liftR (Inl (RunFailed
        (if expected then ''duplicate live Bob apply advanced state twice'' else ''first live Bob apply was marked duplicate'')))
      else bindR (apply_at C net finalized expected vs) (\<lambda>roots. liftR (Inr (root # roots)))) w"

lemma encode_applied_ok: "\<exists>bs. encode_response (AppliedResponse root dup) = Inr bs"
  by (cases dup) (auto simp: encode_response_def put_bool_def MAX_FRAME_LEN_def intro!: exact_encode_ok)

abbreviation apply_request :: "finalized_transfer \<Rightarrow> request" where
  "apply_request ft \<equiv> Apply (ft_tx ft) (ft_auth ft) (ft_prevote_qc ft) (ft_qc ft)"

abbreviation apply_transfer_to :: "crypto \<Rightarrow> state \<Rightarrow> finalized_transfer \<Rightarrow> u64 \<Rightarrow> model_error + apply_outcome \<times> state" where
  "apply_transfer_to C s ft e \<equiv>
    apply_finalized C s (ft_tx ft) (ft_auth ft) (ft_prevote_qc ft) (ft_qc ft) (lab_committee C e)"

lemma apply_request_encodes:
  assumes "apply_transfer_to C s ft e = Inr (Applied rc, s')"
  shows "\<exists>payload. encode_request (apply_request ft) = Inr payload"
proof -
  obtain x where x: "check_finality C (ft_tx ft) (ft_prevote_qc ft) (ft_qc ft) (lab_committee C e) = Inr x"
    "verify_user_auth C (ft_tx ft) (ft_auth ft) (lab_committee C e) = Inr ()"
    using assms unfolding apply_Applied_iff by blast
  have "tx_outputs (ft_tx ft) \<noteq> []" "length (tx_outputs (ft_tx ft)) \<le> 8"
    using x(2) by (auto simp: verify_user_auth_iff valid_tx_def)
  then show ?thesis
    using check_finalityD(2) [OF x(1)] encode_request_ok(3) by blast
qed

text \<open>One delivery: the validator answers as \<open>handle_request\<close> does and the others are untouched.\<close>

lemma apply_to_validator_answers:
  assumes req: "encode_request (apply_request ft) = Inr payload"
    and net: "net (apply_request ft) i = Reached None" and i: "i < length (w_nodes w)"
    and n: "handle_request C None (apply_request ft) (w_nodes w ! i) = (Inr (AppliedResponse root dup, False), n')"
  obtains m where "apply_to_validator C net i ft w = (Inr (root, dup), w\<lparr>w_nodes := (w_nodes w)[i := n'], w_metrics := m\<rparr>)"
proof -
  obtain out where out: "encode_response (AppliedResponse root dup) = Inr out"
    using encode_applied_ok by blast
  obtain m where "rpc C net i (apply_request ft) w =
      (Inr (AppliedResponse root dup), w\<lparr>w_nodes := (w_nodes w)[i := n'], w_metrics := m\<rparr>)"
    using rpc_delivers [where C = C and net = net and i = i and w = w, OF req net i n out] by blast
  then show thesis
    by (intro that [of m]) (simp add: apply_to_validator_def)
qed

text \<open>A loop of deliveries whose answer is the same at every validator.\<close>

lemma apply_at_answers:
  assumes req: "encode_request (apply_request ft) = Inr payload"
    and step: "\<forall>i n. P i n \<longrightarrow> (\<exists>n'. handle_request C None (apply_request ft) n =
      (Inr (AppliedResponse root dup, False), n') \<and> R i n')"
    and nodes: "distinct vs" "\<forall>i \<in> set vs. net (apply_request ft) i = Reached None \<and> i < length (w_nodes w) \<and> P i (w_nodes w ! i)"
  shows "\<exists>w'. apply_at C net ft dup vs w = (Inr (replicate (length vs) root), w') \<and>
    length (w_nodes w') = length (w_nodes w) \<and> (\<forall>i \<in> set vs. R i (w_nodes w' ! i)) \<and>
    (\<forall>j. j \<notin> set vs \<longrightarrow> w_nodes w' ! j = w_nodes w ! j)"
  using nodes
proof (induction vs arbitrary: w)
  case (Cons i vs)
  then have i: "net (apply_request ft) i = Reached None" "i < length (w_nodes w)" "P i (w_nodes w ! i)" "i \<notin> set vs"
    by simp_all
  obtain n' where n': "handle_request C None (apply_request ft) (w_nodes w ! i) = (Inr (AppliedResponse root dup, False), n')" "R i n'"
    using step i(3) by blast
  obtain m where m: "apply_to_validator C net i ft w = (Inr (root, dup), w\<lparr>w_nodes := (w_nodes w)[i := n'], w_metrics := m\<rparr>)"
    using apply_to_validator_answers [where net = net and i = i and w = w, OF req i(1,2) n'(1)] .
  let ?w = "w\<lparr>w_nodes := (w_nodes w)[i := n'], w_metrics := m\<rparr>"
  have "\<forall>j \<in> set vs. net (apply_request ft) j = Reached None \<and> j < length (w_nodes ?w) \<and> P j (w_nodes ?w ! j)"
    using Cons.prems(2) i(4) by (auto simp: nth_list_update)
  then obtain w' where w': "apply_at C net ft dup vs ?w = (Inr (replicate (length vs) root), w')"
    "length (w_nodes w') = length (w_nodes ?w)" "\<forall>j \<in> set vs. R j (w_nodes w' ! j)"
    "\<forall>j. j \<notin> set vs \<longrightarrow> w_nodes w' ! j = w_nodes ?w ! j"
    using Cons.IH [of ?w] Cons.prems(1) by auto
  have "apply_at C net ft dup (i # vs) w = (Inr (replicate (length (i # vs)) root), w')"
    using m w'(1) by simp
  moreover have "\<forall>j \<in> set (i # vs). R j (w_nodes w' ! j)"
    using w'(3,4) i(2,4) n'(2) by simp
  ultimately show ?case
    using w'(2,4) by (intro exI [of _ w']) simp
qed simp

section \<open>First and repeated applications\<close>

text \<open>Each of some validators holds the ledger \<open>s\<close> and has room for \<open>k\<close> more records.\<close>

definition appliers :: "crypto \<Rightarrow> (nat \<Rightarrow> node_config) \<Rightarrow> u64 \<Rightarrow> state \<Rightarrow> nat \<Rightarrow> nat list \<Rightarrow> world \<Rightarrow> bool" where
  "appliers C configs e s k vs w \<longleftrightarrow>
    (\<forall>i \<in> set vs. i < length (w_nodes w) \<and> nc_epoch (configs i) = e \<and> applier C (configs i) s k (w_nodes w ! i))"

lemma apply_request_repeats:
  assumes n: "applier C config s' k n" and e: "nc_epoch config = e"
    and ap: "apply_transfer_to C s ft e = Inr (Applied rc, s')"
  shows "handle_request C None (apply_request ft) n = (Inr (AppliedResponse (state_root C s') True, False), n)"
proof -
  have x: "check_finality C (ft_tx ft) (ft_prevote_qc ft) (ft_qc ft) (lab_committee C e) = Inr (rc_intent rc)"
    and auth: "verify_user_auth C (ft_tx ft) (ft_auth ft) (lab_committee C e) = Inr ()"
    and s': "s' = commit (ft_tx ft) (rc_intent rc) rc (output_cells C (rc_intent rc) (ft_tx ft)) s \<or>
      fmlookup (st_applied s') (rc_intent rc) = Some rc"
    using ap unfolding apply_Applied_iff by auto
  have "fmlookup (st_applied s') (rc_intent rc) = Some rc"
    using s' by auto
  then have "apply_transfer_to C s' ft e = Inr (AlreadyApplied rc, s')"
    using x auth unfolding apply_AlreadyApplied_iff by blast
  moreover have "ns_manifest n = lab_committee C e" "ns_state n = s'"
    using n e by (simp_all add: applier_def node_inv_def)
  ultimately show ?thesis
    using chain_verified [of C "ft_tx ft" "ft_prevote_qc ft" "ft_qc ft" n] x by (simp add: handle_apply_def)
qed

end
