(* ===== verification/Capacity.thy ===== *)
theory Capacity
  imports Delivery
begin

text \<open>
  How large a ledger can grow before its encoding (\<open>encode_state\<close> of \<open>integration001/src/wire.rs\<close>)
  no longer fits a frame: the exact length of the encoding, and a bound that covers every run the
  controller accepts (132 genesis cells and 129 transfers).
\<close>

definition capacity :: nat where "capacity = 2048"

text \<open>A ledger grown from \<open>g\<close> cells by \<open>t\<close> transfers of at most nine outputs each.\<close>

definition grown :: "crypto \<Rightarrow> nat \<Rightarrow> nat \<Rightarrow> state \<Rightarrow> bool" where
  "grown C g t s \<longleftrightarrow> state_ok C s \<and> fcard (fmdom (st_live s)) \<le> g + 9 * t \<and> fcard (st_known_ids s) \<le> g + 9 * t \<and>
    fcard (fmdom (st_spent_by s)) \<le> t \<and> fcard (fmdom (st_applied s)) \<le> t \<and>
    (\<forall>i rc. fmlookup (st_applied s) i = Some rc \<longrightarrow> length (rc_output_refs rc) \<le> 9)"

lemma fcard_funion_le: "fcard (A |\<union>| B) \<le> fcard A + fcard B"
  by (simp add: fcard.rep_eq card_Un_le)

lemma fcard_finsert_le: "fcard (finsert x A) \<le> Suc (fcard A)"
  by (simp add: fcard.rep_eq card_insert_if)

lemma fcard_list_le: "fcard (fset_of_list xs) \<le> length xs"
  by (simp add: fcard.rep_eq fset_of_list.rep_eq card_length)

lemma fcard_delete_le: "fcard (A |-| B) \<le> fcard A"
  by (simp add: fcard.rep_eq card_Diff1_le card_mono)

text \<open>One transfer grows the ledger by at most nine cells.\<close>

lemma apply_grown:
  assumes ap: "apply_finalized C s tx auth pq cq m = Inr (Applied rc, s')" and s: "grown C g t s"
  shows "grown C g (Suc t) s'"
proof -
  obtain outs intent where c: "committable C s tx outs" "materialize_outputs C tx = Inr outs" "outs \<noteq> []"
    "s' = commit tx intent rc outs s" "rc_intent rc = intent" "rc_output_refs rc = map cell_reference outs" "valid_tx C tx m"
    using apply_Applied_committable [OF ap] by metis
  have outs: "length outs \<le> 9"
    using materialize_length [OF c(2)] c(7) by (simp add: effects_def valid_tx_def)
  have "state_ok C s'"
    unfolding c(4) using s by (intro commit_state_ok [OF _ c(1,3,5,6)]) (simp add: grown_def)
  moreover have "fcard (fmdom (cells_map outs)) \<le> length outs"
    using fcard_list_le [of "map cell_reference outs"] by (simp add: cells_map_def comp_def)
  then have "fcard (fmdom (st_live s')) \<le> fcard (fmdom (st_live s)) + 9"
    using outs fcard_funion_le [of "fmdom (st_live s) |-| {|cell_reference (tx_input tx)|}" "fmdom (cells_map outs)"]
      fcard_delete_le [of "fmdom (st_live s)" "{|cell_reference (tx_input tx)|}"]
    unfolding c(4) by simp
  moreover have "fcard (st_known_ids s') \<le> fcard (st_known_ids s) + 9"
    unfolding c(4) using outs fcard_funion_le [of "st_known_ids s" "fset_of_list (map (\<lambda>c. cr_id (cell_reference c)) outs)"]
      fcard_list_le [of "map (\<lambda>c. cr_id (cell_reference c)) outs"] by simp
  moreover have "fcard (fmdom (st_spent_by s')) \<le> fcard (fmdom (st_spent_by s)) + 1"
    "fcard (fmdom (st_applied s')) \<le> fcard (fmdom (st_applied s)) + 1"
    unfolding c(4) by (simp_all add: fcard_finsert_le del: fcard_finsert)
  moreover have "\<forall>i rd. fmlookup (st_applied s') i = Some rd \<longrightarrow> length (rc_output_refs rd) \<le> 9"
    unfolding c(4) using s outs c(6) by (simp add: grown_def)
  ultimately show ?thesis
    using s by (simp add: grown_def)
qed

lemma apply_in_order_grown:
  assumes "apply_in_order C s fts order m = Inr s'" and "grown C g t s"
  shows "grown C g (t + length order) s'"
  using assms unfolding apply_in_order_def
proof (induction order arbitrary: s t)
  case (Cons i order)
  then obtain s1 where s1: "apply_transfer C fts m i s = Inr s1" "foldE (apply_transfer C fts m) order s1 = Inr s'"
    by auto
  have "grown C g (Suc t) s1"
    using s1(1) apply_grown [OF _ Cons.prems(2)]
    by (auto simp: apply_transfer_def Let_def split: if_splits apply_outcome.splits)
      (metis apply_outcome.exhaust)+
  then show ?case
    using Cons.IH [OF s1(2), of "Suc t"] by simp
qed simp

lemma genesis_grown:
  assumes "from_cells C cells = Inr s"
  shows "grown C (length cells) 0 s"
proof -
  have "fcard (st_known_ids s) = fcard (fmdom (st_live s))"
    using from_cells_pure(1) [OF assms] by (simp add: pure_genesis_def fcard.rep_eq card_image)
  then show ?thesis
    using from_cells_pure [OF assms] by (simp add: grown_def pure_genesis_def fcard_fempty)
qed

section \<open>The length of an encoded ledger\<close>

definition receipt_size :: "apply_receipt \<Rightarrow> nat" where
  "receipt_size rc = 68 + 44 * length (rc_output_refs rc)"

lemma put_receipt_length:
  assumes "length (rc_output_refs rc) \<le> 9"
  shows "\<exists>bs. put_apply_receipt rc = Inr bs \<and> length bs = receipt_size rc"
  using assms concat_fixed_length [of put_cell_ref 44 "rc_output_refs rc"]
  by (simp add: put_apply_receipt_def put_bounded_count_def wire_limits receipt_size_def put_cell_ref_def)

lemma put_receipts_length:
  assumes "\<forall>rc \<in> set rcs. length (rc_output_refs rc) \<le> 9"
  shows "\<exists>bss. mapE put_apply_receipt rcs = Inr bss \<and> length (concat bss) = sum_list (map receipt_size rcs)"
  using assms
proof (induction rcs)
  case (Cons rc rcs)
  obtain bs where bs: "put_apply_receipt rc = Inr bs" "length bs = receipt_size rc"
    using put_receipt_length [of rc] Cons.prems by auto
  obtain bss where "mapE put_apply_receipt rcs = Inr bss" "length (concat bss) = sum_list (map receipt_size rcs)"
    using Cons by auto
  then show ?case
    using bs by (intro exI [of _ "bs # bss"]) simp
qed simp

lemma sum_list_bound: "\<forall>x \<in> set xs. f x \<le> n \<Longrightarrow> sum_list (map f xs) \<le> n * length xs" for n :: nat
  by (induction xs) auto

lemma grown_encodes:
  assumes s: "grown C g t s" and room: "g + 9 * t \<le> capacity"
  obtains bs where "encode_state s = Inr bs" "decode_state bs = Inr s" "length bs \<le> MAX_FRAME_LEN"
proof -
  have ok: "state_ok C s" and n: "fcard (fmdom (st_live s)) \<le> capacity" "fcard (st_known_ids s) \<le> capacity"
    "fcard (fmdom (st_spent_by s)) \<le> 228" "fcard (fmdom (st_applied s)) \<le> 228"
    using s room by (simp_all add: grown_def capacity_def)
  have count: "put_count k = Inr (to_le32 (of_nat k))" if "k \<le> 2048" for k
    using that by (simp add: put_count_def put_bounded_count_def MAX_COLLECTION_LEN_def)
  have live: "mapE put_live (sorted_list_of_fmap (st_live s)) = Inr (map (\<lambda>rc. put_cell (snd rc)) (sorted_list_of_fmap (st_live s)))"
    using ok by (auto simp: put_live_all sorted_list_of_fmap_mem state_ok_def)
  have receipts: "\<forall>rc \<in> set (map snd (sorted_list_of_fmap (st_applied s))). length (rc_output_refs rc) \<le> 9"
    using s by (auto simp: grown_def sorted_list_of_fmap_mem)
  obtain bss where bss: "mapE put_apply_receipt (map snd (sorted_list_of_fmap (st_applied s))) = Inr bss"
    "length (concat bss) = sum_list (map receipt_size (map snd (sorted_list_of_fmap (st_applied s))))"
    using put_receipts_length [OF receipts] by blast
  then have app: "mapE put_applied (sorted_list_of_fmap (st_applied s)) = Inr bss"
    using ok by (auto simp: put_applied_all sorted_list_of_fmap_mem state_ok_def)
  have "length (concat bss) \<le> 464 * fcard (fmdom (st_applied s))"
    unfolding bss(2) using sum_list_bound [of "map snd (sorted_list_of_fmap (st_applied s))" receipt_size 464] receipts
    by (simp add: receipt_size_def)
  moreover have "length (concat (map put_spent (sorted_list_of_fmap (st_spent_by s)))) = 76 * fcard (fmdom (st_spent_by s))"
    by (subst concat_fixed_length [where n = 76]) (simp_all add: put_spent_def put_cell_ref_def split: prod.splits)
  moreover obtain bs where bs: "put_state s = Inr bs"
    "length bs = 16 + 148 * fcard (fmdom (st_live s)) + length (concat (map put_spent (sorted_list_of_fmap (st_spent_by s)))) +
      32 * fcard (st_known_ids s) + length (concat bss)"
    using n count by (simp add: put_state_def live app capacity_def concat_fixed_length [where n = 148] concat_fixed_length [where n = 32])
  ultimately have "length bs \<le> MAX_FRAME_LEN"
    using n by (simp add: capacity_def MAX_FRAME_LEN_def)
  then have "encode_state s = Inr bs"
    using exact_encode_ok [where put = put_state, OF bs(1)] by (simp add: encode_state_def)
  then show thesis
    using that encode_decode_state \<open>length bs \<le> MAX_FRAME_LEN\<close> by blast
qed

section \<open>The root of a ledger that has applied a transfer\<close>

definition root_preimage :: "state \<Rightarrow> u8 list" where
  "root_preimage s = ascii ''CALIBRE_INTEGRATION001_STATE_ROOT_V1'' @ state_root_bytes s"

lemma grown_countable: "grown C g t s \<Longrightarrow> g + 9 * t \<le> capacity \<Longrightarrow> countable_state s"
  by (auto simp: grown_def countable_state_def capacity_def) force

text \<open>Applying spends the input, so the root changes or the two ledgers show a collision.\<close>

lemma apply_moves_root:
  assumes ap: "apply_finalized C s tx auth pq cq m = Inr (Applied rc, s')"
    and s: "grown C g t s" and room: "g + 9 * Suc t \<le> capacity"
  shows "state_root C s' \<noteq> state_root C s \<or> collide C (root_preimage s) (root_preimage s')"
proof -
  let ?r = "cell_reference (tx_input tx)"
  obtain outs intent where s': "s' = commit tx intent rc outs s" and "committable C s tx outs"
    using apply_Applied_committable [OF ap] by metis
  then have "?r |\<in>| fmdom (st_live s)"
    by (auto simp: committable_def intro: fmdomI)
  then have "?r |\<notin>| fmdom (st_spent_by s)"
    using s unfolding grown_def state_ok_def by blast
  moreover have "?r |\<in>| fmdom (st_spent_by s')"
    unfolding s' by simp
  ultimately have "semantic_view s \<noteq> semantic_view s'"
    by (auto simp: semantic_view_def)
  moreover have "countable_state s" "countable_state s'"
    using grown_countable [OF s] grown_countable [OF apply_grown [OF ap s]] room by simp_all
  moreover have "state_ok C s" "state_ok C s'"
    using s apply_grown [OF ap s] by (simp_all add: grown_def)
  ultimately have "state_root_bytes s \<noteq> state_root_bytes s'"
    using state_root_bytes_inj by blast
  then show ?thesis
    by (auto simp: state_root_def hash_domain_def root_preimage_def collide_def)
qed

text \<open>What the log asks of the digests of a transfer it records.\<close>

definition recordable :: "crypto \<Rightarrow> u64 \<Rightarrow> finalized_transfer \<Rightarrow> bool" where
  "recordable C e ft \<longleftrightarrow> intent_hash C (ft_tx ft) \<noteq> Inr zero_array \<and>
    qc_digest C (ft_qc ft) (lab_committee C e) \<noteq> Inr zero_array"

lemma recordable_receipt:
  assumes "recordable C e ft" and "apply_transfer_to C s ft e = Inr (Applied rc, s')"
  shows "rc_intent rc \<noteq> zero_array" and "rc_certificate_digest rc \<noteq> zero_array"
  using assms check_finalityD(1) unfolding recordable_def apply_Applied_iff by auto

text \<open>Every validator applies, and a repetition changes nothing at any of them.\<close>

lemma cluster_applies:
  assumes w: "appliers C configs e s (Suc k) vs w" and "distinct vs" and net: "\<forall>i \<in> set vs. net (apply_request ft) i = Reached None"
    and ap: "apply_transfer_to C s ft e = Inr (Applied rc, s')"
    and enc: "encode_state s' = Inr bs" and root: "state_root C s' \<noteq> state_root C s"
    and digests: "rc_intent rc \<noteq> zero_array" "rc_certificate_digest rc \<noteq> zero_array"
  shows "\<exists>w1 w2. apply_at C net ft False vs w = (Inr (replicate (length vs) (state_root C s')), w1) \<and>
    appliers C configs e s' k vs w1 \<and>
    apply_at C net ft True vs w1 = (Inr (replicate (length vs) (state_root C s')), w2) \<and> w_nodes w2 = w_nodes w1"
proof -
  obtain payload where req: "encode_request (apply_request ft) = Inr payload"
    using apply_request_encodes [OF ap] by blast
  have "\<forall>i n. nc_epoch (configs i) = e \<and> applier C (configs i) s (Suc k) n \<longrightarrow>
      (\<exists>n'. handle_request C None (apply_request ft) n = (Inr (AppliedResponse (state_root C s') False, False), n') \<and>
        nc_epoch (configs i) = e \<and> applier C (configs i) s' k n')"
    using apply_request_succeeds [OF _ _ enc root digests] ap by metis
  from apply_at_answers [where net = net and vs = vs and w = w, OF req this] obtain w1 where
    w1: "apply_at C net ft False vs w = (Inr (replicate (length vs) (state_root C s')), w1)"
      "length (w_nodes w1) = length (w_nodes w)" "\<forall>i \<in> set vs. nc_epoch (configs i) = e \<and> applier C (configs i) s' k (w_nodes w1 ! i)"
    using w net \<open>distinct vs\<close> unfolding appliers_def by blast
  then have a1: "appliers C configs e s' k vs w1"
    using w unfolding appliers_def by simp
  have "\<forall>i n. nc_epoch (configs i) = e \<and> applier C (configs i) s' k n \<and> n = w_nodes w1 ! i \<longrightarrow>
      (\<exists>n'. handle_request C None (apply_request ft) n = (Inr (AppliedResponse (state_root C s') True, False), n') \<and>
        n' = w_nodes w1 ! i)"
    using apply_request_repeats [OF _ _ ap] by blast
  from apply_at_answers [where net = net and vs = vs and w = w1, OF req this] obtain w2 where
    w2: "apply_at C net ft True vs w1 = (Inr (replicate (length vs) (state_root C s')), w2)"
      "length (w_nodes w2) = length (w_nodes w1)" "\<forall>i \<in> set vs. w_nodes w2 ! i = w_nodes w1 ! i"
      "\<forall>j. j \<notin> set vs \<longrightarrow> w_nodes w2 ! j = w_nodes w1 ! j"
    using a1 net \<open>distinct vs\<close> unfolding appliers_def by blast
  then have "w_nodes w2 = w_nodes w1"
    by (metis nth_equalityI)
  then show ?thesis
    using w1(1) a1 w2(1) by blast
qed

lemma grown_cluster_applies:
  assumes w: "appliers C configs e s (Suc k) vs w" and vs: "distinct vs" "\<forall>i \<in> set vs. net (apply_request ft) i = Reached None"
    and s: "grown C g t s" and room: "g + 9 * Suc t \<le> capacity"
    and ap: "apply_transfer_to C s ft e = Inr (Applied rc, s')" and digests: "recordable C e ft"
  shows "collide C (root_preimage s) (root_preimage s') \<or>
    (\<exists>w1 w2. apply_at C net ft False vs w = (Inr (replicate (length vs) (state_root C s')), w1) \<and>
      appliers C configs e s' k vs w1 \<and>
      apply_at C net ft True vs w1 = (Inr (replicate (length vs) (state_root C s')), w2) \<and> w_nodes w2 = w_nodes w1)"
proof -
  obtain bs where "encode_state s' = Inr bs"
    using grown_encodes [OF apply_grown [OF ap s] room] .
  then show ?thesis
    using apply_moves_root [OF ap s room]
      cluster_applies [where configs = configs and net = net and w = w, OF w vs ap _ _ recordable_receipt [OF digests ap]] by blast
qed

end
