(* ===== verification/Lab.thy ===== *)
theory Lab
  imports Capacity
begin

text \<open>
  The laboratory instance: a committee, a genesis, transfers and their certificates under
  \<open>lab_crypto\<close>, at which the hypotheses of the theorems of the development hold.
\<close>

section \<open>The laboratory instance\<close>

lemma lab_hash_domain:
  "31 \<le> length m + length d \<Longrightarrow> array_bytes (hash_domain lab_crypto d m) = 1 # take 31 (rev m @ rev (ascii d))"
  by (simp add: hash_domain_def lab_digest_bytes ascii_def del: lab_crypto_simps)

lemma of_nat_u32_inj: "(of_nat a :: u32) = of_nat b \<Longrightarrow> a < 2 ^ 32 \<Longrightarrow> b < 2 ^ 32 \<Longrightarrow> a = b"
  by (auto simp: unat_of_nat dest!: arg_cong [where f = unat])

lemma lab_label_inj:
  assumes "blake3 lab_crypto (ascii d @ to_le64 a) = blake3 lab_crypto (ascii d @ to_le64 b)" and "23 \<le> length d"
  shows "a = b"
proof -
  have "array_bytes (blake3 lab_crypto (ascii d @ to_le64 w)) = 1 # rev (to_le64 w) @ take 23 (rev (ascii d))" for w
    using assms(2) by (subst lab_digest_bytes) (simp_all add: ascii_def)
  then have "rev (to_le64 a) @ take 23 (rev (ascii d)) = rev (to_le64 b) @ take 23 (rev (ascii d))"
    using assms(1) by (metis list.inject)
  then show ?thesis
    by simp
qed

definition lab_manifest :: committee_manifest where
  "lab_manifest = lab_committee lab_crypto OLD_EPOCH"

lemma lab_validator_keys_differ: "inj_on (\<lambda>i. public_of lab_crypto (lab_validator_key lab_crypto OLD_EPOCH i)) {..<N}"
proof (rule inj_onI)
  fix i j assume ij: "i \<in> {..<N}" "j \<in> {..<N}"
    and "public_of lab_crypto (lab_validator_key lab_crypto OLD_EPOCH i) =
      public_of lab_crypto (lab_validator_key lab_crypto OLD_EPOCH j)"
  then have "lab_validator_key lab_crypto OLD_EPOCH i = lab_validator_key lab_crypto OLD_EPOCH j"
    by simp
  then have "OLD_EPOCH * 1000 + of_nat i = OLD_EPOCH * 1000 + (of_nat j :: u64)"
    unfolding lab_validator_key_def deterministic_key_def by (rule lab_label_inj) simp
  then show "i = j"
    using ij by (auto simp: N_def unat_of_nat dest!: arg_cong [where f = unat])
qed

lemma lab_manifest_valid: "valid_manifest lab_crypto lab_manifest"
  unfolding lab_manifest_def by (rule lab_committee_valid [OF lab_signatures_verify lab_validator_keys_differ])

definition lab_alice :: signing_key where "lab_alice = lab_user_key lab_crypto 1"
definition lab_bob :: public_key where "lab_bob = public_of lab_crypto (lab_user_key lab_crypto 2)"

definition lab_cell :: "nat \<Rightarrow> cell" where
  "lab_cell k = make_genesis_cell lab_crypto (of_nat k) 100 (public_of lab_crypto lab_alice)"

definition lab_committee_hash :: digest where
  "lab_committee_hash = hash_domain lab_crypto ''CALIBRE_INTEGRATION001_COMMITTEE_V1'' (manifest_bytes lab_manifest)"

lemma lab_committee_hash: "committee_hash lab_crypto lab_manifest = Inr lab_committee_hash"
  by (simp add: committee_hash_Inr_iff lab_manifest_valid lab_committee_hash_def)

text \<open>Alice pays Bob 60 of the 100 in cell \<open>k\<close>, keeps 39 and leaves a fee of 1.\<close>

definition lab_tx :: "nat \<Rightarrow> tx" where
  "lab_tx k = \<lparr>tx_version = PROTOCOL_VERSION, tx_network_id = NETWORK_ID, tx_epoch = OLD_EPOCH,
    tx_committee_hash = lab_committee_hash, tx_input = lab_cell k,
    tx_outputs = [\<lparr>out_asset_id = ASSET_CALIBRE, out_amount = 60, out_owner = lab_bob\<rparr>,
      \<lparr>out_asset_id = ASSET_CALIBRE, out_amount = 39, out_owner = public_of lab_crypto lab_alice\<rparr>],
    tx_fee = 1, tx_salt = repeat_array (of_nat k + 6)\<rparr>"

lemma lab_cell_simps [simp]:
  "cell_amount (lab_cell k) = 100" "cell_owner (lab_cell k) = public_of lab_crypto lab_alice"
  "cr_generation (cell_reference (lab_cell k)) = 0" "cr_asset_id (cell_reference (lab_cell k)) = ASSET_CALIBRE"
  "cr_id (cell_reference (lab_cell k)) = hash_domain lab_crypto ''CALIBRE_INTEGRATION001_GENESIS_ID_V1'' (to_le64 (of_nat k))"
  by (simp_all add: lab_cell_def make_genesis_cell_def Let_def)

lemma lab_cell_valid [simp]: "validate_cell lab_crypto (lab_cell k) = Inr ()"
  by (simp add: validate_cell_def lab_cell_def make_genesis_cell_def Let_def)

lemma lab_manifest_simps [simp]:
  "m_network_id lab_manifest = NETWORK_ID" "m_epoch lab_manifest = OLD_EPOCH"
  by (simp_all add: lab_manifest_def lab_committee_def)

lemma lab_tx_valid: "valid_tx lab_crypto (lab_tx k) lab_manifest"
  by (simp add: valid_tx_def lab_tx_def lab_manifest_valid lab_committee_hash)

lemma lab_tx_simps [simp]:
  "tx_input (lab_tx k) = lab_cell k" "length (tx_outputs (lab_tx k)) = 2"
  by (simp_all add: lab_tx_def)

definition lab_intent :: "nat \<Rightarrow> digest" where
  "lab_intent k = projr (intent_hash lab_crypto (lab_tx k))"

lemma lab_intent: "intent_hash lab_crypto (lab_tx k) = Inr (lab_intent k)"
proof -
  obtain bs where "tx_bytes (lab_tx k) = Inr bs"
    by (auto simp: tx_bytes_def lab_tx_def)
  then show ?thesis
    by (simp add: lab_intent_def intent_hash_def)
qed

definition lab_auth :: "nat \<Rightarrow> user_auth" where
  "lab_auth k = \<lparr>auth_signer = public_of lab_crypto lab_alice,
    auth_signature = sign_with lab_crypto lab_alice (array_bytes (lab_intent k))\<rparr>"

lemma lab_sign_user: "sign_user lab_crypto (lab_tx k) lab_alice = Inr (lab_auth k)"
  by (simp add: sign_user_def user_message_def lab_intent lab_auth_def)

lemma lab_auth_verifies: "verify_user_auth lab_crypto (lab_tx k) (lab_auth k) lab_manifest = Inr ()"
  by (simp add: verify_user_auth_iff lab_tx_valid lab_intent lab_auth_def)

text \<open>Its certificates, by the first five validators, and by the last five.\<close>

definition lab_chain :: "nat \<Rightarrow> nat list \<Rightarrow> qc \<times> qc" where
  "lab_chain k is = projr (fixture_finality_chain lab_crypto lab_manifest (lab_tx k) 1 is)"

abbreviation lab_prevote_qc :: "nat \<Rightarrow> qc" where "lab_prevote_qc k \<equiv> fst (lab_chain k [0, 1, 2, 3, 4])"
abbreviation lab_precommit_qc :: "nat \<Rightarrow> qc" where "lab_precommit_qc k \<equiv> snd (lab_chain k [0, 1, 2, 3, 4])"

lemma lab_chain:
  assumes "\<forall>i \<in> set is. i < N" "distinct is" "Q \<le> length is"
  shows "fixture_finality_chain lab_crypto lab_manifest (lab_tx k) 1 is = Inr (lab_chain k is)"
    and "check_finality lab_crypto (lab_tx k) (fst (lab_chain k is)) (snd (lab_chain k is)) lab_manifest = Inr (lab_intent k)"
proof -
  obtain pq cq where "fixture_finality_chain lab_crypto lab_manifest (lab_tx k) 1 is = Inr (pq, cq)"
    "check_finality lab_crypto (lab_tx k) pq cq lab_manifest = Inr (lab_intent k)"
    using fixture_chain_complete [OF lab_signatures_verify lab_manifest_valid [unfolded lab_manifest_def] lab_intent assms lab_digest_nonzero]
    unfolding lab_manifest_def by metis
  then show "fixture_finality_chain lab_crypto lab_manifest (lab_tx k) 1 is = Inr (lab_chain k is)"
    "check_finality lab_crypto (lab_tx k) (fst (lab_chain k is)) (snd (lab_chain k is)) lab_manifest = Inr (lab_intent k)"
    by (simp_all add: lab_chain_def)
qed

lemma lab_finality:
  "check_finality lab_crypto (lab_tx k) (lab_prevote_qc k) (lab_precommit_qc k) lab_manifest = Inr (lab_intent k)"
  "check_finality lab_crypto (lab_tx k) (fst (lab_chain k [2, 3, 4, 5, 6])) (snd (lab_chain k [2, 3, 4, 5, 6])) lab_manifest = Inr (lab_intent k)"
  by (rule lab_chain(2); simp add: N_def Q_def)+

subsection \<open>Its states\<close>

definition lab_state :: "nat list \<Rightarrow> state" where
  "lab_state ks = \<lparr>st_live = fmap_of_list (map (\<lambda>k. (cell_reference (lab_cell k), lab_cell k)) ks), st_spent_by = fmempty,
    st_known_ids = fset_of_list (map (\<lambda>k. cr_id (cell_reference (lab_cell k))) ks), st_applied = fmempty\<rparr>"

lemma lab_cell_id_inj:
  assumes "cr_id (cell_reference (lab_cell j)) = cr_id (cell_reference (lab_cell k))" and "j < 2 ^ 64" "k < 2 ^ 64"
  shows "j = k"
proof -
  have "(of_nat j :: u64) = of_nat k"
    using assms(1) unfolding lab_cell_simps hash_domain_def by (rule lab_label_inj) simp
  then show ?thesis
    using assms(2,3) by (rule of_nat_u64_inj)
qed

lemma lab_cell_ref_inj:
  "cell_reference (lab_cell j) = cell_reference (lab_cell k) \<Longrightarrow> j < 2 ^ 64 \<Longrightarrow> k < 2 ^ 64 \<Longrightarrow> j = k"
  using lab_cell_id_inj by metis

lemma lab_state_ok: "state_ok lab_crypto (lab_state ks)"
  by (auto simp: state_ok_def lab_state_def fmlookup_of_list fset_of_list.rep_eq dest!: map_of_SomeD)

lemma lab_state_live:
  assumes "k \<in> set ks" and "\<forall>j \<in> set ks. j < 2 ^ 64"
  shows "fmlookup (st_live (lab_state ks)) (cell_reference (lab_cell k)) = Some (lab_cell k)"
proof -
  have "map_of (map (\<lambda>k. (cell_reference (lab_cell k), lab_cell k)) ks) (cell_reference (lab_cell k)) = Some (lab_cell k)"
    using assms
  proof (induction ks)
    case (Cons j ks)
    then show ?case
      using lab_cell_ref_inj [of j k] by (cases "j = k") auto
  qed simp
  then show ?thesis
    by (simp add: lab_state_def fmlookup_of_list)
qed

text \<open>The identifiers of the outputs differ from each other and from those of the genesis.\<close>

lemma lab_output_id:
  "array_bytes (output_id lab_crypto x i) = 1 # rev (to_le32 (of_nat i)) @ take 27 (rev (array_bytes x))"
  by (simp add: output_id_def lab_hash_domain)

lemma lab_output_id_inj: "n < 2 ^ 32 \<Longrightarrow> inj_on (output_id lab_crypto x) {..n}"
proof (rule inj_onI)
  fix i j assume "n < 2 ^ 32" "i \<in> {..n}" "j \<in> {..n}" and eq: "output_id lab_crypto x i = output_id lab_crypto x j"
  from arg_cong [OF eq, of array_bytes] have "(of_nat i :: u32) = of_nat j"
    by (simp add: lab_output_id)
  then show "i = j"
    by (rule of_nat_u32_inj) (use \<open>n < 2 ^ 32\<close> \<open>i \<in> {..n}\<close> \<open>j \<in> {..n}\<close> in auto)
qed

lemma lab_intent_bytes: "array_bytes (lab_intent k) = 1 # replicate 31 (of_nat k + 6)"
proof -
  obtain pre where pre: "tx_bytes (lab_tx k) = Inr (pre @ array_bytes (tx_salt (lab_tx k)))"
    by (simp add: tx_bytes_def lab_tx_def)
  then have "lab_intent k = hash_domain lab_crypto ''CALIBRE_INTEGRATION001_TX_INTENT_V1'' (pre @ array_bytes (tx_salt (lab_tx k)))"
    by (simp add: lab_intent_def intent_hash_def)
  then show ?thesis
    by (simp add: lab_hash_domain lab_tx_def bytes_repeat_array)
qed

lemma lab_intent_salt:
  assumes "intent_hash lab_crypto tx = Inr x" and "tx_salt tx = tx_salt (lab_tx k)"
  shows "x = lab_intent k"
proof -
  obtain pre where "tx_bytes tx = Inr (pre @ array_bytes (tx_salt tx))"
    using assms(1) by (auto simp: intent_hash_def tx_bytes_def split: if_splits)
  then have "x = hash_domain lab_crypto ''CALIBRE_INTEGRATION001_TX_INTENT_V1'' (pre @ array_bytes (tx_salt (lab_tx k)))"
    using assms by (simp add: intent_hash_def)
  then have "array_bytes x = array_bytes (lab_intent k)"
    unfolding lab_intent_bytes by (simp add: lab_hash_domain lab_tx_def bytes_repeat_array)
  then show ?thesis
    by simp
qed

lemma lab_output_ids:
  "array_bytes (output_id lab_crypto (lab_intent k) i) = 1 # rev (to_le32 (of_nat i)) @ replicate 27 (of_nat k + 6)"
  by (simp add: lab_output_id lab_intent_bytes)

lemma lab_genesis_id_bytes:
  "array_bytes (cr_id (cell_reference (lab_cell k))) = 1 # rev (to_le64 (of_nat k)) @ take 23 (rev (ascii ''CALIBRE_INTEGRATION001_GENESIS_ID_V1''))"
  unfolding lab_cell_simps by (subst lab_hash_domain) simp_all

lemma le_of_nat_nth: "i < n \<Longrightarrow> le_of_nat n v ! i = of_nat (v div 256 ^ i)"
  by (induction n arbitrary: v i) (auto simp: nth_Cons div_mult2_eq split: nat.split)

text \<open>Small labels leave byte 8 of an output's identifier free of clashes.\<close>

lemma lab_output_fresh:
  assumes "j < 256" and "k < 200"
  shows "output_id lab_crypto (lab_intent k) i \<noteq> cr_id (cell_reference (lab_cell j))"
proof
  assume eq: "output_id lab_crypto (lab_intent k) i = cr_id (cell_reference (lab_cell j))"
  have "unat (of_nat j :: u64) = j"
    using assms(1) by (simp add: unat_of_nat)
  then have "to_le64 (of_nat j) ! 1 = 0"
    using assms(1) by (simp add: to_le64_def le_of_nat_nth)
  then have "array_bytes (cr_id (cell_reference (lab_cell j))) ! 7 = 0"
    unfolding lab_genesis_id_bytes by (simp add: nth_append rev_nth)
  moreover have "array_bytes (output_id lab_crypto (lab_intent k) i) ! 7 = of_nat k + 6"
    unfolding lab_output_ids by (simp add: nth_append)
  ultimately have "(of_nat (k + 6) :: u8) = 0"
    using eq by simp
  then have "unat (of_nat (k + 6) :: u8) = 0"
    by simp
  then show False
    using assms(2) by (simp add: unat_of_nat del: of_nat_add)
qed

lemma lab_output_ids_differ:
  assumes "j < 200" "k < 200" "j \<noteq> k"
  shows "output_id lab_crypto (lab_intent j) i \<noteq> output_id lab_crypto (lab_intent k) i'"
proof
  assume "output_id lab_crypto (lab_intent j) i = output_id lab_crypto (lab_intent k) i'"
  then have "array_bytes (output_id lab_crypto (lab_intent j) i) ! 7 = array_bytes (output_id lab_crypto (lab_intent k) i') ! 7"
    by simp
  then have "(of_nat (j + 6) :: u8) = of_nat (k + 6)"
    unfolding lab_output_ids by (simp add: nth_append)
  then have "unat (of_nat (j + 6) :: u8) = unat (of_nat (k + 6) :: u8)"
    by simp
  then show False
    using assms by (simp add: unat_of_nat del: of_nat_add)
qed

text \<open>The first transfer applies to the genesis, the second to what it leaves.\<close>

definition lab_receipt :: "nat \<Rightarrow> apply_receipt" where
  "lab_receipt k = \<lparr>rc_intent = lab_intent k, rc_certificate_digest = projr (qc_digest lab_crypto (lab_precommit_qc k) lab_manifest),
    rc_output_refs = map cell_reference (output_cells lab_crypto (lab_intent k) (lab_tx k))\<rparr>"

definition lab_applied :: "nat \<Rightarrow> state \<Rightarrow> state" where
  "lab_applied k s = commit (lab_tx k) (lab_intent k) (lab_receipt k) (output_cells lab_crypto (lab_intent k) (lab_tx k)) s"

lemma lab_applies:
  assumes "fmlookup (st_live s) (cell_reference (lab_cell k)) = Some (lab_cell k)"
    and "fmlookup (st_applied s) (lab_intent k) = None"
    and "\<And>i. i \<le> 2 \<Longrightarrow> output_id lab_crypto (lab_intent k) i |\<notin>| st_known_ids s"
  shows "apply_finalized lab_crypto s (lab_tx k) (lab_auth k) (lab_prevote_qc k) (lab_precommit_qc k) lab_manifest =
    Inr (Applied (lab_receipt k), lab_applied k s)"
proof -
  obtain rc where rc: "apply_finalized lab_crypto s (lab_tx k) (lab_auth k) (lab_prevote_qc k) (lab_precommit_qc k) lab_manifest =
      Inr (Applied rc, commit (lab_tx k) (lab_intent k) rc (output_cells lab_crypto (lab_intent k) (lab_tx k)) s)"
    "rc_intent rc = lab_intent k" "rc_output_refs rc = map cell_reference (output_cells lab_crypto (lab_intent k) (lab_tx k))"
    "qc_digest lab_crypto (lab_precommit_qc k) lab_manifest = Inr (rc_certificate_digest rc)"
    by (rule apply_complete [of s "lab_tx k" lab_crypto "lab_auth k" lab_manifest "lab_prevote_qc k" "lab_precommit_qc k" "lab_intent k"])
      (use assms lab_auth_verifies lab_finality(1) lab_output_id_inj [of 2] in \<open>simp_all\<close>)
  then have "rc = lab_receipt k"
    by (simp add: lab_receipt_def)
  with rc(1) show ?thesis
    by (simp add: lab_applied_def)
qed

lemma lab_known_genesis: "st_known_ids (lab_state ks) = fset_of_list (map (\<lambda>k. cr_id (cell_reference (lab_cell k))) ks)"
  by (simp add: lab_state_def)

lemma lab_apply_genesis:
  assumes "k \<in> set ks" and "\<forall>j \<in> set ks. j < 200"
  shows "apply_finalized lab_crypto (lab_state ks) (lab_tx k) (lab_auth k) (lab_prevote_qc k) (lab_precommit_qc k) lab_manifest =
    Inr (Applied (lab_receipt k), lab_applied k (lab_state ks))"
proof (rule lab_applies)
  show "fmlookup (st_live (lab_state ks)) (cell_reference (lab_cell k)) = Some (lab_cell k)"
    using assms by (intro lab_state_live) auto
  show "fmlookup (st_applied (lab_state ks)) (lab_intent k) = None"
    by (simp add: lab_state_def)
  show "output_id lab_crypto (lab_intent k) i |\<notin>| st_known_ids (lab_state ks)" for i
  proof
    assume "output_id lab_crypto (lab_intent k) i |\<in>| st_known_ids (lab_state ks)"
    then obtain j where "j \<in> set ks" "output_id lab_crypto (lab_intent k) i = cr_id (cell_reference (lab_cell j))"
      by (auto simp: lab_known_genesis fset_of_list_elem simp del: lab_cell_simps)
    then show False
      using lab_output_fresh [of j k i] assms by force
  qed
qed

text \<open>Its two transfers one after the other, and under the certificates of other signers.\<close>

definition lab_transfer :: "nat \<Rightarrow> finalized_transfer" where
  "lab_transfer k = \<lparr>ft_tx = lab_tx k, ft_auth = lab_auth k, ft_prevote_qc = lab_prevote_qc k, ft_qc = lab_precommit_qc k\<rparr>"

lemma lab_output_refs:
  "c \<in> set (output_cells lab_crypto (lab_intent k) (lab_tx k)) \<Longrightarrow>
    \<exists>i. cr_id (cell_reference c) = output_id lab_crypto (lab_intent k) i"
  by (auto simp: output_cells_def Let_def split: prod.splits)

lemma lab_apply_second:
  assumes "j < 200" "k < 200" "j \<noteq> k"
  shows "apply_finalized lab_crypto (lab_applied j (lab_state [j, k])) (lab_tx k) (lab_auth k) (lab_prevote_qc k)
    (lab_precommit_qc k) lab_manifest = Inr (Applied (lab_receipt k), lab_applied k (lab_applied j (lab_state [j, k])))"
proof (rule lab_applies)
  have "cell_reference (lab_cell k) |\<notin>| fmdom (cells_map (output_cells lab_crypto (lab_intent j) (lab_tx j)))"
  proof
    assume "cell_reference (lab_cell k) |\<in>| fmdom (cells_map (output_cells lab_crypto (lab_intent j) (lab_tx j)))"
    then have "cell_reference (lab_cell k) \<in> cell_reference ` set (output_cells lab_crypto (lab_intent j) (lab_tx j))"
      by (metis cells_map_dom)
    then obtain i where "cr_id (cell_reference (lab_cell k)) = output_id lab_crypto (lab_intent j) i"
      using lab_output_refs by (metis imageE)
    then show False
      using lab_output_fresh [of k j i] assms by simp
  qed
  moreover have "cell_reference (lab_cell k) \<noteq> cell_reference (lab_cell j)"
    using lab_cell_ref_inj [of k j] assms by auto
  ultimately show "fmlookup (st_live (lab_applied j (lab_state [j, k]))) (cell_reference (lab_cell k)) = Some (lab_cell k)"
    using lab_state_live [of k "[j, k]"] assms by (simp add: lab_applied_def)
  have "lab_intent k \<noteq> lab_intent j"
    using lab_output_ids_differ [of j k] assms by metis
  then show "fmlookup (st_applied (lab_applied j (lab_state [j, k]))) (lab_intent k) = None"
    by (simp add: lab_applied_def) (simp add: lab_state_def)
  show "output_id lab_crypto (lab_intent k) i |\<notin>| st_known_ids (lab_applied j (lab_state [j, k]))" for i
  proof
    assume "output_id lab_crypto (lab_intent k) i |\<in>| st_known_ids (lab_applied j (lab_state [j, k]))"
    then have "output_id lab_crypto (lab_intent k) i \<in> fset (st_known_ids (lab_state [j, k])) \<union>
        set (map (\<lambda>c. cr_id (cell_reference c)) (output_cells lab_crypto (lab_intent j) (lab_tx j)))"
      unfolding lab_applied_def commit_simps by (simp only: union_fset fset_of_list.rep_eq)
    then consider c where "c \<in> set (output_cells lab_crypto (lab_intent j) (lab_tx j))"
        "output_id lab_crypto (lab_intent k) i = cr_id (cell_reference c)"
      | "output_id lab_crypto (lab_intent k) i = cr_id (cell_reference (lab_cell j))"
      | "output_id lab_crypto (lab_intent k) i = cr_id (cell_reference (lab_cell k))"
      unfolding lab_known_genesis fset_of_list.rep_eq by force
    then show False
    proof cases
      case 1
      then obtain i' where "output_id lab_crypto (lab_intent k) i = output_id lab_crypto (lab_intent j) i'"
        using lab_output_refs by metis
      then show False
        using lab_output_ids_differ [of k j i i'] assms by simp
    qed (use lab_output_fresh [of j k i] lab_output_fresh [of k k i] assms in simp_all)
  qed
qed

lemma lab_apply_both:
  "apply_in_order lab_crypto (lab_state [1, 2]) (map lab_transfer [1, 2]) [0, 1] lab_manifest =
    Inr (lab_applied 2 (lab_applied 1 (lab_state [1, 2])))"
proof -
  have first: "apply_transfer lab_crypto (map lab_transfer [1, 2]) lab_manifest 0 (lab_state [1, 2]) = Inr (lab_applied 1 (lab_state [1, 2]))"
    unfolding apply_transfer_iff using lab_apply_genesis [of 1 "[1, 2]"]
    by (intro conjI exI [of _ "lab_receipt 1"]) (simp_all add: lab_transfer_def)
  have second: "apply_transfer lab_crypto (map lab_transfer [1, 2]) lab_manifest 1 (lab_applied 1 (lab_state [1, 2])) =
      Inr (lab_applied 2 (lab_applied 1 (lab_state [1, 2])))"
    unfolding apply_transfer_iff using lab_apply_second [of 1 2]
    by (intro conjI exI [of _ "lab_receipt 2"]) (simp_all add: lab_transfer_def)
  show ?thesis
    unfolding apply_in_order_def foldE.simps first second bindE_simps ..
qed

lemma lab_applies_other:
  assumes "k \<in> set ks" and "\<forall>j \<in> set ks. j < 200"
  shows "\<exists>rc s. apply_finalized lab_crypto (lab_state ks) (lab_tx k) (lab_auth k) (fst (lab_chain k [2, 3, 4, 5, 6]))
    (snd (lab_chain k [2, 3, 4, 5, 6])) lab_manifest = Inr (Applied rc, s)"
proof -
  obtain intent cd outs where facts: "check_finality lab_crypto (lab_tx k) (lab_prevote_qc k) (lab_precommit_qc k) lab_manifest = Inr intent"
    "fmlookup (st_applied (lab_state ks)) intent = None"
    "fmlookup (st_live (lab_state ks)) (cell_reference (tx_input (lab_tx k))) = Some (tx_input (lab_tx k))"
    "materialize_outputs lab_crypto (lab_tx k) = Inr outs"
    "\<forall>c \<in> set outs. validate_cell lab_crypto c = Inr () \<and> cr_id (cell_reference c) |\<notin>| st_known_ids (lab_state ks)"
    "distinct (map cell_reference outs)"
    using lab_apply_genesis [OF assms] unfolding apply_Applied_iff by blast
  obtain rnd d where "valid_qc lab_crypto (snd (lab_chain k [2, 3, 4, 5, 6])) lab_manifest PHASE_PRECOMMIT rnd
      (conflict_key lab_crypto (cell_reference (tx_input (lab_tx k)))) (lab_intent k) (Some d)"
    using check_finalityD(2) [OF lab_finality(2)] by blast
  then obtain cd' where "qc_digest lab_crypto (snd (lab_chain k [2, 3, 4, 5, 6])) lab_manifest = Inr cd'"
    using qc_digest_valid by (metis option.distinct(1) phases_differ(1))
  moreover have "intent = lab_intent k"
    using facts(1) lab_finality(1) [of k] by simp
  ultimately show ?thesis
    unfolding apply_Applied_iff using facts(2-) lab_finality(2) lab_auth_verifies by blast
qed

lemma lab_state_swap: "lab_state [1, 2] = lab_state [2, 1]"
proof -
  have "cell_reference (lab_cell 1) \<noteq> cell_reference (lab_cell 2)"
    using lab_cell_ref_inj [of 1 2] by auto
  then show ?thesis
    by (auto simp: lab_state_def fmlookup_of_list intro!: fmap_ext)
qed

lemma lab_state_countable: "length ks < 2 ^ 32 \<Longrightarrow> countable_state (lab_state ks)"
  by (auto simp: countable_state_def lab_state_def fcard.rep_eq fset_of_list.rep_eq fmdom_fmap_of_list
    intro!: order_le_less_trans [OF card_image_le] order_le_less_trans [OF card_length])

section \<open>A running cluster\<close>

lemma lab_genesis:
  assumes "\<forall>k \<in> set ks. k < 2 ^ 64"
  shows "pure_genesis lab_crypto (lab_state ks)"
proof -
  have dom: "fset (fmdom (st_live (lab_state ks))) = (\<lambda>k. cell_reference (lab_cell k)) ` set ks"
    by (simp add: lab_state_def fset_of_list.rep_eq image_image)
  have "inj_on cr_id (fset (fmdom (st_live (lab_state ks))))"
    unfolding dom using lab_cell_id_inj assms by (auto intro!: inj_onI simp del: lab_cell_simps(5))
  moreover have "st_known_ids (lab_state ks) = cr_id |`| fmdom (st_live (lab_state ks))"
    by (simp add: lab_state_def comp_def del: lab_cell_simps)
  moreover have "st_spent_by (lab_state ks) = fmempty" "st_applied (lab_state ks) = fmempty"
    by (simp_all add: lab_state_def)
  ultimately show ?thesis
    using lab_state_ok by (simp add: pure_genesis_def)
qed

lemma lab_live_count: "fcard (fmdom (st_live (lab_state ks))) \<le> length ks"
  by (simp add: lab_state_def fcard.rep_eq fset_of_list.rep_eq image_image)
    (metis card_length length_map list.set_map)

definition lab_bytes :: "nat list \<Rightarrow> u8 list" where
  "lab_bytes ks = projr (encode_state (lab_state ks))"

lemma lab_bytes:
  assumes "\<forall>k \<in> set ks. k < 2 ^ 64" and "length ks \<le> MAX_COLLECTION_LEN"
  shows "encode_state (lab_state ks) = Inr (lab_bytes ks)" and "decode_state (lab_bytes ks) = Inr (lab_state ks)"
    and "length (lab_bytes ks) \<le> MAX_FRAME_LEN"
  using pure_genesis_encodes [OF lab_genesis [OF assms(1)] order_trans [OF lab_live_count assms(2)]]
  unfolding lab_bytes_def by (metis sum.sel(2))+

lemma lab_starts:
  assumes "\<forall>k \<in> set ks. k < 2 ^ 64" and "length ks \<le> MAX_COLLECTION_LEN" and "i < N"
  shows "\<exists>n. open_node lab_crypto None None [] (lab_bytes ks) (cluster_configs OLD_EPOCH i) = (Inr n, ws_file (ns_store n)) \<and>
    fresh_node lab_crypto (cluster_configs OLD_EPOCH i) (lab_state ks) n"
proof -
  have "valid_manifest lab_crypto (lab_committee lab_crypto (nc_epoch (cluster_configs OLD_EPOCH i)))"
    using lab_manifest_valid by (simp add: cluster_config_def lab_manifest_def)
  moreover have "unat (nc_index (cluster_configs OLD_EPOCH i)) < N"
    using assms(3) by (simp add: cluster_config_def u8_index)
  ultimately show ?thesis
    using fresh_node_starts [OF lab_genesis [OF assms(1)] lab_bytes [OF assms(1,2)]] by blast
qed

definition lab_node :: "nat list \<Rightarrow> nat \<Rightarrow> node_server" where
  "lab_node ks i = projr (fst (open_node lab_crypto None None [] (lab_bytes ks) (cluster_configs OLD_EPOCH i)))"

lemma lab_node:
  assumes "\<forall>k \<in> set ks. k < 2 ^ 64" and "length ks \<le> MAX_COLLECTION_LEN" and "i < N"
  shows "open_node lab_crypto None None [] (lab_bytes ks) (cluster_configs OLD_EPOCH i) = (Inr (lab_node ks i), ws_file (ns_store (lab_node ks i)))"
    and "fresh_node lab_crypto (cluster_configs OLD_EPOCH i) (lab_state ks) (lab_node ks i)"
  using lab_starts [OF assms] by (auto simp: lab_node_def)

definition lab_world :: "nat list \<Rightarrow> world" where
  "lab_world ks = \<lparr>w_nodes = map (lab_node ks) [0..<N], w_metrics = new_metrics\<rparr>"

lemma lab_world:
  assumes "\<forall>k \<in> set ks. k < 2 ^ 64" and "length ks \<le> MAX_COLLECTION_LEN"
  shows "fresh_world lab_crypto OLD_EPOCH (lab_state ks) (lab_world ks)"
  using lab_node(2) [OF assms] by (simp add: fresh_world_def lab_world_def)

text \<open>Three honest validators of the cluster vote for the first transfer.\<close>

definition lab_system :: "nat list \<Rightarrow> system" where
  "lab_system ks = \<lparr>sys_nodes = lab_node ks, sys_votes = {}\<rparr>"

lemma lab_system_start:
  assumes "\<forall>k \<in> set ks. k < 2 ^ 64" and "length ks \<le> MAX_COLLECTION_LEN"
  shows "system_start lab_crypto (cluster_configs OLD_EPOCH) (lab_system ks)"
  unfolding system_start_def lab_system_def system.select_convs
proof (intro conjI allI impI)
  fix i assume "i < N"
  then show "unat (nc_index (cluster_configs OLD_EPOCH i)) = i"
    by (simp add: cluster_config_def u8_index)
  show "\<exists>io io' file content file'. open_node lab_crypto io io' file content (cluster_configs OLD_EPOCH i) = (Inr (lab_node ks i), file')"
    using lab_node(1) [OF assms \<open>i < N\<close>] by blast
qed simp

lemma lab_honest: "honest (cluster_configs OLD_EPOCH) = {2, 3, 4, 5, 6}"
proof -
  have "i < N \<and> \<not> nc_byzantine (cluster_configs OLD_EPOCH i) \<longleftrightarrow> i \<in> {2, 3, 4, 5, 6}" for i
    by (auto simp: N_def cluster_config_def)
  then show ?thesis
    by (auto simp: honest_def)
qed

lemma lab_few_faulty: "card ({..<N} - honest (cluster_configs OLD_EPOCH)) \<le> 2"
proof -
  have "{..<N} - honest (cluster_configs OLD_EPOCH) \<subseteq> {0, 1}"
    unfolding lab_honest by (auto simp: N_def)
  from card_mono [OF _ this] show ?thesis
    by simp
qed

definition lab_proposal :: "nat \<Rightarrow> u64 \<Rightarrow> proposal" where
  "lab_proposal k r = projr (make_proposal lab_crypto lab_manifest r (lab_tx k) (lab_auth k) None)"

lemma lab_proposal:
  shows "make_proposal lab_crypto lab_manifest r (lab_tx k) (lab_auth k) None = Inr (lab_proposal k r)"
    and "pr_tx (lab_proposal k r) = lab_tx k" "pr_round (lab_proposal k r) = r" "pr_intent (lab_proposal k r) = lab_intent k"
    and "verify_proposal lab_crypto (lab_proposal k r) lab_manifest = Inr ()"
proof -
  obtain p where p: "make_proposal lab_crypto lab_manifest r (lab_tx k) (lab_auth k) None = Inr p"
    "pr_tx p = lab_tx k" "pr_round p = r" "pr_intent p = lab_intent k"
    using make_proposal_ok [OF lab_auth_verifies [unfolded lab_manifest_def] lab_intent] unfolding lab_manifest_def by metis
  then have "p = lab_proposal k r"
    by (simp add: lab_proposal_def)
  with p show "make_proposal lab_crypto lab_manifest r (lab_tx k) (lab_auth k) None = Inr (lab_proposal k r)"
    "pr_tx (lab_proposal k r) = lab_tx k" "pr_round (lab_proposal k r) = r" "pr_intent (lab_proposal k r) = lab_intent k"
    "verify_proposal lab_crypto (lab_proposal k r) lab_manifest = Inr ()"
    using make_proposal_verifies [OF lab_signatures_verify, of OLD_EPOCH] unfolding lab_manifest_def by simp_all
qed

lemma lab_fresh_voter:
  assumes "\<forall>k \<in> set ks. k < 2 ^ 64" and "length ks \<le> MAX_COLLECTION_LEN" and "i \<in> honest (cluster_configs OLD_EPOCH)"
  shows "voter lab_crypto (cluster_configs OLD_EPOCH i) c r x 9 (lab_node ks i)" and "ns_state (lab_node ks i) = lab_state ks"
proof -
  have i: "i < N" "\<not> nc_byzantine (cluster_configs OLD_EPOCH i)"
    using assms(3) by (simp_all add: honest_def)
  note n = lab_node(2) [OF assms(1,2) i(1)]
  show "voter lab_crypto (cluster_configs OLD_EPOCH i) c r x 9 (lab_node ks i)"
    using fresh_voter [OF n i(2)] i(1) by (simp add: cluster_config_def u8_index)
  show "ns_state (lab_node ks i) = lab_state ks"
    using n by (simp add: fresh_node_def)
qed

text \<open>Its first prevote and the precommit that follows.\<close>

lemma lab_votes:
  assumes voter: "voter lab_crypto (cluster_configs OLD_EPOCH i) (conflict_key lab_crypto (cell_reference (lab_cell k))) r (lab_intent k) (Suc (Suc j)) n"
    and live: "live_cell (ns_state n) (cell_reference (lab_cell k)) = Some (lab_cell k)"
    and pq: "valid_qc lab_crypto pq lab_manifest PHASE_PREVOTE r (conflict_key lab_crypto (cell_reference (lab_cell k))) (lab_intent k) None"
    and d: "qc_digest lab_crypto pq lab_manifest = Inr d"
  obtains v n1 u n2 where "handle_request lab_crypto None (Prevote (lab_proposal k r)) n = (Inr (VoteResponse v, False), n1)"
    "counts_for lab_crypto OLD_EPOCH PHASE_PREVOTE r (conflict_key lab_crypto (cell_reference (lab_cell k))) (lab_intent k) None v"
    "voter lab_crypto (cluster_configs OLD_EPOCH i) (conflict_key lab_crypto (cell_reference (lab_cell k))) r (lab_intent k) (Suc j) n1"
    "ns_state n1 = ns_state n"
    "handle_request lab_crypto None (Precommit (lab_proposal k r) pq) n1 = (Inr (VoteResponse u, False), n2)"
    "counts_for lab_crypto OLD_EPOCH PHASE_PRECOMMIT r (conflict_key lab_crypto (cell_reference (lab_cell k))) (lab_intent k) (Some d) u"
    "v_signer_index v = of_nat i" "v_signer_index u = of_nat i"
    "voter lab_crypto (cluster_configs OLD_EPOCH i) (conflict_key lab_crypto (cell_reference (lab_cell k))) r (lab_intent k) j n2"
    "ns_state n2 = ns_state n"
proof -
  have cfg: "nc_epoch (cluster_configs OLD_EPOCH i) = OLD_EPOCH" "nc_index (cluster_configs OLD_EPOCH i) = of_nat i"
    by (simp_all add: cluster_config_def)
  note p = lab_proposal(2-4) [where k = k and r = r]
  note here = cfg p lab_tx_simps(1) lab_manifest_def [symmetric]
  have nonzero: "d \<noteq> zero_array"
    using qc_digest_InrD [OF d] lab_digest_nonzero unfolding hash_domain_def by metis
  have verified: "verify_proposal lab_crypto (lab_proposal k r) (lab_committee lab_crypto (nc_epoch (cluster_configs OLD_EPOCH i))) = Inr ()"
    unfolding here by (rule lab_proposal(5))
  obtain v n1 where v: "handle_request lab_crypto None (Prevote (lab_proposal k r)) n = (Inr (VoteResponse v, False), n1)"
    "counts_for lab_crypto OLD_EPOCH PHASE_PREVOTE r (conflict_key lab_crypto (cell_reference (lab_cell k))) (lab_intent k) None v"
    "v_signer_index v = of_nat i"
    "voter lab_crypto (cluster_configs OLD_EPOCH i) (conflict_key lab_crypto (cell_reference (lab_cell k))) r (lab_intent k) (Suc j) n1"
    "ns_state n1 = ns_state n"
    "vote_digest (ns_store n1) (conflict_key lab_crypto (cell_reference (lab_cell k))) r PHASE_PREVOTE = Some (lab_intent k)"
    by (rule prevote_succeeds [OF lab_signatures_verify _ verified, unfolded here, OF voter live])
  obtain u n2 where u: "handle_request lab_crypto None (Precommit (lab_proposal k r) pq) n1 = (Inr (VoteResponse u, False), n2)"
    "counts_for lab_crypto OLD_EPOCH PHASE_PRECOMMIT r (conflict_key lab_crypto (cell_reference (lab_cell k))) (lab_intent k) (Some d) u"
    "v_signer_index u = of_nat i"
    "voter lab_crypto (cluster_configs OLD_EPOCH i) (conflict_key lab_crypto (cell_reference (lab_cell k))) r (lab_intent k) j n2"
    "ns_state n2 = ns_state n1"
    by (rule precommit_succeeds [OF lab_signatures_verify _ verified, unfolded here, OF v(4) live [folded v(5)] pq d nonzero v(6)])
  show thesis
    by (rule that [OF v(1,2,4,5) u(1,2) v(3) u(3,4) trans [OF u(5) v(5)]])
qed

lemma lab_system_votes:
  assumes ks: "\<forall>k \<in> set ks. k < 2 ^ 64" "length ks \<le> MAX_COLLECTION_LEN" "k \<in> set ks"
    and pq: "valid_qc lab_crypto pq lab_manifest PHASE_PREVOTE r (conflict_key lab_crypto (cell_reference (lab_cell k))) (lab_intent k) None"
    and d: "qc_digest lab_crypto pq lab_manifest = Inr d"
    and "distinct is" "\<forall>i \<in> set is. i \<in> honest (cluster_configs OLD_EPOCH) \<and> sys_nodes S i = lab_node ks i"
  shows "\<exists>S'. system_run lab_crypto (cluster_configs OLD_EPOCH) S S' \<and> sys_votes S \<subseteq> sys_votes S' \<and>
    (\<forall>i \<in> set is. \<exists>u \<in> sys_votes S'. v_signer_index u = of_nat i \<and>
      same_statement u PHASE_PRECOMMIT r (conflict_key lab_crypto (cell_reference (lab_cell k))) (lab_intent k))"
  using assms(6,7)
proof (induction "is" arbitrary: S)
  case Nil
  show ?case
    by (intro exI [of _ S]) simp
next
  case (Cons i "is")
  let ?c = "conflict_key lab_crypto (cell_reference (lab_cell k))"
  have i: "i \<in> honest (cluster_configs OLD_EPOCH)" "sys_nodes S i = lab_node ks i" "i < N"
    using Cons.prems(2) by (simp_all add: honest_def)
  have "voter lab_crypto (cluster_configs OLD_EPOCH i) ?c r (lab_intent k) (Suc (Suc 7)) (sys_nodes S i)"
    using lab_fresh_voter(1) [OF ks(1,2) i(1), of ?c r "lab_intent k"] i(2) by simp
  moreover have "live_cell (ns_state (sys_nodes S i)) (cell_reference (lab_cell k)) = Some (lab_cell k)"
    using lab_state_live [OF ks(3,1)] lab_fresh_voter(2) [OF ks(1,2) i(1)] i(2) by (simp add: live_cell_def)
  ultimately obtain v n1 u n2 where
    h: "handle_request lab_crypto None (Prevote (lab_proposal k r)) (sys_nodes S i) = (Inr (VoteResponse v, False), n1)"
      "handle_request lab_crypto None (Precommit (lab_proposal k r) pq) n1 = (Inr (VoteResponse u, False), n2)"
    and u: "counts_for lab_crypto OLD_EPOCH PHASE_PRECOMMIT r ?c (lab_intent k) (Some d) u" "v_signer_index u = of_nat i"
    using lab_votes [OF _ _ pq d] by metis
  let ?S1 = "\<lparr>sys_nodes = (sys_nodes S)(i := n1), sys_votes = {v} \<union> sys_votes S\<rparr>"
  let ?S2 = "\<lparr>sys_nodes = (sys_nodes ?S1)(i := n2), sys_votes = {u} \<union> sys_votes ?S1\<rparr>"
  have s1: "system_step lab_crypto (cluster_configs OLD_EPOCH) S ?S1"
    using system_step.request [OF i(3) h(1)] by (simp add: issued_def)
  have "handle_request lab_crypto None (Precommit (lab_proposal k r) pq) (sys_nodes ?S1 i) = (Inr (VoteResponse u, False), n2)"
    using h(2) by simp
  then have s2: "system_step lab_crypto (cluster_configs OLD_EPOCH) ?S1 ?S2"
    using system_step.request [OF i(3), of lab_crypto None _ ?S1] by (metis (no_types, lifting) issued_def sum.case(2) response.case(2) prod.case)
  have "\<forall>j \<in> set is. j \<in> honest (cluster_configs OLD_EPOCH) \<and> sys_nodes ?S2 j = lab_node ks j"
    using Cons.prems by auto
  then obtain S' where S': "system_run lab_crypto (cluster_configs OLD_EPOCH) ?S2 S'" "sys_votes ?S2 \<subseteq> sys_votes S'"
    "\<forall>j \<in> set is. \<exists>u \<in> sys_votes S'. v_signer_index u = of_nat j \<and> same_statement u PHASE_PRECOMMIT r ?c (lab_intent k)"
    using Cons.IH [of ?S2] Cons.prems(1) by auto
  have "system_run lab_crypto (cluster_configs OLD_EPOCH) S S'"
    using s1 s2 S'(1) by (meson converse_rtranclp_into_rtranclp)
  moreover have "u \<in> sys_votes S'" "sys_votes S \<subseteq> sys_votes S'"
    using S'(2) by auto
  moreover have "same_statement u PHASE_PRECOMMIT r ?c (lab_intent k)"
    using u(1) by (simp add: counts_for_def)
  ultimately show ?case
    using S'(3) u(2) by (intro exI [of _ S']) auto
qed

lemma lab_agreement_run:
  obtains S where "system_run lab_crypto (cluster_configs OLD_EPOCH) (lab_system [1]) S"
    "votes_issued (cluster_configs OLD_EPOCH) (sys_votes S) (lab_precommit_qc 1)"
proof -
  let ?c = "conflict_key lab_crypto (cell_reference (lab_cell 1))"
  obtain r d where pq: "valid_qc lab_crypto (lab_prevote_qc 1) lab_manifest PHASE_PREVOTE r ?c (lab_intent 1) None"
    "qc_digest lab_crypto (lab_prevote_qc 1) lab_manifest = Inr d"
    "valid_qc lab_crypto (lab_precommit_qc 1) lab_manifest PHASE_PRECOMMIT r ?c (lab_intent 1) (Some d)"
    using check_finalityD(2) [OF lab_finality(1) [of 1]] unfolding lab_tx_simps by blast
  have fresh: "\<forall>i \<in> set HONEST_INDICES. i \<in> honest (cluster_configs OLD_EPOCH) \<and> sys_nodes (lab_system [1]) i = lab_node [1] i"
    unfolding lab_honest HONEST_INDICES_def lab_system_def by simp
  obtain S where S: "system_run lab_crypto (cluster_configs OLD_EPOCH) (lab_system [1]) S"
    "\<forall>i \<in> set HONEST_INDICES. \<exists>u \<in> sys_votes S. v_signer_index u = of_nat i \<and> same_statement u PHASE_PRECOMMIT r ?c (lab_intent 1)"
    using lab_system_votes [OF _ _ _ pq(1,2) honest_indices(1) fresh] by (force simp: MAX_COLLECTION_LEN_def)
  have "votes_issued (cluster_configs OLD_EPOCH) (sys_votes S) (lab_precommit_qc 1)"
    unfolding votes_issued_def
  proof (intro ballI impI)
    fix v assume v: "v \<in> set (qc_votes (lab_precommit_qc 1))" "unat (v_signer_index v) \<in> honest (cluster_configs OLD_EPOCH)"
    then have "unat (v_signer_index v) \<in> set HONEST_INDICES"
      by (simp add: lab_honest HONEST_INDICES_def)
    then obtain u where "u \<in> sys_votes S" "v_signer_index u = of_nat (unat (v_signer_index v))"
      "same_statement u PHASE_PRECOMMIT r ?c (lab_intent 1)"
      using S(2) by blast
    moreover have "same_statement v PHASE_PRECOMMIT r ?c (lab_intent 1)"
      using pq(3) v(1) by (simp add: valid_qc_def)
    ultimately show "\<exists>w \<in> sys_votes S. v_signer_index w = v_signer_index v \<and> v_phase w = v_phase v \<and> v_round w = v_round v \<and>
        v_conflict_key w = v_conflict_key v \<and> v_intent w = v_intent v"
      by (intro bexI [of _ u]) (simp_all add: same_statement_def)
  qed
  with S(1) show thesis
    by (rule that)
qed

section \<open>Certificates of the laboratory and its fixture\<close>

lemma fixture_chain_length:
  assumes "fixture_finality_chain C m tx r is = Inr (pq, cq)"
  shows "length (qc_votes pq) = length is"
  using assms by (auto simp: fixture_finality_chain_def Let_def assemble_qc_length dest: mapE_length)

lemma lab_chain_length:
  assumes "\<forall>i \<in> set is. i < N" "distinct is" "Q \<le> length is"
  shows "length (qc_votes (fst (lab_chain k is))) = length is"
  using fixture_chain_length lab_chain(1) [OF assms] by (metis prod.collapse)

lemma lab_prevote_digest:
  assumes "\<forall>i \<in> set is. i < N" "distinct is" "Q \<le> length is"
  obtains d where "qc_digest lab_crypto (fst (lab_chain k is)) lab_manifest = Inr d" "array_bytes d = 1 # replicate 31 0"
proof -
  let ?q = "fst (lab_chain k is)"
  obtain r c where pq: "valid_qc lab_crypto ?q lab_manifest PHASE_PREVOTE r c (lab_intent k) None"
    using check_finalityD(2) [OF lab_chain(2) [OF assms]] by blast
  obtain first rest where v: "qc_votes ?q = first # rest" "same_statement first PHASE_PREVOTE r c (lab_intent k)" "valid_vote lab_crypto first lab_manifest"
    using pq by (rule valid_qc_nonempty)
  have z: "v_justify first = zero_array"
    using v(2,3) by (simp add: valid_vote_def same_statement_def)
  show thesis
  proof (rule that)
    show "qc_digest lab_crypto ?q lab_manifest = Inr (hash_domain lab_crypto ''CALIBRE_INTEGRATION001_QC_V1'' (qc_bytes ?q first))"
      using qc_digest_valid [OF pq] v(1) by simp
    show "array_bytes (hash_domain lab_crypto ''CALIBRE_INTEGRATION001_QC_V1'' (qc_bytes ?q first)) = 1 # replicate 31 0"
      by (simp add: lab_hash_domain qc_bytes_def z bytes_repeat_array)
  qed
qed

lemma lab_genesis_cell:
  assumes "amount \<noteq> 0"
  shows "validate_cell lab_crypto (make_genesis_cell lab_crypto label amount owner) = Inr ()"
  using assms by (simp add: validate_cell_def make_genesis_cell_def Let_def)

lemma lab_genesis_ids: "inj (\<lambda>l. hash_domain lab_crypto ''CALIBRE_INTEGRATION001_GENESIS_ID_V1'' (to_le64 l))"
proof (rule injI)
  fix a b :: u64
  assume "hash_domain lab_crypto ''CALIBRE_INTEGRATION001_GENESIS_ID_V1'' (to_le64 a) =
    hash_domain lab_crypto ''CALIBRE_INTEGRATION001_GENESIS_ID_V1'' (to_le64 b)"
  then show "a = b"
    unfolding hash_domain_def by (rule lab_label_inj) simp
qed

section \<open>A validator that has voted\<close>

lemma lab_node_two:
  "open_node lab_crypto None None [] (lab_bytes [1]) (cluster_configs OLD_EPOCH 2) = (Inr (lab_node [1] 2), ws_file (ns_store (lab_node [1] 2)))"
  "ns_state (lab_node [1] 2) = lab_state [1]"
  "vote_digest (ns_store (lab_node [1] 2)) c r p = None"
proof -
  have ks: "\<forall>k \<in> set [1]. k < (2::nat) ^ 64" "length [1::nat] \<le> MAX_COLLECTION_LEN"
    by (simp_all add: MAX_COLLECTION_LEN_def)
  show "open_node lab_crypto None None [] (lab_bytes [1]) (cluster_configs OLD_EPOCH 2) = (Inr (lab_node [1] 2), ws_file (ns_store (lab_node [1] 2)))"
    "ns_state (lab_node [1] 2) = lab_state [1]" "vote_digest (ns_store (lab_node [1] 2)) c r p = None"
    using lab_node [OF ks, of 2] by (simp_all add: fresh_node_def vote_digest_def N_def)
qed

lemma lab_prevoted:
  obtains n where "node_run lab_crypto (cluster_configs OLD_EPOCH 2) (lab_node [1] 2) n"
    "ns_store n \<noteq> ns_store (lab_node [1] 2)" "\<not> ws_poisoned (ns_store n)" "has_room (ns_store n)"
proof -
  let ?c = "conflict_key lab_crypto (cell_reference (lab_cell 1))"
  have ks: "\<forall>k \<in> set [1]. k < (2::nat) ^ 64" "length [1::nat] \<le> MAX_COLLECTION_LEN"
    and two: "2 \<in> honest (cluster_configs OLD_EPOCH)"
    by (simp_all add: MAX_COLLECTION_LEN_def lab_honest)
  have live: "live_cell (lab_state [1]) (cell_reference (lab_cell 1)) = Some (lab_cell 1)"
    using lab_state_live [of 1 "[1]"] by (simp add: live_cell_def)
  have cfg: "nc_epoch (cluster_configs OLD_EPOCH 2) = OLD_EPOCH" "nc_index (cluster_configs OLD_EPOCH 2) = 2"
    by (simp_all add: cluster_config_def)
  note here = cfg lab_proposal(2-4) lab_tx_simps(1) lab_manifest_def [symmetric]
  have verified: "verify_proposal lab_crypto (lab_proposal 1 1) (lab_committee lab_crypto (nc_epoch (cluster_configs OLD_EPOCH 2))) = Inr ()"
    unfolding here by (rule lab_proposal(5))
  have nine: "(9::nat) = Suc 8"
    by simp
  obtain v n where n: "handle_request lab_crypto None (Prevote (lab_proposal 1 1)) (lab_node [1] 2) = (Inr (VoteResponse v, False), n)"
    "vote_digest (ns_store n) ?c 1 PHASE_PREVOTE = Some (lab_intent 1)"
    "voter lab_crypto (cluster_configs OLD_EPOCH 2) ?c 1 (lab_intent 1) 8 n"
    by (rule prevote_succeeds [OF lab_signatures_verify _ verified, unfolded here,
        OF lab_fresh_voter(1) [OF ks two, unfolded nine] live [folded lab_node_two(2)]])
  show thesis
  proof (rule that)
    show "node_run lab_crypto (cluster_configs OLD_EPOCH 2) (lab_node [1] 2) n"
      using n(1) by (intro r_into_rtranclp node_step.request)
    show "ns_store n \<noteq> ns_store (lab_node [1] 2)"
      using n(2) lab_node_two(3) by (metis option.discI)
    show "\<not> ws_poisoned (ns_store n)" "has_room (ns_store n)"
      using n(3) by (simp_all add: voter_def has_room_def checked_add64_def)
  qed
qed

section \<open>The cluster of the laboratory, delivered a transfer\<close>

lemma lab_from_cells: "from_cells lab_crypto [lab_cell 2, lab_cell 1] = Inr (lab_state [1, 2])"
proof -
  have "cr_id (cell_reference (lab_cell 1)) \<noteq> cr_id (cell_reference (lab_cell 2))"
    using lab_cell_id_inj [of 1 2] by auto
  then show ?thesis
    by (auto simp: from_cells_def add_genesis_def empty_state_def lab_state_def fmap_of_list.abs_eq [symmetric] simp del: lab_cell_simps)
qed

lemma sorted_singletons [simp]: "sorted_list_of_fset {|x|} = [x]" "sorted_list_of_fmap (fmupd k v fmempty) = [(k, v)]"
  by (simp_all add: sorted_list_of_fset.rep_eq sorted_list_of_fmap_def)

lemma lab_root_genesis:
  obtains pre where "state_root_bytes (lab_state [1]) = pre @ array_bytes (cr_id (cell_reference (lab_cell 1))) @ [0, 0, 0, 0]"
proof -
  let ?s = "lab_state [1]"
  have st: "st_known_ids ?s = {|cr_id (cell_reference (lab_cell 1))|}" "st_applied ?s = fmempty"
    by (simp_all add: lab_state_def del: lab_cell_simps)
  have zero: "to_le32 0 = [0, 0, 0, 0]"
    by code_simp
  obtain pre where "state_root_bytes ?s = pre @ concat (map array_bytes (sorted_list_of_fset (st_known_ids ?s))) @
    to_le32 (of_nat (fcard (fmdom (st_applied ?s)))) @
    concat (map (\<lambda>(intent, receipt). array_bytes intent @
        to_le32 (of_nat (length (rc_output_refs receipt))) @ concat (map cell_ref_bytes (rc_output_refs receipt)))
      (sorted_list_of_fmap (st_applied ?s)))"
    unfolding state_root_bytes_def append_assoc [symmetric] by blast
  then show thesis
    using that unfolding st by (simp add: fcard_fempty zero del: lab_cell_simps)
qed

lemma lab_root_applied:
  obtains pre where "state_root_bytes (lab_applied 1 (lab_state [1])) = pre @ [1, 0, 0, 0, 0, 0, 0, 0]"
proof -
  let ?s = "lab_state [1]" and ?t = "lab_applied 1 (lab_state [1])" and ?outs = "output_cells lab_crypto (lab_intent 1) (lab_tx 1)"
  obtain refs r where refs: "rc_output_refs (lab_receipt 1) = refs @ [r]" "cr_generation r = 1"
    by (rule that [of "map cell_reference (butlast ?outs)" "cell_reference (last ?outs)"])
      (simp_all add: lab_receipt_def output_cells_def effects_def lab_tx_def Let_def)
  have app: "sorted_list_of_fmap (st_applied ?t) = [(lab_intent 1, lab_receipt 1)]"
    by (simp add: lab_applied_def lab_state_def)
  have one: "to_le64 1 = [1, 0, 0, 0, 0, 0, 0, 0]"
    by code_simp
  obtain pre where pre: "state_root_bytes ?t = pre @ concat (map (\<lambda>(intent, receipt). array_bytes intent @
        to_le32 (of_nat (length (rc_output_refs receipt))) @ concat (map cell_ref_bytes (rc_output_refs receipt)))
      (sorted_list_of_fmap (st_applied ?t)))"
    unfolding state_root_bytes_def append_assoc [symmetric] by blast
  show thesis
    by (rule that [of "pre @ array_bytes (lab_intent 1) @ to_le32 (of_nat (length (rc_output_refs (lab_receipt 1)))) @
        concat (map cell_ref_bytes refs) @ to_le32 (cr_asset_id r) @ array_bytes (cr_id r)"])
      (simp add: pre app refs cell_ref_bytes_def one del: One_nat_def)
qed

lemma lab_root_differs: "state_root lab_crypto (lab_applied 1 (lab_state [1])) \<noteq> state_root lab_crypto (lab_state [1])"
proof
  have root: "array_bytes (state_root lab_crypto s) ! 5 = rev (state_root_bytes s) ! 4" for s
  proof -
    have len: "18 \<le> length (state_root_bytes s)"
      by (simp add: state_root_bytes_def)
    then have "array_bytes (state_root lab_crypto s) =
        1 # take 31 (rev (state_root_bytes s) @ rev (ascii ''CALIBRE_INTEGRATION001_STATE_ROOT_V1''))"
      unfolding state_root_def by (intro lab_hash_domain) simp
    then show ?thesis
      using len by (simp add: nth_append del: rev_append)
  qed
  assume "state_root lab_crypto (lab_applied 1 (lab_state [1])) = state_root lab_crypto (lab_state [1])"
  then have eq: "rev (state_root_bytes (lab_applied 1 (lab_state [1]))) ! 4 = rev (state_root_bytes (lab_state [1])) ! 4"
    using root by metis
  have "rev (array_bytes (cr_id (cell_reference (lab_cell 1)))) ! 0 \<noteq> 0"
    unfolding lab_genesis_id_bytes by (simp add: ascii_def)
  moreover obtain pre where "state_root_bytes (lab_state [1]) = pre @ array_bytes (cr_id (cell_reference (lab_cell 1))) @ [0, 0, 0, 0]"
    by (rule lab_root_genesis)
  moreover obtain pre' where "state_root_bytes (lab_applied 1 (lab_state [1])) = pre' @ [1, 0, 0, 0, 0, 0, 0, 0]"
    by (rule lab_root_applied)
  ultimately show False
    using eq by (simp add: nth_append)
qed

lemma lab_from_cell: "from_cells lab_crypto [lab_cell 1] = Inr (lab_state [1])"
  by (simp add: from_cells_def add_genesis_def empty_state_def lab_state_def del: lab_cell_simps)

lemma lab_applied_one:
  shows "apply_transfer_to lab_crypto (lab_state [1]) (lab_transfer 1) OLD_EPOCH = Inr (Applied (lab_receipt 1), lab_applied 1 (lab_state [1]))"
    and "\<exists>bs. encode_state (lab_applied 1 (lab_state [1])) = Inr bs"
    and "rc_intent (lab_receipt 1) \<noteq> zero_array" "rc_certificate_digest (lab_receipt 1) \<noteq> zero_array"
proof -
  have ap: "apply_finalized lab_crypto (lab_state [1]) (lab_tx 1) (lab_auth 1) (lab_prevote_qc 1) (lab_precommit_qc 1) lab_manifest =
      Inr (Applied (lab_receipt 1), lab_applied 1 (lab_state [1]))"
    by (rule lab_apply_genesis) simp_all
  then show "apply_transfer_to lab_crypto (lab_state [1]) (lab_transfer 1) OLD_EPOCH = Inr (Applied (lab_receipt 1), lab_applied 1 (lab_state [1]))"
    by (simp add: lab_transfer_def lab_manifest_def)
  show "\<exists>bs. encode_state (lab_applied 1 (lab_state [1])) = Inr bs"
    by (rule grown_encodes [OF apply_grown [OF ap genesis_grown [OF lab_from_cell]]]) (auto simp: capacity_def)
  show "rc_certificate_digest (lab_receipt 1) \<noteq> zero_array"
    using ap lab_digest_nonzero qc_digest_InrD unfolding apply_Applied_iff hash_domain_def by (metis apply_receipt.select_convs(2))
  have "array_bytes (lab_intent 1) \<noteq> array_bytes (zero_array :: digest)"
    unfolding lab_intent_bytes bytes_repeat_array by (simp add: numeral_eq_Suc)
  then show "rc_intent (lab_receipt 1) \<noteq> zero_array"
    by (auto simp: lab_receipt_def)
qed

lemma lab_roots_apart: "\<not> collide lab_crypto (root_preimage (lab_state [1])) (root_preimage (lab_applied 1 (lab_state [1])))"
  using lab_root_differs by (auto simp: collide_def root_preimage_def state_root_def hash_domain_def)

lemma lab_recordable: "recordable lab_crypto OLD_EPOCH (lab_transfer 1)"
  using lab_applied_one(1,3,4) check_finalityD(1) unfolding recordable_def apply_Applied_iff by auto

lemma lab_appliers:
  assumes "\<forall>k \<in> set ks. k < 2 ^ 64" and "length ks \<le> MAX_COLLECTION_LEN"
  shows "appliers lab_crypto (cluster_configs OLD_EPOCH) OLD_EPOCH (lab_state ks) 9 [0..<N] (lab_world ks)"
  unfolding appliers_def
proof
  fix i assume "i \<in> set [0..<N]"
  then have i: "i < N"
    by simp
  have "synced lab_crypto (cluster_configs OLD_EPOCH i) (lab_node ks i)"
    using open_node_synced [OF lab_node(1) [OF assms i]] .
  then have "applier lab_crypto (cluster_configs OLD_EPOCH i) (lab_state ks) 9 (lab_node ks i)"
    using lab_node(2) [OF assms i] by (simp add: applier_def fresh_node_def)
  then show "i < length (w_nodes (lab_world ks)) \<and> nc_epoch (cluster_configs OLD_EPOCH i) = OLD_EPOCH \<and>
      applier lab_crypto (cluster_configs OLD_EPOCH i) (lab_state ks) 9 (w_nodes (lab_world ks) ! i)"
    using i by (simp add: lab_world_def cluster_config_def)
qed

end
