(* ===== verification/Clients.thy ===== *)
theory Clients
  imports Capacity
begin

text \<open>
  The threads of the controller (\<open>finalize_bench_concurrently\<close> and \<open>apply_bench_to_live_nodes\<close> of
  \<open>integration001/src/main.rs\<close>): what each thread does, and what its steps keep.  The start gate is in
  theory \<open>Gate\<close>.  A thread is a program whose steps are requests; a validator serves
  one connection at a time, so the threads interleave at their requests, in an order that is an
  argument of the model.  \<open>Note\<close> is the thread's update of the shared metrics.
\<close>

section \<open>Client programs\<close>

datatype 'a program =
    Done "controller_error + 'a"
  | Call nat request "response \<Rightarrow> 'a program"
  | Note "run_metrics \<Rightarrow> run_metrics" "'a program"

primrec bindP :: "'a program \<Rightarrow> ('a \<Rightarrow> 'b program) \<Rightarrow> 'b program" where
  "bindP (Done r) f = (case r of Inl e \<Rightarrow> Done (Inl e) | Inr x \<Rightarrow> f x)"
| "bindP (Call i request cont) f = Call i request (\<lambda>response. bindP (cont response) f)"
| "bindP (Note g p) f = Note g (bindP p f)"

text \<open>Running a program alone.\<close>

primrec run_program :: "crypto \<Rightarrow> network \<Rightarrow> 'a program \<Rightarrow> 'a remote" where
  "run_program C net (Done r) = (\<lambda>w. (r, w))"
| "run_program C net (Call i request cont) = (\<lambda>w.
    case rpc C net i request w of
      (Inl e, w') \<Rightarrow> (Inl e, w')
    | (Inr response, w') \<Rightarrow> run_program C net (cont response) w')"
| "run_program C net (Note g p) = (\<lambda>w. run_program C net p (w\<lparr>w_metrics := g (w_metrics w)\<rparr>))"

text \<open>Several programs: a step of the crew is one step of one of them.\<close>

type_synonym 'a crew = "world \<times> 'a program list"

definition solo_step :: "crypto \<Rightarrow> network \<Rightarrow> 'a program \<Rightarrow> world \<Rightarrow> 'a program \<times> world" where
  "solo_step C net p w =
    (case p of
       Done r \<Rightarrow> (p, w)
     | Note g p' \<Rightarrow> (p', w\<lparr>w_metrics := g (w_metrics w)\<rparr>)
     | Call i request cont \<Rightarrow>
         (case rpc C net i request w of
            (Inl e, w') \<Rightarrow> (Done (Inl e), w')
          | (Inr response, w') \<Rightarrow> (cont response, w')))"

definition crew_step :: "crypto \<Rightarrow> network \<Rightarrow> nat \<Rightarrow> 'a crew \<Rightarrow> 'a crew" where
  "crew_step C net k crew =
    (case crew of (w, ps) \<Rightarrow>
     if k \<ge> length ps then (w, ps)
     else (case solo_step C net (ps ! k) w of (p, w') \<Rightarrow> (w', ps[k := p])))"

definition run_crew :: "crypto \<Rightarrow> network \<Rightarrow> nat list \<Rightarrow> 'a crew \<Rightarrow> 'a crew" where
  "run_crew C net schedule crew = fold (crew_step C net) schedule crew"

fun finish_crew :: "crypto \<Rightarrow> network \<Rightarrow> 'a program list \<Rightarrow> world \<Rightarrow> (controller_error + 'a) list \<times> world" where
  "finish_crew C net [] w = ([], w)"
| "finish_crew C net (p # ps) w =
    (case run_program C net p w of (r, w1) \<Rightarrow>
     (case finish_crew C net ps w1 of (rs, w2) \<Rightarrow> (r # rs, w2)))"

text \<open>
  Spawn the threads, let them interleave as \<open>schedule\<close> says, and join: the join waits until every
  thread has ended, and gives the first error in the order of the threads.
\<close>

definition join_crew :: "crypto \<Rightarrow> network \<Rightarrow> nat list \<Rightarrow> 'a program list \<Rightarrow> 'a list remote" where
  "join_crew C net schedule ps w =
    (case run_crew C net schedule (w, ps) of (w1, ps1) \<Rightarrow>
     (case finish_crew C net ps1 w1 of (rs, w2) \<Rightarrow> (mapE id rs, w2)))"

section \<open>The programs of the controller's threads\<close>

definition vote_of_response :: "nat \<Rightarrow> response \<Rightarrow> controller_error + vote option" where
  "vote_of_response index response =
    (case response of
       VoteResponse vote \<Rightarrow>
         if unat (v_signer_index vote) = index then Inr (Some vote) else Inl (WrongSigner index (v_signer_index vote))
     | Rejected _ \<Rightarrow> Inr None
     | _ \<Rightarrow> Inl (UnexpectedResponse index))"

fun collect_program :: "nat \<Rightarrow> nat list \<Rightarrow> request \<Rightarrow> vote list program" where
  "collect_program ports [] request = Done (Inr [])"
| "collect_program ports (index # indices) request =
    (if index \<ge> ports then Done (Inl (NoPort index))
     else Call index request (\<lambda>response. bindP (Done (vote_of_response index response)) (\<lambda>vote.
       bindP (collect_program ports indices request) (\<lambda>votes.
       Done (Inr (case vote of Some v \<Rightarrow> v # votes | None \<Rightarrow> votes))))))"

definition after_precommits ::
    "crypto \<Rightarrow> nat \<Rightarrow> committee_manifest \<Rightarrow> tx \<Rightarrow> user_auth \<Rightarrow> u64 \<Rightarrow> digest \<Rightarrow> qc \<Rightarrow> digest \<Rightarrow> vote list \<Rightarrow>
      finalized_transfer program" where
  "after_precommits C elapsed manifest tx auth rnd intent prevote_qc prevote_digest precommits =
    bindP (Done (map_err RemoteModelError (assemble_qc C precommits manifest PHASE_PRECOMMIT rnd
      (conflict_key C (cell_reference (tx_input tx))) intent (Some prevote_digest)))) (\<lambda>qc.
    Note (record_latency ''client_submit_to_qc'' elapsed)
      (Done (Inr \<lparr>ft_tx = tx, ft_auth = auth, ft_prevote_qc = prevote_qc, ft_qc = qc\<rparr>)))"

definition after_prevotes ::
    "crypto \<Rightarrow> nat \<Rightarrow> nat \<Rightarrow> committee_manifest \<Rightarrow> tx \<Rightarrow> user_auth \<Rightarrow> u64 \<Rightarrow> proposal \<Rightarrow> digest \<Rightarrow> vote list \<Rightarrow>
      finalized_transfer program" where
  "after_prevotes C ports elapsed manifest tx auth rnd proposal intent prevotes =
    bindP (Done (map_err RemoteModelError (assemble_qc C prevotes manifest PHASE_PREVOTE rnd
      (conflict_key C (cell_reference (tx_input tx))) intent None))) (\<lambda>prevote_qc.
    bindP (Done (map_err RemoteModelError (qc_digest C prevote_qc manifest))) (\<lambda>prevote_digest.
    bindP (collect_program ports HONEST_INDICES (Precommit proposal prevote_qc))
      (after_precommits C elapsed manifest tx auth rnd intent prevote_qc prevote_digest)))"

definition finalize_program ::
    "crypto \<Rightarrow> nat \<Rightarrow> nat \<Rightarrow> committee_manifest \<Rightarrow> tx \<Rightarrow> user_auth \<Rightarrow> u64 \<Rightarrow> finalized_transfer program" where
  "finalize_program C ports elapsed manifest tx auth rnd =
    bindP (Done (map_err RemoteModelError (make_proposal C manifest rnd tx auth None))) (\<lambda>proposal.
    bindP (Done (map_err RemoteModelError (intent_hash C tx))) (\<lambda>intent.
    bindP (collect_program ports HONEST_INDICES (Prevote proposal))
      (after_prevotes C ports elapsed manifest tx auth rnd proposal intent)))"

text \<open>The client threads of the benchmark; \<open>elapsed k\<close> is the time thread \<open>k\<close> measures.\<close>

definition finalize_programs ::
    "crypto \<Rightarrow> nat \<Rightarrow> (nat \<Rightarrow> nat) \<Rightarrow> committee_manifest \<Rightarrow> (tx \<times> user_auth) list \<Rightarrow> finalized_transfer program list" where
  "finalize_programs C ports elapsed manifest transfers =
    map (\<lambda>(k, tx, auth). finalize_program C ports (elapsed k) manifest tx auth (100 + of_nat k)) (List.enumerate 0 transfers)"

fun schedule_program :: "nat \<Rightarrow> finalized_transfer list \<Rightarrow> nat list \<Rightarrow> unit program" where
  "schedule_program i finalized [] = Done (Inr ())"
| "schedule_program i finalized (t # order) =
    (if t \<ge> length finalized then Done (Inl (RemoteFixtureError (InvalidTransferIndex t)))
     else let ft = finalized ! t in
       Call i (Apply (ft_tx ft) (ft_auth ft) (ft_prevote_qc ft) (ft_qc ft)) (\<lambda>response. case response of
         AppliedResponse root idempotent \<Rightarrow>
           if idempotent then Done (Inl (RemoteFixtureError (RepeatedTransfer t)))
           else schedule_program i finalized order
       | Rejected code \<Rightarrow> Done (Inl (ApplyRejected code))
       | _ \<Rightarrow> Done (Inl (UnexpectedResponse i))))"

text \<open>
  The workers need no gate.  If one cannot be spawned, those before it are joined and their results
  dropped.  The source leaves the threads after the first failed one running when it returns an error;
  here the join waits for them, which is one of the interleavings.
\<close>

definition apply_programs :: "finalized_transfer list \<Rightarrow> nat list list \<Rightarrow> unit program list" where
  "apply_programs finalized schedules =
    map (\<lambda>(i, order). schedule_program i finalized order) (List.enumerate 0 schedules)"

definition apply_bench_to_live_nodes ::
    "crypto \<Rightarrow> network \<Rightarrow> (nat \<Rightarrow> bool) \<Rightarrow> nat list \<Rightarrow> finalized_transfer list \<Rightarrow> nat list list \<Rightarrow> unit remote" where
  "apply_bench_to_live_nodes C net spawned schedule finalized schedules w =
    (let ps = apply_programs finalized schedules in
     if length schedules \<noteq> length (w_nodes w)
     then (Inl (RunFailed ''live schedule count does not match validator count''), w)
     else case find (\<lambda>k. \<not> spawned k) [0..<length ps] of
       Some k \<Rightarrow> (case join_crew C net schedule (take k ps) w of (_, w') \<Rightarrow> (Inl (RunFailed (''spawn apply worker '' @ decimal k)), w'))
     | None \<Rightarrow> bindR (join_crew C net schedule ps) (\<lambda>_. liftR (Inr ())) w)"

section \<open>A program alone is the sequential code\<close>

lemma bindP_assoc: "bindP (bindP p f) g = bindP p (\<lambda>x. bindP (f x) g)"
  by (induction p) (auto split: sum.splits)

lemma run_bindP: "run_program C net (bindP p f) = bindR (run_program C net p) (\<lambda>x. run_program C net (f x))"
proof (induction p)
  case (Done r)
  then show ?case
    by (cases r) (auto simp: bindR_def)
next
  case (Call i request cont)
  show ?case
    by (auto simp: bindR_def Call fun_eq_iff split: prod.splits sum.splits)
next
  case (Note g p)
  then show ?case
    by (simp add: bindR_def)
qed

lemma run_liftP: "run_program C net (Done r) = liftR r"
  by (simp add: liftR_def fun_eq_iff)

lemma rpc_keeps_length:
  assumes "rpc C net i request w = (res, w')"
  shows "length (w_nodes w') = length (w_nodes w)"
  using assms by (auto simp: rpc_def rpc_raw_def bindR_def liftR_def Let_def split: prod.splits sum.splits if_splits link.splits)

lemma bindR_cong:
  assumes "m w = m' w" and "\<And>x w'. m' w = (Inr x, w') \<Longrightarrow> f x w' = f' x w'"
  shows "bindR m f w = bindR m' f' w"
  using assms by (auto simp: bindR_def split: prod.splits sum.splits)

lemma run_Call: "run_program C net (Call i request cont) = bindR (rpc C net i request) (\<lambda>response. run_program C net (cont response))"
  by (auto simp: bindR_def fun_eq_iff split: prod.splits sum.splits)

declare run_program.simps(2) [simp del]

lemma bindR_assoc: "bindR (bindR m f) g = bindR m (\<lambda>x. bindR (f x) g)"
  by (auto simp: bindR_def fun_eq_iff split: prod.splits sum.splits)

lemma request_vote_run:
  assumes "index < length (w_nodes w)"
  shows "request_vote C net index request w = bindR (rpc C net index request) (\<lambda>response. liftR (vote_of_response index response)) w"
  using assms by (simp add: request_vote_def vote_of_response_def)

lemma request_vote_length: "request_vote C net index request w = (res, w') \<Longrightarrow> length (w_nodes w') = length (w_nodes w)"
  by (cases "index < length (w_nodes w)")
    (auto simp: request_vote_def bindR_def liftR_def split: prod.splits sum.splits dest: rpc_keeps_length)

lemma run_collect_program:
  "ports = length (w_nodes w) \<Longrightarrow> run_program C net (collect_program ports indices request) w = collect_votes C net indices request w"
proof (induction indices arbitrary: w)
  case Nil
  then show ?case
    by (simp add: liftR_def)
next
  case (Cons index indices)
  show ?case
  proof (cases "index < ports")
    case True
    have "run_program C net (collect_program ports (index # indices) request) w =
        bindR (bindR (rpc C net index request) (\<lambda>response. liftR (vote_of_response index response)))
          (\<lambda>vote. bindR (run_program C net (collect_program ports indices request))
            (\<lambda>votes. liftR (Inr (case vote of Some v \<Rightarrow> v # votes | None \<Rightarrow> votes)))) w"
      using True by (simp add: run_Call run_bindP run_liftP bindR_assoc del: bindP.simps run_program.simps)
    also have "\<dots> = collect_votes C net (index # indices) request w"
      unfolding collect_votes.simps
    proof (rule bindR_cong [OF request_vote_run [symmetric]])
      show "index < length (w_nodes w)"
        using True Cons.prems by simp
      fix vote w'
      assume "request_vote C net index request w = (Inr vote, w')"
      then have "ports = length (w_nodes w')"
        using request_vote_length Cons.prems by metis
      then show "bindR (run_program C net (collect_program ports indices request))
          (\<lambda>votes. liftR (Inr (case vote of Some v \<Rightarrow> v # votes | None \<Rightarrow> votes))) w' =
        bindR (collect_votes C net indices request) (\<lambda>votes. liftR (Inr (case vote of Some v \<Rightarrow> v # votes | None \<Rightarrow> votes))) w'"
        by (intro bindR_cong Cons.IH) simp_all
    qed
    finally show ?thesis .
  next
    case False
    then show ?thesis
      using Cons.prems by (simp add: request_vote_def bindR_def liftR_def)
  qed
qed

lemma collect_votes_length: "collect_votes C net indices request w = (res, w') \<Longrightarrow> length (w_nodes w') = length (w_nodes w)"
proof (induction indices arbitrary: w res w')
  case (Cons index indices)
  then show ?case
    by (auto simp: bindR_def liftR_def split: prod.splits sum.splits dest!: request_vote_length)
qed simp

lemma run_finalize_program:
  assumes "ports = length (w_nodes w)"
  shows "run_program C net (finalize_program C ports elapsed manifest tx auth rnd) w =
    finalize_transfer C net elapsed manifest tx auth rnd w"
  unfolding finalize_program_def after_prevotes_def after_precommits_def finalize_transfer_def Let_def run_bindP run_liftP
  by (intro bindR_cong run_collect_program) (use assms in \<open>simp_all add: run_liftP liftR_def collect_votes_length\<close>)

lemma run_schedule_program: "run_program C net (schedule_program i finalized order) w = apply_schedule C net i finalized order w"
proof (induction order arbitrary: w)
  case (Cons t order)
  show ?case
  proof (cases "t < length finalized")
    case True
    let ?answer = "\<lambda>response. case response of
         AppliedResponse root idempotent \<Rightarrow>
           if idempotent then liftR (Inl (RemoteFixtureError (RepeatedTransfer t))) else apply_schedule C net i finalized order
       | Rejected code \<Rightarrow> liftR (Inl (ApplyRejected code))
       | _ \<Rightarrow> liftR (Inl (UnexpectedResponse i))"
    let ?ft = "finalized ! t"
    have "run_program C net (schedule_program i finalized (t # order)) w =
        bindR (rpc C net i (Apply (ft_tx ?ft) (ft_auth ?ft) (ft_prevote_qc ?ft) (ft_qc ?ft))) ?answer w"
      unfolding schedule_program.simps Let_def using True
      by (simp add: run_Call) (intro bindR_cong refl, simp add: run_liftP Cons.IH split: response.splits, simp add: liftR_def)
    also have "\<dots> = apply_schedule C net i finalized (t # order) w"
      using True unfolding apply_schedule.simps apply_to_validator_def bindR_assoc
      by (simp, intro bindR_cong refl) (simp add: bindR_def liftR_def split: response.splits)
    finally show ?thesis .
  qed (simp add: liftR_def)
qed simp

lemma run_solo_step: "solo_step C net p w = (p', w') \<Longrightarrow> run_program C net p w = run_program C net p' w'"
  by (cases p) (auto simp: solo_step_def run_Call bindR_def split: prod.splits sum.splits)

section \<open>A vote leaves the other conflicts alone\<close>

lemma insert_vote_other:
  assumes "c' \<noteq> c"
  shows "free_for (insert_vote c r p x st) c' r' x' \<longleftrightarrow> free_for st c' r' x'"
    and "fmlookup (rs_votes (insert_vote c r p x st)) \<lparr>vk_conflict_key = c', vk_round = r', vk_phase = p'\<rparr> =
      fmlookup (rs_votes st) \<lparr>vk_conflict_key = c', vk_round = r', vk_phase = p'\<rparr>"
  using assms by (auto simp: free_for_def)

lemma free_for_sequence [simp]: "free_for (st\<lparr>rs_next_sequence := n\<rparr>) c r x = free_for st c r x"
  by (simp add: free_for_def)

definition same_conflict :: "digest \<Rightarrow> wal_store \<Rightarrow> wal_store \<Rightarrow> bool" where
  "same_conflict c w w' \<longleftrightarrow> (\<forall>r x. free_for (ws_state w') c r x \<longleftrightarrow> free_for (ws_state w) c r x) \<and>
    (\<forall>r p. vote_digest w' c r p = vote_digest w c r p)"

lemma persist_vote_other:
  assumes "c' \<noteq> c" and "persist_vote C io c r p x w = (res, w')"
  shows "same_conflict c' w w'"
proof (rule vote_legal [where C = C and io = io and c = c and r = r and p = p and d = x and w = w])
  assume "snd (persist_vote C io c r p x w) = w"
  then show ?thesis
    using assms(2) by (simp add: same_conflict_def)
next
  assume app: "persist_vote C io c r p x w = append_then C io KIND_VOTE (vote_payload c r p x) (insert_vote c r p x) w"
    and legal: "legal_append w KIND_VOTE (vote_payload c r p x) (insert_vote c r p x)"
  have "length (vote_payload c r p x) \<le> MAX_PAYLOAD_BYTES"
    using legal by (simp add: legal_append_def)
  with assms(2) [unfolded app] show ?thesis
    by (cases rule: append_then_cases)
      (use assms(1) in \<open>auto simp: same_conflict_def vote_digest_def insert_vote_other [OF assms(1)]\<close>)
qed

lemma persist_own_vote_other:
  "c' \<noteq> c \<Longrightarrow> persist_own_vote C io n c r p x = (res, n') \<Longrightarrow> same_conflict c' (ns_store n) (ns_store n')"
  using persist_vote_other by (auto simp: persist_own_vote_def same_conflict_def split: option.splits prod.splits)

lemma vote_request_other:
  assumes "handle_request C io request n = (res, n')" and "request = Prevote p \<or> request = Precommit p q"
    and "c' \<noteq> conflict_key C (cell_reference (tx_input (pr_tx p)))"
  shows "same_conflict c' (ns_store n) (ns_store n')" and "ns_state n' = ns_state n"
proof -
  have same: "same_conflict c' w w" for w
    by (simp add: same_conflict_def)
  have "n' = snd (handle_prevote C io p n) \<or> n' = snd (handle_precommit C io p q n)"
    using assms(1,2) by (auto split: prod.splits)
  then obtain h where h: "h = handle_prevote C io p n \<or> h = handle_precommit C io p q n" and n': "n' = snd h"
    by blast
  from h have "same_conflict c' (ns_store n) (ns_store (snd h)) \<and> ns_state (snd h) = ns_state n"
  proof
    assume h: "h = handle_prevote C io p n"
    then have "ns_state (snd h) = ns_state n"
      using handle_vote_effect(1) [of C io p n "fst h" "snd h"] by simp
    moreover have "same_conflict c' (ns_store n) (ns_store (snd h))"
      using persist_own_vote_other [OF assms(3)] same
      by (auto simp: h handle_prevote_def Let_def split: sum.splits prod.splits)
    ultimately show ?thesis
      by simp
  next
    assume h: "h = handle_precommit C io p q n"
    then have "ns_state (snd h) = ns_state n"
      using handle_vote_effect(2) [of C io p q n "fst h" "snd h"] by simp
    moreover have "same_conflict c' (ns_store n) (ns_store (snd h))"
      using persist_own_vote_other [OF assms(3)] same
      by (auto simp: h handle_precommit_def Let_def split: sum.splits prod.splits)
    ultimately show ?thesis
      by simp
  qed
  then show "same_conflict c' (ns_store n) (ns_store n')" and "ns_state n' = ns_state n"
    by (simp_all add: n')
qed

section \<open>What the steps of a crew keep\<close>

text \<open>
  The contract between the threads and the join: a property of the programs and the validators
  that every single step keeps holds of what the join returns, whatever the schedule.
\<close>

lemma mapE_results: "mapE id (map Inr xs) = Inr xs"
  by (induction xs) simp_all

lemma run_crew_length: "length (snd (run_crew C net schedule (w, ps))) = length ps"
  unfolding run_crew_def
proof (induction schedule arbitrary: w ps)
  case (Cons k schedule)
  obtain w' ps' where "crew_step C net k (w, ps) = (w', ps')"
    by force
  moreover from this have "length ps' = length ps"
    by (auto simp: crew_step_def split: if_splits prod.splits)
  ultimately show ?case
    using Cons.IH [of w' ps'] by simp
qed simp

locale crew_property =
  fixes C :: crypto and net :: network and inv :: "'a program list \<Rightarrow> world \<Rightarrow> bool"
  assumes step: "inv ps w \<Longrightarrow> k < length ps \<Longrightarrow> solo_step C net (ps ! k) w = (p, w') \<Longrightarrow> inv (ps[k := p]) w'"
begin

lemma kept_by_run: "inv ps w \<Longrightarrow> inv (snd (run_crew C net schedule (w, ps))) (fst (run_crew C net schedule (w, ps)))"
  unfolding run_crew_def
proof (induction schedule arbitrary: w ps)
  case (Cons k schedule)
  obtain w' ps' where stepped: "crew_step C net k (w, ps) = (w', ps')"
    by force
  then have "inv ps' w'"
    using Cons.prems step by (auto simp: crew_step_def split: if_splits prod.splits)
  from Cons.IH [OF this] show ?case
    by (simp add: stepped)
qed simp

lemma kept_by_member:
  "inv ps w \<Longrightarrow> k < length ps \<Longrightarrow> run_program C net (ps ! k) w = (r, w') \<Longrightarrow> inv (ps[k := Done r]) w'"
proof (induction "ps ! k" arbitrary: ps w)
  case (Done r')
  then show ?case
    by (metis list_update_id prod.inject run_program.simps(1))
next
  case (Call i request cont)
  obtain res w1 where rpc: "rpc C net i request w = (res, w1)"
    by force
  show ?case
  proof (cases res)
    case (Inl err)
    then have "r = Inl err" "w' = w1" "solo_step C net (ps ! k) w = (Done (Inl err), w1)"
      using Call.prems(3) rpc by (simp_all flip: Call.hyps(2) add: run_Call bindR_def solo_step_def)
    then show ?thesis
      using step [OF Call.prems(1,2)] by simp
  next
    case (Inr response)
    let ?ps = "ps[k := cont response]"
    have run: "run_program C net (cont response) w1 = (r, w')" and "solo_step C net (ps ! k) w = (cont response, w1)"
      using Call.prems(3) rpc Inr by (simp_all flip: Call.hyps(2) add: run_Call bindR_def solo_step_def)
    then have "inv ?ps w1" "k < length ?ps" "?ps ! k \<in> range cont"
      using step [OF Call.prems(1,2)] Call.prems(2) by simp_all
    from Call.hyps(1) [OF this(3,1,2)] show ?thesis
      using run Call.prems(2) by simp
  qed
next
  case (Note g p)
  let ?w = "w\<lparr>w_metrics := g (w_metrics w)\<rparr>" and ?ps = "ps[k := p]"
  have run: "run_program C net p ?w = (r, w')" and "solo_step C net (ps ! k) w = (p, ?w)"
    using Note.prems(3) by (simp_all flip: Note.hyps(2) add: solo_step_def)
  then have "inv ?ps ?w" "k < length ?ps" "p = ?ps ! k"
    using step [OF Note.prems(1,2)] Note.prems(2) by simp_all
  from Note.hyps(1) [OF this(3,1,2)] show ?case
    using run Note.prems(2) by simp
qed

lemma kept_by_finish:
  "inv (ended @ ps) w \<Longrightarrow> finish_crew C net ps w = (rs, w') \<Longrightarrow> length rs = length ps \<and> inv (ended @ map Done rs) w'"
proof (induction ps arbitrary: ended w rs w')
  case (Cons p ps)
  obtain r w1 rs' w2 where run: "run_program C net p w = (r, w1)" "finish_crew C net ps w1 = (rs', w2)"
    by force
  have "inv ((ended @ p # ps)[length ended := Done r]) w1"
    by (rule kept_by_member [OF Cons.prems(1)]) (use run(1) in simp_all)
  then have "inv ((ended @ [Done r]) @ ps) w1"
    by simp
  from Cons.IH [OF this run(2)] show ?case
    using Cons.prems(2) run by auto
qed simp

lemma kept_by_join:
  assumes "inv ps w"
  obtains rs w' where "join_crew C net schedule ps w = (mapE id rs, w')" "inv (map Done rs) w'" "length rs = length ps"
proof -
  obtain w1 ps1 where run: "run_crew C net schedule (w, ps) = (w1, ps1)"
    by force
  then have "inv ([] @ ps1) w1" "length ps1 = length ps"
    using kept_by_run [OF assms, of schedule] run_crew_length [of C net schedule w ps] by simp_all
  moreover obtain rs w' where "finish_crew C net ps1 w1 = (rs, w')"
    by force
  ultimately show thesis
    using kept_by_finish [of "[]" ps1 w1 rs w'] run by (intro that [of rs w']) (simp_all add: join_crew_def)
qed

end

section \<open>Every thread ends\<close>

text \<open>\<open>ends_within n p\<close>: whatever is answered, \<open>p\<close> takes at most \<open>n\<close> steps.\<close>

primrec ends_within :: "'a program \<Rightarrow> nat \<Rightarrow> bool" where
  "ends_within (Done r) n \<longleftrightarrow> True"
| "ends_within (Call i request cont) n \<longleftrightarrow> 0 < n \<and> (\<forall>response. ends_within (cont response) (n - 1))"
| "ends_within (Note g p) n \<longleftrightarrow> 0 < n \<and> ends_within p (n - 1)"

fun finished :: "'a program \<Rightarrow> bool" where
  "finished (Done r) \<longleftrightarrow> True"
| "finished p \<longleftrightarrow> False"

lemma ends_within_mono: "ends_within p n \<Longrightarrow> n \<le> m \<Longrightarrow> ends_within p m"
proof (induction p arbitrary: n m)
  case (Call i request cont)
  have "ends_within (cont response) (m - 1)" for response
    by (rule Call.IH [OF rangeI, of _ "n - 1"]) (use Call.prems in auto)
  then show ?case
    using Call.prems by simp
next
  case (Note g p)
  then show ?case
    using Note.IH [of "n - 1" "m - 1"] by simp
qed simp

lemma ends_within_bindP:
  "ends_within p n \<Longrightarrow> (\<And>x. ends_within (f x) m) \<Longrightarrow> ends_within (bindP p f) (n + m)"
proof (induction p arbitrary: n)
  case (Done r)
  then show ?case
    using ends_within_mono [of "f x" m "n + m" for x] by (cases r) simp_all
next
  case (Call i request cont)
  have "ends_within (bindP (cont response) f) (n - 1 + m)" for response
    by (rule Call.IH [OF rangeI]) (use Call.prems in auto)
  then show ?case
    using Call.prems(1) by (auto intro: ends_within_mono)
next
  case (Note g p)
  have "ends_within (bindP p f) (n - 1 + m)"
    by (rule Note.IH) (use Note.prems in auto)
  then show ?case
    using Note.prems(1) by (auto intro: ends_within_mono)
qed

lemma finished_ends: "ends_within p 0 \<Longrightarrow> finished p"
  by (cases p) simp_all

lemma solo_step_ends: "ends_within p n \<Longrightarrow> ends_within (fst (solo_step C net p w)) (n - 1)"
  by (cases p) (auto simp: solo_step_def split: prod.splits sum.splits)

lemma run_crew_ends:
  "\<lbrakk>length ps = m; \<And>k. k < m \<Longrightarrow> ends_within (ps ! k) (b k)\<rbrakk> \<Longrightarrow>
    length (snd (run_crew C net schedule (w, ps))) = m \<and>
    (\<forall>k < m. ends_within (snd (run_crew C net schedule (w, ps)) ! k) (b k - count_list schedule k))"
  unfolding run_crew_def
proof (induction schedule arbitrary: w ps b)
  case (Cons j schedule)
  obtain w' ps' where step: "crew_step C net j (w, ps) = (w', ps')"
    by force
  then have "length ps' = m" "\<And>k. k < m \<Longrightarrow> ends_within (ps' ! k) (b k - (if j = k then 1 else 0))"
    using Cons.prems solo_step_ends [of "ps ! j" "b j" C net w]
    by (auto simp: crew_step_def nth_list_update split: if_splits prod.splits)
  from Cons.IH [of ps' "\<lambda>k. b k - (if j = k then 1 else 0)" w', OF this] show ?case
    by (auto simp: step)
qed simp

lemma collect_program_ends: "ends_within (collect_program ports indices request) (length indices)"
proof (induction indices)
  case (Cons index indices)
  have "ends_within (bindP (collect_program ports indices request) (\<lambda>votes. Done (Inr (f votes)))) (length indices)" for f :: "vote list \<Rightarrow> vote list"
    using ends_within_bindP [OF Cons, of "\<lambda>votes. Done (Inr (f votes))" 0] by simp
  then show ?case
    by (auto split: sum.splits)
qed simp

lemma finalize_program_ends: "ends_within (finalize_program C ports elapsed manifest tx auth rnd) 11"
proof -
  have pre: "ends_within (after_precommits C elapsed manifest tx auth rnd intent pq d vs) 1" for intent pq d vs
    by (simp add: after_precommits_def split: sum.splits)
  have collect: "ends_within (bindP (collect_program ports HONEST_INDICES request) f) (5 + m)"
    if "\<And>vs. ends_within (f vs) m" for request m and f :: "vote list \<Rightarrow> finalized_transfer program"
    using ends_within_bindP [OF collect_program_ends [where indices = HONEST_INDICES] that] unfolding honest_indices(3) by (simp add: Q_def)
  have "ends_within (after_prevotes C ports elapsed manifest tx auth rnd proposal intent vs) 6" for proposal intent vs
    using collect [OF pre] by (simp add: after_prevotes_def split: sum.splits)
  from collect [OF this] show ?thesis
    by (simp add: finalize_program_def split: sum.splits)
qed

end
