(* ===== verification/Gate.thy ===== *)
theory Gate
  imports Clients
begin

text \<open>
  Threads behind a start gate (\<open>new_start_gate\<close>, \<open>wait_for_start\<close>, \<open>release_start\<close>,
  \<open>finalize_bench_concurrently\<close> and the two conflict-delivery threads of \<open>run_phase_a_once\<close>, all of
  \<open>integration001/src/main.rs\<close>): the main thread spawns the clients, opens the gate, joins them in
  order and leaves the scope when all of them have ended; a client waits for the gate on a
  condition variable before its first request.  A spawn may fail, a thread may be woken for no
  reason, and a thread that nobody wakes sleeps for ever.
\<close>

section \<open>The gate\<close>

text \<open>
  A client is about to take the gate's mutex and test the flag, is asleep on the condition variable, or
  runs.  Testing the flag and going to sleep is one step: \<open>Condvar::wait\<close> gives the mutex back atomically.
\<close>

datatype 'a client =
    Checking "'a program"
  | Asleep "'a program"
  | Running "'a program"

primrec client_program :: "'a client \<Rightarrow> 'a program" where
  "client_program (Checking p) = p"
| "client_program (Asleep p) = p"
| "client_program (Running p) = p"

text \<open>Where the main thread is.  \<open>Leaving\<close> is the end of the scope, which waits for every thread.\<close>

datatype 'a gate_main =
    Spawning nat
  | Releasing
  | Joining nat "'a list"
  | Abandoning nat
  | Draining nat nat
  | Leaving "controller_error + 'a list"
  | Returned "controller_error + 'a list"

record 'a gate =
  gt_main :: "'a gate_main"
  gt_started :: bool
  gt_clients :: "'a client list"
  gt_world :: world

definition new_start_gate :: bool where "new_start_gate = False"

definition wait_for_start :: "bool \<Rightarrow> 'a program \<Rightarrow> 'a client" where
  "wait_for_start started p = (if started then Running p else Asleep p)"

primrec notified :: "'a client \<Rightarrow> 'a client" where
  "notified (Checking p) = Checking p"
| "notified (Asleep p) = Checking p"
| "notified (Running p) = Running p"

definition release_start :: "'a gate \<Rightarrow> 'a gate" where
  "release_start g = g\<lparr>gt_started := True, gt_clients := map notified (gt_clients g)\<rparr>"

section \<open>The threads\<close>

fun result_of :: "'a client \<Rightarrow> (controller_error + 'a) option" where
  "result_of (Running (Done r)) = Some r"
| "result_of c = None"

definition main_step :: "(nat \<Rightarrow> bool) \<Rightarrow> (nat \<Rightarrow> string) \<Rightarrow> 'a program list \<Rightarrow> 'a gate \<Rightarrow> 'a gate" where
  "main_step spawned message ps g =
    (case gt_main g of
       Spawning k \<Rightarrow>
         if k < length ps then
           if spawned k then g\<lparr>gt_clients := gt_clients g @ [Checking (ps ! k)], gt_main := Spawning (Suc k)\<rparr>
           else g\<lparr>gt_main := Abandoning k\<rparr>
         else g\<lparr>gt_main := Releasing\<rparr>
     | Releasing \<Rightarrow> (release_start g)\<lparr>gt_main := Joining 0 []\<rparr>
     | Joining k xs \<Rightarrow>
         if k < length (gt_clients g) then
           case result_of (gt_clients g ! k) of
             None \<Rightarrow> g
           | Some (Inl e) \<Rightarrow> g\<lparr>gt_main := Leaving (Inl e)\<rparr>
           | Some (Inr x) \<Rightarrow> g\<lparr>gt_main := Joining (Suc k) (xs @ [x])\<rparr>
         else g\<lparr>gt_main := Leaving (Inr xs)\<rparr>
     | Abandoning k \<Rightarrow> (release_start g)\<lparr>gt_main := Draining k 0\<rparr>
     | Draining k j \<Rightarrow>
         if j < length (gt_clients g) then
           case result_of (gt_clients g ! j) of None \<Rightarrow> g | Some _ \<Rightarrow> g\<lparr>gt_main := Draining k (Suc j)\<rparr>
         else g\<lparr>gt_main := Leaving (Inl (RunFailed (message k)))\<rparr>
     | Leaving r \<Rightarrow> if list_all (\<lambda>c. result_of c \<noteq> None) (gt_clients g) then g\<lparr>gt_main := Returned r\<rparr> else g
     | Returned r \<Rightarrow> g)"

definition client_step :: "crypto \<Rightarrow> network \<Rightarrow> nat \<Rightarrow> 'a gate \<Rightarrow> 'a gate" where
  "client_step C net k g =
    (if k \<ge> length (gt_clients g) then g
     else case gt_clients g ! k of
       Checking p \<Rightarrow> g\<lparr>gt_clients := (gt_clients g)[k := wait_for_start (gt_started g) p]\<rparr>
     | Asleep p \<Rightarrow> g
     | Running p \<Rightarrow>
         (case solo_step C net p (gt_world g) of
            (p', w') \<Rightarrow> g\<lparr>gt_clients := (gt_clients g)[k := Running p'], gt_world := w'\<rparr>))"

text \<open>The condition variable may wake a thread that was not notified.\<close>

definition spurious_wakeup :: "nat \<Rightarrow> 'a gate \<Rightarrow> 'a gate" where
  "spurious_wakeup k g =
    (if k \<ge> length (gt_clients g) then g else g\<lparr>gt_clients := (gt_clients g)[k := notified (gt_clients g ! k)]\<rparr>)"

datatype gate_event = MainStep | ClientStep nat | Spurious nat

fun gate_step :: "crypto \<Rightarrow> network \<Rightarrow> (nat \<Rightarrow> bool) \<Rightarrow> (nat \<Rightarrow> string) \<Rightarrow> 'a program list \<Rightarrow> gate_event \<Rightarrow> 'a gate \<Rightarrow> 'a gate" where
  "gate_step C net spawned message ps MainStep g = main_step spawned message ps g"
| "gate_step C net spawned message ps (ClientStep k) g = client_step C net k g"
| "gate_step C net spawned message ps (Spurious k) g = spurious_wakeup k g"

definition gate_start :: "world \<Rightarrow> 'a gate" where
  "gate_start w = \<lparr>gt_main = Spawning 0, gt_started = new_start_gate, gt_clients = [], gt_world = w\<rparr>"

definition gate_run ::
    "crypto \<Rightarrow> network \<Rightarrow> (nat \<Rightarrow> bool) \<Rightarrow> (nat \<Rightarrow> string) \<Rightarrow> 'a program list \<Rightarrow> gate_event list \<Rightarrow> world \<Rightarrow> 'a gate" where
  "gate_run C net spawned message ps events w = fold (gate_step C net spawned message ps) events (gate_start w)"

definition gate_result :: "'a gate \<Rightarrow> ((controller_error + 'a list) \<times> world) option" where
  "gate_result g = (case gt_main g of Returned r \<Rightarrow> Some (r, gt_world g) | _ \<Rightarrow> None)"

section \<open>The calls that use the gate\<close>

text \<open>
  \<open>events\<close> is how the threads interleave at first; after it every thread steps in turn.  That the
  rounds are enough, and that no other fair continuation gives a result which this function does not
  give for some \<open>events\<close>, is proved below, so the last case does not arise.
\<close>

definition in_turn :: "nat \<Rightarrow> gate_event list" where
  "in_turn n = concat (replicate (14 * n + 6) (MainStep # map ClientStep [0..<n]))"

definition gated_crew ::
    "crypto \<Rightarrow> network \<Rightarrow> (nat \<Rightarrow> bool) \<Rightarrow> (nat \<Rightarrow> string) \<Rightarrow> gate_event list \<Rightarrow> 'a program list \<Rightarrow> 'a list remote" where
  "gated_crew C net spawned message events ps w =
    (let g = gate_run C net spawned message ps (events @ in_turn (length ps)) w in
     case gate_result g of
       Some result \<Rightarrow> result
     | None \<Rightarrow> (Inl (RunFailed ''the threads are still waiting''), gt_world g))"

definition finalize_bench_concurrently ::
    "crypto \<Rightarrow> network \<Rightarrow> (nat \<Rightarrow> bool) \<Rightarrow> gate_event list \<Rightarrow> (nat \<Rightarrow> nat) \<Rightarrow> committee_manifest \<Rightarrow> (tx \<times> user_auth) list \<Rightarrow>
      finalized_transfer list remote" where
  "finalize_bench_concurrently C net spawned events elapsed manifest transfers w =
    gated_crew C net spawned (\<lambda>k. ''spawn benchmark client thread '' @ decimal k) events
      (finalize_programs C (length (w_nodes w)) elapsed manifest transfers) w"

section \<open>Fair runs end\<close>

text \<open>
  A run in which every agent steps again and again reaches its end when some agent can always lower
  the rank, and no step of another takes that from it.
\<close>

locale fair_run =
  fixes step :: "'e \<Rightarrow> 's \<Rightarrow> 's" and good :: "'s \<Rightarrow> bool" and over :: "'s \<Rightarrow> bool" and rank :: "'s \<Rightarrow> nat" and helpful :: "'s \<Rightarrow> 'e"
  assumes good_step: "good s \<Longrightarrow> good (step e s)"
    and over_step: "good s \<Longrightarrow> over s \<Longrightarrow> over (step e s)"
    and helps: "good s \<Longrightarrow> \<not> over s \<Longrightarrow> rank (step (helpful s) s) < rank s"
    and waits: "good s \<Longrightarrow> \<not> over s \<Longrightarrow> rank (step e s) < rank s \<or>
      rank (step e s) = rank s \<and> helpful (step e s) = helpful s"
begin

lemma good_fold: "good s \<Longrightarrow> good (fold step es s)"
  by (induction es arbitrary: s) (simp_all add: good_step)

lemma over_fold: "good s \<Longrightarrow> over s \<Longrightarrow> over (fold step es s)"
  by (induction es arbitrary: s) (simp_all add: good_step over_step)

lemma rank_fold: "good s \<Longrightarrow> over (fold step es s) \<or> rank (fold step es s) \<le> rank s"
proof (induction es arbitrary: s)
  case (Cons e es)
  show ?case
  proof (cases "over s")
    case True
    then show ?thesis
      using over_fold [OF Cons.prems, of "e # es"] by simp
  next
    case False
    then show ?thesis
      using waits [OF Cons.prems False, of e] Cons.IH [OF good_step [OF Cons.prems]] by (metis fold_simps(2) le_trans less_imp_le order_refl)
  qed
qed simp

text \<open>A sequence of steps in which the helpful agent occurs lowers the rank.\<close>

lemma rank_drops:
  assumes "good s" and "helpful s \<in> set es"
  shows "over (fold step es s) \<or> rank (fold step es s) < rank s"
  using assms
proof (induction es arbitrary: s)
  case (Cons e es)
  have tail: "over (fold step es (step e s)) \<or> rank (fold step es (step e s)) \<le> rank (step e s)"
    by (rule rank_fold [OF good_step [OF Cons.prems(1)]])
  show ?case
  proof (cases "over s \<or> rank (step e s) < rank s")
    case True
    then show ?thesis
      using over_fold [OF Cons.prems(1), of "e # es"] tail by auto
  next
    case False
    then have same: "rank (step e s) = rank s" "helpful (step e s) = helpful s"
      using waits [OF Cons.prems(1), of e] by blast+
    then have "helpful s \<noteq> e"
      using helps [OF Cons.prems(1)] False by auto
    then show ?thesis
      using Cons.IH [OF good_step [OF Cons.prems(1)], of e] Cons.prems(2) same by auto
  qed
qed simp

text \<open>With a bounded number of rounds.\<close>

lemma rounds_end:
  assumes "\<And>s. good s \<Longrightarrow> \<not> over s \<Longrightarrow> helpful s \<in> set turn"
  shows "good s \<Longrightarrow> rank s < n \<Longrightarrow> over (fold step (concat (replicate n turn)) s)"
proof (induction n arbitrary: s)
  case (Suc n)
  show ?case
  proof (cases "over s")
    case True
    then show ?thesis
      by (rule over_fold [OF Suc.prems(1)])
  next
    case False
    consider "over (fold step turn s)" | "rank (fold step turn s) < rank s"
      using rank_drops [OF Suc.prems(1) assms [OF Suc.prems(1) False]] by blast
    then show ?thesis
    proof cases
      case 1
      then show ?thesis
        using over_fold [OF good_fold [OF Suc.prems(1)]] by simp
    next
      case 2
      then show ?thesis
        using Suc.IH [OF good_fold [OF Suc.prems(1)]] Suc.prems(2) by simp
    qed
  qed
qed simp

text \<open>In any fair order.\<close>

lemma fair_ends:
  assumes fair: "\<And>s m. good s \<Longrightarrow> \<not> over s \<Longrightarrow> \<exists>n \<ge> m. \<sigma> n = helpful s" and s: "good s"
  shows "\<exists>n. over (fold step (map \<sigma> [0..<n]) s)"
proof -
  let ?at = "\<lambda>n. fold step (map \<sigma> [0..<n]) s"
  have "\<exists>n. over (?at n)" if "rank (?at m) = r" for m r
    using that
  proof (induction r arbitrary: m rule: less_induct)
    case (less r)
    show ?case
    proof (cases "over (?at m)")
      case False
      have good: "good (?at m)"
        by (rule good_fold [OF s])
      obtain n where n: "m \<le> n" "\<sigma> n = helpful (?at m)"
        using fair [OF good False] by blast
      obtain j where j: "Suc n = m + j"
        using n(1) le_Suc_ex [of m "Suc n"] by auto
      have "[0..<Suc n] = [0..<m] @ [m..<Suc n]"
        unfolding j by (rule upt_add_eq_append) simp
      then have split: "?at (Suc n) = fold step (map \<sigma> [m..<Suc n]) (?at m)"
        by (simp only: map_append fold_append comp_apply)
      have "helpful (?at m) \<in> set (map \<sigma> [m..<Suc n])"
        using n by (metis atLeastLessThan_iff image_eqI lessI set_map set_upt)
      then have "over (?at (Suc n)) \<or> rank (?at (Suc n)) < rank (?at m)"
        unfolding split by (rule rank_drops [OF good])
      then show ?thesis
        using less by blast
    qed blast
  qed
  then show ?thesis
    by blast
qed

end

section \<open>The rank of a gate\<close>

definition steps_left :: "'a program \<Rightarrow> nat" where
  "steps_left p = (LEAST n. ends_within p n)"

definition bounded :: "'a program \<Rightarrow> bool" where
  "bounded p \<longleftrightarrow> (\<exists>n. ends_within p n)"

lemma steps_left_ends: "bounded p \<Longrightarrow> ends_within p (steps_left p)"
  unfolding bounded_def steps_left_def by (metis LeastI)

lemma steps_left_le: "ends_within p n \<Longrightarrow> steps_left p \<le> n"
  by (simp add: steps_left_def Least_le)

lemma bounded_step: "bounded p \<Longrightarrow> bounded (fst (solo_step C net p w))"
  unfolding bounded_def using solo_step_ends by blast

lemma steps_left_step:
  assumes "bounded p" and "\<not> finished p"
  shows "steps_left (fst (solo_step C net p w)) < steps_left p"
proof -
  have "0 < steps_left p"
    using finished_ends steps_left_ends [OF assms(1)] assms(2) by (metis gr0I)
  then show ?thesis
    using steps_left_le [OF solo_step_ends [OF steps_left_ends [OF assms(1)]], of C net w] by linarith
qed

lemma finished_still [simp]: "finished p \<Longrightarrow> solo_step C net p w = (p, w)"
  by (cases p) (simp_all add: solo_step_def)

primrec client_rank :: "'a client \<Rightarrow> nat" where
  "client_rank (Checking p) = Suc (steps_left p)"
| "client_rank (Asleep p) = Suc (steps_left p)"
| "client_rank (Running p) = steps_left p"

fun main_rank :: "nat \<Rightarrow> 'a gate_main \<Rightarrow> nat" where
  "main_rank n (Spawning k) = (n - k) + n + 5"
| "main_rank n Releasing = n + 4"
| "main_rank n (Abandoning k) = n + 4"
| "main_rank n (Joining k xs) = n - k + 2"
| "main_rank n (Draining k j) = n - j + 2"
| "main_rank n (Leaving r) = 1"
| "main_rank n (Returned r) = 0"

definition gate_rank :: "'a program list \<Rightarrow> 'a gate \<Rightarrow> nat" where
  "gate_rank ps g = main_rank (length ps) (gt_main g) + sum_list (map client_rank (gt_clients g)) +
    sum_list (map (\<lambda>p. Suc (steps_left p)) (drop (length (gt_clients g)) ps))"

section \<open>What the threads keep\<close>

fun asleep :: "'a client \<Rightarrow> bool" where
  "asleep (Asleep p) \<longleftrightarrow> True"
| "asleep c \<longleftrightarrow> False"

fun main_ok :: "nat \<Rightarrow> nat \<Rightarrow> bool \<Rightarrow> 'a gate_main \<Rightarrow> bool" where
  "main_ok n m started (Spawning k) \<longleftrightarrow> k \<le> n \<and> m = k \<and> \<not> started"
| "main_ok n m started Releasing \<longleftrightarrow> m = n \<and> \<not> started"
| "main_ok n m started (Abandoning k) \<longleftrightarrow> m = k \<and> k < n \<and> \<not> started"
| "main_ok n m started (Joining k xs) \<longleftrightarrow> m = n \<and> k \<le> m \<and> started"
| "main_ok n m started (Draining k j) \<longleftrightarrow> m = k \<and> k < n \<and> j \<le> m \<and> started"
| "main_ok n m started (Leaving r) \<longleftrightarrow> m \<le> n \<and> started"
| "main_ok n m started (Returned r) \<longleftrightarrow> m \<le> n \<and> started"

definition gate_ok :: "'a program list \<Rightarrow> 'a gate \<Rightarrow> bool" where
  "gate_ok ps g \<longleftrightarrow> main_ok (length ps) (length (gt_clients g)) (gt_started g) (gt_main g) \<and>
    (\<forall>p \<in> set ps. bounded p) \<and> (\<forall>c \<in> set (gt_clients g). bounded (client_program c)) \<and>
    (gt_started g \<longrightarrow> (\<forall>c \<in> set (gt_clients g). \<not> asleep c))"

definition gate_over :: "'a gate \<Rightarrow> bool" where
  "gate_over g \<longleftrightarrow> gate_result g \<noteq> None"

lemma gate_over_iff: "gate_over g \<longleftrightarrow> (\<exists>r. gt_main g = Returned r)"
  by (auto simp: gate_over_def gate_result_def split: gate_main.splits)

lemma notified_simps [simp]:
  "client_program (notified c) = client_program c" "client_rank (notified c) = client_rank c"
  "\<not> asleep (notified c)" "result_of (notified c) = result_of c"
  by (cases c; simp)+

lemma wait_for_start_simps [simp]:
  "client_program (wait_for_start b p) = p" "asleep (wait_for_start b p) \<longleftrightarrow> \<not> b"
  by (simp_all add: wait_for_start_def)

lemma gate_ok_main: "gate_ok ps g \<Longrightarrow> gate_ok ps (main_step spawned message ps g)"
  unfolding gate_ok_def main_step_def release_start_def
  by (auto split: gate_main.splits option.splits sum.splits)

text \<open>What one step does to one client: \<open>client_moves started c c'\<close>.\<close>

definition client_moves :: "bool \<Rightarrow> 'a client \<Rightarrow> 'a client \<Rightarrow> bool" where
  "client_moves started c c' \<longleftrightarrow> (bounded (client_program c) \<longrightarrow> bounded (client_program c')) \<and>
    (started \<longrightarrow> \<not> asleep c \<longrightarrow> \<not> asleep c') \<and> (result_of c \<noteq> None \<longrightarrow> c' = c) \<and>
    (bounded (client_program c) \<longrightarrow> client_rank c' \<le> client_rank c \<and>
      (result_of c = None \<longrightarrow> result_of c' \<noteq> None \<longrightarrow> client_rank c' < client_rank c))"

lemma result_of_finished: "result_of c \<noteq> None \<longleftrightarrow> (\<exists>r. c = Running (Done r))"
  by (cases c rule: result_of.cases) simp_all

lemma steps_left_mono: "bounded p \<Longrightarrow> steps_left (fst (solo_step C net p w)) \<le> steps_left p"
  using steps_left_step [of p C net w] by (cases "finished p") auto

lemma client_step_moves:
  assumes "k < length (gt_clients g)"
  obtains c' w' where "client_step C net k g = g\<lparr>gt_clients := (gt_clients g)[k := c'], gt_world := w'\<rparr>"
    "client_moves (gt_started g) (gt_clients g ! k) c'"
proof (cases "gt_clients g ! k")
  case (Checking p)
  then show thesis
    using assms by (intro that [of "gt_world g" "wait_for_start (gt_started g) p"])
      (simp_all add: client_step_def client_moves_def wait_for_start_def)
next
  case (Asleep p)
  moreover from this have "(gt_clients g)[k := Asleep p] = gt_clients g"
    by (metis list_update_id)
  ultimately show thesis
    using assms by (intro that [of "gt_world g" "Asleep p"]) (simp_all add: client_step_def client_moves_def)
next
  case (Running p)
  obtain p' w' where s: "solo_step C net p (gt_world g) = (p', w')"
    by force
  show thesis
  proof (rule that [of w' "Running p'"])
    show "client_step C net k g = g\<lparr>gt_clients := (gt_clients g)[k := Running p'], gt_world := w'\<rparr>"
      using assms s by (simp add: client_step_def Running)
    show "client_moves (gt_started g) (gt_clients g ! k) (Running p')"
      using bounded_step [of p C net "gt_world g"] steps_left_mono [of p C net "gt_world g"]
        steps_left_step [of p C net "gt_world g"] s
      unfolding client_moves_def Running by (cases p) (simp_all add: solo_step_def)
  qed
qed

lemma notified_done: "result_of c \<noteq> None \<Longrightarrow> notified c = c"
  by (cases c rule: result_of.cases) simp_all

lemma spurious_moves:
  assumes "k < length (gt_clients g)"
  obtains c' where "spurious_wakeup k g = g\<lparr>gt_clients := (gt_clients g)[k := c']\<rparr>" "client_moves (gt_started g) (gt_clients g ! k) c'"
  by (rule that [of "notified (gt_clients g ! k)"])
    (use assms notified_done [of "gt_clients g ! k"] in \<open>auto simp: spurious_wakeup_def client_moves_def\<close>)

lemma gate_ok_moves:
  assumes "gate_ok ps g" and "k < length (gt_clients g)" and "client_moves (gt_started g) (gt_clients g ! k) c'"
  shows "gate_ok ps (g\<lparr>gt_clients := (gt_clients g)[k := c'], gt_world := w'\<rparr>)"
  using assms nth_mem [OF assms(2)] unfolding gate_ok_def client_moves_def
  by (auto dest!: set_update_subset_insert [THEN subsetD])

lemma gate_rank_moves:
  assumes "gate_ok ps g" and "k < length (gt_clients g)" and "client_moves (gt_started g) (gt_clients g ! k) c'"
  shows "gate_rank ps (g\<lparr>gt_clients := (gt_clients g)[k := c'], gt_world := w'\<rparr>) + client_rank (gt_clients g ! k) =
    gate_rank ps g + client_rank c'"
proof -
  have "sum_list (map client_rank ((gt_clients g)[k := c'])) + client_rank (gt_clients g ! k) =
      sum_list (map client_rank (gt_clients g)) + client_rank c'"
    using assms(2) elem_le_sum_list [of k "map client_rank (gt_clients g)"] by (simp add: map_update sum_list_update)
  then show ?thesis
    by (simp add: gate_rank_def)
qed

lemma gate_ok_step: "gate_ok ps g \<Longrightarrow> gate_ok ps (gate_step C net spawned message ps ev g)"
proof (cases ev)
  case (ClientStep k)
  assume ok: "gate_ok ps g"
  show ?thesis
  proof (cases "k < length (gt_clients g)")
    case True
    then show ?thesis
      using client_step_moves [OF True, of C net] gate_ok_moves [OF ok True] ClientStep by (metis gate_step.simps(2))
  qed (use ok ClientStep in \<open>simp add: client_step_def\<close>)
next
  case (Spurious k)
  assume ok: "gate_ok ps g"
  show ?thesis
  proof (cases "k < length (gt_clients g)")
    case True
    obtain c' where c': "spurious_wakeup k g = g\<lparr>gt_clients := (gt_clients g)[k := c']\<rparr>" "client_moves (gt_started g) (gt_clients g ! k) c'"
      by (rule spurious_moves [OF True])
    then show ?thesis
      using gate_ok_moves [OF ok True c'(2), of "gt_world g"] Spurious by simp
  qed (use ok Spurious in \<open>simp add: spurious_wakeup_def\<close>)
qed (simp add: gate_ok_main)

text \<open>Who can lower the rank: the main thread before the gate opens, then a client that has not ended.\<close>

definition gate_helpful :: "'a gate \<Rightarrow> gate_event" where
  "gate_helpful g =
    (if gt_started g \<and> (\<exists>k < length (gt_clients g). result_of (gt_clients g ! k) = None)
     then ClientStep (LEAST k. k < length (gt_clients g) \<and> result_of (gt_clients g ! k) = None) else MainStep)"

lemma gate_rank_release: "gate_rank ps (release_start g) = gate_rank ps g"
  by (simp add: gate_rank_def release_start_def comp_def)

lemma gate_rank_main: "gate_rank ps (g\<lparr>gt_main := m\<rparr>) + main_rank (length ps) (gt_main g) = gate_rank ps g + main_rank (length ps) m"
  by (simp add: gate_rank_def)

lemma gate_rank_spawn:
  assumes "length (gt_clients g) < length ps"
  shows "gate_rank ps (g\<lparr>gt_clients := gt_clients g @ [Checking (ps ! length (gt_clients g))], gt_main := m\<rparr>) +
    main_rank (length ps) (gt_main g) = gate_rank ps g + main_rank (length ps) m"
  using Cons_nth_drop_Suc [OF assms, symmetric] by (simp add: gate_rank_def)

lemma main_step_rank:
  assumes ok: "gate_ok ps g" and going: "\<not> gate_over g"
  shows "gate_rank ps (main_step spawned message ps g) < gate_rank ps g \<or>
    main_step spawned message ps g = g \<and> gt_started g \<and> (\<exists>c \<in> set (gt_clients g). result_of c = None)"
proof (cases "gt_main g")
  case (Spawning k)
  then have "length (gt_clients g) = k" "k \<le> length ps"
    using ok by (simp_all add: gate_ok_def)
  then show ?thesis
    using gate_rank_spawn [of g ps "Spawning (Suc k)"] gate_rank_main [of ps "Abandoning k" g] gate_rank_main [of ps Releasing g] Spawning
    by (auto simp: main_step_def)
next
  case Releasing
  then show ?thesis
    using gate_rank_main [of ps "Joining 0 []" "release_start g"] gate_rank_release [of ps g]
    by (simp add: main_step_def) (simp add: release_start_def)
next
  case (Abandoning k)
  then show ?thesis
    using gate_rank_main [of ps "Draining k 0" "release_start g"] gate_rank_release [of ps g]
    by (simp add: main_step_def) (simp add: release_start_def)
next
  case (Joining k xs)
  then have k: "k \<le> length (gt_clients g)" "length (gt_clients g) = length ps" "gt_started g"
    using ok by (simp_all add: gate_ok_def)
  show ?thesis
  proof (cases "k < length (gt_clients g)")
    case True
    then have here: "gt_clients g ! k \<in> set (gt_clients g)"
      by simp
    show ?thesis
    proof (cases "result_of (gt_clients g ! k)")
      case None
      then show ?thesis
        using Joining True here k(3) by (auto simp: main_step_def)
    next
      case (Some r)
      show ?thesis
      proof (cases r)
        case (Inl e)
        then show ?thesis
          using Joining True Some gate_rank_main [of ps "Leaving (Inl e)" g] by (simp add: main_step_def)
      next
        case (Inr x)
        then show ?thesis
          using Joining True Some k(2) gate_rank_main [of ps "Joining (Suc k) (xs @ [x])" g] by (simp add: main_step_def) linarith
      qed
    qed
  next
    case False
    then show ?thesis
      using Joining gate_rank_main [of ps "Leaving (Inr xs)" g] by (simp add: main_step_def)
  qed
next
  case (Draining k j)
  then have k: "j \<le> length (gt_clients g)" "length (gt_clients g) < length ps" "gt_started g"
    using ok by (simp_all add: gate_ok_def)
  show ?thesis
  proof (cases "j < length (gt_clients g)")
    case True
    then have "gt_clients g ! j \<in> set (gt_clients g)"
      by simp
    then show ?thesis
      using Draining True k gate_rank_main [of ps "Draining k (Suc j)" g]
      by (cases "result_of (gt_clients g ! j)") (auto simp: main_step_def)
  next
    case False
    then show ?thesis
      using Draining gate_rank_main [of ps "Leaving (Inl (RunFailed (message k)))" g] by (simp add: main_step_def)
  qed
next
  case (Leaving r)
  then show ?thesis
    using ok gate_rank_main [of ps "Returned r" g] by (auto simp: main_step_def gate_ok_def list_all_iff)
next
  case (Returned r)
  then show ?thesis
    using going by (simp add: gate_over_iff)
qed

lemma gate_step_waits:
  assumes ok: "gate_ok ps g" and going: "\<not> gate_over g"
  shows "gate_rank ps (gate_step C net spawned message ps ev g) < gate_rank ps g \<or>
    gate_rank ps (gate_step C net spawned message ps ev g) = gate_rank ps g \<and>
    gate_helpful (gate_step C net spawned message ps ev g) = gate_helpful g"
proof -
  have moved: "gate_rank ps h < gate_rank ps g \<or> gate_rank ps h = gate_rank ps g \<and> gate_helpful h = gate_helpful g"
    if k: "k < length (gt_clients g)" and h: "h = g\<lparr>gt_clients := (gt_clients g)[k := c'], gt_world := w'\<rparr>"
      and c': "client_moves (gt_started g) (gt_clients g ! k) c'" for h k c' w'
  proof -
    have b: "bounded (client_program (gt_clients g ! k))"
      using ok nth_mem [OF k] by (simp add: gate_ok_def)
    note rank = gate_rank_moves [OF ok k c', of w', folded h]
    show ?thesis
    proof (cases "client_rank c' < client_rank (gt_clients g ! k)")
      case False
      then have "client_rank c' = client_rank (gt_clients g ! k)" "result_of c' = None \<longleftrightarrow> result_of (gt_clients g ! k) = None"
        using c' b by (auto simp: client_moves_def)
      moreover from this have "result_of ((gt_clients g)[k := c'] ! j) = None \<longleftrightarrow> result_of (gt_clients g ! j) = None" for j
        using k by (cases "j = k") simp_all
      ultimately show ?thesis
        using rank by (simp add: gate_helpful_def h)
    qed (use rank in linarith)
  qed
  show ?thesis
  proof (cases ev)
    case MainStep
    then show ?thesis
      using main_step_rank [OF ok going, of spawned message] by auto
  next
    case (ClientStep k)
    show ?thesis
    proof (cases "k < length (gt_clients g)")
      case True
      then show ?thesis
        using client_step_moves [OF True, of C net] moved [OF True] ClientStep by (metis gate_step.simps(2))
    qed (simp add: ClientStep client_step_def)
  next
    case (Spurious k)
    show ?thesis
    proof (cases "k < length (gt_clients g)")
      case True
      obtain c' where c': "spurious_wakeup k g = g\<lparr>gt_clients := (gt_clients g)[k := c']\<rparr>" "client_moves (gt_started g) (gt_clients g ! k) c'"
        by (rule spurious_moves [OF True])
      then show ?thesis
        using moved [OF True _ c'(2), of _ "gt_world g"] Spurious by simp
    qed (simp add: Spurious spurious_wakeup_def)
  qed
qed

lemma gate_step_helps:
  assumes ok: "gate_ok ps g" and going: "\<not> gate_over g"
  shows "gate_rank ps (gate_step C net spawned message ps (gate_helpful g) g) < gate_rank ps g"
proof (cases "gt_started g \<and> (\<exists>k < length (gt_clients g). result_of (gt_clients g ! k) = None)")
  case True
  define k where "k = (LEAST k. k < length (gt_clients g) \<and> result_of (gt_clients g ! k) = None)"
  have k: "k < length (gt_clients g)" "result_of (gt_clients g ! k) = None"
    unfolding k_def by (metis (mono_tags, lifting) LeastI True)+
  let ?c = "gt_clients g ! k"
  have "?c \<in> set (gt_clients g)"
    using k(1) by simp
  then have c: "bounded (client_program ?c)" "\<not> asleep ?c"
    using ok True by (auto simp: gate_ok_def)
  obtain c' w' where step: "client_step C net k g = g\<lparr>gt_clients := (gt_clients g)[k := c'], gt_world := w'\<rparr>"
    "client_moves (gt_started g) ?c c'"
    by (rule client_step_moves [OF k(1)])
  have "client_rank c' < client_rank ?c"
  proof (cases ?c)
    case (Checking p)
    have "(gt_clients g)[k := c'] ! k = wait_for_start True p"
      using arg_cong [OF step(1), of "\<lambda>g. gt_clients g ! k"] True k(1) Checking by (simp add: client_step_def)
    then show ?thesis
      using k(1) Checking by (simp add: wait_for_start_def)
  next
    case (Asleep p)
    then show ?thesis
      using c(2) by simp
  next
    case (Running p)
    then have "\<not> finished p" "bounded p"
      using k(2) c(1) by (cases p; simp)+
    then have "steps_left (fst (solo_step C net p (gt_world g))) < steps_left p"
      by (rule steps_left_step [rotated])
    moreover have "(gt_clients g)[k := c'] ! k = Running (fst (solo_step C net p (gt_world g)))"
      using arg_cong [OF step(1), of "\<lambda>g. gt_clients g ! k"] k(1) Running by (simp add: client_step_def split: prod.splits)
    ultimately show ?thesis
      using k(1) Running by simp
  qed
  moreover have "gate_helpful g = ClientStep k"
    using True by (simp add: gate_helpful_def k_def)
  ultimately show ?thesis
    using gate_rank_moves [OF ok k(1) step(2), of w'] step(1) by simp
next
  case False
  then have "gate_helpful g = MainStep"
    by (auto simp: gate_helpful_def)
  moreover have "\<not> (gt_started g \<and> (\<exists>c \<in> set (gt_clients g). result_of c = None))"
    using False by (auto simp: in_set_conv_nth)
  ultimately show ?thesis
    using main_step_rank [OF ok going, of spawned message] by auto
qed

interpretation gated: fair_run "gate_step C net spawned message ps" "gate_ok ps" gate_over "gate_rank ps" gate_helpful
  for C net spawned message ps
proof
  show "gate_ok ps g \<Longrightarrow> gate_ok ps (gate_step C net spawned message ps e g)" for e g
    by (rule gate_ok_step)
  show "gate_ok ps g \<Longrightarrow> gate_over g \<Longrightarrow> gate_over (gate_step C net spawned message ps e g)" for e g
    by (cases e) (auto simp: gate_over_iff main_step_def client_step_def spurious_wakeup_def split: client.splits prod.splits)
qed (simp_all add: gate_step_helps gate_step_waits)

lemma gate_start_ok: "\<forall>p \<in> set ps. bounded p \<Longrightarrow> gate_ok ps (gate_start w)"
  by (simp add: gate_ok_def gate_start_def new_start_gate_def)

lemma gate_run_ok: "\<forall>p \<in> set ps. bounded p \<Longrightarrow> gate_ok ps (gate_run C net spawned message ps events w)"
  unfolding gate_run_def by (rule gated.good_fold [OF gate_start_ok])

lemma gate_helpful_agent:
  assumes "gate_ok ps g"
  shows "gate_helpful g \<in> set (MainStep # map ClientStep [0..<length ps])"
proof (cases "gate_helpful g = MainStep")
  case False
  then obtain k where k: "gate_helpful g = ClientStep k" "k < length (gt_clients g)"
    by (auto simp: gate_helpful_def split: if_splits) (metis (mono_tags, lifting) LeastI)
  moreover have "length (gt_clients g) \<le> length ps"
    using assms by (cases "gt_main g") (simp_all add: gate_ok_def)
  ultimately show ?thesis
    by simp
qed simp

section \<open>What the call returns\<close>

text \<open>Results that the ended clients have given, and any for the others.\<close>

definition known_results :: "(controller_error + 'a) list \<Rightarrow> 'a client list \<Rightarrow> bool" where
  "known_results rs cs \<longleftrightarrow> list_all2 (\<lambda>r c. \<forall>x. result_of c = Some x \<longrightarrow> r = x) rs cs"

fun main_knows :: "(nat \<Rightarrow> bool) \<Rightarrow> (nat \<Rightarrow> string) \<Rightarrow> nat \<Rightarrow> 'a client list \<Rightarrow> 'a gate_main \<Rightarrow> bool" where
  "main_knows spawned message n cs (Spawning k) \<longleftrightarrow> (\<forall>j < k. spawned j)"
| "main_knows spawned message n cs Releasing \<longleftrightarrow> (\<forall>j < n. spawned j)"
| "main_knows spawned message n cs (Joining k xs) \<longleftrightarrow> (\<forall>j < n. spawned j) \<and> (\<forall>rs. known_results rs cs \<longrightarrow> mapE id (take k rs) = Inr xs)"
| "main_knows spawned message n cs (Abandoning k) \<longleftrightarrow> \<not> spawned k \<and> (\<forall>j < k. spawned j)"
| "main_knows spawned message n cs (Draining k j) \<longleftrightarrow> \<not> spawned k \<and> (\<forall>j < k. spawned j)"
| "main_knows spawned message n cs (Leaving r) \<longleftrightarrow>
    (\<forall>j < n. spawned j) \<and> length cs = n \<and> (\<forall>rs. known_results rs cs \<longrightarrow> mapE id rs = r) \<or>
    (\<exists>k < n. \<not> spawned k \<and> (\<forall>j < k. spawned j) \<and> r = Inl (RunFailed (message k)))"
| "main_knows spawned message n cs (Returned r) \<longleftrightarrow> list_all (\<lambda>c. result_of c \<noteq> None) cs \<and>
    ((\<forall>j < n. spawned j) \<and> length cs = n \<and> (\<forall>rs. known_results rs cs \<longrightarrow> mapE id rs = r) \<or>
     (\<exists>k < n. \<not> spawned k \<and> (\<forall>j < k. spawned j) \<and> r = Inl (RunFailed (message k))))"

definition gate_follows ::
    "crypto \<Rightarrow> network \<Rightarrow> (nat \<Rightarrow> bool) \<Rightarrow> (nat \<Rightarrow> string) \<Rightarrow> 'a program list \<Rightarrow> world \<Rightarrow> 'a gate \<Rightarrow> bool" where
  "gate_follows C net spawned message ps w g \<longleftrightarrow> gate_ok ps g \<and>
    main_knows spawned message (length ps) (gt_clients g) (gt_main g) \<and>
    (\<exists>schedule. run_crew C net schedule (w, ps) =
      (gt_world g, map client_program (gt_clients g) @ drop (length (gt_clients g)) ps))"

lemma known_results_update:
  assumes "known_results rs (cs[k := c'])" and "k < length cs" and "result_of (cs ! k) \<noteq> None \<longrightarrow> c' = cs ! k"
  shows "known_results rs cs"
  unfolding known_results_def list_all2_conv_all_nth
proof (intro conjI allI impI)
  show "length rs = length cs"
    using assms(1) by (simp add: known_results_def list_all2_conv_all_nth)
  fix i x assume "i < length rs" "result_of (cs ! i) = Some x"
  then show "rs ! i = x"
    using assms by (cases "i = k") (auto simp: known_results_def list_all2_conv_all_nth)
qed

lemma known_results_notified: "known_results rs (map notified cs) = known_results rs cs"
  by (simp add: known_results_def list_all2_map2)

lemma main_knows_update:
  assumes "main_knows spawned message n cs m" and "k < length cs" and "result_of (cs ! k) \<noteq> None \<longrightarrow> c' = cs ! k"
  shows "main_knows spawned message n (cs[k := c']) m"
proof -
  have "known_results rs (cs[k := c']) \<Longrightarrow> known_results rs cs" for rs
    by (rule known_results_update [OF _ assms(2,3)])
  then have known: "\<forall>rs. known_results rs cs \<longrightarrow> P rs \<Longrightarrow> \<forall>rs. known_results rs (cs[k := c']) \<longrightarrow> P rs" for P
    by blast
  show ?thesis
  proof (cases m)
    case (Joining j xs)
    then show ?thesis
      using assms(1) known [of "\<lambda>rs. mapE id (take j rs) = Inr xs"] by simp
  next
    case (Leaving r)
    then have "main_knows spawned message n cs (Leaving r)"
      using assms(1) by simp
    then show ?thesis
      unfolding Leaving main_knows.simps length_list_update using known [of "\<lambda>rs. mapE id rs = r"] by blast
  next
    case (Returned r)
    then have "list_all (\<lambda>c. result_of c \<noteq> None) cs"
      using assms(1) by simp
    then have "c' = cs ! k"
      using assms(2,3) by (auto simp: list_all_length)
    then show ?thesis
      using assms(1) by simp
  qed (use assms(1) in simp_all)
qed

lemma mapE_take_Suc:
  fixes rs :: "('e + 'a) list"
  assumes "mapE id (take k rs) = Inr xs" and "k < length rs"
  shows "rs ! k = Inr x \<Longrightarrow> mapE id (take (Suc k) rs) = Inr (xs @ [x])" and "rs ! k = Inl e \<Longrightarrow> mapE id rs = Inl e"
proof -
  have append: "mapE id (ys @ zs) = bindE (mapE id ys) (\<lambda>as. bindE (mapE id zs) (\<lambda>bs. Inr (as @ bs)))"
    for ys zs :: "('e + 'a) list"
    by (induction ys) (simp_all add: bindE_def split: sum.splits)
  show "rs ! k = Inr x \<Longrightarrow> mapE id (take (Suc k) rs) = Inr (xs @ [x])"
    using assms by (simp add: take_Suc_conv_app_nth append)
  show "rs ! k = Inl e \<Longrightarrow> mapE id rs = Inl e"
    by (subst id_take_nth_drop [OF assms(2)]) (use append [of "take k rs" "rs ! k # drop (Suc k) rs"] assms(1) in simp)
qed

lemma main_step_knows:
  assumes ok: "gate_ok ps g" and knows: "main_knows spawned message (length ps) (gt_clients g) (gt_main g)"
  defines "h \<equiv> main_step spawned message ps g"
  shows "main_knows spawned message (length ps) (gt_clients h) (gt_main h)"
proof (cases "gt_main g")
  case (Joining k xs)
  have len: "length (gt_clients g) = length ps"
    using ok Joining by (simp add: gate_ok_def)
  have known: "mapE id (take k rs) = Inr xs" "length rs = length ps"
    "k < length ps \<Longrightarrow> result_of (gt_clients g ! k) = Some x \<Longrightarrow> rs ! k = x" if "known_results rs (gt_clients g)" for rs x
    using that knows len Joining by (auto simp: known_results_def list_all2_conv_all_nth)
  show ?thesis
  proof (cases "k < length (gt_clients g)")
    case True
    show ?thesis
    proof (cases "result_of (gt_clients g ! k)")
      case None
      then show ?thesis
        using knows Joining True by (simp add: h_def main_step_def)
    next
      case (Some r)
      show ?thesis
      proof (cases r)
        case (Inl e)
        then have "mapE id rs = Inl e" if "known_results rs (gt_clients g)" for rs
          using known [OF that] mapE_take_Suc(2) True len Some by metis
        then show ?thesis
          using knows Joining True Some Inl len by (simp add: h_def main_step_def)
      next
        case (Inr x)
        then have "mapE id (take (Suc k) rs) = Inr (xs @ [x])" if "known_results rs (gt_clients g)" for rs
          using known [OF that] mapE_take_Suc(1) True len Some by metis
        then show ?thesis
          using knows Joining True Some Inr by (simp add: h_def main_step_def)
      qed
    qed
  next
    case False
    then have "mapE id rs = Inr xs" if "known_results rs (gt_clients g)" for rs
      using known(1,2) [OF that] len by simp
    then show ?thesis
      using knows Joining False len by (simp add: h_def main_step_def)
  qed
next
  case (Draining k j)
  then have "k < length ps"
    using ok by (simp add: gate_ok_def)
  then show ?thesis
    using knows Draining by (auto simp: h_def main_step_def split: option.splits)
next
  case (Spawning k)
  then show ?thesis
    using knows by (auto simp: h_def main_step_def less_Suc_eq)
qed (use knows in \<open>simp_all add: h_def main_step_def release_start_def known_results_notified\<close>)

lemma gate_start_follows:
  "\<forall>p \<in> set ps. bounded p \<Longrightarrow> gate_follows C net spawned message ps w (gate_start w)"
  unfolding gate_follows_def by (simp add: gate_start_ok) (auto simp: gate_start_def run_crew_def intro: exI [of _ "[]"])

text \<open>A step of a running client is a step of the crew; no other step changes the programs.\<close>

lemma run_crew_snoc: "run_crew C net (schedule @ [k]) crew = crew_step C net k (run_crew C net schedule crew)"
  by (simp add: run_crew_def)

lemma gate_follows_client:
  assumes "gate_follows C net spawned message ps w g"
  shows "gate_follows C net spawned message ps w (client_step C net k g)"
proof (cases "k < length (gt_clients g)")
  case True
  let ?cs = "gt_clients g"
  obtain schedule where ok: "gate_ok ps g" and knows: "main_knows spawned message (length ps) ?cs (gt_main g)"
    and run: "run_crew C net schedule (w, ps) = (gt_world g, map client_program ?cs @ drop (length ?cs) ps)"
    using assms by (auto simp: gate_follows_def)
  obtain c' w' where step: "client_step C net k g = g\<lparr>gt_clients := ?cs[k := c'], gt_world := w'\<rparr>"
    "client_moves (gt_started g) (?cs ! k) c'"
    by (rule client_step_moves [OF True])
  have "gate_ok ps (client_step C net k g)"
    using gate_ok_step [OF ok, of C net spawned message "ClientStep k"] by simp
  moreover have "main_knows spawned message (length ps) (?cs[k := c']) (gt_main g)"
    using main_knows_update [OF knows True] step(2) by (simp add: client_moves_def)
  moreover have "\<exists>schedule. run_crew C net schedule (w, ps) = (w', map client_program (?cs[k := c']) @ drop (length ?cs) ps)"
  proof (cases "?cs ! k")
    case (Running p)
    then obtain p' where "solo_step C net p (gt_world g) = (p', w')" "c' = Running p'"
      using arg_cong [OF step(1), of "\<lambda>g. (gt_clients g ! k, gt_world g)"] True by (auto simp: client_step_def split: prod.splits)
    then show ?thesis
      using run True Running
      by (intro exI [of _ "schedule @ [k]"]) (simp add: run_crew_snoc crew_step_def nth_append map_update list_update_append)
  next
    case (Checking p)
    then have "c' = wait_for_start (gt_started g) p" "w' = gt_world g"
      using arg_cong [OF step(1), of "\<lambda>g. (gt_clients g ! k, gt_world g)"] True by (auto simp: client_step_def)
    then have "map client_program (?cs[k := c']) = map client_program ?cs" "w' = gt_world g"
      using Checking True by (simp_all add: map_update list_update_same_conv)
    then show ?thesis
      using run by metis
  next
    case (Asleep p)
    then have "?cs[k := c'] = ?cs" "w' = gt_world g"
      using arg_cong [OF step(1), of "\<lambda>g. (gt_clients g, gt_world g)"] True by (auto simp: client_step_def)
    then show ?thesis
      using run by metis
  qed
  ultimately show ?thesis
    unfolding gate_follows_def step(1) by simp
qed (use assms in \<open>simp add: client_step_def\<close>)

lemma gate_follows_main:
  assumes "gate_follows C net spawned message ps w g"
  shows "gate_follows C net spawned message ps w (main_step spawned message ps g)"
proof -
  let ?h = "main_step spawned message ps g"
  obtain schedule where ok: "gate_ok ps g" and knows: "main_knows spawned message (length ps) (gt_clients g) (gt_main g)"
    and run: "run_crew C net schedule (w, ps) = (gt_world g, map client_program (gt_clients g) @ drop (length (gt_clients g)) ps)"
    using assms by (auto simp: gate_follows_def)
  have "map client_program (gt_clients ?h) @ drop (length (gt_clients ?h)) ps =
      map client_program (gt_clients g) @ drop (length (gt_clients g)) ps" "gt_world ?h = gt_world g"
    using ok Cons_nth_drop_Suc [of "length (gt_clients g)" ps]
    by (auto simp: gate_ok_def main_step_def release_start_def comp_def split: gate_main.splits option.splits sum.splits)
  then show ?thesis
    using run gate_ok_main [OF ok] main_step_knows [OF ok knows] unfolding gate_follows_def by metis
qed

lemma gate_follows_spurious:
  assumes "gate_follows C net spawned message ps w g"
  shows "gate_follows C net spawned message ps w (spurious_wakeup k g)"
proof (cases "k < length (gt_clients g)")
  case True
  let ?h = "spurious_wakeup k g"
  obtain schedule where ok: "gate_ok ps g" and knows: "main_knows spawned message (length ps) (gt_clients g) (gt_main g)"
    and run: "run_crew C net schedule (w, ps) = (gt_world g, map client_program (gt_clients g) @ drop (length (gt_clients g)) ps)"
    using assms by (auto simp: gate_follows_def)
  have h: "?h = g\<lparr>gt_clients := (gt_clients g)[k := notified (gt_clients g ! k)]\<rparr>"
    using True by (simp add: spurious_wakeup_def)
  have "map client_program (gt_clients ?h) = map client_program (gt_clients g)"
    using True by (simp add: h map_update list_update_same_conv)
  moreover have "main_knows spawned message (length ps) (gt_clients ?h) (gt_main ?h)"
    using main_knows_update [OF knows True] notified_done [of "gt_clients g ! k"] by (simp add: h)
  moreover have "gate_ok ps ?h"
    using gate_ok_step [OF ok, of C net spawned message "Spurious k"] by simp
  ultimately show ?thesis
    using run unfolding gate_follows_def by (metis gate.select_convs(3,4) gate.surjective gate.update_convs(3) h length_list_update)
qed (use assms in \<open>simp add: spurious_wakeup_def\<close>)

lemma gate_run_follows:
  assumes "\<forall>p \<in> set ps. bounded p"
  shows "gate_follows C net spawned message ps w (gate_run C net spawned message ps events w)"
proof -
  have "gate_follows C net spawned message ps w (gate_step C net spawned message ps ev g)"
    if "gate_follows C net spawned message ps w g" for ev g
    using that gate_follows_main gate_follows_client gate_follows_spurious by (cases ev) simp_all
  then have "gate_follows C net spawned message ps w g \<Longrightarrow>
      gate_follows C net spawned message ps w (fold (gate_step C net spawned message ps) events g)" for g
    by (induction events arbitrary: g) simp_all
  then show ?thesis
    using gate_start_follows [OF assms] by (simp add: gate_run_def)
qed

text \<open>The programs that have ended join to their results.\<close>

lemma finish_done: "finish_crew C net (map Done rs) w = (rs, w)"
  by (induction rs) simp_all

lemma gate_returns:
  assumes bounded: "\<forall>p \<in> set ps. bounded p" and result: "gate_result (gate_run C net spawned message ps events w) = Some (r, w')"
  shows "(\<forall>k < length ps. spawned k) \<and> (\<exists>schedule. join_crew C net schedule ps w = (r, w')) \<or>
    (\<exists>k < length ps. \<not> spawned k \<and> (\<forall>j < k. spawned j) \<and> r = Inl (RunFailed (message k)))"
proof -
  let ?g = "gate_run C net spawned message ps events w"
  obtain schedule where main: "gt_main ?g = Returned r" "gt_world ?g = w'"
    and knows: "main_knows spawned message (length ps) (gt_clients ?g) (gt_main ?g)"
    and run: "run_crew C net schedule (w, ps) = (gt_world ?g, map client_program (gt_clients ?g) @ drop (length (gt_clients ?g)) ps)"
    using gate_run_follows [OF bounded, of C net spawned message w events] result
    by (auto simp: gate_follows_def gate_result_def split: gate_main.splits)
  show ?thesis
  proof (cases "\<exists>k < length ps. \<not> spawned k \<and> (\<forall>j < k. spawned j) \<and> r = Inl (RunFailed (message k))")
    case False
    define rs where "rs = map (the \<circ> result_of) (gt_clients ?g)"
    have all: "\<forall>k < length ps. spawned k" "length (gt_clients ?g) = length ps"
      and join: "\<forall>rs. known_results rs (gt_clients ?g) \<longrightarrow> mapE id rs = r"
      and ended: "\<forall>c \<in> set (gt_clients ?g). result_of c \<noteq> None"
      using knows main(1) False by (auto simp: list_all_iff)
    have "client_program c = Done (the (result_of c))" if "result_of c \<noteq> None" for c
      using that by (cases c rule: result_of.cases) simp_all
    then have "\<forall>c \<in> set (gt_clients ?g). client_program c = Done (the (result_of c))"
      using ended by blast
    then have "map client_program (gt_clients ?g) = map Done rs"
      by (simp add: rs_def)
    moreover have "known_results rs (gt_clients ?g)"
      by (auto simp: known_results_def rs_def list_all2_conv_all_nth)
    ultimately have "join_crew C net schedule ps w = (r, w')"
      using run join all(2) main(2) by (simp add: join_crew_def finish_done)
    then show ?thesis
      using all(1) by blast
  qed blast
qed

section \<open>The call returns\<close>

text \<open>In every fair order of the threads.\<close>

definition fair_order :: "nat \<Rightarrow> (nat \<Rightarrow> gate_event) \<Rightarrow> bool" where
  "fair_order n \<sigma> \<longleftrightarrow> (\<forall>agent \<in> set (MainStep # map ClientStep [0..<n]). \<forall>m. \<exists>i \<ge> m. \<sigma> i = agent)"

lemma gate_fair_returns:
  assumes bounded: "\<forall>p \<in> set ps. bounded p" and fair: "fair_order (length ps) \<sigma>"
  obtains n r w' where "gate_result (gate_run C net spawned message ps (map \<sigma> [0..<n]) w) = Some (r, w')"
proof -
  have "\<exists>n. gate_over (fold (gate_step C net spawned message ps) (map \<sigma> [0..<n]) (gate_start w))"
    by (rule gated.fair_ends [OF _ gate_start_ok [OF bounded]])
      (use gate_helpful_agent fair in \<open>unfold fair_order_def, blast\<close>)
  then show thesis
    using that by (auto simp: gate_over_def gate_run_def)
qed

text \<open>And after any beginning, when the threads then step in turn.\<close>

lemma gate_start_rank:
  assumes "\<forall>p \<in> set ps. ends_within p 11"
  shows "gate_rank ps (gate_start w) \<le> 14 * length ps + 5"
proof -
  have "sum_list (map (\<lambda>p. Suc (steps_left p)) ps) \<le> 12 * length ps"
    using assms steps_left_le by (intro sum_list_bound) fastforce
  then show ?thesis
    by (simp add: gate_rank_def gate_start_def)
qed

lemma gate_completes:
  assumes short: "\<forall>p \<in> set ps. ends_within p 11"
  obtains r w' where "gate_result (gate_run C net spawned message ps (events @ in_turn (length ps)) w) = Some (r, w')"
    "gated_crew C net spawned message events ps w = (r, w')"
proof -
  let ?step = "gate_step C net spawned message ps" and ?turn = "MainStep # map ClientStep [0..<length ps]"
  have "\<forall>p \<in> set ps. bounded p"
    using short by (auto simp: bounded_def)
  note start = gate_start_ok [OF this, of w]
  let ?g = "fold ?step events (gate_start w)"
  have "gate_over ?g \<or> gate_rank ps ?g < 14 * length ps + 6"
    using gated.rank_fold [OF start, of C net spawned message events] gate_start_rank [OF short, of w] by linarith
  moreover have "gate_over (fold ?step (concat (replicate (14 * length ps + 6) ?turn)) ?g)"
    if "gate_rank ps ?g < 14 * length ps + 6"
    by (rule gated.rounds_end [OF gate_helpful_agent gated.good_fold [OF start] that])
  ultimately have "gate_over (fold ?step (in_turn (length ps)) ?g)"
    using gated.over_fold [OF gated.good_fold [OF start]] unfolding in_turn_def by blast
  then obtain r w' where "gate_result (fold ?step (in_turn (length ps)) ?g) = Some (r, w')"
    by (auto simp: gate_over_def)
  then show thesis
    by (intro that [of r w']) (simp_all add: gate_run_def gated_crew_def Let_def)
qed

lemma gated_crew_joins:
  assumes "\<forall>p \<in> set ps. ends_within p 11"
  obtains schedule where "\<forall>k < length ps. spawned k" "gated_crew C net spawned message events ps w = join_crew C net schedule ps w"
  | k w' where "k < length ps" "\<not> spawned k" "\<forall>j < k. spawned j" "gated_crew C net spawned message events ps w = (Inl (RunFailed (message k)), w')"
proof -
  obtain r w' where r: "gate_result (gate_run C net spawned message ps (events @ in_turn (length ps)) w) = Some (r, w')"
    "gated_crew C net spawned message events ps w = (r, w')"
    by (rule gate_completes [OF assms])
  have "\<forall>p \<in> set ps. bounded p"
    using assms by (auto simp: bounded_def)
  from gate_returns [OF this r(1)] show thesis
    using that r(2) by metis
qed

lemma finalize_programs_end: "\<forall>p \<in> set (finalize_programs C ports elapsed manifest transfers). ends_within p 11"
  by (auto simp: finalize_programs_def finalize_program_ends)

lemma finalize_programs_length [simp]: "length (finalize_programs C ports elapsed manifest transfers) = length transfers"
  by (simp add: finalize_programs_def)

end
