(* ===== verification/Concurrent.thy ===== *)
theory Concurrent
  imports Gate
begin

text \<open>
  Clients that spend different cells do not disturb each other: however the requests of their
  threads interleave, every one of them finalizes its transfer.
\<close>

section \<open>Jobs and the validators' readiness for them\<close>

record job =
  jb_tx :: tx
  jb_auth :: user_auth
  jb_round :: u64
  jb_elapsed :: nat
  jb_intent :: digest
  jb_proposal :: proposal

definition job_key :: "crypto \<Rightarrow> job \<Rightarrow> digest" where
  "job_key C J = conflict_key C (cell_reference (tx_input (jb_tx J)))"

definition job_ok :: "crypto \<Rightarrow> u64 \<Rightarrow> job \<Rightarrow> bool" where
  "job_ok C e J \<longleftrightarrow> verify_user_auth C (jb_tx J) (jb_auth J) (lab_committee C e) = Inr () \<and>
    intent_hash C (jb_tx J) = Inr (jb_intent J) \<and>
    make_proposal C (lab_committee C e) (jb_round J) (jb_tx J) (jb_auth J) None = Inr (jb_proposal J) \<and>
    pr_tx (jb_proposal J) = jb_tx J \<and> pr_round (jb_proposal J) = jb_round J \<and>
    pr_intent (jb_proposal J) = jb_intent J \<and> pr_justify (jb_proposal J) = None"

definition seat :: "crypto \<Rightarrow> u64 \<Rightarrow> (nat \<Rightarrow> node_config) \<Rightarrow> job \<Rightarrow> nat \<Rightarrow> nat \<Rightarrow> node_server \<Rightarrow> bool" where
  "seat C e configs J b i n \<longleftrightarrow> nc_index (configs i) = of_nat i \<and> nc_epoch (configs i) = e \<and>
    voter C (configs i) (job_key C J) (jb_round J) (jb_intent J) b n \<and>
    live_cell (ns_state n) (cell_reference (tx_input (jb_tx J))) = Some (tx_input (jb_tx J))"

definition seats :: "crypto \<Rightarrow> u64 \<Rightarrow> (nat \<Rightarrow> node_config) \<Rightarrow> job set \<Rightarrow> nat \<Rightarrow> world \<Rightarrow> bool" where
  "seats C e configs jobs b w \<longleftrightarrow> N \<le> length (w_nodes w) \<and>
    (\<forall>J \<in> jobs. \<forall>i \<in> set HONEST_INDICES. seat C e configs J b i (w_nodes w ! i))"

lemma voter_weaken: "voter C config c r x b n \<Longrightarrow> b' \<le> b \<Longrightarrow> voter C config c r x b' n"
  by (auto simp: voter_def)

lemma seat_requests:
  assumes job: "job_ok C e J"
  shows "\<exists>payload. encode_request (Prevote (jb_proposal J)) = Inr payload"
    and "valid_qc C pq (lab_committee C e) PHASE_PREVOTE (jb_round J) (job_key C J) (jb_intent J) None \<Longrightarrow>
      \<exists>payload. encode_request (Precommit (jb_proposal J) pq) = Inr payload"
proof -
  have "valid_tx C (jb_tx J) (lab_committee C e)"
    using job by (simp add: job_ok_def verify_user_auth_iff)
  then have outs: "tx_outputs (jb_tx J) \<noteq> []" "length (tx_outputs (jb_tx J)) \<le> 8"
    by (simp_all add: valid_tx_def)
  obtain bs where bs: "put_proposal (jb_proposal J) = Inr bs" "length bs \<le> 900"
    by (rule put_proposal_ok [of "jb_proposal J"]) (use job outs in \<open>simp_all add: job_ok_def\<close>)
  then show "\<exists>payload. encode_request (Prevote (jb_proposal J)) = Inr payload"
    by (auto simp: encode_request_def MAX_FRAME_LEN_def intro!: exact_encode_ok)
  assume "valid_qc C pq (lab_committee C e) PHASE_PREVOTE (jb_round J) (job_key C J) (jb_intent J) None"
  then obtain qb where "put_qc pq = Inr qb" "length qb \<le> 1600"
    by (rule put_qc_ok) simp
  then show "\<exists>payload. encode_request (Precommit (jb_proposal J) pq) = Inr payload"
    using bs by (auto simp: encode_request_def MAX_FRAME_LEN_def intro!: exact_encode_ok)
qed

lemma job_proposal_verifies:
  assumes sig: "signatures_verify C" and job: "job_ok C e J"
  shows "verify_proposal C (jb_proposal J) (lab_committee C e) = Inr ()"
proof -
  have "make_proposal C (lab_committee C e) (jb_round J) (jb_tx J) (jb_auth J) None = Inr (jb_proposal J)"
    using job by (simp add: job_ok_def)
  then show ?thesis
    by (rule make_proposal_verifies [OF sig])
qed

lemma seat_prevote:
  assumes sig: "signatures_verify C" and job: "job_ok C e J" and n: "seat C e configs J (Suc b) i n"
  obtains v n' where "handle_request C None (Prevote (jb_proposal J)) n = (Inr (VoteResponse v, False), n')"
    "v_signer_index v = of_nat i" "seat C e configs J b i n'"
    "counts_for C e PHASE_PREVOTE (jb_round J) (job_key C J) (jb_intent J) None v"
    "vote_digest (ns_store n') (job_key C J) (jb_round J) PHASE_PREVOTE = Some (jb_intent J)"
proof -
  have p: "verify_proposal C (jb_proposal J) (lab_committee C (nc_epoch (configs i))) = Inr ()"
    using job_proposal_verifies [OF sig job] n by (simp add: seat_def)
  show thesis
    using that prevote_succeeds [OF sig, of "configs i" "jb_proposal J" b n] p n job
    unfolding seat_def job_ok_def job_key_def by metis
qed

lemma seat_precommit:
  assumes sig: "signatures_verify C" and job: "job_ok C e J" and n: "seat C e configs J (Suc b) i n"
    and pq: "valid_qc C pq (lab_committee C e) PHASE_PREVOTE (jb_round J) (job_key C J) (jb_intent J) None"
    and d: "qc_digest C pq (lab_committee C e) = Inr d" "d \<noteq> zero_array"
    and voted: "vote_digest (ns_store n) (job_key C J) (jb_round J) PHASE_PREVOTE = Some (jb_intent J)"
  obtains v n' where "handle_request C None (Precommit (jb_proposal J) pq) n = (Inr (VoteResponse v, False), n')"
    "v_signer_index v = of_nat i" "seat C e configs J b i n'"
    "counts_for C e PHASE_PRECOMMIT (jb_round J) (job_key C J) (jb_intent J) (Some d) v"
proof -
  have p: "verify_proposal C (jb_proposal J) (lab_committee C (nc_epoch (configs i))) = Inr ()"
    using job_proposal_verifies [OF sig job] n by (simp add: seat_def)
  show thesis
    using that precommit_succeeds [OF sig, of "configs i" "jb_proposal J" b n pq d] p n job pq d voted
    unfolding seat_def job_ok_def job_key_def by metis
qed

lemma seat_other:
  assumes "handle_request C None request n = (res, n')" and "request = Prevote (jb_proposal J) \<or> request = Precommit (jb_proposal J) q"
    and job: "job_ok C e J" and own: "seat C e configs J b i n'" and other: "seat C e configs J' (Suc b) i n"
    and key: "job_key C J' \<noteq> job_key C J"
  shows "seat C e configs J' b i n'" and "vote_digest (ns_store n') (job_key C J') r p = vote_digest (ns_store n) (job_key C J') r p"
proof -
  have "job_key C J' \<noteq> conflict_key C (cell_reference (tx_input (pr_tx (jb_proposal J))))"
    using key job by (simp add: job_key_def job_ok_def)
  note o = vote_request_other [OF assms(1,2) this]
  show "vote_digest (ns_store n') (job_key C J') r p = vote_digest (ns_store n) (job_key C J') r p"
    using o(1) by (simp add: same_conflict_def)
  have "free_for (ws_state (ns_store n')) (job_key C J') (jb_round J') (jb_intent J')"
    using o(1) other by (simp add: same_conflict_def seat_def voter_def)
  then show "seat C e configs J' b i n'"
    using own other o(2) by (simp add: seat_def voter_def)
qed

section \<open>The stages of a client\<close>

datatype stage =
    Prevoting "nat list" "vote list"
  | Precommitting qc digest "nat list" "vote list"
  | Noting finalized_transfer
  | Ended finalized_transfer

definition stage_program :: "crypto \<Rightarrow> nat \<Rightarrow> u64 \<Rightarrow> job \<Rightarrow> stage \<Rightarrow> finalized_transfer program" where
  "stage_program C ports e J st =
    (case st of
       Prevoting rest acc \<Rightarrow> bindP (collect_program ports rest (Prevote (jb_proposal J)))
         (\<lambda>vs. after_prevotes C ports (jb_elapsed J) (lab_committee C e) (jb_tx J) (jb_auth J) (jb_round J) (jb_proposal J)
            (jb_intent J) (acc @ vs))
     | Precommitting pq d rest acc \<Rightarrow> bindP (collect_program ports rest (Precommit (jb_proposal J) pq))
         (\<lambda>vs. after_precommits C (jb_elapsed J) (lab_committee C e) (jb_tx J) (jb_auth J) (jb_round J) (jb_intent J) pq d (acc @ vs))
     | Noting ft \<Rightarrow> Note (record_latency ''client_submit_to_qc'' (jb_elapsed J)) (Done (Inr ft))
     | Ended ft \<Rightarrow> Done (Inr ft))"

definition finalized_as :: "crypto \<Rightarrow> u64 \<Rightarrow> job \<Rightarrow> finalized_transfer \<Rightarrow> bool" where
  "finalized_as C e J ft \<longleftrightarrow> ft_tx ft = jb_tx J \<and> ft_auth ft = jb_auth J \<and>
    check_finality C (jb_tx J) (ft_prevote_qc ft) (ft_qc ft) (lab_committee C e) = Inr (jb_intent J) \<and>
    length (qc_votes (ft_qc ft)) = Q"

definition gathered :: "crypto \<Rightarrow> u64 \<Rightarrow> job \<Rightarrow> u8 \<Rightarrow> digest option \<Rightarrow> nat list \<Rightarrow> vote list \<Rightarrow> bool" where
  "gathered C e J phase ej rest acc \<longleftrightarrow> (\<exists>past. HONEST_INDICES = past @ rest \<and> map v_signer_index acc = map of_nat past) \<and>
    (\<forall>v \<in> set acc. counts_for C e phase (jb_round J) (job_key C J) (jb_intent J) ej v)"

definition prevoted_at :: "crypto \<Rightarrow> job \<Rightarrow> world \<Rightarrow> nat \<Rightarrow> bool" where
  "prevoted_at C J w i \<longleftrightarrow> vote_digest (ns_store (w_nodes w ! i)) (job_key C J) (jb_round J) PHASE_PREVOTE = Some (jb_intent J)"

definition stage_ok :: "crypto \<Rightarrow> u64 \<Rightarrow> job \<Rightarrow> world \<Rightarrow> stage \<Rightarrow> bool" where
  "stage_ok C e J w st \<longleftrightarrow>
    (case st of
       Prevoting rest acc \<Rightarrow> rest \<noteq> [] \<and> gathered C e J PHASE_PREVOTE None rest acc \<and>
         (\<forall>i \<in> set HONEST_INDICES - set rest. prevoted_at C J w i)
     | Precommitting pq d rest acc \<Rightarrow> rest \<noteq> [] \<and> gathered C e J PHASE_PRECOMMIT (Some d) rest acc \<and>
         valid_qc C pq (lab_committee C e) PHASE_PREVOTE (jb_round J) (job_key C J) (jb_intent J) None \<and>
         qc_digest C pq (lab_committee C e) = Inr d \<and> d \<noteq> zero_array \<and> (\<forall>i \<in> set HONEST_INDICES. prevoted_at C J w i)
     | Noting ft \<Rightarrow> finalized_as C e J ft
     | Ended ft \<Rightarrow> finalized_as C e J ft)"

fun requests_left :: "stage \<Rightarrow> nat" where
  "requests_left (Prevoting rest acc) = length rest + Q"
| "requests_left (Precommitting pq d rest acc) = length rest"
| "requests_left _ = 0"

lemma collect_step:
  "i < ports \<Longrightarrow> bindP (collect_program ports (i # rest) request) f =
    Call i request (\<lambda>response. bindP (Done (vote_of_response i response)) (\<lambda>vote.
      bindP (collect_program ports rest request) (\<lambda>votes. f (case vote of Some v \<Rightarrow> v # votes | None \<Rightarrow> votes))))"
  by (auto simp: bindP_assoc fun_eq_iff split: sum.splits)

lemma gathered_complete:
  assumes "gathered C e J phase ej [] acc"
  shows "votes_for C (lab_committee C e) phase (jb_round J) (job_key C J) (jb_intent J) ej acc" and "length acc = Q"
proof -
  have *: "\<forall>v \<in> set acc. counts_for C e phase (jb_round J) (job_key C J) (jb_intent J) ej v"
    "map v_signer_index acc = map of_nat HONEST_INDICES"
    using assms by (auto simp: gathered_def)
  show "votes_for C (lab_committee C e) phase (jb_round J) (job_key C J) (jb_intent J) ej acc" and "length acc = Q"
    using counts_votes_for [OF * honest_indices(1,2)] honest_indices(3) by simp_all
qed

lemma gathered_next:
  assumes "gathered C e J phase ej (i # rest) acc" and "v_signer_index v = of_nat i"
    and "counts_for C e phase (jb_round J) (job_key C J) (jb_intent J) ej v"
  shows "gathered C e J phase ej rest (acc @ [v])"
proof -
  obtain past where "HONEST_INDICES = past @ i # rest" "map v_signer_index acc = map of_nat past"
    using assms(1) by (auto simp: gathered_def)
  then have "HONEST_INDICES = (past @ [i]) @ rest" "map v_signer_index (acc @ [v]) = map of_nat (past @ [i])"
    using assms(2) by simp_all
  then show ?thesis
    using assms(1,3) unfolding gathered_def by (metis (no_types, lifting) Un_iff empty_iff list.set(1) set_ConsD set_append)
qed

lemma gathered_member:
  assumes "gathered C e J phase ej (i # rest) acc"
  shows "i \<in> set HONEST_INDICES" and "i < N" and "i \<notin> set rest" and "set rest \<subseteq> set HONEST_INDICES"
proof -
  obtain past where past: "HONEST_INDICES = past @ i # rest"
    using assms by (auto simp: gathered_def)
  show "i \<in> set HONEST_INDICES" "set rest \<subseteq> set HONEST_INDICES"
    unfolding past by auto
  then show "i < N"
    using honest_indices(2) by blast
  show "i \<notin> set rest"
    using honest_indices(1) unfolding past by simp
qed

section \<open>One step of one client\<close>

lemma stage_after_prevotes:
  assumes nonzero: "honest_prevote_digest C e (jb_tx J) (jb_round J) \<noteq> Inr zero_array"
    and job: "job_ok C e J" and acc: "gathered C e J PHASE_PREVOTE None [] acc"
    and voted: "\<forall>i \<in> set HONEST_INDICES. prevoted_at C J w i"
  obtains pq d where "after_prevotes C ports (jb_elapsed J) (lab_committee C e) (jb_tx J) (jb_auth J) (jb_round J) (jb_proposal J)
      (jb_intent J) acc = stage_program C ports e J (Precommitting pq d HONEST_INDICES [])"
    "stage_ok C e J w (Precommitting pq d HONEST_INDICES [])"
proof -
  note for1 = gathered_complete [OF acc]
  obtain pq where pq: "assemble_qc C acc (lab_committee C e) PHASE_PREVOTE (jb_round J) (job_key C J) (jb_intent J) None = Inr pq"
    "valid_qc C pq (lab_committee C e) PHASE_PREVOTE (jb_round J) (job_key C J) (jb_intent J) None"
    using assemble_qc_complete [OF for1(1)] for1(2) by (metis order_refl)
  have votes: "\<forall>v \<in> set acc. counts_for C e PHASE_PREVOTE (jb_round J) (job_key C J) (jb_intent J) None v"
    "map v_signer_index acc = map of_nat HONEST_INDICES" "intent_hash C (jb_tx J) = Inr (jb_intent J)"
    using acc job by (auto simp: gathered_def job_ok_def)
  obtain d where d: "qc_digest C pq (lab_committee C e) = Inr d" "d \<noteq> zero_array"
    using qc_digest_valid [OF pq(2)] honest_prevote_qcI [OF votes(1) [unfolded job_key_def] votes(2,3) pq(1) [unfolded job_key_def]] nonzero
    by auto
  have "gathered C e J PHASE_PRECOMMIT (Some d) HONEST_INDICES []"
    by (simp add: gathered_def)
  then have "stage_ok C e J w (Precommitting pq d HONEST_INDICES [])"
    using pq(2) d voted by (simp add: stage_ok_def HONEST_INDICES_def)
  then show thesis
    using that [of pq d] pq(1) d(1) by (simp add: after_prevotes_def stage_program_def job_key_def)
qed

lemma stage_after_precommits:
  assumes job: "job_ok C e J" and acc: "gathered C e J PHASE_PRECOMMIT (Some d) [] acc"
    and pq: "valid_qc C pq (lab_committee C e) PHASE_PREVOTE (jb_round J) (job_key C J) (jb_intent J) None"
    and d: "qc_digest C pq (lab_committee C e) = Inr d"
  obtains ft where "after_precommits C (jb_elapsed J) (lab_committee C e) (jb_tx J) (jb_auth J) (jb_round J) (jb_intent J) pq d acc =
      stage_program C ports e J (Noting ft)" "finalized_as C e J ft"
proof -
  note for2 = gathered_complete [OF acc]
  obtain cq where cq: "assemble_qc C acc (lab_committee C e) PHASE_PRECOMMIT (jb_round J) (job_key C J) (jb_intent J) (Some d) = Inr cq"
    "valid_qc C cq (lab_committee C e) PHASE_PRECOMMIT (jb_round J) (job_key C J) (jb_intent J) (Some d)"
    using assemble_qc_complete [OF for2(1)] for2(2) by (metis order_refl)
  have x: "intent_hash C (jb_tx J) = Inr (jb_intent J)"
    using job by (simp add: job_ok_def)
  have "check_finality C (jb_tx J) pq cq (lab_committee C e) = Inr (jb_intent J)"
    by (rule valid_chain_finality [OF x pq [unfolded job_key_def] d cq(2) [unfolded job_key_def]])
  then have "finalized_as C e J \<lparr>ft_tx = jb_tx J, ft_auth = jb_auth J, ft_prevote_qc = pq, ft_qc = cq\<rparr>"
    using assemble_qc_length [OF cq(1)] for2(2) by (simp add: finalized_as_def)
  then show thesis
    using that cq(1) by (simp add: after_precommits_def stage_program_def job_key_def)
qed

lemma rpc_vote_answered:
  assumes req: "encode_request request = Inr payload" and net: "network_delivers net" and i: "i \<in> set HONEST_INDICES" "N \<le> length (w_nodes w)"
    and handle: "handle_request C None request (w_nodes w ! i) = (Inr (VoteResponse v, False), n')"
    and v: "v_signer_index v = of_nat i" "v_phase v = PHASE_PREVOTE \<or> v_phase v = PHASE_PRECOMMIT"
  obtains m where "rpc C net i request w = (Inr (VoteResponse v), w\<lparr>w_nodes := (w_nodes w)[i := n'], w_metrics := m\<rparr>)"
    "vote_of_response i (VoteResponse v) = Inr (Some v)"
proof -
  have "i < N"
    using i(1) honest_indices(2) by blast
  obtain bs where bs: "encode_response (VoteResponse v) = Inr bs"
    using encode_vote_response_ok [OF v(2)] by blast
  have reach: "net request i = Reached None" "i < length (w_nodes w)"
    using net i \<open>i < N\<close> by (simp_all add: network_delivers_def)
  obtain m where "rpc C net i request w = (Inr (VoteResponse v), w\<lparr>w_nodes := (w_nodes w)[i := n'], w_metrics := m\<rparr>)"
    using rpc_delivers [where net = net and w = w and i = i, OF req reach handle bs] .
  then show thesis
    using that v(1) \<open>i < N\<close> by (simp add: vote_of_response_def u8_index)
qed

text \<open>What a served request of one job leaves of all jobs.\<close>

lemma seats_after:
  assumes jobs: "J \<in> jobs" "inj_on (job_key C) jobs" "\<forall>J \<in> jobs. job_ok C e J"
    and seats: "seats C e configs jobs (Suc b) w" and i: "i \<in> set HONEST_INDICES"
    and handle: "handle_request C None request (w_nodes w ! i) = (res, n')" "request = Prevote (jb_proposal J) \<or> request = Precommit (jb_proposal J) q"
    and own: "seat C e configs J b i n'" and w'_def: "w' = w\<lparr>w_nodes := (w_nodes w)[i := n'], w_metrics := m\<rparr>"
  shows "seats C e configs jobs b w'"
    and "J' \<in> jobs \<Longrightarrow> J' \<noteq> J \<Longrightarrow> prevoted_at C J' w' j \<longleftrightarrow> prevoted_at C J' w j"
proof -
  have i_len: "i < length (w_nodes w)"
    using seats i honest_indices(2) by (force simp: seats_def)
  have key: "job_key C J' \<noteq> job_key C J" if "J' \<in> jobs" "J' \<noteq> J" for J'
    using jobs(1,2) that by (auto dest: inj_onD)
  have job: "job_ok C e J"
    using jobs(1,3) by blast
  have at: "seat C e configs K (Suc b) j (w_nodes w ! j)" if "K \<in> jobs" "j \<in> set HONEST_INDICES" for K j
    using seats that by (simp add: seats_def)
  have "seat C e configs K b j (w_nodes w' ! j)" if K: "K \<in> jobs" "j \<in> set HONEST_INDICES" for K j
  proof (cases "j = i")
    case True
    show ?thesis
    proof (cases "K = J")
      case True
      then show ?thesis
        using own \<open>j = i\<close> i_len by (simp add: w'_def)
    next
      case False
      then show ?thesis
        using seat_other(1) [OF handle(1,2) job own at [OF K(1) i] key [OF K(1)]] \<open>j = i\<close> i_len by (simp add: w'_def)
    qed
  next
    case False
    have "seat C e configs K b j (w_nodes w ! j)"
      using at [OF K] voter_weaken [of C "configs j" _ _ _ "Suc b" _ b] by (auto simp: seat_def)
    then show ?thesis
      using False by (simp add: w'_def)
  qed
  then show "seats C e configs jobs b w'"
    using seats by (simp add: seats_def w'_def)
  assume J': "J' \<in> jobs" "J' \<noteq> J"
  show "prevoted_at C J' w' j \<longleftrightarrow> prevoted_at C J' w j"
  proof (cases "j = i")
    case True
    then show ?thesis
      using seat_other(2) [OF handle(1,2) job own at [OF J'(1) i] key [OF J']] i_len by (simp add: prevoted_at_def w'_def)
  next
    case False
    then show ?thesis
      by (simp add: prevoted_at_def w'_def)
  qed
qed

lemma solo_call:
  assumes "rpc C net i request w = (Inr response, w')"
  shows "solo_step C net (Call i request cont) w = (cont response, w')"
  using assms by (simp add: solo_step_def)

text \<open>The jobs, the crypto and the network of a run in which nothing fails.\<close>

definition calm :: "crypto \<Rightarrow> network \<Rightarrow> u64 \<Rightarrow> job set \<Rightarrow> bool" where
  "calm C net e jobs \<longleftrightarrow> signatures_verify C \<and> network_delivers net \<and> inj_on (job_key C) jobs \<and>
    (\<forall>J \<in> jobs. job_ok C e J \<and> honest_prevote_digest C e (jb_tx J) (jb_round J) \<noteq> Inr zero_array)"

definition advances :: "crypto \<Rightarrow> u64 \<Rightarrow> (nat \<Rightarrow> node_config) \<Rightarrow> job set \<Rightarrow> job \<Rightarrow> nat \<Rightarrow> world \<Rightarrow> stage \<Rightarrow> world \<Rightarrow> stage \<Rightarrow> bool" where
  "advances C e configs jobs J b w st w' st' \<longleftrightarrow> stage_ok C e J w' st' \<and>
    requests_left st' \<le> requests_left st \<and> seats C e configs jobs (b - (requests_left st - requests_left st')) w' \<and>
    length (w_nodes w') = length (w_nodes w) \<and>
    (\<forall>J' \<in> jobs. J' \<noteq> J \<longrightarrow> (\<forall>st. stage_ok C e J' w st \<longrightarrow> stage_ok C e J' w' st))"

lemma stage_ok_nodes:
  assumes "\<forall>j. prevoted_at C J w' j \<longleftrightarrow> prevoted_at C J w j" and "stage_ok C e J w st"
  shows "stage_ok C e J w' st"
  using assms by (cases st) (simp_all add: stage_ok_def)

lemma advance_prevote:
  assumes calm: "calm C net e jobs" and J: "J \<in> jobs" and ports: "N \<le> ports" and seats: "seats C e configs jobs (Suc b) w"
    and ok: "stage_ok C e J w (Prevoting (i # rest) acc)"
  obtains st' w' where "solo_step C net (stage_program C ports e J (Prevoting (i # rest) acc)) w = (stage_program C ports e J st', w')"
    "advances C e configs jobs J (Suc b) w (Prevoting (i # rest) acc) w' st'"
proof -
  have c: "signatures_verify C" "honest_prevote_digest C e (jb_tx J) (jb_round J) \<noteq> Inr zero_array"
    "network_delivers net" "inj_on (job_key C) jobs"
    "\<forall>J \<in> jobs. job_ok C e J" "job_ok C e J"
    using calm J by (auto simp: calm_def)
  have g: "gathered C e J PHASE_PREVOTE None (i # rest) acc" and past: "\<forall>j \<in> set HONEST_INDICES - set (i # rest). prevoted_at C J w j"
    using ok by (simp_all add: stage_ok_def)
  note i = gathered_member [OF g]
  have len: "N \<le> length (w_nodes w)" "i < length (w_nodes w)"
    using seats i(2) by (auto simp: seats_def)
  have "seat C e configs J (Suc b) i (w_nodes w ! i)"
    using seats J i(1) by (simp add: seats_def)
  then obtain v n' where v: "handle_request C None (Prevote (jb_proposal J)) (w_nodes w ! i) = (Inr (VoteResponse v, False), n')"
    "v_signer_index v = of_nat i" "seat C e configs J b i n'"
    "counts_for C e PHASE_PREVOTE (jb_round J) (job_key C J) (jb_intent J) None v"
    "vote_digest (ns_store n') (job_key C J) (jb_round J) PHASE_PREVOTE = Some (jb_intent J)"
    using seat_prevote [OF c(1,6)] by blast
  have phase: "v_phase v = PHASE_PREVOTE \<or> v_phase v = PHASE_PRECOMMIT"
    using v(4) by (simp add: counts_for_def same_statement_def)
  obtain payload where payload: "encode_request (Prevote (jb_proposal J)) = Inr payload"
    using seat_requests(1) [OF c(6)] by blast
  obtain m where m: "rpc C net i (Prevote (jb_proposal J)) w = (Inr (VoteResponse v), w\<lparr>w_nodes := (w_nodes w)[i := n'], w_metrics := m\<rparr>)"
    "vote_of_response i (VoteResponse v) = Inr (Some v)"
    using rpc_vote_answered [OF payload c(3) i(1) len(1) v(1,2) phase] .
  let ?w = "w\<lparr>w_nodes := (w_nodes w)[i := n'], w_metrics := m\<rparr>"
  note after = seats_after [where m = m, OF J c(4,5) seats i(1) v(1) disjI1 [OF refl] v(3) refl]
  have others: "\<forall>J' \<in> jobs. J' \<noteq> J \<longrightarrow> (\<forall>st. stage_ok C e J' w st \<longrightarrow> stage_ok C e J' ?w st)"
    using stage_ok_nodes after(2) by blast
  have mine: "prevoted_at C J ?w j \<longleftrightarrow> j = i \<or> prevoted_at C J w j" for j
    using v(5) len(2) by (cases "j = i") (simp_all add: prevoted_at_def)
  have g': "gathered C e J PHASE_PREVOTE None rest (acc @ [v])"
    by (rule gathered_next [OF g v(2,4)])
  have finished: "\<forall>j \<in> set HONEST_INDICES - set rest. prevoted_at C J ?w j"
    using past mine by auto
  let ?f = "after_prevotes C ports (jb_elapsed J) (lab_committee C e) (jb_tx J) (jb_auth J) (jb_round J) (jb_proposal J) (jb_intent J)"
  have "i < ports"
    using i(2) ports by simp
  then have step: "solo_step C net (stage_program C ports e J (Prevoting (i # rest) acc)) w =
      (bindP (collect_program ports rest (Prevote (jb_proposal J))) (\<lambda>vs. ?f (acc @ v # vs)), ?w)"
    unfolding stage_program_def stage.case collect_step [OF \<open>i < ports\<close>] solo_call [OF m(1)] m(2) by simp
  show thesis
  proof (cases "rest = []")
    case False
    then have "stage_ok C e J ?w (Prevoting rest (acc @ [v]))"
      using g' finished by (simp add: stage_ok_def)
    then show thesis
      using that [of "Prevoting rest (acc @ [v])" ?w] step after(1) others by (simp add: stage_program_def advances_def)
  next
    case True
    have all: "\<forall>j \<in> set HONEST_INDICES. prevoted_at C J ?w j"
      using finished True by simp
    obtain pq d where s: "?f (acc @ [v]) = stage_program C ports e J (Precommitting pq d HONEST_INDICES [])"
      "stage_ok C e J ?w (Precommitting pq d HONEST_INDICES [])"
      using stage_after_prevotes [where ports = ports, OF c(2,6) g' [unfolded True] all] .
    have "solo_step C net (stage_program C ports e J (Prevoting (i # rest) acc)) w =
        (stage_program C ports e J (Precommitting pq d HONEST_INDICES []), ?w)"
      unfolding step by (simp add: True s(1))
    then show thesis
      using that s(2) after(1) others True honest_indices(3) by (simp add: advances_def)
  qed
qed

lemma advance_precommit:
  assumes calm: "calm C net e jobs" and J: "J \<in> jobs" and ports: "N \<le> ports" and seats: "seats C e configs jobs (Suc b) w"
    and ok: "stage_ok C e J w (Precommitting pq d (i # rest) acc)"
  obtains st' w' where "solo_step C net (stage_program C ports e J (Precommitting pq d (i # rest) acc)) w = (stage_program C ports e J st', w')"
    "advances C e configs jobs J (Suc b) w (Precommitting pq d (i # rest) acc) w' st'"
proof -
  have c: "signatures_verify C" "network_delivers net" "inj_on (job_key C) jobs" "\<forall>J \<in> jobs. job_ok C e J" "job_ok C e J"
    using calm J by (auto simp: calm_def)
  have g: "gathered C e J PHASE_PRECOMMIT (Some d) (i # rest) acc" and all: "\<forall>j \<in> set HONEST_INDICES. prevoted_at C J w j"
    and pq: "valid_qc C pq (lab_committee C e) PHASE_PREVOTE (jb_round J) (job_key C J) (jb_intent J) None"
    and d: "qc_digest C pq (lab_committee C e) = Inr d" "d \<noteq> zero_array"
    using ok by (simp_all add: stage_ok_def)
  note i = gathered_member [OF g]
  have len: "N \<le> length (w_nodes w)" "i < length (w_nodes w)"
    using seats i(2) by (auto simp: seats_def)
  have here: "seat C e configs J (Suc b) i (w_nodes w ! i)"
    using seats J i(1) by (simp add: seats_def)
  moreover have "vote_digest (ns_store (w_nodes w ! i)) (job_key C J) (jb_round J) PHASE_PREVOTE = Some (jb_intent J)"
    using all i(1) by (simp add: prevoted_at_def)
  ultimately obtain v n' where v: "handle_request C None (Precommit (jb_proposal J) pq) (w_nodes w ! i) = (Inr (VoteResponse v, False), n')"
    "v_signer_index v = of_nat i" "seat C e configs J b i n'"
    "counts_for C e PHASE_PRECOMMIT (jb_round J) (job_key C J) (jb_intent J) (Some d) v"
    using seat_precommit [OF c(1,5) _ pq d] by blast
  have phase: "v_phase v = PHASE_PREVOTE \<or> v_phase v = PHASE_PRECOMMIT"
    using v(4) by (simp add: counts_for_def same_statement_def)
  obtain payload where payload: "encode_request (Precommit (jb_proposal J) pq) = Inr payload"
    using seat_requests(2) [OF c(5) pq] by blast
  obtain m where m: "rpc C net i (Precommit (jb_proposal J) pq) w =
      (Inr (VoteResponse v), w\<lparr>w_nodes := (w_nodes w)[i := n'], w_metrics := m\<rparr>)"
    "vote_of_response i (VoteResponse v) = Inr (Some v)"
    using rpc_vote_answered [OF payload c(2) i(1) len(1) v(1,2) phase] .
  let ?w = "w\<lparr>w_nodes := (w_nodes w)[i := n'], w_metrics := m\<rparr>"
  note after = seats_after [where m = m, OF J c(3,4) seats i(1) v(1) disjI2 [OF refl] v(3) refl]
  have others: "\<forall>J' \<in> jobs. J' \<noteq> J \<longrightarrow> (\<forall>st. stage_ok C e J' w st \<longrightarrow> stage_ok C e J' ?w st)"
    using stage_ok_nodes after(2) by blast
  have g': "gathered C e J PHASE_PRECOMMIT (Some d) rest (acc @ [v])"
    by (rule gathered_next [OF g v(2,4)])
  let ?f = "after_precommits C (jb_elapsed J) (lab_committee C e) (jb_tx J) (jb_auth J) (jb_round J) (jb_intent J) pq d"
  have "i < ports"
    using i(2) ports by simp
  then have step: "solo_step C net (stage_program C ports e J (Precommitting pq d (i # rest) acc)) w =
      (bindP (collect_program ports rest (Precommit (jb_proposal J) pq)) (\<lambda>vs. ?f (acc @ v # vs)), ?w)"
    unfolding stage_program_def stage.case collect_step [OF \<open>i < ports\<close>] solo_call [OF m(1)] m(2) by simp
  show thesis
  proof (cases "rest = []")
    case False
    have kept: "prevoted_at C J ?w j" if "j \<in> set HONEST_INDICES" for j
    proof (cases "j = i")
      case True
      have "voted (ns_store n') \<lparr>vk_conflict_key = job_key C J, vk_round = jb_round J, vk_phase = PHASE_PREVOTE\<rparr> = Some (jb_intent J)"
        by (rule node_votes.locked_step [OF _ node_step.request [OF v(1)]])
          (use here all i(1) in \<open>auto simp: seat_def voter_def prevoted_at_def voted_def vote_digest_def\<close>)
      then show ?thesis
        using True len(2) by (simp add: prevoted_at_def voted_def vote_digest_def)
    next
      case False
      then show ?thesis
        using all that by (simp add: prevoted_at_def)
    qed
    then have "stage_ok C e J ?w (Precommitting pq d rest (acc @ [v]))"
      using False g' pq d by (simp add: stage_ok_def)
    then show thesis
      using that [of "Precommitting pq d rest (acc @ [v])" ?w] step after(1) others by (simp add: stage_program_def advances_def)
  next
    case True
    obtain ft where s: "?f (acc @ [v]) = stage_program C ports e J (Noting ft)" "finalized_as C e J ft"
      using stage_after_precommits [OF c(5) g' [unfolded True] pq d(1)] by metis
    have "solo_step C net (stage_program C ports e J (Precommitting pq d (i # rest) acc)) w = (stage_program C ports e J (Noting ft), ?w)"
      unfolding step by (simp add: True s(1))
    then show thesis
      using that s(2) after(1) others True by (simp add: advances_def stage_ok_def)
  qed
qed

lemma advance:
  assumes calm: "calm C net e jobs" and J: "J \<in> jobs" and ports: "N \<le> ports" and seats: "seats C e configs jobs b w"
    and ok: "stage_ok C e J w st" and left: "requests_left st \<le> b"
  obtains st' w' where "solo_step C net (stage_program C ports e J st) w = (stage_program C ports e J st', w')"
    "advances C e configs jobs J b w st w' st'"
proof (cases st)
  case (Prevoting rest acc)
  moreover from this obtain i rest' where "rest = i # rest'"
    using ok by (cases rest) (simp_all add: stage_ok_def)
  moreover from calculation obtain b' where "b = Suc b'"
    using left by (cases b) simp_all
  ultimately show thesis
    using advance_prevote [OF calm J ports, of configs b' w i rest' acc] seats ok that by blast
next
  case (Precommitting pq d rest acc)
  moreover from this obtain i rest' where "rest = i # rest'"
    using ok by (cases rest) (simp_all add: stage_ok_def)
  moreover from calculation obtain b' where "b = Suc b'"
    using left by (cases b) simp_all
  ultimately show thesis
    using advance_precommit [OF calm J ports, of configs b' w pq d i rest' acc] seats ok that by blast
next
  case (Noting ft)
  let ?w = "w\<lparr>w_metrics := record_latency ''client_submit_to_qc'' (jb_elapsed J) (w_metrics w)\<rparr>"
  have "stage_ok C e J' ?w st' = stage_ok C e J' w st'" for J' st'
    by (cases st') (simp_all add: stage_ok_def prevoted_at_def)
  then have "advances C e configs jobs J b w st ?w (Ended ft)"
    using Noting ok seats by (simp add: advances_def stage_ok_def seats_def)
  moreover have "solo_step C net (stage_program C ports e J st) w = (stage_program C ports e J (Ended ft), ?w)"
    by (simp add: Noting stage_program_def solo_step_def)
  ultimately show thesis
    using that Noting by blast
next
  case (Ended ft)
  then show thesis
    using that [of st w] ok seats by (simp add: advances_def stage_program_def solo_step_def)
qed

section \<open>The crew\<close>

definition crew_ok :: "crypto \<Rightarrow> u64 \<Rightarrow> (nat \<Rightarrow> node_config) \<Rightarrow> nat \<Rightarrow> job list \<Rightarrow> stage list \<Rightarrow> finalized_transfer crew \<Rightarrow> bool" where
  "crew_ok C e configs ports jobs sts crew \<longleftrightarrow> length sts = length jobs \<and>
    snd crew = map2 (stage_program C ports e) jobs sts \<and>
    (\<exists>b. sum_list (map requests_left sts) \<le> b \<and> seats C e configs (set jobs) b (fst crew)) \<and>
    (\<forall>k < length jobs. stage_ok C e (jobs ! k) (fst crew) (sts ! k))"

lemma sum_list_update_le:
  fixes f :: "'a \<Rightarrow> nat"
  shows "k < length xs \<Longrightarrow> f y \<le> f (xs ! k) \<Longrightarrow>
    sum_list (map f (xs[k := y])) + f (xs ! k) = sum_list (map f xs) + f y"
proof (induction xs arbitrary: k)
  case (Cons x xs)
  show ?case
  proof (cases k)
    case (Suc j)
    then show ?thesis
      using Cons.IH [of j] Cons.prems by simp
  qed simp
qed simp

lemma crew_advances:
  assumes calm: "calm C net e (set jobs)" and jobs: "distinct jobs" and ports: "N \<le> ports"
    and ok: "crew_ok C e configs ports jobs sts (w, ps)" and k: "k < length jobs"
  obtains st' w' where "solo_step C net (ps ! k) w = (stage_program C ports e (jobs ! k) st', w')"
    "crew_ok C e configs ports jobs (sts[k := st']) (w', ps[k := stage_program C ports e (jobs ! k) st'])"
proof -
  let ?J = "jobs ! k" and ?st = "sts ! k"
  obtain b where len: "length sts = length jobs" and ps: "ps = map2 (stage_program C ports e) jobs sts"
    and b: "sum_list (map requests_left sts) \<le> b" "seats C e configs (set jobs) b w"
    and st: "\<And>k. k < length jobs \<Longrightarrow> stage_ok C e (jobs ! k) w (sts ! k)"
    using ok by (auto simp: crew_ok_def)
  have left: "requests_left ?st \<le> b"
    using b(1) elem_le_sum_list [of k "map requests_left sts"] k len by simp
  obtain st' w' where s: "solo_step C net (stage_program C ports e ?J ?st) w = (stage_program C ports e ?J st', w')"
    "advances C e configs (set jobs) ?J b w ?st w' st'"
    using advance [OF calm nth_mem [OF k] ports b(2) st [OF k] left] .
  have here: "ps ! k = stage_program C ports e ?J ?st"
    using k len by (simp add: ps)
  have "stage_ok C e (jobs ! j) w' (sts[k := st'] ! j)" if "j < length jobs" for j
  proof (cases "j = k")
    case True
    then show ?thesis
      using s(2) k len by (simp add: advances_def)
  next
    case False
    then have "jobs ! j \<noteq> ?J" "jobs ! j \<in> set jobs"
      using jobs that k by (simp_all add: nth_eq_iff_index_eq)
    then show ?thesis
      using s(2) st [OF that] False by (simp add: advances_def)
  qed
  moreover have "sum_list (map requests_left (sts[k := st'])) \<le> b - (requests_left ?st - requests_left st')"
    using b(1) sum_list_update_le [of k sts requests_left st'] s(2) k len by (simp add: advances_def)
  moreover have "ps[k := stage_program C ports e ?J st'] = map2 (stage_program C ports e) jobs (sts[k := st'])"
    using k len by (simp add: ps list_eq_iff_nth_eq nth_list_update)
  ultimately have "crew_ok C e configs ports jobs (sts[k := st']) (w', ps[k := stage_program C ports e ?J st'])"
    using s(2) len unfolding crew_ok_def advances_def by auto
  then show thesis
    using that s(1) here s(2) by (auto simp: advances_def)
qed

text \<open>The crew of the finalizing threads keeps its order, whoever steps next.\<close>

definition finalizing ::
    "crypto \<Rightarrow> network \<Rightarrow> u64 \<Rightarrow> (nat \<Rightarrow> node_config) \<Rightarrow> nat \<Rightarrow> job list \<Rightarrow> finalized_transfer program list \<Rightarrow> world \<Rightarrow> bool" where
  "finalizing C net e configs ports jobs ps w \<longleftrightarrow> calm C net e (set jobs) \<and> distinct jobs \<and> N \<le> ports \<and>
    (\<exists>sts. crew_ok C e configs ports jobs sts (w, ps))"

interpretation finalizers: crew_property C net "finalizing C net e configs ports jobs"
  for C net e configs ports jobs
proof
  fix ps w k p w'
  assume inv: "finalizing C net e configs ports jobs ps w" and k: "k < length ps" and step: "solo_step C net (ps ! k) w = (p, w')"
  then obtain sts where crew: "calm C net e (set jobs)" "distinct jobs" "N \<le> ports" "crew_ok C e configs ports jobs sts (w, ps)"
    by (auto simp: finalizing_def)
  then have "k < length jobs"
    using k by (simp add: crew_ok_def)
  then obtain st' w1 where "solo_step C net (ps ! k) w = (stage_program C ports e (jobs ! k) st', w1)"
    "crew_ok C e configs ports jobs (sts[k := st']) (w1, ps[k := stage_program C ports e (jobs ! k) st'])"
    using crew_advances [OF crew] by metis
  then show "finalizing C net e configs ports jobs (ps[k := p]) w'"
    using crew(1-3) step by (auto simp: finalizing_def)
qed

lemma stage_done:
  assumes "stage_ok C e J w st" and "N \<le> ports" and "stage_program C ports e J st = Done r"
  obtains ft where "r = Inr ft" "finalized_as C e J ft"
proof -
  have member: "i < ports" if "gathered C e J phase ej (i # rest) acc" for phase ej i rest acc
    using gathered_member(2) [OF that] assms(2) by simp
  show thesis
    using assms(1,3) that member
    by (cases st) (auto simp: stage_ok_def stage_program_def neq_Nil_conv collect_step simp del: collect_program.simps)
qed

lemma finalizers_done:
  assumes "finalizing C net e configs ports jobs (map Done rs) w"
  obtains fts where "rs = map Inr fts" "list_all2 (finalized_as C e) jobs fts"
proof -
  obtain sts where ports: "N \<le> ports" and sts: "length sts = length jobs" and ok: "\<forall>k < length jobs. stage_ok C e (jobs ! k) w (sts ! k)"
    and ps: "map Done rs = map2 (stage_program C ports e) jobs sts"
    using assms by (auto simp: finalizing_def crew_ok_def)
  have len: "length sts = length jobs" "length rs = length jobs"
    using sts map_eq_imp_length_eq [OF ps] by simp_all
  have each: "\<exists>ft. rs ! k = Inr ft \<and> finalized_as C e (jobs ! k) ft" if k: "k < length jobs" for k
  proof -
    have "stage_program C ports e (jobs ! k) (sts ! k) = Done (rs ! k)"
      using arg_cong [OF ps, of "\<lambda>xs. xs ! k"] k len by simp
    then show ?thesis
      using ok k by (metis stage_done [OF _ ports])
  qed
  then have "\<forall>k < length jobs. rs ! k = Inr (projr (rs ! k)) \<and> finalized_as C e (jobs ! k) (projr (rs ! k))"
    by force
  then have "rs = map Inr (map projr rs)" "list_all2 (finalized_as C e) jobs (map projr rs)"
    using len by (simp_all add: list_eq_iff_nth_eq list_all2_conv_all_nth)
  then show thesis
    by (rule that)
qed

section \<open>The benchmark's client threads\<close>

definition job_of :: "crypto \<Rightarrow> u64 \<Rightarrow> (nat \<Rightarrow> nat) \<Rightarrow> nat \<Rightarrow> tx \<times> user_auth \<Rightarrow> job" where
  "job_of C e elapsed k transfer =
    \<lparr>jb_tx = fst transfer, jb_auth = snd transfer, jb_round = 100 + of_nat k, jb_elapsed = elapsed k,
     jb_intent = projr (intent_hash C (fst transfer)),
     jb_proposal = projr (make_proposal C (lab_committee C e) (100 + of_nat k) (fst transfer) (snd transfer) None)\<rparr>"

lemma job_of_ok:
  assumes "verify_user_auth C tx auth (lab_committee C e) = Inr ()"
  shows "job_ok C e (job_of C e elapsed k (tx, auth))"
proof -
  obtain x where x: "intent_hash C tx = Inr x"
    using assms by (auto simp: verify_user_auth_iff)
  obtain p where "make_proposal C (lab_committee C e) (100 + of_nat k) tx auth None = Inr p" "pr_tx p = tx"
    "pr_round p = 100 + of_nat k" "pr_intent p = x" "pr_justify p = None"
    by (rule make_proposal_ok [OF assms x])
  then show ?thesis
    using assms x by (simp add: job_ok_def job_of_def)
qed

lemma job_program:
  assumes "job_ok C e J"
  shows "finalize_program C ports (jb_elapsed J) (lab_committee C e) (jb_tx J) (jb_auth J) (jb_round J) =
    stage_program C ports e J (Prevoting HONEST_INDICES [])"
  using assms by (simp add: finalize_program_def stage_program_def job_ok_def)

definition bench_jobs :: "crypto \<Rightarrow> u64 \<Rightarrow> (nat \<Rightarrow> nat) \<Rightarrow> (tx \<times> user_auth) list \<Rightarrow> job list" where
  "bench_jobs C e elapsed transfers = map (\<lambda>(k, transfer). job_of C e elapsed k transfer) (List.enumerate 0 transfers)"

lemma bench_jobs_nth [simp]:
  "length (bench_jobs C e elapsed transfers) = length transfers"
  "k < length transfers \<Longrightarrow> bench_jobs C e elapsed transfers ! k = job_of C e elapsed k (transfers ! k)"
  by (simp_all add: bench_jobs_def nth_enumerate_eq)

abbreviation transfer_key :: "crypto \<Rightarrow> tx \<times> user_auth \<Rightarrow> digest" where
  "transfer_key C transfer \<equiv> conflict_key C (cell_reference (tx_input (fst transfer)))"

lemma bench_jobs_keys: "map (job_key C) (bench_jobs C e elapsed transfers) = map (transfer_key C) transfers"
  by (auto simp: list_eq_iff_nth_eq job_key_def job_of_def)

definition bench_ready :: "crypto \<Rightarrow> u64 \<Rightarrow> (nat \<Rightarrow> node_config) \<Rightarrow> (tx \<times> user_auth) list \<Rightarrow> world \<Rightarrow> bool" where
  "bench_ready C e configs transfers w \<longleftrightarrow> N \<le> length (w_nodes w) \<and>
    (\<forall>k < length transfers. cluster_ready C e configs (fst (transfers ! k)) (100 + of_nat k)
      (projr (intent_hash C (fst (transfers ! k)))) (10 * length transfers) w)"

lemma bench_seats:
  assumes "bench_ready C e configs transfers w"
  shows "seats C e configs (set (bench_jobs C e elapsed transfers)) (10 * length transfers) w"
proof -
  have "seat C e configs J (10 * length transfers) i (w_nodes w ! i)"
    if J: "J \<in> set (bench_jobs C e elapsed transfers)" and i: "i \<in> set HONEST_INDICES" for J i
  proof -
    obtain k where k: "k < length transfers" "J = job_of C e elapsed k (transfers ! k)"
      using J by (auto simp: in_set_conv_nth)
    then have "cluster_ready C e configs (fst (transfers ! k)) (100 + of_nat k)
      (projr (intent_hash C (fst (transfers ! k)))) (10 * length transfers) w"
      using assms by (simp add: bench_ready_def)
    then show ?thesis
      using i k(2) by (simp add: cluster_ready_def seat_def job_of_def job_key_def)
  qed
  then show ?thesis
    using assms by (simp add: seats_def bench_ready_def)
qed

lemma bench_crew:
  assumes calm: "calm C net e (set (bench_jobs C e elapsed transfers))" and ready: "bench_ready C e configs transfers w"
  shows "crew_ok C e configs ports (bench_jobs C e elapsed transfers) (replicate (length transfers) (Prevoting HONEST_INDICES []))
    (w, finalize_programs C ports elapsed (lab_committee C e) transfers)"
proof -
  let ?jobs = "bench_jobs C e elapsed transfers"
  have "finalize_program C ports (elapsed k) (lab_committee C e) (fst (transfers ! k)) (snd (transfers ! k)) (100 + of_nat k) =
      stage_program C ports e (?jobs ! k) (Prevoting HONEST_INDICES [])" if "k < length transfers" for k
  proof -
    have "job_ok C e (?jobs ! k)"
      using calm nth_mem [of k ?jobs] that by (simp add: calm_def)
    from job_program [OF this] show ?thesis
      using that by (simp add: job_of_def)
  qed
  then have "finalize_programs C ports elapsed (lab_committee C e) transfers =
    map2 (stage_program C ports e) ?jobs (replicate (length transfers) (Prevoting HONEST_INDICES []))"
    by (simp add: finalize_programs_def list_eq_iff_nth_eq nth_enumerate_eq split_beta)
  moreover have "gathered C e J PHASE_PREVOTE None HONEST_INDICES []" for J
    by (simp add: gathered_def)
  moreover have "sum_list (map requests_left (replicate (length transfers) (Prevoting HONEST_INDICES []))) = 10 * length transfers"
    by (simp add: sum_list_replicate honest_indices(3) Q_def)
  ultimately show ?thesis
    using bench_seats [OF ready, of elapsed] by (auto simp: crew_ok_def stage_ok_def HONEST_INDICES_def)
qed

text \<open>Different cells have different conflict keys, or two of the transfers show a collision.\<close>

abbreviation key_preimage :: "tx \<times> user_auth \<Rightarrow> u8 list" where
  "key_preimage transfer \<equiv>
    ascii ''CALIBRE_INTEGRATION001_CONFLICT_KEY_V1'' @ cell_ref_bytes (cell_reference (tx_input (fst transfer)))"

lemma transfer_keys_distinct:
  assumes "distinct (map (\<lambda>t. cell_reference (tx_input (fst t))) transfers)"
    and apart: "\<not> (\<exists>t \<in> set transfers. \<exists>u \<in> set transfers. collide C (key_preimage t) (key_preimage u))"
  shows "distinct (map (transfer_key C) transfers)"
proof -
  have "cell_reference (tx_input (fst t)) = cell_reference (tx_input (fst u))"
    if "t \<in> set transfers" "u \<in> set transfers" "transfer_key C t = transfer_key C u" for t u
    using hash_domain_collide [OF that(3) [unfolded conflict_key_def]] apart that(1,2) by auto
  then show ?thesis
    using assms(1) by (simp add: distinct_map inj_on_def)
qed

lemma concurrent_finalization:
  assumes "signatures_verify C" and "network_delivers net"
    and nonzero: "\<forall>k < length transfers. honest_prevote_digest C e (fst (transfers ! k)) (100 + of_nat k) \<noteq> Inr zero_array"
    and auth: "\<forall>t \<in> set transfers. verify_user_auth C (fst t) (snd t) (lab_committee C e) = Inr ()"
    and keys: "distinct (map (transfer_key C) transfers)" and ready: "bench_ready C e configs transfers w"
  shows "\<exists>fts w'. join_crew C net schedule (finalize_programs C (length (w_nodes w)) elapsed (lab_committee C e) transfers) w =
      (Inr fts, w') \<and>
    list_all2 (finalized_as C e) (bench_jobs C e elapsed transfers) fts"
proof -
  let ?jobs = "bench_jobs C e elapsed transfers"
  have inj: "distinct ?jobs" "inj_on (job_key C) (set ?jobs)"
    using keys unfolding bench_jobs_keys [of C e elapsed, symmetric] by (simp_all add: distinct_map)
  have "job_ok C e J \<and> honest_prevote_digest C e (jb_tx J) (jb_round J) \<noteq> Inr zero_array" if J: "J \<in> set ?jobs" for J
  proof -
    obtain k where "k < length transfers" "J = job_of C e elapsed k (transfers ! k)"
      using J by (auto simp: in_set_conv_nth)
    then show ?thesis
      using job_of_ok [of C "fst (transfers ! k)" "snd (transfers ! k)"] auth nonzero by (simp add: job_of_def)
  qed
  then have calm: "calm C net e (set ?jobs)"
    using assms(1,2) inj(2) by (simp add: calm_def)
  let ?ports = "length (w_nodes w)"
  have ports: "N \<le> ?ports"
    using ready by (simp add: bench_ready_def)
  let ?ps = "finalize_programs C ?ports elapsed (lab_committee C e) transfers"
  have "finalizing C net e configs ?ports ?jobs ?ps w"
    unfolding finalizing_def using calm inj(1) ports bench_crew [OF calm ready] by blast
  then obtain rs w' where join: "join_crew C net schedule ?ps w = (mapE id rs, w')"
    "finalizing C net e configs ?ports ?jobs (map Done rs) w'"
    by (rule finalizers.kept_by_join)
  obtain fts where "rs = map Inr fts" "list_all2 (finalized_as C e) ?jobs fts"
    using finalizers_done [OF join(2)] .
  then show ?thesis
    using join(1) by (auto simp: mapE_results)
qed

text \<open>The call with its start gate, when every thread could be spawned.\<close>

lemma gated_finalization:
  assumes "signatures_verify C" and "network_delivers net"
    and "\<forall>k < length transfers. honest_prevote_digest C e (fst (transfers ! k)) (100 + of_nat k) \<noteq> Inr zero_array"
    and "\<forall>t \<in> set transfers. verify_user_auth C (fst t) (snd t) (lab_committee C e) = Inr ()"
    and "distinct (map (transfer_key C) transfers)" and "bench_ready C e configs transfers w"
    and spawned: "\<forall>k < length transfers. spawned k"
  shows "\<exists>fts w'. finalize_bench_concurrently C net spawned events elapsed (lab_committee C e) transfers w = (Inr fts, w') \<and>
    list_all2 (finalized_as C e) (bench_jobs C e elapsed transfers) fts"
proof -
  let ?ps = "finalize_programs C (length (w_nodes w)) elapsed (lab_committee C e) transfers"
  let ?message = "\<lambda>k. ''spawn benchmark client thread '' @ decimal k"
  consider schedule where "gated_crew C net spawned ?message events ?ps w = join_crew C net schedule ?ps w" | k where "k < length transfers" "\<not> spawned k"
    using gated_crew_joins [OF finalize_programs_end, of _ _ _ _ _ spawned C net ?message events w] by (metis finalize_programs_length)
  then show ?thesis
    using concurrent_finalization [OF assms(1-6), of _ elapsed] spawned unfolding finalize_bench_concurrently_def by cases auto
qed

end
