(* ===== verification/Workers.thy ===== *)
theory Workers
  imports Clients
begin

text \<open>
  The workers of \<open>apply_bench_to_live_nodes\<close>: every validator applies the finalized transfers in an
  order of its own, while the others do the same in theirs.
\<close>

section \<open>Orders of application a ledger accepts\<close>

text \<open>
  Every application of \<open>order\<close> is accepted, changes the root and leaves a ledger that fits a
  snapshot; the last one leaves \<open>s'\<close>.
\<close>

fun applies_along :: "crypto \<Rightarrow> u64 \<Rightarrow> finalized_transfer list \<Rightarrow> nat list \<Rightarrow> state \<Rightarrow> state \<Rightarrow> bool" where
  "applies_along C e fts [] s s' \<longleftrightarrow> s' = s"
| "applies_along C e fts (t # order) s s' \<longleftrightarrow> t < length fts \<and>
    (\<exists>rc s1 bs. apply_transfer_to C s (fts ! t) e = Inr (Applied rc, s1) \<and> encode_state s1 = Inr bs \<and>
      state_root C s1 \<noteq> state_root C s \<and> rc_intent rc \<noteq> zero_array \<and> rc_certificate_digest rc \<noteq> zero_array \<and>
      applies_along C e fts order s1 s')"

lemma applies_along_in_order:
  "applies_along C e fts order s s' \<Longrightarrow> apply_in_order C s fts order (lab_committee C e) = Inr s'"
  unfolding apply_in_order_def
proof (induction order arbitrary: s)
  case (Cons t order)
  then obtain rc s1 where "apply_transfer_to C s (fts ! t) e = Inr (Applied rc, s1)" "t < length fts" "applies_along C e fts order s1 s'"
    by auto
  moreover from this have "apply_transfer C fts (lab_committee C e) t s = Inr s1"
    unfolding apply_transfer_iff by blast
  ultimately show ?case
    using Cons.IH by simp
qed simp

text \<open>
  Two neighbours among the ledgers that the prefixes of \<open>order\<close> leave whose roots collide.
\<close>

definition roots_collide :: "crypto \<Rightarrow> u64 \<Rightarrow> finalized_transfer list \<Rightarrow> state \<Rightarrow> nat list \<Rightarrow> bool" where
  "roots_collide C e fts s order \<longleftrightarrow> (\<exists>k < length order. \<exists>s1 s2.
    apply_in_order C s fts (take k order) (lab_committee C e) = Inr s1 \<and>
    apply_in_order C s fts (take (Suc k) order) (lab_committee C e) = Inr s2 \<and>
    collide C (root_preimage s1) (root_preimage s2))"

lemma apply_in_order_Cons: "apply_in_order C s fts (i # order) m = bindE (apply_transfer C fts m i s) (\<lambda>s1. apply_in_order C s1 fts order m)"
  by (simp add: apply_in_order_def)

lemma roots_collide_next:
  assumes "apply_transfer C fts (lab_committee C e) i s = Inr s1" and "roots_collide C e fts s1 order"
  shows "roots_collide C e fts s (i # order)"
proof -
  obtain k a b where "k < length order" "apply_in_order C s1 fts (take k order) (lab_committee C e) = Inr a"
    "apply_in_order C s1 fts (take (Suc k) order) (lab_committee C e) = Inr b" "collide C (root_preimage a) (root_preimage b)"
    using assms(2) by (auto simp: roots_collide_def)
  then show ?thesis
    unfolding roots_collide_def using assms(1) by (intro exI [of _ "Suc k"]) (auto simp: apply_in_order_Cons)
qed

lemma roots_collide_first:
  assumes "apply_transfer C fts (lab_committee C e) i s = Inr s1" and "collide C (root_preimage s) (root_preimage s1)"
  shows "roots_collide C e fts s (i # order)"
  unfolding roots_collide_def using assms by (intro exI [of _ 0]) (simp add: apply_in_order_def)

text \<open>An order that the sequential application accepts is one the workers can follow.\<close>

lemma applies_along_grown:
  assumes "apply_in_order C s fts order (lab_committee C e) = Inr s'" and "grown C g t s" and "g + 9 * (t + length order) \<le> capacity"
    and "\<forall>ft \<in> set fts. recordable C e ft" and "\<not> roots_collide C e fts s order"
  shows "applies_along C e fts order s s'"
  using assms
proof (induction order arbitrary: s t)
  case (Cons i order)
  obtain s1 where s1: "apply_transfer C fts (lab_committee C e) i s = Inr s1" "apply_in_order C s1 fts order (lab_committee C e) = Inr s'"
    using Cons.prems(1) by (auto simp: apply_in_order_Cons)
  then obtain rc where i: "i < length fts" and ap: "apply_transfer_to C s (fts ! i) e = Inr (Applied rc, s1)"
    unfolding apply_transfer_iff by blast
  have grown: "grown C g (Suc t) s1" and room: "g + 9 * Suc t \<le> capacity"
    using apply_grown [OF ap Cons.prems(2)] Cons.prems(3) by simp_all
  obtain bs where "encode_state s1 = Inr bs"
    using grown_encodes [OF grown room] .
  moreover have "state_root C s1 \<noteq> state_root C s"
    using apply_moves_root [OF ap Cons.prems(2) room] roots_collide_first [OF s1(1)] Cons.prems(5) by blast
  moreover have "applies_along C e fts order s1 s'"
    using Cons.IH [OF s1(2) grown] Cons.prems(3-5) roots_collide_next [OF s1(1)] by auto
  moreover have "recordable C e (fts ! i)"
    using Cons.prems(4) i by simp
  ultimately show ?case
    using i ap recordable_receipt [OF _ ap] by auto
qed (simp add: apply_in_order_def)

section \<open>The workers' contract\<close>

definition worker_ok ::
    "crypto \<Rightarrow> u64 \<Rightarrow> (nat \<Rightarrow> node_config) \<Rightarrow> finalized_transfer list \<Rightarrow> (nat \<Rightarrow> state) \<Rightarrow> nat \<Rightarrow> unit program \<Rightarrow> world \<Rightarrow> bool" where
  "worker_ok C e configs fts goal i p w \<longleftrightarrow> (\<exists>order s. p = schedule_program i fts order \<and>
    applies_along C e fts order s (goal i) \<and> i < length (w_nodes w) \<and> nc_epoch (configs i) = e \<and>
    applier C (configs i) s (length order) (w_nodes w ! i))"

definition applying ::
    "crypto \<Rightarrow> network \<Rightarrow> u64 \<Rightarrow> (nat \<Rightarrow> node_config) \<Rightarrow> finalized_transfer list \<Rightarrow> (nat \<Rightarrow> state) \<Rightarrow> unit program list \<Rightarrow> world \<Rightarrow> bool" where
  "applying C net e configs fts goal ps w \<longleftrightarrow>
    (\<forall>i < length ps. (\<forall>ft \<in> set fts. net (apply_request ft) i = Reached None) \<and> worker_ok C e configs fts goal i (ps ! i) w)"

lemma worker_step:
  assumes ok: "worker_ok C e configs fts goal i p w" and net: "\<forall>ft \<in> set fts. net (apply_request ft) i = Reached None"
    and step: "solo_step C net p w = (p', w')"
  shows "worker_ok C e configs fts goal i p' w'" and "length (w_nodes w') = length (w_nodes w)"
    and "j \<noteq> i \<Longrightarrow> w_nodes w' ! j = w_nodes w ! j"
proof -
  obtain order s where p: "p = schedule_program i fts order" "applies_along C e fts order s (goal i)" "i < length (w_nodes w)"
    "nc_epoch (configs i) = e" "applier C (configs i) s (length order) (w_nodes w ! i)"
    using ok by (auto simp: worker_ok_def)
  have "worker_ok C e configs fts goal i p' w' \<and> length (w_nodes w') = length (w_nodes w) \<and>
    (\<forall>j. j \<noteq> i \<longrightarrow> w_nodes w' ! j = w_nodes w ! j)"
  proof (cases order)
    case Nil
    then have "p' = p" "w' = w"
      using step p(1) by (simp_all add: solo_step_def)
    then show ?thesis
      using ok by simp
  next
    case (Cons t rest)
    let ?ft = "fts ! t"
    obtain rc s1 bs where ap: "t < length fts" "apply_transfer_to C s ?ft e = Inr (Applied rc, s1)" "encode_state s1 = Inr bs"
      "state_root C s1 \<noteq> state_root C s" "rc_intent rc \<noteq> zero_array" "rc_certificate_digest rc \<noteq> zero_array"
      "applies_along C e fts rest s1 (goal i)"
      using p(2) Cons by auto
    obtain payload where req: "encode_request (apply_request ?ft) = Inr payload"
      using apply_request_encodes [OF ap(2)] by blast
    obtain n' where n': "handle_request C None (apply_request ?ft) (w_nodes w ! i) = (Inr (AppliedResponse (state_root C s1) False, False), n')"
      "applier C (configs i) s1 (length rest) n'"
      using apply_request_succeeds [OF _ _ ap(3-6)] p(4,5) ap(2) Cons by (metis length_Cons)
    obtain out where out: "encode_response (AppliedResponse (state_root C s1) False) = Inr out"
      using encode_applied_ok by blast
    have "net (apply_request ?ft) i = Reached None"
      using net ap(1) by simp
    then obtain m where "rpc C net i (apply_request ?ft) w =
        (Inr (AppliedResponse (state_root C s1) False), w\<lparr>w_nodes := (w_nodes w)[i := n'], w_metrics := m\<rparr>)"
      using rpc_delivers [where C = C and net = net and i = i and w = w, OF req _ p(3) n'(1) out] by blast
    then have "p' = schedule_program i fts rest" "w' = w\<lparr>w_nodes := (w_nodes w)[i := n'], w_metrics := m\<rparr>"
      using step p(1) Cons ap(1) by (simp_all add: solo_step_def Let_def)
    then show ?thesis
      using ap(7) p(3,4) n'(2) by (auto simp: worker_ok_def)
  qed
  then show "worker_ok C e configs fts goal i p' w'" and "length (w_nodes w') = length (w_nodes w)"
    and "j \<noteq> i \<Longrightarrow> w_nodes w' ! j = w_nodes w ! j"
    by simp_all
qed

interpretation workers: crew_property C net "applying C net e configs fts goal"
  for C net e configs fts goal
proof
  fix ps w k p w'
  assume inv: "applying C net e configs fts goal ps w" and k: "k < length ps" and step: "solo_step C net (ps ! k) w = (p, w')"
  have here: "worker_ok C e configs fts goal k (ps ! k) w" "\<forall>ft \<in> set fts. net (apply_request ft) k = Reached None"
    using inv k by (simp_all add: applying_def)
  note after = worker_step [OF here step]
  have "worker_ok C e configs fts goal i (ps[k := p] ! i) w'" if "i < length ps" for i
    using after inv that k by (cases "i = k") (simp_all add: applying_def worker_ok_def)
  then show "applying C net e configs fts goal (ps[k := p]) w'"
    using inv by (simp add: applying_def)
qed

lemma worker_done:
  assumes "worker_ok C e configs fts goal i (Done r) w"
  shows "r = Inr ()" and "applier C (configs i) (goal i) 0 (w_nodes w ! i)"
proof -
  obtain order s where o: "Done r = schedule_program i fts order" "applies_along C e fts order s (goal i)"
    "applier C (configs i) s (length order) (w_nodes w ! i)"
    using assms by (auto simp: worker_ok_def)
  then have "order = []"
    by (cases order) (auto simp: Let_def)
  then show "r = Inr ()" and "applier C (configs i) (goal i) 0 (w_nodes w ! i)"
    using o by simp_all
qed

section \<open>The validators after the workers\<close>

lemma workers_apply:
  assumes start: "\<forall>i < length schedules. appliers C configs e s (length (schedules ! i)) [i] w"
    and count: "length schedules = length (w_nodes w)"
    and net: "\<forall>i < length schedules. \<forall>ft \<in> set fts. net (apply_request ft) i = Reached None"
    and along: "\<forall>i < length schedules. applies_along C e fts (schedules ! i) s (goal i)"
    and spawned: "\<forall>i < length schedules. spawned i"
  shows "\<exists>w'. apply_bench_to_live_nodes C net spawned schedule fts schedules w = (Inr (), w') \<and>
    (\<forall>i < length schedules. applier C (configs i) (goal i) 0 (w_nodes w' ! i))"
proof -
  let ?ps = "apply_programs fts schedules"
  have "worker_ok C e configs fts goal i (?ps ! i) w" if "i < length schedules" for i
    using start along that unfolding worker_ok_def appliers_def
    by (intro exI [of _ "schedules ! i"] exI [of _ s]) (simp add: apply_programs_def nth_enumerate_eq)
  then have "applying C net e configs fts goal ?ps w"
    using net by (simp add: applying_def apply_programs_def)
  then obtain rs w' where join: "join_crew C net schedule ?ps w = (mapE id rs, w')" "applying C net e configs fts goal (map Done rs) w'"
    "length rs = length schedules"
    by (rule workers.kept_by_join) (auto simp: apply_programs_def)
  have each: "worker_ok C e configs fts goal i (Done (rs ! i)) w'" if "i < length rs" for i
    using join(2) that by (simp add: applying_def)
  have "rs ! i = Inr ()" if "i < length rs" for i
    using worker_done(1) [OF each [OF that]] .
  then have "rs = map Inr (replicate (length rs) ())"
    by (simp add: list_eq_iff_nth_eq)
  then have "mapE id rs = Inr (replicate (length rs) ())"
    by (metis mapE_results)
  moreover have "\<forall>i < length schedules. applier C (configs i) (goal i) 0 (w_nodes w' ! i)"
    using worker_done(2) [OF each] join(3) by simp
  moreover have "find (\<lambda>k. \<not> spawned k) [0..<length ?ps] = None"
    using spawned by (simp add: find_None_iff apply_programs_def)
  ultimately show ?thesis
    using join(1) count by (simp add: apply_bench_to_live_nodes_def bindR_def liftR_def Let_def)
qed

lemma workers_converge:
  assumes start: "appliers C configs e s (length fts) [0..<length (w_nodes w)] w"
    and count: "length schedules = length (w_nodes w)"
    and net: "\<forall>i < length schedules. \<forall>ft \<in> set fts. net (apply_request ft) i = Reached None"
    and perm: "\<forall>order \<in> set schedules. mset order = mset [0..<length fts]"
    and s: "grown C g t s" "g + 9 * (t + length fts) \<le> capacity" "\<forall>ft \<in> set fts. recordable C e ft"
    and live: "\<forall>ft \<in> set fts. cell_reference (tx_input (ft_tx ft)) |\<in>| fmdom (st_live s)"
    and first: "apply_in_order C s fts [0..<length fts] (lab_committee C e) = Inr s'"
    and spawned: "\<forall>i < length schedules. spawned i"
    and apart: "\<not> (\<exists>order \<in> set schedules. roots_collide C e fts s order)"
  shows "\<exists>w'. apply_bench_to_live_nodes C net spawned schedule fts schedules w = (Inr (), w') \<and>
    (\<forall>i < length schedules. applier C (configs i) s' 0 (w_nodes w' ! i))"
proof (rule workers_apply [OF _ count net _ spawned])
  have len: "length (schedules ! i) = length fts" if "i < length schedules" for i
    using perm that by (metis length_upt minus_nat.diff_0 nth_mem size_mset)
  show "\<forall>i < length schedules. appliers C configs e s (length (schedules ! i)) [i] w"
    using start count len by (auto simp: appliers_def)
  show "\<forall>i < length schedules. applies_along C e fts (schedules ! i) s s'"
  proof (intro allI impI)
    fix i assume i: "i < length schedules"
    have "\<forall>j \<in> set [0..<length fts]. transfer_input fts j |\<in>| fmdom (st_live s)" "state_ok C s"
      using live s(1) by (simp_all add: transfer_input_def grown_def)
    moreover have "mset (schedules ! i) = mset [0..<length fts]"
      using perm i by simp
    ultimately have "apply_in_order C s fts (schedules ! i) (lab_committee C e) = Inr s'"
      using apply_in_order_perm [OF first] by blast
    then show "applies_along C e fts (schedules ! i) s s'"
      using applies_along_grown [OF _ s(1)] s(2,3) apart i len by auto
  qed
qed

end
