(* ===== verification/Phase.thy ===== *)
theory Phase
  imports Workers Gate
begin

text \<open>
  A whole run of the controller (\<open>run_phase_a_once\<close> and the comparisons of \<open>run_controller\<close>, \<open>Cluster::start\<close>
  and \<open>Cluster::restart\<close> of \<open>integration001/src/main.rs\<close>): the cluster is started, the negative
  cases are tried, a double spend is split over the honest validators and settled, one validator is
  killed and restarted, the transfers are applied everywhere, and the outcome is compared with that
  of a second run.  An error message is the constant part of the message of the source.
\<close>

section \<open>What the outside decides\<close>

text \<open>
  The network of each stage of a run and of each readiness attempt (the first, and those the deadline
  leaves time for), the outcome of the log writes at each start, the ports and paths the operating
  system gives, the threads it refuses to spawn, the interleavings of the threads, the measured times,
  and whether the processes could be reaped and their directory removed.
\<close>

record phase_env =
  env_net :: "nat \<Rightarrow> network"
  env_start_ready :: "nat \<Rightarrow> network \<times> network list"
  env_restart_ready :: "network \<times> network list"
  env_start_io :: "nat \<Rightarrow> nat option \<times> nat option"
  env_restart_io :: "nat option \<times> nat option"
  env_ports :: "nat \<Rightarrow> u16"
  env_restart_port :: u16
  env_wal_paths :: "nat \<Rightarrow> string"
  env_snapshot_path :: string
  env_split_spawned :: "nat \<Rightarrow> bool"
  env_split_events :: "gate_event list"
  env_finalize_spawned :: "nat \<Rightarrow> bool"
  env_finalize_events :: "gate_event list"
  env_apply_spawned :: "nat \<Rightarrow> bool"
  env_apply_schedule :: "nat list"
  env_bob_elapsed :: nat
  env_elapsed :: "nat \<Rightarrow> nat"
  env_bench_elapsed :: nat
  env_cleaned :: bool

definition VALIDATOR_COUNT :: nat where "VALIDATOR_COUNT = 7"

definition fail :: "string \<Rightarrow> 'a remote" where
  "fail message = liftR (Inl (RunFailed message))"

definition require :: "bool \<Rightarrow> string \<Rightarrow> unit remote" where
  "require ok message = (if ok then liftR (Inr ()) else fail message)"

abbreviation modelR :: "model_error + 'a \<Rightarrow> 'a remote" where
  "modelR r \<equiv> liftR (map_err RemoteModelError r)"

abbreviation fixtureR :: "fixture_error + 'a \<Rightarrow> 'a remote" where
  "fixtureR r \<equiv> liftR (map_err RemoteFixtureError r)"

section \<open>The cluster\<close>

text \<open>
  The loop that asks a new process for its identity until it gives the right one or the deadline has
  passed: one attempt on \<open>net\<close>, then those on \<open>later\<close>.  Each is counted in metrics of its own.
\<close>

definition ping_once :: "crypto \<Rightarrow> network \<Rightarrow> nat \<Rightarrow> u64 \<Rightarrow> digest \<Rightarrow> unit remote" where
  "ping_once C net index epoch h w =
    (case bindR (rpc C net index Ping) (\<lambda>response. liftR (require_expected_pong response index epoch h)) w of
       (r, w') \<Rightarrow> (r, w'\<lparr>w_metrics := w_metrics w\<rparr>))"

fun await_ready :: "crypto \<Rightarrow> string \<Rightarrow> network \<Rightarrow> network list \<Rightarrow> nat \<Rightarrow> u64 \<Rightarrow> digest \<Rightarrow> unit remote" where
  "await_ready C message net [] index epoch h w =
    (case ping_once C net index epoch h w of
       (Inr _, w') \<Rightarrow> (Inr (), w')
     | (Inl _, w') \<Rightarrow> (Inl (RunFailed message), w'))"
| "await_ready C message net (net' # later) index epoch h w =
    (case ping_once C net index epoch h w of
       (Inr _, w') \<Rightarrow> (Inr (), w')
     | (Inl _, w') \<Rightarrow> await_ready C message net' later index epoch h w')"

definition spawn_node :: "crypto \<Rightarrow> phase_env \<Rightarrow> u64 \<Rightarrow> digest \<Rightarrow> u8 list \<Rightarrow> nat \<Rightarrow> unit remote" where
  "spawn_node C env epoch h snapshot index w =
    (case open_node C (fst (env_start_io env index)) (snd (env_start_io env index)) [] snapshot
        (cluster_config epoch (env_ports env) (env_wal_paths env) (env_snapshot_path env) index) of
       (Inl e, _) \<Rightarrow> (Inl (RunFailed ''validator exited before readiness''), w)
     | (Inr n, _) \<Rightarrow> await_ready C ''validator did not answer Ping before timeout'' (fst (env_start_ready env index))
         (snd (env_start_ready env index)) index epoch h (w\<lparr>w_nodes := w_nodes w @ [n]\<rparr>))"

fun spawn_nodes :: "crypto \<Rightarrow> phase_env \<Rightarrow> u64 \<Rightarrow> digest \<Rightarrow> u8 list \<Rightarrow> nat list \<Rightarrow> unit remote" where
  "spawn_nodes C env epoch h snapshot [] = liftR (Inr ())"
| "spawn_nodes C env epoch h snapshot (index # indices) =
    bindR (spawn_node C env epoch h snapshot index) (\<lambda>_. spawn_nodes C env epoch h snapshot indices)"

definition start_cluster :: "crypto \<Rightarrow> phase_env \<Rightarrow> u64 \<Rightarrow> digest \<Rightarrow> u8 list \<Rightarrow> unit remote" where
  "start_cluster C env epoch h snapshot = spawn_nodes C env epoch h snapshot [0..<VALIDATOR_COUNT]"

text \<open>Kill the process and start it again on its log, on a new port.\<close>

definition restart_node :: "crypto \<Rightarrow> phase_env \<Rightarrow> u64 \<Rightarrow> digest \<Rightarrow> u8 list \<Rightarrow> nat \<Rightarrow> unit remote" where
  "restart_node C env epoch h snapshot index w =
    (if index \<ge> length (w_nodes w) then (Inl (RunFailed ''unknown validator index''), w)
     else case open_node C (fst (env_restart_io env)) (snd (env_restart_io env)) (ws_file (ns_store (w_nodes w ! index))) snapshot
        (cluster_config epoch ((env_ports env)(index := env_restart_port env)) (env_wal_paths env) (env_snapshot_path env) index) of
       (Inl e, _) \<Rightarrow> (Inl (RunFailed ''validator exited during restart''), w)
     | (Inr n, _) \<Rightarrow> await_ready C ''restarted validator did not answer Ping'' (fst (env_restart_ready env))
         (snd (env_restart_ready env)) index epoch h (w\<lparr>w_nodes := (w_nodes w)[index := n]\<rparr>))"

section \<open>The stages of a run\<close>

text \<open>Round 1: Bob's and Charlie's proposals race for the honest validators, from a common start gate.\<close>

definition split_votes :: "crypto \<Rightarrow> phase_env \<Rightarrow> proposal \<Rightarrow> proposal \<Rightarrow> (vote list \<times> vote list) remote" where
  "split_votes C env bob_round_one charlie_round_one w =
    bindR (gated_crew C (env_net env 2) (env_split_spawned env)
      (\<lambda>k. if k = 0 then ''spawn Bob conflict-delivery thread'' else ''spawn Charlie conflict-delivery thread'') (env_split_events env)
      [collect_program (length (w_nodes w)) [2, 3, 4] (Prevote bob_round_one),
       collect_program (length (w_nodes w)) [5, 6] (Prevote charlie_round_one)])
    (\<lambda>votes. liftR (Inr (votes ! 0, votes ! 1))) w"

definition conflict_split ::
    "crypto \<Rightarrow> phase_env \<Rightarrow> lab_fixture \<Rightarrow> tx \<times> user_auth \<Rightarrow> tx \<times> user_auth \<Rightarrow> (nat \<times> nat) remote" where
  "conflict_split C env fixture bob charlie =
    bindR (modelR (make_proposal C (fx_manifest fixture) 1 (fst bob) (snd bob) None)) (\<lambda>bob_round_one.
    bindR (modelR (make_proposal C (fx_manifest fixture) 1 (fst charlie) (snd charlie) None)) (\<lambda>charlie_round_one.
    bindR (split_votes C env bob_round_one charlie_round_one) (\<lambda>(split_bob, split_charlie).
    let main_conflict = conflict_key C (cell_reference (fx_main_input fixture)) in
    bindR (modelR (intent_hash C (fst bob))) (\<lambda>bob_intent.
    bindR (modelR (intent_hash C (fst charlie))) (\<lambda>charlie_intent.
    bindR (fixtureR (verify_observed_votes C split_bob (fx_manifest fixture) PHASE_PREVOTE 1 main_conflict bob_intent)) (\<lambda>_.
    bindR (fixtureR (verify_observed_votes C split_charlie (fx_manifest fixture) PHASE_PREVOTE 1 main_conflict charlie_intent)) (\<lambda>_.
    bindR (require (length split_bob = 3 \<and> length split_charlie = 2) ''tentative honest split was not 3/2'') (\<lambda>_.
    liftR (Inr (length split_bob, length split_charlie))))))))))"

text \<open>The same transfer under another certificate leads to the same ledger.\<close>

definition alternate_certificate_check ::
    "crypto \<Rightarrow> lab_fixture \<Rightarrow> tx \<times> user_auth \<Rightarrow> finalized_transfer \<Rightarrow> unit remote" where
  "alternate_certificate_check C fixture bob bob_finalized =
    bindR (modelR (fixture_finality_chain C (fx_manifest fixture) (fst bob) 2 [0, 1, 2, 3, 4])) (\<lambda>(alternate_prevote_qc, alternate_precommit_qc).
    bindR (modelR (qc_digest C alternate_precommit_qc (fx_manifest fixture))) (\<lambda>alternate_digest.
    bindR (modelR (qc_digest C (ft_qc bob_finalized) (fx_manifest fixture))) (\<lambda>original_digest.
    bindR (require (alternate_digest \<noteq> original_digest) ''different signer subsets unexpectedly produced one QC digest'') (\<lambda>_.
    bindR (modelR (apply_finalized C (fx_genesis fixture) (fst bob) (snd bob) (ft_prevote_qc bob_finalized) (ft_qc bob_finalized)
      (fx_manifest fixture))) (\<lambda>(_, original_state).
    bindR (modelR (apply_finalized C (fx_genesis fixture) (fst bob) (snd bob) alternate_prevote_qc alternate_precommit_qc
      (fx_manifest fixture))) (\<lambda>(_, alternate_state).
    require (state_root C original_state = state_root C alternate_state \<and> st_live original_state = st_live alternate_state \<and>
        st_spent_by original_state = st_spent_by alternate_state)
      ''same intent with different valid QC subsets diverged semantic state''))))))"

text \<open>A certified opposing precommit, sent to the validators that had voted for Charlie.\<close>

fun count_lock_rejections :: "crypto \<Rightarrow> network \<Rightarrow> request \<Rightarrow> nat list \<Rightarrow> nat \<Rightarrow> nat remote" where
  "count_lock_rejections C net request [] n = liftR (Inr n)"
| "count_lock_rejections C net request (index # indices) n =
    bindR (rpc C net index request) (\<lambda>response. case response of
      Rejected code \<Rightarrow>
        if code = REJECT_DURABLE_LOCK then count_lock_rejections C net request indices (n + 1)
        else fail ''honest validator did not reject opposing PRECOMMIT at durable-lock boundary''
    | _ \<Rightarrow> fail ''honest validator did not reject opposing PRECOMMIT at durable-lock boundary'')"

definition opposing_precommit :: "crypto \<Rightarrow> phase_env \<Rightarrow> lab_fixture \<Rightarrow> tx \<times> user_auth \<Rightarrow> nat remote" where
  "opposing_precommit C env fixture charlie =
    (let main_conflict = conflict_key C (cell_reference (fx_main_input fixture)) in
    bindR (modelR (make_proposal C (fx_manifest fixture) 1 (fst charlie) (snd charlie) None)) (\<lambda>attack.
    bindR (modelR (intent_hash C (fst charlie))) (\<lambda>charlie_intent.
    bindR (modelR (mapE (\<lambda>index. sign_vote C (fx_manifest fixture) PHASE_PREVOTE 1 main_conflict charlie_intent zero_array (of_nat index)
      (lab_validator_key C OLD_EPOCH index)) [0..<Q])) (\<lambda>prevotes.
    bindR (modelR (assemble_qc C prevotes (fx_manifest fixture) PHASE_PREVOTE 1 main_conflict charlie_intent None)) (\<lambda>prevote_qc.
    bindR (count_lock_rejections C (env_net env 4) (Precommit attack prevote_qc) [5, 6] 0) (\<lambda>rejections.
    bindR (require (rejections = 2) ''opposing PRECOMMIT durable-lock rejection count was not 2/2'') (\<lambda>_.
    liftR (Inr rejections))))))))"

text \<open>After the restart: Charlie's proposal in round 3, sent to everybody.\<close>

fun ask_after_restart :: "crypto \<Rightarrow> network \<Rightarrow> request \<Rightarrow> nat list \<Rightarrow> vote list \<times> nat \<Rightarrow> (vote list \<times> nat) remote" where
  "ask_after_restart C net request [] acc = liftR (Inr acc)"
| "ask_after_restart C net request (index # indices) acc =
    bindR (rpc C net index request) (\<lambda>response. case response of
      VoteResponse vote \<Rightarrow>
        if unat (v_signer_index vote) = index then ask_after_restart C net request indices (fst acc @ [vote], snd acc)
        else fail ''validator returned post-restart vote for another signer''
    | Rejected code \<Rightarrow>
        if index \<ge> 2 \<and> code = REJECT_DURABLE_LOCK then ask_after_restart C net request indices (fst acc, snd acc + 1)
        else fail ''validator returned ambiguous post-restart conflict rejection code''
    | _ \<Rightarrow> fail ''validator returned unexpected post-restart response'')"

definition conflict_after_restart :: "crypto \<Rightarrow> phase_env \<Rightarrow> lab_fixture \<Rightarrow> tx \<times> user_auth \<Rightarrow> (nat \<times> nat) remote" where
  "conflict_after_restart C env fixture charlie =
    bindR (modelR (make_proposal C (fx_manifest fixture) 3 (fst charlie) (snd charlie) None)) (\<lambda>charlie_round_three.
    bindR (ask_after_restart C (env_net env 6) (Prevote charlie_round_three) [0..<N] ([], 0)) (\<lambda>(votes, rejections).
    bindR (modelR (intent_hash C (fst charlie))) (\<lambda>charlie_intent.
    bindR (fixtureR (verify_observed_votes C votes (fx_manifest fixture) PHASE_PREVOTE 3
      (conflict_key C (cell_reference (fx_main_input fixture))) charlie_intent)) (\<lambda>_.
    bindR (require (length votes = 2 \<and> list_all (\<lambda>v. v_signer_index v < 2) votes \<and> rejections = 5)
      ''post-lock Charlie conflict obtained unexpected shares/rejections'') (\<lambda>_.
    liftR (Inr (length votes, rejections)))))))"

text \<open>Bob's transfer on the controller's own ledger: who owns what, and that nothing is Charlie's.\<close>

definition owned_by :: "public_key \<Rightarrow> state \<Rightarrow> cell list" where
  "owned_by owner s = filter (\<lambda>cell. cell_owner cell = owner) (map snd (sorted_list_of_fmap (st_live s)))"

definition settle_bob :: "crypto \<Rightarrow> lab_fixture \<Rightarrow> u64 \<Rightarrow> finalized_transfer \<Rightarrow> (state \<times> apply_receipt) remote" where
  "settle_bob C fixture genesis_total bob =
    bindR (modelR (apply_finalized C (fx_genesis fixture) (ft_tx bob) (ft_auth bob) (ft_prevote_qc bob) (ft_qc bob) (fx_manifest fixture)))
    (\<lambda>(outcome, controller_state). case outcome of
      AlreadyApplied _ \<Rightarrow> fail ''first controller Bob apply was duplicate''
    | Applied receipt \<Rightarrow>
      if length (rc_output_refs receipt) \<noteq> 3 then fail ''Bob transfer did not create recipient/change/fee cells''
      else (case (live_cell controller_state (rc_output_refs receipt ! 0), live_cell controller_state (rc_output_refs receipt ! 1),
          live_cell controller_state (rc_output_refs receipt ! 2)) of
        (Some bob_cell, Some change_cell, Some fee_cell) \<Rightarrow>
          if cell_amount bob_cell \<noteq> 60 \<or> cell_owner bob_cell \<noteq> fx_bob fixture \<or>
              cell_amount change_cell \<noteq> 39 \<or> cell_owner change_cell \<noteq> public_of C (fx_alice fixture) \<or>
              cell_amount fee_cell \<noteq> 1 \<or> cell_owner fee_cell \<noteq> fee_collector C
          then fail ''Bob/Alice/fee outputs, conservation, or loser absence invariant failed''
          else bindR (modelR (total_value controller_state)) (\<lambda>total.
          bindR (require (total = genesis_total \<and> owned_by (fx_charlie fixture) controller_state = [])
            ''Bob/Alice/fee outputs, conservation, or loser absence invariant failed'') (\<lambda>_.
          liftR (Inr (controller_state, receipt))))
      | _ \<Rightarrow> fail ''Bob output absent''))"

definition settle_again :: "crypto \<Rightarrow> lab_fixture \<Rightarrow> finalized_transfer \<Rightarrow> state \<Rightarrow> apply_receipt \<Rightarrow> state remote" where
  "settle_again C fixture bob controller_state bob_receipt =
    bindR (modelR (apply_finalized C controller_state (ft_tx bob) (ft_auth bob) (ft_prevote_qc bob) (ft_qc bob) (fx_manifest fixture)))
    (\<lambda>(outcome, s). case outcome of
      Applied _ \<Rightarrow> fail ''duplicate controller apply advanced state twice''
    | AlreadyApplied receipt \<Rightarrow>
      bindR (require (receipt = bob_receipt) ''duplicate controller apply changed receipt'') (\<lambda>_. liftR (Inr s)))"

text \<open>The independent transfers, in three orders.\<close>

definition bench_orders :: "nat \<Rightarrow> nat list list" where
  "bench_orders n = [[0..<n], rev [0..<n], deterministic_permutation n LAB_SEED]"

definition live_schedules :: "nat \<Rightarrow> nat list list" where
  "live_schedules n = map (\<lambda>index. bench_orders n ! (index mod 3)) [0..<N]"

definition bench_states ::
    "crypto \<Rightarrow> lab_fixture \<Rightarrow> u64 \<Rightarrow> nat \<Rightarrow> state \<Rightarrow> finalized_transfer list \<Rightarrow> state remote" where
  "bench_states C fixture genesis_total bench_count before_bench fts =
    (let along = (\<lambda>k. fixtureR (apply_in_order C before_bench fts (bench_orders bench_count ! k) (fx_manifest fixture))) in
    bindR (along 0) (\<lambda>forward_state.
    bindR (along 1) (\<lambda>reverse_state.
    bindR (along 2) (\<lambda>shuffled_state.
    bindR (if state_root C forward_state \<noteq> state_root C reverse_state \<or> state_root C forward_state \<noteq> state_root C shuffled_state
       then fail ''independent transfer schedules did not converge'' else modelR (total_value forward_state)) (\<lambda>total.
    bindR (require (total = genesis_total) ''independent transfer schedules did not converge'') (\<lambda>_.
    liftR (Inr forward_state)))))))"

fun compare_roots :: "crypto \<Rightarrow> network \<Rightarrow> digest \<Rightarrow> nat list \<Rightarrow> u64 \<times> u64 \<Rightarrow> (u64 \<times> u64) remote" where
  "compare_roots C net expected_root [] acc = liftR (Inr acc)"
| "compare_roots C net expected_root (i # is) acc =
    bindR (query_validator C net i) (\<lambda>q.
    if q_state_root q \<noteq> expected_root then fail ''live validator roots failed to converge across local schedules''
    else compare_roots C net expected_root is (max (fst acc) (q_snapshot_bytes q), max (snd acc) (q_wal_bytes q)))"

section \<open>The run\<close>

record phase_outcome =
  po_final_root :: digest
  po_genesis_root :: digest
  po_genesis_total :: u64
  po_final_total :: u64
  po_bench_elapsed :: nat
  po_bench_completed :: nat
  po_invalid_owner_votes :: u64
  po_invalid_owner_rejections :: u64
  po_mutation_count :: nat
  po_qc_negative_count :: nat
  po_max_snapshot_bytes :: u64
  po_max_wal_bytes :: u64
  po_model_cases :: u64
  po_split_bob_votes :: nat
  po_split_charlie_votes :: nat
  po_post_restart_conflict_votes :: nat
  po_post_restart_lock_rejections :: nat
  po_conflicting_precommit_rejections :: nat
  po_loser_live_outputs :: nat
  po_decision_vector :: "u64 list"

text \<open>What the stages up to the restart establish.\<close>

record conflict_findings =
  cf_invalid_owner_votes :: u64
  cf_invalid_owner_rejections :: u64
  cf_mutation_count :: nat
  cf_split :: "nat \<times> nat"
  cf_bob :: finalized_transfer
  cf_qc_negative_count :: nat
  cf_precommit_rejections :: nat
  cf_after_restart :: "nat \<times> nat"

definition phase_setup :: "crypto \<Rightarrow> phase_env \<Rightarrow> nat \<Rightarrow> (lab_fixture \<times> digest \<times> u64 \<times> u8 list) remote" where
  "phase_setup C env bench_count =
    bindR (modelR (build_fixture C bench_count)) (\<lambda>fixture.
    bindR (modelR (committee_hash C (fx_manifest fixture))) (\<lambda>manifest_hash.
    bindR (require (N = VALIDATOR_COUNT \<and> Q = 5 \<and> length (m_members (fx_manifest fixture)) = 7)
      ''topology preflight is not N=7/Q=5'') (\<lambda>_.
    bindR (modelR (total_value (fx_genesis fixture))) (\<lambda>genesis_total.
    bindR (liftR (map_err RemoteWireError (encode_state (fx_genesis fixture)))) (\<lambda>snapshot_bytes.
    bindR (start_cluster C env OLD_EPOCH manifest_hash snapshot_bytes) (\<lambda>_.
    bindR (\<lambda>w. require (length (w_nodes w) = 7 \<and> length (filter ns_byzantine (w_nodes w)) = 2)
      ''live topology did not create exactly seven nodes with two Byzantine fixtures'' w) (\<lambda>_.
    liftR (Inr (fixture, manifest_hash, genesis_total, snapshot_bytes)))))))))"

definition phase_conflict :: "crypto \<Rightarrow> phase_env \<Rightarrow> lab_fixture \<Rightarrow> digest \<Rightarrow> u8 list \<Rightarrow> conflict_findings remote" where
  "phase_conflict C env fixture manifest_hash snapshot_bytes =
    bindR (live_owner_authorization_negatives C (env_net env 1) fixture) (\<lambda>(invalid_owner_votes, invalid_owner_rejections).
    bindR (modelR (make_main_transfer C fixture (fx_bob fixture) 1)) (\<lambda>bob.
    bindR (modelR (make_main_transfer C fixture (fx_charlie fixture) 2)) (\<lambda>charlie.
    bindR (fixtureR (signed_field_mutations_rejected C (fst bob) (snd bob) (fx_manifest fixture))) (\<lambda>mutation_count.
    bindR (fixtureR (conservation_negatives_rejected C fixture (fst bob))) (\<lambda>_.
    bindR (conflict_split C env fixture bob charlie) (\<lambda>split.
    bindR (finalize_transfer C (env_net env 3) (env_bob_elapsed env) (fx_manifest fixture) (fst bob) (snd bob) 2) (\<lambda>bob_finalized.
    bindR (fixtureR (quorum_negative_matrix C bob_finalized (fx_manifest fixture))) (\<lambda>qc_negative_count.
    bindR (require (length (qc_votes (ft_qc bob_finalized)) = Q) ''Bob finality certificate is not exactly 5-of-7'') (\<lambda>_.
    bindR (alternate_certificate_check C fixture bob bob_finalized) (\<lambda>_.
    bindR (opposing_precommit C env fixture charlie) (\<lambda>rejections.
    bindR (restart_node C env OLD_EPOCH manifest_hash snapshot_bytes 2) (\<lambda>_.
    bindR (conflict_after_restart C env fixture charlie) (\<lambda>after_restart.
    liftR (Inr \<lparr>cf_invalid_owner_votes = invalid_owner_votes, cf_invalid_owner_rejections = invalid_owner_rejections,
      cf_mutation_count = mutation_count, cf_split = split, cf_bob = bob_finalized, cf_qc_negative_count = qc_negative_count,
      cf_precommit_rejections = rejections, cf_after_restart = after_restart\<rparr>))))))))))))))"

text \<open>Bob's transfer is applied by the controller and at every validator, twice.\<close>

definition phase_settle :: "crypto \<Rightarrow> phase_env \<Rightarrow> lab_fixture \<Rightarrow> u64 \<Rightarrow> finalized_transfer \<Rightarrow> state remote" where
  "phase_settle C env fixture genesis_total bob =
    bindR (settle_bob C fixture genesis_total bob) (\<lambda>(controller_state, bob_receipt).
    bindR (\<lambda>w. apply_at C (env_net env 7) bob False [0..<length (w_nodes w)] w) (\<lambda>_.
    bindR (settle_again C fixture bob controller_state bob_receipt) (\<lambda>controller_state'.
    bindR (\<lambda>w. apply_at C (env_net env 8) bob True [0..<length (w_nodes w)] w) (\<lambda>_.
    liftR (Inr controller_state')))))"

definition phase_bench ::
    "crypto \<Rightarrow> phase_env \<Rightarrow> lab_fixture \<Rightarrow> u64 \<Rightarrow> nat \<Rightarrow> state \<Rightarrow> (finalized_transfer list \<times> state \<times> u64 \<times> u64) remote" where
  "phase_bench C env fixture genesis_total bench_count before_bench =
    bindR (modelR (make_bench_transfers C fixture)) (\<lambda>transfers.
    bindR (finalize_bench_concurrently C (env_net env 9) (env_finalize_spawned env) (env_finalize_events env) (env_elapsed env)
      (fx_manifest fixture) transfers)
      (\<lambda>bench_finalized.
    bindR (require (length bench_finalized = bench_count) ''not all independent transfers finalized'') (\<lambda>_.
    bindR (bench_states C fixture genesis_total bench_count before_bench bench_finalized) (\<lambda>forward_state.
    bindR (apply_bench_to_live_nodes C (env_net env 10) (env_apply_spawned env) (env_apply_schedule env) bench_finalized (live_schedules bench_count)) (\<lambda>_.
    bindR (\<lambda>w. compare_roots C (env_net env 11) (state_root C forward_state) [0..<length (w_nodes w)] (0, 0) w)
      (\<lambda>(max_snapshot_bytes, max_wal_bytes).
    liftR (Inr (bench_finalized, forward_state, max_snapshot_bytes, max_wal_bytes))))))))"

definition run_phase_a_once :: "crypto \<Rightarrow> phase_env \<Rightarrow> nat \<Rightarrow> phase_outcome remote" where
  "run_phase_a_once C env bench_count =
    bindR (phase_setup C env bench_count) (\<lambda>(fixture, manifest_hash, genesis_total, snapshot_bytes).
    bindR (phase_conflict C env fixture manifest_hash snapshot_bytes) (\<lambda>found.
    bindR (phase_settle C env fixture genesis_total (cf_bob found)) (\<lambda>before_bench.
    bindR (phase_bench C env fixture genesis_total bench_count before_bench)
      (\<lambda>(bench_finalized, forward_state, max_snapshot_bytes, max_wal_bytes).
    bindR (fixtureR exhaustive_conflict_safety_cases) (\<lambda>model_cases.
    bindR (require (env_cleaned env) ''validator processes were not reaped'') (\<lambda>_.
    bindR (modelR (total_value forward_state)) (\<lambda>final_total.
    liftR (Inr \<lparr>po_final_root = state_root C forward_state, po_genesis_root = state_root C (fx_genesis fixture),
      po_genesis_total = genesis_total, po_final_total = final_total, po_bench_elapsed = env_bench_elapsed env,
      po_bench_completed = length bench_finalized, po_invalid_owner_votes = cf_invalid_owner_votes found,
      po_invalid_owner_rejections = cf_invalid_owner_rejections found, po_mutation_count = cf_mutation_count found,
      po_qc_negative_count = cf_qc_negative_count found, po_max_snapshot_bytes = max_snapshot_bytes,
      po_max_wal_bytes = max_wal_bytes, po_model_cases = model_cases, po_split_bob_votes = fst (cf_split found),
      po_split_charlie_votes = snd (cf_split found), po_post_restart_conflict_votes = fst (cf_after_restart found),
      po_post_restart_lock_rejections = snd (cf_after_restart found),
      po_conflicting_precommit_rejections = cf_precommit_rejections found,
      po_loser_live_outputs = length (owned_by (fx_charlie fixture) forward_state),
      po_decision_vector =
        [cf_invalid_owner_votes found, cf_invalid_owner_rejections found, of_nat (fst (cf_split found)), of_nat (snd (cf_split found)),
         of_nat (length (qc_votes (ft_qc (cf_bob found)))), of_nat (cf_precommit_rejections found),
         of_nat (fst (cf_after_restart found)), of_nat (snd (cf_after_restart found)), of_nat (cf_mutation_count found),
         of_nat (cf_qc_negative_count found), of_nat (length bench_finalized), model_cases, genesis_total, final_total]\<rparr>))))))))"

section \<open>Two clean runs\<close>

text \<open>The runs share the measurements; the second starts its own cluster.\<close>

definition clean_run :: "crypto \<Rightarrow> phase_env \<Rightarrow> nat \<Rightarrow> run_metrics \<Rightarrow> (controller_error + phase_outcome) \<times> run_metrics" where
  "clean_run C env bench_count metrics =
    (case run_phase_a_once C env bench_count \<lparr>w_nodes = [], w_metrics = metrics\<rparr> of (r, w) \<Rightarrow> (r, w_metrics w))"

definition outcome_consistent :: "nat \<Rightarrow> phase_outcome \<Rightarrow> bool" where
  "outcome_consistent bench_count o' \<longleftrightarrow> po_bench_completed o' = bench_count \<and> po_genesis_total o' = po_final_total o' \<and>
    po_loser_live_outputs o' = 0 \<and> po_conflicting_precommit_rejections o' = 2 \<and> po_post_restart_lock_rejections o' = 5"

definition latency_samples :: "run_metrics \<Rightarrow> u64" where
  "latency_samples metrics = (case phase_summary ''client_submit_to_qc'' metrics of None \<Rightarrow> 0 | Some summary \<Rightarrow> ls_samples summary)"

section \<open>Successful steps\<close>

lemma bindR_iff: "bindR m f w = (Inr y, w') \<longleftrightarrow> (\<exists>x w1. m w = (Inr x, w1) \<and> f x w1 = (Inr y, w'))"
  by (auto simp: bindR_def split: prod.splits sum.splits)

lemma require_Inr [simp]: "require ok message w = (Inr u, w') \<longleftrightarrow> ok \<and> w' = w"
  by (auto simp: require_def fail_def)

lemma fail_Inr [simp]: "fail message w \<noteq> (Inr x, w')"
  by (simp add: fail_def)

end
