(* ===== verification/PhaseSafety.thy ===== *)
theory PhaseSafety
  imports Phase
begin

text \<open>
  What a run of the controller establishes when it succeeds: its decisions are the same in every run,
  its root does not depend on the certificates, the network or the interleavings, and the
  comparisons of \<open>run_controller\<close> between two successful runs cannot fail.
\<close>

section \<open>Ledgers that differ in their certificates only\<close>

lemma apply_view_cong:
  assumes eq: "semantic_view s = semantic_view t"
    and s: "apply_finalized C s tx auth pq cq m = Inr (Applied rc, s')"
    and t: "apply_finalized C t tx auth' pq' cq' m' = Inr (Applied rc', t')"
  shows "semantic_view s' = semantic_view t'"
proof -
  obtain i outs where A: "check_finality C tx pq cq m = Inr i" "materialize_outputs C tx = Inr outs"
    "s' = commit tx i rc outs s" "rc_output_refs rc = map cell_reference outs"
    using s by (auto simp: apply_Applied_iff)
  obtain j outs' where B: "check_finality C tx pq' cq' m' = Inr j" "materialize_outputs C tx = Inr outs'"
    "t' = commit tx j rc' outs' t" "rc_output_refs rc' = map cell_reference outs'"
    using t by (auto simp: apply_Applied_iff)
  have same: "j = i" "outs' = outs"
    using A(1,2) B(1,2) check_finalityD(1) by (metis Inr_inject)+
  have "fmmap rc_output_refs (fmupd i rc (st_applied s)) = fmmap rc_output_refs (fmupd i rc' (st_applied t))"
    using eq A(4) B(4) same by (simp add: semantic_view_def fmmap_fmupd)
  then show ?thesis
    using eq by (simp add: A(3) B(3) same semantic_view_def)
qed

lemma apply_in_order_view:
  assumes "apply_in_order C s fts order m = Inr s'" and "apply_in_order C t fts' order m' = Inr t'"
    and "semantic_view s = semantic_view t" and "map ft_tx fts = map ft_tx fts'"
  shows "semantic_view s' = semantic_view t'"
  using assms(1-3) unfolding apply_in_order_def
proof (induction order arbitrary: s t)
  case (Cons i order)
  obtain s1 t1 where step: "apply_transfer C fts m i s = Inr s1" "apply_transfer C fts' m' i t = Inr t1"
    and rest: "foldE (apply_transfer C fts m) order s1 = Inr s'" "foldE (apply_transfer C fts' m') order t1 = Inr t'"
    using Cons.prems(1,2) by auto
  have "ft_tx (fts ! i) = ft_tx (fts' ! i)"
    using assms(4) step by (metis apply_transfer_iff length_map nth_map)
  then have "semantic_view s1 = semantic_view t1"
    using step apply_view_cong [OF Cons.prems(3)] unfolding apply_transfer_iff by metis
  from Cons.IH [OF rest this] show ?case .
qed simp

section \<open>Owners\<close>

definition nothing_of :: "public_key \<Rightarrow> state \<Rightarrow> bool" where
  "nothing_of owner s \<longleftrightarrow> (\<forall>r c. fmlookup (st_live s) r = Some c \<longrightarrow> cell_owner c \<noteq> owner)"

lemma owned_by_iff: "owned_by owner s = [] \<longleftrightarrow> nothing_of owner s"
  using sorted_list_of_fmap_mem [of _ _ "st_live s"] by (fastforce simp: owned_by_def nothing_of_def filter_empty_conv)

lemma apply_owners:
  assumes ap: "apply_finalized C s tx auth pq cq m = Inr (Applied rc, s')" and s: "nothing_of owner s"
    and outs: "owner \<notin> out_owner ` set (tx_outputs tx)" "owner \<noteq> fee_collector C"
  shows "nothing_of owner s'"
proof -
  obtain i cells where c: "materialize_outputs C tx = Inr cells" "distinct (map cell_reference cells)" "s' = commit tx i rc cells s"
    using ap by (auto simp: apply_Applied_iff)
  have "map cell_owner cells = map out_owner (effects C tx)"
    using arg_cong [OF materialize_coins [OF c(1)], of "map fst"] by (simp add: comp_def)
  then have "cell_owner ` set cells = out_owner ` set (effects C tx)"
    by (metis list.set_map)
  then have "owner \<notin> cell_owner ` set cells"
    using outs by (simp add: effects_def)
  then show ?thesis
    using s by (auto simp: nothing_of_def c(3) commit_live_lookup [OF c(2)] simp del: commit_simps)
qed

lemma apply_in_order_owners:
  assumes "apply_in_order C s fts order m = Inr s'" and "nothing_of owner s" and "owner \<noteq> fee_collector C"
    and outs: "\<forall>ft \<in> set fts. owner \<notin> out_owner ` set (tx_outputs (ft_tx ft))"
  shows "nothing_of owner s'"
  using assms(1,2) unfolding apply_in_order_def
proof (induction order arbitrary: s)
  case (Cons i order)
  then obtain s1 where s1: "apply_transfer C fts m i s = Inr s1" "foldE (apply_transfer C fts m) order s1 = Inr s'"
    by auto
  then have "nothing_of owner s1"
    using apply_owners [OF _ Cons.prems(2) _ assms(3)] outs unfolding apply_transfer_iff by (metis nth_mem)
  then show ?case
    by (rule Cons.IH [OF s1(2)])
qed simp

section \<open>What a thread can return\<close>

text \<open>\<open>results_in P p\<close>: whatever is answered, a result of \<open>p\<close> satisfies \<open>P\<close>.\<close>

primrec results_in :: "('a \<Rightarrow> bool) \<Rightarrow> 'a program \<Rightarrow> bool" where
  "results_in P (Done r) \<longleftrightarrow> (\<forall>x. r = Inr x \<longrightarrow> P x)"
| "results_in P (Call i request cont) \<longleftrightarrow> (\<forall>response. results_in P (cont response))"
| "results_in P (Note g p) \<longleftrightarrow> results_in P p"

lemma results_in_bindP: "results_in R p \<Longrightarrow> (\<And>x. R x \<Longrightarrow> results_in P (f x)) \<Longrightarrow> results_in P (bindP p f)"
  by (induction p) (auto split: sum.splits)

lemma results_in_step: "results_in P p \<Longrightarrow> solo_step C net p w = (p', w') \<Longrightarrow> results_in P p'"
  by (cases p) (auto simp: solo_step_def split: prod.splits sum.splits)

lemma results_in_any: "results_in (\<lambda>_. True) p"
  by (induction p) auto

text \<open>\<open>owes p n\<close>: before it returns a result, \<open>p\<close> notes \<open>n\<close> more latencies of finality.\<close>

abbreviation finality_samples :: "world \<Rightarrow> nat" where
  "finality_samples w \<equiv> length (phase_samples (rm_phases (w_metrics w)) ''client_submit_to_qc'')"

primrec owes :: "'a program \<Rightarrow> nat \<Rightarrow> bool" where
  "owes (Done r) n \<longleftrightarrow> (is_ok r \<longrightarrow> n = 0)"
| "owes (Call i request cont) n \<longleftrightarrow> (\<forall>response. owes (cont response) n)"
| "owes (Note g p) n \<longleftrightarrow> (\<exists>us. g = record_latency ''client_submit_to_qc'' us) \<and> 0 < n \<and> owes p (n - 1)"

lemma owes_bindP: "owes p 0 \<Longrightarrow> (\<And>x. owes (f x) n) \<Longrightarrow> owes (bindP p f) n"
  by (induction p) (auto simp: is_ok_def split: sum.splits)

lemma rpc_quiet: "rpc C net i request w = (res, w') \<Longrightarrow> rm_phases (w_metrics w') = rm_phases (w_metrics w)"
  by (auto simp: rpc_def rpc_raw_def bindR_def liftR_def Let_def metrics_request_def split: prod.splits sum.splits if_splits link.splits)

lemma record_finality [simp]:
  "phase_samples (rm_phases (record_latency ''client_submit_to_qc'' us m)) ''client_submit_to_qc'' =
    phase_samples (rm_phases m) ''client_submit_to_qc'' @ [of_nat (min (2 ^ 64 - 1) us)]"
  by (simp add: record_latency_def record_latency_us_def extend_phase_def)

lemma owes_step:
  assumes "owes p n" and "solo_step C net p w = (p', w')"
  shows "\<exists>n'. owes p' n' \<and> finality_samples w' + n' = finality_samples w + n"
  using assms by (cases p) (auto simp: solo_step_def is_ok_def rpc_quiet split: prod.splits sum.splits)

definition crew_yields :: "('a \<Rightarrow> bool) list \<Rightarrow> nat \<Rightarrow> 'a program list \<Rightarrow> world \<Rightarrow> bool" where
  "crew_yields Ps due ps w \<longleftrightarrow> list_all2 results_in Ps ps \<and>
    (\<exists>ns. list_all2 owes ps ns \<and> finality_samples w + sum_list ns = due)"

interpretation yields: crew_property C net "crew_yields Ps due"
  for C net Ps due
proof
  fix ps w k p w'
  assume inv: "crew_yields Ps due ps w" and k: "k < length ps" and step: "solo_step C net (ps ! k) w = (p, w')"
  obtain ns where r: "list_all2 results_in Ps ps" and ns: "list_all2 owes ps ns" "finality_samples w + sum_list ns = due"
    using inv by (auto simp: crew_yields_def)
  have "list_all2 results_in Ps (ps[k := p])"
    using r results_in_step [OF _ step] k by (auto simp: list_all2_conv_all_nth nth_list_update)
  moreover obtain n' where n': "owes p n'" "finality_samples w' + n' = finality_samples w + ns ! k"
    using owes_step [OF list_all2_nthD [OF ns(1) k] step] by blast
  have len: "k < length ns"
    using ns(1) k by (simp add: list_all2_lengthD [symmetric])
  have "list_all2 owes (ps[k := p]) (ns[k := n'])"
    using ns(1) n'(1) by (rule list_all2_update_cong)
  moreover have "finality_samples w' + sum_list (ns[k := n']) = due"
    using ns(2) n'(2) len elem_le_sum_list [OF len] by (simp add: sum_list_update)
  ultimately show "crew_yields Ps due (ps[k := p]) w'"
    unfolding crew_yields_def by blast
qed

lemma join_yields:
  assumes start: "list_all2 results_in Ps ps" "list_all2 owes ps ns" and join: "join_crew C net schedule ps w = (Inr xs, w')"
  shows "list_all2 (\<lambda>P x. P x) Ps xs" and "finality_samples w' = finality_samples w + sum_list ns"
proof -
  have "crew_yields Ps (finality_samples w + sum_list ns) ps w"
    using start by (auto simp: crew_yields_def)
  then obtain rs w1 where rs: "join_crew C net schedule ps w = (mapE id rs, w1)"
    "crew_yields Ps (finality_samples w + sum_list ns) (map Done rs) w1"
    by (rule yields.kept_by_join [of _ _ _ _ C net schedule])
  then have "mapE id rs = Inr xs" and w1: "w1 = w'"
    using join by simp_all
  then have xs: "list_all2 (\<lambda>r x. r = Inr x) rs xs"
    by (simp add: mapE_list_all2)
  obtain ns' where r: "list_all2 results_in Ps (map Done rs)" and ns': "list_all2 owes (map Done rs) ns'"
    "finality_samples w' + sum_list ns' = finality_samples w + sum_list ns"
    using rs(2) by (auto simp: crew_yields_def w1)
  show "list_all2 (\<lambda>P x. P x) Ps xs"
    using r xs by (auto simp: list_all2_conv_all_nth)
  have "\<forall>n \<in> set ns'. n = 0"
    using ns'(1) xs by (auto simp: list_all2_conv_all_nth is_ok_def in_set_conv_nth)
  then have "sum_list ns' = 0"
    by (induction ns') auto
  then show "finality_samples w' = finality_samples w + sum_list ns"
    using ns'(2) by linarith
qed

section \<open>The threads of a run\<close>

lemma collect_program_owes: "owes (collect_program ports indices request) 0"
proof (induction indices)
  case (Cons index indices)
  then show ?case
    by (auto simp: is_ok_def split: sum.splits intro!: owes_bindP)
qed (simp add: is_ok_def)

lemma after_precommits_facts:
  "owes (after_precommits C elapsed manifest tx auth rnd intent pq d vs) 1"
  "results_in (\<lambda>ft. ft_tx ft = tx \<and> ft_auth ft = auth) (after_precommits C elapsed manifest tx auth rnd intent pq d vs)"
  by (auto simp: after_precommits_def is_ok_def split: sum.splits)

lemma after_prevotes_facts:
  "owes (after_prevotes C ports elapsed manifest tx auth rnd proposal intent vs) 1"
  "results_in (\<lambda>ft. ft_tx ft = tx \<and> ft_auth ft = auth) (after_prevotes C ports elapsed manifest tx auth rnd proposal intent vs)"
proof -
  note then_vote = owes_bindP [OF collect_program_owes after_precommits_facts(1)]
    results_in_bindP [OF results_in_any after_precommits_facts(2)]
  show "owes (after_prevotes C ports elapsed manifest tx auth rnd proposal intent vs) 1"
    "results_in (\<lambda>ft. ft_tx ft = tx \<and> ft_auth ft = auth) (after_prevotes C ports elapsed manifest tx auth rnd proposal intent vs)"
    unfolding after_prevotes_def by (auto simp: is_ok_def then_vote simp del: One_nat_def split: sum.splits)
qed

lemma finalize_program_facts:
  "owes (finalize_program C ports elapsed manifest tx auth rnd) 1"
  "results_in (\<lambda>ft. ft_tx ft = tx \<and> ft_auth ft = auth) (finalize_program C ports elapsed manifest tx auth rnd)"
proof -
  note then_vote = owes_bindP [OF collect_program_owes after_prevotes_facts(1)]
    results_in_bindP [OF results_in_any after_prevotes_facts(2)]
  show "owes (finalize_program C ports elapsed manifest tx auth rnd) 1"
    "results_in (\<lambda>ft. ft_tx ft = tx \<and> ft_auth ft = auth) (finalize_program C ports elapsed manifest tx auth rnd)"
    unfolding finalize_program_def by (auto simp: is_ok_def then_vote simp del: One_nat_def split: sum.splits)
qed

lemma schedule_program_owes: "owes (schedule_program i finalized order) 0"
  by (induction order) (auto simp: is_ok_def Let_def split: response.splits)

lemma finalize_transfer_facts:
  assumes "finalize_transfer C net elapsed manifest tx auth rnd w = (Inr ft, w')"
  shows "ft_tx ft = tx" and "ft_auth ft = auth" and "finality_samples w' = finality_samples w + 1"
proof -
  let ?p = "finalize_program C (length (w_nodes w)) elapsed manifest tx auth rnd"
  have "join_crew C net [] [?p] w = (Inr [ft], w')"
    using assms by (simp add: join_crew_def run_crew_def run_finalize_program [OF refl])
  note r = join_yields [OF _ _ this, of "[\<lambda>ft. ft_tx ft = tx \<and> ft_auth ft = auth]" "[1]"]
  show "ft_tx ft = tx" "ft_auth ft = auth" "finality_samples w' = finality_samples w + 1"
    using r finalize_program_facts by simp_all
qed

lemma gated_yields:
  assumes short: "\<forall>p \<in> set ps. ends_within p 11" and start: "list_all2 results_in Ps ps" "list_all2 owes ps ns"
    and gated: "gated_crew C net spawned message events ps w = (Inr xs, w')"
  shows "list_all2 (\<lambda>P x. P x) Ps xs" and "finality_samples w' = finality_samples w + sum_list ns"
proof -
  obtain schedule where "join_crew C net schedule ps w = (Inr xs, w')"
    using gated_crew_joins [OF short, of spawned C net message events w] gated by (metis Inl_Inr_False prod.inject)
  from join_yields [OF start this] show "list_all2 (\<lambda>P x. P x) Ps xs" "finality_samples w' = finality_samples w + sum_list ns" .
qed

lemma finalize_bench_facts:
  assumes "finalize_bench_concurrently C net spawned events elapsed manifest transfers w = (Inr fts, w')"
  shows "map ft_tx fts = map fst transfers" and "finality_samples w' = finality_samples w + length transfers"
proof -
  let ?ps = "finalize_programs C (length (w_nodes w)) elapsed manifest transfers"
  let ?Ps = "map (\<lambda>t ft. ft_tx ft = fst t \<and> ft_auth ft = snd t) transfers" and ?ns = "replicate (length transfers) 1"
  have "list_all2 results_in ?Ps ?ps" "list_all2 owes ?ps ?ns"
    using finalize_program_facts by (auto simp: finalize_programs_def list_all2_conv_all_nth nth_enumerate_eq split: prod.splits)
  note r = gated_yields [OF finalize_programs_end this assms [unfolded finalize_bench_concurrently_def]]
  show "finality_samples w' = finality_samples w + length transfers"
    using r(2) by (simp add: sum_list_replicate)
  show "map ft_tx fts = map fst transfers"
    using r(1) by (auto simp: list_all2_conv_all_nth list_eq_iff_nth_eq)
qed

section \<open>Requests that leave the measurements of finality alone\<close>

definition quiet :: "'a remote \<Rightarrow> bool" where
  "quiet m \<longleftrightarrow> (\<forall>w r w'. m w = (r, w') \<longrightarrow> finality_samples w' = finality_samples w)"

lemma quiet_intros [intro]:
  "quiet (liftR r)" "quiet (rpc C net i request)"
  "quiet m \<Longrightarrow> (\<And>x. quiet (f x)) \<Longrightarrow> quiet (bindR m f)"
  "quiet (fail message)" "quiet (require ok message)"
proof -
  show "quiet (liftR r)" "quiet (rpc C net i request)" "quiet (fail message)" "quiet (require ok message)"
    by (auto simp: quiet_def liftR_def rpc_quiet fail_def require_def)
  assume "quiet m" "\<And>x. quiet (f x)"
  then show "quiet (bindR m f)"
    unfolding quiet_def bindR_def by (force split: prod.splits sum.splits)
qed

lemma quietD: "quiet m \<Longrightarrow> m w = (r, w') \<Longrightarrow> finality_samples w' = finality_samples w"
  by (simp add: quiet_def)

lemma quiet_cong: "(\<And>w. m w = m' w) \<Longrightarrow> quiet m' \<Longrightarrow> quiet m"
  by (simp add: quiet_def)

lemma quiet_if [intro]: "(b \<Longrightarrow> quiet m) \<Longrightarrow> (\<not> b \<Longrightarrow> quiet m') \<Longrightarrow> quiet (if b then m else m')"
  by simp

lemma quiet_response [intro]:
  assumes "\<And>i e h. quiet (pong i e h)" "\<And>v. quiet (vote v)" "\<And>root dup. quiet (applied root dup)"
    and "\<And>root s l life. quiet (state root s l life)" "\<And>code. quiet (rejected code)"
  shows "quiet (case_response pong vote applied state rejected response)"
  using assms by (cases response) simp_all

lemma quiet_pair [intro]: "(\<And>a b. quiet (f a b)) \<Longrightarrow> quiet (case_prod f p)"
  by (cases p) simp

lemma quiet_remotes [intro]:
  "quiet (ask_all C net request indices acc)"
  "quiet (apply_to_validator C net i ft)"
  "quiet (apply_at C net ft expected vs)"
  "quiet (query_validator C net i)"
  "quiet (count_lock_rejections C net request indices n)"
  "quiet (ask_after_restart C net request indices acc2)"
  "quiet (compare_roots C net root is acc3)"
proof -
  show ask: "quiet (ask_all C net request indices acc)"
    by (induction indices arbitrary: acc) (auto simp: quiet_def liftR_def bindR_def rpc_quiet split: prod.splits sum.splits response.splits if_splits)
  show applied: "quiet (apply_to_validator C net i ft)" for i
    unfolding apply_to_validator_def by blast
  show "quiet (apply_at C net ft expected vs)"
  proof (induction vs)
    case (Cons i vs)
    show ?case
      by (rule quiet_cong [OF apply_at.simps(2)]) (intro quiet_intros quiet_pair quiet_if applied Cons)
  qed (simp add: quiet_def)
  show query: "quiet (query_validator C net i)" for i
    unfolding query_validator_def by blast
  show "quiet (count_lock_rejections C net request indices n)"
    by (induction indices arbitrary: n) (auto intro!: quiet_if quiet_response)
  show "quiet (ask_after_restart C net request indices acc2)"
    by (induction indices arbitrary: acc2) (auto intro!: quiet_if quiet_response)
  show "quiet (compare_roots C net root is acc3)"
    using query by (induction "is" arbitrary: acc3) (auto intro!: quiet_if)
qed

lemma quiet_owner_cases [intro]: "quiet (owner_cases C net fixture cis totals)"
proof (induction cis arbitrary: totals)
  case (Cons ci cis)
  have "quiet (owner_case C net fixture ci)"
    unfolding owner_case_def by (intro quiet_pair quiet_intros quiet_remotes)
  then show ?case
    by (intro quiet_cong [OF owner_cases.simps(2)] quiet_intros(3) quiet_pair Cons)
qed (simp add: quiet_def)

lemma quiet_await_ready [intro]: "quiet (await_ready C message net later index epoch h)"
proof -
  have once: "ping_once C net index epoch h w = (r, w') \<Longrightarrow> finality_samples w' = finality_samples w" for net w r w'
    by (auto simp: ping_once_def split: prod.splits)
  have "await_ready C message net later index epoch h w = (r, w') \<Longrightarrow> finality_samples w' = finality_samples w" for r w w'
  proof (induction later arbitrary: net w)
    case Nil
    then show ?case
      using once by (auto split: prod.splits sum.splits)
  next
    case (Cons net' later)
    then show ?case
      using once by (fastforce split: prod.splits sum.splits)
  qed
  then show ?thesis
    by (simp add: quiet_def)
qed

lemma quiet_cluster [intro]:
  "quiet (start_cluster C env epoch h snapshot)" "quiet (restart_node C env epoch h snapshot index)"
proof -
  have ready: "finality_samples w' = finality_samples w" if "await_ready C message net later i epoch h (w\<lparr>w_nodes := ns\<rparr>) = (r, w')"
    for message net later i w ns r w'
    using quietD [OF quiet_await_ready that] by simp
  have "quiet (spawn_node C env epoch h snapshot index)" for index
    unfolding quiet_def
  proof (intro allI impI)
    fix w r w'
    assume "spawn_node C env epoch h snapshot index w = (r, w')"
    then show "finality_samples w' = finality_samples w"
      using ready by (cases "open_node C (fst (env_start_io env index)) (snd (env_start_io env index)) [] snapshot
        (cluster_config epoch (env_ports env) (env_wal_paths env) (env_snapshot_path env) index)") (auto simp: spawn_node_def split: sum.splits)
  qed
  then have "quiet (spawn_nodes C env epoch h snapshot indices)" for indices
    by (induction indices) auto
  then show "quiet (start_cluster C env epoch h snapshot)"
    by (simp add: start_cluster_def)
  show "quiet (restart_node C env epoch h snapshot index)"
    unfolding quiet_def
  proof (intro allI impI)
    fix w r w'
    assume restart: "restart_node C env epoch h snapshot index w = (r, w')"
    show "finality_samples w' = finality_samples w"
    proof (cases "index < length (w_nodes w)")
      case True
      obtain res content where "open_node C (fst (env_restart_io env)) (snd (env_restart_io env)) (ws_file (ns_store (w_nodes w ! index)))
        snapshot (cluster_config epoch ((env_ports env)(index := env_restart_port env)) (env_wal_paths env) (env_snapshot_path env)
          index) = (res, content)"
        by force
      then show ?thesis
        using restart True ready by (cases res) (auto simp: restart_node_def)
    qed (use restart in \<open>simp add: restart_node_def\<close>)
  qed
qed

section \<open>What each stage establishes\<close>

lemma ask_all_counts:
  "ask_all C net request indices acc w = (Inr acc', w') \<Longrightarrow>
    \<exists>vs. fst acc' = fst acc @ vs \<and> map (\<lambda>v. unat (v_signer_index v)) vs = filter (\<lambda>i. i < 2) indices \<and>
      snd acc' = snd acc + length (filter (\<lambda>i. 2 \<le> i) indices)"
proof (induction indices arbitrary: acc w)
  case (Cons i indices)
  obtain response w1 where r: "rpc C net i request w = (Inr response, w1)"
    using Cons.prems by (auto simp: bindR_iff)
  show ?case
  proof (cases response)
    case (VoteResponse vote)
    then have v: "unat (v_signer_index vote) = i" "i < 2" "ask_all C net request indices (fst acc @ [vote], snd acc) w1 = (Inr acc', w')"
      using Cons.prems r by (auto split: if_splits)
    obtain vs where "fst acc' = (fst acc @ [vote]) @ vs" "map (\<lambda>v. unat (v_signer_index v)) vs = filter (\<lambda>i. i < 2) indices"
      "snd acc' = snd acc + length (filter (\<lambda>i. 2 \<le> i) indices)"
      using Cons.IH [OF v(3)] by auto
    then show ?thesis
      using v(1,2) by (intro exI [of _ "vote # vs"]) auto
  next
    case (Rejected code)
    then have "2 \<le> i" "ask_all C net request indices (fst acc, snd acc + 1) w1 = (Inr acc', w')"
      using Cons.prems r by (auto split: if_splits)
    then show ?thesis
      using Cons.IH [of "(fst acc, snd acc + 1)" w1] by auto
  qed (use Cons.prems r in \<open>auto\<close>)
qed simp

lemma all_indices: "[0..<N] = [0, 1, 2, 3, 4, 5, 6]"
  by (simp add: N_def upt_conv_Cons)

lemma owner_case_counts:
  assumes "owner_case C net fixture ci w = (Inr r, w')"
  shows "r = (2, 5)"
proof -
  obtain tx rnd votes n w1 w2 request where ask: "ask_all C net request [0..<N] ([], 0) w1 = (Inr (votes, n), w2)"
    and judge: "judge_owner_case C (fx_manifest fixture) tx rnd votes n (fst ci) = Inr (fst r)" and n: "snd r = n"
    using assms by (auto simp: owner_case_def bindR_iff split: prod.splits)
  from ask_all_counts [OF ask] have votes: "map (\<lambda>v. unat (v_signer_index v)) votes = [0, 1]" "n = 5"
    by (simp_all add: all_indices)
  have "unat ` v_signer_index ` set votes = set (map (\<lambda>v. unat (v_signer_index v)) votes)"
    by (simp add: image_image)
  then have "unat ` v_signer_index ` set votes = {0, 1}"
    unfolding votes(1) by simp
  moreover have "card (unat ` v_signer_index ` set votes) = card (v_signer_index ` set votes)"
    by (rule card_image) (auto simp: inj_on_def word_unat_eq_iff)
  ultimately have "card (v_signer_index ` set votes) = 2"
    by simp
  then have "fst r = 2"
    using judge by (auto simp: judge_owner_case_def Let_def split: if_splits)
  then show ?thesis
    using n votes(2) by (simp add: prod_eq_iff)
qed

lemma owner_cases_counts:
  "owner_cases C net fixture cis totals w = (Inr vr, w') \<Longrightarrow>
    vr = fold (\<lambda>_ vr. (saturating_add64 (fst vr) 2, saturating_add64 (snd vr) 5)) cis totals"
proof (induction cis arbitrary: totals w)
  case (Cons ci cis)
  then obtain w1 where "owner_cases C net fixture cis (saturating_add64 (fst totals) 2, saturating_add64 (snd totals) 5) w1 = (Inr vr, w')"
    by (auto simp: bindR_iff dest!: owner_case_counts)
  from Cons.IH [OF this] show ?case
    by simp
qed simp

lemma owner_negatives_counts:
  assumes "live_owner_authorization_negatives C net fixture w = (Inr vr, w')" and "length (fx_negative_inputs fixture) = 3"
  shows "vr = (6, 15)"
proof -
  obtain a b c where "fx_negative_inputs fixture = [a, b, c]"
    using assms(2) by (auto simp: length_Suc_conv numeral_3_eq_3)
  then have "vr = (saturating_add64 (saturating_add64 (saturating_add64 0 2) 2) 2, saturating_add64 (saturating_add64 (saturating_add64 0 5) 5) 5)"
    using owner_cases_counts [of C net fixture "List.enumerate 0 [a, b, c]" "(0, 0)" w vr w'] assms(1)
    by (simp add: live_owner_authorization_negatives_def)
  moreover have "saturating_add64 (saturating_add64 (saturating_add64 0 2) 2) 2 = 6"
    "saturating_add64 (saturating_add64 (saturating_add64 0 5) 5) 5 = 15"
    by (simp_all add: saturating_add64_def)
  ultimately show ?thesis
    by simp
qed

lemma mutations_counted: "signed_field_mutations_rejected C tx auth m = Inr n \<Longrightarrow> n = 15"
  by (auto simp: signed_field_mutations_rejected_def signed_field_mutations_def split: if_splits)

lemma quorum_negatives_counted: "quorum_negative_matrix C ft m = Inr n \<Longrightarrow> n = 7"
  by (auto simp: quorum_negative_matrix_def quorum_negatives_def Let_def split: list.splits)

lemma cases_counted: "exhaustive_conflict_safety_cases = Inr n \<Longrightarrow> n = 512"
  by (auto simp: exhaustive_conflict_safety_cases_def split: if_splits)

lemma split_facts:
  assumes "conflict_split C env fixture bob charlie w = (Inr s, w')"
  shows "s = (3, 2)" and "finality_samples w' = finality_samples w"
proof -
  obtain bp cp w1 r where split: "split_votes C env bp cp w = (Inr r, w1)" and s: "s = (3, 2)" "w' = w1"
    using assms by (auto simp: conflict_split_def bindR_iff Let_def split: prod.splits)
  then show "s = (3, 2)"
    by simp
  let ?message = "\<lambda>k :: nat. if k = 0 then ''spawn Bob conflict-delivery thread'' else ''spawn Charlie conflict-delivery thread''"
  obtain vs where join: "gated_crew C (env_net env 2) (env_split_spawned env) ?message (env_split_events env)
      [collect_program (length (w_nodes w)) [2, 3, 4] (Prevote bp), collect_program (length (w_nodes w)) [5, 6] (Prevote cp)] w = (Inr vs, w1)"
    using split by (auto simp: split_votes_def bindR_iff)
  show "finality_samples w' = finality_samples w"
    using gated_yields(2) [OF _ _ _ join, of "[\<lambda>_. True, \<lambda>_. True]" "[0, 0]"] s(2)
      ends_within_mono [OF collect_program_ends [of "length (w_nodes w)" "[2, 3, 4]" "Prevote bp"], of 11]
      ends_within_mono [OF collect_program_ends [of "length (w_nodes w)" "[5, 6]" "Prevote cp"], of 11]
    by (simp add: results_in_any collect_program_owes del: collect_program.simps)
qed

lemma live_apply_samples:
  assumes "apply_bench_to_live_nodes C net spawned schedule fts schedules w = (Inr r, w')"
  shows "finality_samples w' = finality_samples w"
proof -
  let ?ps = "apply_programs fts schedules"
  obtain xs where join: "join_crew C net schedule ?ps w = (Inr xs, w')"
    using assms by (auto simp: apply_bench_to_live_nodes_def bindR_iff Let_def split: if_splits option.splits prod.splits)
  have "list_all2 results_in (replicate (length ?ps) (\<lambda>_. True)) ?ps" "list_all2 owes ?ps (replicate (length ?ps) 0)"
    by (auto simp: apply_programs_def list_all2_conv_all_nth nth_enumerate_eq results_in_any schedule_program_owes)
  from join_yields(2) [OF this join] show ?thesis
    by (simp add: sum_list_replicate)
qed

lemma start_facts:
  assumes "phase_setup C env n w = (Inr (fixture, h, gt, bytes), w')"
  shows "build_fixture C n = Inr fixture" and "total_value (fx_genesis fixture) = Inr gt" and "finality_samples w' = finality_samples w"
  using assms by (auto simp: phase_setup_def bindR_iff dest: quietD [OF quiet_cluster(1)])

lemma precommit_facts:
  assumes "opposing_precommit C env fixture charlie w = (Inr n, w')"
  shows "n = 2" and "finality_samples w' = finality_samples w"
  using assms by (auto simp: opposing_precommit_def bindR_iff Let_def simp del: count_lock_rejections.simps dest: quietD [OF quiet_remotes(5)])

lemma restart_conflict_facts:
  assumes "conflict_after_restart C env fixture charlie w = (Inr n, w')"
  shows "n = (2, 5)" and "finality_samples w' = finality_samples w"
  using assms by (auto simp: conflict_after_restart_def bindR_iff dest!: quietD [OF quiet_remotes(6)] split: prod.splits)

lemma alternate_quiet: "quiet (alternate_certificate_check C fixture bob ft)"
  unfolding alternate_certificate_check_def by (intro quiet_intros quiet_pair)

lemma conflict_facts:
  assumes run: "phase_conflict C env fixture h bytes w = (Inr found, w')" and three: "length (fx_negative_inputs fixture) = 3"
  obtains bob where "make_main_transfer C fixture (fx_bob fixture) 1 = Inr bob" "ft_tx (cf_bob found) = fst bob"
    "ft_auth (cf_bob found) = snd bob" "length (qc_votes (ft_qc (cf_bob found))) = Q"
    "cf_invalid_owner_votes found = 6" "cf_invalid_owner_rejections found = 15" "cf_mutation_count found = 15"
    "cf_split found = (3, 2)" "cf_qc_negative_count found = 7" "cf_precommit_rejections found = 2" "cf_after_restart found = (2, 5)"
    "finality_samples w' = finality_samples w + 1"
proof -
  obtain vr w1 bob charlie mc split w2 ft w3 qn w4 rj w5 w6 ar where
    owner: "live_owner_authorization_negatives C (env_net env 1) fixture w = (Inr vr, w1)"
    and bob: "make_main_transfer C fixture (fx_bob fixture) 1 = Inr bob"
    and mutations: "signed_field_mutations_rejected C (fst bob) (snd bob) (fx_manifest fixture) = Inr mc"
    and split: "conflict_split C env fixture bob charlie w1 = (Inr split, w2)"
    and ft: "finalize_transfer C (env_net env 3) (env_bob_elapsed env) (fx_manifest fixture) (fst bob) (snd bob) 2 w2 = (Inr ft, w3)"
    and matrix: "quorum_negative_matrix C ft (fx_manifest fixture) = Inr qn" and votes: "length (qc_votes (ft_qc ft)) = Q"
    and alternate: "alternate_certificate_check C fixture bob ft w3 = (Inr (), w4)"
    and opposing: "opposing_precommit C env fixture charlie w4 = (Inr rj, w5)"
    and restart: "restart_node C env OLD_EPOCH h bytes 2 w5 = (Inr (), w6)"
    and after: "conflict_after_restart C env fixture charlie w6 = (Inr ar, w')"
    and found: "found = \<lparr>cf_invalid_owner_votes = fst vr, cf_invalid_owner_rejections = snd vr, cf_mutation_count = mc,
      cf_split = split, cf_bob = ft, cf_qc_negative_count = qn, cf_precommit_rejections = rj, cf_after_restart = ar\<rparr>"
    using run by (auto simp: phase_conflict_def bindR_iff split: prod.splits)
  have samples: "finality_samples w' = finality_samples w + 1"
    using quietD [OF quiet_owner_cases owner [unfolded live_owner_authorization_negatives_def]] split_facts(2) [OF split]
      finalize_transfer_facts(3) [OF ft] quietD [OF alternate_quiet alternate] precommit_facts(2) [OF opposing]
      quietD [OF quiet_cluster(2) restart] restart_conflict_facts(2) [OF after] by simp
  show thesis
    by (rule that [OF bob _ _ _ _ _ _ _ _ _ _ samples])
      (use finalize_transfer_facts(1,2) [OF ft] votes owner_negatives_counts [OF owner three] mutations_counted [OF mutations]
        split_facts(1) [OF split] quorum_negatives_counted [OF matrix] precommit_facts(1) [OF opposing] restart_conflict_facts(1) [OF after]
        in \<open>simp_all add: found\<close>)
qed

lemma settle_facts:
  assumes "phase_settle C env fixture gt bob w = (Inr s, w')"
  shows "\<exists>rc. apply_finalized C (fx_genesis fixture) (ft_tx bob) (ft_auth bob) (ft_prevote_qc bob) (ft_qc bob) (fx_manifest fixture) =
      Inr (Applied rc, s)"
    and "nothing_of (fx_charlie fixture) s" and "finality_samples w' = finality_samples w"
proof -
  obtain cs rc w1 w2 w3 roots roots' where first: "settle_bob C fixture gt bob w = (Inr (cs, rc), w1)"
    and at1: "apply_at C (env_net env 7) bob False [0..<length (w_nodes w1)] w1 = (Inr roots, w2)"
    and again: "settle_again C fixture bob cs rc w2 = (Inr s, w3)"
    and at2: "apply_at C (env_net env 8) bob True [0..<length (w_nodes w3)] w3 = (Inr roots', w')"
    using assms by (auto simp: phase_settle_def bindR_iff split: prod.splits)
  have f: "apply_finalized C (fx_genesis fixture) (ft_tx bob) (ft_auth bob) (ft_prevote_qc bob) (ft_qc bob) (fx_manifest fixture) =
      Inr (Applied rc, cs)" "owned_by (fx_charlie fixture) cs = []" "w1 = w"
  proof -
    obtain outcome cs' where o: "apply_finalized C (fx_genesis fixture) (ft_tx bob) (ft_auth bob) (ft_prevote_qc bob) (ft_qc bob)
      (fx_manifest fixture) = Inr (outcome, cs')"
      using first by (auto simp: settle_bob_def bindR_iff)
    show "apply_finalized C (fx_genesis fixture) (ft_tx bob) (ft_auth bob) (ft_prevote_qc bob) (ft_qc bob) (fx_manifest fixture) =
      Inr (Applied rc, cs)" "owned_by (fx_charlie fixture) cs = []" "w1 = w"
      using first o by (cases outcome; auto simp: settle_bob_def bindR_iff split: if_splits option.splits)+
  qed
  have g: "s = cs" "w3 = w2"
  proof -
    obtain outcome cs' where o: "apply_finalized C cs (ft_tx bob) (ft_auth bob) (ft_prevote_qc bob) (ft_qc bob) (fx_manifest fixture) =
      Inr (outcome, cs')"
      using again by (auto simp: settle_again_def bindR_iff)
    then show "s = cs" "w3 = w2"
      using again by (cases outcome; auto simp: settle_again_def bindR_iff apply_AlreadyApplied_iff)+
  qed
  show "\<exists>rc. apply_finalized C (fx_genesis fixture) (ft_tx bob) (ft_auth bob) (ft_prevote_qc bob) (ft_qc bob) (fx_manifest fixture) =
      Inr (Applied rc, s)" "nothing_of (fx_charlie fixture) s"
    using f g owned_by_iff by auto
  show "finality_samples w' = finality_samples w"
    using quietD [OF quiet_remotes(3) at1] quietD [OF quiet_remotes(3) at2] f(3) g(2) by simp
qed

lemma bench_facts:
  assumes "phase_bench C env fixture gt n s w = (Inr (fts, fwd, x), w')"
  obtains transfers where "make_bench_transfers C fixture = Inr transfers" "map ft_tx fts = map fst transfers" "length fts = n"
    "apply_in_order C s fts [0..<n] (fx_manifest fixture) = Inr fwd" "total_value fwd = Inr gt"
    "finality_samples w' = finality_samples w + n"
proof -
  obtain transfers w1 w2 where transfers: "make_bench_transfers C fixture = Inr transfers"
    and fin: "finalize_bench_concurrently C (env_net env 9) (env_finalize_spawned env) (env_finalize_events env) (env_elapsed env)
      (fx_manifest fixture) transfers w = (Inr fts, w1)" and n: "length fts = n"
    and states: "bench_states C fixture gt n s fts w1 = (Inr fwd, w1)"
    and live: "apply_bench_to_live_nodes C (env_net env 10) (env_apply_spawned env) (env_apply_schedule env) fts (live_schedules n) w1 = (Inr (), w2)"
    and roots: "compare_roots C (env_net env 11) (state_root C fwd) [0..<length (w_nodes w2)] (0, 0) w2 = (Inr x, w')"
    using assms by (auto simp: phase_bench_def bindR_iff bench_states_def Let_def split: prod.splits if_splits)
  have fwd: "apply_in_order C s fts [0..<n] (fx_manifest fixture) = Inr fwd" "total_value fwd = Inr gt"
    using states by (auto simp: bench_states_def bindR_iff Let_def bench_orders_def split: if_splits)
  have count: "length transfers = n"
    using finalize_bench_facts(1) [OF fin] n by (metis length_map)
  then have "finality_samples w' = finality_samples w + n"
    using finalize_bench_facts(2) [OF fin] live_apply_samples [OF live] quietD [OF quiet_remotes(7) roots] by simp
  then show thesis
    using that [OF transfers finalize_bench_facts(1) [OF fin] n fwd] by blast
qed

section \<open>Two runs\<close>

lemma fixture_negatives: "build_fixture C n = Inr fixture \<Longrightarrow> length (fx_negative_inputs fixture) = 3"
  by (auto simp: build_fixture_def Let_def)

definition expected_decisions :: "nat \<Rightarrow> u64 \<Rightarrow> u64 list" where
  "expected_decisions n gt = [6, 15, 3, 2, 5, 2, 2, 5, 15, 7, of_nat n, 512, gt, gt]"

text \<open>What a successful run leaves open: the certificates, and what the certificates are for.\<close>

lemma run_facts:
  assumes run: "run_phase_a_once C env n w = (Inr oc, w')"
  obtains fixture gt bob transfers and ft :: finalized_transfer and rc fts s fwd where
    "build_fixture C n = Inr fixture" "total_value (fx_genesis fixture) = Inr gt" "make_main_transfer C fixture (fx_bob fixture) 1 = Inr bob"
    "make_bench_transfers C fixture = Inr transfers" "ft_tx ft = fst bob" "map ft_tx fts = map fst transfers" "length fts = n"
    "apply_finalized C (fx_genesis fixture) (ft_tx ft) (ft_auth ft) (ft_prevote_qc ft) (ft_qc ft) (fx_manifest fixture) = Inr (Applied rc, s)"
    "nothing_of (fx_charlie fixture) s" "apply_in_order C s fts [0..<n] (fx_manifest fixture) = Inr fwd"
    "po_final_root oc = state_root C fwd" "po_genesis_root oc = state_root C (fx_genesis fixture)" "po_genesis_total oc = gt"
    "po_final_total oc = gt" "po_bench_completed oc = n" "po_conflicting_precommit_rejections oc = 2"
    "po_post_restart_lock_rejections oc = 5" "po_loser_live_outputs oc = length (owned_by (fx_charlie fixture) fwd)"
    "po_decision_vector oc = expected_decisions n gt" "finality_samples w' = finality_samples w + 1 + n"
proof -
  obtain fixture h gt bytes w1 found w2 s w3 fts fwd ms mw mc ft where
    starting: "phase_setup C env n w = (Inr (fixture, h, gt, bytes), w1)"
    and conflict: "phase_conflict C env fixture h bytes w1 = (Inr found, w2)"
    and settle: "phase_settle C env fixture gt (cf_bob found) w2 = (Inr s, w3)"
    and bench: "phase_bench C env fixture gt n s w3 = (Inr (fts, fwd, ms, mw), w')"
    and mc: "exhaustive_conflict_safety_cases = Inr mc" and total: "total_value fwd = Inr ft"
    and oc: "oc = \<lparr>po_final_root = state_root C fwd, po_genesis_root = state_root C (fx_genesis fixture),
      po_genesis_total = gt, po_final_total = ft, po_bench_elapsed = env_bench_elapsed env,
      po_bench_completed = length fts, po_invalid_owner_votes = cf_invalid_owner_votes found,
      po_invalid_owner_rejections = cf_invalid_owner_rejections found, po_mutation_count = cf_mutation_count found,
      po_qc_negative_count = cf_qc_negative_count found, po_max_snapshot_bytes = ms,
      po_max_wal_bytes = mw, po_model_cases = mc, po_split_bob_votes = fst (cf_split found),
      po_split_charlie_votes = snd (cf_split found), po_post_restart_conflict_votes = fst (cf_after_restart found),
      po_post_restart_lock_rejections = snd (cf_after_restart found),
      po_conflicting_precommit_rejections = cf_precommit_rejections found,
      po_loser_live_outputs = length (owned_by (fx_charlie fixture) fwd),
      po_decision_vector =
        [cf_invalid_owner_votes found, cf_invalid_owner_rejections found, of_nat (fst (cf_split found)), of_nat (snd (cf_split found)),
         of_nat (length (qc_votes (ft_qc (cf_bob found)))), of_nat (cf_precommit_rejections found),
         of_nat (fst (cf_after_restart found)), of_nat (snd (cf_after_restart found)), of_nat (cf_mutation_count found),
         of_nat (cf_qc_negative_count found), of_nat (length fts), mc, gt, ft]\<rparr>"
    using run unfolding run_phase_a_once_def bindR_iff by (auto simp: bindR_iff split: prod.splits)
  note st = start_facts [OF starting]
  obtain bob where cf: "make_main_transfer C fixture (fx_bob fixture) 1 = Inr bob" "ft_tx (cf_bob found) = fst bob"
    "ft_auth (cf_bob found) = snd bob" "length (qc_votes (ft_qc (cf_bob found))) = Q"
    "cf_invalid_owner_votes found = 6" "cf_invalid_owner_rejections found = 15" "cf_mutation_count found = 15"
    "cf_split found = (3, 2)" "cf_qc_negative_count found = 7" "cf_precommit_rejections found = 2" "cf_after_restart found = (2, 5)"
    "finality_samples w2 = finality_samples w1 + 1"
    using conflict_facts [OF conflict fixture_negatives [OF st(1)]] .
  note sf = settle_facts [OF settle]
  obtain rc where rc: "apply_finalized C (fx_genesis fixture) (ft_tx (cf_bob found)) (ft_auth (cf_bob found))
      (ft_prevote_qc (cf_bob found)) (ft_qc (cf_bob found)) (fx_manifest fixture) = Inr (Applied rc, s)"
    using sf(1) ..
  obtain transfers where bf: "make_bench_transfers C fixture = Inr transfers" "map ft_tx fts = map fst transfers" "length fts = n"
    "apply_in_order C s fts [0..<n] (fx_manifest fixture) = Inr fwd" "total_value fwd = Inr gt"
    "finality_samples w' = finality_samples w3 + n"
    using bench_facts [OF bench] .
  have "ft = gt"
    using total bf(5) by simp
  then show thesis
    by (intro that [OF st(1,2) cf(1) bf(1) cf(2) bf(2,3) rc sf(2) bf(4)])
      (use cf bf(3,6) st(3) sf(3) cases_counted [OF mc] in \<open>simp_all add: oc expected_decisions_def Q_def\<close>)
qed

lemma runs_agree:
  assumes r1: "run_phase_a_once C env1 n w1 = (Inr o1, w1')" and r2: "run_phase_a_once C env2 n w2 = (Inr o2, w2')"
  shows "po_final_root o1 = po_final_root o2" and "po_genesis_root o1 = po_genesis_root o2"
    and "po_decision_vector o1 = po_decision_vector o2"
proof -
  obtain fixture gt bob transfers and ft :: finalized_transfer and rc fts s fwd where A:
    "build_fixture C n = Inr fixture" "total_value (fx_genesis fixture) = Inr gt" "make_main_transfer C fixture (fx_bob fixture) 1 = Inr bob"
    "make_bench_transfers C fixture = Inr transfers" "ft_tx ft = fst bob" "map ft_tx fts = map fst transfers" "length fts = n"
    "apply_finalized C (fx_genesis fixture) (ft_tx ft) (ft_auth ft) (ft_prevote_qc ft) (ft_qc ft) (fx_manifest fixture) = Inr (Applied rc, s)"
    "nothing_of (fx_charlie fixture) s" "apply_in_order C s fts [0..<n] (fx_manifest fixture) = Inr fwd"
    "po_final_root o1 = state_root C fwd" "po_genesis_root o1 = state_root C (fx_genesis fixture)" "po_genesis_total o1 = gt"
    "po_final_total o1 = gt" "po_bench_completed o1 = n" "po_conflicting_precommit_rejections o1 = 2"
    "po_post_restart_lock_rejections o1 = 5" "po_loser_live_outputs o1 = length (owned_by (fx_charlie fixture) fwd)"
    "po_decision_vector o1 = expected_decisions n gt" "finality_samples w1' = finality_samples w1 + 1 + n"
    by (rule run_facts [OF r1])
  obtain fixture' gt' bob' transfers' and ft' :: finalized_transfer and rc' fts' s' fwd' where B:
    "build_fixture C n = Inr fixture'" "total_value (fx_genesis fixture') = Inr gt'" "make_main_transfer C fixture' (fx_bob fixture') 1 = Inr bob'"
    "make_bench_transfers C fixture' = Inr transfers'" "ft_tx ft' = fst bob'" "map ft_tx fts' = map fst transfers'" "length fts' = n"
    "apply_finalized C (fx_genesis fixture') (ft_tx ft') (ft_auth ft') (ft_prevote_qc ft') (ft_qc ft') (fx_manifest fixture') = Inr (Applied rc', s')"
    "nothing_of (fx_charlie fixture') s'" "apply_in_order C s' fts' [0..<n] (fx_manifest fixture') = Inr fwd'"
    "po_final_root o2 = state_root C fwd'" "po_genesis_root o2 = state_root C (fx_genesis fixture')" "po_genesis_total o2 = gt'"
    "po_final_total o2 = gt'" "po_bench_completed o2 = n" "po_conflicting_precommit_rejections o2 = 2"
    "po_post_restart_lock_rejections o2 = 5" "po_loser_live_outputs o2 = length (owned_by (fx_charlie fixture') fwd')"
    "po_decision_vector o2 = expected_decisions n gt'" "finality_samples w2' = finality_samples w2 + 1 + n"
    by (rule run_facts [OF r2])
  have same: "fixture' = fixture" "gt' = gt" "bob' = bob" "transfers' = transfers"
    using A(1-4) B(1-4) by auto
  have "semantic_view s = semantic_view s'"
    using apply_view_cong [OF refl A(8)] B(8) A(5) B(5) same by simp
  then have "semantic_view fwd = semantic_view fwd'"
    using apply_in_order_view [OF A(10)] B(10) A(6) B(6) same by simp
  from state_root_view [OF this, of C] show "po_final_root o1 = po_final_root o2"
    using A(11) B(11) by simp
  show "po_genesis_root o1 = po_genesis_root o2" "po_decision_vector o1 = po_decision_vector o2"
    using A(12,19) B(12,19) same by simp_all
qed

section \<open>The comparisons of the controller\<close>

text \<open>Charlie's key is none of those the other outputs of a run are paid to.\<close>

definition charlie_apart :: "crypto \<Rightarrow> nat \<Rightarrow> bool" where
  "charlie_apart C n \<longleftrightarrow> (let charlie = public_of C (lab_user_key C CHARLIE_KEY_LABEL) in charlie \<noteq> fee_collector C \<and>
    (\<forall>i < n. charlie \<noteq> public_of C (lab_user_key C (1000 + of_nat i))))"

lemma bench_transfer_owners:
  assumes "make_bench_transfers C fixture = Inr transfers" and "t \<in> set transfers"
  obtains i where "i < length (fx_bench_inputs fixture)" "out_owner ` set (tx_outputs (fst t)) = {public_of C (lab_user_key C (1000 + of_nat i))}"
proof -
  obtain i where i: "i < length transfers" "t = transfers ! i"
    using assms(2) by (auto simp: in_set_conv_nth)
  have len: "length transfers = length (fx_bench_inputs fixture)"
    using mapE_length [OF assms(1) [unfolded make_bench_transfers_def]] by simp
  have "out_owner ` set (tx_outputs (fst t)) = {public_of C (lab_user_key C (1000 + of_nat i))}"
    using mapE_nth [OF assms(1) [unfolded make_bench_transfers_def], of i] i len
    by (cases "transfers ! i") (auto simp: nth_enumerate_eq make_single_recipient_transfer_def make_transfer_def Let_def)
  then show thesis
    using that i len by simp
qed

lemma fixture_facts:
  assumes "build_fixture C n = Inr fixture"
  shows "fx_charlie fixture = public_of C (lab_user_key C CHARLIE_KEY_LABEL)" and "length (fx_bench_inputs fixture) = n"
  using assms by (auto simp: build_fixture_def Let_def)

lemma run_consistent:
  assumes run: "run_phase_a_once C env n w = (Inr oc, w')" and apart: "charlie_apart C n"
  shows "outcome_consistent n oc" and "finality_samples w' = finality_samples w + 1 + n"
proof -
  obtain fixture gt bob transfers and ft :: finalized_transfer and rc fts s fwd where A:
    "build_fixture C n = Inr fixture" "total_value (fx_genesis fixture) = Inr gt" "make_main_transfer C fixture (fx_bob fixture) 1 = Inr bob"
    "make_bench_transfers C fixture = Inr transfers" "ft_tx ft = fst bob" "map ft_tx fts = map fst transfers" "length fts = n"
    "apply_finalized C (fx_genesis fixture) (ft_tx ft) (ft_auth ft) (ft_prevote_qc ft) (ft_qc ft) (fx_manifest fixture) = Inr (Applied rc, s)"
    "nothing_of (fx_charlie fixture) s" "apply_in_order C s fts [0..<n] (fx_manifest fixture) = Inr fwd"
    "po_final_root oc = state_root C fwd" "po_genesis_root oc = state_root C (fx_genesis fixture)" "po_genesis_total oc = gt"
    "po_final_total oc = gt" "po_bench_completed oc = n" "po_conflicting_precommit_rejections oc = 2"
    "po_post_restart_lock_rejections oc = 5" "po_loser_live_outputs oc = length (owned_by (fx_charlie fixture) fwd)"
    "po_decision_vector oc = expected_decisions n gt" "finality_samples w' = finality_samples w + 1 + n"
    by (rule run_facts [OF run])
  have "fx_charlie fixture \<notin> out_owner ` set (tx_outputs (ft_tx ft'))" if ft': "ft' \<in> set fts" for ft'
  proof -
    have "ft_tx ft' \<in> fst ` set transfers"
      using ft' A(6) by (metis image_eqI list.set_map)
    then obtain t where t: "t \<in> set transfers" "ft_tx ft' = fst t"
      by auto
    obtain i where "i < n" "out_owner ` set (tx_outputs (fst t)) = {public_of C (lab_user_key C (1000 + of_nat i))}"
      using bench_transfer_owners [OF A(4) t(1)] fixture_facts(2) [OF A(1)] by metis
    then show ?thesis
      using apart t(2) by (simp add: charlie_apart_def fixture_facts(1) [OF A(1)] Let_def)
  qed
  then have "nothing_of (fx_charlie fixture) fwd"
    using apply_in_order_owners [OF A(10,9)] apart by (simp add: charlie_apart_def fixture_facts(1) [OF A(1)] Let_def)
  then have "owned_by (fx_charlie fixture) fwd = []"
    by (simp add: owned_by_iff)
  then show "outcome_consistent n oc" "finality_samples w' = finality_samples w + 1 + n"
    using A(13-18,20) by (simp_all add: outcome_consistent_def)
qed

end
