(* ===== verification/Report.thy ===== *)
theory Report
  imports PhaseSafety
begin

text \<open>
  The controller's verdict and its report (\<open>run_controller\<close>, \<open>executable_audit_identity\<close>,
  \<open>source_commit\<close> of \<open>integration001/src/main.rs\<close>, \<open>throughput\<close> of \<open>metrics.rs\<close>): two clean runs are
  compared, the running executable is identified, and the evidence is written when a path was given.
  The lines printed on the terminal repeat the report and are left out.  Numbers of type \<open>f64\<close> are a
  parameter: the conversions, the three operations used and the printing of the standard library.
\<close>

section \<open>What the report says\<close>

definition PHASE_A_GATES :: "string list" where
  "PHASE_A_GATES =
    [''B01'', ''B02'', ''B03'', ''B04'', ''B05'', ''B06'', ''B07'', ''B08'', ''B09'', ''B10'', ''B11'',
     ''B12'', ''B13'', ''B29'', ''B30-A'', ''B31-A'']"

definition PHASE_B_NOT_IMPLEMENTED :: "string list" where
  "PHASE_B_NOT_IMPLEMENTED =
    [''B14'', ''B15'', ''B16'', ''B17'', ''B18'', ''B19'', ''B20'', ''B21'', ''B22'', ''B23'', ''B24'',
     ''B25'', ''B26'', ''B27'', ''B28'', ''B30-B'', ''B31-B'']"

definition MEASURED_FIELDS :: string where
  "MEASURED_FIELDS =
    ''gate outcomes,clean-run count,validator topology,owner-auth rejections,field-mutation rejections,'' @
    ''quorum-negative rejections,live-transaction finality proof-chain counts,diagnostic QC counts,zero '' @
    ''hard-failure counters,client-submit-to-QC latency,independent-transfer throughput,framed TCP '' @
    ''requests/bytes,canonical state totals/state root,snapshot bytes,WAL bytes,total wall time,'' @
    ''executable BLAKE3''"

definition NOT_MEASURED_FIELDS :: string where
  "NOT_MEASURED_FIELDS =
    ''CPU,peak RSS,per-fsync latency,restart duration,packet loss,kernel TCP bytes,physical power-loss '' @
    ''durability,WAN latency,physical multi-machine behavior''"

definition audit_count_executed :: "controller_config \<Rightarrow> bool" where
  "audit_count_executed config \<longleftrightarrow> cc_bench_count config = MAX_BENCH_COUNT"

definition all_gates :: "controller_config \<Rightarrow> (string \<times> bool) list" where
  "all_gates config = map (\<lambda>gate. (gate, gate \<noteq> ''B11'' \<or> audit_count_executed config)) PHASE_A_GATES"

definition passed_gate_count :: "controller_config \<Rightarrow> nat" where
  "passed_gate_count config = length (filter snd (all_gates config))"

definition phase_a_status :: "controller_config \<Rightarrow> string" where
  "phase_a_status config = (if audit_count_executed config then ''PASS'' else ''INCONCLUSIVE'')"

definition b11_status :: "controller_config \<Rightarrow> string" where
  "b11_status config = (if audit_count_executed config then ''PASS'' else ''NOT_RUN_AT_AUDIT_COUNT'')"

definition phase_a_gate_statuses :: "controller_config \<Rightarrow> string" where
  "phase_a_gate_statuses config = commas (map (\<lambda>(gate, passed).
    if gate = ''B08'' then gate @ '':SAFETY_PASS_EQUIVOCATION_LIVENESS_NOT_GUARANTEED''
    else if gate = ''B11'' then gate @ '':'' @ b11_status config
    else gate @ '':'' @ (if passed then ''PASS'' else ''NOT_RUN'')) (all_gates config))"

definition phase_b_gate_statuses :: string where
  "phase_b_gate_statuses = commas (map (\<lambda>gate. gate @ '':NOT_IMPLEMENTED'') PHASE_B_NOT_IMPLEMENTED)"

definition validator_fingerprints :: "crypto \<Rightarrow> string" where
  "validator_fingerprints C = commas (map (\<lambda>member.
    decimal (unat (cm_index member)) @ '':'' @ hex_prefix (array_bytes (cm_public_key member)) 8) (m_members (lab_committee C OLD_EPOCH)))"

section \<open>Where the report comes from\<close>

text \<open>What the system says of the running program, and whether the report can be written at a path.\<close>

record report_env =
  re_executable :: "string option"
  re_executable_bytes :: "u8 list option"
  re_invocation :: string
  re_source_commit :: "string option"
  re_platform :: string
  re_elapsed_ms :: nat
  re_writable :: "string \<Rightarrow> bool"

definition source_commit :: "report_env \<Rightarrow> string" where
  "source_commit renv =
    (case re_source_commit renv of
       Some injected \<Rightarrow> if injected \<noteq> [] then injected else ''UNAVAILABLE_NOT_INJECTED_AT_COMPILE_TIME''
     | None \<Rightarrow> ''UNAVAILABLE_NOT_INJECTED_AT_COMPILE_TIME'')"

definition source_commit_status :: "report_env \<Rightarrow> string" where
  "source_commit_status renv =
    (if source_commit renv = ''UNAVAILABLE_NOT_INJECTED_AT_COMPILE_TIME'' then ''UNAVAILABLE_NOT_INJECTED_AT_COMPILE_TIME''
     else ''AVAILABLE_COMPILE_TIME'')"

definition executable_audit_identity :: "crypto \<Rightarrow> report_env \<Rightarrow> controller_error + string \<times> string" where
  "executable_audit_identity C renv =
    bindE (ok_or (RunFailed ''locate running executable for B30-A'') (re_executable renv)) (\<lambda>path.
    bindE (ok_or (RunFailed ''read running executable for B30-A hash'') (re_executable_bytes renv)) (\<lambda>bytes.
    Inr (path, hex_prefix (array_bytes (blake3 C bytes)) 32)))"

record 'f floats =
  fl_of :: "nat \<Rightarrow> 'f"
  fl_seconds :: "nat \<Rightarrow> 'f"
  fl_mul :: "'f \<Rightarrow> 'f \<Rightarrow> 'f"
  fl_div :: "'f \<Rightarrow> 'f \<Rightarrow> 'f"
  fl_is_zero :: "'f \<Rightarrow> bool"
  fl_finite :: "'f \<Rightarrow> bool"
  fl_display :: "'f \<Rightarrow> string"

definition throughput :: "'f floats \<Rightarrow> nat \<Rightarrow> nat \<Rightarrow> 'f" where
  "throughput F operations elapsed =
    (let seconds = fl_seconds F elapsed in
     if operations = 0 \<or> fl_is_zero F seconds then fl_of F 0 else fl_div F (fl_of F operations) seconds)"

definition chains_per_run :: "phase_outcome \<Rightarrow> u64" where
  "chains_per_run o2 = saturating_add64 1 (of_nat (po_bench_completed o2))"

definition saturating_mul64 :: "u64 \<Rightarrow> u64 \<Rightarrow> u64" where
  "saturating_mul64 a b = of_nat (min (2 ^ 64 - 1) (unat a * unat b))"

definition chains_total :: "phase_outcome \<Rightarrow> u64" where
  "chains_total o2 = saturating_mul64 (chains_per_run o2) 2"

definition report_metadata ::
    "crypto \<Rightarrow> report_env \<Rightarrow> controller_config \<Rightarrow> phase_outcome \<Rightarrow> string \<times> string \<Rightarrow> digest \<Rightarrow> (string \<times> string) list" where
  "report_metadata C renv config o2 identity committee =
    [(''experiment'', ''CALIBRE INTEGRATION-001''),
     (''phase'', ''A''),
     (''phase_a_status'', phase_a_status config),
     (''full_campaign'', ''NOT_IMPLEMENTED_NOT_RUN''),
     (''topology'', ''7_processes_127.0.0.1_Q5_f2''),
     (''platform'', re_platform renv),
     (''bench_count'', decimal (cc_bench_count config)),
     (''elapsed_ms'', decimal (re_elapsed_ms renv)),
     (''acceptance_order'', ''conflict_local_no_blocks_no_universal_order''),
     (''protocol_version'', decimal (unat PROTOCOL_VERSION)),
     (''network_id'', decimal (unat NETWORK_ID)),
     (''seed'', ''0x'' @ hex_prefix (rev (to_le64 LAB_SEED)) 8),
     (''source_commit'', source_commit renv),
     (''source_commit_status'', source_commit_status renv),
     (''executable_path'', fst identity),
     (''executable_blake3'', snd identity),
     (''invocation_argv'', re_invocation renv),
     (''clean_initial_state_root'', hex_prefix (array_bytes (po_genesis_root o2)) 32),
     (''final_state_root'', hex_prefix (array_bytes (po_final_root o2)) 32),
     (''committee_hash'', hex_prefix (array_bytes committee) 32),
     (''validator_key_fingerprints'', validator_fingerprints C),
     (''phase_a_implemented_gates'', commas PHASE_A_GATES),
     (''phase_a_gate_statuses'', phase_a_gate_statuses config),
     (''b08_status'', ''SAFETY_PASS_EQUIVOCATION_LIVENESS_NOT_GUARANTEED''),
     (''b11_status'', b11_status config),
     (''phase_b_gate_statuses'', phase_b_gate_statuses),
     (''phase_b_not_implemented_gates'', commas PHASE_B_NOT_IMPLEMENTED),
     (''measured_fields'', MEASURED_FIELDS),
     (''not_measured_fields'', NOT_MEASURED_FIELDS),
     (''healthy_finality_signers'', ''HONEST_INDICES_2_3_4_5_6_NO_BYZANTINE_COOPERATION''),
     (''b10_opposing_prevote_qc'', ''SYNTHETIC_WHITE_BOX_VALID_LAB_FIXTURE_INJECTION_NOT_AN_OBSERVED_ADVERSARY_QC''),
     (''restart_fault_observed'', ''HONEST_NODE_2_KILLED_RESTARTED_NEW_PORT_LOCK_RECOVERED''),
     (''cleanup'', ''TWO_TEST_OWNED_ROOTS_REMOVED_ALL_CHILDREN_REAPED'')]"

definition report_numbers ::
    "'f floats \<Rightarrow> controller_config \<Rightarrow> phase_outcome \<Rightarrow> phase_outcome \<Rightarrow> run_metrics \<Rightarrow> (string \<times> 'f) list" where
  "report_numbers F config o1 o2 metrics = (let n = fl_of F in
    [(''live_transaction_finality_proof_chains_per_run'', n (unat (chains_per_run o2))),
     (''live_transaction_finality_proof_chains_total'', n (unat (chains_total o2))),
     (''live_transaction_precommit_qcs_per_run'', n (unat (chains_per_run o2))),
     (''live_transaction_precommit_qcs_total'', n (unat (chains_total o2))),
     (''live_transaction_prevote_qcs_per_run'', n (unat (chains_per_run o2))),
     (''live_transaction_prevote_qcs_total'', n (unat (chains_total o2))),
     (''live_transaction_qc_shares_per_phase_per_run'', n (unat (saturating_mul64 (chains_per_run o2) (of_nat Q)))),
     (''unique_certified_intents_per_run'', n (unat (chains_per_run o2))),
     (''diagnostic_same_intent_alternate_finality_chains_per_run'', n 1),
     (''white_box_opposing_prevote_qc_injections_per_run'', n 1),
     (''accepted_transactions_per_run'', n (1 + po_bench_completed o2)),
     (''abstract_conflict_cases_per_run'', n (unat (po_model_cases o2))),
     (''bench_completed_per_run'', n (po_bench_completed o2)),
     (''bench_finality_elapsed_ms_second_run'', fl_mul F (fl_seconds F (po_bench_elapsed o2)) (n 1000)),
     (''bench_finality_proof_chains_per_second'', throughput F (po_bench_completed o2) (po_bench_elapsed o2)),
     (''byzantine_validators'', n 2),
     (''client_submit_to_qc_samples'', n (unat (latency_samples metrics))),
     (''clean_repeatability_runs'', n 2),
     (''phase_a_gate_count'', n (length PHASE_A_GATES)),
     (''phase_a_passed_gate_count'', n (passed_gate_count config)),
     (''conservation_final_total'', n (unat (po_final_total o2))),
     (''conservation_genesis_total'', n (unat (po_genesis_total o2))),
     (''main_input_value'', n 100),
     (''main_recipient_value'', n 60),
     (''main_change_value'', n 39),
     (''main_fee_value'', n 1),
     (''invalid_owner_cases_per_run'', n 3),
     (''invalid_owner_rejections_per_run'', n (unat (po_invalid_owner_rejections o2))),
     (''invalid_owner_votes_per_run'', n (unat (po_invalid_owner_votes o2))),
     (''signed_field_mutation_rejections_per_run'', n (po_mutation_count o2)),
     (''conservation_negative_rejections_per_run'', n 4),
     (''quorum_negative_rejections_per_run'', n (po_qc_negative_count o2)),
     (''duplicate_controller_apply_checks_per_run'', n 1),
     (''duplicate_live_validator_apply_checks_per_run'', n 7),
     (''unauthorized_finality_proof_chains'', n 0),
     (''dual_conflicting_finality_proof_chains'', n 0),
     (''different_valid_qc_subset_state_root_matches'', n 1),
     (''loser_live_outputs'', n (po_loser_live_outputs o2)),
     (''live_conflict_bob_round1_prevotes'', n (po_split_bob_votes o2)),
     (''live_conflict_charlie_round1_prevotes'', n (po_split_charlie_votes o2)),
     (''opposing_precommit_durable_lock_rejections'', n (po_conflicting_precommit_rejections o2)),
     (''post_restart_charlie_prevotes'', n (po_post_restart_conflict_votes o2)),
     (''post_restart_durable_lock_rejections'', n (po_post_restart_lock_rejections o2)),
     (''max_snapshot_bytes'', n (unat (max (po_max_snapshot_bytes o1) (po_max_snapshot_bytes o2)))),
     (''max_wal_bytes'', n (unat (max (po_max_wal_bytes o1) (po_max_wal_bytes o2)))),
     (''quorum_negative_cases_per_run'', n (po_qc_negative_count o2)),
     (''signed_field_mutations_per_run'', n (po_mutation_count o2)),
     (''validator_processes_per_run'', n 7)])"

definition write_evidence ::
    "crypto \<Rightarrow> 'f floats \<Rightarrow> report_env \<Rightarrow> controller_config \<Rightarrow> phase_outcome \<Rightarrow> phase_outcome \<Rightarrow> run_metrics \<Rightarrow>
      string \<times> string \<Rightarrow> digest \<Rightarrow> controller_error + string option" where
  "write_evidence C F renv config o1 o2 metrics identity committee =
    (case cc_evidence_path config of
       None \<Rightarrow> Inr None
     | Some path \<Rightarrow>
       (case write_json (fl_finite F) (fl_display F) metrics (report_metadata C renv config o2 identity committee)
          (all_gates config) (report_numbers F config o1 o2 metrics) of
          Inl _ \<Rightarrow> Inl (RunFailed ''write Phase A evidence JSON'')
        | Inr json \<Rightarrow> if re_writable renv path then Inr (Some json) else Inl (RunFailed ''write Phase A evidence JSON'')))"

section \<open>The controller\<close>

text \<open>
  What \<open>run_controller\<close> compares before it writes its report.  The number of certificates per run is
  \<open>1 + bench_completed\<close>, cut to 64 bits.
\<close>

definition judge_runs :: "controller_config \<Rightarrow> phase_outcome \<Rightarrow> phase_outcome \<Rightarrow> run_metrics \<Rightarrow> controller_error + unit" where
  "judge_runs config o1 o2 metrics =
    (if po_final_root o1 \<noteq> po_final_root o2 \<or> po_genesis_root o1 \<noteq> po_genesis_root o2 \<or>
        po_decision_vector o1 \<noteq> po_decision_vector o2
     then Inl (RunFailed ''clean repeatability runs produced different root or safety decisions'')
     else if latency_samples metrics \<noteq> chains_total o2
     then Inl (RunFailed ''B30-A latency sample count mismatch'')
     else if \<not> outcome_consistent (cc_bench_count config) o1 \<or> \<not> outcome_consistent (cc_bench_count config) o2
     then Inl (RunFailed ''B30-A run-count, conservation, or loser-output evidence is inconsistent'')
     else Inr ())"

text \<open>The two outcomes, the measurements, the verdict and the report that was written.\<close>

record controller_report =
  cr_first :: phase_outcome
  cr_second :: phase_outcome
  cr_metrics :: run_metrics
  cr_status :: string
  cr_evidence :: "string option"

definition run_controller ::
    "crypto \<Rightarrow> 'f floats \<Rightarrow> phase_env \<Rightarrow> phase_env \<Rightarrow> report_env \<Rightarrow> controller_config \<Rightarrow> controller_error + controller_report" where
  "run_controller C F env1 env2 renv config =
    (case clean_run C env1 (cc_bench_count config) new_metrics of
       (Inl e, _) \<Rightarrow> Inl e
     | (Inr o1, metrics1) \<Rightarrow>
       (case clean_run C env2 (cc_bench_count config) metrics1 of
          (Inl e, _) \<Rightarrow> Inl e
        | (Inr o2, metrics2) \<Rightarrow>
          bindE (judge_runs config o1 o2 metrics2) (\<lambda>_.
          bindE (executable_audit_identity C renv) (\<lambda>identity.
          bindE (map_err RemoteModelError (committee_hash C (lab_committee C OLD_EPOCH))) (\<lambda>committee.
          bindE (write_evidence C F renv config o1 o2 metrics2 identity committee) (\<lambda>evidence.
          Inr \<lparr>cr_first = o1, cr_second = o2, cr_metrics = metrics2, cr_status = phase_a_status config,
               cr_evidence = evidence\<rparr>))))))"

section \<open>The comparisons never fail\<close>

lemma counted_samples:
  assumes "n \<le> MAX_BENCH_COUNT" and "finality_samples w = 2 * (1 + n)" and "po_bench_completed oc = n"
  shows "latency_samples (w_metrics w) = chains_total oc"
proof -
  have n: "n \<le> 128"
    using assms(1) by (simp add: MAX_BENCH_COUNT_def)
  then have "unat (of_nat n :: u64) = n"
    by (simp add: unat_of_nat)
  then have "unat (chains_per_run oc) = 1 + n"
    using n assms(3) by (simp add: chains_per_run_def unat_saturating_add64)
  then have right: "unat (chains_total oc) = 2 * (1 + n)"
    using n by (simp add: chains_total_def saturating_mul64_def unat_of_nat del: of_nat_mult of_nat_add of_nat_Suc)
  obtain xs where xs: "fmlookup (rm_phases (w_metrics w)) ''client_submit_to_qc'' = Some xs" "length xs = 2 * (1 + n)"
    using assms(2) by (auto simp: phase_samples_def split: option.splits)
  moreover from this have "xs \<noteq> []"
    by auto
  ultimately have "latency_samples (w_metrics w) = of_nat (min (2 ^ 64 - 1) (2 * (1 + n)))"
    by (simp add: latency_samples_def phase_summary_def summarize_latencies_def Let_def)
  also have "unat (\<dots> :: u64) = 2 * (1 + n)"
    using n by (simp add: unat_of_nat del: of_nat_mult of_nat_add of_nat_Suc)
  finally show ?thesis
    using right by (simp only: word_unat_eq_iff)
qed

lemma run_has_committee:
  assumes "run_phase_a_once C env n w = (Inr oc, w')"
  obtains h where "committee_hash C (lab_committee C OLD_EPOCH) = Inr h"
proof -
  obtain fixture where "build_fixture C n = Inr fixture" "is_ok (committee_hash C (fx_manifest fixture))"
    using assms by (auto simp: run_phase_a_once_def phase_setup_def bindR_iff is_ok_def)
  moreover from this have "fx_manifest fixture = lab_committee C OLD_EPOCH"
    by (auto simp: build_fixture_def Let_def)
  ultimately show thesis
    using that by (auto simp: is_ok_def split: sum.splits)
qed

lemma controller_accepts:
  assumes c: "config_ok config" and apart: "charlie_apart C (cc_bench_count config)"
    and r1: "clean_run C env1 (cc_bench_count config) new_metrics = (Inr o1, m1)"
    and r2: "clean_run C env2 (cc_bench_count config) m1 = (Inr o2, m2)"
  obtains h where "committee_hash C (lab_committee C OLD_EPOCH) = Inr h"
    "run_controller C F env1 env2 renv config =
      bindE (executable_audit_identity C renv) (\<lambda>identity.
      bindE (write_evidence C F renv config o1 o2 m2 identity h) (\<lambda>evidence.
      Inr \<lparr>cr_first = o1, cr_second = o2, cr_metrics = m2, cr_status = phase_a_status config, cr_evidence = evidence\<rparr>))"
proof -
  let ?n = "cc_bench_count config"
  obtain w1 where w1: "run_phase_a_once C env1 ?n \<lparr>w_nodes = [], w_metrics = new_metrics\<rparr> = (Inr o1, w1)" "m1 = w_metrics w1"
    using r1 by (auto simp: clean_run_def split: prod.splits)
  obtain w2 where w2: "run_phase_a_once C env2 ?n \<lparr>w_nodes = [], w_metrics = m1\<rparr> = (Inr o2, w2)" "m2 = w_metrics w2"
    using r2 by (auto simp: clean_run_def split: prod.splits)
  note c1 = run_consistent [OF w1(1) apart] and c2 = run_consistent [OF w2(1) apart]
  have "finality_samples w2 = 2 * (1 + ?n)"
    using c1(2) c2(2) w1(2) by (simp add: new_metrics_def phase_samples_def)
  moreover have "po_bench_completed o2 = ?n"
    using c2(1) by (simp add: outcome_consistent_def)
  ultimately have "latency_samples m2 = chains_total o2"
    unfolding w2(2) by (intro counted_samples [of ?n]) (use c in \<open>simp_all add: config_ok_def\<close>)
  then have "judge_runs config o1 o2 m2 = Inr ()"
    using runs_agree [OF w1(1) w2(1)] c1(1) c2(1) by (simp add: judge_runs_def)
  moreover obtain h where h: "committee_hash C (lab_committee C OLD_EPOCH) = Inr h"
    by (rule run_has_committee [OF w1(1)])
  ultimately show thesis
    using r1 r2 by (intro that [OF h]) (simp add: run_controller_def)
qed

end
