(* ===== verification/PhaseStart.thy ===== *)
theory PhaseStart
  imports Phase
begin

text \<open>
  The start of a run succeeds: for every configuration the controller accepts the genesis has a value
  and fits a frame, and the seven processes come up ready and hold it.
\<close>

section \<open>The genesis\<close>

text \<open>The labels of the cells of the fixture, and the bytes their identifiers are the hashes of.\<close>

definition fixture_labels :: "nat \<Rightarrow> u64 list" where
  "fixture_labels n = 1 # map (\<lambda>i. 10 + of_nat i) [0..<3] @ map (\<lambda>i. 1000 + of_nat i) [0..<n]"

abbreviation genesis_preimage :: "u64 \<Rightarrow> u8 list" where
  "genesis_preimage label \<equiv> ascii ''CALIBRE_INTEGRATION001_GENESIS_ID_V1'' @ to_le64 label"

definition labels_collide :: "crypto \<Rightarrow> nat \<Rightarrow> bool" where
  "labels_collide C n \<longleftrightarrow> (\<exists>a \<in> set (fixture_labels n). \<exists>b \<in> set (fixture_labels n). collide C (genesis_preimage a) (genesis_preimage b))"

lemma fixture_labels_distinct:
  assumes "n \<le> MAX_BENCH_COUNT"
  shows "distinct (fixture_labels n)"
proof -
  let ?nats = "1 # map (\<lambda>i. 10 + i) [0..<3] @ map (\<lambda>i. 1000 + i) [0..<n]"
  have nats: "fixture_labels n = map of_nat ?nats" "\<forall>x \<in> set ?nats. x < 2 ^ 64" "distinct ?nats"
    using assms by (auto simp: fixture_labels_def MAX_BENCH_COUNT_def distinct_map inj_on_def)
  have "inj_on (of_nat :: nat \<Rightarrow> u64) (set ?nats)"
    using nats(2) by (intro inj_onI of_nat_u64_inj) blast+
  then show ?thesis
    unfolding nats(1) distinct_map using nats(3) by blast
qed

lemma genesis_cell_valid: "a \<noteq> 0 \<Longrightarrow> validate_cell C (make_genesis_cell C l a owner) = Inr ()"
  by (simp add: make_genesis_cell_def validate_cell_Inr_iff Let_def)

lemma fixture_builds:
  assumes n: "n \<le> MAX_BENCH_COUNT" and apart: "\<not> labels_collide C n"
  obtains fixture where "build_fixture C n = Inr fixture"
proof -
  let ?id = "\<lambda>l. hash_domain C ''CALIBRE_INTEGRATION001_GENESIS_ID_V1'' (to_le64 l)"
  let ?cells = "make_genesis_cell C 1 100 (public_of C (lab_user_key C ALICE_KEY_LABEL)) #
    map (\<lambda>i. make_genesis_cell C (10 + of_nat i) 100 (public_of C (lab_user_key C ALICE_KEY_LABEL))) [0..<3] @
    map (\<lambda>i. make_genesis_cell C (1000 + of_nat i) 10 (public_of C (lab_user_key C BENCH_OWNER_KEY_LABEL))) [0..<n]"
  have "l = l'" if "l \<in> set (fixture_labels n)" "l' \<in> set (fixture_labels n)" "?id l = ?id l'" for l l'
    using hash_domain_collide [OF that(3)] that(1,2) apart by (auto simp: labels_collide_def)
  then have "inj_on ?id (set (fixture_labels n))"
    by (simp add: inj_on_def)
  then have "distinct (map ?id (fixture_labels n))"
    using fixture_labels_distinct [OF n] by (simp add: distinct_map)
  moreover have "map (\<lambda>c. cr_id (cell_reference c)) ?cells = map ?id (fixture_labels n)"
    by (simp add: genesis_cell_id fixture_labels_def)
  moreover have "\<forall>c \<in> set ?cells. validate_cell C c = Inr ()"
    by (auto simp: genesis_cell_valid)
  ultimately obtain s where "from_cells C ?cells = Inr s"
    using from_cells_complete by metis
  then show thesis
    using that by (simp add: build_fixture_def Let_def)
qed

section \<open>The value of the genesis\<close>

lemma from_cells_amounts:
  assumes "from_cells C cells = Inr s" and "\<forall>c \<in> set cells. unat (cell_amount c) \<le> k"
  shows "live_value s \<le> k * length cells"
proof -
  have "\<forall>r c. fmlookup (st_live s) r = Some c \<longrightarrow> unat (cell_amount c) \<le> k"
    by (rule foldE_invariant [OF assms(1) [unfolded from_cells_def]])
      (use assms(2) in \<open>auto simp: empty_state_def add_genesis_def split: if_splits\<close>)
  then have "\<forall>c \<in> set (map snd (sorted_list_of_fmap (st_live s))). unat (cell_amount c) \<le> k"
    by (auto simp: sorted_list_of_fmap_mem)
  from sum_list_bound [OF this] show ?thesis
    using from_cells_pure(2) [OF assms(1)] by (simp add: live_value_list)
qed

lemma fixture_start:
  assumes "build_fixture C n = Inr fixture" and "n \<le> MAX_BENCH_COUNT"
  obtains gt bs where "total_value (fx_genesis fixture) = Inr gt" "encode_state (fx_genesis fixture) = Inr bs"
    "decode_state bs = Inr (fx_genesis fixture)" "length bs \<le> MAX_FRAME_LEN"
    "pure_genesis C (fx_genesis fixture)" "fx_manifest fixture = lab_committee C OLD_EPOCH"
proof -
  let ?alice = "public_of C (lab_user_key C ALICE_KEY_LABEL)" and ?owner = "public_of C (lab_user_key C BENCH_OWNER_KEY_LABEL)"
  let ?cells = "make_genesis_cell C 1 100 ?alice # map (\<lambda>i. make_genesis_cell C (10 + of_nat i) 100 ?alice) [0..<3] @
    map (\<lambda>i. make_genesis_cell C (1000 + of_nat i) 10 ?owner) [0..<n]"
  have cells: "from_cells C ?cells = Inr (fx_genesis fixture)" and m: "fx_manifest fixture = lab_committee C OLD_EPOCH"
    using assms(1) by (auto simp: build_fixture_def Let_def)
  have "\<forall>c \<in> set ?cells. unat (cell_amount c) \<le> 100"
    by (auto simp: make_genesis_cell_def Let_def)
  from from_cells_amounts [OF cells this] have "live_value (fx_genesis fixture) \<le> 100 * (n + 4)"
    by simp
  then have small: "live_value (fx_genesis fixture) < 2 ^ 64"
    using assms(2) by (simp add: MAX_BENCH_COUNT_def)
  then have "total_value (fx_genesis fixture) = Inr (of_nat (live_value (fx_genesis fixture)))"
    unfolding total_value_iff by (simp add: unat_of_nat)
  moreover have "fcard (fmdom (st_live (fx_genesis fixture))) \<le> MAX_COLLECTION_LEN"
    using from_cells_pure(2) [OF cells] assms(2) by (simp add: MAX_BENCH_COUNT_def MAX_COLLECTION_LEN_def)
  moreover note g = from_cells_pure(1) [OF cells]
  ultimately show thesis
    using that m pure_genesis_encodes [OF g] by metis
qed

section \<open>Readiness\<close>

text \<open>A readiness request changes nothing at the process, whatever becomes of it.\<close>

lemma ping_serves:
  assumes "write_frame payload = Inr frame" and "encode_request Ping = Inr payload"
  obtains out where "serve_connection C io frame n = (out, False, n)"
  using serve_request [OF assms(2,1), of C io n] that by (cases n) (auto simp: handle_request.simps)

lemma ping_keeps:
  assumes "i < length (w_nodes w)" and "ping_once C net i e h w = (r, w')"
  shows "w' = w"
proof -
  have "\<exists>payload. encode_request Ping = Inr payload"
    by (auto simp: encode_request_def MAX_FRAME_LEN_def intro!: exact_encode_ok)
  then obtain payload where payload: "encode_request Ping = Inr payload" ..
  obtain frame where frame: "write_frame payload = Inr frame"
    using write_frame_ok [OF exact_encode_bound [OF payload [unfolded encode_request_def]]] by blast
  have serve: "snd (snd (serve_connection C io frame (w_nodes w ! i))) = w_nodes w ! i" for io
    using ping_serves [OF frame payload, of C io "w_nodes w ! i"] by (metis snd_conv)
  have "w_nodes (snd (rpc_raw C (net Ping i) i payload w)) = w_nodes w"
    using assms(1) frame serve by (auto simp: rpc_raw_def Let_def split: link.splits sum.splits prod.splits)
      (metis list_update_id snd_conv)+
  moreover have "ping_once C net i e h w = (r, w') \<Longrightarrow> w' = snd (rpc_raw C (net Ping i) i payload w)\<lparr>w_metrics := w_metrics w\<rparr>"
    by (auto simp: ping_once_def rpc_def payload bindR_def liftR_def split: prod.splits sum.splits)
  ultimately show ?thesis
    using assms(2) by (metis world.surjective world.update_convs(2) old.unit.exhaust world.select_convs(1,2))
qed

lemma ping_answers:
  assumes net: "net Ping i = Reached io" and i: "i < length (w_nodes w)"
    and n: "unat (ns_index (w_nodes w ! i)) = i" "m_epoch (ns_manifest (w_nodes w ! i)) = e" "ns_committee_hash (w_nodes w ! i) = h"
  shows "ping_once C net i e h w = (Inr (), w)"
proof -
  let ?n = "w_nodes w ! i"
  let ?pong = "Pong (ns_index ?n) (m_epoch (ns_manifest ?n)) (ns_committee_hash ?n)"
  have "\<exists>payload. encode_request Ping = Inr payload" "\<exists>bs. encode_response ?pong = Inr bs"
    by (auto simp: encode_request_def encode_response_def MAX_FRAME_LEN_def intro!: exact_encode_ok)
  then obtain payload bs where payload: "encode_request Ping = Inr payload" and bs: "encode_response ?pong = Inr bs"
    by blast
  obtain m where "rpc C net i Ping w = (Inr ?pong, w\<lparr>w_nodes := (w_nodes w)[i := ?n], w_metrics := m\<rparr>)"
    using rpc_delivers [where C = C and net = net and i = i and w = w, OF payload net i _ bs] by auto
  then show ?thesis
    using n by (simp add: ping_once_def bindR_def liftR_def require_expected_pong_def)
qed

lemma await_ready_answers:
  assumes "\<exists>net' \<in> set (net # later). \<exists>io. net' Ping i = Reached io" and i: "i < length (w_nodes w)"
    and n: "unat (ns_index (w_nodes w ! i)) = i" "m_epoch (ns_manifest (w_nodes w ! i)) = e" "ns_committee_hash (w_nodes w ! i) = h"
  shows "await_ready C message net later i e h w = (Inr (), w)"
  using assms(1)
proof (induction later arbitrary: net)
  case Nil
  then show ?case
    using ping_answers [OF _ i n] by auto
next
  case (Cons net' later)
  obtain r w' where once: "ping_once C net i e h w = (r, w')"
    by force
  moreover from this have "w' = w"
    by (rule ping_keeps [OF i])
  ultimately have once: "ping_once C net i e h w = (r, w)"
    using once by simp
  show ?case
  proof (cases r)
    case (Inl err)
    then have "\<exists>net'' \<in> set (net' # later). \<exists>io. net'' Ping i = Reached io"
      using ping_answers [where net = net, OF _ i n] once Cons.prems by auto
    from Cons.IH [OF this] show ?thesis
      using once Inl by simp
  qed (use once in simp)
qed

section \<open>The cluster\<close>

abbreviation env_config :: "phase_env \<Rightarrow> u64 \<Rightarrow> nat \<Rightarrow> node_config" where
  "env_config env e \<equiv> cluster_config e (env_ports env) (env_wal_paths env) (env_snapshot_path env)"

definition starts_well :: "phase_env \<Rightarrow> bool" where
  "starts_well env \<longleftrightarrow> (\<forall>i < N. env_start_io env i = (None, None) \<and>
    (\<exists>net \<in> set (fst (env_start_ready env i) # snd (env_start_ready env i)). \<exists>io. net Ping i = Reached io))"

lemma spawn_node_ready:
  assumes env: "starts_well env" and g: "pure_genesis C s" and enc: "encode_state s = Inr bs" "decode_state bs = Inr s" "length bs \<le> MAX_FRAME_LEN"
    and m: "valid_manifest C (lab_committee C e)" and h: "committee_hash C (lab_committee C e) = Inr h"
    and i: "i < N" "length (w_nodes w) = i"
  obtains n where "spawn_node C env e h bs i w = (Inr (), w\<lparr>w_nodes := w_nodes w @ [n]\<rparr>)" "fresh_node C (env_config env e i) s n"
proof -
  let ?c = "env_config env e i"
  have c: "nc_epoch ?c = e" "nc_index ?c = of_nat i" "unat (nc_index ?c) < N" "unat (nc_index ?c) = i"
    using i(1) u8_index by (simp_all add: cluster_config_def)
  obtain n where n: "open_node C None None [] bs ?c = (Inr n, ws_file (ns_store n))" "fresh_node C ?c s n"
    using fresh_node_starts [OF g enc _ c(3)] m c(1) by metis
  then have "node_inv C ?c n"
    by (simp add: fresh_node_def)
  then have id: "unat (ns_index n) = i" "m_epoch (ns_manifest n) = e" "ns_committee_hash n = h"
    using c h by (auto simp: node_inv_def lab_committee_def)
  have net: "\<exists>net \<in> set (fst (env_start_ready env i) # snd (env_start_ready env i)). \<exists>io. net Ping i = Reached io"
    and io: "env_start_io env i = (None, None)"
    using env i(1) unfolding starts_well_def by blast+
  have "await_ready C message (fst (env_start_ready env i)) (snd (env_start_ready env i)) i e h (w\<lparr>w_nodes := w_nodes w @ [n]\<rparr>) =
      (Inr (), w\<lparr>w_nodes := w_nodes w @ [n]\<rparr>)" for message
    by (rule await_ready_answers [OF net]) (use i(2) id in \<open>simp_all add: nth_append\<close>)
  then show thesis
    using that [OF _ n(2)] n(1) io by (simp add: spawn_node_def)
qed

lemma spawn_nodes_ready:
  assumes env: "starts_well env" and g: "pure_genesis C s" and enc: "encode_state s = Inr bs" "decode_state bs = Inr s" "length bs \<le> MAX_FRAME_LEN"
    and m: "valid_manifest C (lab_committee C e)" and h: "committee_hash C (lab_committee C e) = Inr h"
  shows "\<lbrakk>j + length is = N; is = [j..<N]; length (w_nodes w) = j; \<forall>i < j. fresh_node C (env_config env e i) s (w_nodes w ! i)\<rbrakk> \<Longrightarrow>
    \<exists>ns. spawn_nodes C env e h bs is w = (Inr (), w\<lparr>w_nodes := ns\<rparr>) \<and> length ns = N \<and>
      (\<forall>i < N. fresh_node C (env_config env e i) s (ns ! i))"
proof (induction "is" arbitrary: j w)
  case Nil
  then show ?case
    by (intro exI [of _ "w_nodes w"]) (simp add: liftR_def)
next
  case (Cons i "is")
  from Cons.prems(2) have "[j..<N] = i # is"
    by simp
  then have j: "i = j" "j < N" "is = [Suc j..<N]"
    unfolding upt_eq_Cons_conv by auto
  obtain n where n: "spawn_node C env e h bs j w = (Inr (), w\<lparr>w_nodes := w_nodes w @ [n]\<rparr>)" "fresh_node C (env_config env e j) s n"
    by (rule spawn_node_ready [OF env g enc m h j(2) Cons.prems(3)])
  let ?w = "w\<lparr>w_nodes := w_nodes w @ [n]\<rparr>"
  have "\<forall>i < Suc j. fresh_node C (env_config env e i) s (w_nodes ?w ! i)"
    using Cons.prems(3,4) n(2) by (auto simp: nth_append less_Suc_eq)
  then obtain ns where "spawn_nodes C env e h bs is ?w = (Inr (), ?w\<lparr>w_nodes := ns\<rparr>)" "length ns = N"
    "\<forall>i < N. fresh_node C (env_config env e i) s (ns ! i)"
    using Cons.IH [of "Suc j" ?w] Cons.prems(1,3) j(3) by auto
  then show ?case
    using n(1) j(1) by (intro exI [of _ ns]) simp
qed

lemma setup_succeeds:
  assumes env: "starts_well env" and apart: "\<not> labels_collide C n" and n: "n \<le> MAX_BENCH_COUNT"
    and sig: "signatures_verify C" and keys: "inj_on (\<lambda>i. public_of C (lab_validator_key C OLD_EPOCH i)) {..<N}"
  shows "\<exists>fixture h gt bs ns. phase_setup C env n \<lparr>w_nodes = [], w_metrics = metrics\<rparr> = (Inr (fixture, h, gt, bs), \<lparr>w_nodes = ns, w_metrics = metrics\<rparr>) \<and>
    total_value (fx_genesis fixture) = Inr gt \<and> length ns = N \<and>
    (\<forall>i < N. fresh_node C (env_config env OLD_EPOCH i) (fx_genesis fixture) (ns ! i))"
proof -
  have m: "valid_manifest C (lab_committee C OLD_EPOCH)"
    by (rule lab_committee_valid [OF sig keys])
  obtain fixture where fixture: "build_fixture C n = Inr fixture"
    by (rule fixture_builds [OF n apart])
  obtain gt bs where gt: "total_value (fx_genesis fixture) = Inr gt" and enc: "encode_state (fx_genesis fixture) = Inr bs"
    "decode_state bs = Inr (fx_genesis fixture)" "length bs \<le> MAX_FRAME_LEN" and g: "pure_genesis C (fx_genesis fixture)"
    and manifest: "fx_manifest fixture = lab_committee C OLD_EPOCH"
    by (rule fixture_start [OF fixture n])
  obtain h where h: "committee_hash C (lab_committee C OLD_EPOCH) = Inr h"
    using m by (auto simp: committee_hash_Inr_iff)
  have "VALIDATOR_COUNT = N"
    by (simp add: VALIDATOR_COUNT_def N_def)
  then have sizes: "N = VALIDATOR_COUNT" "Q = 5" "length (m_members (lab_committee C OLD_EPOCH)) = 7" "VALIDATOR_COUNT = 7"
    by (simp_all add: VALIDATOR_COUNT_def N_def Q_def lab_committee_def)
  obtain ns where start: "start_cluster C env OLD_EPOCH h bs \<lparr>w_nodes = [], w_metrics = metrics\<rparr> =
      (Inr (), \<lparr>w_nodes = ns, w_metrics = metrics\<rparr>)" "length ns = N"
    and fresh: "\<forall>i < N. fresh_node C (env_config env OLD_EPOCH i) (fx_genesis fixture) (ns ! i)"
    using spawn_nodes_ready [OF env g enc m h, of 0 "[0..<N]" "\<lparr>w_nodes = [], w_metrics = metrics\<rparr>"] sizes(1)
    by (auto simp: start_cluster_def)
  have byz: "ns_byzantine (ns ! i) \<longleftrightarrow> i < 2" if "i < N" for i
    using fresh that by (simp add: fresh_node_def node_inv_def cluster_config_def)
  have "length (filter ns_byzantine ns) = card {i. i < length ns \<and> ns_byzantine (ns ! i)}"
    by (rule length_filter_conv_card)
  also have "{i. i < length ns \<and> ns_byzantine (ns ! i)} = {0, 1}"
    using byz start(2) by (auto simp: N_def)
  finally have two: "length (filter ns_byzantine ns) = 2"
    by simp
  have "phase_setup C env n \<lparr>w_nodes = [], w_metrics = metrics\<rparr> = (Inr (fixture, h, gt, bs), \<lparr>w_nodes = ns, w_metrics = metrics\<rparr>)"
    unfolding phase_setup_def by (auto simp: bindR_iff fixture manifest h gt enc start two sizes)
  then show ?thesis
    using gt start(2) fresh by blast
qed

end
