(* ===== verification/Threads.thy ===== *)
theory Threads
  imports Lab Concurrent Report PhaseStart
begin

text \<open>
  A laboratory cluster with two client threads: cells whose conflict keys differ under
  \<open>lab_crypto\<close>, and the validators that hold them live.
\<close>

definition thread_cell :: "nat \<Rightarrow> cell" where
  "thread_cell k =
    (let r = \<lparr>cr_asset_id = ASSET_CALIBRE, cr_id = repeat_array (of_nat k), cr_generation = 0\<rparr> in
     \<lparr>cell_reference = r, cell_amount = 100, cell_owner = public_of lab_crypto lab_alice, cell_predecessor = zero_array,
      cell_state_digest = compute_cell_digest lab_crypto r 100 (public_of lab_crypto lab_alice) zero_array\<rparr>)"

lemma thread_cell_valid [simp]: "validate_cell lab_crypto (thread_cell k) = Inr ()"
  by (simp add: validate_cell_def thread_cell_def Let_def)

lemma thread_cell_simps [simp]:
  "cell_amount (thread_cell k) = 100" "cell_owner (thread_cell k) = public_of lab_crypto lab_alice"
  "cr_asset_id (cell_reference (thread_cell k)) = ASSET_CALIBRE"
  by (simp_all add: thread_cell_def Let_def)

definition thread_tx :: "nat \<Rightarrow> tx" where
  "thread_tx k = (lab_tx k)\<lparr>tx_input := thread_cell k\<rparr>"

lemma thread_tx_valid: "valid_tx lab_crypto (thread_tx k) lab_manifest"
  using lab_tx_valid [of k] by (simp add: valid_tx_def thread_tx_def)

definition thread_auth :: "nat \<Rightarrow> user_auth" where
  "thread_auth k = projr (sign_user lab_crypto (thread_tx k) lab_alice)"

lemma thread_auth_verifies: "verify_user_auth lab_crypto (thread_tx k) (thread_auth k) (lab_committee lab_crypto OLD_EPOCH) = Inr ()"
proof -
  obtain x where "intent_hash lab_crypto (thread_tx k) = Inr x"
    by (auto simp: intent_hash_def tx_bytes_def thread_tx_def lab_tx_def)
  then show ?thesis
    using thread_tx_valid [of k]
    by (simp add: verify_user_auth_iff thread_auth_def sign_user_def user_message_def lab_manifest_def)
      (simp add: thread_tx_def)
qed

lemma thread_keys_differ:
  "conflict_key lab_crypto (cell_reference (thread_cell 1)) \<noteq> conflict_key lab_crypto (cell_reference (thread_cell 2))"
proof
  assume eq: "conflict_key lab_crypto (cell_reference (thread_cell 1)) = conflict_key lab_crypto (cell_reference (thread_cell 2))"
  have "array_bytes (conflict_key lab_crypto (cell_reference (thread_cell k))) ! 10 = of_nat k" for k
    unfolding conflict_key_def cell_ref_bytes_def thread_cell_def Let_def cell.simps cell_ref.simps
    by (subst lab_hash_domain) (simp_all add: bytes_repeat_array nth_append rev_nth nth_Cons')
  from this [of 1] this [of 2] show False
    unfolding eq by simp
qed

definition thread_state :: state where
  "thread_state = \<lparr>st_live = fmap_of_list (map (\<lambda>k. (cell_reference (thread_cell k), thread_cell k)) [1, 2]), st_spent_by = fmempty,
    st_known_ids = fset_of_list (map (\<lambda>k. cr_id (cell_reference (thread_cell k))) [1, 2]), st_applied = fmempty\<rparr>"

lemma thread_refs_differ: "cell_reference (thread_cell 1) \<noteq> cell_reference (thread_cell 2)"
  "cr_id (cell_reference (thread_cell 1)) \<noteq> cr_id (cell_reference (thread_cell 2))"
proof -
  show refs: "cell_reference (thread_cell 1) \<noteq> cell_reference (thread_cell 2)"
    using thread_keys_differ by metis
  then show "cr_id (cell_reference (thread_cell 1)) \<noteq> cr_id (cell_reference (thread_cell 2))"
    by (simp add: thread_cell_def Let_def)
qed

lemma thread_live:
  "k \<in> {1, 2} \<Longrightarrow> live_cell thread_state (cell_reference (tx_input (thread_tx k))) = Some (tx_input (thread_tx k))"
  using thread_refs_differ(1) by (auto simp: live_cell_def thread_state_def thread_tx_def fmlookup_of_list)

lemma thread_genesis: "pure_genesis lab_crypto thread_state"
proof -
  have "state_ok lab_crypto thread_state"
    by (auto simp: state_ok_def thread_state_def fmlookup_of_list fset_of_list.rep_eq split: if_splits)
  then show ?thesis
    using thread_refs_differ by (simp add: pure_genesis_def thread_state_def)
qed

definition thread_bytes :: "u8 list" where
  "thread_bytes = projr (encode_state thread_state)"

definition thread_node :: "nat \<Rightarrow> node_server" where
  "thread_node i = projr (fst (open_node lab_crypto None None [] thread_bytes (cluster_configs OLD_EPOCH i)))"

definition thread_world :: world where
  "thread_world = \<lparr>w_nodes = map thread_node [0..<N], w_metrics = new_metrics\<rparr>"

lemma thread_fresh_node:
  assumes "i < N"
  shows "fresh_node lab_crypto (cluster_configs OLD_EPOCH i) thread_state (thread_node i)"
proof -
  have "fcard (fmdom (st_live thread_state)) \<le> MAX_COLLECTION_LEN"
    by (simp add: thread_state_def MAX_COLLECTION_LEN_def fcard_finsert_if fcard_fempty)
  from pure_genesis_encodes [OF thread_genesis this]
  have bytes: "encode_state thread_state = Inr thread_bytes" "decode_state thread_bytes = Inr thread_state"
    "length thread_bytes \<le> MAX_FRAME_LEN"
    unfolding thread_bytes_def by (metis sum.sel(2))+
  have "valid_manifest lab_crypto (lab_committee lab_crypto (nc_epoch (cluster_configs OLD_EPOCH i)))"
    using lab_manifest_valid by (simp add: cluster_config_def lab_manifest_def)
  moreover have "unat (nc_index (cluster_configs OLD_EPOCH i)) < N"
    using assms by (simp add: cluster_config_def u8_index)
  ultimately obtain n where "open_node lab_crypto None None [] thread_bytes (cluster_configs OLD_EPOCH i) = (Inr n, ws_file (ns_store n))"
    "fresh_node lab_crypto (cluster_configs OLD_EPOCH i) thread_state n"
    by (rule fresh_node_starts [OF thread_genesis bytes])
  then show ?thesis
    by (simp add: thread_node_def)
qed

lemma thread_world: "fresh_world lab_crypto OLD_EPOCH thread_state thread_world"
  using thread_fresh_node by (simp add: fresh_world_def thread_world_def)

definition thread_transfers :: "(tx \<times> user_auth) list" where
  "thread_transfers = [(thread_tx 1, thread_auth 1), (thread_tx 2, thread_auth 2)]"

lemma thread_ready: "bench_ready lab_crypto OLD_EPOCH (cluster_configs OLD_EPOCH) thread_transfers thread_world"
  unfolding bench_ready_def
proof (intro conjI allI impI)
  show "N \<le> length (w_nodes thread_world)"
    using thread_world by (simp add: fresh_world_def)
  fix k assume "k < length thread_transfers"
  then have "fst (thread_transfers ! k) = thread_tx (Suc k)" "Suc k \<in> {1, 2}"
    by (auto simp: thread_transfers_def less_Suc_eq numeral_2_eq_2)
  then show "cluster_ready lab_crypto OLD_EPOCH (cluster_configs OLD_EPOCH) (fst (thread_transfers ! k)) (100 + of_nat k)
      (projr (intent_hash lab_crypto (fst (thread_transfers ! k)))) (10 * length thread_transfers) thread_world"
    using fresh_world_ready [OF thread_world thread_live [of "Suc k"]] by (simp add: thread_transfers_def)
qed

lemma thread_authorized:
  "\<forall>t \<in> set thread_transfers. verify_user_auth lab_crypto (fst t) (snd t) (lab_committee lab_crypto OLD_EPOCH) = Inr ()"
  using thread_auth_verifies by (simp add: thread_transfers_def)

lemma thread_cells: "distinct (map (\<lambda>t. cell_reference (tx_input (fst t))) thread_transfers)"
  using thread_keys_differ by (auto simp: thread_transfers_def thread_tx_def)

lemma thread_keys_apart:
  "\<not> (\<exists>t \<in> set thread_transfers. \<exists>u \<in> set thread_transfers. collide lab_crypto (key_preimage t) (key_preimage u))"
  using thread_keys_differ by (auto simp: thread_transfers_def thread_tx_def collide_def conflict_key_def hash_domain_def)

text \<open>An order in which the main thread and the two clients take turns.\<close>

definition thread_order :: "nat \<Rightarrow> gate_event" where
  "thread_order n = (if n mod 3 = 0 then MainStep else ClientStep (n mod 3 - 1))"

lemma thread_order_fair: "fair_order (length thread_transfers) thread_order"
proof -
  have "\<exists>i \<ge> m. thread_order i = MainStep" "\<exists>i \<ge> m. thread_order i = ClientStep 0" "\<exists>i \<ge> m. thread_order i = ClientStep 1" for m
    by (rule exI [of _ "3 * m"], simp add: thread_order_def, rule exI [of _ "3 * m + 1"], simp add: thread_order_def mod_Suc,
      rule exI [of _ "3 * m + 2"], simp add: thread_order_def mod_Suc)
  then show ?thesis
    by (auto simp: fair_order_def thread_transfers_def less_Suc_eq numeral_2_eq_2)
qed

definition thread_events :: "gate_event list" where
  "thread_events = [MainStep, ClientStep 0, MainStep, Spurious 0, ClientStep 0, MainStep, ClientStep 1, MainStep, ClientStep 1,
    ClientStep 1, ClientStep 0, ClientStep 0]"

section \<open>A run in the laboratory\<close>

definition lab_env :: phase_env where
  "lab_env = \<lparr>env_net = (\<lambda>_ _ _. Reached None), env_start_ready = (\<lambda>_. (\<lambda>_ _. Unreachable, [\<lambda>_ _. ReplyLost None, \<lambda>_ _. Reached None])),
    env_restart_ready = (\<lambda>_ _. Reached None, []), env_start_io = (\<lambda>_. (None, None)), env_restart_io = (None, None),
    env_ports = (\<lambda>i. 4000 + of_nat i), env_restart_port = 4100, env_wal_paths = (\<lambda>i. ''validator'' @ replicate i (CHR ''i'')),
    env_snapshot_path = ''genesis.snapshot'', env_split_spawned = (\<lambda>_. True),
    env_split_events = [MainStep, MainStep, ClientStep 1, MainStep, Spurious 1], env_finalize_spawned = (\<lambda>_. True),
    env_finalize_events = [], env_apply_spawned = (\<lambda>_. True), env_apply_schedule = [3, 2, 1],
    env_bob_elapsed = 7, env_elapsed = (\<lambda>k. 5 + k), env_bench_elapsed = 100, env_cleaned = True\<rparr>"

lemma lab_user_keys_differ:
  assumes "a \<noteq> b"
  shows "lab_user_key lab_crypto a \<noteq> lab_user_key lab_crypto b"
proof
  assume "lab_user_key lab_crypto a = lab_user_key lab_crypto b"
  then have "a = b"
    unfolding lab_user_key_def deterministic_key_def by (rule lab_label_inj) simp
  then show False
    using assms by simp
qed

lemma lab_charlie_apart:
  assumes "n \<le> MAX_BENCH_COUNT"
  shows "charlie_apart lab_crypto n"
proof -
  have "CHARLIE_KEY_LABEL \<noteq> 1000 + of_nat i" if "i < n" for i
  proof -
    have "unat (1000 + of_nat i :: u64) = 1000 + i"
      using that assms by (simp add: MAX_BENCH_COUNT_def unat_word_ariths unat_of_nat)
    then have "unat CHARLIE_KEY_LABEL \<noteq> unat (1000 + of_nat i :: u64)"
      by (simp add: CHARLIE_KEY_LABEL_def)
    then show ?thesis
      by metis
  qed
  moreover have "CHARLIE_KEY_LABEL \<noteq> 9999"
    by (simp add: CHARLIE_KEY_LABEL_def)
  ultimately show ?thesis
    using lab_user_keys_differ by (simp add: charlie_apart_def fee_collector_def Let_def)
qed

lemma lab_labels_apart: "\<not> labels_collide lab_crypto n"
proof -
  have "a = b" if "blake3 lab_crypto (genesis_preimage a) = blake3 lab_crypto (genesis_preimage b)" for a b
    using injD [OF lab_genesis_ids] that by (simp add: hash_domain_def)
  then show ?thesis
    by (auto simp: labels_collide_def collide_def)
qed

lemma lab_starts_well: "starts_well lab_env"
  by (simp add: starts_well_def lab_env_def)

text \<open>A system in which the program can be read, and numbers that are whole.\<close>

definition lab_report_env :: report_env where
  "lab_report_env = \<lparr>re_executable = Some ''calibre'', re_executable_bytes = Some [1, 2, 3], re_invocation = ''calibre'',
    re_source_commit = None, re_platform = ''linux'', re_elapsed_ms = 10, re_writable = (\<lambda>_. True)\<rparr>"

definition lab_floats :: "nat floats" where
  "lab_floats = \<lparr>fl_of = id, fl_seconds = (\<lambda>t. t div 1000000), fl_mul = (*), fl_div = (div), fl_is_zero = (\<lambda>x. x = 0),
    fl_finite = (\<lambda>_. True), fl_display = decimal\<rparr>"

end
