(* ===== verification/Rounds.thy ===== *)
theory Rounds
  imports Bytes
begin

text \<open>
  The bounded exhaustive model of conflict-local round changes (\<open>sec012/src/main.rs\<close>): five honest
  certifiers with their locks, the PREVOTE certificates seen so far, and an adversary that in each
  round delivers a certificate to any subset of the honest certifiers.  The program explores every
  reachable state of three adversarial rounds and then lets the network heal.

  A \<open>HashSet\<close> is the list of its elements in the order of insertion; \<open>u64\<close> counters and the shift
  of \<open>qc_bit\<close> behave as in the release build the repository runs (wrap-around, shift amount modulo
  the width).
\<close>

unbundle bit_operations_syntax

section \<open>Digests, locks and states\<close>

definition CERT_N :: nat where "CERT_N = 7"
definition CERT_Q :: nat where "CERT_Q = 5"
definition F_TARGET :: nat where "F_TARGET = 2"
definition CERT_H :: nat where "CERT_H = 5"
definition ADVERSARIAL_ROUNDS :: u8 where "ADVERSARIAL_ROUNDS = 3"

datatype candidate = DigestA | DigestB

fun digest_idx :: "candidate \<Rightarrow> u16" where
  "digest_idx DigestA = 0"
| "digest_idx DigestB = 1"

fun digest_other :: "candidate \<Rightarrow> candidate" where
  "digest_other DigestA = DigestB"
| "digest_other DigestB = DigestA"

record qc_lock =
  lk_round :: u8
  lk_digest :: candidate

record round_state =
  es_locks :: "qc_lock option list"
  es_prevote_qc_mask :: u16
  es_finality :: "candidate option"

definition genesis_rounds :: round_state where
  "genesis_rounds = \<lparr>es_locks = replicate CERT_H None, es_prevote_qc_mask = 0, es_finality = None\<rparr>"

record explore_stats =
  sx_transitions :: u64
  sx_qc_branches :: u64
  sx_no_qc_branches :: u64
  sx_partial_lock_branches :: u64
  sx_full_honest_lock_branches :: u64
  sx_finality_branches :: u64
  sx_safety_violations :: u64
  sx_recovery_failures :: u64
  sx_checked_terminal_states :: u64
  sx_max_recovery_rounds :: u8

definition default_stats :: explore_stats where
  "default_stats = \<lparr>sx_transitions = 0, sx_qc_branches = 0, sx_no_qc_branches = 0, sx_partial_lock_branches = 0,
    sx_full_honest_lock_branches = 0, sx_finality_branches = 0, sx_safety_violations = 0, sx_recovery_failures = 0,
    sx_checked_terminal_states = 0, sx_max_recovery_rounds = 0\<rparr>"

section \<open>Certificates and votes\<close>

definition u8_below :: "u8 \<Rightarrow> u8 list" where
  "u8_below n = map of_nat [0..<unat n]"

definition qc_bit :: "u8 \<Rightarrow> candidate \<Rightarrow> u16" where
  "qc_bit rnd d = push_bit (unat (ucast rnd * 2 + digest_idx d) mod 16) 1"

definition has_prevote_qc :: "round_state \<Rightarrow> u8 \<Rightarrow> candidate \<Rightarrow> bool" where
  "has_prevote_qc st rnd d \<longleftrightarrow> es_prevote_qc_mask st AND qc_bit rnd d \<noteq> 0"

definition highest_qc_round :: "round_state \<Rightarrow> candidate \<Rightarrow> u8 \<Rightarrow> u8 option" where
  "highest_qc_round st d limit = List.find (\<lambda>r. has_prevote_qc st r d) (rev (u8_below limit))"

definition note_qc :: "round_state \<Rightarrow> u8 \<times> candidate \<Rightarrow> (u8 \<times> candidate) option \<Rightarrow> (u8 \<times> candidate) option" where
  "note_qc st rd best =
    (if has_prevote_qc st (fst rd) (snd rd)
     then (case best of None \<Rightarrow> Some rd | Some (old, _) \<Rightarrow> if fst rd > old then Some rd else best)
     else best)"

definition highest_qc_any :: "round_state \<Rightarrow> u8 \<Rightarrow> (u8 \<times> candidate) option" where
  "highest_qc_any st limit = fold (note_qc st) (List.product (u8_below limit) [DigestA, DigestB]) None"

definition preferred_digest :: "round_state \<Rightarrow> u8 \<Rightarrow> candidate" where
  "preferred_digest st limit = (case highest_qc_any st limit of Some (_, d) \<Rightarrow> d | None \<Rightarrow> DigestA)"

definition can_prevote :: "qc_lock option \<Rightarrow> candidate \<Rightarrow> u8 option \<Rightarrow> bool" where
  "can_prevote lock d justify =
    (case lock of
       None \<Rightarrow> True
     | Some l \<Rightarrow> if lk_digest l = d then True
                 else (case justify of Some r \<Rightarrow> r > lk_round l | None \<Rightarrow> False))"

definition honest_can_prevote_count :: "round_state \<Rightarrow> u8 \<Rightarrow> candidate \<Rightarrow> nat" where
  "honest_can_prevote_count st rnd d =
    (let justify = highest_qc_round st d rnd
     in length (filter (\<lambda>lock. can_prevote lock d justify) (es_locks st)))"

definition rotating_leader :: "nat \<Rightarrow> u8 \<Rightarrow> nat" where
  "rotating_leader offset rnd = (offset + unat rnd) mod CERT_N"

definition leader_is_byzantine :: "nat \<Rightarrow> u8 \<Rightarrow> bool" where
  "leader_is_byzantine offset rnd \<longleftrightarrow> rotating_leader offset rnd < F_TARGET"

section \<open>Delivering a certificate\<close>

definition deliver_one :: "u8 \<Rightarrow> qc_lock \<Rightarrow> nat \<Rightarrow> nat \<times> qc_lock option list \<Rightarrow> nat \<times> qc_lock option list" where
  "deliver_one dm lock i acc =
    (if dm AND push_bit i 1 \<noteq> 0 then (fst acc + 1, (snd acc)[i := Some lock]) else acc)"

definition count_partial :: "nat \<Rightarrow> explore_stats \<Rightarrow> explore_stats" where
  "count_partial honest_precommits s =
    (if honest_precommits > 0 \<and> honest_precommits < CERT_H
     then s\<lparr>sx_partial_lock_branches := sx_partial_lock_branches s + 1\<rparr> else s)"

definition count_full :: "nat \<Rightarrow> explore_stats \<Rightarrow> explore_stats" where
  "count_full honest_precommits s =
    (if honest_precommits = CERT_H
     then s\<lparr>sx_full_honest_lock_branches := sx_full_honest_lock_branches s + 1\<rparr> else s)"

definition apply_precommit_delivery ::
    "round_state \<Rightarrow> u8 \<Rightarrow> candidate \<Rightarrow> u8 \<Rightarrow> bool \<Rightarrow> explore_stats \<Rightarrow> round_state option \<times> explore_stats" where
  "apply_precommit_delivery st rnd d delivery_mask finality_exists s =
    (case fold (deliver_one delivery_mask \<lparr>lk_round = rnd, lk_digest = d\<rparr>) [0..<CERT_H] (0, es_locks st) of
       (honest_precommits, locks) \<Rightarrow>
         let next_st = st\<lparr>es_prevote_qc_mask := es_prevote_qc_mask st OR qc_bit rnd d, es_locks := locks\<rparr>;
             s1 = count_full honest_precommits (count_partial honest_precommits s)
         in if finality_exists then
              (let s2 = s1\<lparr>sx_finality_branches := sx_finality_branches s1 + 1\<rparr> in
               case es_finality next_st of
                 None \<Rightarrow> (Some (next_st\<lparr>es_finality := Some d\<rparr>), s2)
               | Some existing \<Rightarrow>
                   if existing = d then (Some next_st, s2)
                   else (None, s2\<lparr>sx_safety_violations := sx_safety_violations s2 + 1\<rparr>))
            else (Some next_st, s1))"

definition count_ones8 :: "u8 \<Rightarrow> nat" where
  "count_ones8 dm = length (filter (bit dm) [0..<8])"

definition try_delivery ::
    "round_state \<Rightarrow> u8 \<Rightarrow> candidate \<Rightarrow> u8 \<Rightarrow> bool \<Rightarrow> round_state list \<times> explore_stats \<Rightarrow> round_state list \<times> explore_stats" where
  "try_delivery st rnd d dm finality_exists acc =
    (case apply_precommit_delivery st rnd d dm finality_exists (snd acc) of
       (Some next_st, s) \<Rightarrow> (List.insert next_st (fst acc), s\<lparr>sx_transitions := sx_transitions s + 1\<rparr>)
     | (None, s) \<Rightarrow> (fst acc, s))"

definition deliver_mask ::
    "round_state \<Rightarrow> u8 \<Rightarrow> candidate \<Rightarrow> u8 \<Rightarrow> round_state list \<times> explore_stats \<Rightarrow> round_state list \<times> explore_stats" where
  "deliver_mask st rnd d dm acc =
    (let honest_precommits = count_ones8 dm;
         must_finalize = honest_precommits \<ge> CERT_Q;
         acc1 = try_delivery st rnd d dm must_finalize acc
     in if honest_precommits \<ge> CERT_Q - F_TARGET \<and> \<not> must_finalize
        then try_delivery st rnd d dm True acc1 else acc1)"

definition try_candidate ::
    "round_state \<Rightarrow> u8 \<Rightarrow> candidate \<Rightarrow> round_state list \<times> explore_stats \<Rightarrow> round_state list \<times> explore_stats" where
  "try_candidate st rnd d acc =
    (if honest_can_prevote_count st rnd d < CERT_Q - F_TARGET then acc
     else fold (deliver_mask st rnd d) (u8_below (push_bit CERT_H 1))
       (fst acc, (snd acc)\<lparr>sx_qc_branches := sx_qc_branches (snd acc) + 1\<rparr>))"

definition round_candidates :: "round_state \<Rightarrow> nat \<Rightarrow> u8 \<Rightarrow> candidate list" where
  "round_candidates st offset rnd =
    (if leader_is_byzantine offset rnd then [DigestA, DigestB] else [preferred_digest st rnd])"

definition expand_round :: "round_state \<Rightarrow> nat \<Rightarrow> u8 \<Rightarrow> explore_stats \<Rightarrow> round_state list \<times> explore_stats" where
  "expand_round st offset rnd s =
    fold (try_candidate st rnd) (round_candidates st offset rnd)
      ([st], s\<lparr>sx_no_qc_branches := sx_no_qc_branches s + 1, sx_transitions := sx_transitions s + 1\<rparr>)"

section \<open>Recovery, and the exploration\<close>

fun recover_steps :: "round_state \<Rightarrow> nat \<Rightarrow> u8 \<Rightarrow> u8 list \<Rightarrow> (candidate \<times> u8) option" where
  "recover_steps st offset start_round [] = None"
| "recover_steps st offset start_round (step # steps) =
    (let rnd = start_round + step in
     if leader_is_byzantine offset rnd then recover_steps st offset start_round steps
     else let d = preferred_digest st rnd;
              justify = highest_qc_round st d rnd
          in if list_all (\<lambda>lock. can_prevote lock d justify) (es_locks st) then Some (d, step + 1)
             else recover_steps st offset start_round steps)"

definition recover_after_gst :: "round_state \<Rightarrow> nat \<Rightarrow> u8 \<Rightarrow> (candidate \<times> u8) option" where
  "recover_after_gst st offset start_round =
    (case es_finality st of
       Some d \<Rightarrow> Some (d, 0)
     | None \<Rightarrow> recover_steps st offset start_round (u8_below (of_nat CERT_N)))"

definition expand_one ::
    "nat \<Rightarrow> u8 \<Rightarrow> round_state \<Rightarrow> round_state list \<times> explore_stats \<Rightarrow> round_state list \<times> explore_stats" where
  "expand_one offset rnd st acc =
    (case expand_round st offset rnd (snd acc) of (out, s) \<Rightarrow> (fold List.insert out (fst acc), s))"

definition expand_states :: "nat \<Rightarrow> u8 \<Rightarrow> round_state list \<times> explore_stats \<Rightarrow> round_state list \<times> explore_stats" where
  "expand_states offset rnd acc = fold (expand_one offset rnd) (fst acc) ([], snd acc)"

definition check_terminal :: "nat \<Rightarrow> round_state \<Rightarrow> explore_stats \<Rightarrow> explore_stats" where
  "check_terminal offset st s =
    (let s1 = s\<lparr>sx_checked_terminal_states := sx_checked_terminal_states s + 1\<rparr> in
     case recover_after_gst st offset ADVERSARIAL_ROUNDS of
       Some (_, rounds) \<Rightarrow> s1\<lparr>sx_max_recovery_rounds := max (sx_max_recovery_rounds s1) rounds\<rparr>
     | None \<Rightarrow> s1\<lparr>sx_recovery_failures := sx_recovery_failures s1 + 1\<rparr>)"

definition run_offset :: "nat \<Rightarrow> explore_stats \<Rightarrow> round_state list \<times> explore_stats" where
  "run_offset offset s =
    (case fold (expand_states offset) (u8_below ADVERSARIAL_ROUNDS) ([genesis_rounds], s) of
       (states, s1) \<Rightarrow> (states, fold (check_terminal offset) states s1))"

definition f3_boundary_witness :: bool where
  "f3_boundary_witness \<longleftrightarrow>
    (let byzantine_overlap = 3; honest_for_a = 2; honest_for_b = 2
     in byzantine_overlap + honest_for_a \<ge> CERT_Q \<and> byzantine_overlap + honest_for_b \<ge> CERT_Q)"

definition run_offsets :: "round_state list \<times> explore_stats" where
  "run_offsets = fold (\<lambda>offset acc. case run_offset offset (snd acc) of
      (states, s) \<Rightarrow> (fold List.insert states (fst acc), s)) [0..<CERT_N] ([], default_stats)"

definition explorer_exit_code :: nat where
  "explorer_exit_code =
    (let s = snd run_offsets
     in if sx_safety_violations s \<noteq> 0 \<or> sx_recovery_failures s \<noteq> 0 \<or> \<not> f3_boundary_witness then 1 else 0)"

section \<open>The certificates of a state\<close>

fun cand_idx :: "candidate \<Rightarrow> nat" where
  "cand_idx DigestA = 0"
| "cand_idx DigestB = 1"

definition qc_at :: "round_state \<Rightarrow> nat \<Rightarrow> candidate \<Rightarrow> bool" where
  "qc_at st r d \<longleftrightarrow> bit (es_prevote_qc_mask st) (2 * r + cand_idx d)"

lemma cand_idx_less [simp]: "cand_idx d < 2"
  by (cases d) simp_all

lemma qc_index_inj: "2 * r + cand_idx d = 2 * q + cand_idx e \<longleftrightarrow> r = q \<and> d = e"
  by (cases d; cases e) (auto; presburger)+

lemma digest_idx_nat: "digest_idx d = of_nat (cand_idx d)"
  by (cases d) simp_all

lemma unat_small_u8: "n < 256 \<Longrightarrow> unat (of_nat n :: u8) = n"
  by (simp add: unat_of_nat)

lemma u8_as_u16: "(ucast (w :: u8) :: u16) = of_nat (unat w)"
  by transfer simp

lemma qc_shift:
  assumes "unat rnd < 8"
  shows "unat (ucast (rnd :: u8) * 2 + digest_idx d :: u16) mod 16 = 2 * unat rnd + cand_idx d"
proof -
  let ?k = "2 * unat rnd + cand_idx d"
  have k: "?k < 16"
    using assms cand_idx_less [of d] by linarith
  have "(ucast rnd * 2 + digest_idx d :: u16) = of_nat ?k"
    by (simp only: u8_as_u16 digest_idx_nat of_nat_add of_nat_mult of_nat_numeral mult.commute)
  moreover have "unat (of_nat j :: u16) mod 16 = j" if "j < 16" for j
    using that by (simp add: unat_of_nat)
  ultimately show ?thesis
    using k by metis
qed

lemma and_exp_bit: "(w :: 'a::len word) AND 2 ^ n = 0 \<longleftrightarrow> \<not> bit w n"
  by (rule and_exp_eq_0_iff_not_bit)

lemma has_prevote_qc_iff: "unat rnd < 8 \<Longrightarrow> has_prevote_qc st rnd d \<longleftrightarrow> qc_at st (unat rnd) d"
  by (simp add: has_prevote_qc_def qc_bit_def qc_shift and_exp_bit qc_at_def)

lemma qc_at_bound: "qc_at st r d \<Longrightarrow> r < 8"
  using bit_imp_le_length [of "es_prevote_qc_mask st" "2 * r + cand_idx d"] by (simp add: qc_at_def)

lemma set_u8_below: "set (u8_below n) = {r. r < n}"
proof -
  have "r \<in> of_nat ` {0..<unat n}" if "r < n" for r :: u8
    using that by (intro image_eqI [of _ _ "unat r"]) (simp_all add: word_less_nat_alt)
  moreover have "of_nat i < n" if "i < unat n" for i
    using that unsigned_less [of n, where ?'a = nat] by (simp add: word_less_nat_alt unat_of_nat)
  ultimately show ?thesis
    by (auto simp: u8_below_def)
qed

section \<open>The highest certificates\<close>

lemma find_rev_maximal:
  assumes "List.find P (rev (map f [0..<n])) = Some x"
  obtains i where "i < n" "x = f i" "P (f i)" "\<And>j. i < j \<Longrightarrow> j < n \<Longrightarrow> \<not> P (f j)"
  using assms
proof (induction n arbitrary: thesis)
  case (Suc n)
  show ?case
  proof (cases "P (f n)")
    case True
    then show ?thesis
      using Suc.prems(1) [of n] Suc.prems(2) by simp
  next
    case False
    then have "List.find P (rev (map f [0..<n])) = Some x"
      using Suc.prems(2) by simp
    then show ?thesis
    proof (rule Suc.IH [rotated])
      fix i assume i: "i < n" "x = f i" "P (f i)" "\<And>j. i < j \<Longrightarrow> j < n \<Longrightarrow> \<not> P (f j)"
      show thesis
        by (rule Suc.prems(1) [of i]) (use i False less_Suc_eq in auto)
    qed
  qed
qed simp

lemma highest_qc_round_Some:
  assumes "highest_qc_round st d limit = Some r" and "unat limit \<le> 8"
  shows "qc_at st (unat r) d" "unat r < unat limit" "\<And>q. qc_at st q d \<Longrightarrow> q < unat limit \<Longrightarrow> q \<le> unat r"
proof -
  obtain i where i: "i < unat limit" "r = of_nat i" "has_prevote_qc st (of_nat i) d"
    "\<And>j. i < j \<Longrightarrow> j < unat limit \<Longrightarrow> \<not> has_prevote_qc st (of_nat j) d"
    using find_rev_maximal [OF assms(1) [unfolded highest_qc_round_def u8_below_def]] by metis
  have small: "unat (of_nat j :: u8) = j" if "j < unat limit" for j
    using that assms(2) by (intro unat_small_u8) simp
  show "unat r < unat limit"
    using i(1,2) small by simp
  show "qc_at st (unat r) d"
    using i small [OF i(1)] assms(2) by (simp add: has_prevote_qc_iff)
  show "q \<le> unat r" if "qc_at st q d" "q < unat limit" for q
    using i(4) [OF _ that(2)] that(1) small [OF that(2)] small [OF i(1)] i(2) assms(2) that(2)
    by (fastforce simp: has_prevote_qc_iff not_le [symmetric])
qed

lemma highest_qc_round_None:
  assumes "highest_qc_round st d limit = None" and "unat limit \<le> 8" and "q < unat limit"
  shows "\<not> qc_at st q d"
proof -
  have "unat (of_nat q :: u8) = q"
    using assms(2,3) by (intro unat_small_u8) simp
  moreover have "\<not> has_prevote_qc st (of_nat q) d"
    using assms(1,3) by (auto simp: highest_qc_round_def find_None_iff u8_below_def)
  ultimately show ?thesis
    using assms(2,3) by (simp add: has_prevote_qc_iff)
qed

definition highest_so_far :: "round_state \<Rightarrow> nat \<Rightarrow> (u8 \<times> candidate) option \<Rightarrow> bool" where
  "highest_so_far st n best \<longleftrightarrow>
    (case best of
       None \<Rightarrow> \<forall>q d. q < n \<longrightarrow> \<not> qc_at st q d
     | Some (r, d) \<Rightarrow> unat r < n \<and> qc_at st (unat r) d \<and> (\<forall>q e. q < n \<longrightarrow> qc_at st q e \<longrightarrow> q \<le> unat r))"

lemma highest_so_far_step:
  assumes "highest_so_far st n best" and "n < 8"
  shows "highest_so_far st (Suc n) (note_qc st (of_nat n, DigestB) (note_qc st (of_nat n, DigestA) best))"
proof -
  have n: "unat (of_nat n :: u8) = n"
    using assms(2) by (intro unat_small_u8) simp
  have has: "has_prevote_qc st (of_nat n) d \<longleftrightarrow> qc_at st n d" for d
    using n assms(2) by (simp add: has_prevote_qc_iff)
  have all: "(\<forall>d. P d) \<longleftrightarrow> P DigestA \<and> P DigestB" for P
    by (metis candidate.exhaust)
  show ?thesis
    using assms(1) n
    by (auto simp: highest_so_far_def note_qc_def has less_Suc_eq word_less_nat_alt all split: option.splits)
qed

lemma highest_qc_any_so_far:
  assumes "unat limit \<le> 8"
  shows "highest_so_far st (unat limit) (highest_qc_any st limit)"
proof -
  have "highest_so_far st n (fold (note_qc st) (List.product (map of_nat [0..<n]) [DigestA, DigestB]) None)" if "n \<le> 8" for n
    using that
  proof (induction n)
    case 0
    then show ?case
      by (simp add: highest_so_far_def)
  next
    case (Suc n)
    have product_snoc: "List.product (xs @ [x]) ys = List.product xs ys @ map (Pair x) ys" for xs :: "u8 list" and x and ys :: "candidate list"
      by (induction xs) simp_all
    show ?case
      using highest_so_far_step [OF Suc.IH] Suc.prems by (simp add: product_snoc)
  qed
  then show ?thesis
    using assms by (simp add: highest_qc_any_def u8_below_def)
qed

section \<open>The invariant of a round\<close>

text \<open>
  A decision rests on three honest locks no certificate for the other digest can overtake, so the
  other digest never again finds three honest certifiers that may vote for it.
\<close>

definition locked_from :: "round_state \<Rightarrow> nat \<Rightarrow> candidate \<Rightarrow> nat set" where
  "locked_from st q d = {i. i < CERT_H \<and> (\<exists>k. es_locks st ! i = Some k \<and> lk_digest k = d \<and> q \<le> unat (lk_round k))}"

definition decided :: "round_state \<Rightarrow> candidate \<Rightarrow> bool" where
  "decided st d \<longleftrightarrow> (\<exists>q. qc_at st q d \<and> 3 \<le> card (locked_from st q d) \<and> (\<forall>p e. qc_at st p e \<longrightarrow> q < p \<longrightarrow> e = d))"

definition round_inv :: "nat \<Rightarrow> round_state \<Rightarrow> bool" where
  "round_inv r st \<longleftrightarrow> length (es_locks st) = CERT_H \<and> (\<forall>q d. qc_at st q d \<longrightarrow> q < r) \<and>
    (\<forall>q d e. qc_at st q d \<longrightarrow> qc_at st q e \<longrightarrow> d = e) \<and>
    (\<forall>i k. i < CERT_H \<longrightarrow> es_locks st ! i = Some k \<longrightarrow> qc_at st (unat (lk_round k)) (lk_digest k)) \<and>
    (\<forall>d. es_finality st = Some d \<longrightarrow> decided st d)"

lemma genesis_inv: "round_inv 0 genesis_rounds"
  by (simp add: round_inv_def genesis_rounds_def CERT_H_def qc_at_def)

lemma round_inv_mono: "round_inv r st \<Longrightarrow> r \<le> r' \<Longrightarrow> round_inv r' st"
  unfolding round_inv_def by (meson less_le_trans)

lemma card_filter_index: "length (filter P xs) = card {i. i < length xs \<and> P (xs ! i)}"
  by (rule length_filter_conv_card)

lemma decided_blocks:
  assumes inv: "round_inv (unat rnd) st" and r: "unat rnd \<le> 8" and d: "decided st d"
    and votes: "CERT_Q - F_TARGET \<le> honest_can_prevote_count st rnd e"
  shows "e = d"
proof (rule ccontr)
  assume ne: "e \<noteq> d"
  obtain q where q: "qc_at st q d" "3 \<le> card (locked_from st q d)" "\<And>p x. qc_at st p x \<Longrightarrow> q < p \<Longrightarrow> x = d"
    using d unfolding decided_def by metis
  let ?votes = "{i. i < CERT_H \<and> can_prevote (es_locks st ! i) e (highest_qc_round st e rnd)}"
  have "i \<notin> locked_from st q d" if i: "i \<in> ?votes" for i
  proof
    assume "i \<in> locked_from st q d"
    then obtain k where k: "es_locks st ! i = Some k" "lk_digest k = d" "q \<le> unat (lk_round k)"
      by (auto simp: locked_from_def)
    then obtain j where j: "highest_qc_round st e rnd = Some j" "lk_round k < j"
      using i ne by (auto simp: can_prevote_def split: option.splits)
    have "q < unat j"
      using k(3) j(2) by (simp add: word_less_nat_alt)
    then show False
      using q(3) [OF highest_qc_round_Some(1) [OF j(1) r]] ne by simp
  qed
  then have "?votes \<subseteq> {..<CERT_H} - locked_from st q d"
    by auto
  then have "card ?votes \<le> card ({..<CERT_H} - locked_from st q d)"
    by (intro card_mono) simp_all
  also have "\<dots> = CERT_H - card (locked_from st q d)"
    by (subst card_Diff_subset) (auto simp: locked_from_def)
  finally have "card ?votes \<le> 2"
    using q(2) by (simp add: CERT_H_def)
  moreover have "honest_can_prevote_count st rnd e = card ?votes"
    using inv by (simp add: honest_can_prevote_count_def card_filter_index round_inv_def)
  ultimately show False
    using votes by (simp add: CERT_Q_def F_TARGET_def)
qed

section \<open>Delivering a certificate keeps the invariant\<close>

lemma deliver_fold:
  assumes "length locks = CERT_H"
  shows "fold (deliver_one m lock) [0..<CERT_H] (0, locks) =
    (length (filter (bit m) [0..<CERT_H]), map (\<lambda>i. if bit m i then Some lock else locks ! i) [0..<CERT_H])"
proof -
  obtain a b c d e where l: "locks = [a, b, c, d, e]"
    using assms by (auto simp: CERT_H_def length_Suc_conv numeral_eq_Suc)
  have range: "[0..<CERT_H] = [0, 1, 2, 3, 4]"
    by (simp add: CERT_H_def upt_rec)
  have bits: "m AND push_bit i 1 \<noteq> 0 \<longleftrightarrow> bit m i" for i
    by (simp add: and_exp_bit)
  show ?thesis
    unfolding l range deliver_one_def bits by (simp add: numeral_eq_Suc)
qed

definition delivered :: "round_state \<Rightarrow> u8 \<Rightarrow> candidate \<Rightarrow> u8 \<Rightarrow> round_state" where
  "delivered st rnd d m = st\<lparr>es_prevote_qc_mask := es_prevote_qc_mask st OR qc_bit rnd d,
    es_locks := map (\<lambda>i. if bit m i then Some \<lparr>lk_round = rnd, lk_digest = d\<rparr> else es_locks st ! i) [0..<CERT_H]\<rparr>"

lemma qc_at_delivered:
  assumes "unat rnd < 8"
  shows "qc_at (delivered st rnd d m) q e \<longleftrightarrow> qc_at st q e \<or> q = unat rnd \<and> e = d"
proof -
  have "2 * unat rnd + cand_idx d < 16"
    using assms cand_idx_less [of d] by linarith
  then have "bit (qc_bit rnd d) n \<longleftrightarrow> n = 2 * unat rnd + cand_idx d" for n
    unfolding qc_bit_def qc_shift [OF assms] push_bit_of_1 by (auto simp: bit_exp_iff)
  then show ?thesis
    by (auto simp: qc_at_def delivered_def bit_or_iff qc_index_inj)
qed

lemma delivered_inv:
  assumes inv: "round_inv (unat rnd) st" and r: "unat rnd < 8"
    and open_digest: "\<And>e. es_finality st = Some e \<Longrightarrow> e = d"
    and fin: "f = es_finality st \<or> f = Some d \<and> 3 \<le> card {i. i < CERT_H \<and> bit m i}"
  shows "round_inv (Suc (unat rnd)) (delivered st rnd d m\<lparr>es_finality := f\<rparr>)"
proof -
  let ?t = "delivered st rnd d m\<lparr>es_finality := f\<rparr>"
  have qc: "qc_at ?t q e \<longleftrightarrow> qc_at st q e \<or> q = unat rnd \<and> e = d" for q e
    using qc_at_delivered [OF r] by (simp add: qc_at_def)
  have old: "q < unat rnd" if "qc_at st q e" for q e
    using inv that unfolding round_inv_def by blast
  have locks: "es_locks ?t ! i = (if bit m i then Some \<lparr>lk_round = rnd, lk_digest = d\<rparr> else es_locks st ! i)"
    if "i < CERT_H" for i
    using that by (simp add: delivered_def)
  have new: "decided ?t d" if "f = Some d" "3 \<le> card {i. i < CERT_H \<and> bit m i}"
  proof -
    have "{i. i < CERT_H \<and> bit m i} \<subseteq> locked_from ?t (unat rnd) d"
      using locks by (auto simp: locked_from_def)
    then have "card {i. i < CERT_H \<and> bit m i} \<le> card (locked_from ?t (unat rnd) d)"
      by (intro card_mono) (simp_all add: locked_from_def)
    then show ?thesis
      unfolding decided_def using that(2) qc old by (intro exI [of _ "unat rnd"]) fastforce
  qed
  have kept: "decided ?t e" if "es_finality st = Some e" for e
  proof -
    have e: "e = d"
      by (rule open_digest [OF that])
    have "decided st e"
      using inv that unfolding round_inv_def by blast
    then obtain q where q: "qc_at st q e" "3 \<le> card (locked_from st q e)" "\<And>p x. qc_at st p x \<Longrightarrow> q < p \<Longrightarrow> x = e"
      unfolding decided_def by metis
    have "locked_from st q e \<subseteq> locked_from ?t q e"
      using locks old [OF q(1)] e by (auto simp: locked_from_def)
    then have "card (locked_from st q e) \<le> card (locked_from ?t q e)"
      by (intro card_mono) (simp_all add: locked_from_def)
    then show ?thesis
      unfolding decided_def using q qc e by (intro exI [of _ q]) fastforce
  qed
  have "\<forall>e. f = Some e \<longrightarrow> decided ?t e"
    using fin new kept by (metis option.inject)
  then have "\<forall>e. es_finality ?t = Some e \<longrightarrow> decided ?t e"
    by simp
  moreover have "\<forall>q e. qc_at ?t q e \<longrightarrow> q < Suc (unat rnd)"
    using qc old by fastforce
  moreover have "\<forall>q e x. qc_at ?t q e \<longrightarrow> qc_at ?t q x \<longrightarrow> e = x"
    using qc old inv unfolding round_inv_def by (metis less_irrefl)
  moreover have "\<forall>i k. i < CERT_H \<longrightarrow> es_locks ?t ! i = Some k \<longrightarrow> qc_at ?t (unat (lk_round k)) (lk_digest k)"
    using locks qc inv unfolding round_inv_def by (auto split: if_splits)
  moreover have "length (es_locks ?t) = CERT_H"
    by (simp add: delivered_def)
  ultimately show ?thesis
    unfolding round_inv_def by blast
qed

section \<open>One round of the exploration\<close>

text \<open>The set of states one round leads to, and what its statistics leave alone.\<close>

definition quiet :: "explore_stats \<Rightarrow> explore_stats \<Rightarrow> bool" where
  "quiet s s' \<longleftrightarrow> sx_safety_violations s' = sx_safety_violations s \<and>
    sx_recovery_failures s' = sx_recovery_failures s \<and> sx_max_recovery_rounds s' = sx_max_recovery_rounds s"

lemma quiet_refl [simp]: "quiet s s"
  by (simp add: quiet_def)

lemma quiet_trans: "quiet s s1 \<Longrightarrow> quiet s1 s2 \<Longrightarrow> quiet s s2"
  by (simp add: quiet_def)

lemma apply_precommit_delivery_quiet:
  assumes "length (es_locks st) = CERT_H" and "\<And>e. es_finality st = Some e \<Longrightarrow> e = d"
  shows "\<exists>s'. apply_precommit_delivery st rnd d m finality s =
    (Some (delivered st rnd d m\<lparr>es_finality := if finality then Some d else es_finality st\<rparr>), s') \<and> quiet s s'"
  using assms
  by (auto simp: apply_precommit_delivery_def deliver_fold [OF assms(1)] delivered_def Let_def quiet_def
      count_partial_def count_full_def split: option.splits)

lemma set_insert_fold: "set (fold List.insert xs ys) = set xs \<union> set ys"
  by (induction xs arbitrary: ys) auto

text \<open>\<open>all_good P s acc\<close>: the accumulated states satisfy \<open>P\<close> and nothing bad was counted since \<open>s\<close>.\<close>

definition all_good :: "(round_state \<Rightarrow> bool) \<Rightarrow> explore_stats \<Rightarrow> round_state list \<times> explore_stats \<Rightarrow> bool" where
  "all_good P s acc \<longleftrightarrow> (\<forall>st \<in> set (fst acc). P st) \<and> quiet s (snd acc)"

lemma fold_invariant:
  assumes "I acc" and "\<And>x acc. x \<in> set xs \<Longrightarrow> I acc \<Longrightarrow> I (f x acc)"
  shows "I (fold f xs acc)"
  using assms by (induction xs arbitrary: acc) auto

text \<open>The branch in which no certificate is assembled: the state itself is a successor.\<close>

lemma try_delivery_keeps: "st \<in> set (fst acc) \<Longrightarrow> st \<in> set (fst (try_delivery t rnd d m f acc))"
  by (auto simp: try_delivery_def split: prod.splits option.splits)

lemma try_candidate_keeps: "st \<in> set (fst acc) \<Longrightarrow> st \<in> set (fst (try_candidate t rnd d acc))"
  by (auto simp: try_candidate_def deliver_mask_def Let_def intro!: fold_invariant [where I = "\<lambda>acc. st \<in> set (fst acc)"] try_delivery_keeps)

lemma expand_round_stays: "st \<in> set (fst (expand_round st offset rnd s))"
  unfolding expand_round_def
  by (rule fold_invariant [where I = "\<lambda>acc. st \<in> set (fst acc)"]) (simp_all add: try_candidate_keeps)

text \<open>What one round may do to a state: keep the invariant and any decision.\<close>

definition successor :: "round_state \<Rightarrow> u8 \<Rightarrow> round_state \<Rightarrow> bool" where
  "successor st rnd t \<longleftrightarrow> round_inv (Suc (unat rnd)) t \<and> (\<forall>d. es_finality st = Some d \<longrightarrow> es_finality t = Some d)"

lemma try_delivery_good:
  assumes inv: "round_inv (unat rnd) st" and r: "unat rnd < 8"
    and open_digest: "\<forall>e. es_finality st = Some e \<longrightarrow> e = d"
    and fin: "finality \<Longrightarrow> 3 \<le> card {i. i < CERT_H \<and> bit m i}"
    and acc: "all_good (successor st rnd) s acc"
  shows "all_good (successor st rnd) s (try_delivery st rnd d m finality acc)"
proof -
  have len: "length (es_locks st) = CERT_H"
    using inv by (simp add: round_inv_def)
  obtain s' where s': "apply_precommit_delivery st rnd d m finality (snd acc) =
      (Some (delivered st rnd d m\<lparr>es_finality := if finality then Some d else es_finality st\<rparr>), s')" "quiet (snd acc) s'"
    using apply_precommit_delivery_quiet [OF len] open_digest by metis
  have "round_inv (Suc (unat rnd)) (delivered st rnd d m\<lparr>es_finality := if finality then Some d else es_finality st\<rparr>)"
    by (rule delivered_inv [OF inv r]) (use open_digest fin in auto)
  then have "successor st rnd (delivered st rnd d m\<lparr>es_finality := if finality then Some d else es_finality st\<rparr>)"
    using open_digest by (simp add: successor_def)
  then show ?thesis
    using acc s'(2) unfolding try_delivery_def s'(1) by (simp add: all_good_def quiet_def)
qed

lemma count_ones_low:
  assumes "m < push_bit CERT_H 1"
  shows "count_ones8 m = card {i. i < CERT_H \<and> bit m i}"
proof -
  have m: "unat m < 2 ^ CERT_H"
    using assms by (simp add: CERT_H_def word_less_nat_alt)
  have "\<not> bit m i" if "CERT_H \<le> i" for i
  proof
    assume "bit m i"
    then have "odd (unat m div 2 ^ i)"
      by (metis bit_iff_odd bit_unsigned_iff possible_bit_nat)
    moreover have "(2 :: nat) ^ CERT_H \<le> 2 ^ i"
      using that by simp
    ultimately show False
      using m by simp
  qed
  then have "{i. i < 8 \<and> bit m i} = {i. i < CERT_H \<and> bit m i}"
    by (auto simp: CERT_H_def not_less [symmetric])
  then show ?thesis
    by (simp add: count_ones8_def card_filter_index cong: conj_cong)
qed

lemma deliver_mask_good:
  assumes "round_inv (unat rnd) st" and "unat rnd < 8" and "\<forall>e. es_finality st = Some e \<longrightarrow> e = d"
    and m: "m < push_bit CERT_H 1" and acc: "all_good (successor st rnd) s acc"
  shows "all_good (successor st rnd) s (deliver_mask st rnd d m acc)"
proof -
  note step = try_delivery_good [OF assms(1-3), where m = m and s = s]
  show ?thesis
    unfolding deliver_mask_def Let_def count_ones_low [OF m] CERT_Q_def F_TARGET_def
    using step [OF _ step [OF _ acc]] step [OF _ acc] by simp
qed

lemma try_candidate_good:
  assumes inv: "round_inv (unat rnd) st" and r: "unat rnd < 8" and acc: "all_good (successor st rnd) s acc"
  shows "all_good (successor st rnd) s (try_candidate st rnd d acc)"
proof (cases "honest_can_prevote_count st rnd d < CERT_Q - F_TARGET")
  case True
  then show ?thesis
    using acc by (simp add: try_candidate_def)
next
  case False
  have d: "\<forall>e. es_finality st = Some e \<longrightarrow> e = d"
    using decided_blocks [OF inv, of _ d] r inv False unfolding round_inv_def by fastforce
  have "all_good (successor st rnd) s
    (fold (deliver_mask st rnd d) (u8_below (push_bit CERT_H 1)) (fst acc, (snd acc)\<lparr>sx_qc_branches := sx_qc_branches (snd acc) + 1\<rparr>))"
  proof (rule fold_invariant)
    show "all_good (successor st rnd) s (fst acc, (snd acc)\<lparr>sx_qc_branches := sx_qc_branches (snd acc) + 1\<rparr>)"
      using acc by (simp add: all_good_def quiet_def)
    fix m acc' assume "m \<in> set (u8_below (push_bit CERT_H 1))" and acc': "all_good (successor st rnd) s acc'"
    then have "m < push_bit CERT_H 1"
      unfolding set_u8_below by blast
    then show "all_good (successor st rnd) s (deliver_mask st rnd d m acc')"
      by (rule deliver_mask_good [OF inv r d _ acc'])
  qed
  then show ?thesis
    using False by (simp add: try_candidate_def)
qed

lemma expand_round_good:
  assumes "round_inv (unat rnd) st" and "unat rnd < 8"
  shows "all_good (successor st rnd) s (expand_round st offset rnd s)"
  unfolding expand_round_def
proof (rule fold_invariant)
  show "all_good (successor st rnd) s
      ([st], s\<lparr>sx_no_qc_branches := sx_no_qc_branches s + 1, sx_transitions := sx_transitions s + 1\<rparr>)"
    using round_inv_mono [OF assms(1), of "Suc (unat rnd)"] by (simp add: all_good_def quiet_def successor_def)
qed (rule try_candidate_good [OF assms])

lemma expand_states_good:
  assumes "all_good (round_inv (unat rnd)) s acc" and "unat rnd < 8"
  shows "all_good (round_inv (Suc (unat rnd))) s (expand_states offset rnd acc)"
  unfolding expand_states_def
proof (rule fold_invariant)
  show "all_good (round_inv (Suc (unat rnd))) s ([], snd acc)"
    using assms(1) by (simp add: all_good_def)
  fix st out assume st: "st \<in> set (fst acc)" and out: "all_good (round_inv (Suc (unat rnd))) s out"
  have "all_good (successor st rnd) (snd out) (expand_round st offset rnd (snd out))"
    by (rule expand_round_good) (use assms st in \<open>auto simp: all_good_def\<close>)
  then show "all_good (round_inv (Suc (unat rnd))) s (expand_one offset rnd st out)"
    using out by (auto simp: expand_one_def all_good_def set_insert_fold quiet_def successor_def split: prod.splits)
qed

section \<open>Recovery\<close>

lemma preferred_can_vote:
  assumes inv: "round_inv r st" and r: "r \<le> unat rnd" "unat rnd \<le> 8"
  shows "list_all (\<lambda>lock. can_prevote lock (preferred_digest st rnd) (highest_qc_round st (preferred_digest st rnd) rnd)) (es_locks st)"
  unfolding list_all_length
proof (intro allI impI)
  let ?d = "preferred_digest st rnd"
  fix i assume "i < length (es_locks st)"
  then have i: "i < CERT_H"
    using inv by (simp add: round_inv_def)
  show "can_prevote (es_locks st ! i) ?d (highest_qc_round st ?d rnd)"
  proof (cases "es_locks st ! i")
    case (Some k)
    let ?k = "unat (lk_round k)"
    have k: "qc_at st ?k (lk_digest k)" "?k < unat rnd"
      using inv i Some r(1) unfolding round_inv_def by (meson less_le_trans)+
    obtain q where q: "highest_qc_any st rnd = Some (q, ?d)" "qc_at st (unat q) ?d" "unat q < unat rnd" "?k \<le> unat q"
      using highest_qc_any_so_far [OF r(2), of st] k
      by (auto simp: highest_so_far_def preferred_digest_def split: option.splits)
    show ?thesis
    proof (cases "lk_digest k = ?d")
      case False
      then have "?k < unat q"
        using q(2,4) k(1) inv unfolding round_inv_def by (metis le_neq_implies_less)
      moreover obtain j where j: "highest_qc_round st ?d rnd = Some j"
        using highest_qc_round_None [OF _ r(2) q(3)] q(2) by fastforce
      moreover have "unat q \<le> unat j"
        using highest_qc_round_Some(3) [OF j r(2) q(2,3)] .
      ultimately show ?thesis
        using Some by (simp add: can_prevote_def word_less_nat_alt)
    qed (simp add: Some can_prevote_def)
  qed (simp add: can_prevote_def)
qed

lemma three_residues: "\<not> (x mod 7 < 2 \<and> (x + 1) mod 7 < 2 \<and> (x + 2) mod 7 < (2 :: nat))"
  by (simp add: mod_Suc)

lemma u8_plus: "unat r + unat k < 256 \<Longrightarrow> unat (r + k :: u8) = unat r + unat k"
  by (simp add: unat_word_ariths)

lemma honest_leader_soon:
  assumes "unat r \<le> 5"
  shows "\<not> (leader_is_byzantine offset r \<and> leader_is_byzantine offset (r + 1) \<and> leader_is_byzantine offset (r + 2))"
proof -
  have "unat (r + 1) = unat r + 1" "unat (r + 2) = unat r + 2"
    using u8_plus [of r 1] u8_plus [of r 2] assms by simp_all
  then show ?thesis
    using three_residues [of "offset + unat r"]
    by (simp only: leader_is_byzantine_def rotating_leader_def CERT_N_def F_TARGET_def add.assoc simp_thms)
qed

lemma recovers:
  assumes inv: "round_inv (unat r) st" and r: "unat r \<le> 5"
  obtains d k where "recover_after_gst st offset r = Some (d, k)" "k \<le> 3" "\<And>e. es_finality st = Some e \<Longrightarrow> e = d"
proof (cases "es_finality st")
  case (Some d)
  then show thesis
    by (intro that [of d 0]) (simp_all add: recover_after_gst_def)
next
  case None
  have step: "recover_steps st offset r (k # ks) =
      (if leader_is_byzantine offset (r + k) then recover_steps st offset r ks else Some (preferred_digest st (r + k), k + 1))"
    if "unat k \<le> 2" for k ks
  proof -
    have "unat (r + k) = unat r + unat k"
      using that r by (intro u8_plus) simp
    then have "list_all (\<lambda>lock. can_prevote lock (preferred_digest st (r + k))
        (highest_qc_round st (preferred_digest st (r + k)) (r + k))) (es_locks st)"
      using that r by (intro preferred_can_vote [OF inv]) simp_all
    then show ?thesis
      by (simp add: Let_def)
  qed
  have "[0..<7] = [0, 1, 2, 3, 4, 5, 6 :: nat]"
    by (simp add: upt_rec)
  then have "u8_below (of_nat CERT_N) = 0 # 1 # 2 # [3, 4, 5, 6]"
    by (simp add: u8_below_def CERT_N_def)
  then have "recover_after_gst st offset r = recover_steps st offset r (0 # 1 # 2 # [3, 4, 5, 6])"
    using None by (simp add: recover_after_gst_def)
  then have "\<exists>d k. recover_after_gst st offset r = Some (d, k) \<and> k \<le> 3"
    using honest_leader_soon [OF r, of offset] step [of 0] step [of 1] step [of 2]
    by (cases "leader_is_byzantine offset r"; cases "leader_is_byzantine offset (r + 1)"; simp del: recover_steps.simps)
  then show thesis
    using that None by (metis option.discI)
qed

section \<open>The whole exploration\<close>

lemma check_terminal_good:
  assumes "round_inv (unat ADVERSARIAL_ROUNDS) st"
  shows "sx_safety_violations (check_terminal offset st s) = sx_safety_violations s"
    and "sx_recovery_failures (check_terminal offset st s) = sx_recovery_failures s"
    and "sx_max_recovery_rounds (check_terminal offset st s) \<le> max (sx_max_recovery_rounds s) 3"
proof -
  obtain d k where "recover_after_gst st offset ADVERSARIAL_ROUNDS = Some (d, k)" "k \<le> 3"
    by (rule recovers [OF assms]) (simp_all add: ADVERSARIAL_ROUNDS_def)
  then show "sx_safety_violations (check_terminal offset st s) = sx_safety_violations s"
    "sx_recovery_failures (check_terminal offset st s) = sx_recovery_failures s"
    "sx_max_recovery_rounds (check_terminal offset st s) \<le> max (sx_max_recovery_rounds s) 3"
    by (auto simp: check_terminal_def Let_def max_def)
qed

definition sound_stats :: "explore_stats \<Rightarrow> bool" where
  "sound_stats s \<longleftrightarrow> sx_safety_violations s = 0 \<and> sx_recovery_failures s = 0 \<and> sx_max_recovery_rounds s \<le> 3"

lemma run_offset_sound:
  assumes "sound_stats s" and "run_offset offset s = (states, s')"
  shows "sound_stats s'" and "\<forall>st \<in> set states. round_inv 3 st"
proof -
  obtain s1 where s1: "fold (expand_states offset) [0, 1, 2] ([genesis_rounds], s) = (states, s1)"
    "s' = fold (check_terminal offset) states s1"
    using assms(2) by (auto simp: run_offset_def u8_below_def ADVERSARIAL_ROUNDS_def upt_rec split: prod.splits)
  have "all_good (round_inv (unat (0 :: u8))) s ([genesis_rounds], s)"
    using genesis_inv by (simp add: all_good_def)
  then have "all_good (round_inv (unat (1 :: u8))) s (expand_states offset 0 ([genesis_rounds], s))"
    using expand_states_good [of 0 s _ offset] by simp
  then have "all_good (round_inv 2) s (expand_states offset 1 (expand_states offset 0 ([genesis_rounds], s)))"
    using expand_states_good [of 1 s _ offset] by (simp add: Suc_1 del: One_nat_def)
  then have "all_good (round_inv 3) s (expand_states offset 2 (expand_states offset 1 (expand_states offset 0 ([genesis_rounds], s))))"
    using expand_states_good [of 2 s _ offset] by simp
  then have good: "all_good (round_inv 3) s (states, s1)"
    using s1(1) by simp
  then show inv: "\<forall>st \<in> set states. round_inv 3 st"
    by (simp add: all_good_def)
  have "sound_stats s1"
    using good assms(1) by (simp add: all_good_def quiet_def sound_stats_def)
  then show "sound_stats s'"
    unfolding s1(2)
  proof (rule fold_invariant)
    fix st s assume "st \<in> set states" and s: "sound_stats s"
    then have "round_inv (unat ADVERSARIAL_ROUNDS) st"
      using inv by (simp add: ADVERSARIAL_ROUNDS_def)
    from check_terminal_good [OF this, of offset s] show "sound_stats (check_terminal offset st s)"
      using s by (auto simp: sound_stats_def max_def split: if_splits)
  qed
qed

lemma run_offsets_sound: "sound_stats (snd run_offsets)"
proof -
  have "sound_stats (snd (fold (\<lambda>offset acc. case run_offset offset (snd acc) of
      (states, s) \<Rightarrow> (fold List.insert states (fst acc), s)) offsets acc))" if "sound_stats (snd acc)" for offsets acc
    using that
  proof (induction offsets arbitrary: acc)
    case (Cons offset offsets)
    show ?case
      using Cons.IH run_offset_sound(1) [OF Cons.prems] by (simp split: prod.splits)
  qed simp
  then show ?thesis
    by (simp add: run_offsets_def default_stats_def sound_stats_def)
qed

section \<open>Every number of rounds the mask can hold\<close>

text \<open>The states an adversary can reach, for as many rounds as the certificate mask has room for.\<close>

inductive reachable_round :: "nat \<Rightarrow> u8 \<Rightarrow> round_state \<Rightarrow> bool" for offset :: nat where
  start: "reachable_round offset 0 genesis_rounds"
| advance: "reachable_round offset r st \<Longrightarrow> unat r < 8 \<Longrightarrow> t \<in> set (fst (expand_round st offset r s)) \<Longrightarrow>
    reachable_round offset (r + 1) t"

lemma reachable_round_inv: "reachable_round offset r st \<Longrightarrow> round_inv (unat r) st"
proof (induction rule: reachable_round.induct)
  case (advance r st t s)
  have "unat (r + 1) = Suc (unat r)"
    using advance.hyps(2) u8_plus [of r 1] by simp
  then show ?case
    using expand_round_good [OF advance.IH advance.hyps(2), of s offset] advance.hyps(3)
    by (auto simp: all_good_def successor_def)
qed (simp add: genesis_inv)

end
