(* ===== verification/Handoff.thy ===== *)
theory Handoff
  imports Crypto
begin

text \<open>
  The hand-off from one committee to the next (\<open>sec013/src/main.rs\<close>): the old committee certifies
  the state of an input, the new committee activates that certificate and votes only for the
  inherited digest.  Here are the data, the signed messages, the certificate checks, the log of
  choices, the two servers and the client's requests.  A stream is the bytes the peer sent; an
  error that ends the server process is a value.
\<close>

section \<open>Constants and data\<close>

definition HANDOFF_N :: nat where "HANDOFF_N = 7"
definition HANDOFF_Q :: nat where "HANDOFF_Q = 5"
definition EPOCH_OLD :: u64 where "EPOCH_OLD = 12"
definition EPOCH_NEW :: u64 where "EPOCH_NEW = 13"
definition STATUS_LOCKED :: u8 where "STATUS_LOCKED = 1"
definition STATUS_FINAL :: u8 where "STATUS_FINAL = 2"
definition OP_PING :: u8 where "OP_PING = 0"
definition OP_OLD_SIGN :: u8 where "OP_OLD_SIGN = 1"
definition OP_NEW_ACTIVATE :: u8 where "OP_NEW_ACTIVATE = 2"
definition OP_NEW_VOTE :: u8 where "OP_NEW_VOTE = 3"
definition OP_SHUTDOWN :: u8 where "OP_SHUTDOWN = 255"
definition OLD_WAL_MAGIC :: "u8 list" where "OLD_WAL_MAGIC = ascii ''CAL13OLD''"
definition NEW_WAL_MAGIC :: "u8 list" where "NEW_WAL_MAGIC = ascii ''CAL13NEW''"
definition CHOICE_RECORD :: nat where "CHOICE_RECORD = 104"

record input_ref =
  ir_id :: u64
  ir_generation :: u64

record handoff =
  ho_from_epoch :: u64
  ho_to_epoch :: u64
  ho_input :: input_ref
  ho_status :: u8
  ho_round :: u64
  ho_digest :: digest

record old_share =
  os_index :: nat
  os_signature :: signature

record handoff_cert =
  hc_handoff :: handoff
  hc_shares :: "old_share list"

record activation_share =
  as_index :: nat
  as_signature :: signature

record activation_cert =
  act_handoff_hash :: digest
  act_shares :: "activation_share list"

record new_vote =
  nv_index :: nat
  nv_digest :: digest
  nv_signature :: signature

section \<open>Keys and signed messages\<close>

definition handoff_key :: "crypto \<Rightarrow> string \<Rightarrow> u64 \<Rightarrow> signing_key" where
  "handoff_key C domain label = blake3 C (ascii domain @ to_le64 label)"

definition old_key :: "crypto \<Rightarrow> nat \<Rightarrow> signing_key" where
  "old_key C index = handoff_key C ''CALIBRE_SEC013_OLD_COMMITTEE_KEY_V1'' (100 + of_nat index)"

definition new_key :: "crypto \<Rightarrow> nat \<Rightarrow> signing_key" where
  "new_key C index = handoff_key C ''CALIBRE_SEC013_NEW_COMMITTEE_KEY_V1'' (200 + of_nat index)"

definition digest_for :: "crypto \<Rightarrow> input_ref \<Rightarrow> u8 \<Rightarrow> digest" where
  "digest_for C i label = blake3 C (ascii ''CALIBRE_SEC013_CONFLICT_DIGEST_V1'' @ to_le64 (ir_id i) @
    to_le64 (ir_generation i) @ [label])"

definition handoff_message :: "handoff \<Rightarrow> u8 list" where
  "handoff_message h = ascii ''CALIBRE_SEC013_HANDOFF_V1'' @ to_le64 (ho_from_epoch h) @ to_le64 (ho_to_epoch h) @
    to_le64 (ir_id (ho_input h)) @ to_le64 (ir_generation (ho_input h)) @ [ho_status h] @ to_le64 (ho_round h) @
    array_bytes (ho_digest h)"

definition handoff_hash :: "crypto \<Rightarrow> handoff \<Rightarrow> digest" where
  "handoff_hash C h = blake3 C (handoff_message h)"

definition old_share_message :: "digest \<Rightarrow> nat \<Rightarrow> u8 list" where
  "old_share_message h index =
    ascii ''CALIBRE_SEC013_OLD_HANDOFF_SHARE_V1'' @ to_le64 (of_nat index) @ array_bytes h"

definition activation_message :: "digest \<Rightarrow> nat \<Rightarrow> u8 list" where
  "activation_message h index =
    ascii ''CALIBRE_SEC013_NEW_ACTIVATION_SHARE_V1'' @ to_le64 (of_nat index) @ array_bytes h"

definition new_vote_message :: "input_ref \<Rightarrow> digest \<Rightarrow> nat \<Rightarrow> u8 list" where
  "new_vote_message i d index =
    ascii ''CALIBRE_SEC013_NEW_EPOCH_VOTE_V1'' @ to_le64 EPOCH_NEW @ to_le64 (ir_id i) @
    to_le64 (ir_generation i) @ to_le64 (of_nat index) @ array_bytes d"

section \<open>Certificate checks\<close>

definition verify_old_share :: "crypto \<Rightarrow> handoff \<Rightarrow> old_share \<Rightarrow> bool" where
  "verify_old_share C h s \<longleftrightarrow> os_index s < HANDOFF_N \<and>
    verify_strict C (public_of C (old_key C (os_index s))) (old_share_message (handoff_hash C h) (os_index s)) (os_signature s)"

definition verify_handoff_cert_any :: "crypto \<Rightarrow> handoff_cert \<Rightarrow> bool" where
  "verify_handoff_cert_any C cert \<longleftrightarrow>
    (if ho_status (hc_handoff cert) \<noteq> STATUS_LOCKED \<and> ho_status (hc_handoff cert) \<noteq> STATUS_FINAL then False
     else list_all (verify_old_share C (hc_handoff cert)) (hc_shares cert) \<and>
       card (os_index ` set (hc_shares cert)) \<ge> HANDOFF_Q)"

definition verify_handoff_cert_for_new_epoch :: "crypto \<Rightarrow> handoff_cert \<Rightarrow> bool" where
  "verify_handoff_cert_for_new_epoch C cert \<longleftrightarrow> verify_handoff_cert_any C cert \<and>
    ho_from_epoch (hc_handoff cert) = EPOCH_OLD \<and> ho_to_epoch (hc_handoff cert) = EPOCH_NEW"

definition verify_activation_share :: "crypto \<Rightarrow> digest \<Rightarrow> activation_share \<Rightarrow> bool" where
  "verify_activation_share C h s \<longleftrightarrow> as_index s < HANDOFF_N \<and>
    verify_strict C (public_of C (new_key C (as_index s))) (activation_message h (as_index s)) (as_signature s)"

definition verify_activation_cert :: "crypto \<Rightarrow> activation_cert \<Rightarrow> handoff_cert \<Rightarrow> bool" where
  "verify_activation_cert C cert old \<longleftrightarrow>
    (if \<not> verify_handoff_cert_for_new_epoch C old \<or> act_handoff_hash cert \<noteq> handoff_hash C (hc_handoff old) then False
     else list_all (verify_activation_share C (act_handoff_hash cert)) (act_shares cert) \<and>
       card (as_index ` set (act_shares cert)) \<ge> HANDOFF_Q)"

definition verify_new_vote :: "crypto \<Rightarrow> new_vote \<Rightarrow> input_ref \<Rightarrow> digest \<Rightarrow> bool" where
  "verify_new_vote C v i d \<longleftrightarrow> nv_index v < HANDOFF_N \<and> nv_digest v = d \<and>
    verify_strict C (public_of C (new_key C (nv_index v))) (new_vote_message i d (nv_index v)) (nv_signature v)"

section \<open>The log of choices\<close>

type_synonym choice_key = "u64 \<times> u64 \<times> input_ref"

definition choice_key_of :: "handoff \<Rightarrow> choice_key" where
  "choice_key_of h = (ho_from_epoch h, ho_to_epoch h, ho_input h)"

definition choice_checksum :: "crypto \<Rightarrow> u8 list \<Rightarrow> u8 list \<Rightarrow> digest" where
  "choice_checksum C magic prefix = blake3 C (ascii ''CALIBRE_SEC013_HANDOFF_WAL_CHECKSUM_V1'' @ magic @ prefix)"

definition choice_prefix :: "u8 list \<Rightarrow> handoff \<Rightarrow> digest \<Rightarrow> u8 list" where
  "choice_prefix magic h d = magic @ to_le64 (ho_from_epoch h) @ to_le64 (ho_to_epoch h) @
    to_le64 (ir_id (ho_input h)) @ to_le64 (ir_generation (ho_input h)) @ array_bytes d"

definition encode_choice :: "crypto \<Rightarrow> u8 list \<Rightarrow> handoff \<Rightarrow> digest \<Rightarrow> u8 list" where
  "encode_choice C magic h d =
    choice_prefix magic h d @ array_bytes (choice_checksum C magic (choice_prefix magic h d))"

definition byte_slice :: "nat \<Rightarrow> nat \<Rightarrow> u8 list \<Rightarrow> u8 list" where
  "byte_slice a b bs = take (b - a) (drop a bs)"

definition decode_choice :: "crypto \<Rightarrow> u8 list \<Rightarrow> u8 list \<Rightarrow> (choice_key \<times> digest) option" where
  "decode_choice C magic rcd =
    (if length rcd \<noteq> CHOICE_RECORD \<or> byte_slice 0 8 rcd \<noteq> magic then None
     else if byte_slice 72 104 rcd \<noteq> array_bytes (choice_checksum C magic (byte_slice 0 72 rcd)) then None
     else Some ((from_le64 (byte_slice 8 16 rcd), from_le64 (byte_slice 16 24 rcd),
         \<lparr>ir_id = from_le64 (byte_slice 24 32 rcd), ir_generation = from_le64 (byte_slice 32 40 rcd)\<rparr>),
       mk_array (byte_slice 40 72 rcd)))"

record choice_store =
  cs_magic :: "u8 list"
  cs_file :: "u8 list"
  cs_choices :: "choice_key \<rightharpoonup> digest"

text \<open>\<open>chunks_exact\<close> of a slice, for a positive length of the chunks.\<close>

function chunks_exact :: "nat \<Rightarrow> u8 list \<Rightarrow> u8 list list" where
  "chunks_exact n bs = (if n = 0 \<or> length bs < n then [] else take n bs # chunks_exact n (drop n bs))"
  by pat_completeness auto
termination
  by (relation "measure (\<lambda>(n, bs). length bs)") auto

declare chunks_exact.simps [simp del]

fun insert_choices :: "crypto \<Rightarrow> u8 list \<Rightarrow> u8 list list \<Rightarrow> (choice_key \<rightharpoonup> digest) \<Rightarrow> (choice_key \<rightharpoonup> digest) option" where
  "insert_choices C magic [] choices = Some choices"
| "insert_choices C magic (rcd # rcds) choices =
    (case decode_choice C magic rcd of
       None \<Rightarrow> None
     | Some (key, d) \<Rightarrow>
         (case choices key of
            Some old \<Rightarrow> if old \<noteq> d then None else insert_choices C magic rcds (choices(key \<mapsto> d))
          | None \<Rightarrow> insert_choices C magic rcds (choices(key \<mapsto> d))))"

definition open_choices :: "crypto \<Rightarrow> u8 list \<Rightarrow> u8 list \<Rightarrow> choice_store option" where
  "open_choices C magic bytes =
    (if length bytes mod CHOICE_RECORD \<noteq> 0 then None
     else map_option (\<lambda>choices. \<lparr>cs_magic = magic, cs_file = bytes, cs_choices = choices\<rparr>)
       (insert_choices C magic (chunks_exact CHOICE_RECORD bytes) Map.empty))"

definition get_choice :: "choice_store \<Rightarrow> handoff \<Rightarrow> digest option" where
  "get_choice st h = cs_choices st (choice_key_of h)"

text \<open>
  \<open>io\<close> is the outcome of the write: \<open>Some k\<close> when it fails after \<open>k\<close> bytes reached the file (all of
  them when only the sync fails).  The first component is \<open>None\<close> for an error.
\<close>

definition store_choose :: "crypto \<Rightarrow> nat option \<Rightarrow> handoff \<Rightarrow> digest \<Rightarrow> choice_store \<Rightarrow> bool option \<times> choice_store" where
  "store_choose C io h d st =
    (case get_choice st h of
       Some old \<Rightarrow> (Some (old = d), st)
     | None \<Rightarrow>
       (let rcd = encode_choice C (cs_magic st) h d in
        case io of
          Some k \<Rightarrow> (None, st\<lparr>cs_file := cs_file st @ take k rcd\<rparr>)
        | None \<Rightarrow> (Some True, st\<lparr>cs_file := cs_file st @ rcd, cs_choices := (cs_choices st)(choice_key_of h \<mapsto> d)\<rparr>)))"

section \<open>Bytes of a stream\<close>

text \<open>
  A stream is the list of bytes the peer sends before it closes its end; \<open>None\<close> is the error of
  \<open>read_exact\<close> at its end, of a timeout, or of an oversized certificate.
\<close>

type_synonym 'a stream_reader = "u8 list \<Rightarrow> ('a \<times> u8 list) option"

definition return_read :: "'a \<Rightarrow> 'a stream_reader" where
  "return_read v s = Some (v, s)"

definition bind_read :: "'a stream_reader \<Rightarrow> ('a \<Rightarrow> 'b stream_reader) \<Rightarrow> 'b stream_reader" where
  "bind_read r f s = (case r s of None \<Rightarrow> None | Some (v, s') \<Rightarrow> f v s')"

definition read_n :: "nat \<Rightarrow> u8 list stream_reader" where
  "read_n n s = (if length s < n then None else Some (take n s, drop n s))"

definition read_byte :: "u8 stream_reader" where
  "read_byte = bind_read (read_n 1) (\<lambda>b. return_read (b ! 0))"

definition read_u64 :: "u64 stream_reader" where
  "read_u64 = bind_read (read_n 8) (\<lambda>b. return_read (from_le64 b))"

definition read_arr :: "('n::len) byte_array stream_reader" where
  "read_arr = bind_read (read_n LENGTH('n)) (\<lambda>b. return_read (mk_array b))"

fun read_many :: "nat \<Rightarrow> 'a stream_reader \<Rightarrow> 'a list stream_reader" where
  "read_many 0 r = return_read []"
| "read_many (Suc n) r = bind_read r (\<lambda>x. bind_read (read_many n r) (\<lambda>xs. return_read (x # xs)))"

definition write_handoff :: "handoff \<Rightarrow> u8 list" where
  "write_handoff h = to_le64 (ho_from_epoch h) @ to_le64 (ho_to_epoch h) @ to_le64 (ir_id (ho_input h)) @
    to_le64 (ir_generation (ho_input h)) @ [ho_status h] @ to_le64 (ho_round h) @ array_bytes (ho_digest h)"

definition read_handoff :: "handoff stream_reader" where
  "read_handoff =
    bind_read read_u64 (\<lambda>from_epoch. bind_read read_u64 (\<lambda>to_epoch.
    bind_read read_u64 (\<lambda>i. bind_read read_u64 (\<lambda>generation.
    bind_read read_byte (\<lambda>status. bind_read read_u64 (\<lambda>round. bind_read read_arr (\<lambda>d.
    return_read \<lparr>ho_from_epoch = from_epoch, ho_to_epoch = to_epoch,
      ho_input = \<lparr>ir_id = i, ir_generation = generation\<rparr>, ho_status = status, ho_round = round, ho_digest = d\<rparr>)))))))"

definition write_share :: "nat \<Rightarrow> signature \<Rightarrow> u8 list" where
  "write_share index sig = [of_nat index] @ array_bytes sig"

definition read_share :: "(nat \<times> signature) stream_reader" where
  "read_share = bind_read read_byte (\<lambda>i. bind_read read_arr (\<lambda>sig. return_read (unat i, sig)))"

definition write_handoff_cert :: "handoff_cert \<Rightarrow> u8 list" where
  "write_handoff_cert cert = write_handoff (hc_handoff cert) @ [of_nat (length (hc_shares cert))] @
    concat (map (\<lambda>sh. write_share (os_index sh) (os_signature sh)) (hc_shares cert))"

definition read_handoff_cert :: "handoff_cert stream_reader" where
  "read_handoff_cert =
    bind_read read_handoff (\<lambda>h. bind_read read_byte (\<lambda>n.
    if unat n > HANDOFF_N then (\<lambda>s. None)
    else bind_read (read_many (unat n) read_share) (\<lambda>shares.
      return_read \<lparr>hc_handoff = h, hc_shares = map (\<lambda>(i, sig). \<lparr>os_index = i, os_signature = sig\<rparr>) shares\<rparr>)))"

definition write_activation_cert :: "activation_cert \<Rightarrow> u8 list" where
  "write_activation_cert cert = array_bytes (act_handoff_hash cert) @ [of_nat (length (act_shares cert))] @
    concat (map (\<lambda>sh. write_share (as_index sh) (as_signature sh)) (act_shares cert))"

definition read_activation_cert :: "activation_cert stream_reader" where
  "read_activation_cert =
    bind_read read_arr (\<lambda>h. bind_read read_byte (\<lambda>n.
    if unat n > HANDOFF_N then (\<lambda>s. None)
    else bind_read (read_many (unat n) read_share) (\<lambda>shares.
      return_read \<lparr>act_handoff_hash = h, act_shares = map (\<lambda>(i, sig). \<lparr>as_index = i, as_signature = sig\<rparr>) shares\<rparr>)))"

section \<open>The servers\<close>

text \<open>
  A certifier process.  \<open>cn_up\<close> is false once the process has returned from its loop, by the
  shutdown request or by an error that \<open>?\<close> propagates.  Serving a connection gives the bytes the
  client receives, the messages signed with the node's key, and the node afterwards.  \<open>sent\<close> is
  the outcome of writing the reply (\<open>Some k\<close>: it fails after \<open>k\<close> bytes).
\<close>

record choice_node =
  cn_index :: nat
  cn_byzantine :: bool
  cn_store :: "choice_store option"
  cn_up :: bool

type_synonym served = "u8 list \<times> u8 list list \<times> choice_node"

definition node_dies :: "choice_node \<Rightarrow> served" where
  "node_dies node = ([], [], node\<lparr>cn_up := False\<rparr>)"

definition send_ignoring :: "nat option \<Rightarrow> u8 list \<Rightarrow> choice_node \<Rightarrow> served" where
  "send_ignoring sent reply node = (case sent of None \<Rightarrow> reply | Some k \<Rightarrow> take k reply, [], node)"

definition send_signed :: "nat option \<Rightarrow> u8 list \<Rightarrow> u8 list \<Rightarrow> choice_node \<Rightarrow> served" where
  "send_signed sent reply m node =
    (case sent of None \<Rightarrow> (reply, [m], node) | Some k \<Rightarrow> (take k reply, [m], node\<lparr>cn_up := False\<rparr>))"

definition permit :: "crypto \<Rightarrow> nat option \<Rightarrow> handoff \<Rightarrow> digest \<Rightarrow> choice_node \<Rightarrow> bool option \<times> choice_node" where
  "permit C io h d node =
    (case cn_store node of
       None \<Rightarrow> (Some True, node)
     | Some st \<Rightarrow> (let (ok, st') = store_choose C io h d st in (ok, node\<lparr>cn_store := Some st'\<rparr>)))"

definition old_sign_request :: "crypto \<Rightarrow> nat option \<Rightarrow> nat option \<Rightarrow> u8 list \<Rightarrow> choice_node \<Rightarrow> served" where
  "old_sign_request C io sent body node =
    (case read_handoff body of
       None \<Rightarrow> node_dies node
     | Some (h, _) \<Rightarrow>
       if ho_status h \<noteq> STATUS_LOCKED \<and> ho_status h \<noteq> STATUS_FINAL then send_ignoring sent [0] node
       else (case permit C io h (handoff_hash C h) node of
           (None, node') \<Rightarrow> node_dies node'
         | (Some False, node') \<Rightarrow> send_ignoring sent [0] node'
         | (Some True, node') \<Rightarrow>
             let m = old_share_message (handoff_hash C h) (cn_index node) in
             send_signed sent ([1, of_nat (cn_index node)] @ array_bytes (sign_with C (old_key C (cn_index node)) m)) m node'))"

definition old_connection :: "crypto \<Rightarrow> nat option \<Rightarrow> nat option \<Rightarrow> u8 list \<Rightarrow> choice_node \<Rightarrow> served" where
  "old_connection C io sent request node =
    (if \<not> cn_up node then ([], [], node)
     else (case request of
         [] \<Rightarrow> ([], [], node)
       | op # body \<Rightarrow>
           if op = OP_PING then send_ignoring sent [0xAA] node
           else if op = OP_SHUTDOWN then send_ignoring sent [0x55] (node\<lparr>cn_up := False\<rparr>)
           else if op = OP_OLD_SIGN then old_sign_request C io sent body node
           else send_ignoring sent [0] node))"

definition new_activate_request :: "crypto \<Rightarrow> nat option \<Rightarrow> nat option \<Rightarrow> u8 list \<Rightarrow> choice_node \<Rightarrow> served" where
  "new_activate_request C io sent body node =
    (case read_handoff_cert body of
       None \<Rightarrow> node_dies node
     | Some (cert, _) \<Rightarrow>
       if \<not> verify_handoff_cert_for_new_epoch C cert then send_ignoring sent [0] node
       else (case permit C io (hc_handoff cert) (handoff_hash C (hc_handoff cert)) node of
           (None, node') \<Rightarrow> node_dies node'
         | (Some False, node') \<Rightarrow> send_ignoring sent [0] node'
         | (Some True, node') \<Rightarrow>
             let m = activation_message (handoff_hash C (hc_handoff cert)) (cn_index node) in
             send_signed sent ([1, of_nat (cn_index node)] @ array_bytes (sign_with C (new_key C (cn_index node)) m)) m node'))"

definition may_vote :: "crypto \<Rightarrow> handoff \<Rightarrow> digest \<Rightarrow> choice_node \<Rightarrow> bool" where
  "may_vote C h d node \<longleftrightarrow>
    (case cn_store node of None \<Rightarrow> True | Some st \<Rightarrow> get_choice st h = Some (handoff_hash C h)) \<and>
    (cn_byzantine node \<or> ho_status h \<noteq> STATUS_FINAL \<and> (ho_status h = STATUS_LOCKED \<longrightarrow> d = ho_digest h))"

definition read_vote_request :: "(handoff_cert \<times> activation_cert \<times> digest) stream_reader" where
  "read_vote_request = bind_read read_handoff_cert (\<lambda>old. bind_read read_activation_cert (\<lambda>activation.
    bind_read read_arr (\<lambda>d. return_read (old, activation, d))))"

definition new_vote_request :: "crypto \<Rightarrow> nat option \<Rightarrow> u8 list \<Rightarrow> choice_node \<Rightarrow> served" where
  "new_vote_request C sent body node =
    (case read_vote_request body of
       None \<Rightarrow> node_dies node
     | Some ((old, activation, d), _) \<Rightarrow>
       if \<not> verify_activation_cert C activation old \<or> \<not> may_vote C (hc_handoff old) d node
       then send_ignoring sent [0] node
       else (let m = new_vote_message (ho_input (hc_handoff old)) d (cn_index node) in
         send_signed sent ([1, of_nat (cn_index node)] @ array_bytes d @
           array_bytes (sign_with C (new_key C (cn_index node)) m)) m node))"

definition new_connection :: "crypto \<Rightarrow> nat option \<Rightarrow> nat option \<Rightarrow> u8 list \<Rightarrow> choice_node \<Rightarrow> served" where
  "new_connection C io sent request node =
    (if \<not> cn_up node then ([], [], node)
     else (case request of
         [] \<Rightarrow> ([], [], node)
       | op # body \<Rightarrow>
           if op = OP_PING then send_ignoring sent [0xAA] node
           else if op = OP_SHUTDOWN then send_ignoring sent [0x55] (node\<lparr>cn_up := False\<rparr>)
           else if op = OP_NEW_ACTIVATE then new_activate_request C io sent body node
           else if op = OP_NEW_VOTE then new_vote_request C sent body node
           else send_ignoring sent [0] node))"

definition start_choice_node :: "crypto \<Rightarrow> u8 list \<Rightarrow> nat \<Rightarrow> bool \<Rightarrow> u8 list \<Rightarrow> choice_node option" where
  "start_choice_node C magic index byzantine bytes =
    (if byzantine then Some \<lparr>cn_index = index, cn_byzantine = True, cn_store = None, cn_up = True\<rparr>
     else map_option (\<lambda>st. \<lparr>cn_index = index, cn_byzantine = False, cn_store = Some st, cn_up = True\<rparr>)
       (open_choices C magic bytes))"

definition crash_restart :: "crypto \<Rightarrow> u8 list \<Rightarrow> choice_node \<Rightarrow> choice_node" where
  "crash_restart C magic node =
    (case start_choice_node C magic (cn_index node) (cn_byzantine node)
        (case cn_store node of None \<Rightarrow> [] | Some st \<Rightarrow> cs_file st) of
       None \<Rightarrow> node\<lparr>cn_up := False\<rparr>
     | Some node' \<Rightarrow> node')"

section \<open>The client\<close>

text \<open>
  A link says how one request goes: whether the connection is made, after how many bytes the
  client's own write fails (\<open>None\<close>: it does not), and the outcomes of the node's log and reply
  writes.  \<open>order\<close> is the iteration order of a \<open>HashMap\<close>, which the language leaves open.
\<close>

record handoff_link =
  lk_connected :: bool
  lk_request :: "nat option"
  lk_log :: "nat option"
  lk_reply :: "nat option"

definition call_node ::
  "(nat option \<Rightarrow> nat option \<Rightarrow> u8 list \<Rightarrow> 'n \<Rightarrow> u8 list \<times> u8 list list \<times> 'n) \<Rightarrow> handoff_link \<Rightarrow> u8 list \<Rightarrow> 'n \<Rightarrow>
    u8 list option \<times> u8 list list \<times> 'n" where
  "call_node serve link request node =
    (if \<not> lk_connected link then (None, [], node)
     else (let (reply, ms, node') = serve (lk_log link) (lk_reply link)
             (case lk_request link of None \<Rightarrow> request | Some k \<Rightarrow> take k request) node
           in (if lk_request link = None then Some reply else None, ms, node')))"

definition read_granted :: "'a stream_reader \<Rightarrow> 'a stream_reader" where
  "read_granted r = bind_read read_byte (\<lambda>status. if status = 0 then (\<lambda>s. None) else r)"

definition accept_old_share :: "crypto \<Rightarrow> handoff \<Rightarrow> u8 list \<Rightarrow> old_share option" where
  "accept_old_share C h reply =
    (case read_granted read_share reply of
       None \<Rightarrow> None
     | Some ((i, sig), _) \<Rightarrow>
         let sh = \<lparr>os_index = i, os_signature = sig\<rparr> in if verify_old_share C h sh then Some sh else None)"

definition rpc_old_sign :: "crypto \<Rightarrow> handoff \<Rightarrow> handoff_link \<Rightarrow> choice_node \<Rightarrow> old_share option \<times> u8 list list \<times> choice_node" where
  "rpc_old_sign C h link node =
    (let (reply, ms, node') = call_node (old_connection C) link (OP_OLD_SIGN # write_handoff h) node in
     (case reply of None \<Rightarrow> None | Some r \<Rightarrow> accept_old_share C h r, ms, node'))"

definition accept_activation_share :: "crypto \<Rightarrow> digest \<Rightarrow> u8 list \<Rightarrow> activation_share option" where
  "accept_activation_share C h reply =
    (case read_granted read_share reply of
       None \<Rightarrow> None
     | Some ((i, sig), _) \<Rightarrow>
         let sh = \<lparr>as_index = i, as_signature = sig\<rparr> in if verify_activation_share C h sh then Some sh else None)"

definition rpc_activate ::
  "crypto \<Rightarrow> handoff_cert \<Rightarrow> handoff_link \<Rightarrow> choice_node \<Rightarrow> activation_share option \<times> u8 list list \<times> choice_node" where
  "rpc_activate C cert link node =
    (let (reply, ms, node') = call_node (new_connection C) link (OP_NEW_ACTIVATE # write_handoff_cert cert) node in
     (case reply of None \<Rightarrow> None | Some r \<Rightarrow> accept_activation_share C (handoff_hash C (hc_handoff cert)) r, ms, node'))"

definition accept_new_vote :: "crypto \<Rightarrow> input_ref \<Rightarrow> digest \<Rightarrow> u8 list \<Rightarrow> new_vote option" where
  "accept_new_vote C i d reply =
    (case read_granted (bind_read read_byte (\<lambda>index. bind_read read_arr (\<lambda>got. bind_read read_arr (\<lambda>sig.
        return_read \<lparr>nv_index = unat index, nv_digest = got, nv_signature = sig\<rparr>)))) reply of
       None \<Rightarrow> None
     | Some (v, _) \<Rightarrow> if verify_new_vote C v i d then Some v else None)"

definition rpc_new_vote ::
  "crypto \<Rightarrow> handoff_cert \<Rightarrow> activation_cert \<Rightarrow> digest \<Rightarrow> handoff_link \<Rightarrow> choice_node \<Rightarrow> new_vote option \<times> u8 list list \<times> choice_node" where
  "rpc_new_vote C old activation d link node =
    (let (reply, ms, node') = call_node (new_connection C) link
       (OP_NEW_VOTE # write_handoff_cert old @ write_activation_cert activation @ array_bytes d) node in
     (case reply of None \<Rightarrow> None | Some r \<Rightarrow> accept_new_vote C (ho_input (hc_handoff old)) d r, ms, node'))"

text \<open>The loop of the three collectors, each with its request; \<open>None\<close> is an index out of range.\<close>

fun ask_nodes ::
  "(handoff_link \<Rightarrow> 'n \<Rightarrow> 'a option \<times> u8 list list \<times> 'n) \<Rightarrow> (nat \<times> handoff_link) list \<Rightarrow>
    'n list \<Rightarrow> ('a list \<times> 'n list) option" where
  "ask_nodes rpc [] nodes = Some ([], nodes)"
| "ask_nodes rpc ((i, link) # asked) nodes =
    (if i \<ge> length nodes then None
     else (let (answer, ms, node') = rpc link (nodes ! i) in
       map_option (\<lambda>(answers, nodes'). ((case answer of None \<Rightarrow> [] | Some a \<Rightarrow> [a]) @ answers, nodes'))
         (ask_nodes rpc asked (nodes[i := node']))))"

fun first_by :: "('a \<Rightarrow> nat) \<Rightarrow> 'a list \<Rightarrow> 'a list" where
  "first_by key [] = []"
| "first_by key (x # xs) = x # filter (\<lambda>y. key y \<noteq> key x) (first_by key xs)"

definition collect_old ::
  "crypto \<Rightarrow> (old_share list \<Rightarrow> old_share list) \<Rightarrow> handoff \<Rightarrow> (nat \<times> handoff_link) list \<Rightarrow> choice_node list \<Rightarrow>
    (handoff_cert \<times> choice_node list) option" where
  "collect_old C order h asked nodes =
    map_option (\<lambda>(shares, nodes'). (\<lparr>hc_handoff = h, hc_shares = order (first_by os_index shares)\<rparr>, nodes'))
      (ask_nodes (rpc_old_sign C h) asked nodes)"

definition collect_activation ::
  "crypto \<Rightarrow> (activation_share list \<Rightarrow> activation_share list) \<Rightarrow> handoff_cert \<Rightarrow> (nat \<times> handoff_link) list \<Rightarrow>
    choice_node list \<Rightarrow> (activation_cert \<times> choice_node list) option" where
  "collect_activation C order cert asked nodes =
    map_option (\<lambda>(shares, nodes').
        (\<lparr>act_handoff_hash = handoff_hash C (hc_handoff cert), act_shares = order (first_by as_index shares)\<rparr>, nodes'))
      (ask_nodes (rpc_activate C cert) asked nodes)"

definition count_new_votes ::
  "crypto \<Rightarrow> handoff_cert \<Rightarrow> activation_cert \<Rightarrow> digest \<Rightarrow> (nat \<times> handoff_link) list \<Rightarrow> choice_node list \<Rightarrow>
    (nat \<times> choice_node list) option" where
  "count_new_votes C old activation d asked nodes =
    map_option (\<lambda>(votes, nodes'). (card (nv_index ` set votes), nodes'))
      (ask_nodes (rpc_new_vote C old activation d) asked nodes)"

end
