(* ===== verification/HandoffSafety.thy ===== *)
theory HandoffSafety
  imports Handoff
begin

text \<open>
  Why a committee hand-off is safe: a certifier that follows the code never signs for two hand-offs
  of one key, across failed writes and restarts, so with at most two faulty members there is one
  hand-off, and the new committee votes for the digest it inherits or for nothing.
\<close>

section \<open>The log of choices is durable\<close>

lemma choice_record_length [simp]: "length magic = 8 \<Longrightarrow> length (encode_choice C magic h d) = CHOICE_RECORD"
  by (simp add: encode_choice_def choice_prefix_def CHOICE_RECORD_def)

lemma decode_encode_choice:
  assumes "length magic = 8"
  shows "decode_choice C magic (encode_choice C magic h d) = Some (choice_key_of h, d)"
proof -
  let ?p = "choice_prefix magic h d"
  have len: "length ?p = 72"
    using assms by (simp add: choice_prefix_def)
  have cut: "byte_slice 0 72 (encode_choice C magic h d) = ?p"
    "byte_slice 72 104 (encode_choice C magic h d) = array_bytes (choice_checksum C magic ?p)"
    by (simp_all add: encode_choice_def byte_slice_def len)
  obtain c where c: "encode_choice C magic h d = magic @ to_le64 (ho_from_epoch h) @ to_le64 (ho_to_epoch h) @
      to_le64 (ir_id (ho_input h)) @ to_le64 (ir_generation (ho_input h)) @ array_bytes d @ c"
    by (simp add: encode_choice_def choice_prefix_def)
  show ?thesis
    using choice_record_length [OF assms, of C h d] assms unfolding decode_choice_def cut
    by (simp add: c byte_slice_def choice_key_of_def)
qed

lemma chunks_exact_none: "n = 0 \<or> length bs < n \<Longrightarrow> chunks_exact n bs = []"
  by (subst chunks_exact.simps) simp

lemma chunks_exact_more: "0 < n \<Longrightarrow> n \<le> length bs \<Longrightarrow> chunks_exact n bs = take n bs # chunks_exact n (drop n bs)"
  by (subst chunks_exact.simps) simp

lemma chunks_exact_one:
  "length bs < n \<Longrightarrow> chunks_exact n bs = []"
  "length bs = n \<Longrightarrow> 0 < n \<Longrightarrow> chunks_exact n bs = [bs]"
  by (simp_all add: chunks_exact_none chunks_exact_more)

lemma chunks_exact_append: "length bs mod n = 0 \<Longrightarrow> chunks_exact n (bs @ cs) = chunks_exact n bs @ chunks_exact n cs"
proof (induction n bs rule: chunks_exact.induct)
  case (1 n bs)
  show ?case
  proof (cases "n = 0 \<or> length bs < n")
    case True
    then show ?thesis
      using 1(2) by (auto simp: chunks_exact_none)
  next
    case False
    then have "(length bs - n) mod n = 0"
      using 1(2) by (simp add: le_mod_geq)
    then show ?thesis
      using 1(1) False by (simp add: chunks_exact_more)
  qed
qed

lemma choice_record_pos [simp]: "0 < CHOICE_RECORD"
  by (simp add: CHOICE_RECORD_def)

lemma insert_choices_append:
  "insert_choices C magic (xs @ ys) m =
    (case insert_choices C magic xs m of None \<Rightarrow> None | Some m' \<Rightarrow> insert_choices C magic ys m')"
  by (induction xs arbitrary: m) (auto split: option.splits)

lemma map_le_lookup: "f \<subseteq>\<^sub>m g \<Longrightarrow> f k = Some v \<Longrightarrow> g k = Some v"
  by (metis domI map_le_def)

text \<open>What the log of a node says, whether or not the process runs.\<close>

definition recorded :: "crypto \<Rightarrow> choice_store \<Rightarrow> (choice_key \<rightharpoonup> digest) option" where
  "recorded C st = insert_choices C (cs_magic st) (chunks_exact CHOICE_RECORD (cs_file st)) Map.empty"

definition durable :: "crypto \<Rightarrow> choice_node \<Rightarrow> choice_key \<Rightarrow> digest option" where
  "durable C node =
    (case cn_store node of None \<Rightarrow> Map.empty | Some st \<Rightarrow> (case recorded C st of None \<Rightarrow> Map.empty | Some m \<Rightarrow> m))"

definition store_ok :: "crypto \<Rightarrow> u8 list \<Rightarrow> bool \<Rightarrow> choice_store \<Rightarrow> bool" where
  "store_ok C magic up st \<longleftrightarrow> length magic = 8 \<and> cs_magic st = magic \<and> recorded C st \<noteq> None \<and>
    (up \<longrightarrow> length (cs_file st) mod CHOICE_RECORD = 0 \<and> recorded C st = Some (cs_choices st))"

definition choice_node_ok :: "crypto \<Rightarrow> u8 list \<Rightarrow> choice_node \<Rightarrow> bool" where
  "choice_node_ok C magic node \<longleftrightarrow> (cn_byzantine node \<longleftrightarrow> cn_store node = None) \<and>
    (\<forall>st. cn_store node = Some st \<longrightarrow> store_ok C magic (cn_up node) st)"

lemma store_choose_ok:
  assumes ok: "store_ok C magic True st" and run: "store_choose C io h d st = (r, st')"
  obtains m m' where "recorded C st = Some m" "recorded C st' = Some m'" "m \<subseteq>\<^sub>m m'"
    "store_ok C magic (r \<noteq> None) st'" "r = Some True \<Longrightarrow> m' (choice_key_of h) = Some d"
    "r = Some False \<Longrightarrow> \<exists>d'. m (choice_key_of h) = Some d' \<and> d' \<noteq> d"
proof -
  let ?e = "encode_choice C magic h d"
  have st: "length magic = 8" "cs_magic st = magic" "length (cs_file st) mod CHOICE_RECORD = 0"
    "recorded C st = Some (cs_choices st)"
    using ok by (auto simp: store_ok_def)
  have grow: "insert_choices C magic (chunks_exact CHOICE_RECORD (cs_file st @ bs)) Map.empty =
      insert_choices C magic (chunks_exact CHOICE_RECORD bs) (cs_choices st)" for bs
    using st by (simp add: chunks_exact_append insert_choices_append recorded_def)
  have step: "insert_choices C magic [?e] (cs_choices st) = Some ((cs_choices st)(choice_key_of h \<mapsto> d))"
    if "cs_choices st (choice_key_of h) = None"
    using that by (simp add: decode_encode_choice st)
  show thesis
  proof (cases "get_choice st h")
    case (Some old)
    then show thesis
      using that [of "cs_choices st" "cs_choices st"] run ok st(4)
      by (auto simp: store_choose_def get_choice_def)
  next
    case none: None
    let ?m = "(cs_choices st)(choice_key_of h \<mapsto> d)"
    have new: "cs_choices st \<subseteq>\<^sub>m ?m"
      using none by (auto simp: get_choice_def map_le_def dom_def)
    have full: "insert_choices C magic (chunks_exact CHOICE_RECORD (cs_file st @ ?e)) Map.empty = Some ?m"
      using step none st(1) by (simp add: grow chunks_exact_one get_choice_def)
    show thesis
    proof (cases io)
      case None
      then have st': "r = Some True" "st' = st\<lparr>cs_file := cs_file st @ ?e, cs_choices := ?m\<rparr>"
        using run none st by (simp_all add: store_choose_def)
      moreover have "recorded C st' = Some ?m"
        using full st st' by (simp add: recorded_def)
      moreover have "store_ok C magic True st'"
        using calculation st by (simp add: store_ok_def mod_add_eq)
      ultimately show thesis
        using that [of "cs_choices st" ?m] new st(4) by simp
    next
      case (Some k)
      then have st': "r = None" "st' = st\<lparr>cs_file := cs_file st @ take k ?e\<rparr>"
        using run none st by (simp_all add: store_choose_def Let_def)
      have "recorded C st' = Some (if k < CHOICE_RECORD then cs_choices st else ?m)"
        using full st st' by (simp add: recorded_def grow chunks_exact_one)
      then show thesis
        using that [of "cs_choices st" "if k < CHOICE_RECORD then cs_choices st else ?m"] new st st'
        by (simp add: store_ok_def)
    qed
  qed
qed

section \<open>Serving and restarting keep the log\<close>

definition keeps_choices :: "crypto \<Rightarrow> u8 list \<Rightarrow> choice_node \<Rightarrow> choice_node \<Rightarrow> bool" where
  "keeps_choices C magic node node' \<longleftrightarrow> choice_node_ok C magic node' \<and> durable C node \<subseteq>\<^sub>m durable C node' \<and>
    cn_index node' = cn_index node \<and> cn_byzantine node' = cn_byzantine node"

lemma choice_node_ok_down: "choice_node_ok C magic node \<Longrightarrow> choice_node_ok C magic (node\<lparr>cn_up := False\<rparr>)"
  by (auto simp: choice_node_ok_def store_ok_def)

lemma keeps_down:
  "keeps_choices C magic node node' \<Longrightarrow> keeps_choices C magic node (node'\<lparr>cn_up := False\<rparr>)"
  by (auto simp: keeps_choices_def durable_def choice_node_ok_down)

lemma keeps_refl: "choice_node_ok C magic node \<Longrightarrow> keeps_choices C magic node node"
  by (simp add: keeps_choices_def)

lemma permit_ok:
  assumes ok: "choice_node_ok C magic node" and up: "cn_up node" and run: "permit C io h d node = (r, node')"
  shows "r \<noteq> None \<Longrightarrow> keeps_choices C magic node node'"
    and "keeps_choices C magic node (node'\<lparr>cn_up := False\<rparr>)"
    and "r = Some True \<Longrightarrow> \<not> cn_byzantine node \<Longrightarrow> durable C node' (choice_key_of h) = Some d"
proof -
  have "(r \<noteq> None \<longrightarrow> keeps_choices C magic node node') \<and> keeps_choices C magic node (node'\<lparr>cn_up := False\<rparr>) \<and>
    (r = Some True \<longrightarrow> \<not> cn_byzantine node \<longrightarrow> durable C node' (choice_key_of h) = Some d)"
  proof (cases "cn_store node")
    case None
    then show ?thesis
      using run keeps_refl [OF ok] keeps_down [OF keeps_refl [OF ok]] ok
      by (auto simp: permit_def choice_node_ok_def)
  next
    case (Some st)
    obtain st' where st': "store_choose C io h d st = (r, st')" "node' = node\<lparr>cn_store := Some st'\<rparr>"
      using run Some by (auto simp: permit_def split: prod.splits)
    have "store_ok C magic True st"
      using ok Some up by (simp add: choice_node_ok_def)
    from this st'(1) obtain m m' where "recorded C st = Some m" "recorded C st' = Some m'" "m \<subseteq>\<^sub>m m'"
      "store_ok C magic (r \<noteq> None) st'" "r = Some True \<Longrightarrow> m' (choice_key_of h) = Some d"
      by (rule store_choose_ok) blast
    then show ?thesis
      using Some ok up st'(2) by (auto simp: keeps_choices_def choice_node_ok_def durable_def store_ok_def)
  qed
  then show "r \<noteq> None \<Longrightarrow> keeps_choices C magic node node'"
    and "keeps_choices C magic node (node'\<lparr>cn_up := False\<rparr>)"
    and "r = Some True \<Longrightarrow> \<not> cn_byzantine node \<Longrightarrow> durable C node' (choice_key_of h) = Some d"
    by auto
qed

lemma crash_restart_keeps:
  assumes ok: "choice_node_ok C magic node"
  shows "keeps_choices C magic node (crash_restart C magic node)"
proof (cases "cn_store node")
  case None
  then have "cn_byzantine node"
    using ok by (simp add: choice_node_ok_def)
  then show ?thesis
    using None by (simp add: crash_restart_def start_choice_node_def keeps_choices_def choice_node_ok_def durable_def)
next
  case (Some st)
  then have st: "\<not> cn_byzantine node" "store_ok C magic (cn_up node) st"
    using ok by (simp_all add: choice_node_ok_def)
  show ?thesis
  proof (cases "open_choices C magic (cs_file st)")
    case None
    then show ?thesis
      using keeps_down [OF keeps_refl [OF ok]] Some st by (simp add: crash_restart_def start_choice_node_def)
  next
    case reopened: (Some st')
    then show ?thesis
      using Some st
      by (auto simp: crash_restart_def start_choice_node_def open_choices_def keeps_choices_def choice_node_ok_def
        store_ok_def durable_def recorded_def split: if_splits)
  qed
qed

section \<open>A committee of certifiers\<close>

text \<open>
  The members, and every message a member has signed with its own key.  A step is one served
  connection, with any request that may arrive and any outcome of the writes, or a kill and restart.
\<close>

record committee =
  hs_nodes :: "choice_node list"
  hs_signed :: "(nat \<times> u8 list) set"

inductive committee_step ::
  "crypto \<Rightarrow> u8 list \<Rightarrow> (nat option \<Rightarrow> nat option \<Rightarrow> u8 list \<Rightarrow> choice_node \<Rightarrow> served) \<Rightarrow>
    (u8 list \<Rightarrow> bool) \<Rightarrow> committee \<Rightarrow> committee \<Rightarrow> bool"
  for C magic serve arrives where
  connection: "i < length (hs_nodes S) \<Longrightarrow> arrives request \<Longrightarrow> serve io sent request (hs_nodes S ! i) = (reply, ms, node') \<Longrightarrow>
    committee_step C magic serve arrives S \<lparr>hs_nodes = (hs_nodes S)[i := node'], hs_signed = hs_signed S \<union> {i} \<times> set ms\<rparr>"
| restart: "i < length (hs_nodes S) \<Longrightarrow>
    committee_step C magic serve arrives S (S\<lparr>hs_nodes := (hs_nodes S)[i := crash_restart C magic (hs_nodes S ! i)]\<rparr>)"

definition committee_ok :: "crypto \<Rightarrow> u8 list \<Rightarrow> committee \<Rightarrow> bool" where
  "committee_ok C magic S \<longleftrightarrow>
    (\<forall>i < length (hs_nodes S). choice_node_ok C magic (hs_nodes S ! i) \<and> cn_index (hs_nodes S ! i) = i)"

definition committee_start :: "crypto \<Rightarrow> u8 list \<Rightarrow> nat set \<Rightarrow> committee \<Rightarrow> bool" where
  "committee_start C magic faulty S \<longleftrightarrow> hs_signed S = {} \<and> length (hs_nodes S) = HANDOFF_N \<and>
    (\<forall>i < HANDOFF_N. start_choice_node C magic i (i \<in> faulty) [] = Some (hs_nodes S ! i))"

definition member_durable :: "crypto \<Rightarrow> committee \<Rightarrow> nat \<times> choice_key \<Rightarrow> digest option" where
  "member_durable C S k = (if fst k < length (hs_nodes S) then durable C (hs_nodes S ! fst k) (snd k) else None)"

lemma committee_start_ok:
  assumes "length magic = 8" and "committee_start C magic faulty S"
  shows "committee_ok C magic S" and "i < HANDOFF_N \<Longrightarrow> cn_byzantine (hs_nodes S ! i) \<longleftrightarrow> i \<in> faulty"
    and "hs_signed S = {}" and "length (hs_nodes S) = HANDOFF_N"
proof -
  have node: "choice_node_ok C magic (hs_nodes S ! i) \<and> cn_index (hs_nodes S ! i) = i \<and> (cn_byzantine (hs_nodes S ! i) \<longleftrightarrow> i \<in> faulty)"
    if "i < HANDOFF_N" for i
  proof -
    have "start_choice_node C magic i (i \<in> faulty) [] = Some (hs_nodes S ! i)"
      using assms that by (simp add: committee_start_def)
    then have "hs_nodes S ! i = (if i \<in> faulty then \<lparr>cn_index = i, cn_byzantine = True, cn_store = None, cn_up = True\<rparr>
      else \<lparr>cn_index = i, cn_byzantine = False,
        cn_store = Some \<lparr>cs_magic = magic, cs_file = [], cs_choices = Map.empty\<rparr>, cn_up = True\<rparr>)"
      by (auto simp: start_choice_node_def open_choices_def chunks_exact_one CHOICE_RECORD_def split: if_splits)
    then show ?thesis
      using assms(1) by (simp add: chunks_exact_one CHOICE_RECORD_def choice_node_ok_def store_ok_def recorded_def)
  qed
  then show "committee_ok C magic S" and "i < HANDOFF_N \<Longrightarrow> cn_byzantine (hs_nodes S ! i) \<longleftrightarrow> i \<in> faulty"
    and "hs_signed S = {}" and "length (hs_nodes S) = HANDOFF_N"
    using assms(2) by (auto simp: committee_ok_def committee_start_def)
qed

text \<open>
  The contract of a certifier: a connection keeps the log, and a member that follows the code signs
  only what its log justifies.
\<close>

locale choice_server =
  fixes C :: crypto and magic :: "u8 list"
    and serve :: "nat option \<Rightarrow> nat option \<Rightarrow> u8 list \<Rightarrow> choice_node \<Rightarrow> served"
    and arrives :: "u8 list \<Rightarrow> bool"
    and justified :: "(choice_key \<rightharpoonup> digest) \<Rightarrow> nat \<Rightarrow> u8 list \<Rightarrow> bool"
  assumes serve_keeps: "choice_node_ok C magic node \<Longrightarrow> serve io sent request node = (reply, ms, node') \<Longrightarrow>
      keeps_choices C magic node node'"
    and serve_signs: "arrives request \<Longrightarrow> choice_node_ok C magic node \<Longrightarrow> \<not> cn_byzantine node \<Longrightarrow>
      serve io sent request node = (reply, ms, node') \<Longrightarrow> m \<in> set ms \<Longrightarrow> justified (durable C node') (cn_index node) m"
    and justified_mono: "justified f i m \<Longrightarrow> f \<subseteq>\<^sub>m g \<Longrightarrow> justified g i m"
begin

abbreviation committee_run :: "committee \<Rightarrow> committee \<Rightarrow> bool" where
  "committee_run \<equiv> (committee_step C magic serve arrives)\<^sup>*\<^sup>*"

lemma step_ok_length: "committee_step C magic serve arrives S S' \<Longrightarrow> length (hs_nodes S') = length (hs_nodes S)"
  by (erule committee_step.cases) simp_all

lemma step_keeps:
  assumes "committee_step C magic serve arrives S S'" and ok: "committee_ok C magic S" and i: "i < length (hs_nodes S)"
  shows "keeps_choices C magic (hs_nodes S ! i) (hs_nodes S' ! i)"
proof -
  have now: "choice_node_ok C magic (hs_nodes S ! i)"
    using ok i by (simp add: committee_ok_def)
  show "keeps_choices C magic (hs_nodes S ! i) (hs_nodes S' ! i)"
    using assms(1)
  proof cases
    case (connection j request io sent reply ms node')
    then show ?thesis
      using serve_keeps keeps_refl now i by (cases "i = j") auto
  next
    case (restart j)
    then show ?thesis
      using crash_restart_keeps keeps_refl now i by (cases "i = j") auto
  qed
qed

lemma step_ok: "committee_step C magic serve arrives S S' \<Longrightarrow> committee_ok C magic S \<Longrightarrow> committee_ok C magic S'"
proof -
  assume step: "committee_step C magic serve arrives S S'" and ok: "committee_ok C magic S"
  have "choice_node_ok C magic (hs_nodes S' ! i) \<and> cn_index (hs_nodes S' ! i) = i" if "i < length (hs_nodes S)" for i
    using step_keeps [OF step ok that] ok that by (simp add: committee_ok_def keeps_choices_def)
  then show "committee_ok C magic S'"
    using step step_ok_length [OF step] by (simp add: committee_ok_def)
qed

lemma step_signed:
  assumes "committee_step C magic serve arrives S S'" and ok: "committee_ok C magic S" and i: "i < length (hs_nodes S)"
    and honest: "\<not> cn_byzantine (hs_nodes S ! i)" and m: "(i, m) \<in> hs_signed S'"
    and before: "(i, m) \<in> hs_signed S \<Longrightarrow> justified (durable C (hs_nodes S ! i)) i m"
  shows "justified (durable C (hs_nodes S' ! i)) i m"
proof (cases "(i, m) \<in> hs_signed S")
  case True
  then show ?thesis
    using before justified_mono step_keeps [OF assms(1) ok i] by (auto simp: keeps_choices_def)
next
  case False
  show ?thesis
    using assms(1)
  proof cases
    case (connection j request io sent reply ms node')
    have "j = i" "m \<in> set ms"
      using m False connection(1) by auto
    then show ?thesis
      using serve_signs [OF _ _ honest] connection ok i by (auto simp: committee_ok_def)
  next
    case (restart j)
    then show ?thesis
      using m False by simp
  qed
qed

lemma run_signed:
  assumes "committee_run S0 S" and "committee_ok C magic S0" and "hs_signed S0 = {}"
    and "i < length (hs_nodes S0)" and "\<not> cn_byzantine (hs_nodes S0 ! i)"
  shows "committee_ok C magic S \<and> length (hs_nodes S) = length (hs_nodes S0) \<and> \<not> cn_byzantine (hs_nodes S ! i) \<and>
    (\<forall>m. (i, m) \<in> hs_signed S \<longrightarrow> justified (durable C (hs_nodes S ! i)) i m)"
  using assms(1)
proof (induction rule: rtranclp_induct)
  case base
  then show ?case
    using assms by simp
next
  case (step S S')
  then have i: "i < length (hs_nodes S)" and ok: "committee_ok C magic S" and honest: "\<not> cn_byzantine (hs_nodes S ! i)"
    using assms(4) by simp_all
  have "\<not> cn_byzantine (hs_nodes S' ! i)"
    using step_keeps [OF step(2) ok i] honest by (simp add: keeps_choices_def)
  moreover have "justified (durable C (hs_nodes S' ! i)) i m" if "(i, m) \<in> hs_signed S'" for m
    using step_signed [OF step(2) ok i honest that] step(3) by blast
  ultimately show ?case
    using step(3) step_ok [OF step(2) ok] step_ok_length [OF step(2)] by simp
qed

end

sublocale choice_server \<subseteq> choices: permanent_register "committee_ok C magic" "committee_step C magic serve arrives" "member_durable C"
proof
  show "committee_ok C magic S'" if "committee_ok C magic S" "committee_step C magic serve arrives S S'" for S S'
    using step_ok that by blast
  show "member_durable C S' k = Some v"
    if "committee_ok C magic S" "committee_step C magic serve arrives S S'" "member_durable C S k = Some v" for S S' k v
  proof -
    have k: "fst k < length (hs_nodes S)" "durable C (hs_nodes S ! fst k) (snd k) = Some v"
      using that(3) by (simp_all add: member_durable_def split: if_splits)
    have "durable C (hs_nodes S ! fst k) \<subseteq>\<^sub>m durable C (hs_nodes S' ! fst k)"
      using step_keeps [OF that(2,1) k(1)] by (simp add: keeps_choices_def)
    then have "durable C (hs_nodes S' ! fst k) (snd k) = Some v"
      using k(2) by (rule map_le_lookup)
    then show ?thesis
      using k(1) step_ok_length [OF that(2)] by (simp only: member_durable_def if_True)
  qed
qed

section \<open>The old committee\<close>

lemma to_le64_index: "i < HANDOFF_N \<Longrightarrow> j < HANDOFF_N \<Longrightarrow> to_le64 (of_nat i) = to_le64 (of_nat j) \<longleftrightarrow> i = j"
  by (simp add: HANDOFF_N_def word_of_nat_eq_iff take_bit_nat_eq_self)

lemma handoff_message_inj: "handoff_message g = handoff_message h \<longleftrightarrow> g = h"
  by (cases g; cases h; cases "ho_input g"; cases "ho_input h") (auto simp: handoff_message_def fixed_append_eq array_eq_iff)

lemma handoff_hash_eq: "handoff_hash C g = handoff_hash C h \<Longrightarrow> g = h \<or> collide C (handoff_message g) (handoff_message h)"
  unfolding handoff_hash_def using collideI handoff_message_inj by blast

text \<open>
  Two of a given set of hand-offs have one hash.  The theorems name the set: the hand-offs the members
  were asked to sign and those of the certificates at hand, so that a collision elsewhere does not count.
\<close>

definition handoffs_collide :: "crypto \<Rightarrow> handoff set \<Rightarrow> bool" where
  "handoffs_collide C H \<longleftrightarrow> (\<exists>g \<in> H. \<exists>h \<in> H. collide C (handoff_message g) (handoff_message h))"

lemma handoffs_collideI:
  "handoff_hash C g = handoff_hash C h \<Longrightarrow> g \<noteq> h \<Longrightarrow> g \<in> H \<Longrightarrow> h \<in> H \<Longrightarrow> handoffs_collide C H"
  unfolding handoffs_collide_def using handoff_hash_eq by blast

lemma handoffs_collide_mono: "handoffs_collide C G \<Longrightarrow> G \<subseteq> H \<Longrightarrow> handoffs_collide C H"
  unfolding handoffs_collide_def by blast

lemma one_handoff_collides_not [simp]: "\<not> handoffs_collide C {h}"
  by (simp add: handoffs_collide_def collide_def)

text \<open>A request that asks for a signature asks it for a hand-off of the given set.\<close>

definition asks_only :: "handoff set \<Rightarrow> u8 list \<Rightarrow> bool" where
  "asks_only asked request \<longleftrightarrow>
    (\<forall>body h rest. request = OP_OLD_SIGN # body \<longrightarrow> read_handoff body = Some (h, rest) \<longrightarrow> h \<in> asked)"

lemma old_share_message_inj: "old_share_message x i = old_share_message y i \<Longrightarrow> x = y"
  by (simp add: old_share_message_def array_eq_iff)

lemma served_simps:
  "send_ignoring sent reply node = (r, ms, node') \<longleftrightarrow> r = (case sent of None \<Rightarrow> reply | Some k \<Rightarrow> take k reply) \<and> ms = [] \<and> node' = node"
  "send_signed sent reply m node = (r, ms, node') \<longleftrightarrow>
    (case sent of None \<Rightarrow> r = reply \<and> node' = node | Some k \<Rightarrow> r = take k reply \<and> node' = node\<lparr>cn_up := False\<rparr>) \<and> ms = [m]"
  "node_dies node = (r, ms, node') \<longleftrightarrow> r = [] \<and> ms = [] \<and> node' = node\<lparr>cn_up := False\<rparr>"
  by (auto simp: send_ignoring_def send_signed_def node_dies_def split: option.splits)

lemma durable_down [simp]: "durable C (node\<lparr>cn_up := b\<rparr>) = durable C node"
  by (simp add: durable_def)

definition old_justified :: "crypto \<Rightarrow> handoff set \<Rightarrow> (choice_key \<rightharpoonup> digest) \<Rightarrow> nat \<Rightarrow> u8 list \<Rightarrow> bool" where
  "old_justified C asked f i m \<longleftrightarrow>
    (\<exists>h \<in> asked. m = old_share_message (handoff_hash C h) i \<and> f (choice_key_of h) = Some (handoff_hash C h))"

lemma old_justified_hash:
  assumes "old_justified C asked f i (old_share_message (handoff_hash C h) i)"
  shows "\<exists>g \<in> asked. handoff_hash C g = handoff_hash C h \<and> f (choice_key_of g) = Some (handoff_hash C h)"
  using assms old_share_message_inj unfolding old_justified_def by metis

lemma old_sign_request_safe:
  assumes ok: "choice_node_ok C magic node" "cn_up node" and run: "old_sign_request C io sent body node = (reply, ms, node')"
    and asked: "asks_only asked (OP_OLD_SIGN # body)"
  shows "keeps_choices C magic node node'"
    and "\<not> cn_byzantine node \<Longrightarrow> m \<in> set ms \<Longrightarrow> old_justified C asked (durable C node') (cn_index node) m"
proof -
  have "keeps_choices C magic node node' \<and>
    (\<not> cn_byzantine node \<longrightarrow> m \<in> set ms \<longrightarrow> old_justified C asked (durable C node') (cn_index node) m)"
  proof (cases "read_handoff body")
    case None
    then show ?thesis
      using run keeps_down [OF keeps_refl [OF ok(1)]] by (simp add: old_sign_request_def served_simps)
  next
    case (Some hr)
    obtain h rest where hr: "hr = (h, rest)"
      by force
    then have "h \<in> asked"
      using asked Some by (simp add: asks_only_def)
    obtain r node'' where p: "permit C io h (handoff_hash C h) node = (r, node'')"
      by force
    note keep = permit_ok [OF ok p]
    show ?thesis
      using run Some hr p keep \<open>h \<in> asked\<close> keeps_down [of C magic node node''] keeps_refl [OF ok(1)]
      by (auto simp: old_sign_request_def served_simps old_justified_def Let_def
        split: if_splits option.splits bool.splits)
  qed
  then show "keeps_choices C magic node node'"
    and "\<not> cn_byzantine node \<Longrightarrow> m \<in> set ms \<Longrightarrow> old_justified C asked (durable C node') (cn_index node) m"
    by auto
qed

lemma old_connection_cases:
  assumes "old_connection C io sent request node = (reply, ms, node')"
  obtains "ms = []" "node' = node \<or> node' = node\<lparr>cn_up := False\<rparr>"
    | body where "cn_up node" "request = OP_OLD_SIGN # body" "old_sign_request C io sent body node = (reply, ms, node')"
  using assms by (cases request) (auto simp: old_connection_def served_simps split: if_splits)

lemma old_connection_safe:
  assumes ok: "choice_node_ok C magic node" and run: "old_connection C io sent request node = (reply, ms, node')"
  shows "keeps_choices C magic node node'"
    and "asks_only asked request \<Longrightarrow> \<not> cn_byzantine node \<Longrightarrow> m \<in> set ms \<Longrightarrow> old_justified C asked (durable C node') (cn_index node) m"
proof -
  have trivial: "asks_only UNIV (OP_OLD_SIGN # body)" for body
    by (simp add: asks_only_def)
  from run have "keeps_choices C magic node node' \<and> (asks_only asked request \<longrightarrow> \<not> cn_byzantine node \<longrightarrow> m \<in> set ms \<longrightarrow>
    old_justified C asked (durable C node') (cn_index node) m)"
  proof (cases rule: old_connection_cases)
    case 1
    then show ?thesis
      using keeps_refl [OF ok] keeps_down [OF keeps_refl [OF ok]] by auto
  next
    case (2 body)
    then show ?thesis
      using old_sign_request_safe(1) [OF ok 2(1,3) trivial] old_sign_request_safe(2) [OF ok 2(1,3)] by simp
  qed
  then show "keeps_choices C magic node node'"
    and "asks_only asked request \<Longrightarrow> \<not> cn_byzantine node \<Longrightarrow> m \<in> set ms \<Longrightarrow> old_justified C asked (durable C node') (cn_index node) m"
    by auto
qed

interpretation old_members: choice_server C magic "old_connection C" "asks_only asked" "old_justified C asked" for C magic asked
proof
  show "keeps_choices C magic node node'" if "choice_node_ok C magic node" "old_connection C io sent request node = (reply, ms, node')"
    for node io sent request reply ms node'
    using old_connection_safe(1) that .
  show "old_justified C asked (durable C node') (cn_index node) m"
    if "asks_only asked request" "choice_node_ok C magic node" "\<not> cn_byzantine node"
      "old_connection C io sent request node = (reply, ms, node')" "m \<in> set ms"
    for node io sent request reply ms node' m
    using old_connection_safe(2) [OF that(2,4,1,3,5)] .
  show "old_justified C asked g i m" if "old_justified C asked f i m" "f \<subseteq>\<^sub>m g" for f i m g
    using that(1) map_le_lookup [OF that(2)] unfolding old_justified_def by blast
qed

abbreviation old_run :: "crypto \<Rightarrow> handoff set \<Rightarrow> committee \<Rightarrow> committee \<Rightarrow> bool" where
  "old_run C asked \<equiv> (committee_step C OLD_WAL_MAGIC (old_connection C) (asks_only asked))\<^sup>*\<^sup>*"

text \<open>The shares of a certificate that name a correct member are ones that member made.\<close>

definition shares_issued :: "crypto \<Rightarrow> nat set \<Rightarrow> committee \<Rightarrow> handoff_cert \<Rightarrow> bool" where
  "shares_issued C faulty S cert \<longleftrightarrow> (\<forall>s \<in> set (hc_shares cert). os_index s \<notin> faulty \<longrightarrow>
    (os_index s, old_share_message (handoff_hash C (hc_handoff cert)) (os_index s)) \<in> hs_signed S)"

lemma handoff_cert_members:
  assumes "verify_handoff_cert_any C cert"
  shows "os_index ` set (hc_shares cert) \<subseteq> {..<HANDOFF_N}" and "HANDOFF_Q \<le> card (os_index ` set (hc_shares cert))"
    and "ho_status (hc_handoff cert) = STATUS_LOCKED \<or> ho_status (hc_handoff cert) = STATUS_FINAL"
  using assms by (auto simp: verify_handoff_cert_any_def list_all_iff verify_old_share_def split: if_splits)

lemma wal_magic_lengths [simp]: "length OLD_WAL_MAGIC = 8" "length NEW_WAL_MAGIC = 8"
  by (simp_all add: OLD_WAL_MAGIC_def NEW_WAL_MAGIC_def ascii_def)

lemma handoffs_agree:
  assumes start: "committee_start C OLD_WAL_MAGIC faulty S0" and run: "old_run C asked S0 S"
    and few: "card (faulty \<inter> {..<HANDOFF_N}) \<le> 2"
    and a: "verify_handoff_cert_any C a" "shares_issued C faulty S a"
    and b: "verify_handoff_cert_any C b" "shares_issued C faulty S b"
    and same: "choice_key_of (hc_handoff a) = choice_key_of (hc_handoff b)"
  shows "hc_handoff a = hc_handoff b \<or> handoffs_collide C (insert (hc_handoff a) (insert (hc_handoff b) asked))"
proof -
  note s0 = committee_start_ok [OF _ start, simplified]
  have "HANDOFF_N + card (faulty \<inter> {..<HANDOFF_N}) < card (os_index ` set (hc_shares a)) + card (os_index ` set (hc_shares b))"
    using few handoff_cert_members(2) [OF a(1)] handoff_cert_members(2) [OF b(1)] by (simp add: HANDOFF_N_def HANDOFF_Q_def)
  then obtain i where i: "i \<in> os_index ` set (hc_shares a)" "i \<in> os_index ` set (hc_shares b)" "i < HANDOFF_N" "i \<notin> faulty"
    using quorum_honest [OF handoff_cert_members(1) [OF a(1)] handoff_cert_members(1) [OF b(1)]] by blast
  have "(i, old_share_message (handoff_hash C (hc_handoff c)) i) \<in> hs_signed S"
    if "i \<in> os_index ` set (hc_shares c)" "shares_issued C faulty S c" for c
    using that i(4) by (auto simp: shares_issued_def)
  then have "old_justified C asked (durable C (hs_nodes S ! i)) i (old_share_message (handoff_hash C (hc_handoff c)) i)"
    if "i \<in> os_index ` set (hc_shares c)" "shares_issued C faulty S c" for c
    using old_members.run_signed [OF run s0(1,3)] s0(2,4) i(3,4) that by simp
  then have just: "\<exists>g \<in> asked. handoff_hash C g = handoff_hash C (hc_handoff c) \<and>
      durable C (hs_nodes S ! i) (choice_key_of g) = Some (handoff_hash C (hc_handoff c))"
    if "i \<in> os_index ` set (hc_shares c)" "shares_issued C faulty S c" for c
    using old_justified_hash that by blast
  obtain g where g: "g \<in> asked" "handoff_hash C g = handoff_hash C (hc_handoff a)"
      "durable C (hs_nodes S ! i) (choice_key_of g) = Some (handoff_hash C (hc_handoff a))"
    using just i(1) a(2) by blast
  obtain h where h: "h \<in> asked" "handoff_hash C h = handoff_hash C (hc_handoff b)"
      "durable C (hs_nodes S ! i) (choice_key_of h) = Some (handoff_hash C (hc_handoff b))"
    using just i(2) b(2) by blast
  have "handoff_hash C (hc_handoff a) = handoff_hash C (hc_handoff b)" if "g = hc_handoff a" "h = hc_handoff b"
    using g(3) h(3) same that by simp
  then show ?thesis
    using g(1,2) h(1,2) by (metis handoffs_collideI insertI1 insertI2)
qed

section \<open>The new committee\<close>

definition shows_only :: "(handoff_cert \<Rightarrow> bool) \<Rightarrow> u8 list \<Rightarrow> bool" where
  "shows_only P request \<longleftrightarrow> (\<forall>body cert activation d rest. request = OP_NEW_VOTE # body \<longrightarrow>
    read_vote_request body = Some ((cert, activation, d), rest) \<longrightarrow> P cert)"

definition vote_justified :: "crypto \<Rightarrow> (handoff_cert \<Rightarrow> bool) \<Rightarrow> (choice_key \<rightharpoonup> digest) \<Rightarrow> nat \<Rightarrow> u8 list \<Rightarrow> bool" where
  "vote_justified C P f i m \<longleftrightarrow> (\<exists>cert. let h = hc_handoff cert in P cert \<and> verify_handoff_cert_for_new_epoch C cert \<and>
    ho_status h = STATUS_LOCKED \<and> f (choice_key_of h) = Some (handoff_hash C h) \<and>
    m = new_vote_message (ho_input h) (ho_digest h) i)"

definition new_justified :: "crypto \<Rightarrow> (handoff_cert \<Rightarrow> bool) \<Rightarrow> (choice_key \<rightharpoonup> digest) \<Rightarrow> nat \<Rightarrow> u8 list \<Rightarrow> bool" where
  "new_justified C P f i m \<longleftrightarrow>
    (\<exists>h. m = activation_message (handoff_hash C h) i \<and> f (choice_key_of h) = Some (handoff_hash C h)) \<or>
    vote_justified C P f i m"

lemma new_vote_message_inj: "new_vote_message x d i = new_vote_message y e i \<longleftrightarrow> x = y \<and> d = e"
  by (cases x; cases y) (auto simp: new_vote_message_def fixed_append_eq array_eq_iff)

lemma new_vote_is_no_activation: "new_vote_message x d i \<noteq> activation_message h i"
proof
  assume "new_vote_message x d i = activation_message h i"
  then have "length (new_vote_message x d i) = length (activation_message h i)"
    by simp
  then show False
    by (simp add: new_vote_message_def activation_message_def ascii_def)
qed

lemma vote_justified_mono: "vote_justified C P f i m \<Longrightarrow> f \<subseteq>\<^sub>m g \<Longrightarrow> vote_justified C P g i m"
  unfolding vote_justified_def Let_def using map_le_lookup [of f g] by blast

lemma new_activate_request_safe:
  assumes ok: "choice_node_ok C magic node" "cn_up node" and run: "new_activate_request C io sent body node = (reply, ms, node')"
  shows "keeps_choices C magic node node'"
    and "\<not> cn_byzantine node \<Longrightarrow> m \<in> set ms \<Longrightarrow> new_justified C P (durable C node') (cn_index node) m"
proof -
  have "keeps_choices C magic node node' \<and>
    (\<not> cn_byzantine node \<longrightarrow> m \<in> set ms \<longrightarrow> new_justified C P (durable C node') (cn_index node) m)"
  proof (cases "read_handoff_cert body")
    case None
    then show ?thesis
      using run keeps_down [OF keeps_refl [OF ok(1)]] by (simp add: new_activate_request_def served_simps)
  next
    case (Some hr)
    obtain cert rest where hr: "hr = (cert, rest)"
      by force
    obtain r node'' where p: "permit C io (hc_handoff cert) (handoff_hash C (hc_handoff cert)) node = (r, node'')"
      by force
    note keep = permit_ok [OF ok p]
    show ?thesis
      using run Some hr p keep keeps_down [of C magic node node''] keeps_refl [OF ok(1)]
      by (auto simp: new_activate_request_def served_simps new_justified_def Let_def
        split: if_splits option.splits bool.splits)
  qed
  then show "keeps_choices C magic node node'"
    and "\<not> cn_byzantine node \<Longrightarrow> m \<in> set ms \<Longrightarrow> new_justified C P (durable C node') (cn_index node) m"
    by auto
qed

lemma may_vote_durable:
  assumes ok: "choice_node_ok C magic node" "cn_up node" "\<not> cn_byzantine node"
    and may: "may_vote C h d node" and status: "ho_status h = STATUS_LOCKED \<or> ho_status h = STATUS_FINAL"
  shows "ho_status h = STATUS_LOCKED" and "d = ho_digest h" and "durable C node (choice_key_of h) = Some (handoff_hash C h)"
proof -
  obtain st where "cn_store node = Some st" "store_ok C magic True st"
    using ok by (auto simp: choice_node_ok_def)
  then show "ho_status h = STATUS_LOCKED" and "d = ho_digest h" and "durable C node (choice_key_of h) = Some (handoff_hash C h)"
    using may status ok(3) by (auto simp: may_vote_def durable_def store_ok_def get_choice_def)
qed

lemma new_vote_request_safe:
  assumes ok: "choice_node_ok C magic node" "cn_up node" and run: "new_vote_request C sent body node = (reply, ms, node')"
    and shows_it: "shows_only P (OP_NEW_VOTE # body)"
  shows "keeps_choices C magic node node'"
    and "\<not> cn_byzantine node \<Longrightarrow> m \<in> set ms \<Longrightarrow> new_justified C P (durable C node') (cn_index node) m"
proof -
  show "keeps_choices C magic node node'"
    using run keeps_refl [OF ok(1)] keeps_down [OF keeps_refl [OF ok(1)]]
    by (auto simp: new_vote_request_def served_simps Let_def split: if_splits option.splits)
  assume honest: "\<not> cn_byzantine node" and m: "m \<in> set ms"
  obtain cert activation d rest where req: "read_vote_request body = Some ((cert, activation, d), rest)"
    and v: "verify_activation_cert C activation cert" "may_vote C (hc_handoff cert) d node"
    and m: "m = new_vote_message (ho_input (hc_handoff cert)) d (cn_index node)" "durable C node' = durable C node"
    using run m by (auto simp: new_vote_request_def served_simps Let_def split: if_splits option.splits)
  have cert: "verify_handoff_cert_for_new_epoch C cert"
    using v(1) by (simp add: verify_activation_cert_def split: if_splits)
  then have "ho_status (hc_handoff cert) = STATUS_LOCKED \<or> ho_status (hc_handoff cert) = STATUS_FINAL"
    using handoff_cert_members(3) [of C cert] by (simp add: verify_handoff_cert_for_new_epoch_def)
  note locked = may_vote_durable [OF ok honest v(2) this]
  have "P cert"
    using shows_it req by (simp add: shows_only_def)
  then show "new_justified C P (durable C node') (cn_index node) m"
    unfolding new_justified_def vote_justified_def Let_def using cert locked m by metis
qed

lemma new_connection_cases:
  assumes "new_connection C io sent request node = (reply, ms, node')"
  obtains "ms = []" "node' = node \<or> node' = node\<lparr>cn_up := False\<rparr>"
    | body where "cn_up node" "new_activate_request C io sent body node = (reply, ms, node')"
    | body where "cn_up node" "request = OP_NEW_VOTE # body" "new_vote_request C sent body node = (reply, ms, node')"
  using assms by (cases request) (auto simp: new_connection_def served_simps split: if_splits)

lemma new_connection_safe:
  assumes ok: "choice_node_ok C magic node" and run: "new_connection C io sent request node = (reply, ms, node')"
  shows "keeps_choices C magic node node'"
    and "shows_only P request \<Longrightarrow> \<not> cn_byzantine node \<Longrightarrow> m \<in> set ms \<Longrightarrow> new_justified C P (durable C node') (cn_index node) m"
proof -
  have trivial: "shows_only (\<lambda>_. True) (OP_NEW_VOTE # body)" for body
    by (simp add: shows_only_def)
  from run have "keeps_choices C magic node node' \<and> (shows_only P request \<longrightarrow> \<not> cn_byzantine node \<longrightarrow> m \<in> set ms \<longrightarrow>
    new_justified C P (durable C node') (cn_index node) m)"
  proof (cases rule: new_connection_cases)
    case 1
    then show ?thesis
      using keeps_refl [OF ok] keeps_down [OF keeps_refl [OF ok]] by auto
  next
    case (2 body)
    then show ?thesis
      using new_activate_request_safe [OF ok 2] by simp
  next
    case (3 body)
    then show ?thesis
      using new_vote_request_safe(1) [OF ok 3(1,3) trivial] new_vote_request_safe(2) [OF ok 3(1,3)] by simp
  qed
  then show "keeps_choices C magic node node'"
    and "shows_only P request \<Longrightarrow> \<not> cn_byzantine node \<Longrightarrow> m \<in> set ms \<Longrightarrow> new_justified C P (durable C node') (cn_index node) m"
    by auto
qed

interpretation new_members: choice_server C magic "new_connection C" "shows_only P" "new_justified C P" for C magic P
proof
  show "keeps_choices C magic node node'" if "choice_node_ok C magic node" "new_connection C io sent request node = (reply, ms, node')"
    for node io sent request reply ms node'
    using new_connection_safe(1) that .
  show "new_justified C P (durable C node') (cn_index node) m"
    if "shows_only P request" "choice_node_ok C magic node" "\<not> cn_byzantine node"
      "new_connection C io sent request node = (reply, ms, node')" "m \<in> set ms"
    for node io sent request reply ms node' m
    using new_connection_safe(2) [OF that(2,4,1,3,5)] .
  show "new_justified C P g i m" if "new_justified C P f i m" "f \<subseteq>\<^sub>m g" for f i m g
    using that(1) map_le_lookup [OF that(2)] vote_justified_mono [OF _ that(2)] unfolding new_justified_def by blast
qed

abbreviation new_run :: "crypto \<Rightarrow> (handoff_cert \<Rightarrow> bool) \<Rightarrow> committee \<Rightarrow> committee \<Rightarrow> bool" where
  "new_run C P \<equiv> (committee_step C NEW_WAL_MAGIC (new_connection C) (shows_only P))\<^sup>*\<^sup>*"

lemma new_vote_justified:
  assumes start: "committee_start C NEW_WAL_MAGIC faulty S0" and run: "new_run C P S0 S"
    and i: "i < HANDOFF_N" "i \<notin> faulty" and signed: "(i, new_vote_message x d i) \<in> hs_signed S"
  obtains cert where "P cert" "verify_handoff_cert_for_new_epoch C cert" "ho_status (hc_handoff cert) = STATUS_LOCKED"
    "durable C (hs_nodes S ! i) (choice_key_of (hc_handoff cert)) = Some (handoff_hash C (hc_handoff cert))"
    "ho_input (hc_handoff cert) = x" "ho_digest (hc_handoff cert) = d"
proof -
  note s0 = committee_start_ok [OF _ start, simplified]
  have "new_justified C P (durable C (hs_nodes S ! i)) i (new_vote_message x d i)"
    using new_members.run_signed [OF run s0(1,3)] s0(2,4) i signed by simp
  then show thesis
    using that unfolding new_justified_def vote_justified_def Let_def
    by (metis new_vote_is_no_activation new_vote_message_inj)
qed

end
