(* ===== verification/HandoffWire.thy ===== *)
theory HandoffWire
  imports Handoff
begin

text \<open>
  The byte format of the hand-off experiment (\<open>write_handoff\<close> to \<open>read_activation_cert\<close> of
  \<open>sec013/src/main.rs\<close>): what is written is read back from any stream that continues after it, and
  whatever is read was written in this format.
\<close>

section \<open>A format on a stream\<close>

locale stream_codec =
  fixes valid :: "'a \<Rightarrow> bool" and put :: "'a \<Rightarrow> u8 list" and get :: "'a stream_reader"
  assumes get_put: "valid v \<Longrightarrow> get (put v @ rest) = Some (v, rest)"
    and put_get: "get s = Some (v, rest) \<Longrightarrow> valid v \<and> s = put v @ rest"
begin

lemma exact: "get s = Some (v, rest) \<longleftrightarrow> valid v \<and> s = put v @ rest"
  using get_put put_get by blast

lemma get_put_nil: "valid v \<Longrightarrow> get (put v) = Some (v, [])"
  using get_put [of v "[]"] by simp

text \<open>A stream that ends inside the value is an error.\<close>

lemma truncated: "valid v \<Longrightarrow> k < length (put v) \<Longrightarrow> get (take k (put v)) = None"
proof (rule ccontr)
  assume v: "valid v" "k < length (put v)" and "get (take k (put v)) \<noteq> None"
  then obtain w rest where w: "valid w" "take k (put v) = put w @ rest"
    using put_get by fast
  then have "put v = put w @ rest @ drop k (put v)"
    by (metis append.assoc append_take_drop_id)
  then have "get (put v) = Some (w, rest @ drop k (put v))"
    using get_put [OF w(1)] by metis
  then show False
    using get_put_nil [OF v(1)] v(2) by simp
qed

lemma many_exact: "read_many n get s = Some (vs, rest) \<longleftrightarrow>
    length vs = n \<and> list_all valid vs \<and> s = concat (map put vs) @ rest"
proof (induction n arbitrary: s vs)
  case 0
  then show ?case
    by (auto simp: return_read_def)
next
  case (Suc n)
  show ?case
  proof (cases vs)
    case Nil
    then show ?thesis
      by (auto simp: bind_read_def return_read_def split: option.splits)
  next
    case (Cons w ws)
    have "read_many (Suc n) get s = Some (w # ws, rest) \<longleftrightarrow>
        (\<exists>s'. get s = Some (w, s') \<and> read_many n get s' = Some (ws, rest))"
      by (auto simp: bind_read_def return_read_def split: option.splits)
    then show ?thesis
      using Cons by (auto simp: exact Suc.IH)
  qed
qed

end

lemma bind_read_exact: "bind_read r f s = Some (w, rest) \<longleftrightarrow> (\<exists>v s'. r s = Some (v, s') \<and> f v s' = Some (w, rest))"
  by (auto simp: bind_read_def split: option.splits)

lemma return_read_exact: "return_read v s = Some (w, rest) \<longleftrightarrow> w = v \<and> rest = s"
  by (auto simp: return_read_def)

lemma read_n_exact: "read_n n s = Some (v, rest) \<longleftrightarrow> length v = n \<and> s = v @ rest"
  by (auto simp: read_n_def)

interpretation byte_codec: stream_codec "\<lambda>_. True" "\<lambda>b. [b]" read_byte
  by unfold_locales (auto simp: read_byte_def bind_read_exact return_read_exact read_n_exact length_Suc_conv)

interpretation word_codec: stream_codec "\<lambda>_. True" to_le64 read_u64
  by unfold_locales (auto simp: read_u64_def bind_read_exact return_read_exact read_n_exact to_from_le64)

lemma read_arr_exact: "read_arr s = Some (a, rest) \<longleftrightarrow> s = array_bytes a @ rest"
  by (auto simp: read_arr_def bind_read_exact return_read_exact read_n_exact mk_array_exact)

lemma stream_read:
  "read_byte (b # s) = Some (b, s)"
  "read_u64 (to_le64 w @ s) = Some (w, s)"
  "read_arr (array_bytes a @ s) = Some (a, s)"
  "read_arr (array_bytes a) = Some (a, [])"
  by (simp_all add: byte_codec.exact word_codec.exact read_arr_exact)

lemmas stream_exact = bind_read_exact return_read_exact byte_codec.exact word_codec.exact read_arr_exact

section \<open>Hand-offs and certificates\<close>

interpretation handoff_stream: stream_codec "\<lambda>_. True" write_handoff read_handoff
proof
  show "read_handoff (write_handoff h @ rest) = Some (h, rest)" for h rest
    by (cases h; cases "ho_input h") (simp add: read_handoff_def write_handoff_def stream_exact)
  show "True \<and> s = write_handoff h @ rest" if "read_handoff s = Some (h, rest)" for s h rest
    using that by (auto simp: read_handoff_def write_handoff_def stream_exact)
qed

lemma unat_byte: "n < 256 \<Longrightarrow> unat (of_nat n :: u8) = n"
  by (simp add: unat_of_nat)

interpretation share_codec: stream_codec "\<lambda>s. fst s < 256" "\<lambda>s. write_share (fst s) (snd s)" read_share
proof
  show "read_share (write_share (fst v) (snd v) @ rest) = Some (v, rest)" if "fst v < 256" for v rest
    using that by (cases v) (simp add: read_share_def write_share_def stream_exact unat_byte)
  show "fst v < 256 \<and> s = write_share (fst v) (snd v) @ rest" if "read_share s = Some (v, rest)" for s v rest
    using that unsigned_less [where 'b = 8 and 'a = nat] by (auto simp: read_share_def write_share_def stream_exact)
qed

lemma count_byte: "unat b \<le> HANDOFF_N \<and> length xs = unat b \<longleftrightarrow> b = of_nat (length xs) \<and> length xs \<le> HANDOFF_N" for b :: u8
  by (auto simp: HANDOFF_N_def unat_byte)

definition sendable_cert :: "handoff_cert \<Rightarrow> bool" where
  "sendable_cert cert \<longleftrightarrow> length (hc_shares cert) \<le> HANDOFF_N \<and> (\<forall>s \<in> set (hc_shares cert). os_index s < 256)"

definition sendable_activation :: "activation_cert \<Rightarrow> bool" where
  "sendable_activation cert \<longleftrightarrow> length (act_shares cert) \<le> HANDOFF_N \<and> (\<forall>s \<in> set (act_shares cert). as_index s < 256)"

lemma map_inverse:
  assumes "\<And>x. g (f x) = x" and "\<And>y. f (g y) = y"
  shows "map f xs = ys \<longleftrightarrow> xs = map g ys"
  by (auto simp: comp_def assms)

lemma old_share_pairs:
  "map (\<lambda>(i, sig). \<lparr>os_index = i, os_signature = sig\<rparr>) ps = shares \<longleftrightarrow> ps = map (\<lambda>s. (os_index s, os_signature s)) shares"
  by (rule map_inverse) (auto split: prod.splits)

lemma activation_share_pairs:
  "map (\<lambda>(i, sig). \<lparr>as_index = i, as_signature = sig\<rparr>) ps = shares \<longleftrightarrow> ps = map (\<lambda>s. (as_index s, as_signature s)) shares"
  by (rule map_inverse) (auto split: prod.splits)

lemma counted_shares:
  "bind_read read_byte (\<lambda>n. if unat n > HANDOFF_N then (\<lambda>s. None)
      else bind_read (read_many (unat n) read_share) (\<lambda>ps. return_read (F ps))) s = Some (v, rest) \<longleftrightarrow>
    (\<exists>ps. length ps \<le> HANDOFF_N \<and> (\<forall>p \<in> set ps. fst p < 256) \<and> v = F ps \<and>
      s = of_nat (length ps) # concat (map (\<lambda>p. write_share (fst p) (snd p)) ps) @ rest)" (is "?read \<longleftrightarrow> ?wrote")
proof -
  have "?read \<longleftrightarrow> (\<exists>n s' ps. s = n # s' \<and> unat n \<le> HANDOFF_N \<and> read_many (unat n) read_share s' = Some (ps, rest) \<and> v = F ps)"
  proof (cases s)
    case Nil
    then show ?thesis
      by (simp add: bind_read_exact [of read_byte] byte_codec.exact)
  next
    case (Cons n s')
    have "read_byte (n # s') = Some (n, s')"
      by (simp add: byte_codec.exact)
    then show ?thesis
      using Cons by (auto simp: bind_read_def return_read_def split: option.splits)
  qed
  also have "\<dots> \<longleftrightarrow> (\<exists>n s' ps. s = n # s' \<and> (unat n \<le> HANDOFF_N \<and> length ps = unat n) \<and> (\<forall>p \<in> set ps. fst p < 256) \<and>
      s' = concat (map (\<lambda>p. write_share (fst p) (snd p)) ps) @ rest \<and> v = F ps)"
    by (auto simp: share_codec.many_exact list_all_iff)
  also have "\<dots> \<longleftrightarrow> ?wrote"
    unfolding count_byte by auto
  finally show ?thesis .
qed

lemma write_old_shares:
  "concat (map (\<lambda>p. write_share (fst p) (snd p)) (map (\<lambda>s. (os_index s, os_signature s)) shares)) =
    concat (map (\<lambda>s. write_share (os_index s) (os_signature s)) shares)"
  "concat (map (\<lambda>p. write_share (fst p) (snd p)) (map (\<lambda>s. (as_index s, as_signature s)) shares')) =
    concat (map (\<lambda>s. write_share (as_index s) (as_signature s)) shares')"
  by (simp_all add: comp_def)

lemma read_handoff_cert_exact:
  "read_handoff_cert s = Some (cert, rest) \<longleftrightarrow> sendable_cert cert \<and> s = write_handoff_cert cert @ rest"
proof -
  obtain h shares where cert: "cert = \<lparr>hc_handoff = h, hc_shares = shares\<rparr>"
    by (cases cert) auto
  let ?ps = "map (\<lambda>s. (os_index s, os_signature s)) shares"
  have "read_handoff_cert s = Some (cert, rest) \<longleftrightarrow>
      (\<exists>s'. s = write_handoff h @ s' \<and> length ?ps \<le> HANDOFF_N \<and> (\<forall>p \<in> set ?ps. fst p < 256) \<and>
        s' = of_nat (length ?ps) # concat (map (\<lambda>p. write_share (fst p) (snd p)) ?ps) @ rest)"
    unfolding read_handoff_cert_def cert bind_read_exact [of read_handoff] handoff_stream.exact counted_shares
      handoff_cert.ext_inject eq_commute [of shares] old_share_pairs
    by blast
  then show ?thesis
    unfolding write_old_shares by (auto simp: sendable_cert_def write_handoff_cert_def cert)
qed

lemma read_activation_cert_exact:
  "read_activation_cert s = Some (cert, rest) \<longleftrightarrow> sendable_activation cert \<and> s = write_activation_cert cert @ rest"
proof -
  obtain h shares where cert: "cert = \<lparr>act_handoff_hash = h, act_shares = shares\<rparr>"
    by (cases cert) auto
  let ?ps = "map (\<lambda>s. (as_index s, as_signature s)) shares"
  have "read_activation_cert s = Some (cert, rest) \<longleftrightarrow>
      (\<exists>s'. s = array_bytes h @ s' \<and> length ?ps \<le> HANDOFF_N \<and> (\<forall>p \<in> set ?ps. fst p < 256) \<and>
        s' = of_nat (length ?ps) # concat (map (\<lambda>p. write_share (fst p) (snd p)) ?ps) @ rest)"
    unfolding read_activation_cert_def cert bind_read_exact [of read_arr] read_arr_exact counted_shares
      activation_cert.ext_inject eq_commute [of shares] activation_share_pairs
    by blast
  then show ?thesis
    unfolding write_old_shares by (auto simp: sendable_activation_def write_activation_cert_def cert)
qed

interpretation handoff_cert_stream: stream_codec sendable_cert write_handoff_cert read_handoff_cert
  by unfold_locales (simp_all add: read_handoff_cert_exact)

interpretation activation_cert_stream: stream_codec sendable_activation write_activation_cert read_activation_cert
  by unfold_locales (simp_all add: read_activation_cert_exact)

end
