(* ===== verification/HandoffProgress.thy ===== *)
theory HandoffProgress
  imports HandoffSafety HandoffWire
begin

text \<open>
  A hand-off completes: when the asked members are up, have chosen nothing else and the network
  delivers, the collectors return a certificate, an activation and the votes that verify.
\<close>

definition fine_link :: handoff_link where
  "fine_link = \<lparr>lk_connected = True, lk_request = None, lk_log = None, lk_reply = None\<rparr>"

abbreviation ask_members :: "nat list \<Rightarrow> (nat \<times> handoff_link) list" where
  "ask_members members \<equiv> map (\<lambda>i. (i, fine_link)) members"

definition chosen :: "crypto \<Rightarrow> handoff \<Rightarrow> nat \<Rightarrow> choice_node \<Rightarrow> bool" where
  "chosen C h i node \<longleftrightarrow> cn_up node \<and> cn_index node = i \<and> i < HANDOFF_N \<and>
    (case cn_store node of None \<Rightarrow> True | Some st \<Rightarrow> get_choice st h = Some (handoff_hash C h))"

definition ready :: "crypto \<Rightarrow> handoff \<Rightarrow> nat \<Rightarrow> choice_node \<Rightarrow> bool" where
  "ready C h i node \<longleftrightarrow> cn_up node \<and> cn_index node = i \<and> i < HANDOFF_N \<and>
    (case cn_store node of None \<Rightarrow> True
     | Some st \<Rightarrow> get_choice st h = None \<or> get_choice st h = Some (handoff_hash C h))"

lemma ready_index: "ready C h i node \<Longrightarrow> cn_index node = i \<and> i < HANDOFF_N \<and> i < 256 \<and> cn_up node"
  by (simp add: ready_def HANDOFF_N_def)

lemma ready_permit:
  assumes "ready C h i node"
  obtains node' where "permit C None h (handoff_hash C h) node = (Some True, node')" "chosen C h i node'"
proof (cases "cn_store node")
  case None
  then show thesis
    using that assms by (simp add: permit_def ready_def chosen_def)
next
  case (Some st)
  show thesis
  proof (cases "get_choice st h")
    case None
    let ?st = "st\<lparr>cs_file := cs_file st @ encode_choice C (cs_magic st) h (handoff_hash C h),
      cs_choices := (cs_choices st)(choice_key_of h \<mapsto> handoff_hash C h)\<rparr>"
    show thesis
      by (rule that [of "node\<lparr>cn_store := Some ?st\<rparr>"])
        (use Some None assms in \<open>simp_all add: permit_def store_choose_def get_choice_def ready_def chosen_def\<close>)
  next
    case chose: (Some d)
    show thesis
      by (rule that [of "node"])
        (use Some chose assms in \<open>simp_all add: permit_def store_choose_def ready_def chosen_def\<close>)
  qed
qed

lemma read_granted_share:
  assumes "i < 256"
  shows "read_granted read_share ([1, of_nat i] @ array_bytes sig) = Some ((i, sig), [])"
proof -
  have "read_byte ([1, of_nat i] @ array_bytes sig) = Some (1, write_share i sig)"
    by (simp add: byte_codec.exact write_share_def)
  then show ?thesis
    using share_codec.get_put_nil [of "(i, sig)"] assms by (simp add: read_granted_def bind_read_def)
qed

lemma old_connection_ready:
  assumes ready: "ready C h i node" and status: "ho_status h = STATUS_LOCKED \<or> ho_status h = STATUS_FINAL"
  obtains node' where "chosen C h i node'"
    "old_connection C None None (OP_OLD_SIGN # write_handoff h) node =
      ([1, of_nat i] @ array_bytes (sign_with C (old_key C i) (old_share_message (handoff_hash C h) i)),
       [old_share_message (handoff_hash C h) i], node')"
proof -
  obtain node' where p: "permit C None h (handoff_hash C h) node = (Some True, node')" "chosen C h i node'"
    using ready_permit [OF ready] .
  have "old_connection C None None (OP_OLD_SIGN # write_handoff h) node =
      ([1, of_nat i] @ array_bytes (sign_with C (old_key C i) (old_share_message (handoff_hash C h) i)),
       [old_share_message (handoff_hash C h) i], node')"
    using p(1) ready_index [OF ready] status handoff_stream.get_put_nil [of h]
    by (auto simp: old_connection_def OP_OLD_SIGN_def OP_PING_def OP_SHUTDOWN_def old_sign_request_def send_signed_def Let_def)
  then show thesis
    by (rule that [OF p(2)])
qed

lemma rpc_old_sign_ready:
  assumes sigs: "signatures_verify C" and ready: "ready C h i node"
    and status: "ho_status h = STATUS_LOCKED \<or> ho_status h = STATUS_FINAL"
  obtains sh ms node' where "rpc_old_sign C h fine_link node = (Some sh, ms, node')" "chosen C h i node'"
    "os_index sh = i" "verify_old_share C h sh"
proof -
  let ?m = "old_share_message (handoff_hash C h) i"
  let ?sh = "\<lparr>os_index = i, os_signature = sign_with C (old_key C i) ?m\<rparr>"
  obtain node' where p: "chosen C h i node'"
    "old_connection C None None (OP_OLD_SIGN # write_handoff h) node =
      ([1, of_nat i] @ array_bytes (sign_with C (old_key C i) ?m), [?m], node')"
    by (rule old_connection_ready [OF ready status])
  note i = ready_index [OF ready]
  have ok: "verify_old_share C h ?sh"
    using i signatures_verifyD [OF sigs] by (simp add: verify_old_share_def)
  have "rpc_old_sign C h fine_link node = (Some ?sh, [?m], node')"
    using i p(2) ok read_granted_share [of i] by (simp add: rpc_old_sign_def call_node_def fine_link_def accept_old_share_def Let_def)
  then show thesis
    using that p(1) ok by simp
qed

lemma new_activate_ready:
  assumes ready: "ready C (hc_handoff cert) i node"
    and cert: "verify_handoff_cert_for_new_epoch C cert" "sendable_cert cert"
  obtains node' where "chosen C (hc_handoff cert) i node'"
    "new_connection C None None (OP_NEW_ACTIVATE # write_handoff_cert cert) node =
      ([1, of_nat i] @ array_bytes (sign_with C (new_key C i) (activation_message (handoff_hash C (hc_handoff cert)) i)),
       [activation_message (handoff_hash C (hc_handoff cert)) i], node')"
proof -
  obtain node' where p: "permit C None (hc_handoff cert) (handoff_hash C (hc_handoff cert)) node = (Some True, node')"
    "chosen C (hc_handoff cert) i node'"
    using ready_permit [OF ready] .
  have "new_connection C None None (OP_NEW_ACTIVATE # write_handoff_cert cert) node =
      ([1, of_nat i] @ array_bytes (sign_with C (new_key C i) (activation_message (handoff_hash C (hc_handoff cert)) i)),
       [activation_message (handoff_hash C (hc_handoff cert)) i], node')"
    using p(1) ready_index [OF ready] cert handoff_cert_stream.get_put_nil [OF cert(2)]
    by (simp add: new_connection_def OP_NEW_ACTIVATE_def OP_PING_def OP_SHUTDOWN_def new_activate_request_def send_signed_def Let_def)
  then show thesis
    by (rule that [OF p(2)])
qed

lemma rpc_activate_ready:
  assumes sigs: "signatures_verify C" and ready: "ready C (hc_handoff cert) i node"
    and cert: "verify_handoff_cert_for_new_epoch C cert" "sendable_cert cert"
  obtains sh ms node' where "rpc_activate C cert fine_link node = (Some sh, ms, node')" "chosen C (hc_handoff cert) i node'"
    "as_index sh = i" "verify_activation_share C (handoff_hash C (hc_handoff cert)) sh"
proof -
  let ?m = "activation_message (handoff_hash C (hc_handoff cert)) i"
  let ?sh = "\<lparr>as_index = i, as_signature = sign_with C (new_key C i) ?m\<rparr>"
  obtain node' where p: "chosen C (hc_handoff cert) i node'"
    "new_connection C None None (OP_NEW_ACTIVATE # write_handoff_cert cert) node =
      ([1, of_nat i] @ array_bytes (sign_with C (new_key C i) ?m), [?m], node')"
    by (rule new_activate_ready [OF ready cert])
  note i = ready_index [OF ready]
  have ok: "verify_activation_share C (handoff_hash C (hc_handoff cert)) ?sh"
    using i signatures_verifyD [OF sigs] by (simp add: verify_activation_share_def)
  have "rpc_activate C cert fine_link node = (Some ?sh, [?m], node')"
    using p(2) i ok read_granted_share [of i]
    by (simp add: rpc_activate_def call_node_def fine_link_def accept_activation_share_def Let_def)
  then show thesis
    using that p(1) ok by simp
qed

lemma read_granted_vote:
  assumes "i < 256"
  shows "read_granted (bind_read read_byte (\<lambda>index. bind_read read_arr (\<lambda>got. bind_read read_arr (\<lambda>sig.
        return_read \<lparr>nv_index = unat index, nv_digest = got, nv_signature = sig\<rparr>))))
      ([1, of_nat i] @ array_bytes d @ array_bytes sig) = Some (\<lparr>nv_index = i, nv_digest = d, nv_signature = sig\<rparr>, [])"
  using assms by (simp add: read_granted_def bind_read_def return_read_def unat_byte stream_read)

definition vote_request :: "handoff_cert \<Rightarrow> activation_cert \<Rightarrow> digest \<Rightarrow> u8 list" where
  "vote_request cert activation d = OP_NEW_VOTE # write_handoff_cert cert @ write_activation_cert activation @ array_bytes d"

lemma read_vote_request_sent:
  assumes "sendable_cert cert" and "sendable_activation activation"
  shows "read_vote_request (write_handoff_cert cert @ write_activation_cert activation @ array_bytes d) =
    Some ((cert, activation, d), [])"
  using assms by (simp add: read_vote_request_def stream_exact handoff_cert_stream.exact activation_cert_stream.exact)

lemma new_vote_ready:
  assumes chosen: "chosen C (hc_handoff cert) i node"
    and act: "verify_activation_cert C activation cert" "sendable_cert cert" "sendable_activation activation"
    and status: "ho_status (hc_handoff cert) = STATUS_LOCKED" and d: "d = ho_digest (hc_handoff cert)"
  shows "new_connection C None None (vote_request cert activation d) node =
    ([1, of_nat i] @ array_bytes d @
       array_bytes (sign_with C (new_key C i) (new_vote_message (ho_input (hc_handoff cert)) d i)),
     [new_vote_message (ho_input (hc_handoff cert)) d i], node)"
proof -
  have "may_vote C (hc_handoff cert) d node"
    using chosen status d by (auto simp: may_vote_def chosen_def STATUS_LOCKED_def STATUS_FINAL_def split: option.splits)
  then show ?thesis
    using chosen act(1) read_vote_request_sent [OF act(2,3), of d]
    by (simp add: vote_request_def new_connection_def OP_NEW_VOTE_def OP_NEW_ACTIVATE_def OP_PING_def OP_SHUTDOWN_def
      new_vote_request_def send_signed_def chosen_def Let_def)
qed

lemma rpc_new_vote_ready:
  assumes sigs: "signatures_verify C" and chosen: "chosen C (hc_handoff cert) i node"
    and act: "verify_activation_cert C activation cert" "sendable_cert cert" "sendable_activation activation"
    and status: "ho_status (hc_handoff cert) = STATUS_LOCKED" and d: "d = ho_digest (hc_handoff cert)"
  obtains v ms node' where "rpc_new_vote C cert activation d fine_link node = (Some v, ms, node')" "nv_index v = i"
    "verify_new_vote C v (ho_input (hc_handoff cert)) d"
proof -
  let ?x = "ho_input (hc_handoff cert)"
  let ?m = "new_vote_message ?x d i"
  let ?v = "\<lparr>nv_index = i, nv_digest = d, nv_signature = sign_with C (new_key C i) ?m\<rparr>"
  have i: "cn_index node = i" "i < HANDOFF_N" "i < 256" "cn_up node"
    using chosen by (simp_all add: chosen_def HANDOFF_N_def)
  have ok: "verify_new_vote C ?v ?x d"
    using i signatures_verifyD [OF sigs] by (simp add: verify_new_vote_def)
  have "rpc_new_vote C cert activation d fine_link node = (Some ?v, [?m], node)"
    using new_vote_ready [OF chosen act status d] ok read_granted_vote [OF i(3), of d "nv_signature ?v"]
    by (simp add: rpc_new_vote_def vote_request_def call_node_def fine_link_def accept_new_vote_def)
  then show thesis
    using that ok by simp
qed

section \<open>The collectors\<close>

lemma ask_nodes_all:
  assumes "distinct members" and "\<And>i. i \<in> set members \<Longrightarrow> i < length nodes"
    and "\<And>i. i \<in> set members \<Longrightarrow> \<exists>a ms node'. rpc fine_link (nodes ! i) = (Some a, ms, node') \<and> good i a node'"
  shows "\<exists>answers nodes'. ask_nodes rpc (ask_members members) nodes = Some (answers, nodes') \<and>
    length nodes' = length nodes \<and> list_all2 (\<lambda>i a. good i a (nodes' ! i)) members answers \<and>
    (\<forall>j. j \<notin> set members \<longrightarrow> nodes' ! j = nodes ! j)"
  using assms
proof (induction members arbitrary: nodes)
  case (Cons i members)
  obtain a ms node' where a: "rpc fine_link (nodes ! i) = (Some a, ms, node')" "good i a node'"
    using Cons.prems(3) [of i, OF list.set_intros(1)] by blast
  have "\<exists>answers nodes'. ask_nodes rpc (ask_members members) (nodes[i := node']) = Some (answers, nodes') \<and>
    length nodes' = length nodes \<and> list_all2 (\<lambda>i a. good i a (nodes' ! i)) members answers \<and>
    (\<forall>j. j \<notin> set members \<longrightarrow> nodes' ! j = nodes[i := node'] ! j)"
  proof -
    have same: "nodes[i := node'] ! j = nodes ! j" if "j \<in> set members" for j
      using that Cons.prems(1) by (cases "i = j") auto
    have "distinct members" "\<And>j. j \<in> set members \<Longrightarrow> j < length (nodes[i := node'])"
      using Cons.prems(1,2) by simp_all
    moreover have "\<exists>a ms node''. rpc fine_link (nodes[i := node'] ! j) = (Some a, ms, node'') \<and> good j a node''"
      if "j \<in> set members" for j
      using Cons.prems(3) [of j] that unfolding same [OF that] by simp
    ultimately show ?thesis
      using Cons.IH [of "nodes[i := node']"] unfolding length_list_update by blast
  qed
  then obtain answers nodes' where r: "ask_nodes rpc (ask_members members) (nodes[i := node']) = Some (answers, nodes')"
    "length nodes' = length nodes" "list_all2 (\<lambda>i a. good i a (nodes' ! i)) members answers"
    "\<forall>j. j \<notin> set members \<longrightarrow> nodes' ! j = nodes[i := node'] ! j"
    by blast
  have "nodes' ! i = node'"
    using r(4) Cons.prems(1,2) by simp
  then have "list_all2 (\<lambda>i a. good i a (nodes' ! i)) (i # members) (a # answers)"
    using r(3) a(2) by simp
  moreover have "ask_nodes rpc (ask_members (i # members)) nodes = Some (a # answers, nodes')"
    using a(1) r(1) Cons.prems(2) by (simp add: not_le)
  moreover have "\<forall>j. j \<notin> set (i # members) \<longrightarrow> nodes' ! j = nodes ! j"
    using r(4) by simp
  ultimately show ?case
    using r(2) by blast
qed simp

lemma first_by_distinct: "distinct (map key xs) \<Longrightarrow> first_by key xs = xs"
proof (induction xs)
  case (Cons x xs)
  then have "filter (\<lambda>y. key y \<noteq> key x) xs = xs"
    by (fastforce simp: filter_id_conv image_iff)
  then show ?case
    using Cons by simp
qed simp

lemma list_all2_map_key: "list_all2 (\<lambda>i a. key a = i \<and> P i a) members xs \<Longrightarrow> map key xs = members"
  by (induction rule: list_all2_induct) auto

lemma answers_distinct:
  assumes "list_all2 (\<lambda>i a. key a = i \<and> P i a) members answers" and "distinct members" and "mset (order (first_by key answers)) = mset (first_by key answers)"
  shows "set (order (first_by key answers)) = set answers" and "length (order (first_by key answers)) = length members"
    and "key ` set answers = set members" and "first_by key answers = answers"
proof -
  have keys: "map key answers = members"
    using list_all2_map_key [OF assms(1)] .
  then show first: "first_by key answers = answers"
    using first_by_distinct [of key answers] assms(2) by simp
  show "set (order (first_by key answers)) = set answers"
    using mset_eq_setD [OF assms(3)] first by simp
  show "length (order (first_by key answers)) = length members"
    using mset_eq_length [OF assms(3)] keys first by (metis length_map)
  show "key ` set answers = set members"
    using keys by (metis list.set_map)
qed

lemma members_bound:
  assumes "distinct members" and "\<And>i. i \<in> set members \<Longrightarrow> i < HANDOFF_N"
  shows "length members \<le> HANDOFF_N"
proof -
  have "card (set members) \<le> card {..<HANDOFF_N}"
    by (rule card_mono) (use assms(2) in auto)
  then show ?thesis
    using assms(1) by (simp add: distinct_card)
qed

lemma collect_old_ready:
  assumes sigs: "signatures_verify C" and order: "\<And>xs. mset (order xs) = mset xs"
    and members: "distinct members" "\<And>i. i \<in> set members \<Longrightarrow> i < length nodes \<and> ready C h i (nodes ! i)"
    and status: "ho_status h = STATUS_LOCKED \<or> ho_status h = STATUS_FINAL"
  obtains cert nodes' where "collect_old C order h (ask_members members) nodes = Some (cert, nodes')" "hc_handoff cert = h"
    "os_index ` set (hc_shares cert) = set members" "list_all (verify_old_share C h) (hc_shares cert)" "sendable_cert cert"
proof -
  let ?good = "\<lambda>i sh node'. os_index sh = i \<and> verify_old_share C h sh"
  have "\<exists>answers nodes'. ask_nodes (rpc_old_sign C h) (ask_members members) nodes = Some (answers, nodes') \<and>
      length nodes' = length nodes \<and> list_all2 (\<lambda>i a. ?good i a (nodes' ! i)) members answers \<and>
      (\<forall>j. j \<notin> set members \<longrightarrow> nodes' ! j = nodes ! j)"
  proof (rule ask_nodes_all [OF members(1)])
    show "\<exists>a ms node'. rpc_old_sign C h fine_link (nodes ! i) = (Some a, ms, node') \<and> ?good i a node'"
      if "i \<in> set members" for i
      using rpc_old_sign_ready [OF sigs _ status] members(2) [OF that] by metis
  qed (use members(2) in blast)
  then obtain answers nodes' where r: "ask_nodes (rpc_old_sign C h) (ask_members members) nodes = Some (answers, nodes')"
    "list_all2 (\<lambda>i a. os_index a = i \<and> verify_old_share C h a) members answers"
    by blast
  let ?cert = "\<lparr>hc_handoff = h, hc_shares = order (first_by os_index answers)\<rparr>"
  note d = answers_distinct [where key = os_index and order = order, OF r(2) members(1) order]
  have ok: "list_all (verify_old_share C h) answers"
    using r(2) by (induction rule: list_all2_induct) auto
  have "sendable_cert ?cert"
    using d(1,2) members_bound [OF members(1)] members(2) ok
    by (auto simp: sendable_cert_def ready_def list_all_iff verify_old_share_def HANDOFF_N_def)
  then show thesis
    using that [of ?cert nodes'] r(1) d ok by (simp add: collect_old_def list_all_iff)
qed

lemma collect_activation_ready:
  assumes sigs: "signatures_verify C" and order: "\<And>xs. mset (order xs) = mset xs"
    and members: "distinct members" "\<And>i. i \<in> set members \<Longrightarrow> i < length nodes \<and> ready C (hc_handoff cert) i (nodes ! i)"
    and cert: "verify_handoff_cert_for_new_epoch C cert" "sendable_cert cert"
  obtains act nodes' where "collect_activation C order cert (ask_members members) nodes = Some (act, nodes')"
    "act_handoff_hash act = handoff_hash C (hc_handoff cert)" "as_index ` set (act_shares act) = set members"
    "list_all (verify_activation_share C (act_handoff_hash act)) (act_shares act)" "sendable_activation act"
    "length nodes' = length nodes" "\<And>i. i \<in> set members \<Longrightarrow> chosen C (hc_handoff cert) i (nodes' ! i)"
proof -
  let ?h = "handoff_hash C (hc_handoff cert)"
  let ?good = "\<lambda>i sh node'. as_index sh = i \<and> (verify_activation_share C ?h sh \<and> chosen C (hc_handoff cert) i node')"
  have "\<exists>answers nodes'. ask_nodes (rpc_activate C cert) (ask_members members) nodes = Some (answers, nodes') \<and>
      length nodes' = length nodes \<and> list_all2 (\<lambda>i a. ?good i a (nodes' ! i)) members answers \<and>
      (\<forall>j. j \<notin> set members \<longrightarrow> nodes' ! j = nodes ! j)"
  proof (rule ask_nodes_all [OF members(1)])
    show "\<exists>a ms node'. rpc_activate C cert fine_link (nodes ! i) = (Some a, ms, node') \<and> ?good i a node'"
      if "i \<in> set members" for i
      using rpc_activate_ready [OF sigs _ cert] members(2) [OF that] by metis
  qed (use members(2) in blast)
  then obtain answers nodes' where r: "ask_nodes (rpc_activate C cert) (ask_members members) nodes = Some (answers, nodes')"
    "length nodes' = length nodes"
    "list_all2 (\<lambda>i a. as_index a = i \<and> (verify_activation_share C ?h a \<and> chosen C (hc_handoff cert) i (nodes' ! i))) members answers"
    by blast
  let ?act = "\<lparr>act_handoff_hash = ?h, act_shares = order (first_by as_index answers)\<rparr>"
  note d = answers_distinct [where key = as_index and order = order, OF r(3) members(1) order]
  have ok: "list_all (verify_activation_share C ?h) answers" "list_all (\<lambda>i. chosen C (hc_handoff cert) i (nodes' ! i)) members"
    using r(3) by (induction rule: list_all2_induct) auto
  have "sendable_activation ?act"
    using d(1,2) members_bound [OF members(1)] members(2) ok(1)
    by (auto simp: sendable_activation_def ready_def list_all_iff verify_activation_share_def HANDOFF_N_def)
  then show thesis
    using that [of ?act nodes'] r(1,2) d ok by (simp add: collect_activation_def list_all_iff)
qed

lemma count_votes_ready:
  assumes sigs: "signatures_verify C" and members: "distinct members"
    "\<And>i. i \<in> set members \<Longrightarrow> i < length nodes \<and> chosen C (hc_handoff cert) i (nodes ! i)"
    and act: "verify_activation_cert C activation cert" "sendable_cert cert" "sendable_activation activation"
    and status: "ho_status (hc_handoff cert) = STATUS_LOCKED" and d: "d = ho_digest (hc_handoff cert)"
  shows "\<exists>nodes'. count_new_votes C cert activation d (ask_members members) nodes = Some (length members, nodes')"
proof -
  let ?good = "\<lambda>i v node'. nv_index v = i \<and> True"
  have "\<exists>answers nodes'. ask_nodes (rpc_new_vote C cert activation d) (ask_members members) nodes = Some (answers, nodes') \<and>
      length nodes' = length nodes \<and> list_all2 (\<lambda>i a. ?good i a (nodes' ! i)) members answers \<and>
      (\<forall>j. j \<notin> set members \<longrightarrow> nodes' ! j = nodes ! j)"
  proof (rule ask_nodes_all [OF members(1)])
    show "\<exists>a ms node'. rpc_new_vote C cert activation d fine_link (nodes ! i) = (Some a, ms, node') \<and> ?good i a node'"
      if "i \<in> set members" for i
      using rpc_new_vote_ready [OF sigs _ act status d] members(2) [OF that] by metis
  qed (use members(2) in blast)
  then obtain answers nodes' where r: "ask_nodes (rpc_new_vote C cert activation d) (ask_members members) nodes = Some (answers, nodes')"
    "list_all2 (\<lambda>i a. nv_index a = i \<and> True) members answers"
    by blast
  have "nv_index ` set answers = set members"
    using list_all2_map_key [OF r(2)] by (metis list.set_map)
  then show ?thesis
    using r(1) members(1) by (simp add: count_new_votes_def distinct_card)
qed

section \<open>Complete runs of the two committees\<close>

definition fresh_committee :: "crypto \<Rightarrow> u8 list \<Rightarrow> nat set \<Rightarrow> committee" where
  "fresh_committee C magic faulty =
    \<lparr>hs_nodes = map (\<lambda>i. \<lparr>cn_index = i, cn_byzantine = (i \<in> faulty),
        cn_store = (if i \<in> faulty then None else Some \<lparr>cs_magic = magic, cs_file = [], cs_choices = Map.empty\<rparr>),
        cn_up = True\<rparr>) [0..<HANDOFF_N], hs_signed = {}\<rparr>"

lemma fresh_committee_start: "committee_start C magic faulty (fresh_committee C magic faulty)"
  by (simp add: committee_start_def fresh_committee_def start_choice_node_def open_choices_def chunks_exact_one CHOICE_RECORD_def)

lemma fresh_ready: "i < HANDOFF_N \<Longrightarrow> ready C h i (hs_nodes (fresh_committee C magic faulty) ! i)"
  by (simp add: ready_def fresh_committee_def get_choice_def)

lemma length_fresh [simp]: "length (hs_nodes (fresh_committee C magic faulty)) = HANDOFF_N"
  by (simp add: fresh_committee_def)

text \<open>A request answered by every member of a list, one after the other.\<close>

lemma committee_visits:
  assumes "distinct members" and "\<And>i. i \<in> set members \<Longrightarrow> i < length (hs_nodes S) \<and>
      (\<exists>reply node'. serve None None request (hs_nodes S ! i) = (reply, [m i], node') \<and> good i node')"
    and "arrives request"
  shows "\<exists>S'. (committee_step C magic serve arrives)\<^sup>*\<^sup>* S S' \<and> hs_signed S' = hs_signed S \<union> (\<lambda>i. (i, m i)) ` set members \<and>
    length (hs_nodes S') = length (hs_nodes S) \<and> (\<forall>i \<in> set members. good i (hs_nodes S' ! i)) \<and>
    (\<forall>i. i \<notin> set members \<longrightarrow> hs_nodes S' ! i = hs_nodes S ! i)"
  using assms
proof (induction members arbitrary: S)
  case (Cons i members)
  obtain reply node' where r: "serve None None request (hs_nodes S ! i) = (reply, [m i], node')" "good i node'"
    and i: "i < length (hs_nodes S)" "i \<notin> set members"
    using Cons.prems(1) Cons.prems(2) [of i, OF list.set_intros(1)] by auto
  let ?S = "\<lparr>hs_nodes = (hs_nodes S)[i := node'], hs_signed = hs_signed S \<union> {i} \<times> set [m i]\<rparr>"
  have step: "committee_step C magic serve arrives S ?S"
    by (rule committee_step.connection [where serve = serve and arrives = arrives and S = S and i = i, OF i(1) Cons.prems(3) r(1)])
  have other: "hs_nodes ?S ! j = hs_nodes S ! j" if "j \<noteq> i" for j
    using that by simp
  have "j < length (hs_nodes ?S) \<and> (\<exists>reply node'. serve None None request (hs_nodes ?S ! j) = (reply, [m j], node') \<and> good j node')"
    if "j \<in> set members" for j
  proof -
    have "j \<noteq> i"
      using that i(2) by blast
    then show ?thesis
      using Cons.prems(2) [of j] that unfolding other [OF \<open>j \<noteq> i\<close>] by simp
  qed
  then obtain S' where S': "(committee_step C magic serve arrives)\<^sup>*\<^sup>* ?S S'"
    "hs_signed S' = hs_signed ?S \<union> (\<lambda>i. (i, m i)) ` set members"
    "length (hs_nodes S') = length (hs_nodes ?S)" "\<forall>j \<in> set members. good j (hs_nodes S' ! j)"
    "\<forall>j. j \<notin> set members \<longrightarrow> hs_nodes S' ! j = hs_nodes ?S ! j"
    using Cons.IH [of ?S] Cons.prems(1,3) by auto
  have "good i (hs_nodes S' ! i)"
    using S'(5) i r(2) by simp
  then have "\<forall>j \<in> set (i # members). good j (hs_nodes S' ! j)"
    using S'(4) by simp
  moreover have "hs_signed S' = hs_signed S \<union> (\<lambda>i. (i, m i)) ` set (i # members)"
    using S'(2) by auto
  moreover have "\<forall>j. j \<notin> set (i # members) \<longrightarrow> hs_nodes S' ! j = hs_nodes S ! j"
    using S'(5) by simp
  ultimately show ?case
    using converse_rtranclp_into_rtranclp [of "committee_step C magic serve arrives", OF step S'(1)] S'(3) by auto
qed auto

definition signed_handoff :: "crypto \<Rightarrow> handoff \<Rightarrow> nat list \<Rightarrow> handoff_cert" where
  "signed_handoff C h members = \<lparr>hc_handoff = h,
    hc_shares = map (\<lambda>i. \<lparr>os_index = i, os_signature = sign_with C (old_key C i) (old_share_message (handoff_hash C h) i)\<rparr>) members\<rparr>"

definition signed_activation :: "crypto \<Rightarrow> handoff \<Rightarrow> nat list \<Rightarrow> activation_cert" where
  "signed_activation C h members = \<lparr>act_handoff_hash = handoff_hash C h,
    act_shares = map (\<lambda>i. \<lparr>as_index = i, as_signature = sign_with C (new_key C i) (activation_message (handoff_hash C h) i)\<rparr>) members\<rparr>"

lemma signed_handoff_verifies:
  assumes "signatures_verify C" and "set members \<subseteq> {..<HANDOFF_N}" and "distinct members" and "HANDOFF_Q \<le> length members"
    and "ho_status h = STATUS_LOCKED \<or> ho_status h = STATUS_FINAL"
  shows "verify_handoff_cert_any C (signed_handoff C h members)"
  using assms signatures_verifyD [OF assms(1)]
  by (auto simp: verify_handoff_cert_any_def signed_handoff_def list_all_iff verify_old_share_def image_image distinct_card)

lemma signed_activation_verifies:
  assumes "signatures_verify C" and "set members \<subseteq> {..<HANDOFF_N}" and "distinct members" and "HANDOFF_Q \<le> length members"
    and "verify_handoff_cert_for_new_epoch C cert" and "hc_handoff cert = h"
  shows "verify_activation_cert C (signed_activation C h members) cert"
  using assms signatures_verifyD [OF assms(1)]
  by (auto simp: verify_activation_cert_def signed_activation_def list_all_iff verify_activation_share_def image_image distinct_card)

lemma old_run_signs:
  assumes members: "distinct members" "set members \<subseteq> {..<HANDOFF_N}"
    and status: "ho_status h = STATUS_LOCKED \<or> ho_status h = STATUS_FINAL"
  obtains S where "old_run C {h} (fresh_committee C OLD_WAL_MAGIC faulty) S" "shares_issued C faulty S (signed_handoff C h members)"
proof -
  let ?S0 = "fresh_committee C OLD_WAL_MAGIC faulty"
  have "\<exists>S. old_run C {h} ?S0 S \<and> hs_signed S = hs_signed ?S0 \<union> (\<lambda>i. (i, old_share_message (handoff_hash C h) i)) ` set members \<and>
      length (hs_nodes S) = length (hs_nodes ?S0) \<and> (\<forall>i \<in> set members. chosen C h i (hs_nodes S ! i)) \<and>
      (\<forall>i. i \<notin> set members \<longrightarrow> hs_nodes S ! i = hs_nodes ?S0 ! i)"
  proof (rule committee_visits [OF members(1)])
    show "i < length (hs_nodes ?S0) \<and> (\<exists>reply node'. old_connection C None None (OP_OLD_SIGN # write_handoff h) (hs_nodes ?S0 ! i) =
        (reply, [old_share_message (handoff_hash C h) i], node') \<and> chosen C h i node')" if "i \<in> set members" for i
    proof -
      have i: "i < HANDOFF_N"
        using that members(2) by auto
      then show ?thesis
        using old_connection_ready [OF fresh_ready [OF i] status] by (metis length_fresh)
    qed
  qed (simp add: asks_only_def handoff_stream.get_put_nil)
  then obtain S where "old_run C {h} ?S0 S" "hs_signed S = hs_signed ?S0 \<union> (\<lambda>i. (i, old_share_message (handoff_hash C h) i)) ` set members"
    by blast
  then show thesis
    using that by (auto simp: shares_issued_def signed_handoff_def)
qed

lemma shows_only_activate: "shows_only P (OP_NEW_ACTIVATE # body)"
  by (simp add: shows_only_def OP_NEW_ACTIVATE_def OP_NEW_VOTE_def)

lemma shows_only_vote:
  "P cert \<Longrightarrow> sendable_cert cert \<Longrightarrow> sendable_activation activation \<Longrightarrow> shows_only P (vote_request cert activation d)"
  by (simp add: shows_only_def vote_request_def read_vote_request_sent)

lemma signed_sendable:
  assumes "set members \<subseteq> {..<HANDOFF_N}" and "distinct members"
  shows "sendable_cert (signed_handoff C h members)" and "sendable_activation (signed_activation C h members)"
proof -
  have "length members \<le> HANDOFF_N" "\<forall>i \<in> set members. i < 256"
    using members_bound [OF assms(2)] assms(1) by (auto simp: HANDOFF_N_def)
  then show "sendable_cert (signed_handoff C h members)" and "sendable_activation (signed_activation C h members)"
    by (simp_all add: sendable_cert_def sendable_activation_def signed_handoff_def signed_activation_def)
qed

lemma new_run_votes:
  assumes sigs: "signatures_verify C" and members: "distinct members" "set members \<subseteq> {..<HANDOFF_N}" "HANDOFF_Q \<le> length members"
    and cert: "P cert" "verify_handoff_cert_for_new_epoch C cert" "sendable_cert cert"
    and status: "ho_status (hc_handoff cert) = STATUS_LOCKED"
  obtains S where "new_run C P (fresh_committee C NEW_WAL_MAGIC faulty) S"
    "\<And>i. i \<in> set members \<Longrightarrow> (i, new_vote_message (ho_input (hc_handoff cert)) (ho_digest (hc_handoff cert)) i) \<in> hs_signed S"
proof -
  let ?S0 = "fresh_committee C NEW_WAL_MAGIC faulty" and ?h = "hc_handoff cert"
  let ?act = "signed_activation C ?h members"
  let ?m = "\<lambda>i. activation_message (handoff_hash C ?h) i" and ?v = "\<lambda>i. new_vote_message (ho_input ?h) (ho_digest ?h) i"
  have i: "i < HANDOFF_N" if "i \<in> set members" for i
    using that members(2) by auto
  have "\<exists>S. new_run C P ?S0 S \<and> hs_signed S = hs_signed ?S0 \<union> (\<lambda>i. (i, ?m i)) ` set members \<and>
      length (hs_nodes S) = length (hs_nodes ?S0) \<and> (\<forall>i \<in> set members. chosen C ?h i (hs_nodes S ! i)) \<and>
      (\<forall>i. i \<notin> set members \<longrightarrow> hs_nodes S ! i = hs_nodes ?S0 ! i)"
  proof (rule committee_visits [where arrives = "shows_only P" and request = "OP_NEW_ACTIVATE # write_handoff_cert cert", OF members(1) _ shows_only_activate])
    show "i < length (hs_nodes ?S0) \<and> (\<exists>reply node'. new_connection C None None (OP_NEW_ACTIVATE # write_handoff_cert cert)
        (hs_nodes ?S0 ! i) = (reply, [?m i], node') \<and> chosen C ?h i node')" if "i \<in> set members" for i
      using new_activate_ready [OF fresh_ready [OF i [OF that]] cert(2,3)] i [OF that] by (metis length_fresh)
  qed
  then obtain S1 where S1: "new_run C P ?S0 S1" "length (hs_nodes S1) = HANDOFF_N"
    "\<And>i. i \<in> set members \<Longrightarrow> chosen C ?h i (hs_nodes S1 ! i)"
    by auto
  note sendable = cert(3) signed_sendable(2) [OF members(2,1), of C ?h]
  have act: "verify_activation_cert C ?act cert"
    by (rule signed_activation_verifies [OF sigs members(2,1,3) cert(2)]) simp
  have "\<exists>S. new_run C P S1 S \<and> hs_signed S = hs_signed S1 \<union> (\<lambda>i. (i, ?v i)) ` set members \<and>
      length (hs_nodes S) = length (hs_nodes S1) \<and> (\<forall>i \<in> set members. True) \<and>
      (\<forall>i. i \<notin> set members \<longrightarrow> hs_nodes S ! i = hs_nodes S1 ! i)"
  proof (rule committee_visits [where arrives = "shows_only P" and request = "vote_request cert ?act (ho_digest ?h)", OF members(1) _
        shows_only_vote [of P, OF cert(1) sendable]])
    show "i < length (hs_nodes S1) \<and> (\<exists>reply node'. new_connection C None None (vote_request cert ?act (ho_digest ?h))
        (hs_nodes S1 ! i) = (reply, [?v i], node') \<and> True)" if "i \<in> set members" for i
      using new_vote_ready [OF S1(3) [OF that] act sendable status refl] i [OF that] S1(2) by simp
  qed
  then obtain S where "new_run C P S1 S" "hs_signed S = hs_signed S1 \<union> (\<lambda>i. (i, ?v i)) ` set members"
    by blast
  then show thesis
    using that [OF rtranclp_trans [OF S1(1)]] by blast
qed

definition new_votes_issued :: "crypto \<Rightarrow> nat set \<Rightarrow> committee \<Rightarrow> input_ref \<Rightarrow> digest \<Rightarrow> nat set \<Rightarrow> bool" where
  "new_votes_issued C faulty S x d voters \<longleftrightarrow> (\<forall>i \<in> voters. \<exists>v. nv_index v = i \<and> verify_new_vote C v x d \<and>
    (i \<notin> faulty \<longrightarrow> (i, new_vote_message x d i) \<in> hs_signed S))"

text \<open>The hand-offs of an input that the new committee was shown certificates of.\<close>

definition shown_handoffs :: "crypto \<Rightarrow> handoff_cert set \<Rightarrow> input_ref \<Rightarrow> handoff set" where
  "shown_handoffs C shown x = hc_handoff ` {cert \<in> shown. verify_handoff_cert_for_new_epoch C cert \<and> ho_input (hc_handoff cert) = x}"

lemma new_votes_of_one_member:
  assumes start: "committee_start C NEW_WAL_MAGIC faulty S0" and run: "new_run C (\<lambda>c. c \<in> shown) S0 S" and i: "i < HANDOFF_N" "i \<notin> faulty"
    and votes: "(i, new_vote_message x d i) \<in> hs_signed S" "(i, new_vote_message x e i) \<in> hs_signed S"
  shows "d = e \<or> handoffs_collide C (shown_handoffs C shown x)"
proof -
  obtain a where a: "a \<in> shown" "verify_handoff_cert_for_new_epoch C a" "ho_input (hc_handoff a) = x" "ho_digest (hc_handoff a) = d"
    "durable C (hs_nodes S ! i) (choice_key_of (hc_handoff a)) = Some (handoff_hash C (hc_handoff a))"
    using new_vote_justified [OF start run i votes(1)] by metis
  obtain b where b: "b \<in> shown" "verify_handoff_cert_for_new_epoch C b" "ho_input (hc_handoff b) = x" "ho_digest (hc_handoff b) = e"
    "durable C (hs_nodes S ! i) (choice_key_of (hc_handoff b)) = Some (handoff_hash C (hc_handoff b))"
    using new_vote_justified [OF start run i votes(2)] by metis
  have "choice_key_of (hc_handoff a) = choice_key_of (hc_handoff b)"
    using a(2,3) b(2,3) by (simp add: choice_key_of_def verify_handoff_cert_for_new_epoch_def)
  then have "handoff_hash C (hc_handoff a) = handoff_hash C (hc_handoff b)"
    using a(5) b(5) by simp
  moreover have "hc_handoff a \<in> shown_handoffs C shown x" "hc_handoff b \<in> shown_handoffs C shown x"
    using a(1-3) b(1-3) by (auto simp: shown_handoffs_def)
  ultimately show ?thesis
    using handoffs_collideI a(4) b(4) by metis
qed

section \<open>A concrete hand-off\<close>

definition lab_handoff :: handoff where
  "lab_handoff = \<lparr>ho_from_epoch = EPOCH_OLD, ho_to_epoch = EPOCH_NEW,
    ho_input = \<lparr>ir_id = 13000001, ir_generation = 13\<rparr>, ho_status = STATUS_LOCKED, ho_round = 7, ho_digest = repeat_array 65\<rparr>"

definition lab_handoff_cert :: handoff_cert where
  "lab_handoff_cert = signed_handoff lab_crypto lab_handoff [0, 1, 2, 3, 4]"

lemma lab_handoff_status: "ho_status lab_handoff = STATUS_LOCKED"
  by (simp add: lab_handoff_def)

lemma lab_handoff_epochs: "ho_from_epoch lab_handoff = EPOCH_OLD" "ho_to_epoch lab_handoff = EPOCH_NEW"
  by (simp_all add: lab_handoff_def)

lemma lab_handoff_cert:
  "verify_handoff_cert_any lab_crypto lab_handoff_cert"
  "verify_handoff_cert_for_new_epoch lab_crypto lab_handoff_cert"
  "sendable_cert lab_handoff_cert"
  "hc_handoff lab_handoff_cert = lab_handoff"
proof -
  show any: "verify_handoff_cert_any lab_crypto lab_handoff_cert"
    unfolding lab_handoff_cert_def
    by (rule signed_handoff_verifies [OF lab_signatures_verify]) (auto simp: HANDOFF_N_def HANDOFF_Q_def lab_handoff_status)
  show here: "hc_handoff lab_handoff_cert = lab_handoff"
    by (simp add: lab_handoff_cert_def signed_handoff_def)
  show "verify_handoff_cert_for_new_epoch lab_crypto lab_handoff_cert"
    using any by (simp add: verify_handoff_cert_for_new_epoch_def here lab_handoff_epochs)
  show "sendable_cert lab_handoff_cert"
    unfolding lab_handoff_cert_def by (rule signed_sendable(1)) (auto simp: HANDOFF_N_def)
qed

lemma lab_new_vote: "i < HANDOFF_N \<Longrightarrow> \<exists>v. nv_index v = i \<and> verify_new_vote lab_crypto v x d"
  using signatures_verifyD(2) [OF lab_signatures_verify]
  by (intro exI [of _ "\<lparr>nv_index = i, nv_digest = d, nv_signature = sign_with lab_crypto (new_key lab_crypto i) (new_vote_message x d i)\<rparr>"])
    (simp add: verify_new_vote_def)

end
