(* ===== verification/Lineage.thy ===== *)
theory Lineage
  imports Handoff
begin

text \<open>
  One monetary state that passes through several committees (\<open>sec015/src/main.rs\<close>): a member signs
  at most one successor per generation and moves on to it, retires the state it hands to the next
  committee, activates a state only from its direct predecessor's certificate, and answers a
  client's freshness challenge for the state it holds.  Here are the data, the signed messages, the
  certificate checks, the log, the server, and the client's requests.  Words wrap as they do in the
  release build the experiment runs.
\<close>

section \<open>Constants and data\<close>

definition LINEAGE_N :: nat where "LINEAGE_N = 7"
definition LINEAGE_Q :: nat where "LINEAGE_Q = 5"
definition EPOCH_30 :: u64 where "EPOCH_30 = 30"
definition EPOCH_31 :: u64 where "EPOCH_31 = 31"
definition EPOCH_32 :: u64 where "EPOCH_32 = 32"
definition COIN_ID :: u64 where "COIN_ID = 15000001"
definition LN_PING :: u8 where "LN_PING = 0"
definition LN_FINALIZE :: u8 where "LN_FINALIZE = 1"
definition LN_HANDOFF :: u8 where "LN_HANDOFF = 2"
definition LN_ACTIVATE :: u8 where "LN_ACTIVATE = 3"
definition LN_FRESHNESS :: u8 where "LN_FRESHNESS = 4"
definition LN_SHUTDOWN :: u8 where "LN_SHUTDOWN = 255"
definition K_ACTIVE :: u8 where "K_ACTIVE = 1"
definition K_TRANSFER :: u8 where "K_TRANSFER = 2"
definition K_RETIRED :: u8 where "K_RETIRED = 3"
definition K_ACTIVATED :: u8 where "K_ACTIVATED = 4"
definition LINEAGE_MAGIC :: "u8 list" where "LINEAGE_MAGIC = ascii ''CAL015ST''"
definition LINEAGE_RECORD :: nat where "LINEAGE_RECORD = 144"

lemmas lineage_ops = LN_PING_def LN_FINALIZE_def LN_HANDOFF_def LN_ACTIVATE_def LN_FRESHNESS_def LN_SHUTDOWN_def
lemmas lineage_kinds = K_ACTIVE_def K_TRANSFER_def K_RETIRED_def K_ACTIVATED_def

record state_ref =
  sr_coin :: u64
  sr_generation :: u64
  sr_digest :: digest

record finality =
  fin_epoch :: u64
  fin_from :: state_ref
  fin_successor :: digest

record rotation =
  ro_from_epoch :: u64
  ro_to_epoch :: u64
  ro_state :: state_ref

text \<open>The four structures for shares have the same two fields.\<close>

record signed_share =
  ss_index :: nat
  ss_signature :: signature

record final_cert =
  fc_finality :: finality
  fc_shares :: "signed_share list"

record rotation_cert =
  rc_handoff :: rotation
  rc_shares :: "signed_share list"

record rotation_activation =
  ra_handoff_hash :: digest
  ra_shares :: "signed_share list"

record fresh_cert =
  fr_epoch :: u64
  fr_state :: state_ref
  fr_nonce :: digest
  fr_shares :: "signed_share list"

section \<open>Keys and signed messages\<close>

definition committee_key :: "crypto \<Rightarrow> u64 \<Rightarrow> nat \<Rightarrow> signing_key" where
  "committee_key C epoch index = blake3 C (ascii ''CALIBRE_SEC015_COMMITTEE_KEY_V1'' @ to_le64 (epoch * 1000 + of_nat index))"

definition genesis_state :: "crypto \<Rightarrow> state_ref" where
  "genesis_state C = \<lparr>sr_coin = COIN_ID, sr_generation = 0,
    sr_digest = blake3 C (ascii ''CALIBRE_SEC015_GENESIS_STATE_V1'' @ to_le64 COIN_ID)\<rparr>"

definition state_bytes :: "state_ref \<Rightarrow> u8 list" where
  "state_bytes s = to_le64 (sr_coin s) @ to_le64 (sr_generation s) @ array_bytes (sr_digest s)"

definition successor_digest :: "crypto \<Rightarrow> state_ref \<Rightarrow> string \<Rightarrow> digest" where
  "successor_digest C s label = blake3 C (ascii ''CALIBRE_SEC015_SUCCESSOR_V1'' @ state_bytes s @ ascii label)"

definition successor_state :: "finality \<Rightarrow> state_ref" where
  "successor_state f = \<lparr>sr_coin = sr_coin (fin_from f), sr_generation = sr_generation (fin_from f) + 1,
    sr_digest = fin_successor f\<rparr>"

definition finality_message :: "finality \<Rightarrow> u8 list" where
  "finality_message f = ascii ''CALIBRE_SEC015_FINALITY_V1'' @ to_le64 (fin_epoch f) @ state_bytes (fin_from f) @
    array_bytes (fin_successor f)"

definition final_share_message :: "finality \<Rightarrow> nat \<Rightarrow> u8 list" where
  "final_share_message f index = finality_message f @ to_le64 (of_nat index)"

definition rotation_message :: "rotation \<Rightarrow> u8 list" where
  "rotation_message h = ascii ''CALIBRE_SEC015_HANDOFF_V1'' @ to_le64 (ro_from_epoch h) @ to_le64 (ro_to_epoch h) @
    state_bytes (ro_state h)"

definition rotation_hash :: "crypto \<Rightarrow> rotation \<Rightarrow> digest" where
  "rotation_hash C h = blake3 C (rotation_message h)"

definition rotation_share_message :: "rotation \<Rightarrow> nat \<Rightarrow> u8 list" where
  "rotation_share_message h index = rotation_message h @ to_le64 (of_nat index)"

definition epoch_activation_message :: "u64 \<Rightarrow> digest \<Rightarrow> nat \<Rightarrow> u8 list" where
  "epoch_activation_message epoch hash index =
    ascii ''CALIBRE_SEC015_ACTIVATION_V1'' @ to_le64 epoch @ to_le64 (of_nat index) @ array_bytes hash"

definition freshness_message :: "u64 \<Rightarrow> state_ref \<Rightarrow> digest \<Rightarrow> nat \<Rightarrow> u8 list" where
  "freshness_message epoch s nonce index = ascii ''CALIBRE_SEC015_FRESHNESS_CHALLENGE_V1'' @ to_le64 epoch @
    state_bytes s @ array_bytes nonce @ to_le64 (of_nat index)"

section \<open>Certificate checks\<close>

text \<open>What the four share checks and the four loops over shares have in common.\<close>

definition member_signed :: "crypto \<Rightarrow> u64 \<Rightarrow> (nat \<Rightarrow> u8 list) \<Rightarrow> signed_share \<Rightarrow> bool" where
  "member_signed C epoch m s \<longleftrightarrow> ss_index s < LINEAGE_N \<and>
    verify_strict C (public_of C (committee_key C epoch (ss_index s))) (m (ss_index s)) (ss_signature s)"

definition lineage_quorum :: "(signed_share \<Rightarrow> bool) \<Rightarrow> signed_share list \<Rightarrow> bool" where
  "lineage_quorum ok shares \<longleftrightarrow> list_all ok shares \<and> LINEAGE_Q \<le> card (ss_index ` set shares)"

definition verify_final_share :: "crypto \<Rightarrow> finality \<Rightarrow> signed_share \<Rightarrow> bool" where
  "verify_final_share C f = member_signed C (fin_epoch f) (final_share_message f)"

definition verify_final_cert :: "crypto \<Rightarrow> final_cert \<Rightarrow> bool" where
  "verify_final_cert C cert = lineage_quorum (verify_final_share C (fc_finality cert)) (fc_shares cert)"

definition verify_rotation_share :: "crypto \<Rightarrow> rotation \<Rightarrow> signed_share \<Rightarrow> bool" where
  "verify_rotation_share C h = member_signed C (ro_from_epoch h) (rotation_share_message h)"

definition verify_rotation_cert :: "crypto \<Rightarrow> rotation_cert \<Rightarrow> bool" where
  "verify_rotation_cert C cert \<longleftrightarrow>
    (if ro_to_epoch (rc_handoff cert) \<noteq> ro_from_epoch (rc_handoff cert) + 1 then False
     else lineage_quorum (verify_rotation_share C (rc_handoff cert)) (rc_shares cert))"

definition verify_epoch_activation_share :: "crypto \<Rightarrow> u64 \<Rightarrow> digest \<Rightarrow> signed_share \<Rightarrow> bool" where
  "verify_epoch_activation_share C epoch hash = member_signed C epoch (epoch_activation_message epoch hash)"

definition verify_rotation_activation :: "crypto \<Rightarrow> rotation_activation \<Rightarrow> rotation_cert \<Rightarrow> bool" where
  "verify_rotation_activation C cert handoff \<longleftrightarrow>
    (if \<not> verify_rotation_cert C handoff \<or> ra_handoff_hash cert \<noteq> rotation_hash C (rc_handoff handoff) then False
     else lineage_quorum (verify_epoch_activation_share C (ro_to_epoch (rc_handoff handoff)) (ra_handoff_hash cert))
       (ra_shares cert))"

definition verify_fresh_share :: "crypto \<Rightarrow> u64 \<Rightarrow> state_ref \<Rightarrow> digest \<Rightarrow> signed_share \<Rightarrow> bool" where
  "verify_fresh_share C epoch s nonce = member_signed C epoch (freshness_message epoch s nonce)"

definition verify_fresh_cert :: "crypto \<Rightarrow> fresh_cert \<Rightarrow> bool" where
  "verify_fresh_cert C cert =
    lineage_quorum (verify_fresh_share C (fr_epoch cert) (fr_state cert) (fr_nonce cert)) (fr_shares cert)"

section \<open>Log records\<close>

definition lineage_checksum :: "crypto \<Rightarrow> u8 list \<Rightarrow> digest" where
  "lineage_checksum C prefix = blake3 C (ascii ''CALIBRE_SEC015_WAL_CHECKSUM_V1'' @ prefix)"

record wal_entry =
  we_kind :: u8
  we_epoch :: u64
  we_generation :: u64
  we_aux :: u64
  we_d1 :: digest
  we_d2 :: digest

definition entry_prefix :: "wal_entry \<Rightarrow> u8 list" where
  "entry_prefix e = LINEAGE_MAGIC @ [we_kind e] @ replicate 7 0 @ to_le64 (we_epoch e) @ to_le64 COIN_ID @
    to_le64 (we_generation e) @ to_le64 (we_aux e) @ array_bytes (we_d1 e) @ array_bytes (we_d2 e)"

definition encode_entry :: "crypto \<Rightarrow> wal_entry \<Rightarrow> u8 list" where
  "encode_entry C e = entry_prefix e @ array_bytes (lineage_checksum C (entry_prefix e))"

definition decode_entry :: "crypto \<Rightarrow> u8 list \<Rightarrow> wal_entry option" where
  "decode_entry C rcd =
    (if length rcd \<noteq> LINEAGE_RECORD \<or> byte_slice 0 8 rcd \<noteq> LINEAGE_MAGIC then None
     else if byte_slice 112 144 rcd \<noteq> array_bytes (lineage_checksum C (byte_slice 0 112 rcd)) then None
     else if rcd ! 8 \<notin> {K_ACTIVE, K_TRANSFER, K_RETIRED, K_ACTIVATED} then None
     else if from_le64 (byte_slice 24 32 rcd) \<noteq> COIN_ID then None
     else Some \<lparr>we_kind = rcd ! 8, we_epoch = from_le64 (byte_slice 16 24 rcd),
       we_generation = from_le64 (byte_slice 32 40 rcd), we_aux = from_le64 (byte_slice 40 48 rcd),
       we_d1 = mk_array (byte_slice 48 80 rcd), we_d2 = mk_array (byte_slice 80 112 rcd)\<rparr>)"

section \<open>The store\<close>

text \<open>The fields of \<open>Store\<close> that a replay of the log rebuilds, and the store itself.\<close>

record lineage_view =
  lv_active :: "state_ref option"
  lv_transfers :: "u64 \<rightharpoonup> digest"
  lv_retired :: "state_ref \<rightharpoonup> digest"
  lv_activations :: "u64 \<times> u64 \<rightharpoonup> digest"

record lineage_store =
  ls_file :: "u8 list"
  ls_epoch :: u64
  ls_view :: lineage_view

definition empty_view :: lineage_view where
  "empty_view = \<lparr>lv_active = None, lv_transfers = Map.empty, lv_retired = Map.empty, lv_activations = Map.empty\<rparr>"

definition coin_state :: "u64 \<Rightarrow> digest \<Rightarrow> state_ref" where
  "coin_state generation d = \<lparr>sr_coin = COIN_ID, sr_generation = generation, sr_digest = d\<rparr>"

text \<open>\<open>insert\<close> of a \<open>HashMap\<close> followed by the comparison with the value it replaced.\<close>

definition insert_same :: "('k \<rightharpoonup> digest) \<Rightarrow> 'k \<Rightarrow> digest \<Rightarrow> ('k \<rightharpoonup> digest) option" where
  "insert_same m k d = (case m k of Some old \<Rightarrow> if old \<noteq> d then None else Some (m(k \<mapsto> d)) | None \<Rightarrow> Some (m(k \<mapsto> d)))"

definition replay_entry :: "u64 \<Rightarrow> wal_entry \<Rightarrow> lineage_view \<Rightarrow> lineage_view option" where
  "replay_entry epoch e v =
    (if we_epoch e \<noteq> epoch then None
     else if we_kind e = K_ACTIVE then Some (v\<lparr>lv_active := Some (coin_state (we_generation e) (we_d1 e))\<rparr>)
     else if we_kind e = K_TRANSFER then
       map_option (\<lambda>m. v\<lparr>lv_transfers := m, lv_active := Some (coin_state (we_generation e + 1) (we_d2 e))\<rparr>)
         (insert_same (lv_transfers v) (we_generation e) (we_d2 e))
     else if we_kind e = K_RETIRED then
       map_option (\<lambda>m. v\<lparr>lv_retired := m,
           lv_active := (if lv_active v = Some (coin_state (we_generation e) (we_d1 e)) then None else lv_active v)\<rparr>)
         (insert_same (lv_retired v) (coin_state (we_generation e) (we_d1 e)) (we_d2 e))
     else
       map_option (\<lambda>m. v\<lparr>lv_activations := m, lv_active := Some (coin_state (we_generation e) (we_d1 e))\<rparr>)
         (insert_same (lv_activations v) (we_aux e, we_generation e) (we_d2 e)))"

fun replay_log :: "crypto \<Rightarrow> u64 \<Rightarrow> u8 list list \<Rightarrow> lineage_view \<Rightarrow> lineage_view option" where
  "replay_log C epoch [] v = Some v"
| "replay_log C epoch (rcd # rcds) v =
    (case decode_entry C rcd of
       None \<Rightarrow> None
     | Some e \<Rightarrow> (case replay_entry epoch e v of None \<Rightarrow> None | Some v' \<Rightarrow> replay_log C epoch rcds v'))"

definition open_lineage :: "crypto \<Rightarrow> u64 \<Rightarrow> u8 list \<Rightarrow> lineage_store option" where
  "open_lineage C epoch bytes =
    (if length bytes mod LINEAGE_RECORD \<noteq> 0 then None
     else map_option (\<lambda>v. \<lparr>ls_file = bytes, ls_epoch = epoch, ls_view = v\<rparr>)
       (replay_log C epoch (chunks_exact LINEAGE_RECORD bytes) empty_view))"

text \<open>
  \<open>append\<close> and then the change of the fields in memory.  \<open>io\<close> is \<open>Some k\<close> when the write fails after
  \<open>k\<close> bytes reached the file (all of them when only the sync fails); the first component is \<open>None\<close>
  for an error.
\<close>

definition append_entry ::
  "crypto \<Rightarrow> nat option \<Rightarrow> wal_entry \<Rightarrow> lineage_view \<Rightarrow> lineage_store \<Rightarrow> bool option \<times> lineage_store" where
  "append_entry C io e v st =
    (case io of
       Some k \<Rightarrow> (None, st\<lparr>ls_file := ls_file st @ take k (encode_entry C e)\<rparr>)
     | None \<Rightarrow> (Some True, st\<lparr>ls_file := ls_file st @ encode_entry C e, ls_view := v\<rparr>))"

definition bootstrap :: "crypto \<Rightarrow> nat option \<Rightarrow> state_ref \<Rightarrow> lineage_store \<Rightarrow> bool option \<times> lineage_store" where
  "bootstrap C io s st =
    (let v = ls_view st in
     if lv_active v \<noteq> None then (Some True, st)
     else append_entry C io \<lparr>we_kind = K_ACTIVE, we_epoch = ls_epoch st, we_generation = sr_generation s, we_aux = 0,
       we_d1 = sr_digest s, we_d2 = zero_array\<rparr> (v\<lparr>lv_active := Some s\<rparr>) st)"

definition finalize :: "crypto \<Rightarrow> nat option \<Rightarrow> finality \<Rightarrow> lineage_store \<Rightarrow> bool option \<times> lineage_store" where
  "finalize C io f st =
    (let v = ls_view st in
     if fin_epoch f \<noteq> ls_epoch st \<or> lv_active v \<noteq> Some (fin_from f) then (Some False, st)
     else (case lv_transfers v (sr_generation (fin_from f)) of
         Some old \<Rightarrow> (Some (old = fin_successor f), st)
       | None \<Rightarrow> append_entry C io \<lparr>we_kind = K_TRANSFER, we_epoch = ls_epoch st,
           we_generation = sr_generation (fin_from f), we_aux = 0, we_d1 = sr_digest (fin_from f), we_d2 = fin_successor f\<rparr>
           (v\<lparr>lv_transfers := (lv_transfers v)(sr_generation (fin_from f) \<mapsto> fin_successor f),
              lv_active := Some (successor_state f)\<rparr>) st))"

definition retire :: "crypto \<Rightarrow> nat option \<Rightarrow> rotation \<Rightarrow> lineage_store \<Rightarrow> bool option \<times> lineage_store" where
  "retire C io h st =
    (let v = ls_view st in
     if ro_from_epoch h \<noteq> ls_epoch st \<or> ro_to_epoch h \<noteq> ls_epoch st + 1 \<or> lv_active v \<noteq> Some (ro_state h) then (Some False, st)
     else (case lv_retired v (ro_state h) of
         Some old \<Rightarrow> (Some (old = rotation_hash C h), st)
       | None \<Rightarrow> append_entry C io \<lparr>we_kind = K_RETIRED, we_epoch = ls_epoch st,
           we_generation = sr_generation (ro_state h), we_aux = ro_to_epoch h, we_d1 = sr_digest (ro_state h),
           we_d2 = rotation_hash C h\<rparr>
           (v\<lparr>lv_retired := (lv_retired v)(ro_state h \<mapsto> rotation_hash C h), lv_active := None\<rparr>) st))"

definition activate :: "crypto \<Rightarrow> nat option \<Rightarrow> rotation \<Rightarrow> lineage_store \<Rightarrow> bool option \<times> lineage_store" where
  "activate C io h st =
    (let v = ls_view st; key = (ro_from_epoch h, sr_generation (ro_state h)) in
     if ro_to_epoch h \<noteq> ls_epoch st \<or> ro_from_epoch h + 1 \<noteq> ls_epoch st then (Some False, st)
     else (case lv_activations v key of
         Some old \<Rightarrow> (Some (old = rotation_hash C h \<and> lv_active v = Some (ro_state h)), st)
       | None \<Rightarrow>
           if lv_active v \<noteq> None \<and> lv_active v \<noteq> Some (ro_state h) then (Some False, st)
           else append_entry C io \<lparr>we_kind = K_ACTIVATED, we_epoch = ls_epoch st,
             we_generation = sr_generation (ro_state h), we_aux = ro_from_epoch h, we_d1 = sr_digest (ro_state h),
             we_d2 = rotation_hash C h\<rparr>
             (v\<lparr>lv_activations := (lv_activations v)(key \<mapsto> rotation_hash C h), lv_active := Some (ro_state h)\<rparr>) st))"

definition active_matches :: "lineage_store \<Rightarrow> state_ref \<Rightarrow> bool" where
  "active_matches st s \<longleftrightarrow> lv_active (ls_view st) = Some s"

end
