(* ===== verification/LineageNode.thy ===== *)
theory LineageNode
  imports Lineage
begin

text \<open>
  The members of the lineage committees and their client (\<open>sec015/src/main.rs\<close>): the byte format of
  the requests, the server, its restart from the log, the collectors of shares and the controller
  with its checks.  The stream readers and the outcome of a request are those of the hand-off
  experiment, which has the same functions.
\<close>

section \<open>Bytes of a stream\<close>

definition write_state :: "state_ref \<Rightarrow> u8 list" where
  "write_state s = to_le64 (sr_coin s) @ to_le64 (sr_generation s) @ array_bytes (sr_digest s)"

definition read_state :: "state_ref stream_reader" where
  "read_state = bind_read read_u64 (\<lambda>coin. bind_read read_u64 (\<lambda>generation. bind_read read_arr (\<lambda>d.
    return_read \<lparr>sr_coin = coin, sr_generation = generation, sr_digest = d\<rparr>)))"

definition write_finality :: "finality \<Rightarrow> u8 list" where
  "write_finality f = to_le64 (fin_epoch f) @ write_state (fin_from f) @ array_bytes (fin_successor f)"

definition read_finality :: "finality stream_reader" where
  "read_finality = bind_read read_u64 (\<lambda>epoch. bind_read read_state (\<lambda>s. bind_read read_arr (\<lambda>d.
    return_read \<lparr>fin_epoch = epoch, fin_from = s, fin_successor = d\<rparr>)))"

definition write_rotation :: "rotation \<Rightarrow> u8 list" where
  "write_rotation h = to_le64 (ro_from_epoch h) @ to_le64 (ro_to_epoch h) @ write_state (ro_state h)"

definition read_rotation :: "rotation stream_reader" where
  "read_rotation = bind_read read_u64 (\<lambda>from_epoch. bind_read read_u64 (\<lambda>to_epoch. bind_read read_state (\<lambda>s.
    return_read \<lparr>ro_from_epoch = from_epoch, ro_to_epoch = to_epoch, ro_state = s\<rparr>)))"

definition write_rotation_cert :: "rotation_cert \<Rightarrow> u8 list" where
  "write_rotation_cert cert = write_rotation (rc_handoff cert) @ [of_nat (length (rc_shares cert))] @
    concat (map (\<lambda>sh. write_share (ss_index sh) (ss_signature sh)) (rc_shares cert))"

definition read_rotation_cert :: "rotation_cert stream_reader" where
  "read_rotation_cert =
    bind_read read_rotation (\<lambda>h. bind_read read_byte (\<lambda>n.
    if unat n > LINEAGE_N then (\<lambda>s. None)
    else bind_read (read_many (unat n) read_share) (\<lambda>shares.
      return_read \<lparr>rc_handoff = h, rc_shares = map (\<lambda>(i, sig). \<lparr>ss_index = i, ss_signature = sig\<rparr>) shares\<rparr>)))"

definition write_challenge :: "u64 \<times> state_ref \<times> digest \<Rightarrow> u8 list" where
  "write_challenge c = (case c of (epoch, s, nonce) \<Rightarrow> to_le64 epoch @ write_state s @ array_bytes nonce)"

definition read_challenge :: "(u64 \<times> state_ref \<times> digest) stream_reader" where
  "read_challenge = bind_read read_u64 (\<lambda>epoch. bind_read read_state (\<lambda>s. bind_read read_arr (\<lambda>nonce.
    return_read (epoch, s, nonce))))"

section \<open>The server\<close>

text \<open>
  A member process.  \<open>ln_up\<close> is false once the process has ended, by the shutdown request or by an
  error that \<open>?\<close> propagates out of the loop.  Serving a connection gives the bytes the client
  receives, the messages signed with the member's key, and the member afterwards.
\<close>

record lineage_node =
  ln_epoch :: u64
  ln_index :: nat
  ln_byzantine :: bool
  ln_store :: "lineage_store option"
  ln_up :: bool

type_synonym lineage_served = "u8 list \<times> u8 list list \<times> lineage_node"

definition member_dies :: "lineage_node \<Rightarrow> lineage_served" where
  "member_dies node = ([], [], node\<lparr>ln_up := False\<rparr>)"

definition answer_plain :: "nat option \<Rightarrow> u8 list \<Rightarrow> lineage_node \<Rightarrow> lineage_served" where
  "answer_plain sent reply node = (case sent of None \<Rightarrow> reply | Some k \<Rightarrow> take k reply, [], node)"

text \<open>The two fallible writes of a share, and the refusal that precedes them.\<close>

definition answer_signed :: "crypto \<Rightarrow> nat option \<Rightarrow> u8 list \<Rightarrow> lineage_node \<Rightarrow> lineage_served" where
  "answer_signed C sent m node =
    (let reply = [1, of_nat (ln_index node)] @ array_bytes (sign_with C (committee_key C (ln_epoch node) (ln_index node)) m)
     in case sent of None \<Rightarrow> (reply, [m], node) | Some k \<Rightarrow> (take k reply, [m], node\<lparr>ln_up := False\<rparr>))"

definition answer_if ::
  "crypto \<Rightarrow> nat option \<Rightarrow> u8 list \<Rightarrow> bool option \<times> lineage_node \<Rightarrow> lineage_served" where
  "answer_if C sent m allowed =
    (case allowed of
       (None, node) \<Rightarrow> member_dies node
     | (Some False, node) \<Rightarrow> answer_plain sent [0] node
     | (Some True, node) \<Rightarrow> answer_signed C sent m node)"

text \<open>\<open>store.as_mut().unwrap()\<close>: only a Byzantine process has no store.\<close>

definition with_store ::
  "(lineage_store \<Rightarrow> bool option \<times> lineage_store) \<Rightarrow> lineage_node \<Rightarrow> bool option \<times> lineage_node" where
  "with_store op node =
    (case ln_store node of
       None \<Rightarrow> (None, node)
     | Some st \<Rightarrow> (let (ok, st') = op st in (ok, node\<lparr>ln_store := Some st'\<rparr>)))"

definition finalize_request :: "crypto \<Rightarrow> nat option \<Rightarrow> nat option \<Rightarrow> u8 list \<Rightarrow> lineage_node \<Rightarrow> lineage_served" where
  "finalize_request C io sent body node =
    (case read_finality body of
       None \<Rightarrow> member_dies node
     | Some (f, _) \<Rightarrow> answer_if C sent (final_share_message f (ln_index node))
         (if ln_byzantine node then (Some (fin_epoch f = ln_epoch node), node) else with_store (finalize C io f) node))"

definition rotation_request :: "crypto \<Rightarrow> nat option \<Rightarrow> nat option \<Rightarrow> u8 list \<Rightarrow> lineage_node \<Rightarrow> lineage_served" where
  "rotation_request C io sent body node =
    (case read_rotation body of
       None \<Rightarrow> member_dies node
     | Some (h, _) \<Rightarrow> answer_if C sent (rotation_share_message h (ln_index node))
         (if ln_byzantine node then (Some (ro_from_epoch h = ln_epoch node), node) else with_store (retire C io h) node))"

definition activate_request :: "crypto \<Rightarrow> nat option \<Rightarrow> nat option \<Rightarrow> u8 list \<Rightarrow> lineage_node \<Rightarrow> lineage_served" where
  "activate_request C io sent body node =
    (case read_rotation_cert body of
       None \<Rightarrow> member_dies node
     | Some (cert, _) \<Rightarrow>
         answer_if C sent (epoch_activation_message (ln_epoch node) (rotation_hash C (rc_handoff cert)) (ln_index node))
         (if \<not> (verify_rotation_cert C cert \<and> ro_to_epoch (rc_handoff cert) = ln_epoch node) then (Some False, node)
          else if ln_byzantine node then (Some True, node)
          else with_store (activate C io (rc_handoff cert)) node))"

definition freshness_request :: "crypto \<Rightarrow> nat option \<Rightarrow> u8 list \<Rightarrow> lineage_node \<Rightarrow> lineage_served" where
  "freshness_request C sent body node =
    (case read_challenge body of
       None \<Rightarrow> member_dies node
     | Some ((epoch, s, nonce), _) \<Rightarrow> answer_if C sent (freshness_message (ln_epoch node) s nonce (ln_index node))
         (if epoch \<noteq> ln_epoch node then (Some False, node)
          else if ln_byzantine node then (Some True, node)
          else with_store (\<lambda>st. (Some (active_matches st s), st)) node))"

definition lineage_connection :: "crypto \<Rightarrow> nat option \<Rightarrow> nat option \<Rightarrow> u8 list \<Rightarrow> lineage_node \<Rightarrow> lineage_served" where
  "lineage_connection C io sent request node =
    (if \<not> ln_up node then ([], [], node)
     else (case request of
         [] \<Rightarrow> ([], [], node)
       | op # body \<Rightarrow>
           if op = LN_PING then answer_plain sent [0xAA] node
           else if op = LN_SHUTDOWN then answer_plain sent [0x55] (node\<lparr>ln_up := False\<rparr>)
           else if op = LN_FINALIZE then finalize_request C io sent body node
           else if op = LN_HANDOFF then rotation_request C io sent body node
           else if op = LN_ACTIVATE then activate_request C io sent body node
           else if op = LN_FRESHNESS then freshness_request C sent body node
           else answer_plain sent [0] node))"

text \<open>
  The start of a process on the bytes of its log, up to the accept loop: an error leaves a node that
  is down, with whatever reached the file.
\<close>

definition start_member :: "crypto \<Rightarrow> nat option \<Rightarrow> u64 \<Rightarrow> nat \<Rightarrow> bool \<Rightarrow> u8 list \<Rightarrow> lineage_node" where
  "start_member C io epoch index byzantine bytes =
    (let node = \<lparr>ln_epoch = epoch, ln_index = index, ln_byzantine = byzantine,
         ln_store = (if byzantine then None else Some \<lparr>ls_file = bytes, ls_epoch = epoch, ls_view = empty_view\<rparr>),
         ln_up = False\<rparr>
     in if byzantine then node\<lparr>ln_up := True\<rparr>
        else (case open_lineage C epoch bytes of
            None \<Rightarrow> node
          | Some st \<Rightarrow>
              (let (ok, st') = (if epoch = EPOCH_30 then bootstrap C io (genesis_state C) st else (Some True, st))
               in node\<lparr>ln_store := Some st', ln_up := (ok \<noteq> None)\<rparr>)))"

definition member_file :: "lineage_node \<Rightarrow> u8 list" where
  "member_file node = (case ln_store node of None \<Rightarrow> [] | Some st \<Rightarrow> ls_file st)"

definition restart_member :: "crypto \<Rightarrow> nat option \<Rightarrow> lineage_node \<Rightarrow> lineage_node" where
  "restart_member C io node = start_member C io (ln_epoch node) (ln_index node) (ln_byzantine node) (member_file node)"

section \<open>The client\<close>

definition accept_share :: "(signed_share \<Rightarrow> bool) \<Rightarrow> u8 list \<Rightarrow> signed_share option" where
  "accept_share ok reply =
    (case read_granted read_share reply of
       None \<Rightarrow> None
     | Some ((i, sig), _) \<Rightarrow> let sh = \<lparr>ss_index = i, ss_signature = sig\<rparr> in if ok sh then Some sh else None)"

definition rpc_share ::
  "crypto \<Rightarrow> (signed_share \<Rightarrow> bool) \<Rightarrow> u8 list \<Rightarrow> handoff_link \<Rightarrow> lineage_node \<Rightarrow>
    signed_share option \<times> u8 list list \<times> lineage_node" where
  "rpc_share C ok request link node =
    (let (reply, ms, node') = call_node (lineage_connection C) link request node in
     (case reply of None \<Rightarrow> None | Some r \<Rightarrow> accept_share ok r, ms, node'))"

definition rpc_finalize where
  "rpc_finalize C f = rpc_share C (verify_final_share C f) (LN_FINALIZE # write_finality f)"

definition rpc_rotation where
  "rpc_rotation C h = rpc_share C (verify_rotation_share C h) (LN_HANDOFF # write_rotation h)"

definition rpc_activation where
  "rpc_activation C cert = rpc_share C
    (verify_epoch_activation_share C (ro_to_epoch (rc_handoff cert)) (rotation_hash C (rc_handoff cert)))
    (LN_ACTIVATE # write_rotation_cert cert)"

definition rpc_fresh where
  "rpc_fresh C epoch s nonce = rpc_share C (verify_fresh_share C epoch s nonce) (LN_FRESHNESS # write_challenge (epoch, s, nonce))"

text \<open>
  The loop of the four collectors: the first share of each index, in the iteration order of the
  \<open>HashMap\<close>.  \<open>None\<close> is an index out of range.
\<close>

definition collect_shares ::
  "(signed_share list \<Rightarrow> signed_share list) \<Rightarrow>
    (handoff_link \<Rightarrow> lineage_node \<Rightarrow> signed_share option \<times> u8 list list \<times> lineage_node) \<Rightarrow>
    (nat \<times> handoff_link) list \<Rightarrow> lineage_node list \<Rightarrow> (signed_share list \<times> lineage_node list) option" where
  "collect_shares order rpc asked nodes =
    map_option (\<lambda>(shares, nodes'). (order (first_by ss_index shares), nodes')) (ask_nodes rpc asked nodes)"

definition collect_final where
  "collect_final C order f asked nodes = map_option (\<lambda>(shares, nodes'). (\<lparr>fc_finality = f, fc_shares = shares\<rparr>, nodes'))
    (collect_shares order (rpc_finalize C f) asked nodes)"

definition collect_rotation where
  "collect_rotation C order h asked nodes = map_option (\<lambda>(shares, nodes'). (\<lparr>rc_handoff = h, rc_shares = shares\<rparr>, nodes'))
    (collect_shares order (rpc_rotation C h) asked nodes)"

definition collect_epoch_activation where
  "collect_epoch_activation C order cert asked nodes = map_option
    (\<lambda>(shares, nodes'). (\<lparr>ra_handoff_hash = rotation_hash C (rc_handoff cert), ra_shares = shares\<rparr>, nodes'))
    (collect_shares order (rpc_activation C cert) asked nodes)"

definition collect_fresh where
  "collect_fresh C order epoch s nonce asked nodes = map_option
    (\<lambda>(shares, nodes'). (\<lparr>fr_epoch = epoch, fr_state = s, fr_nonce = nonce, fr_shares = shares\<rparr>, nodes'))
    (collect_shares order (rpc_fresh C epoch s nonce) asked nodes)"

definition client_nonce :: "crypto \<Rightarrow> string \<Rightarrow> digest" where
  "client_nonce C label = blake3 C (ascii label)"

definition naive_prefix_valid :: "crypto \<Rightarrow> final_cert \<Rightarrow> rotation_cert \<Rightarrow> rotation_activation \<Rightarrow> final_cert \<Rightarrow> bool" where
  "naive_prefix_valid C fc0 h01 a01 fc1 \<longleftrightarrow> verify_final_cert C fc0 \<and>
    successor_state (fc_finality fc0) = ro_state (rc_handoff h01) \<and> verify_rotation_cert C h01 \<and>
    verify_rotation_activation C a01 h01 \<and> fin_epoch (fc_finality fc1) = ro_to_epoch (rc_handoff h01) \<and>
    fin_from (fc_finality fc1) = ro_state (rc_handoff h01) \<and> verify_final_cert C fc1"

end
