(* ===== verification/LineageLog.thy ===== *)
theory LineageLog
  imports LineageNode HandoffSafety
begin

text \<open>
  The log of a lineage member: a record is read back as it was written, a replay of the log gives
  the fields in memory, and a write that fails leaves the fields of before or of after it.
\<close>

lemma entry_prefix_length [simp]: "length (entry_prefix e) = 112"
  by (simp add: entry_prefix_def LINEAGE_MAGIC_def ascii_def)

lemma encode_entry_length [simp]: "length (encode_entry C e) = LINEAGE_RECORD"
  by (simp add: encode_entry_def LINEAGE_RECORD_def)

definition entry_kind_ok :: "wal_entry \<Rightarrow> bool" where
  "entry_kind_ok e \<longleftrightarrow> we_kind e \<in> {K_ACTIVE, K_TRANSFER, K_RETIRED, K_ACTIVATED}"

lemma lineage_magic_length: "length LINEAGE_MAGIC = 8"
  by (simp add: LINEAGE_MAGIC_def ascii_def)

lemma decode_encode_entry:
  assumes "entry_kind_ok e"
  shows "decode_entry C (encode_entry C e) = Some e"
proof -
  let ?p = "entry_prefix e"
  have cut: "byte_slice 0 112 (encode_entry C e) = ?p"
    "byte_slice 112 144 (encode_entry C e) = array_bytes (lineage_checksum C ?p)"
    by (simp_all add: encode_entry_def byte_slice_def)
  obtain c where c: "encode_entry C e = LINEAGE_MAGIC @ [we_kind e] @ replicate 7 0 @ to_le64 (we_epoch e) @ to_le64 COIN_ID @
    to_le64 (we_generation e) @ to_le64 (we_aux e) @ array_bytes (we_d1 e) @ array_bytes (we_d2 e) @ c"
    by (simp add: encode_entry_def entry_prefix_def)
  have kind: "encode_entry C e ! 8 = we_kind e"
    by (simp add: c nth_append lineage_magic_length)
  show ?thesis
    using encode_entry_length [of C e] assms unfolding decode_entry_def cut kind entry_kind_ok_def
    by (simp add: c byte_slice_def lineage_magic_length)
qed

lemma lineage_record_pos [simp]: "0 < LINEAGE_RECORD"
  by (simp add: LINEAGE_RECORD_def)

lemma replay_log_append:
  "replay_log C epoch (xs @ ys) v = (case replay_log C epoch xs v of None \<Rightarrow> None | Some v' \<Rightarrow> replay_log C epoch ys v')"
  by (induction xs arbitrary: v) (auto split: option.splits)

section \<open>Stores\<close>

definition logged :: "crypto \<Rightarrow> lineage_store \<Rightarrow> lineage_view option" where
  "logged C st = replay_log C (ls_epoch st) (chunks_exact LINEAGE_RECORD (ls_file st)) empty_view"

text \<open>\<open>running_store\<close> holds while the process serves: the log is whole and says what memory says.\<close>

definition running_store :: "crypto \<Rightarrow> lineage_store \<Rightarrow> bool" where
  "running_store C st \<longleftrightarrow> length (ls_file st) mod LINEAGE_RECORD = 0 \<and> logged C st = Some (ls_view st)"

lemma open_lineage_running:
  assumes "open_lineage C epoch bytes = Some st"
  shows "running_store C st" and "ls_epoch st = epoch" and "ls_file st = bytes"
  using assms by (auto simp: open_lineage_def running_store_def logged_def split: if_splits)

lemma open_running:
  assumes "running_store C st"
  shows "open_lineage C (ls_epoch st) (ls_file st) = Some st"
  using assms by (cases st) (simp add: running_store_def open_lineage_def logged_def)

lemma append_entry_logged:
  assumes st: "running_store C st" and e: "entry_kind_ok e" "replay_entry (ls_epoch st) e (ls_view st) = Some v'"
    and run: "append_entry C io e v' st = (r, st')"
  shows "ls_epoch st' = ls_epoch st" and "r = None \<or> r = Some True"
    and "r \<noteq> None \<Longrightarrow> running_store C st' \<and> ls_view st' = v'"
    and "logged C st' = Some (ls_view st) \<or> logged C st' = Some v'"
proof -
  have grow: "replay_log C (ls_epoch st) (chunks_exact LINEAGE_RECORD (ls_file st @ bs)) empty_view =
      replay_log C (ls_epoch st) (chunks_exact LINEAGE_RECORD bs) (ls_view st)" for bs
    using st by (simp add: running_store_def logged_def chunks_exact_append replay_log_append)
  have full: "replay_log C (ls_epoch st) [encode_entry C e] (ls_view st) = Some v'"
    using e by (simp add: decode_encode_entry)
  have "ls_epoch st' = ls_epoch st \<and> (r = None \<or> r = Some True) \<and>
    (r \<noteq> None \<longrightarrow> running_store C st' \<and> ls_view st' = v') \<and> (logged C st' = Some (ls_view st) \<or> logged C st' = Some v')"
  proof (cases io)
    case None
    then have "r = Some True" "st' = st\<lparr>ls_file := ls_file st @ encode_entry C e, ls_view := v'\<rparr>"
      using run by (simp_all add: append_entry_def)
    moreover have "logged C st' = Some v'"
      using calculation full by (simp add: logged_def grow chunks_exact_one)
    moreover have "running_store C st'"
      using calculation st by (simp add: running_store_def mod_add_eq)
    ultimately show ?thesis
      by simp
  next
    case (Some k)
    then have "r = None" "st' = st\<lparr>ls_file := ls_file st @ take k (encode_entry C e)\<rparr>"
      using run by (simp_all add: append_entry_def)
    moreover have "logged C st' = (if k < LINEAGE_RECORD then Some (ls_view st) else Some v')"
      using full calculation by (simp add: logged_def grow chunks_exact_one)
    ultimately show ?thesis
      by simp
  qed
  then show "ls_epoch st' = ls_epoch st" and "r = None \<or> r = Some True"
    and "r \<noteq> None \<Longrightarrow> running_store C st' \<and> ls_view st' = v'"
    and "logged C st' = Some (ls_view st) \<or> logged C st' = Some v'"
    by auto
qed

text \<open>
  What an operation of the store does: it leaves the store alone and answers, or it records an entry
  whose replay gives the new fields.
\<close>

definition records :: "crypto \<Rightarrow> lineage_store \<Rightarrow> lineage_view \<Rightarrow> bool option \<Rightarrow> lineage_store \<Rightarrow> bool" where
  "records C st v' r st' \<longleftrightarrow> (\<exists>io e. entry_kind_ok e \<and> replay_entry (ls_epoch st) e (ls_view st) = Some v' \<and>
    append_entry C io e v' st = (r, st'))"

lemma records_logged:
  assumes "running_store C st" and "records C st v' r st'"
  shows "ls_epoch st' = ls_epoch st" and "r = None \<or> r = Some True"
    and "r \<noteq> None \<Longrightarrow> running_store C st' \<and> ls_view st' = v'"
    and "logged C st' = Some (ls_view st) \<or> logged C st' = Some v'"
proof -
  obtain io e where e: "entry_kind_ok e" "replay_entry (ls_epoch st) e (ls_view st) = Some v'"
    "append_entry C io e v' st = (r, st')"
    using assms(2) unfolding records_def by blast
  note facts = append_entry_logged [OF assms(1) e]
  show "ls_epoch st' = ls_epoch st" and "r = None \<or> r = Some True"
    and "r \<noteq> None \<Longrightarrow> running_store C st' \<and> ls_view st' = v'"
    and "logged C st' = Some (ls_view st) \<or> logged C st' = Some v'"
    using facts by auto
qed

lemma coin_state_eq: "sr_coin s = COIN_ID \<Longrightarrow> coin_state (sr_generation s) (sr_digest s) = s"
  by (cases s) (simp add: coin_state_def)

lemma successor_coin_state: "sr_coin (fin_from f) = COIN_ID \<Longrightarrow>
    successor_state f = coin_state (sr_generation (fin_from f) + 1) (fin_successor f)"
  by (simp add: successor_state_def coin_state_def)

lemma finalize_cases:
  assumes "finalize C io f st = (r, st')" and coin: "\<forall>s. lv_active (ls_view st) = Some s \<longrightarrow> sr_coin s = COIN_ID"
  obtains "r = Some False" "st' = st"
    | "r = Some True" "st' = st" "fin_epoch f = ls_epoch st" "lv_active (ls_view st) = Some (fin_from f)"
      "lv_transfers (ls_view st) (sr_generation (fin_from f)) = Some (fin_successor f)"
    | "fin_epoch f = ls_epoch st" "lv_active (ls_view st) = Some (fin_from f)"
      "lv_transfers (ls_view st) (sr_generation (fin_from f)) = None"
      "records C st ((ls_view st)\<lparr>lv_transfers := (lv_transfers (ls_view st))(sr_generation (fin_from f) \<mapsto> fin_successor f),
        lv_active := Some (successor_state f)\<rparr>) r st'"
proof (cases "fin_epoch f = ls_epoch st \<and> lv_active (ls_view st) = Some (fin_from f)")
  case False
  then show thesis
    using that(1) assms(1) by (auto simp: finalize_def Let_def)
next
  case True
  then have "sr_coin (fin_from f) = COIN_ID"
    using coin by blast
  note next_state = successor_coin_state [OF this]
  show thesis
  proof (cases "lv_transfers (ls_view st) (sr_generation (fin_from f))")
    case None
    let ?e = "\<lparr>we_kind = K_TRANSFER, we_epoch = ls_epoch st, we_generation = sr_generation (fin_from f), we_aux = 0,
      we_d1 = sr_digest (fin_from f), we_d2 = fin_successor f\<rparr>"
    have "records C st ((ls_view st)\<lparr>lv_transfers := (lv_transfers (ls_view st))(sr_generation (fin_from f) \<mapsto> fin_successor f),
        lv_active := Some (successor_state f)\<rparr>) r st'"
      unfolding records_def
      by (rule exI [of _ io], rule exI [of _ ?e])
        (use True None assms(1) in \<open>simp add: finalize_def Let_def entry_kind_ok_def replay_entry_def insert_same_def next_state lineage_kinds\<close>)
    then show thesis
      using that(3) True None by blast
  next
    case (Some old)
    then show thesis
      using that(1,2) True assms(1) by (cases "old = fin_successor f") (auto simp: finalize_def Let_def)
  qed
qed

lemma retire_cases:
  assumes "retire C io h st = (r, st')" and coin: "\<forall>s. lv_active (ls_view st) = Some s \<longrightarrow> sr_coin s = COIN_ID"
  obtains "r = Some False" "st' = st"
    | "r = Some True" "st' = st" "ro_from_epoch h = ls_epoch st" "ro_to_epoch h = ls_epoch st + 1"
      "lv_active (ls_view st) = Some (ro_state h)" "lv_retired (ls_view st) (ro_state h) = Some (rotation_hash C h)"
    | "ro_from_epoch h = ls_epoch st" "ro_to_epoch h = ls_epoch st + 1" "lv_active (ls_view st) = Some (ro_state h)"
      "lv_retired (ls_view st) (ro_state h) = None"
      "records C st ((ls_view st)\<lparr>lv_retired := (lv_retired (ls_view st))(ro_state h \<mapsto> rotation_hash C h), lv_active := None\<rparr>) r st'"
proof (cases "ro_from_epoch h = ls_epoch st \<and> ro_to_epoch h = ls_epoch st + 1 \<and> lv_active (ls_view st) = Some (ro_state h)")
  case False
  then show thesis
    using that(1) assms(1) by (auto simp: retire_def Let_def)
next
  case True
  then have "sr_coin (ro_state h) = COIN_ID"
    using coin by blast
  note state = coin_state_eq [OF this]
  show thesis
  proof (cases "lv_retired (ls_view st) (ro_state h)")
    case None
    let ?e = "\<lparr>we_kind = K_RETIRED, we_epoch = ls_epoch st, we_generation = sr_generation (ro_state h), we_aux = ro_to_epoch h,
      we_d1 = sr_digest (ro_state h), we_d2 = rotation_hash C h\<rparr>"
    have "records C st ((ls_view st)\<lparr>lv_retired := (lv_retired (ls_view st))(ro_state h \<mapsto> rotation_hash C h), lv_active := None\<rparr>) r st'"
      unfolding records_def
      by (rule exI [of _ io], rule exI [of _ ?e])
        (use True None assms(1) in \<open>simp add: retire_def Let_def entry_kind_ok_def replay_entry_def insert_same_def state lineage_kinds\<close>)
    then show thesis
      using that(3) True None by blast
  next
    case (Some old)
    then show thesis
      using that(1,2) True assms(1) by (cases "old = rotation_hash C h") (auto simp: retire_def Let_def)
  qed
qed

lemma activate_cases:
  assumes "activate C io h st = (r, st')" and coin: "sr_coin (ro_state h) = COIN_ID"
  defines "key \<equiv> (ro_from_epoch h, sr_generation (ro_state h))"
  obtains "r = Some False" "st' = st"
    | "r = Some True" "st' = st" "ro_to_epoch h = ls_epoch st" "ro_from_epoch h + 1 = ls_epoch st"
      "lv_activations (ls_view st) key = Some (rotation_hash C h)" "lv_active (ls_view st) = Some (ro_state h)"
    | "ro_to_epoch h = ls_epoch st" "ro_from_epoch h + 1 = ls_epoch st" "lv_activations (ls_view st) key = None"
      "lv_active (ls_view st) = None \<or> lv_active (ls_view st) = Some (ro_state h)"
      "records C st ((ls_view st)\<lparr>lv_activations := (lv_activations (ls_view st))(key \<mapsto> rotation_hash C h),
        lv_active := Some (ro_state h)\<rparr>) r st'"
proof (cases "ro_to_epoch h = ls_epoch st \<and> ro_from_epoch h + 1 = ls_epoch st")
  case False
  then show thesis
    using that(1) assms(1) by (auto simp: activate_def Let_def)
next
  case True
  note state = coin_state_eq [OF coin]
  show thesis
  proof (cases "lv_activations (ls_view st) key")
    case None
    show thesis
    proof (cases "lv_active (ls_view st) = None \<or> lv_active (ls_view st) = Some (ro_state h)")
      case False
      then show thesis
        using that(1) True None assms(1) by (simp add: activate_def Let_def key_def)
    next
      case act: True
      let ?e = "\<lparr>we_kind = K_ACTIVATED, we_epoch = ls_epoch st, we_generation = sr_generation (ro_state h),
        we_aux = ro_from_epoch h, we_d1 = sr_digest (ro_state h), we_d2 = rotation_hash C h\<rparr>"
      have "records C st ((ls_view st)\<lparr>lv_activations := (lv_activations (ls_view st))(key \<mapsto> rotation_hash C h),
          lv_active := Some (ro_state h)\<rparr>) r st'"
        unfolding records_def
        by (rule exI [of _ io], rule exI [of _ ?e])
          (use True None act assms(1) in \<open>auto simp: activate_def Let_def entry_kind_ok_def replay_entry_def insert_same_def state
            lineage_kinds key_def [symmetric]\<close>)
      then show thesis
        using that(3) True None act by blast
    qed
  next
    case (Some old)
    then show thesis
      using that(1,2) True assms(1)
      by (cases "old = rotation_hash C h \<and> lv_active (ls_view st) = Some (ro_state h)") (auto simp: activate_def Let_def key_def)
  qed
qed

lemma bootstrap_cases:
  assumes "bootstrap C io s st = (r, st')" and coin: "sr_coin s = COIN_ID"
  obtains "r = Some True" "st' = st" "lv_active (ls_view st) \<noteq> None"
    | "lv_active (ls_view st) = None" "records C st ((ls_view st)\<lparr>lv_active := Some s\<rparr>) r st'"
proof (cases "lv_active (ls_view st)")
  case None
  let ?e = "\<lparr>we_kind = K_ACTIVE, we_epoch = ls_epoch st, we_generation = sr_generation s, we_aux = 0, we_d1 = sr_digest s,
    we_d2 = zero_array\<rparr>"
  have "records C st ((ls_view st)\<lparr>lv_active := Some s\<rparr>) r st'"
    unfolding records_def
    by (rule exI [of _ io], rule exI [of _ ?e])
      (use None assms(1) in \<open>simp add: bootstrap_def Let_def entry_kind_ok_def replay_entry_def coin_state_eq [OF coin] lineage_kinds\<close>)
  then show thesis
    using that(2) None by blast
next
  case (Some s')
  then show thesis
    using that(1) assms(1) by (simp add: bootstrap_def Let_def)
qed

end
