(* ===== verification/LineageWire.thy ===== *)
theory LineageWire
  imports LineageNode HandoffWire
begin

text \<open>
  The byte format of the lineage requests: each reader accepts exactly what its writer produces,
  followed by anything, and a stream that ends early is an error.
\<close>

interpretation state_stream: stream_codec "\<lambda>_. True" write_state read_state
proof
  show "read_state (write_state s @ rest) = Some (s, rest)" for s rest
    by (cases s) (simp add: read_state_def write_state_def stream_exact)
  show "True \<and> b = write_state s @ rest" if "read_state b = Some (s, rest)" for b s rest
    using that by (auto simp: read_state_def write_state_def stream_exact)
qed

lemmas lineage_stream_exact = stream_exact state_stream.exact

interpretation finality_stream: stream_codec "\<lambda>_. True" write_finality read_finality
proof
  show "read_finality (write_finality f @ rest) = Some (f, rest)" for f rest
    by (cases f) (simp add: read_finality_def write_finality_def lineage_stream_exact)
  show "True \<and> b = write_finality f @ rest" if "read_finality b = Some (f, rest)" for b f rest
    using that by (auto simp: read_finality_def write_finality_def lineage_stream_exact)
qed

interpretation rotation_stream: stream_codec "\<lambda>_. True" write_rotation read_rotation
proof
  show "read_rotation (write_rotation h @ rest) = Some (h, rest)" for h rest
    by (cases h) (simp add: read_rotation_def write_rotation_def lineage_stream_exact)
  show "True \<and> b = write_rotation h @ rest" if "read_rotation b = Some (h, rest)" for b h rest
    using that by (auto simp: read_rotation_def write_rotation_def lineage_stream_exact)
qed

interpretation challenge_stream: stream_codec "\<lambda>_. True" write_challenge read_challenge
proof
  show "read_challenge (write_challenge c @ rest) = Some (c, rest)" for c rest
    by (cases c) (simp add: read_challenge_def write_challenge_def lineage_stream_exact)
  show "True \<and> b = write_challenge c @ rest" if "read_challenge b = Some (c, rest)" for b c rest
    using that by (auto simp: read_challenge_def write_challenge_def lineage_stream_exact)
qed

definition sendable_rotation :: "rotation_cert \<Rightarrow> bool" where
  "sendable_rotation cert \<longleftrightarrow> length (rc_shares cert) \<le> LINEAGE_N \<and> (\<forall>s \<in> set (rc_shares cert). ss_index s < 256)"

lemma lineage_n: "LINEAGE_N = HANDOFF_N"
  by (simp add: LINEAGE_N_def HANDOFF_N_def)

lemma signed_share_pairs:
  "map (\<lambda>(i, sig). \<lparr>ss_index = i, ss_signature = sig\<rparr>) ps = shares \<longleftrightarrow> ps = map (\<lambda>s. (ss_index s, ss_signature s)) shares"
  by (rule map_inverse) (auto split: prod.splits)

lemma read_rotation_cert_exact:
  "read_rotation_cert s = Some (cert, rest) \<longleftrightarrow> sendable_rotation cert \<and> s = write_rotation_cert cert @ rest"
proof -
  obtain h shares where cert: "cert = \<lparr>rc_handoff = h, rc_shares = shares\<rparr>"
    by (cases cert) auto
  let ?ps = "map (\<lambda>s. (ss_index s, ss_signature s)) shares"
  have wrote: "concat (map (\<lambda>p. write_share (fst p) (snd p)) ?ps) = concat (map (\<lambda>s. write_share (ss_index s) (ss_signature s)) shares)"
    by (simp add: comp_def)
  have "read_rotation_cert s = Some (cert, rest) \<longleftrightarrow>
      (\<exists>s'. s = write_rotation h @ s' \<and> length ?ps \<le> HANDOFF_N \<and> (\<forall>p \<in> set ?ps. fst p < 256) \<and>
        s' = of_nat (length ?ps) # concat (map (\<lambda>p. write_share (fst p) (snd p)) ?ps) @ rest)"
    unfolding read_rotation_cert_def cert bind_read_exact [of read_rotation] rotation_stream.exact lineage_n counted_shares
      rotation_cert.ext_inject eq_commute [of shares] signed_share_pairs
    by blast
  then show ?thesis
    unfolding wrote by (auto simp: sendable_rotation_def write_rotation_cert_def cert lineage_n)
qed

interpretation rotation_cert_stream: stream_codec sendable_rotation write_rotation_cert read_rotation_cert
  by unfold_locales (simp_all add: read_rotation_cert_exact)

end
