(* ===== verification/LineageControl.thy ===== *)
theory LineageControl
  imports LineageNode
begin

text \<open>
  The controller of the long-range experiment (\<open>controller\<close> of \<open>sec015/src/main.rs\<close>): it starts three
  committees, carries the state through them, and attacks the last but one with a stale prefix.
  The environment says how every request goes, in which order a \<open>HashMap\<close> yields its values, how the
  first log write of a process ends and whether its readiness requests arrive.
\<close>

record lineage_env =
  le_order :: "nat \<Rightarrow> signed_share list \<Rightarrow> signed_share list"
  le_net :: "nat \<Rightarrow> nat \<Rightarrow> handoff_link"
  le_log :: "u64 \<Rightarrow> nat \<Rightarrow> nat option"
  le_ready :: "u64 \<Rightarrow> nat \<Rightarrow> bool"

definition check :: "bool \<Rightarrow> string \<Rightarrow> string + unit" where
  "check ok message = (if ok then Inr () else Inl message)"

definition asked_by :: "lineage_env \<Rightarrow> nat \<Rightarrow> nat list \<Rightarrow> (nat \<times> handoff_link) list" where
  "asked_by env k indices = map (\<lambda>i. (i, le_net env k i)) indices"

definition spawn_member :: "crypto \<Rightarrow> lineage_env \<Rightarrow> u64 \<Rightarrow> nat \<Rightarrow> string + lineage_node" where
  "spawn_member C env epoch i =
    (let node = start_member C (le_log env epoch i) epoch i (i < 2) [] in
     if ln_up node \<and> le_ready env epoch i then Inr node else Inl ''node not ready'')"

definition respawn_member :: "crypto \<Rightarrow> lineage_env \<Rightarrow> lineage_node \<Rightarrow> string + lineage_node" where
  "respawn_member C env node =
    (let node' = restart_member C (le_log env (ln_epoch node) (ln_index node)) node in
     if ln_up node' \<and> le_ready env (ln_epoch node) (ln_index node) then Inr node' else Inl ''node not ready'')"

text \<open>The start of the three committees: one member of each, seven times.\<close>

fun spawn_committees ::
  "crypto \<Rightarrow> lineage_env \<Rightarrow> nat list \<Rightarrow> string + (lineage_node list \<times> lineage_node list \<times> lineage_node list)" where
  "spawn_committees C env [] = Inr ([], [], [])"
| "spawn_committees C env (i # is) =
    bindE (spawn_member C env EPOCH_30 i) (\<lambda>n0.
    bindE (spawn_member C env EPOCH_31 i) (\<lambda>n1.
    bindE (spawn_member C env EPOCH_32 i) (\<lambda>n2.
    map_ok (\<lambda>(c0, c1, c2). (n0 # c0, n1 # c1, n2 # c2)) (spawn_committees C env is))))"

text \<open>The history a client is shown: one transfer in each of the first two committees, and the rotation between.\<close>

record shown_prefix =
  sp_fc0 :: final_cert
  sp_hc01 :: rotation_cert
  sp_ac01 :: rotation_activation
  sp_fc1 :: final_cert
  sp_c0 :: "lineage_node list"
  sp_c1 :: "lineage_node list"

definition first_transfer :: "crypto \<Rightarrow> finality" where
  "first_transfer C = \<lparr>fin_epoch = EPOCH_30, fin_from = genesis_state C,
    fin_successor = successor_digest C (genesis_state C) ''ALICE_TO_BOB''\<rparr>"

definition first_handoff :: "crypto \<Rightarrow> rotation" where
  "first_handoff C = \<lparr>ro_from_epoch = EPOCH_30, ro_to_epoch = EPOCH_31, ro_state = successor_state (first_transfer C)\<rparr>"

definition second_transfer :: "crypto \<Rightarrow> finality" where
  "second_transfer C = (let s1 = successor_state (first_transfer C) in
    \<lparr>fin_epoch = EPOCH_31, fin_from = s1, fin_successor = successor_digest C s1 ''BOB_TO_CAROL''\<rparr>)"

definition second_handoff :: "crypto \<Rightarrow> rotation" where
  "second_handoff C = \<lparr>ro_from_epoch = EPOCH_31, ro_to_epoch = EPOCH_32, ro_state = successor_state (second_transfer C)\<rparr>"

definition show_prefix :: "crypto \<Rightarrow> lineage_env \<Rightarrow> lineage_node list \<Rightarrow> lineage_node list \<Rightarrow> string + shown_prefix" where
  "show_prefix C env c0 c1 =
    bindE (ok_or ''index'' (collect_final C (le_order env 0) (first_transfer C) (asked_by env 0 [0, 1, 2, 3, 4, 5, 6]) c0)) (\<lambda>(fc0, c0).
    bindE (check (verify_final_cert C fc0) ''epoch-30 finality failed'') (\<lambda>_.
    bindE (ok_or ''index'' (collect_rotation C (le_order env 1) (first_handoff C) (asked_by env 1 [0, 1, 2, 3, 4]) c0)) (\<lambda>(hc01, c0).
    bindE (check (verify_rotation_cert C hc01) ''30->31 handoff failed'') (\<lambda>_.
    bindE (ok_or ''index'' (collect_epoch_activation C (le_order env 2) hc01 (asked_by env 2 [0, 1, 2, 3, 4, 5, 6]) c1)) (\<lambda>(ac01, c1).
    bindE (check (verify_rotation_activation C ac01 hc01) ''epoch-31 activation failed'') (\<lambda>_.
    bindE (ok_or ''index'' (collect_final C (le_order env 3) (second_transfer C) (asked_by env 3 [0, 1, 2, 3, 4, 5, 6]) c1)) (\<lambda>(fc1, c1).
    bindE (check (verify_final_cert C fc1) ''epoch-31 finality failed'') (\<lambda>_.
    Inr \<lparr>sp_fc0 = fc0, sp_hc01 = hc01, sp_ac01 = ac01, sp_fc1 = fc1, sp_c0 = c0, sp_c1 = c1\<rparr>))))))))"

text \<open>The baseline of the freshness challenge, and the rotation that makes the prefix stale.\<close>

definition old_nonce :: "crypto \<Rightarrow> digest" where
  "old_nonce C = client_nonce C ''SEC015-OLD-CLIENT-NONCE''"

definition fresh_nonce :: "crypto \<Rightarrow> digest" where
  "fresh_nonce C = client_nonce C ''SEC015-FRESH-CLIENT-NONCE''"

definition rotate_again ::
  "crypto \<Rightarrow> lineage_env \<Rightarrow> lineage_node list \<Rightarrow> lineage_node list \<Rightarrow>
    string + (fresh_cert \<times> lineage_node list \<times> lineage_node list)" where
  "rotate_again C env c1 c2 =
    (let s2 = successor_state (second_transfer C) in
    bindE (ok_or ''index'' (collect_fresh C (le_order env 4) EPOCH_31 s2 (old_nonce C) (asked_by env 4 [0, 1, 2, 3, 4]) c1)) (\<lambda>(old_fresh, c1).
    bindE (check (verify_fresh_cert C old_fresh) ''pre-handoff epoch-31 freshness baseline failed'') (\<lambda>_.
    bindE (ok_or ''index'' (collect_rotation C (le_order env 5) (second_handoff C) (asked_by env 5 [0, 1, 2, 3, 4]) c1)) (\<lambda>(hc12, c1).
    bindE (check (verify_rotation_cert C hc12) ''31->32 handoff failed'') (\<lambda>_.
    bindE (ok_or ''index'' (collect_epoch_activation C (le_order env 6) hc12 (asked_by env 6 [0, 1, 2, 3, 4, 5, 6]) c2)) (\<lambda>(ac12, c2).
    bindE (check (verify_rotation_activation C ac12 hc12) ''epoch-32 activation failed'') (\<lambda>_.
    Inr (old_fresh, c1, c2))))))))"

text \<open>The attacks on the retired committee, and the challenge to the current one.\<close>

definition boundary_cert :: "crypto \<Rightarrow> fresh_cert" where
  "boundary_cert C = (let s2 = successor_state (second_transfer C); n = client_nonce C ''SEC015-F3-BOUNDARY'' in
    \<lparr>fr_epoch = EPOCH_31, fr_state = s2, fr_nonce = n,
     fr_shares = map (\<lambda>i. \<lparr>ss_index = i,
       ss_signature = sign_with C (committee_key C EPOCH_31 i) (freshness_message EPOCH_31 s2 n i)\<rparr>) [0, 1, 2, 5, 6]\<rparr>)"

definition stale_attacks ::
  "crypto \<Rightarrow> lineage_env \<Rightarrow> fresh_cert \<Rightarrow> lineage_node list \<Rightarrow> string + nat" where
  "stale_attacks C env old_fresh c1 =
    (let s2 = successor_state (second_transfer C) in
    bindE (ok_or ''index'' (collect_fresh C (le_order env 7) EPOCH_31 s2 (fresh_nonce C) (asked_by env 7 [0, 1, 2, 3, 4, 5, 6]) c1)) (\<lambda>(stale_fresh, c1).
    let stale_count = card (ss_index ` set (fr_shares stale_fresh)) in
    bindE (check (stale_count < LINEAGE_Q) ''retired stale epoch unexpectedly answered fresh challenge'') (\<lambda>_.
    bindE (check (\<not> verify_fresh_cert C (old_fresh\<lparr>fr_nonce := fresh_nonce C\<rparr>)) ''old freshness certificate replayed under a new client nonce'') (\<lambda>_.
    bindE (respawn_member C env (c1 ! 2)) (\<lambda>node.
    bindE (check (fst (rpc_fresh C EPOCH_31 s2 (fresh_nonce C) (le_net env 8 2) node) = None)
      ''restarted retired honest epoch-31 signer answered freshness challenge'') (\<lambda>_.
    Inr stale_count))))))"

definition current_challenges :: "crypto \<Rightarrow> lineage_env \<Rightarrow> lineage_node list \<Rightarrow> string + unit" where
  "current_challenges C env c2 =
    (let s2 = successor_state (second_transfer C) in
    bindE (ok_or ''index'' (collect_fresh C (le_order env 9) EPOCH_32 s2 (fresh_nonce C) (asked_by env 9 [2, 3, 4, 5, 6]) c2)) (\<lambda>(current_fresh, c2).
    bindE (check (verify_fresh_cert C current_fresh) ''current epoch-32 honest quorum failed freshness challenge'') (\<lambda>_.
    bindE (ok_or ''index'' (collect_fresh C (le_order env 10) EPOCH_32 s2 (client_nonce C ''SEC015-PARTIAL'') (asked_by env 10 [2, 3, 4]) c2)) (\<lambda>(partial, c2).
    bindE (check (\<not> verify_fresh_cert C partial) ''partial current committee unexpectedly made freshness quorum'') (\<lambda>_.
    check (verify_fresh_cert C (boundary_cert C)) ''expected f=3 stale-freshness boundary witness missing'')))))"

text \<open>The result is the number of members of the retired committee that answered the fresh challenge.\<close>

definition lineage_controller :: "crypto \<Rightarrow> lineage_env \<Rightarrow> string + nat" where
  "lineage_controller C env =
    bindE (spawn_committees C env [0..<LINEAGE_N]) (\<lambda>(c0, c1, c2).
    bindE (show_prefix C env c0 c1) (\<lambda>p.
    bindE (rotate_again C env (sp_c1 p) c2) (\<lambda>(old_fresh, c1, c2).
    bindE (check (naive_prefix_valid C (sp_fc0 p) (sp_hc01 p) (sp_ac01 p) (sp_fc1 p)) ''stale prefix should be cryptographically valid'') (\<lambda>_.
    bindE (stale_attacks C env old_fresh c1) (\<lambda>stale_count.
    bindE (current_challenges C env c2) (\<lambda>_. Inr stale_count))))))"

end
