(* ===== verification/LineageProgress.thy ===== *)
theory LineageProgress
  imports LineageLog LineageWire LineageControl HandoffProgress
begin

text \<open>
  What the members of a lineage committee answer when the network delivers: the exact share, or the
  refusal, and the member afterwards; and what a collector then returns.
\<close>

section \<open>Members at rest\<close>

definition member_at :: "crypto \<Rightarrow> u64 \<Rightarrow> nat \<Rightarrow> lineage_view \<Rightarrow> lineage_node \<Rightarrow> bool" where
  "member_at C e i v node \<longleftrightarrow> ln_up node \<and> \<not> ln_byzantine node \<and> ln_epoch node = e \<and> ln_index node = i \<and> i < LINEAGE_N \<and>
    (\<exists>st. ln_store node = Some st \<and> ls_epoch st = e \<and> running_store C st \<and> ls_view st = v)"

definition traitor_at :: "u64 \<Rightarrow> nat \<Rightarrow> lineage_node \<Rightarrow> bool" where
  "traitor_at e i node \<longleftrightarrow> ln_up node \<and> ln_byzantine node \<and> ln_epoch node = e \<and> ln_index node = i \<and> i < LINEAGE_N"

definition share_of :: "crypto \<Rightarrow> u64 \<Rightarrow> (nat \<Rightarrow> u8 list) \<Rightarrow> nat \<Rightarrow> signed_share" where
  "share_of C e m i = \<lparr>ss_index = i, ss_signature = sign_with C (committee_key C e i) (m i)\<rparr>"

definition grants :: "crypto \<Rightarrow> u64 \<Rightarrow> (nat \<Rightarrow> u8 list) \<Rightarrow> nat \<Rightarrow> lineage_served \<Rightarrow> lineage_node \<Rightarrow> bool" where
  "grants C e m i served node \<longleftrightarrow> served = ([1, of_nat i] @ array_bytes (sign_with C (committee_key C e i) (m i)), [m i], node)"

lemma answer_if_grants:
  "ln_epoch node = e \<Longrightarrow> ln_index node = i \<Longrightarrow> grants C e m i (answer_if C None (m i) (Some True, node)) node"
  by (simp add: grants_def answer_if_def answer_signed_def Let_def)

lemma answer_if_refuses: "answer_if C None m (Some False, node) = ([0], [], node)"
  by (simp add: answer_if_def answer_plain_def)

lemma lineage_dispatch:
  assumes "ln_up node"
  shows "lineage_connection C io sent (LN_FINALIZE # body) node = finalize_request C io sent body node"
    and "lineage_connection C io sent (LN_HANDOFF # body) node = rotation_request C io sent body node"
    and "lineage_connection C io sent (LN_ACTIVATE # body) node = activate_request C io sent body node"
    and "lineage_connection C io sent (LN_FRESHNESS # body) node = freshness_request C sent body node"
  using assms by (simp_all add: lineage_connection_def lineage_ops)

lemma with_store_grants:
  assumes at: "member_at C e i v node" and st: "ln_store node = Some st" and run: "op st = (Some True, st')"
    and records: "records C st v' (Some True) st'"
  shows "with_store op node = (Some True, node\<lparr>ln_store := Some st'\<rparr>) \<and> member_at C e i v' (node\<lparr>ln_store := Some st'\<rparr>)"
proof -
  have s: "ls_epoch st = e" "running_store C st"
    using at st by (auto simp: member_at_def)
  have "running_store C st'" "ls_view st' = v'" "ls_epoch st' = e"
    using records_logged [OF s(2) records] s(1) by simp_all
  then show ?thesis
    using at st run by (simp add: with_store_def member_at_def)
qed

lemma member_store:
  assumes "member_at C e i v node"
  obtains st where "ln_store node = Some st" "ls_epoch st = e" "running_store C st" "ls_view st = v"
  using assms by (auto simp: member_at_def)

lemma append_entry_ok: "append_entry C None e v st = (r, st') \<Longrightarrow> r = Some True"
  by (simp add: append_entry_def)

section \<open>The four requests\<close>

definition after_finality :: "finality \<Rightarrow> lineage_view \<Rightarrow> lineage_view" where
  "after_finality f v = v\<lparr>lv_transfers := (lv_transfers v)(sr_generation (fin_from f) \<mapsto> fin_successor f),
    lv_active := Some (successor_state f)\<rparr>"

definition after_handoff :: "crypto \<Rightarrow> rotation \<Rightarrow> lineage_view \<Rightarrow> lineage_view" where
  "after_handoff C h v = v\<lparr>lv_retired := (lv_retired v)(ro_state h \<mapsto> rotation_hash C h), lv_active := None\<rparr>"

definition after_activation :: "crypto \<Rightarrow> rotation \<Rightarrow> lineage_view \<Rightarrow> lineage_view" where
  "after_activation C h v = v\<lparr>lv_activations :=
    (lv_activations v)((ro_from_epoch h, sr_generation (ro_state h)) \<mapsto> rotation_hash C h), lv_active := Some (ro_state h)\<rparr>"

lemma finality_granted:
  assumes at: "member_at C e i v node" and f: "fin_epoch f = e" "lv_active v = Some (fin_from f)"
    "lv_transfers v (sr_generation (fin_from f)) = None" "sr_coin (fin_from f) = COIN_ID"
  obtains node' where
    "grants C e (final_share_message f) i (lineage_connection C None None (LN_FINALIZE # write_finality f) node) node'"
    "member_at C e i (after_finality f v) node'"
proof -
  obtain st where st: "ln_store node = Some st" "ls_epoch st = e" "running_store C st" "ls_view st = v"
    by (rule member_store [OF at])
  obtain r st' where run: "finalize C None f st = (r, st')"
    by force
  have coin: "\<forall>s. lv_active (ls_view st) = Some s \<longrightarrow> sr_coin s = COIN_ID"
    using f(2,4) st(4) by simp
  have "records C st (after_finality f v) r st' \<and> r = Some True"
    using run coin
  proof (cases rule: finalize_cases)
    case 1
    then show ?thesis
      using run f st by (simp add: finalize_def append_entry_def)
  next
    case 2
    then show ?thesis
      using f st by simp
  next
    case 3
    then show ?thesis
      using run f st by (simp add: finalize_def append_entry_def after_finality_def)
  qed
  then have w: "with_store (finalize C None f) node = (Some True, node\<lparr>ln_store := Some st'\<rparr>)"
    "member_at C e i (after_finality f v) (node\<lparr>ln_store := Some st'\<rparr>)"
    using with_store_grants [OF at st(1), of "finalize C None f" st'] run by auto
  have node: "ln_up node" "\<not> ln_byzantine node" "ln_index node = i"
    using at by (simp_all add: member_at_def)
  have "lineage_connection C None None (LN_FINALIZE # write_finality f) node =
      answer_if C None (final_share_message f i) (Some True, node\<lparr>ln_store := Some st'\<rparr>)"
    using node w(1) by (simp add: lineage_dispatch finalize_request_def finality_stream.get_put_nil)
  then show thesis
    using that [OF _ w(2)] answer_if_grants [of "node\<lparr>ln_store := Some st'\<rparr>" e i C "final_share_message f"] w(2)
    by (simp add: member_at_def)
qed

lemma handoff_granted:
  assumes at: "member_at C e i v node" and h: "ro_from_epoch h = e" "ro_to_epoch h = e + 1" "lv_active v = Some (ro_state h)"
    "lv_retired v (ro_state h) = None" "sr_coin (ro_state h) = COIN_ID"
  obtains node' where
    "grants C e (rotation_share_message h) i (lineage_connection C None None (LN_HANDOFF # write_rotation h) node) node'"
    "member_at C e i (after_handoff C h v) node'"
proof -
  obtain st where st: "ln_store node = Some st" "ls_epoch st = e" "running_store C st" "ls_view st = v"
    by (rule member_store [OF at])
  obtain r st' where run: "retire C None h st = (r, st')"
    by force
  have coin: "\<forall>s. lv_active (ls_view st) = Some s \<longrightarrow> sr_coin s = COIN_ID"
    using h(3,5) st(4) by simp
  have "records C st (after_handoff C h v) r st' \<and> r = Some True"
    using run coin
  proof (cases rule: retire_cases)
    case 1
    then show ?thesis
      using run h st by (simp add: retire_def append_entry_def)
  next
    case 2
    then show ?thesis
      using h st by simp
  next
    case 3
    then show ?thesis
      using run h st by (simp add: retire_def append_entry_def after_handoff_def)
  qed
  then have w: "with_store (retire C None h) node = (Some True, node\<lparr>ln_store := Some st'\<rparr>)"
    "member_at C e i (after_handoff C h v) (node\<lparr>ln_store := Some st'\<rparr>)"
    using with_store_grants [OF at st(1), of "retire C None h" st'] run by auto
  have node: "ln_up node" "\<not> ln_byzantine node" "ln_index node = i"
    using at by (simp_all add: member_at_def)
  have "lineage_connection C None None (LN_HANDOFF # write_rotation h) node =
      answer_if C None (rotation_share_message h i) (Some True, node\<lparr>ln_store := Some st'\<rparr>)"
    using node w(1) by (simp add: lineage_dispatch rotation_request_def rotation_stream.get_put_nil)
  then show thesis
    using that [OF _ w(2)] answer_if_grants [of "node\<lparr>ln_store := Some st'\<rparr>" e i C "rotation_share_message h"] w(2)
    by (simp add: member_at_def)
qed

lemma activation_granted:
  assumes at: "member_at C e i v node" and cert: "verify_rotation_cert C cert" "sendable_rotation cert"
    and h: "rc_handoff cert = h" "ro_to_epoch h = e" "lv_activations v (ro_from_epoch h, sr_generation (ro_state h)) = None"
    "lv_active v = None" "sr_coin (ro_state h) = COIN_ID"
  obtains node' where
    "grants C e (epoch_activation_message e (rotation_hash C h)) i
      (lineage_connection C None None (LN_ACTIVATE # write_rotation_cert cert) node) node'"
    "member_at C e i (after_activation C h v) node'"
proof -
  obtain st where st: "ln_store node = Some st" "ls_epoch st = e" "running_store C st" "ls_view st = v"
    by (rule member_store [OF at])
  have "ro_from_epoch h + 1 = e"
    using cert(1) h(1,2) by (simp add: verify_rotation_cert_def split: if_splits)
  note h = h this
  obtain r st' where run: "activate C None h st = (r, st')"
    by force
  have "records C st (after_activation C h v) r st' \<and> r = Some True"
    using run h(5)
  proof (cases rule: activate_cases)
    case 1
    then show ?thesis
      using run h st by (simp add: activate_def append_entry_def)
  next
    case 2
    then show ?thesis
      using h st by simp
  next
    case 3
    then show ?thesis
      using run h st by (simp add: activate_def append_entry_def after_activation_def)
  qed
  then have w: "with_store (activate C None h) node = (Some True, node\<lparr>ln_store := Some st'\<rparr>)"
    "member_at C e i (after_activation C h v) (node\<lparr>ln_store := Some st'\<rparr>)"
    using with_store_grants [OF at st(1), of "activate C None h" st'] run by auto
  have node: "ln_up node" "\<not> ln_byzantine node" "ln_index node = i" "ln_epoch node = e"
    using at by (simp_all add: member_at_def)
  have "lineage_connection C None None (LN_ACTIVATE # write_rotation_cert cert) node =
      answer_if C None (epoch_activation_message e (rotation_hash C h) i) (Some True, node\<lparr>ln_store := Some st'\<rparr>)"
    using node w(1) cert h by (simp add: lineage_dispatch activate_request_def rotation_cert_stream.get_put_nil)
  then show thesis
    using that [OF _ w(2)] answer_if_grants [of "node\<lparr>ln_store := Some st'\<rparr>" e i C "epoch_activation_message e (rotation_hash C h)"] w(2)
    by (simp add: member_at_def)
qed

lemma challenge_served:
  assumes at: "member_at C e i v node"
  shows "lv_active v = Some s \<Longrightarrow>
      grants C e (freshness_message e s nonce) i (lineage_connection C None None (LN_FRESHNESS # write_challenge (e, s, nonce)) node) node"
    and "lv_active v \<noteq> Some s \<Longrightarrow> lineage_connection C None None (LN_FRESHNESS # write_challenge (e, s, nonce)) node = ([0], [], node)"
proof -
  obtain st where st: "ln_store node = Some st" "ls_epoch st = e" "running_store C st" "ls_view st = v"
    by (rule member_store [OF at])
  have node: "ln_up node" "\<not> ln_byzantine node" "ln_index node = i" "ln_epoch node = e"
    using at by (simp_all add: member_at_def)
  have w: "with_store (\<lambda>st. (Some (active_matches st s), st)) node = (Some (lv_active v = Some s), node)"
    using st by (cases node) (simp add: with_store_def active_matches_def)
  have "lineage_connection C None None (LN_FRESHNESS # write_challenge (e, s, nonce)) node =
      answer_if C None (freshness_message e s nonce i) (Some (lv_active v = Some s), node)"
    using node w by (simp add: lineage_dispatch freshness_request_def challenge_stream.get_put_nil)
  then show "lv_active v = Some s \<Longrightarrow>
      grants C e (freshness_message e s nonce) i (lineage_connection C None None (LN_FRESHNESS # write_challenge (e, s, nonce)) node) node"
    and "lv_active v \<noteq> Some s \<Longrightarrow> lineage_connection C None None (LN_FRESHNESS # write_challenge (e, s, nonce)) node = ([0], [], node)"
    using answer_if_grants [of node e i C "freshness_message e s nonce"] node(3,4) by (simp_all add: answer_if_refuses)
qed

lemma traitor_granted:
  assumes at: "traitor_at e i node"
  shows "fin_epoch f = e \<Longrightarrow>
      grants C e (final_share_message f) i (lineage_connection C None None (LN_FINALIZE # write_finality f) node) node"
    and "ro_from_epoch h = e \<Longrightarrow>
      grants C e (rotation_share_message h) i (lineage_connection C None None (LN_HANDOFF # write_rotation h) node) node"
    and "verify_rotation_cert C cert \<Longrightarrow> sendable_rotation cert \<Longrightarrow> ro_to_epoch (rc_handoff cert) = e \<Longrightarrow>
      grants C e (epoch_activation_message e (rotation_hash C (rc_handoff cert))) i
        (lineage_connection C None None (LN_ACTIVATE # write_rotation_cert cert) node) node"
    and "grants C e (freshness_message e s nonce) i (lineage_connection C None None (LN_FRESHNESS # write_challenge (e, s, nonce)) node) node"
  using at answer_if_grants [of node e i C]
  by (simp_all add: traitor_at_def lineage_dispatch finalize_request_def rotation_request_def activate_request_def freshness_request_def
    finality_stream.get_put_nil rotation_stream.get_put_nil rotation_cert_stream.get_put_nil challenge_stream.get_put_nil)

end
