(* ===== verification/LineageCollect.thy ===== *)
theory LineageCollect
  imports LineageProgress
begin

text \<open>
  What the collectors return over a committee whose network delivers: exactly the shares of the
  members that grant the request, so that the certificate verifies if and only if five of them do.
\<close>

section \<open>One request\<close>

lemma share_of_index [simp]: "ss_index (share_of C e m i) = i"
  by (simp add: share_of_def)

lemma share_of_signed:
  assumes "signatures_verify C" and "i < LINEAGE_N"
  shows "member_signed C e m (share_of C e m i)"
  using signatures_verifyD [OF assms(1)] assms(2) by (simp add: member_signed_def share_of_def)

lemma rpc_granted:
  assumes sigs: "signatures_verify C" and i: "i < LINEAGE_N"
    and grants: "grants C e m i (lineage_connection C None None request node) node'"
  shows "rpc_share C (member_signed C e m) request fine_link node = (Some (share_of C e m i), [m i], node')"
proof -
  have "read_granted read_share ([1, of_nat i] @ array_bytes (sign_with C (committee_key C e i) (m i))) =
      Some ((i, sign_with C (committee_key C e i) (m i)), [])"
    by (rule read_granted_share) (use i in \<open>simp add: LINEAGE_N_def\<close>)
  then show ?thesis
    using grants share_of_signed [OF sigs i, of e m]
    by (simp add: grants_def rpc_share_def call_node_def fine_link_def accept_share_def share_of_def)
qed

lemma rpc_refused:
  assumes "lineage_connection C None None request node = ([0], [], node')"
  shows "rpc_share C ok request fine_link node = (None, [], node')"
proof -
  have "read_granted read_share [0] = None"
    by (simp add: read_granted_def bind_read_def byte_codec.get_put_nil [simplified])
  then show ?thesis
    using assms by (simp add: rpc_share_def call_node_def fine_link_def accept_share_def)
qed

section \<open>The loop over the members\<close>

lemma ask_nodes_each:
  assumes "distinct members" and "\<And>i. i \<in> set members \<Longrightarrow> i < length nodes"
    and "\<And>i. i \<in> set members \<Longrightarrow> \<exists>ms node'. rpc fine_link (nodes ! i) = (ans i, ms, node') \<and> good i node'"
  shows "\<exists>nodes'. ask_nodes rpc (ask_members members) nodes = Some (List.map_filter ans members, nodes') \<and>
    length nodes' = length nodes \<and> (\<forall>i \<in> set members. good i (nodes' ! i)) \<and> (\<forall>j. j \<notin> set members \<longrightarrow> nodes' ! j = nodes ! j)"
  using assms
proof (induction members arbitrary: nodes)
  case (Cons i members)
  obtain ms node' where a: "rpc fine_link (nodes ! i) = (ans i, ms, node')" "good i node'"
    using Cons.prems(3) [of i, OF list.set_intros(1)] by blast
  have same: "nodes[i := node'] ! j = nodes ! j" if "j \<in> set members" for j
    using that Cons.prems(1) by (cases "i = j") auto
  have "\<exists>nodes'. ask_nodes rpc (ask_members members) (nodes[i := node']) = Some (List.map_filter ans members, nodes') \<and>
    length nodes' = length nodes \<and> (\<forall>i \<in> set members. good i (nodes' ! i)) \<and>
    (\<forall>j. j \<notin> set members \<longrightarrow> nodes' ! j = nodes[i := node'] ! j)"
    using Cons.IH [of "nodes[i := node']"] Cons.prems same by simp
  then obtain nodes' where r: "ask_nodes rpc (ask_members members) (nodes[i := node']) = Some (List.map_filter ans members, nodes')"
    "length nodes' = length nodes" "\<forall>i \<in> set members. good i (nodes' ! i)"
    "\<forall>j. j \<notin> set members \<longrightarrow> nodes' ! j = nodes[i := node'] ! j"
    by blast
  have "nodes' ! i = node'"
    using r(4) Cons.prems(1,2) by simp
  moreover have "ask_nodes rpc (ask_members (i # members)) nodes = Some (List.map_filter ans (i # members), nodes')"
    using a(1) r(1) Cons.prems(2) by (cases "ans i") (simp_all add: not_le List.map_filter_def)
  ultimately show ?case
    using a(2) r by (intro exI [of _ nodes']) auto
qed (simp add: List.map_filter_def)

lemma map_filter_if: "List.map_filter (\<lambda>i. if p i then Some (f i) else None) xs = map f (filter p xs)"
  by (simp add: List.map_filter_def comp_def cong: filter_cong)

lemma collect_each:
  assumes sigs: "signatures_verify C" and order: "\<And>xs. mset (order xs) = mset xs"
    and members: "distinct members" "\<And>i. i \<in> set members \<Longrightarrow> i < length nodes"
    and each: "\<And>i. i \<in> set members \<Longrightarrow> \<exists>ms node'.
      rpc fine_link (nodes ! i) = (if granted i then Some (share_of C e m i) else None, ms, node') \<and> good i node'"
  obtains shares nodes' where "collect_shares order rpc (ask_members members) nodes = Some (shares, nodes')"
    "mset shares = mset (map (share_of C e m) (filter granted members))" "length nodes' = length nodes"
    "\<forall>i \<in> set members. good i (nodes' ! i)" "\<forall>j. j \<notin> set members \<longrightarrow> nodes' ! j = nodes ! j"
proof -
  let ?shares = "map (share_of C e m) (filter granted members)"
  obtain nodes' where r: "ask_nodes rpc (ask_members members) nodes = Some (?shares, nodes')"
    "length nodes' = length nodes" "\<forall>i \<in> set members. good i (nodes' ! i)" "\<forall>j. j \<notin> set members \<longrightarrow> nodes' ! j = nodes ! j"
    using ask_nodes_each [where ans = "\<lambda>i. if granted i then Some (share_of C e m i) else None" and good = good and rpc = rpc
      and nodes = nodes, OF members each]
    unfolding map_filter_if by blast
  have "distinct (map ss_index ?shares)"
    using members(1) by (simp add: comp_def)
  then have "first_by ss_index ?shares = ?shares"
    by (rule first_by_distinct)
  then show thesis
    using that [of "order ?shares" nodes'] r order by (simp add: collect_shares_def)
qed

lemma quorum_of_shares:
  assumes sigs: "signatures_verify C" and members: "distinct members" "\<And>i. i \<in> set members \<Longrightarrow> i < LINEAGE_N"
    and shares: "mset shares = mset (map (share_of C e m) (filter granted members))"
  shows "lineage_quorum (member_signed C e m) shares \<longleftrightarrow> LINEAGE_Q \<le> length (filter granted members)"
    and "length shares \<le> LINEAGE_N" and "ss_index ` set shares = set (filter granted members)"
    and "\<forall>s \<in> set shares. ss_index s < 256"
proof -
  have set: "set shares = share_of C e m ` set (filter granted members)"
    using mset_eq_setD [OF shares] by simp
  then have index: "ss_index ` set shares = set (filter granted members)"
    by (simp add: image_comp comp_def)
  then show "ss_index ` set shares = set (filter granted members)" .
  have card: "card (ss_index ` set shares) = length (filter granted members)"
    unfolding index using distinct_card [of "filter granted members"] members(1) by simp
  show "lineage_quorum (member_signed C e m) shares \<longleftrightarrow> LINEAGE_Q \<le> length (filter granted members)"
    unfolding lineage_quorum_def card using set share_of_signed [OF sigs] members(2) by (auto simp: list_all_iff)
  have "length shares = length (filter granted members)"
    using mset_eq_length [OF shares] by simp
  also have "\<dots> \<le> card {..<LINEAGE_N}"
    unfolding card [symmetric] index by (rule card_mono) (use members(2) in auto)
  finally show "length shares \<le> LINEAGE_N"
    by simp
  show "\<forall>s \<in> set shares. ss_index s < 256"
    using set members(2) by (fastforce simp: LINEAGE_N_def)
qed

section \<open>Committees at rest\<close>

definition committee_at :: "crypto \<Rightarrow> u64 \<Rightarrow> nat set \<Rightarrow> (nat \<Rightarrow> lineage_view) \<Rightarrow> lineage_node list \<Rightarrow> bool" where
  "committee_at C e traitors vs nodes \<longleftrightarrow> length nodes = LINEAGE_N \<and>
    (\<forall>i < LINEAGE_N. if i \<in> traitors then traitor_at e i (nodes ! i) else member_at C e i (vs i) (nodes ! i))"

definition updated :: "nat list \<Rightarrow> (lineage_view \<Rightarrow> lineage_view) \<Rightarrow> (nat \<Rightarrow> lineage_view) \<Rightarrow> nat \<Rightarrow> lineage_view" where
  "updated members change vs i = (if i \<in> set members then change (vs i) else vs i)"

text \<open>The four collectors differ in the request, in what it signs and in how it changes a member.\<close>

lemma collect_committee:
  assumes sigs: "signatures_verify C" and order: "\<And>xs. mset (order xs) = mset xs"
    and at: "committee_at C e traitors vs nodes" and members: "distinct members" "\<And>i. i \<in> set members \<Longrightarrow> i < LINEAGE_N"
    and traitor: "\<And>i node. traitor_at e i node \<Longrightarrow> grants C e m i (lineage_connection C None None request node) node"
    and honest: "\<And>i node. i \<in> set members \<Longrightarrow> i \<notin> traitors \<Longrightarrow> member_at C e i (vs i) node \<Longrightarrow>
      if granted i then \<exists>node'. grants C e m i (lineage_connection C None None request node) node' \<and> member_at C e i (change (vs i)) node'
      else lineage_connection C None None request node = ([0], [], node) \<and> change (vs i) = vs i"
  obtains shares nodes' where
    "collect_shares order (rpc_share C (member_signed C e m) request) (ask_members members) nodes = Some (shares, nodes')"
    "mset shares = mset (map (share_of C e m) (filter (\<lambda>i. i \<in> traitors \<or> granted i) members))"
    "committee_at C e traitors (updated members change vs) nodes'"
proof -
  let ?good = "\<lambda>i node'. if i \<in> traitors then traitor_at e i node' else member_at C e i (change (vs i)) node'"
  let ?granted = "\<lambda>i. i \<in> traitors \<or> granted i"
  let ?rpc = "rpc_share C (member_signed C e m) request"
  have each: "\<exists>ms node'. ?rpc fine_link (nodes ! i) = (if ?granted i then Some (share_of C e m i) else None, ms, node') \<and> ?good i node'"
    if asked: "i \<in> set members" for i
  proof -
    have i: "i < LINEAGE_N" "if i \<in> traitors then traitor_at e i (nodes ! i) else member_at C e i (vs i) (nodes ! i)"
      using members(2) [OF asked] at by (simp_all add: committee_at_def)
    consider "i \<in> traitors" | "i \<notin> traitors" "granted i" | "i \<notin> traitors" "\<not> granted i"
      by blast
    then show ?thesis
    proof cases
      case 1
      then show ?thesis
        using rpc_granted [OF sigs i(1) traitor] i(2) by auto
    next
      case 2
      then obtain node' where n: "grants C e m i (lineage_connection C None None request (nodes ! i)) node'"
        "member_at C e i (change (vs i)) node'"
        using honest [OF asked] i(2) by auto
      then show ?thesis
        using rpc_granted [OF sigs i(1) n(1)] 2 by auto
    next
      case 3
      then have n: "lineage_connection C None None request (nodes ! i) = ([0], [], nodes ! i)" "change (vs i) = vs i"
        using honest [OF asked] i(2) by auto
      then show ?thesis
        using rpc_refused [OF n(1)] 3 i(2) by auto
    qed
  qed
  obtain shares nodes' where r: "collect_shares order ?rpc (ask_members members) nodes = Some (shares, nodes')"
    "mset shares = mset (map (share_of C e m) (filter ?granted members))" "length nodes' = length nodes"
    "\<forall>i \<in> set members. ?good i (nodes' ! i)" "\<forall>j. j \<notin> set members \<longrightarrow> nodes' ! j = nodes ! j"
    by (rule collect_each [where granted = ?granted and good = ?good and nodes = nodes and rpc = ?rpc and members = members
        and C = C and e = e and m = m, OF sigs order members(1) _ each])
      (use members(2) at in \<open>auto simp: committee_at_def\<close>)
  have "committee_at C e traitors (updated members change vs) nodes'"
    using at r(3-5) by (auto simp: committee_at_def updated_def)
  then show thesis
    using that r(1,2) by blast
qed

end
