(* ===== verification/LineageRun.thy ===== *)
theory LineageRun
  imports LineageCollect
begin

text \<open>
  The long-range experiment from start to end: with a network that delivers, the controller's
  rotations succeed, and its attacks on the retired committee fail.
\<close>

section \<open>The four collectors\<close>

lemma collect_final_ready:
  assumes sigs: "signatures_verify C" and order: "\<And>xs. mset (order xs) = mset xs"
    and at: "committee_at C e traitors vs nodes" and members: "distinct members" "\<And>i. i \<in> set members \<Longrightarrow> i < LINEAGE_N"
    and f: "fin_epoch f = e" "sr_coin (fin_from f) = COIN_ID"
    and ready: "\<And>i. i \<in> set members \<Longrightarrow> i \<notin> traitors \<Longrightarrow>
      lv_active (vs i) = Some (fin_from f) \<and> lv_transfers (vs i) (sr_generation (fin_from f)) = None"
  obtains cert nodes' where "collect_final C order f (ask_members members) nodes = Some (cert, nodes')" "fc_finality cert = f"
    "verify_final_cert C cert \<longleftrightarrow> LINEAGE_Q \<le> length members" "committee_at C e traitors (updated members (after_finality f) vs) nodes'"
proof -
  have honest: "if True then \<exists>node'. grants C e (final_share_message f) i
        (lineage_connection C None None (LN_FINALIZE # write_finality f) node) node' \<and> member_at C e i (after_finality f (vs i)) node'
      else lineage_connection C None None (LN_FINALIZE # write_finality f) node = ([0], [], node) \<and> after_finality f (vs i) = vs i"
    if "i \<in> set members" "i \<notin> traitors" "member_at C e i (vs i) node" for i node
    using finality_granted [OF that(3) f(1) _ _ f(2)] ready [OF that(1,2)] by auto
  obtain shares nodes' where r:
    "collect_shares order (rpc_share C (member_signed C e (final_share_message f)) (LN_FINALIZE # write_finality f)) (ask_members members) nodes =
      Some (shares, nodes')"
    "mset shares = mset (map (share_of C e (final_share_message f)) (filter (\<lambda>i. i \<in> traitors \<or> True) members))"
    "committee_at C e traitors (updated members (after_finality f) vs) nodes'"
    by (rule collect_committee [OF sigs order at members traitor_granted(1) [OF _ f(1)] honest])
  note q = quorum_of_shares [OF sigs members r(2)]
  show thesis
    by (rule that [of "\<lparr>fc_finality = f, fc_shares = shares\<rparr>" nodes'])
      (use r q f(1) in \<open>simp_all add: collect_final_def rpc_finalize_def verify_final_share_def verify_final_cert_def\<close>)
qed

lemma collect_rotation_ready:
  assumes sigs: "signatures_verify C" and order: "\<And>xs. mset (order xs) = mset xs"
    and at: "committee_at C e traitors vs nodes" and members: "distinct members" "\<And>i. i \<in> set members \<Longrightarrow> i < LINEAGE_N"
    and h: "ro_from_epoch h = e" "ro_to_epoch h = e + 1" "sr_coin (ro_state h) = COIN_ID"
    and ready: "\<And>i. i \<in> set members \<Longrightarrow> i \<notin> traitors \<Longrightarrow> lv_active (vs i) = Some (ro_state h) \<and> lv_retired (vs i) (ro_state h) = None"
  obtains cert nodes' where "collect_rotation C order h (ask_members members) nodes = Some (cert, nodes')" "rc_handoff cert = h"
    "verify_rotation_cert C cert \<longleftrightarrow> LINEAGE_Q \<le> length members" "sendable_rotation cert"
    "committee_at C e traitors (updated members (after_handoff C h) vs) nodes'"
proof -
  have honest: "if True then \<exists>node'. grants C e (rotation_share_message h) i
        (lineage_connection C None None (LN_HANDOFF # write_rotation h) node) node' \<and> member_at C e i (after_handoff C h (vs i)) node'
      else lineage_connection C None None (LN_HANDOFF # write_rotation h) node = ([0], [], node) \<and> after_handoff C h (vs i) = vs i"
    if "i \<in> set members" "i \<notin> traitors" "member_at C e i (vs i) node" for i node
    using handoff_granted [OF that(3) h(1,2) _ _ h(3)] ready [OF that(1,2)] by auto
  obtain shares nodes' where r:
    "collect_shares order (rpc_share C (member_signed C e (rotation_share_message h)) (LN_HANDOFF # write_rotation h)) (ask_members members) nodes =
      Some (shares, nodes')"
    "mset shares = mset (map (share_of C e (rotation_share_message h)) (filter (\<lambda>i. i \<in> traitors \<or> True) members))"
    "committee_at C e traitors (updated members (after_handoff C h) vs) nodes'"
    by (rule collect_committee [OF sigs order at members traitor_granted(2) [OF _ h(1)] honest])
  note q = quorum_of_shares [OF sigs members r(2)]
  show thesis
    by (rule that [of "\<lparr>rc_handoff = h, rc_shares = shares\<rparr>" nodes'])
      (use r q h in \<open>simp_all add: collect_rotation_def rpc_rotation_def verify_rotation_share_def verify_rotation_cert_def sendable_rotation_def\<close>)
qed

lemma collect_epoch_activation_ready:
  assumes sigs: "signatures_verify C" and order: "\<And>xs. mset (order xs) = mset xs"
    and at: "committee_at C e traitors vs nodes" and members: "distinct members" "\<And>i. i \<in> set members \<Longrightarrow> i < LINEAGE_N"
    and cert: "verify_rotation_cert C cert" "sendable_rotation cert" "rc_handoff cert = h" "ro_to_epoch h = e"
      "sr_coin (ro_state h) = COIN_ID"
    and ready: "\<And>i. i \<in> set members \<Longrightarrow> i \<notin> traitors \<Longrightarrow>
      lv_active (vs i) = None \<and> lv_activations (vs i) (ro_from_epoch h, sr_generation (ro_state h)) = None"
  obtains act nodes' where "collect_epoch_activation C order cert (ask_members members) nodes = Some (act, nodes')"
    "verify_rotation_activation C act cert \<longleftrightarrow> LINEAGE_Q \<le> length members"
    "committee_at C e traitors (updated members (after_activation C h) vs) nodes'"
proof -
  let ?m = "epoch_activation_message e (rotation_hash C h)"
  have honest: "if True then \<exists>node'. grants C e ?m i
        (lineage_connection C None None (LN_ACTIVATE # write_rotation_cert cert) node) node' \<and> member_at C e i (after_activation C h (vs i)) node'
      else lineage_connection C None None (LN_ACTIVATE # write_rotation_cert cert) node = ([0], [], node) \<and> after_activation C h (vs i) = vs i"
    if "i \<in> set members" "i \<notin> traitors" "member_at C e i (vs i) node" for i node
    using activation_granted [OF that(3) cert(1-4) _ _ cert(5)] ready [OF that(1,2)] by auto
  obtain shares nodes' where r:
    "collect_shares order (rpc_share C (member_signed C e ?m) (LN_ACTIVATE # write_rotation_cert cert)) (ask_members members) nodes =
      Some (shares, nodes')"
    "mset shares = mset (map (share_of C e ?m) (filter (\<lambda>i. i \<in> traitors \<or> True) members))"
    "committee_at C e traitors (updated members (after_activation C h) vs) nodes'"
    by (rule collect_committee [OF sigs order at members traitor_granted(3) [OF _ cert(1,2), unfolded cert(3), OF _ cert(4)] honest])
  note q = quorum_of_shares [OF sigs members r(2)]
  show thesis
    by (rule that [of "\<lparr>ra_handoff_hash = rotation_hash C h, ra_shares = shares\<rparr>" nodes'])
      (use r q cert in \<open>simp_all add: collect_epoch_activation_def rpc_activation_def verify_epoch_activation_share_def
        verify_rotation_activation_def\<close>)
qed

lemma collect_fresh_ready:
  assumes sigs: "signatures_verify C" and order: "\<And>xs. mset (order xs) = mset xs"
    and at: "committee_at C e traitors vs nodes" and members: "distinct members" "\<And>i. i \<in> set members \<Longrightarrow> i < LINEAGE_N"
  defines "granted s \<equiv> \<lambda>i. i \<in> traitors \<or> lv_active (vs i) = Some s"
  obtains cert nodes' where "collect_fresh C order e s nonce (ask_members members) nodes = Some (cert, nodes')"
    "fr_epoch cert = e" "fr_state cert = s" "fr_nonce cert = nonce"
    "mset (fr_shares cert) = mset (map (share_of C e (freshness_message e s nonce)) (filter (granted s) members))"
    "ss_index ` set (fr_shares cert) = set (filter (granted s) members)"
    "verify_fresh_cert C cert \<longleftrightarrow> LINEAGE_Q \<le> length (filter (granted s) members)" "committee_at C e traitors vs nodes'"
proof -
  let ?m = "freshness_message e s nonce"
  have honest: "if lv_active (vs i) = Some s then \<exists>node'. grants C e ?m i
        (lineage_connection C None None (LN_FRESHNESS # write_challenge (e, s, nonce)) node) node' \<and> member_at C e i (id (vs i)) node'
      else lineage_connection C None None (LN_FRESHNESS # write_challenge (e, s, nonce)) node = ([0], [], node) \<and> id (vs i) = vs i"
    if "i \<in> set members" "i \<notin> traitors" "member_at C e i (vs i) node" for i node
    using challenge_served [OF that(3)] that(3) by auto
  obtain shares nodes' where r:
    "collect_shares order (rpc_share C (member_signed C e ?m) (LN_FRESHNESS # write_challenge (e, s, nonce))) (ask_members members) nodes =
      Some (shares, nodes')"
    "mset shares = mset (map (share_of C e ?m) (filter (granted s) members))"
    "committee_at C e traitors (updated members id vs) nodes'"
    unfolding granted_def
    by (rule collect_committee [OF sigs order at members traitor_granted(4) honest])
  note q = quorum_of_shares [OF sigs members r(2)]
  have same: "updated members id vs = vs"
    by (simp add: updated_def fun_eq_iff)
  show thesis
    by (rule that [of "\<lparr>fr_epoch = e, fr_state = s, fr_nonce = nonce, fr_shares = shares\<rparr>" nodes'])
      (use r [unfolded same] q in \<open>simp_all add: collect_fresh_def rpc_fresh_def verify_fresh_share_def verify_fresh_cert_def\<close>)
qed

section \<open>Starting the committees\<close>

definition fine_env :: "lineage_env \<Rightarrow> bool" where
  "fine_env env \<longleftrightarrow> (\<forall>k xs. mset (le_order env k xs) = mset xs) \<and> le_net env = (\<lambda>k i. fine_link) \<and>
    le_log env = (\<lambda>e i. None) \<and> le_ready env = (\<lambda>e i. True)"

definition first_view :: "crypto \<Rightarrow> u64 \<Rightarrow> lineage_view" where
  "first_view C e = (if e = EPOCH_30 then empty_view\<lparr>lv_active := Some (genesis_state C)\<rparr> else empty_view)"

lemma asked_fine: "fine_env env \<Longrightarrow> asked_by env k members = ask_members members"
  by (simp add: fine_env_def asked_by_def)

lemma running_empty: "running_store C \<lparr>ls_file = [], ls_epoch = e, ls_view = empty_view\<rparr>"
  by (simp add: running_store_def logged_def chunks_exact_one)

lemma start_member_at:
  assumes i: "i < LINEAGE_N"
  shows "if byz then traitor_at e i (start_member C None e i byz []) else member_at C e i (first_view C e) (start_member C None e i byz [])"
proof (cases byz)
  case True
  then show ?thesis
    using i by (simp add: start_member_def traitor_at_def)
next
  case False
  let ?st = "\<lparr>ls_file = [], ls_epoch = e, ls_view = empty_view\<rparr>"
  have fresh: "open_lineage C e [] = Some ?st"
    using open_running [OF running_empty, of C e] by simp
  show ?thesis
  proof (cases "e = EPOCH_30")
    case other: False
    then show ?thesis
      using False i fresh running_empty by (auto simp: start_member_def member_at_def first_view_def intro: exI [of _ True])
  next
    case first: True
    obtain r st' where b: "bootstrap C None (genesis_state C) ?st = (r, st')"
      by force
    have coin: "sr_coin (genesis_state C) = COIN_ID"
      by (simp add: genesis_state_def)
    from b coin have "records C ?st (first_view C e) r st' \<and> r = Some True"
    proof (cases rule: bootstrap_cases)
      case 2
      then show ?thesis
        using b first by (simp add: bootstrap_def append_entry_def first_view_def empty_view_def)
    qed (simp add: empty_view_def)
    then have rec: "records C ?st (first_view C e) (Some True) st'" and r: "r = Some True"
      by auto
    have "running_store C st'" "ls_view st' = first_view C e" "ls_epoch st' = e"
      using records_logged [OF running_empty rec] by simp_all
    note st' = this r
    then show ?thesis
      using False i fresh b first st' by (auto simp: start_member_def member_at_def intro: exI [of _ True])
  qed
qed

definition spawned :: "crypto \<Rightarrow> u64 \<Rightarrow> nat list \<Rightarrow> lineage_node list" where
  "spawned C e is = map (\<lambda>i. start_member C None e i (i < 2) []) is"

lemma spawn_member_ready:
  assumes "fine_env env" and "i < LINEAGE_N"
  shows "spawn_member C env e i = Inr (start_member C None e i (i < 2) [])"
proof -
  have "ln_up (start_member C None e i (i < 2) [])"
    using start_member_at [of i "i < 2" e C] assms(2) by (auto simp: traitor_at_def member_at_def split: if_splits)
  then show ?thesis
    using assms(1) by (simp add: spawn_member_def fine_env_def)
qed

lemma spawn_committees_ready:
  assumes "fine_env env"
  shows "\<forall>i \<in> set is. i < LINEAGE_N \<Longrightarrow>
    spawn_committees C env is = Inr (spawned C EPOCH_30 is, spawned C EPOCH_31 is, spawned C EPOCH_32 is)"
  by (induction "is") (simp_all add: spawn_member_ready [OF assms] spawned_def)

abbreviation two_traitors :: "nat set" where
  "two_traitors \<equiv> {i. i < 2}"

lemma committee_spawned: "committee_at C e two_traitors (\<lambda>_. first_view C e) (spawned C e [0..<LINEAGE_N])"
  using start_member_at [of _ _ e C] by (simp add: committee_at_def spawned_def)

section \<open>The experiment\<close>

lemma committee_at_cong:
  "committee_at C e traitors vs nodes \<Longrightarrow> (\<And>i. i < LINEAGE_N \<Longrightarrow> i \<notin> traitors \<Longrightarrow> vs i = ws i) \<Longrightarrow> committee_at C e traitors ws nodes"
  by (auto simp: committee_at_def)

lemma everyone: "set [0, 1, 2, 3, 4, 5, 6] = {..<LINEAGE_N}" "distinct [0, 1, 2, 3, 4, 5, 6 :: nat]"
  "LINEAGE_Q \<le> length [0, 1, 2, 3, 4, 5, 6 :: nat]"
  by (auto simp: LINEAGE_N_def LINEAGE_Q_def)

lemma committee_all:
  assumes "committee_at C e traitors (updated [0, 1, 2, 3, 4, 5, 6] change vs) nodes"
  shows "committee_at C e traitors (\<lambda>i. change (vs i)) nodes"
  using assms by (rule committee_at_cong) (use everyone(1) in \<open>simp add: updated_def\<close>)

lemma scenario_states:
  "sr_coin (genesis_state C) = COIN_ID" "sr_generation (genesis_state C) = 0"
  "fin_epoch (first_transfer C) = EPOCH_30" "fin_from (first_transfer C) = genesis_state C"
  "ro_from_epoch (first_handoff C) = EPOCH_30" "ro_to_epoch (first_handoff C) = EPOCH_31"
  "ro_state (first_handoff C) = successor_state (first_transfer C)"
  "fin_epoch (second_transfer C) = EPOCH_31" "fin_from (second_transfer C) = successor_state (first_transfer C)"
  "ro_from_epoch (second_handoff C) = EPOCH_31" "ro_to_epoch (second_handoff C) = EPOCH_32"
  "ro_state (second_handoff C) = successor_state (second_transfer C)"
  "sr_coin (successor_state f) = sr_coin (fin_from f)"
  "EPOCH_31 = EPOCH_30 + 1" "EPOCH_32 = EPOCH_31 + 1" "EPOCH_31 \<noteq> EPOCH_30" "EPOCH_32 \<noteq> EPOCH_30"
  by (simp_all add: genesis_state_def first_transfer_def first_handoff_def second_transfer_def second_handoff_def
    successor_state_def EPOCH_30_def EPOCH_31_def EPOCH_32_def Let_def)

text \<open>The view of a member of the second committee once it holds the state of the second transfer.\<close>

definition holding_view :: "crypto \<Rightarrow> lineage_view" where
  "holding_view C = after_finality (second_transfer C) (after_activation C (first_handoff C) empty_view)"

lemma holding_view_fields:
  "lv_active (holding_view C) = Some (successor_state (second_transfer C))" "lv_retired (holding_view C) = Map.empty"
  by (simp_all add: holding_view_def after_finality_def after_activation_def empty_view_def)

lemma member_numbers: "i \<in> set [0, 1, 2, 3, 4, 5, 6] \<Longrightarrow> i < LINEAGE_N" "i \<in> set [0, 1, 2, 3, 4] \<Longrightarrow> i < LINEAGE_N"
  "i \<in> set [2, 3, 4, 5, 6] \<Longrightarrow> i < LINEAGE_N" "i \<in> set [2, 3, 4] \<Longrightarrow> i < LINEAGE_N"
  by (auto simp: LINEAGE_N_def)

lemma five_members: "distinct [0, 1, 2, 3, 4 :: nat]" "LINEAGE_Q \<le> length [0, 1, 2, 3, 4 :: nat]"
  by (simp_all add: LINEAGE_Q_def)

lemma fine_env_order: "fine_env env \<Longrightarrow> mset (le_order env k xs) = mset xs"
  by (simp add: fine_env_def)

lemma first_view_fields:
  "lv_active (first_view C EPOCH_30) = Some (genesis_state C)" "lv_transfers (first_view C e) g = None"
  "lv_retired (first_view C e) s = None" "lv_activations (first_view C e) k = None" "e \<noteq> EPOCH_30 \<Longrightarrow> first_view C e = empty_view"
  by (simp_all add: first_view_def empty_view_def)

lemma after_fields:
  "lv_active (after_finality f v) = Some (successor_state f)" "lv_retired (after_finality f v) = lv_retired v"
  "lv_active (after_activation C h v) = Some (ro_state h)" "lv_transfers (after_activation C h v) = lv_transfers v"
  "lv_active (after_handoff C h v) = None"
  by (simp_all add: after_finality_def after_activation_def after_handoff_def)

lemma show_prefix_ready:
  assumes sigs: "signatures_verify C" and env: "fine_env env"
    and c0: "committee_at C EPOCH_30 two_traitors (\<lambda>_. first_view C EPOCH_30) c0"
    and c1: "committee_at C EPOCH_31 two_traitors (\<lambda>_. empty_view) c1"
  obtains p where "show_prefix C env c0 c1 = Inr p" "naive_prefix_valid C (sp_fc0 p) (sp_hc01 p) (sp_ac01 p) (sp_fc1 p)"
    "committee_at C EPOCH_31 two_traitors (\<lambda>_. holding_view C) (sp_c1 p)"
proof -
  note order = fine_env_order [OF env] and asked = asked_fine [OF env] and st = scenario_states
  have r0: "lv_active (first_view C EPOCH_30) = Some (fin_from (first_transfer C)) \<and>
      lv_transfers (first_view C EPOCH_30) (sr_generation (fin_from (first_transfer C))) = None"
    by (simp add: st first_view_fields)
  have coin: "sr_coin (fin_from (first_transfer C)) = COIN_ID" "sr_coin (ro_state (first_handoff C)) = COIN_ID"
    "sr_coin (fin_from (second_transfer C)) = COIN_ID"
    by (simp_all add: st)
  obtain fc0 c0a where a: "collect_final C (le_order env 0) (first_transfer C) (ask_members [0, 1, 2, 3, 4, 5, 6]) c0 = Some (fc0, c0a)"
    "fc_finality fc0 = first_transfer C" "verify_final_cert C fc0 \<longleftrightarrow> LINEAGE_Q \<le> length [0, 1, 2, 3, 4, 5, 6 :: nat]"
    "committee_at C EPOCH_30 two_traitors (updated [0, 1, 2, 3, 4, 5, 6] (after_finality (first_transfer C)) (\<lambda>_. first_view C EPOCH_30)) c0a"
    by (rule collect_final_ready [OF sigs order c0 everyone(2) member_numbers(1) st(3) coin(1) r0])
  have r1: "lv_active (after_finality (first_transfer C) (first_view C EPOCH_30)) = Some (ro_state (first_handoff C)) \<and>
      lv_retired (after_finality (first_transfer C) (first_view C EPOCH_30)) (ro_state (first_handoff C)) = None"
    by (simp add: st first_view_fields after_fields)
  have to: "ro_to_epoch (first_handoff C) = EPOCH_30 + 1"
    by (simp add: st)
  obtain hc01 c0b where b: "collect_rotation C (le_order env 1) (first_handoff C) (ask_members [0, 1, 2, 3, 4]) c0a = Some (hc01, c0b)"
    "rc_handoff hc01 = first_handoff C" "verify_rotation_cert C hc01 \<longleftrightarrow> LINEAGE_Q \<le> length [0, 1, 2, 3, 4 :: nat]"
    "sendable_rotation hc01"
    by (rule collect_rotation_ready [OF sigs order committee_all [OF a(4)] five_members(1) member_numbers(2) st(5) to coin(2) r1])
  have b3: "verify_rotation_cert C hc01"
    using b(3) five_members(2) by blast
  have r2: "lv_active empty_view = None \<and>
      lv_activations empty_view (ro_from_epoch (first_handoff C), sr_generation (ro_state (first_handoff C))) = None"
    by (simp add: empty_view_def)
  obtain ac01 c1a where c: "collect_epoch_activation C (le_order env 2) hc01 (ask_members [0, 1, 2, 3, 4, 5, 6]) c1 = Some (ac01, c1a)"
    "verify_rotation_activation C ac01 hc01 \<longleftrightarrow> LINEAGE_Q \<le> length [0, 1, 2, 3, 4, 5, 6 :: nat]"
    "committee_at C EPOCH_31 two_traitors (updated [0, 1, 2, 3, 4, 5, 6] (after_activation C (first_handoff C)) (\<lambda>_. empty_view)) c1a"
    by (rule collect_epoch_activation_ready [OF sigs order c1 everyone(2) member_numbers(1) b3 b(4,2) st(6) coin(2) r2])
  have r3: "lv_active (after_activation C (first_handoff C) empty_view) = Some (fin_from (second_transfer C)) \<and>
      lv_transfers (after_activation C (first_handoff C) empty_view) (sr_generation (fin_from (second_transfer C))) = None"
    by (simp add: st after_fields) (simp add: empty_view_def)
  obtain fc1 c1b where d: "collect_final C (le_order env 3) (second_transfer C) (ask_members [0, 1, 2, 3, 4, 5, 6]) c1a = Some (fc1, c1b)"
    "fc_finality fc1 = second_transfer C" "verify_final_cert C fc1 \<longleftrightarrow> LINEAGE_Q \<le> length [0, 1, 2, 3, 4, 5, 6 :: nat]"
    "committee_at C EPOCH_31 two_traitors (updated [0, 1, 2, 3, 4, 5, 6] (after_finality (second_transfer C))
      (\<lambda>_. after_activation C (first_handoff C) empty_view)) c1b"
    by (rule collect_final_ready [OF sigs order committee_all [OF c(3)] everyone(2) member_numbers(1) st(8) coin(3) r3])
  have ok: "verify_final_cert C fc0" "verify_rotation_activation C ac01 hc01" "verify_final_cert C fc1"
    using a(3) c(2) d(3) everyone(3) by blast+
  show thesis
    by (rule that [of "\<lparr>sp_fc0 = fc0, sp_hc01 = hc01, sp_ac01 = ac01, sp_fc1 = fc1, sp_c0 = c0b, sp_c1 = c1b\<rparr>"])
      (use a(1,2) b(1,2) c(1) d(1,2) ok b3 committee_all [OF d(4)] in
        \<open>simp_all add: show_prefix_def check_def naive_prefix_valid_def st(3-13) asked holding_view_def\<close>)
qed

abbreviation second_state :: "crypto \<Rightarrow> state_ref" where
  "second_state C \<equiv> successor_state (second_transfer C)"

definition retired_views :: "crypto \<Rightarrow> nat \<Rightarrow> lineage_view" where
  "retired_views C = updated [0, 1, 2, 3, 4] (after_handoff C (second_handoff C)) (\<lambda>_. holding_view C)"

lemma rotate_again_ready:
  assumes sigs: "signatures_verify C" and env: "fine_env env"
    and c1: "committee_at C EPOCH_31 two_traitors (\<lambda>_. holding_view C) c1"
    and c2: "committee_at C EPOCH_32 two_traitors (\<lambda>_. empty_view) c2"
  obtains old_fresh c1' c2' where "rotate_again C env c1 c2 = Inr (old_fresh, c1', c2')"
    "fr_epoch old_fresh = EPOCH_31" "fr_state old_fresh = second_state C"
    "mset (fr_shares old_fresh) = mset (map (share_of C EPOCH_31 (freshness_message EPOCH_31 (second_state C) (old_nonce C))) [0, 1, 2, 3, 4])"
    "committee_at C EPOCH_31 two_traitors (retired_views C) c1'"
    "committee_at C EPOCH_32 two_traitors (\<lambda>_. after_activation C (second_handoff C) empty_view) c2'"
proof -
  note order = fine_env_order [OF env] and asked = asked_fine [OF env] and st = scenario_states
  have all: "filter (\<lambda>i. i \<in> two_traitors \<or> lv_active (holding_view C) = Some (second_state C)) xs = xs" for xs
    by (simp add: holding_view_fields)
  obtain old_fresh c1a where a: "collect_fresh C (le_order env 4) EPOCH_31 (second_state C) (old_nonce C) (ask_members [0, 1, 2, 3, 4]) c1 =
      Some (old_fresh, c1a)" "fr_epoch old_fresh = EPOCH_31" "fr_state old_fresh = second_state C"
    "mset (fr_shares old_fresh) = mset (map (share_of C EPOCH_31 (freshness_message EPOCH_31 (second_state C) (old_nonce C)))
      (filter (\<lambda>i. i \<in> two_traitors \<or> lv_active (holding_view C) = Some (second_state C)) [0, 1, 2, 3, 4]))"
    "verify_fresh_cert C old_fresh \<longleftrightarrow>
      LINEAGE_Q \<le> length (filter (\<lambda>i. i \<in> two_traitors \<or> lv_active (holding_view C) = Some (second_state C)) [0, 1, 2, 3, 4 :: nat])"
    "committee_at C EPOCH_31 two_traitors (\<lambda>_. holding_view C) c1a"
    by (rule collect_fresh_ready [OF sigs order c1 five_members(1) member_numbers(2)])
  note a = a [unfolded all]
  have r1: "lv_active (holding_view C) = Some (ro_state (second_handoff C)) \<and> lv_retired (holding_view C) (ro_state (second_handoff C)) = None"
    by (simp add: st holding_view_fields)
  have coin: "sr_coin (ro_state (second_handoff C)) = COIN_ID" and to: "ro_to_epoch (second_handoff C) = EPOCH_31 + 1"
    by (simp_all add: st)
  obtain hc12 c1b where b: "collect_rotation C (le_order env 5) (second_handoff C) (ask_members [0, 1, 2, 3, 4]) c1a = Some (hc12, c1b)"
    "rc_handoff hc12 = second_handoff C" "verify_rotation_cert C hc12 \<longleftrightarrow> LINEAGE_Q \<le> length [0, 1, 2, 3, 4 :: nat]"
    "sendable_rotation hc12"
    "committee_at C EPOCH_31 two_traitors (updated [0, 1, 2, 3, 4] (after_handoff C (second_handoff C)) (\<lambda>_. holding_view C)) c1b"
    by (rule collect_rotation_ready [OF sigs order a(6) five_members(1) member_numbers(2) st(10) to coin r1])
  have b3: "verify_rotation_cert C hc12" "verify_fresh_cert C old_fresh"
    using a(5) b(3) five_members(2) by blast+
  have r2: "lv_active empty_view = None \<and>
      lv_activations empty_view (ro_from_epoch (second_handoff C), sr_generation (ro_state (second_handoff C))) = None"
    by (simp add: empty_view_def)
  obtain ac12 c2a where c: "collect_epoch_activation C (le_order env 6) hc12 (ask_members [0, 1, 2, 3, 4, 5, 6]) c2 = Some (ac12, c2a)"
    "verify_rotation_activation C ac12 hc12 \<longleftrightarrow> LINEAGE_Q \<le> length [0, 1, 2, 3, 4, 5, 6 :: nat]"
    "committee_at C EPOCH_32 two_traitors (updated [0, 1, 2, 3, 4, 5, 6] (after_activation C (second_handoff C)) (\<lambda>_. empty_view)) c2a"
    by (rule collect_epoch_activation_ready [OF sigs order c2 everyone(2) member_numbers(1) b3(1) b(4,2) st(11) coin r2])
  have "verify_rotation_activation C ac12 hc12"
    using c(2) everyone(3) by blast
  then show thesis
    by (intro that [of old_fresh c1b c2a])
      (use a b b3 c(1) committee_all [OF c(3)] in \<open>simp_all add: rotate_again_def check_def asked Let_def retired_views_def\<close>)
qed

text \<open>A signature on a challenge with one nonce does not pass for the challenge with the other.\<close>

definition replay_refused :: "crypto \<Rightarrow> bool" where
  "replay_refused C \<longleftrightarrow> (\<forall>i < LINEAGE_N. \<not> verify_strict C (public_of C (committee_key C EPOCH_31 i))
    (freshness_message EPOCH_31 (second_state C) (fresh_nonce C) i)
    (sign_with C (committee_key C EPOCH_31 i) (freshness_message EPOCH_31 (second_state C) (old_nonce C) i)))"

lemma restart_running:
  assumes "member_at C e i v node" and "e \<noteq> EPOCH_30"
  shows "restart_member C io node = node"
proof -
  obtain st where st: "ln_store node = Some st" "ls_epoch st = e" "running_store C st" "ls_view st = v"
    by (rule member_store [OF assms(1)])
  show ?thesis
    using assms st open_running [OF st(3)]
    by (cases node) (auto simp: restart_member_def start_member_def member_file_def member_at_def intro: exI [of _ True])
qed

lemma retired_views_active:
  assumes "i < LINEAGE_N"
  shows "i \<in> two_traitors \<or> lv_active (retired_views C i) = Some (second_state C) \<longleftrightarrow> i \<notin> {2, 3, 4}"
  using assms by (auto simp: retired_views_def updated_def after_fields holding_view_fields LINEAGE_N_def)

lemma stale_attacks_ready:
  assumes sigs: "signatures_verify C" and env: "fine_env env" and replay: "replay_refused C"
    and c1: "committee_at C EPOCH_31 two_traitors (retired_views C) c1"
    and old: "fr_epoch old_fresh = EPOCH_31" "fr_state old_fresh = second_state C"
    "mset (fr_shares old_fresh) = mset (map (share_of C EPOCH_31 (freshness_message EPOCH_31 (second_state C) (old_nonce C))) [0, 1, 2, 3, 4])"
  shows "stale_attacks C env old_fresh c1 = Inr 4"
proof -
  note order = fine_env_order [OF env] and asked = asked_fine [OF env] and st = scenario_states
  have which: "filter (\<lambda>i. i \<in> two_traitors \<or> lv_active (retired_views C i) = Some (second_state C)) [0, 1, 2, 3, 4, 5, 6] = [0, 1, 5, 6]"
  proof -
    have "filter (\<lambda>i. i \<in> two_traitors \<or> lv_active (retired_views C i) = Some (second_state C)) [0, 1, 2, 3, 4, 5, 6] =
        filter (\<lambda>i. i \<notin> {2, 3, 4}) [0, 1, 2, 3, 4, 5, 6]"
      by (rule filter_cong [OF refl]) (rule retired_views_active [OF member_numbers(1)])
    then show ?thesis
      by simp
  qed
  obtain stale c1a where a: "collect_fresh C (le_order env 7) EPOCH_31 (second_state C) (fresh_nonce C) (ask_members [0, 1, 2, 3, 4, 5, 6]) c1 =
      Some (stale, c1a)"
    "ss_index ` set (fr_shares stale) =
      set (filter (\<lambda>i. i \<in> two_traitors \<or> lv_active (retired_views C i) = Some (second_state C)) [0, 1, 2, 3, 4, 5, 6])"
    "committee_at C EPOCH_31 two_traitors (retired_views C) c1a"
    by (rule collect_fresh_ready [OF sigs order c1 everyone(2) member_numbers(1)])
  have count: "card (ss_index ` set (fr_shares stale)) = 4"
    unfolding a(2) which by simp
  have zero: "share_of C EPOCH_31 (freshness_message EPOCH_31 (second_state C) (old_nonce C)) 0 \<in> set (fr_shares old_fresh)"
    using mset_eq_setD [OF old(3)] by simp
  have "\<not> verify_fresh_share C EPOCH_31 (second_state C) (fresh_nonce C)
      (share_of C EPOCH_31 (freshness_message EPOCH_31 (second_state C) (old_nonce C)) 0)"
    using replay by (simp add: verify_fresh_share_def member_signed_def share_of_def replay_refused_def LINEAGE_N_def)
  then have "\<not> verify_fresh_cert C (old_fresh\<lparr>fr_nonce := fresh_nonce C\<rparr>)"
    using zero old(1,2) by (auto simp: verify_fresh_cert_def lineage_quorum_def list_all_iff)
  moreover have two: "member_at C EPOCH_31 2 (retired_views C 2) (c1a ! 2)"
    using a(3) by (simp add: committee_at_def LINEAGE_N_def)
  moreover have "ln_up (c1a ! 2)"
    using two by (simp add: member_at_def)
  moreover have "fst (rpc_fresh C EPOCH_31 (second_state C) (fresh_nonce C) fine_link (c1a ! 2)) = None"
    using challenge_served(2) [OF two, of "second_state C" "fresh_nonce C"] retired_views_active [of 2 C]
    by (simp add: rpc_fresh_def rpc_refused LINEAGE_N_def)
  ultimately show ?thesis
    using a(1) count restart_running [OF two st(16)] env
    by (simp add: stale_attacks_def check_def asked Let_def respawn_member_def fine_env_def LINEAGE_Q_def)
qed

lemma current_challenges_ready:
  assumes sigs: "signatures_verify C" and env: "fine_env env"
    and c2: "committee_at C EPOCH_32 two_traitors (\<lambda>_. after_activation C (second_handoff C) empty_view) c2"
  shows "current_challenges C env c2 = Inr ()"
proof -
  note order = fine_env_order [OF env] and asked = asked_fine [OF env] and st = scenario_states
  let ?v = "after_activation C (second_handoff C) empty_view"
  have all: "filter (\<lambda>i. i \<in> two_traitors \<or> lv_active ?v = Some (second_state C)) xs = xs" for xs
    by (simp add: after_fields st)
  have d: "distinct [2, 3, 4, 5, 6 :: nat]" "distinct [2, 3, 4 :: nat]" "LINEAGE_Q \<le> length [2, 3, 4, 5, 6 :: nat]"
    "\<not> LINEAGE_Q \<le> length [2, 3, 4 :: nat]"
    by (simp_all add: LINEAGE_Q_def)
  obtain current c2a where a: "collect_fresh C (le_order env 9) EPOCH_32 (second_state C) (fresh_nonce C) (ask_members [2, 3, 4, 5, 6]) c2 =
      Some (current, c2a)"
    "verify_fresh_cert C current \<longleftrightarrow>
      LINEAGE_Q \<le> length (filter (\<lambda>i. i \<in> two_traitors \<or> lv_active ?v = Some (second_state C)) [2, 3, 4, 5, 6 :: nat])"
    "committee_at C EPOCH_32 two_traitors (\<lambda>_. ?v) c2a"
    by (rule collect_fresh_ready [OF sigs order c2 d(1) member_numbers(3)])
  obtain partial c2b where b: "collect_fresh C (le_order env 10) EPOCH_32 (second_state C) (client_nonce C ''SEC015-PARTIAL'')
      (ask_members [2, 3, 4]) c2a = Some (partial, c2b)"
    "verify_fresh_cert C partial \<longleftrightarrow>
      LINEAGE_Q \<le> length (filter (\<lambda>i. i \<in> two_traitors \<or> lv_active ?v = Some (second_state C)) [2, 3, 4 :: nat])"
    by (rule collect_fresh_ready [OF sigs order a(3) d(2) member_numbers(4)])
  have ok: "verify_fresh_cert C current" "\<not> verify_fresh_cert C partial"
    using a(2) b(2) d(3,4) unfolding all by blast+
  have "list_all (member_signed C EPOCH_31 m) (map (share_of C EPOCH_31 m) [0, 1, 2, 5, 6])" for m
    using share_of_signed [OF sigs] by (simp add: LINEAGE_N_def)
  then have "verify_fresh_cert C (boundary_cert C)"
    by (simp add: boundary_cert_def Let_def verify_fresh_cert_def verify_fresh_share_def lineage_quorum_def share_of_def LINEAGE_Q_def)
  then show ?thesis
    using a(1) b(1) ok by (simp add: current_challenges_def check_def asked Let_def)
qed

lemma lineage_controller_ready:
  assumes sigs: "signatures_verify C" and env: "fine_env env" and replay: "replay_refused C"
  shows "lineage_controller C env = Inr 4"
proof -
  let ?c = "\<lambda>e. spawned C e [0..<LINEAGE_N]"
  have start: "spawn_committees C env [0..<LINEAGE_N] = Inr (?c EPOCH_30, ?c EPOCH_31, ?c EPOCH_32)"
    by (rule spawn_committees_ready [OF env]) simp
  note c0 = committee_spawned [of C EPOCH_30]
    and c1 = committee_spawned [of C EPOCH_31, unfolded first_view_fields(5) [OF scenario_states(16)]]
    and c2 = committee_spawned [of C EPOCH_32, unfolded first_view_fields(5) [OF scenario_states(17)]]
  obtain p where p: "show_prefix C env (?c EPOCH_30) (?c EPOCH_31) = Inr p" "naive_prefix_valid C (sp_fc0 p) (sp_hc01 p) (sp_ac01 p) (sp_fc1 p)"
    "committee_at C EPOCH_31 two_traitors (\<lambda>_. holding_view C) (sp_c1 p)"
    by (rule show_prefix_ready [OF sigs env c0 c1])
  obtain old_fresh c1' c2' where r: "rotate_again C env (sp_c1 p) (?c EPOCH_32) = Inr (old_fresh, c1', c2')"
    "fr_epoch old_fresh = EPOCH_31" "fr_state old_fresh = second_state C"
    "mset (fr_shares old_fresh) = mset (map (share_of C EPOCH_31 (freshness_message EPOCH_31 (second_state C) (old_nonce C))) [0, 1, 2, 3, 4])"
    "committee_at C EPOCH_31 two_traitors (retired_views C) c1'"
    "committee_at C EPOCH_32 two_traitors (\<lambda>_. after_activation C (second_handoff C) empty_view) c2'"
    by (rule rotate_again_ready [OF sigs env p(3) c2])
  show ?thesis
    using start p(1,2) r(1) stale_attacks_ready [OF sigs env replay r(5,2-4)] current_challenges_ready [OF sigs env r(6)]
    by (simp add: lineage_controller_def check_def)
qed

end
