(* ===== verification/Members.thy ===== *)
theory Members
  imports Prelude
begin

text \<open>
  Processes that serve connections and are restarted: the members of a committee with every message
  each has signed, and the induction that carries an invariant of one member through every run.
  \<open>serve io sent request node\<close> serves one connection: \<open>io\<close> and \<open>sent\<close> are the outcomes of its writes to the
  log and to the socket.
\<close>

type_synonym ('m, 'n) server = "nat option \<Rightarrow> nat option \<Rightarrow> 'm \<Rightarrow> 'n \<Rightarrow> 'm \<times> 'm list \<times> 'n"

record ('m, 'n) members =
  mb_nodes :: "'n list"
  mb_signed :: "(nat \<times> 'm) set"

inductive members_step ::
  "('m, 'n) server \<Rightarrow> (nat option \<Rightarrow> 'n \<Rightarrow> 'n) \<Rightarrow> ('m \<Rightarrow> bool) \<Rightarrow> ('n \<Rightarrow> bool) \<Rightarrow>
    ('m, 'n) members \<Rightarrow> ('m, 'n) members \<Rightarrow> bool"
  for serve reopen arrives may_restart where
  connection: "i < length (mb_nodes S) \<Longrightarrow> arrives request \<Longrightarrow> serve io sent request (mb_nodes S ! i) = (reply, ms, node') \<Longrightarrow>
    members_step serve reopen arrives may_restart S
      \<lparr>mb_nodes = (mb_nodes S)[i := node'], mb_signed = mb_signed S \<union> {i} \<times> set ms\<rparr>"
| restart: "i < length (mb_nodes S) \<Longrightarrow> may_restart (mb_nodes S ! i) \<Longrightarrow>
    members_step serve reopen arrives may_restart S (S\<lparr>mb_nodes := (mb_nodes S)[i := reopen io (mb_nodes S ! i)]\<rparr>)"

definition signed_by :: "('m, 'n) members \<Rightarrow> nat \<Rightarrow> 'm set" where
  "signed_by S i = {m. (i, m) \<in> mb_signed S}"

locale member_invariant =
  fixes serve :: "('m, 'n) server" and reopen :: "nat option \<Rightarrow> 'n \<Rightarrow> 'n"
    and arrives :: "'m \<Rightarrow> bool" and may_restart :: "'n \<Rightarrow> bool" and inv :: "'n \<Rightarrow> 'm set \<Rightarrow> bool"
  assumes serve_inv: "arrives request \<Longrightarrow> inv node M \<Longrightarrow> serve io sent request node = (reply, ms, node') \<Longrightarrow>
      inv node' (M \<union> set ms)"
    and reopen_inv: "may_restart node \<Longrightarrow> inv node M \<Longrightarrow> inv (reopen io node) M"
begin

lemma step_inv:
  assumes "members_step serve reopen arrives may_restart S S'" and i: "i < length (mb_nodes S)"
    and inv: "inv (mb_nodes S ! i) (signed_by S i)"
  shows "length (mb_nodes S') = length (mb_nodes S) \<and> inv (mb_nodes S' ! i) (signed_by S' i)"
  using assms(1)
proof cases
  case (connection j request io sent reply ms node')
  then have "signed_by S' i = (if i = j then signed_by S i \<union> set ms else signed_by S i)"
    by (auto simp: signed_by_def)
  then show ?thesis
    using connection serve_inv [OF connection(3) _ connection(4)] inv i by (cases "i = j") auto
next
  case (restart j io)
  then have "signed_by S' i = signed_by S i"
    by (simp add: signed_by_def)
  then show ?thesis
    using restart reopen_inv inv i by (cases "i = j") auto
qed

lemma run_inv:
  assumes "(members_step serve reopen arrives may_restart)\<^sup>*\<^sup>* S0 S" and "i < length (mb_nodes S0)"
    and "inv (mb_nodes S0 ! i) (signed_by S0 i)"
  shows "length (mb_nodes S) = length (mb_nodes S0) \<and> inv (mb_nodes S ! i) (signed_by S i)"
  using assms(1)
proof (induction rule: rtranclp_induct)
  case base
  then show ?case
    using assms by simp
next
  case (step S S')
  then show ?case
    using step_inv [OF step(2), of i] assms(2) by simp
qed

end

lemma members_run_length:
  "(members_step serve reopen arrives may_restart)\<^sup>*\<^sup>* S S' \<Longrightarrow> length (mb_nodes S') = length (mb_nodes S)"
  by (induction rule: rtranclp_induct) (auto elim: members_step.cases)

lemma members_step_signed: "members_step serve reopen arrives may_restart S S' \<Longrightarrow> mb_signed S \<subseteq> mb_signed S'"
  by (erule members_step.cases) auto

lemma members_run_signed: "(members_step serve reopen arrives may_restart)\<^sup>*\<^sup>* S S' \<Longrightarrow> mb_signed S \<subseteq> mb_signed S'"
  by (induction rule: rtranclp_induct) (use members_step_signed in blast)+

end
