(* ===== verification/LineageSafety.thy ===== *)
theory LineageSafety
  imports LineageLog Members
begin

text \<open>
  What a lineage member that follows the code can sign.  Its log passes through three stages: empty,
  holding a state, handed over.  While it holds a state it moves from generation to generation along
  one chain; once it has handed a state over it holds nothing.  A member of the first committee must
  not restart once it has handed its state over: the start of the process would install the genesis
  state again.
\<close>

section \<open>The stages of a log\<close>

text \<open>
  \<open>origin\<close> is the hand-off that brings the state to this committee, \<open>None\<close> for the first committee,
  which starts from the genesis state.
\<close>

definition origin_state :: "crypto \<Rightarrow> rotation option \<Rightarrow> state_ref" where
  "origin_state C origin = (case origin of None \<Rightarrow> genesis_state C | Some h \<Rightarrow> ro_state h)"

definition origin_activations :: "crypto \<Rightarrow> rotation option \<Rightarrow> (u64 \<times> u64 \<rightharpoonup> digest)" where
  "origin_activations C origin = (case origin of None \<Rightarrow> Map.empty
    | Some h \<Rightarrow> [(ro_from_epoch h, sr_generation (ro_state h)) \<mapsto> rotation_hash C h])"

definition state_at :: "state_ref \<Rightarrow> (u64 \<rightharpoonup> digest) \<Rightarrow> u64 \<Rightarrow> state_ref" where
  "state_at s0 t g = (if g = sr_generation s0 then s0 else coin_state g (the (t (g - 1))))"

definition reached :: "state_ref \<Rightarrow> (u64 \<rightharpoonup> digest) \<Rightarrow> state_ref \<Rightarrow> bool" where
  "reached s0 t s \<longleftrightarrow> sr_coin s0 = COIN_ID \<and> sr_generation s0 \<le> sr_generation s \<and>
    dom t = {g. sr_generation s0 \<le> g \<and> g < sr_generation s} \<and> s = state_at s0 t (sr_generation s)"

definition holding :: "crypto \<Rightarrow> rotation option \<Rightarrow> lineage_view \<Rightarrow> state_ref \<Rightarrow> bool" where
  "holding C origin v s \<longleftrightarrow> lv_active v = Some s \<and> lv_retired v = Map.empty \<and>
    lv_activations v = origin_activations C origin \<and> reached (origin_state C origin) (lv_transfers v) s"

definition handed :: "crypto \<Rightarrow> rotation option \<Rightarrow> lineage_view \<Rightarrow> rotation \<Rightarrow> bool" where
  "handed C origin v h \<longleftrightarrow> lv_active v = None \<and> lv_retired v = [ro_state h \<mapsto> rotation_hash C h] \<and>
    lv_activations v = origin_activations C origin \<and> reached (origin_state C origin) (lv_transfers v) (ro_state h)"

definition lifecycle :: "crypto \<Rightarrow> rotation option \<Rightarrow> lineage_view \<Rightarrow> bool" where
  "lifecycle C origin v \<longleftrightarrow> v = empty_view \<or> (\<exists>s. holding C origin v s) \<or> (\<exists>h. handed C origin v h)"

lemma state_at_fields [simp]:
  "sr_generation (state_at s0 t g) = g"
  "sr_coin s0 = COIN_ID \<Longrightarrow> sr_coin (state_at s0 t g) = COIN_ID"
  by (simp_all add: state_at_def coin_state_def)

lemma reached_coin: "reached s0 t s \<Longrightarrow> sr_coin s = COIN_ID"
  unfolding reached_def using state_at_fields(2) by metis

lemma word_less_Suc:
  fixes g x :: u64
  assumes "g \<noteq> - 1"
  shows "x < g + 1 \<longleftrightarrow> x \<le> g"
proof -
  have "unat (g + 1) = unat g + 1"
    using assms unat_plus_simple [of g 1] by (metis add.commute max_word_wrap unat_1 unatSuc unat_eq_zero Suc_eq_plus1)
  then show ?thesis
    by (simp add: word_less_nat_alt word_le_nat_alt less_Suc_eq_le)
qed

lemma reached_start: "sr_coin s0 = COIN_ID \<Longrightarrow> reached s0 Map.empty s0"
  by (auto simp: reached_def state_at_def)

lemma reached_successor:
  assumes "reached s0 t (fin_from f)" and "sr_generation (fin_from f) \<noteq> - 1"
  shows "reached s0 (t(sr_generation (fin_from f) \<mapsto> fin_successor f)) (successor_state f)"
    and "fin_from f = state_at s0 (t(sr_generation (fin_from f) \<mapsto> fin_successor f)) (sr_generation (fin_from f))"
proof -
  have r: "sr_coin s0 = COIN_ID" "sr_generation s0 \<le> sr_generation (fin_from f)"
    "dom t = {g. sr_generation s0 \<le> g \<and> g < sr_generation (fin_from f)}"
    "fin_from f = state_at s0 t (sr_generation (fin_from f))"
    using assms(1) unfolding reached_def by blast+
  have g: "sr_generation (successor_state f) = sr_generation (fin_from f) + 1"
    by (simp add: successor_state_def)
  have later: "sr_generation s0 < sr_generation (fin_from f) + 1"
    using r(2) word_less_Suc [OF assms(2)] by simp
  moreover have "dom (t(sr_generation (fin_from f) \<mapsto> fin_successor f)) =
      {g. sr_generation s0 \<le> g \<and> g < sr_generation (fin_from f) + 1}"
    using r(2,3) by (auto simp: word_less_Suc [OF assms(2)])
  moreover have "successor_state f =
      state_at s0 (t(sr_generation (fin_from f) \<mapsto> fin_successor f)) (sr_generation (fin_from f) + 1)"
    using later by (simp add: state_at_def successor_coin_state reached_coin [OF assms(1)])
  ultimately show "reached s0 (t(sr_generation (fin_from f) \<mapsto> fin_successor f)) (successor_state f)"
    using r(1) unfolding reached_def g by auto
  have "state_at s0 (t(sr_generation (fin_from f) \<mapsto> fin_successor f)) (sr_generation (fin_from f)) =
      state_at s0 t (sr_generation (fin_from f))"
    by (simp add: state_at_def)
  then show "fin_from f = state_at s0 (t(sr_generation (fin_from f) \<mapsto> fin_successor f)) (sr_generation (fin_from f))"
    using r(4) by (rule trans [OF _ sym, rotated])
qed

definition lineage_move :: "crypto \<Rightarrow> rotation option \<Rightarrow> lineage_view \<Rightarrow> lineage_view \<Rightarrow> bool" where
  "lineage_move C origin v v' \<longleftrightarrow>
    v = empty_view \<and> holding C origin v' (origin_state C origin) \<or>
    (\<exists>f. holding C origin v (fin_from f) \<and> sr_generation (fin_from f) \<noteq> - 1 \<and>
      v' = v\<lparr>lv_transfers := (lv_transfers v)(sr_generation (fin_from f) \<mapsto> fin_successor f),
        lv_active := Some (successor_state f)\<rparr>) \<or>
    (\<exists>h. holding C origin v (ro_state h) \<and>
      v' = v\<lparr>lv_retired := (lv_retired v)(ro_state h \<mapsto> rotation_hash C h), lv_active := None\<rparr>)"

lemma lineage_move_cases:
  assumes "lineage_move C origin v v'"
  obtains "v = empty_view" "holding C origin v' (origin_state C origin)"
    | f where "holding C origin v (fin_from f)" "sr_generation (fin_from f) \<noteq> - 1"
      "v' = v\<lparr>lv_transfers := (lv_transfers v)(sr_generation (fin_from f) \<mapsto> fin_successor f),
        lv_active := Some (successor_state f)\<rparr>" "holding C origin v' (successor_state f)"
    | h where "holding C origin v (ro_state h)"
      "v' = v\<lparr>lv_retired := (lv_retired v)(ro_state h \<mapsto> rotation_hash C h), lv_active := None\<rparr>" "handed C origin v' h"
proof -
  consider "v = empty_view" "holding C origin v' (origin_state C origin)"
    | f where "holding C origin v (fin_from f)" "sr_generation (fin_from f) \<noteq> - 1"
      "v' = v\<lparr>lv_transfers := (lv_transfers v)(sr_generation (fin_from f) \<mapsto> fin_successor f),
        lv_active := Some (successor_state f)\<rparr>"
    | h where "holding C origin v (ro_state h)"
      "v' = v\<lparr>lv_retired := (lv_retired v)(ro_state h \<mapsto> rotation_hash C h), lv_active := None\<rparr>"
    using assms unfolding lineage_move_def by blast
  then show thesis
  proof cases
    case (2 f)
    moreover have "holding C origin v' (successor_state f)"
      using 2 by (simp add: holding_def reached_successor(1))
    ultimately show thesis
      using that(2) by blast
  next
    case (3 h)
    moreover have "handed C origin v' h"
      using 3 by (simp add: holding_def handed_def)
    ultimately show thesis
      using that(3) by blast
  qed (use that(1) in blast)
qed

lemma lineage_move_lifecycle: "lineage_move C origin v v' \<Longrightarrow> lifecycle C origin v'"
  by (erule lineage_move_cases) (auto simp: lifecycle_def)

lemma handed_retired: "handed C origin v h \<Longrightarrow> lv_retired v \<noteq> Map.empty"
  by (metis handed_def fun_upd_same option.distinct(1))

lemma lineage_move_not_handed: "lineage_move C origin v v' \<Longrightarrow> \<not> handed C origin v h"
  by (erule lineage_move_cases) (auto simp: holding_def empty_view_def dest: handed_retired)

section \<open>What the log vouches for\<close>

definition finality_vouched :: "crypto \<Rightarrow> u64 \<Rightarrow> rotation option \<Rightarrow> lineage_view \<Rightarrow> finality \<Rightarrow> bool" where
  "finality_vouched C e origin v f \<longleftrightarrow> fin_epoch f = e \<and>
    lv_transfers v (sr_generation (fin_from f)) = Some (fin_successor f) \<and>
    fin_from f = state_at (origin_state C origin) (lv_transfers v) (sr_generation (fin_from f))"

definition vouched :: "crypto \<Rightarrow> u64 \<Rightarrow> rotation option \<Rightarrow> lineage_view \<Rightarrow> nat \<Rightarrow> u8 list \<Rightarrow> bool" where
  "vouched C e origin v i m \<longleftrightarrow>
    (\<exists>f. m = final_share_message f i \<and> finality_vouched C e origin v f) \<or>
    (\<exists>h. m = rotation_share_message h i \<and> ro_from_epoch h = e \<and> ro_to_epoch h = e + 1 \<and> handed C origin v h) \<or>
    (\<exists>h. origin = Some h \<and> m = epoch_activation_message e (rotation_hash C h) i) \<or>
    (\<exists>s nonce. m = freshness_message e s nonce i)"

lemma finality_vouched_extend:
  assumes "finality_vouched C e origin v f" and hold: "holding C origin v (fin_from g)"
  shows "finality_vouched C e origin (v\<lparr>lv_transfers := (lv_transfers v)(sr_generation (fin_from g) \<mapsto> fin_successor g),
    lv_active := a\<rparr>) f"
proof -
  let ?s0 = "origin_state C origin"
  let ?x = "sr_generation (fin_from f)"
  have dom: "dom (lv_transfers v) = {x. sr_generation ?s0 \<le> x \<and> x < sr_generation (fin_from g)}"
    using hold by (simp add: holding_def reached_def)
  have x: "lv_transfers v ?x = Some (fin_successor f)"
    using assms(1) by (simp add: finality_vouched_def)
  then have le: "sr_generation ?s0 \<le> ?x" "?x < sr_generation (fin_from g)"
    using dom by (blast dest: domI)+
  have "?x - 1 \<noteq> sr_generation (fin_from g)" if "?x \<noteq> sr_generation ?s0"
  proof -
    have "?x - 1 < ?x"
      using le(1) that by (metis diff_add_cancel linorder_not_less not_less_iff_gr_or_eq word_gt_0 word_le_less_eq word_less_Suc max_word_wrap word_zero_le)
    then show ?thesis
      using le(2) by simp
  qed
  then show ?thesis
    using assms(1) le(2) by (auto simp: finality_vouched_def state_at_def)
qed

lemma vouched_move:
  assumes "vouched C e origin v i m" and "lineage_move C origin v v'"
  shows "vouched C e origin v' i m"
proof -
  have final: "finality_vouched C e origin v' f" if f: "finality_vouched C e origin v f" for f
    using assms(2)
  proof (cases rule: lineage_move_cases)
    case 1
    then show ?thesis
      using f by (simp add: finality_vouched_def empty_view_def)
  next
    case (2 g)
    then show ?thesis
      using finality_vouched_extend [OF f 2(1)] by simp
  next
    case 3
    then show ?thesis
      using f by (simp add: finality_vouched_def)
  qed
  then show ?thesis
    using assms(1) lineage_move_not_handed [OF assms(2)] unfolding vouched_def by blast
qed

section \<open>The operations of the store\<close>

definition op_safe :: "crypto \<Rightarrow> u64 \<Rightarrow> rotation option \<Rightarrow> nat \<Rightarrow> u8 list \<Rightarrow> lineage_store \<Rightarrow> bool option \<Rightarrow> lineage_store \<Rightarrow> bool" where
  "op_safe C e origin i m st r st' \<longleftrightarrow>
    st' = st \<and> r \<noteq> None \<and> (r = Some True \<longrightarrow> vouched C e origin (ls_view st) i m) \<or>
    (\<exists>v'. lineage_move C origin (ls_view st) v' \<and> records C st v' r st' \<and> vouched C e origin v' i m)"

lemma lifecycle_active:
  assumes "lifecycle C origin v" and "lv_active v = Some s"
  shows "holding C origin v s" and "sr_coin s = COIN_ID"
proof -
  show "holding C origin v s"
    using assms by (auto simp: lifecycle_def holding_def handed_def empty_view_def)
  then show "sr_coin s = COIN_ID"
    by (auto simp: holding_def intro: reached_coin)
qed

lemma lifecycle_coin: "lifecycle C origin v \<Longrightarrow> \<forall>s. lv_active v = Some s \<longrightarrow> sr_coin s = COIN_ID"
  using lifecycle_active(2) by blast

lemma finalize_safe:
  assumes life: "lifecycle C origin (ls_view st)" and e: "ls_epoch st = e" and g: "sr_generation (fin_from f) \<noteq> - 1"
    and run: "finalize C io f st = (r, st')"
  shows "op_safe C e origin i (final_share_message f i) st r st'"
  using run lifecycle_coin [OF life]
proof (cases rule: finalize_cases)
  case 2
  then have "holding C origin (ls_view st) (fin_from f)"
    using lifecycle_active(1) [OF life] by blast
  then have "lv_transfers (ls_view st) (sr_generation (fin_from f)) = None"
    by (auto simp: holding_def reached_def)
  then show ?thesis
    using 2 by simp
next
  case 3
  let ?v = "ls_view st"
  let ?v' = "?v\<lparr>lv_transfers := (lv_transfers ?v)(sr_generation (fin_from f) \<mapsto> fin_successor f), lv_active := Some (successor_state f)\<rparr>"
  have hold: "holding C origin ?v (fin_from f)"
    using lifecycle_active(1) [OF life] 3 by blast
  then have "lineage_move C origin ?v ?v'"
    using g unfolding lineage_move_def by blast
  moreover have "finality_vouched C e origin ?v' f"
    using hold 3(1) e reached_successor(2) [OF _ g] by (simp add: finality_vouched_def holding_def)
  ultimately show ?thesis
    using 3(4) unfolding op_safe_def vouched_def by blast
qed (simp add: op_safe_def)

lemma retire_safe:
  assumes life: "lifecycle C origin (ls_view st)" and e: "ls_epoch st = e" and run: "retire C io h st = (r, st')"
  shows "op_safe C e origin i (rotation_share_message h i) st r st'"
  using run lifecycle_coin [OF life]
proof (cases rule: retire_cases)
  case 2
  then have "holding C origin (ls_view st) (ro_state h)"
    using lifecycle_active(1) [OF life] by blast
  then show ?thesis
    using 2 by (simp add: holding_def)
next
  case 3
  let ?v = "ls_view st"
  let ?v' = "?v\<lparr>lv_retired := (lv_retired ?v)(ro_state h \<mapsto> rotation_hash C h), lv_active := None\<rparr>"
  have hold: "holding C origin ?v (ro_state h)"
    using lifecycle_active(1) [OF life] 3 by blast
  then have "lineage_move C origin ?v ?v'"
    unfolding lineage_move_def by blast
  moreover have "handed C origin ?v' h"
    using hold by (simp add: holding_def handed_def)
  ultimately show ?thesis
    using 3 e unfolding op_safe_def vouched_def by blast
qed (simp add: op_safe_def)

lemma activate_safe:
  assumes life: "lifecycle C (Some h) (ls_view st)" and coin: "sr_coin (ro_state h) = COIN_ID"
    and run: "activate C io h st = (r, st')"
  shows "op_safe C e (Some h) i (epoch_activation_message e (rotation_hash C h) i) st r st'"
  using run coin
proof (cases rule: activate_cases)
  case 3
  let ?v = "ls_view st"
  let ?v' = "?v\<lparr>lv_activations := (lv_activations ?v)((ro_from_epoch h, sr_generation (ro_state h)) \<mapsto> rotation_hash C h),
    lv_active := Some (ro_state h)\<rparr>"
  have "\<not> holding C (Some h) ?v s" "\<not> handed C (Some h) ?v g" for s g
    using 3(3) by (auto simp: holding_def handed_def origin_activations_def)
  then have empty: "?v = empty_view"
    using life by (simp add: lifecycle_def)
  then have "holding C (Some h) ?v' (origin_state C (Some h))"
    using coin by (simp add: holding_def origin_state_def origin_activations_def empty_view_def reached_start)
  then have "lineage_move C (Some h) ?v ?v'"
    using empty by (simp add: lineage_move_def)
  then show ?thesis
    using 3(5) unfolding op_safe_def vouched_def by blast
qed (auto simp: op_safe_def vouched_def)

lemma bootstrap_safe:
  assumes life: "lifecycle C None (ls_view st)" and kept: "lv_retired (ls_view st) = Map.empty"
    and run: "bootstrap C io (genesis_state C) st = (r, st')"
  shows "st' = st \<and> r \<noteq> None \<or> (\<exists>v'. lineage_move C None (ls_view st) v' \<and> records C st v' r st')"
proof -
  have coin: "sr_coin (genesis_state C) = COIN_ID"
    by (simp add: genesis_state_def)
  show ?thesis
    using run coin
  proof (cases rule: bootstrap_cases)
    case 2
    let ?v = "ls_view st"
    have "?v = empty_view"
      using life kept 2(1) handed_retired by (auto simp: lifecycle_def holding_def)
    then have "lineage_move C None ?v (?v\<lparr>lv_active := Some (genesis_state C)\<rparr>)"
      using coin by (simp add: lineage_move_def holding_def empty_view_def origin_state_def origin_activations_def reached_start)
    then show ?thesis
      using 2(2) by blast
  qed simp
qed

section \<open>Members\<close>

definition stored_view :: "crypto \<Rightarrow> lineage_node \<Rightarrow> lineage_view option" where
  "stored_view C node = (case ln_store node of None \<Rightarrow> None | Some st \<Rightarrow> logged C st)"

definition lineage_inv :: "crypto \<Rightarrow> u64 \<Rightarrow> rotation option \<Rightarrow> nat \<Rightarrow> lineage_node \<Rightarrow> u8 list set \<Rightarrow> bool" where
  "lineage_inv C e origin i node M \<longleftrightarrow> \<not> ln_byzantine node \<and> ln_epoch node = e \<and> ln_index node = i \<and>
    (\<exists>st v. ln_store node = Some st \<and> ls_epoch st = e \<and> logged C st = Some v \<and>
      (ln_up node \<longrightarrow> running_store C st) \<and> lifecycle C origin v \<and> (\<forall>m \<in> M. vouched C e origin v i m))"

lemma lineage_inv_down: "lineage_inv C e origin i node M \<Longrightarrow> lineage_inv C e origin i (node\<lparr>ln_up := False\<rparr>) M"
  by (auto simp: lineage_inv_def)

lemma lineage_inv_store:
  assumes "lineage_inv C e origin i node M" and "ln_up node"
  obtains st where "ln_store node = Some st" "ls_epoch st = e" "running_store C st" "lifecycle C origin (ls_view st)"
    "\<forall>m \<in> M. vouched C e origin (ls_view st) i m"
  using assms by (auto simp: lineage_inv_def running_store_def)

lemma with_store_safe:
  assumes inv: "lineage_inv C e origin i node M" and up: "ln_up node"
    and run: "with_store op node = (r, node')"
    and op: "\<And>st r st'. op st = (r, st') \<Longrightarrow> ls_epoch st = e \<Longrightarrow> lifecycle C origin (ls_view st) \<Longrightarrow> op_safe C e origin i m st r st'"
  shows "lineage_inv C e origin i (node'\<lparr>ln_up := False\<rparr>) M"
    and "r \<noteq> None \<Longrightarrow> lineage_inv C e origin i node' (if r = Some True then insert m M else M)"
proof -
  obtain st where st: "ln_store node = Some st" "ls_epoch st = e" "running_store C st" "lifecycle C origin (ls_view st)"
    "\<forall>m \<in> M. vouched C e origin (ls_view st) i m"
    by (rule lineage_inv_store [OF inv up])
  obtain st' where st': "op st = (r, st')" "node' = node\<lparr>ln_store := Some st'\<rparr>"
    using run st(1) by (auto simp: with_store_def split: prod.splits)
  have node: "\<not> ln_byzantine node" "ln_epoch node = e" "ln_index node = i"
    using inv by (simp_all add: lineage_inv_def)
  have "op_safe C e origin i m st r st'"
    using op [OF st'(1) st(2,4)] .
  then consider "st' = st" "r \<noteq> None" "r = Some True \<longrightarrow> vouched C e origin (ls_view st) i m"
    | v' where "lineage_move C origin (ls_view st) v'" "records C st v' r st'" "vouched C e origin v' i m"
    unfolding op_safe_def by blast
  then have "lineage_inv C e origin i (node'\<lparr>ln_up := False\<rparr>) M \<and>
    (r \<noteq> None \<longrightarrow> lineage_inv C e origin i node' (if r = Some True then insert m M else M))"
  proof cases
    case 1
    then show ?thesis
      using st st'(2) node by (auto simp: lineage_inv_def running_store_def)
  next
    case (2 v')
    have "\<forall>m \<in> M. vouched C e origin v' i m" "lifecycle C origin v'"
      using st(5) vouched_move [OF _ 2(1)] lineage_move_lifecycle [OF 2(1)] by blast+
    then show ?thesis
      using records_logged [OF st(3) 2(2)] 2(3) st st'(2) node by (auto simp: lineage_inv_def running_store_def)
  qed
  then show "lineage_inv C e origin i (node'\<lparr>ln_up := False\<rparr>) M"
    and "r \<noteq> None \<Longrightarrow> lineage_inv C e origin i node' (if r = Some True then insert m M else M)"
    by auto
qed

lemma answer_if_safe:
  assumes run: "answer_if C sent m (r, node) = (reply, ms, node')"
    and down: "lineage_inv C e origin i (node\<lparr>ln_up := False\<rparr>) M"
    and ok: "r \<noteq> None \<Longrightarrow> lineage_inv C e origin i node (if r = Some True then insert m M else M)"
  shows "lineage_inv C e origin i node' (M \<union> set ms)"
proof -
  consider "r = None" | "r = Some False" | "r = Some True"
    by (metis (full_types) not_Some_eq)
  then show ?thesis
    using run down ok lineage_inv_down
    by cases (auto simp: answer_if_def member_dies_def answer_plain_def answer_signed_def Let_def split: option.splits)
qed

text \<open>
  The requests that may arrive: the certificates addressed to this committee that verify are \<open>P\<close>'s, and
  no transfer spends the last generation a word can count.
\<close>

definition lineage_arrives :: "crypto \<Rightarrow> u64 \<Rightarrow> (rotation_cert \<Rightarrow> bool) \<Rightarrow> u8 list \<Rightarrow> bool" where
  "lineage_arrives C e P request \<longleftrightarrow>
    (\<forall>body f rest. request = LN_FINALIZE # body \<longrightarrow> read_finality body = Some (f, rest) \<longrightarrow> sr_generation (fin_from f) \<noteq> - 1) \<and>
    (\<forall>body cert rest. request = LN_ACTIVATE # body \<longrightarrow> read_rotation_cert body = Some (cert, rest) \<longrightarrow>
      verify_rotation_cert C cert \<longrightarrow> ro_to_epoch (rc_handoff cert) = e \<longrightarrow> P cert)"

definition brings :: "(rotation_cert \<Rightarrow> bool) \<Rightarrow> rotation option \<Rightarrow> bool" where
  "brings P origin \<longleftrightarrow> (\<forall>cert. P cert \<longrightarrow> origin = Some (rc_handoff cert) \<and> sr_coin (ro_state (rc_handoff cert)) = COIN_ID)"

definition may_reopen :: "crypto \<Rightarrow> lineage_node \<Rightarrow> bool" where
  "may_reopen C node \<longleftrightarrow> (ln_epoch node = EPOCH_30 \<longrightarrow> (\<forall>v. stored_view C node = Some v \<longrightarrow> lv_retired v = Map.empty))"

lemma member_dies_safe:
  "lineage_inv C e origin i node M \<Longrightarrow> member_dies node = (reply, ms, node') \<Longrightarrow> lineage_inv C e origin i node' (M \<union> set ms)"
  using lineage_inv_down by (auto simp: member_dies_def)

lemma served_if_safe:
  assumes inv: "lineage_inv C e origin i node M" and up: "ln_up node"
    and run: "answer_if C sent m (with_store op node) = (reply, ms, node')"
    and op: "\<And>st r st'. op st = (r, st') \<Longrightarrow> ls_epoch st = e \<Longrightarrow> lifecycle C origin (ls_view st) \<Longrightarrow> op_safe C e origin i m st r st'"
  shows "lineage_inv C e origin i node' (M \<union> set ms)"
proof -
  obtain r node'' where w: "with_store op node = (r, node'')"
    by force
  show ?thesis
    using run answer_if_safe with_store_safe [OF inv up w op] unfolding w by blast
qed

lemma refused_safe:
  assumes "lineage_inv C e origin i node M" and "answer_if C sent m (Some False, node) = (reply, ms, node')"
  shows "lineage_inv C e origin i node' (M \<union> set ms)"
  using assms by (auto simp: answer_if_def answer_plain_def)

lemma finalize_request_safe:
  assumes inv: "lineage_inv C e origin i node M" and up: "ln_up node"
    and g: "\<And>f rest. read_finality body = Some (f, rest) \<Longrightarrow> sr_generation (fin_from f) \<noteq> - 1"
    and run: "finalize_request C io sent body node = (reply, ms, node')"
  shows "lineage_inv C e origin i node' (M \<union> set ms)"
proof (cases "read_finality body")
  case None
  then show ?thesis
    using run member_dies_safe [OF inv] by (simp add: finalize_request_def)
next
  case (Some fr)
  obtain f rest where f: "read_finality body = Some (f, rest)"
    using Some by (cases fr) auto
  have "answer_if C sent (final_share_message f i) (with_store (finalize C io f) node) = (reply, ms, node')"
    using run f inv by (simp add: finalize_request_def lineage_inv_def)
  then show ?thesis
    by (rule served_if_safe [OF inv up]) (rule finalize_safe [OF _ _ g [OF f]])
qed

lemma rotation_request_safe:
  assumes inv: "lineage_inv C e origin i node M" and up: "ln_up node"
    and run: "rotation_request C io sent body node = (reply, ms, node')"
  shows "lineage_inv C e origin i node' (M \<union> set ms)"
proof (cases "read_rotation body")
  case None
  then show ?thesis
    using run member_dies_safe [OF inv] by (simp add: rotation_request_def)
next
  case (Some hr)
  obtain h rest where h: "read_rotation body = Some (h, rest)"
    using Some by (cases hr) auto
  have "answer_if C sent (rotation_share_message h i) (with_store (retire C io h) node) = (reply, ms, node')"
    using run h inv by (simp add: rotation_request_def lineage_inv_def)
  then show ?thesis
    by (rule served_if_safe [OF inv up]) (rule retire_safe)
qed

lemma activate_request_safe:
  assumes inv: "lineage_inv C e origin i node M" and up: "ln_up node" and P: "brings P origin"
    and shown: "\<And>cert rest. read_rotation_cert body = Some (cert, rest) \<Longrightarrow> verify_rotation_cert C cert \<Longrightarrow>
      ro_to_epoch (rc_handoff cert) = e \<Longrightarrow> P cert"
    and run: "activate_request C io sent body node = (reply, ms, node')"
  shows "lineage_inv C e origin i node' (M \<union> set ms)"
proof (cases "read_rotation_cert body")
  case None
  then show ?thesis
    using run member_dies_safe [OF inv] by (simp add: activate_request_def)
next
  case (Some hr)
  obtain cert rest where cert: "read_rotation_cert body = Some (cert, rest)"
    using Some by (cases hr) auto
  let ?h = "rc_handoff cert"
  have node: "\<not> ln_byzantine node" "ln_epoch node = e" "ln_index node = i"
    using inv by (simp_all add: lineage_inv_def)
  show ?thesis
  proof (cases "verify_rotation_cert C cert \<and> ro_to_epoch ?h = e")
    case False
    then show ?thesis
      using run cert node refused_safe [OF inv] by (auto simp: activate_request_def)
  next
    case True
    then have "P cert"
      using shown [OF cert] by blast
    then have h: "origin = Some ?h" "sr_coin (ro_state ?h) = COIN_ID"
      using P by (simp_all add: brings_def)
    have "answer_if C sent (epoch_activation_message e (rotation_hash C ?h) i) (with_store (activate C io ?h) node) = (reply, ms, node')"
      using run cert node True by (simp add: activate_request_def)
    then show ?thesis
      unfolding h(1) by (rule served_if_safe [OF inv [unfolded h(1)] up]) (rule activate_safe [OF _ h(2)])
  qed
qed

lemma freshness_request_safe:
  assumes inv: "lineage_inv C e origin i node M" and up: "ln_up node"
    and run: "freshness_request C sent body node = (reply, ms, node')"
  shows "lineage_inv C e origin i node' (M \<union> set ms)"
proof (cases "read_challenge body")
  case None
  then show ?thesis
    using run member_dies_safe [OF inv] by (simp add: freshness_request_def)
next
  case (Some cr)
  obtain epoch s nonce rest where c: "read_challenge body = Some ((epoch, s, nonce), rest)"
    using Some by (cases cr) auto
  have node: "\<not> ln_byzantine node" "ln_epoch node = e" "ln_index node = i"
    using inv by (simp_all add: lineage_inv_def)
  show ?thesis
  proof (cases "epoch = e")
    case False
    then show ?thesis
      using run c node refused_safe [OF inv] by (simp add: freshness_request_def)
  next
    case True
    then have "answer_if C sent (freshness_message e s nonce i) (with_store (\<lambda>st. (Some (active_matches st s), st)) node) = (reply, ms, node')"
      using run c node by (simp add: freshness_request_def)
    then show ?thesis
      by (rule served_if_safe [OF inv up]) (auto simp: op_safe_def vouched_def)
  qed
qed

lemma lineage_connection_safe:
  assumes arrives: "lineage_arrives C e P request" and P: "brings P origin" and inv: "lineage_inv C e origin i node M"
    and run: "lineage_connection C io sent request node = (reply, ms, node')"
  shows "lineage_inv C e origin i node' (M \<union> set ms)"
proof (cases "ln_up node \<and> request \<noteq> []")
  case False
  then show ?thesis
    using run inv by (auto simp: lineage_connection_def split: if_splits list.splits)
next
  case True
  then obtain op body where request: "request = op # body" and up: "ln_up node"
    by (cases request) auto
  consider "op = LN_FINALIZE" "finalize_request C io sent body node = (reply, ms, node')"
    | "rotation_request C io sent body node = (reply, ms, node')"
    | "op = LN_ACTIVATE" "activate_request C io sent body node = (reply, ms, node')"
    | "freshness_request C sent body node = (reply, ms, node')"
    | "ms = []" "node' = node \<or> node' = node\<lparr>ln_up := False\<rparr>"
    using run request up by (auto simp: lineage_connection_def answer_plain_def split: if_splits)
  then show ?thesis
  proof cases
    case 1
    then show ?thesis
      using finalize_request_safe [OF inv up _ 1(2)] arrives request by (auto simp: lineage_arrives_def)
  next
    case 3
    then show ?thesis
      using activate_request_safe [OF inv up P _ 3(2)] arrives request by (auto simp: lineage_arrives_def)
  next
    case 5
    then show ?thesis
      using inv lineage_inv_down by auto
  qed (use rotation_request_safe [OF inv up] freshness_request_safe [OF inv up] in blast)+
qed

lemma start_member_safe:
  assumes logged: "replay_log C e (chunks_exact LINEAGE_RECORD bytes) empty_view = Some v"
    and v: "lifecycle C origin v" "\<forall>m \<in> M. vouched C e origin v i m"
    and first: "e = EPOCH_30 \<Longrightarrow> origin = None \<and> lv_retired v = Map.empty"
  shows "lineage_inv C e origin i (start_member C io e i False bytes) M"
proof (cases "open_lineage C e bytes")
  case None
  then show ?thesis
    using logged v by (simp add: start_member_def lineage_inv_def logged_def)
next
  case (Some st)
  then have st: "running_store C st" "ls_epoch st = e" "ls_file st = bytes"
    using open_lineage_running by blast+
  then have view: "ls_view st = v" "logged C st = Some v"
    using logged by (simp_all add: running_store_def logged_def)
  show ?thesis
  proof (cases "e = EPOCH_30")
    case False
    then show ?thesis
      using Some st view v by (simp add: start_member_def lineage_inv_def)
  next
    case True
    obtain r st' where b: "bootstrap C io (genesis_state C) st = (r, st')"
      by force
    have node: "start_member C io e i False bytes =
        \<lparr>ln_epoch = e, ln_index = i, ln_byzantine = False, ln_store = Some st', ln_up = (r \<noteq> None)\<rparr>"
      using Some b True by (simp add: start_member_def Let_def)
    have first': "origin = None" "lv_retired (ls_view st) = Map.empty" "lifecycle C None (ls_view st)"
      using first [OF True] view v(1) by simp_all
    from bootstrap_safe [OF first'(3,2) b] consider "st' = st" "r \<noteq> None"
      | v' where "lineage_move C None (ls_view st) v'" "records C st v' r st'"
      by blast
    then show ?thesis
    proof cases
      case 1
      then show ?thesis
        unfolding node using st view v by (simp add: lineage_inv_def)
    next
      case (2 v')
      have "\<forall>m \<in> M. vouched C e origin v' i m" "lifecycle C origin v'"
        using v(2) vouched_move 2(1) lineage_move_lifecycle view(1) first'(1) by blast+
      then show ?thesis
        unfolding node using records_logged [OF st(1) 2(2)] st view v by (auto simp: lineage_inv_def running_store_def)
    qed
  qed
qed

lemma restart_member_safe:
  assumes "may_reopen C node" and inv: "lineage_inv C e origin i node M" and first: "e = EPOCH_30 \<Longrightarrow> origin = None"
  shows "lineage_inv C e origin i (restart_member C io node) M"
proof -
  have node: "\<not> ln_byzantine node" "ln_epoch node = e" "ln_index node = i"
    using inv by (simp_all add: lineage_inv_def)
  obtain st v where st: "ln_store node = Some st" "ls_epoch st = e" "logged C st = Some v" "lifecycle C origin v"
    "\<forall>m \<in> M. vouched C e origin v i m"
    using inv unfolding lineage_inv_def by blast
  have "e = EPOCH_30 \<Longrightarrow> lv_retired v = Map.empty"
    using assms(1) st(1,3) node(2) by (auto simp: may_reopen_def stored_view_def)
  then show ?thesis
    using start_member_safe [of C e "ls_file st" v origin M i io] st first node
    by (simp add: restart_member_def member_file_def logged_def)
qed

lemma start_member_fresh:
  assumes "e = EPOCH_30 \<Longrightarrow> origin = None"
  shows "lineage_inv C e origin i (start_member C io e i False []) {}"
  by (rule start_member_safe [where v = empty_view])
    (use assms in \<open>simp_all add: lifecycle_def empty_view_def chunks_exact_one\<close>)

end
