(* ===== verification/LineageUnicity.thy ===== *)
theory LineageUnicity
  imports LineageSafety
begin

text \<open>
  Committees of lineage members.  With at most two faulty members a committee certifies one hand-off
  and one successor per generation, only below the generation it hands over; a committee that has
  handed its state over cannot answer a new freshness challenge; and over a sequence of committees,
  each starting from its predecessor's hand-off, there is one history.
\<close>

section \<open>Signed messages\<close>

lemma lineage_message_lengths:
  "length (final_share_message f i) = 122" "length (rotation_share_message h i) = 97"
  "length (epoch_activation_message e d i) = 76" "length (freshness_message e s nonce i) = 133"
  by (simp_all add: final_share_message_def finality_message_def rotation_share_message_def rotation_message_def
    epoch_activation_message_def freshness_message_def state_bytes_def ascii_def)

lemma lineage_messages_differ:
  "final_share_message f i \<noteq> rotation_share_message h i" "final_share_message f i \<noteq> epoch_activation_message e d i"
  "final_share_message f i \<noteq> freshness_message e s nonce i" "rotation_share_message h i \<noteq> epoch_activation_message e d i"
  "rotation_share_message h i \<noteq> freshness_message e s nonce i" "epoch_activation_message e d i \<noteq> freshness_message e' s nonce i"
  by (metis lineage_message_lengths numeral_eq_iff num.distinct num.inject)+

lemma state_bytes_length [simp]: "length (state_bytes s) = 48"
  by (simp add: state_bytes_def)

lemma state_bytes_inj: "state_bytes s = state_bytes t \<longleftrightarrow> s = t"
  by (cases s; cases t) (auto simp: state_bytes_def fixed_append_eq array_eq_iff)

lemma final_share_message_inj: "final_share_message f i = final_share_message g i \<longleftrightarrow> f = g"
  by (cases f; cases g) (auto simp: final_share_message_def finality_message_def fixed_append_eq array_eq_iff state_bytes_inj)

lemma rotation_share_message_inj: "rotation_share_message h i = rotation_share_message g i \<longleftrightarrow> h = g"
  by (cases h; cases g) (auto simp: rotation_share_message_def rotation_message_def fixed_append_eq state_bytes_inj)

lemma freshness_message_inj: "freshness_message e s nonce i = freshness_message e s' nonce' i \<longleftrightarrow> s = s' \<and> nonce = nonce'"
  by (auto simp: freshness_message_def fixed_append_eq state_bytes_inj array_eq_iff)

lemma vouched_final: "vouched C e origin v i (final_share_message f i) \<longleftrightarrow> finality_vouched C e origin v f"
  unfolding vouched_def by (metis final_share_message_inj lineage_messages_differ)

lemma vouched_rotation: "vouched C e origin v i (rotation_share_message h i) \<longleftrightarrow>
    ro_from_epoch h = e \<and> ro_to_epoch h = e + 1 \<and> handed C origin v h"
  unfolding vouched_def by (metis rotation_share_message_inj lineage_messages_differ)

section \<open>One committee\<close>

definition lineage_tracked ::
  "crypto \<Rightarrow> u64 \<Rightarrow> (rotation_cert \<Rightarrow> bool) \<Rightarrow> rotation option \<Rightarrow> nat \<Rightarrow> lineage_node \<Rightarrow> u8 list set \<Rightarrow> bool" where
  "lineage_tracked C e P origin i node M \<longleftrightarrow> brings P origin \<and> (e = EPOCH_30 \<longrightarrow> origin = None) \<and> lineage_inv C e origin i node M"

interpretation lineage_members: member_invariant "lineage_connection C" "restart_member C" "lineage_arrives C e P" "may_reopen C"
    "lineage_tracked C e P origin i" for C e P origin i
proof
  show "lineage_tracked C e P origin i node' (M \<union> set ms)"
    if "lineage_arrives C e P request" "lineage_tracked C e P origin i node M"
      "lineage_connection C io sent request node = (reply, ms, node')" for request node M io sent reply ms node'
    using that lineage_connection_safe by (auto simp: lineage_tracked_def)
  show "lineage_tracked C e P origin i (restart_member C io node) M"
    if "may_reopen C node" "lineage_tracked C e P origin i node M" for node M io
    using that restart_member_safe by (auto simp: lineage_tracked_def)
qed

type_synonym lineage_committee = "(u8 list, lineage_node) members"

definition lineage_start :: "crypto \<Rightarrow> u64 \<Rightarrow> nat set \<Rightarrow> lineage_committee \<Rightarrow> bool" where
  "lineage_start C e faulty S \<longleftrightarrow> mb_signed S = {} \<and> length (mb_nodes S) = LINEAGE_N \<and>
    (\<forall>i < LINEAGE_N. \<exists>io. mb_nodes S ! i = start_member C io e i (i \<in> faulty) [])"

abbreviation lineage_run :: "crypto \<Rightarrow> u64 \<Rightarrow> (rotation_cert \<Rightarrow> bool) \<Rightarrow> lineage_committee \<Rightarrow> lineage_committee \<Rightarrow> bool" where
  "lineage_run C e P \<equiv>
    (members_step (lineage_connection C) (restart_member C) (lineage_arrives C e P) (may_reopen C))\<^sup>*\<^sup>*"

text \<open>The shares of a certificate that name a correct member are ones that member made.\<close>

definition issued :: "nat set \<Rightarrow> lineage_committee \<Rightarrow> (nat \<Rightarrow> u8 list) \<Rightarrow> signed_share list \<Rightarrow> bool" where
  "issued faulty S m shares \<longleftrightarrow>
    (\<forall>s \<in> set shares. ss_index s \<notin> faulty \<longrightarrow> (ss_index s, m (ss_index s)) \<in> mb_signed S)"

definition few_faulty :: "nat set \<Rightarrow> bool" where
  "few_faulty faulty \<longleftrightarrow> card (faulty \<inter> {..<LINEAGE_N}) \<le> 2"

definition final_issued :: "nat set \<Rightarrow> lineage_committee \<Rightarrow> final_cert \<Rightarrow> bool" where
  "final_issued faulty S cert \<longleftrightarrow> issued faulty S (final_share_message (fc_finality cert)) (fc_shares cert)"

definition rotation_issued :: "nat set \<Rightarrow> lineage_committee \<Rightarrow> rotation_cert \<Rightarrow> bool" where
  "rotation_issued faulty S cert \<longleftrightarrow> issued faulty S (rotation_share_message (rc_handoff cert)) (rc_shares cert)"

lemma lineage_quorum_members:
  assumes "lineage_quorum (member_signed C e m) shares"
  shows "ss_index ` set shares \<subseteq> {..<LINEAGE_N}" and "LINEAGE_Q \<le> card (ss_index ` set shares)"
  using assms by (auto simp: lineage_quorum_def list_all_iff member_signed_def)

lemma quorums_meet:
  assumes a: "lineage_quorum (member_signed C e m) xs" "issued faulty S m xs"
    and b: "lineage_quorum (member_signed C e m') ys" "issued faulty S' m' ys" and few: "few_faulty faulty"
  obtains i where "i < LINEAGE_N" "i \<notin> faulty" "(i, m i) \<in> mb_signed S" "(i, m' i) \<in> mb_signed S'"
proof -
  have "LINEAGE_N + card (faulty \<inter> {..<LINEAGE_N}) < card (ss_index ` set xs) + card (ss_index ` set ys)"
    using few lineage_quorum_members(2) [OF a(1)] lineage_quorum_members(2) [OF b(1)]
    by (simp add: few_faulty_def LINEAGE_N_def LINEAGE_Q_def)
  then obtain i where "i \<in> ss_index ` set xs" "i \<in> ss_index ` set ys" "i < LINEAGE_N" "i \<notin> faulty"
    using quorum_honest [OF lineage_quorum_members(1) [OF a(1)] lineage_quorum_members(1) [OF b(1)]] by blast
  then show thesis
    using that a(2) b(2) by (auto simp: issued_def)
qed

lemma final_cert_quorum: "verify_final_cert C cert \<Longrightarrow>
    lineage_quorum (member_signed C (fin_epoch (fc_finality cert)) (final_share_message (fc_finality cert))) (fc_shares cert)"
  by (simp add: verify_final_cert_def verify_final_share_def)

lemma rotation_cert_quorum: "verify_rotation_cert C cert \<Longrightarrow>
    lineage_quorum (member_signed C (ro_from_epoch (rc_handoff cert)) (rotation_share_message (rc_handoff cert))) (rc_shares cert)"
  by (simp add: verify_rotation_cert_def verify_rotation_share_def split: if_splits)

lemma fresh_cert_quorum: "verify_fresh_cert C cert \<Longrightarrow>
    lineage_quorum (member_signed C (fr_epoch cert) (freshness_message (fr_epoch cert) (fr_state cert) (fr_nonce cert))) (fr_shares cert)"
  by (simp add: verify_fresh_cert_def verify_fresh_share_def)

lemma honest_member:
  assumes start: "lineage_start C e faulty S0" and run: "lineage_run C e P S0 S"
    and origin: "brings P origin" "e = EPOCH_30 \<Longrightarrow> origin = None" and i: "i < LINEAGE_N" "i \<notin> faulty"
  shows "lineage_inv C e origin i (mb_nodes S ! i) (signed_by S i)"
proof -
  obtain io where node: "mb_nodes S0 ! i = start_member C io e i False []" and s0: "signed_by S0 i = {}"
    "i < length (mb_nodes S0)"
    using start i by (auto simp: lineage_start_def signed_by_def)
  have "lineage_inv C e origin i (start_member C io e i False []) {}"
    by (rule start_member_fresh) (rule origin(2))
  then have "lineage_tracked C e P origin i (mb_nodes S0 ! i) (signed_by S0 i)"
    unfolding node s0(1) using origin by (simp add: lineage_tracked_def)
  then show ?thesis
    using lineage_members.run_inv [OF run s0(2)] by (simp add: lineage_tracked_def)
qed

lemma honest_view:
  assumes "lineage_start C e faulty S0" and "lineage_run C e P S0 S"
    and "brings P origin" and "e = EPOCH_30 \<Longrightarrow> origin = None" and "i < LINEAGE_N" and "i \<notin> faulty"
  obtains v where "stored_view C (mb_nodes S ! i) = Some v" "lifecycle C origin v"
    "\<forall>m. (i, m) \<in> mb_signed S \<longrightarrow> vouched C e origin v i m"
proof -
  obtain st v where st: "ln_store (mb_nodes S ! i) = Some st" "logged C st = Some v" "lifecycle C origin v"
    "\<forall>m \<in> signed_by S i. vouched C e origin v i m"
    using honest_member [OF assms] unfolding lineage_inv_def by blast
  show thesis
    by (rule that [of v]) (use st in \<open>simp_all add: stored_view_def signed_by_def\<close>)
qed

lemma reached_bounds:
  assumes "reached s0 t s"
  shows "sr_generation s0 \<le> sr_generation s" and "t g = Some d \<Longrightarrow> sr_generation s0 \<le> g \<and> g < sr_generation s"
  using assms unfolding reached_def by (blast dest: domI)+

lemma finality_bounds:
  assumes f: "finality_vouched C e origin v f" and life: "lifecycle C origin v"
  shows "sr_generation (origin_state C origin) \<le> sr_generation (fin_from f)"
    and "handed C origin v h \<Longrightarrow> sr_generation (fin_from f) < sr_generation (ro_state h)"
    and "v \<noteq> empty_view"
proof -
  have t: "lv_transfers v (sr_generation (fin_from f)) = Some (fin_successor f)"
    using f by (simp add: finality_vouched_def)
  then show "v \<noteq> empty_view"
    by (auto simp: empty_view_def)
  then obtain s where "reached (origin_state C origin) (lv_transfers v) s"
    using life unfolding lifecycle_def holding_def handed_def by blast
  then show "sr_generation (origin_state C origin) \<le> sr_generation (fin_from f)"
    using reached_bounds(2) t by blast
  show "sr_generation (fin_from f) < sr_generation (ro_state h)" if "handed C origin v h"
    using that reached_bounds(2) t unfolding handed_def by blast
qed

lemma finality_vouched_unique:
  assumes "finality_vouched C e origin v f" and "finality_vouched C e origin v g"
    and "sr_generation (fin_from f) = sr_generation (fin_from g)"
  shows "f = g"
  using assms by (cases f; cases g) (auto simp: finality_vouched_def)

lemma handed_unique:
  assumes "handed C origin v g" and "handed C origin v h" and "ro_from_epoch g = ro_from_epoch h" and "ro_to_epoch g = ro_to_epoch h"
  shows "g = h"
proof -
  have "ro_state g = ro_state h"
    using assms(1,2) by (metis handed_def fun_upd_apply option.distinct(1))
  then show ?thesis
    using assms(3,4) by (cases g; cases h) simp
qed

lemma handed_not_empty: "handed C origin v h \<Longrightarrow> v \<noteq> empty_view"
  using handed_retired [of C origin empty_view h] by (auto simp: empty_view_def)

lemma handed_bounds:
  assumes "handed C origin v h"
  shows "sr_generation (origin_state C origin) \<le> sr_generation (ro_state h)" and "sr_coin (ro_state h) = COIN_ID"
  using assms reached_bounds(1) reached_coin unfolding handed_def by blast+

text \<open>A committee whose members have served any requests \<open>P\<close> allows, with at most two of them faulty.\<close>

definition lineage_history ::
  "crypto \<Rightarrow> u64 \<Rightarrow> nat set \<Rightarrow> (rotation_cert \<Rightarrow> bool) \<Rightarrow> lineage_committee \<Rightarrow> bool" where
  "lineage_history C e faulty P S \<longleftrightarrow> (\<exists>S0. lineage_start C e faulty S0 \<and> lineage_run C e P S0 S) \<and> few_faulty faulty"

definition legal_origin :: "u64 \<Rightarrow> (rotation_cert \<Rightarrow> bool) \<Rightarrow> rotation option \<Rightarrow> bool" where
  "legal_origin e P origin \<longleftrightarrow> brings P origin \<and> (e = EPOCH_30 \<longrightarrow> origin = None)"

lemma shared_view:
  assumes "lineage_history C e faulty P S" and "legal_origin e P origin"
    and "lineage_quorum (member_signed C e m) xs" and "issued faulty S m xs"
    and "lineage_quorum (member_signed C e m') ys" and "issued faulty S m' ys"
  obtains i v where "i < LINEAGE_N" "i \<notin> faulty" "stored_view C (mb_nodes S ! i) = Some v" "lifecycle C origin v"
    "vouched C e origin v i (m i)" "vouched C e origin v i (m' i)"
proof -
  obtain S0 where S0: "lineage_start C e faulty S0" "lineage_run C e P S0 S" and few: "few_faulty faulty"
    using assms(1) by (auto simp: lineage_history_def)
  have origin: "brings P origin" "e = EPOCH_30 \<Longrightarrow> origin = None"
    using assms(2) by (simp_all add: legal_origin_def)
  obtain i where i: "i < LINEAGE_N" "i \<notin> faulty" "(i, m i) \<in> mb_signed S" "(i, m' i) \<in> mb_signed S"
    by (rule quorums_meet [OF assms(3-6) few])
  obtain v where v: "stored_view C (mb_nodes S ! i) = Some v" "lifecycle C origin v"
    "\<forall>m. (i, m) \<in> mb_signed S \<longrightarrow> vouched C e origin v i m"
    by (rule honest_view [OF S0 origin i(1,2)]) blast
  show thesis
    using that i v by blast
qed

text \<open>Certificates of one committee, as they come out of a run.\<close>

definition final_of :: "crypto \<Rightarrow> u64 \<Rightarrow> nat set \<Rightarrow> lineage_committee \<Rightarrow> final_cert \<Rightarrow> bool" where
  "final_of C e faulty S cert \<longleftrightarrow> verify_final_cert C cert \<and> final_issued faulty S cert \<and> fin_epoch (fc_finality cert) = e"

definition rotation_of :: "crypto \<Rightarrow> u64 \<Rightarrow> nat set \<Rightarrow> lineage_committee \<Rightarrow> rotation_cert \<Rightarrow> bool" where
  "rotation_of C e faulty S cert \<longleftrightarrow>
    verify_rotation_cert C cert \<and> rotation_issued faulty S cert \<and> ro_from_epoch (rc_handoff cert) = e"

lemma final_ofD: "final_of C e faulty S cert \<Longrightarrow>
    lineage_quorum (member_signed C e (final_share_message (fc_finality cert))) (fc_shares cert) \<and>
    issued faulty S (final_share_message (fc_finality cert)) (fc_shares cert)"
  using final_cert_quorum by (auto simp: final_of_def final_issued_def)

lemma rotation_ofD: "rotation_of C e faulty S cert \<Longrightarrow>
    lineage_quorum (member_signed C e (rotation_share_message (rc_handoff cert))) (rc_shares cert) \<and>
    issued faulty S (rotation_share_message (rc_handoff cert)) (rc_shares cert)"
  using rotation_cert_quorum by (auto simp: rotation_of_def rotation_issued_def)

lemma handoff_unique:
  assumes h: "lineage_history C e faulty P S" "legal_origin e P origin"
    and "rotation_of C e faulty S a" and "rotation_of C e faulty S b"
  shows "rc_handoff a = rc_handoff b"
proof -
  obtain i v where "vouched C e origin v i (rotation_share_message (rc_handoff a) i)"
    "vouched C e origin v i (rotation_share_message (rc_handoff b) i)"
    by (rule shared_view [OF h]) (use assms(3,4) [THEN rotation_ofD] in blast)+
  then show ?thesis
    using handed_unique by (auto simp: vouched_rotation)
qed

lemma finality_unique:
  assumes h: "lineage_history C e faulty P S" "legal_origin e P origin"
    and "final_of C e faulty S a" and "final_of C e faulty S b"
    and same: "sr_generation (fin_from (fc_finality a)) = sr_generation (fin_from (fc_finality b))"
  shows "fc_finality a = fc_finality b"
proof -
  obtain i v where "vouched C e origin v i (final_share_message (fc_finality a) i)"
    "vouched C e origin v i (final_share_message (fc_finality b) i)"
    by (rule shared_view [OF h]) (use assms(3,4) [THEN final_ofD] in blast)+
  then show ?thesis
    using finality_vouched_unique [OF _ _ same] by (simp add: vouched_final)
qed

lemma finality_before_handoff:
  assumes h: "lineage_history C e faulty P S" "legal_origin e P origin"
    and "final_of C e faulty S a" and "rotation_of C e faulty S b"
  shows "sr_generation (fin_from (fc_finality a)) < sr_generation (ro_state (rc_handoff b))"
proof -
  obtain i v where "lifecycle C origin v" "vouched C e origin v i (final_share_message (fc_finality a) i)"
    "vouched C e origin v i (rotation_share_message (rc_handoff b) i)"
    by (rule shared_view [OF h]) (use assms(3) [THEN final_ofD] assms(4) [THEN rotation_ofD] in blast)+
  then show ?thesis
    using finality_bounds(2) by (simp add: vouched_final vouched_rotation)
qed

lemma finality_from_origin:
  assumes h: "lineage_history C e faulty P S" "legal_origin e P origin" and "final_of C e faulty S a"
  shows "sr_generation (origin_state C origin) \<le> sr_generation (fin_from (fc_finality a))"
    and "\<exists>i < LINEAGE_N. i \<notin> faulty \<and> (\<exists>v. stored_view C (mb_nodes S ! i) = Some v \<and> v \<noteq> empty_view)"
proof -
  obtain i v where v: "i < LINEAGE_N" "i \<notin> faulty" "stored_view C (mb_nodes S ! i) = Some v"
    "lifecycle C origin v" "vouched C e origin v i (final_share_message (fc_finality a) i)"
    by (rule shared_view [OF h]) (use assms(3) [THEN final_ofD] in blast)+
  then show "sr_generation (origin_state C origin) \<le> sr_generation (fin_from (fc_finality a))"
    and "\<exists>i < LINEAGE_N. i \<notin> faulty \<and> (\<exists>v. stored_view C (mb_nodes S ! i) = Some v \<and> v \<noteq> empty_view)"
    using finality_bounds [OF _ v(4)] unfolding vouched_final by blast+
qed

lemma handoff_from_origin:
  assumes h: "lineage_history C e faulty P S" "legal_origin e P origin" and "rotation_of C e faulty S b"
  shows "sr_generation (origin_state C origin) \<le> sr_generation (ro_state (rc_handoff b))"
    and "sr_coin (ro_state (rc_handoff b)) = COIN_ID" and "ro_to_epoch (rc_handoff b) = e + 1"
    and "\<exists>i < LINEAGE_N. i \<notin> faulty \<and> (\<exists>v. stored_view C (mb_nodes S ! i) = Some v \<and> v \<noteq> empty_view)"
proof -
  obtain i v where v: "i < LINEAGE_N" "i \<notin> faulty" "stored_view C (mb_nodes S ! i) = Some v"
    "vouched C e origin v i (rotation_share_message (rc_handoff b) i)"
    by (rule shared_view [OF h]) (use assms(3) [THEN rotation_ofD] in blast)+
  then show "sr_generation (origin_state C origin) \<le> sr_generation (ro_state (rc_handoff b))"
    and "sr_coin (ro_state (rc_handoff b)) = COIN_ID" and "ro_to_epoch (rc_handoff b) = e + 1"
    and "\<exists>i < LINEAGE_N. i \<notin> faulty \<and> (\<exists>v. stored_view C (mb_nodes S ! i) = Some v \<and> v \<noteq> empty_view)"
    using handed_bounds handed_not_empty unfolding vouched_rotation by blast+
qed

section \<open>The chain of states\<close>

lemma word_between: "g < x \<Longrightarrow> x \<le> g + 1 \<Longrightarrow> x = g + 1" for g x :: u64
  using word_less_Suc [of g x] by (metis antisym_conv2 not_le word_n1_ge)

lemma lifecycle_reached:
  assumes "lifecycle C origin v" and "v \<noteq> empty_view"
  obtains s where "reached (origin_state C origin) (lv_transfers v) s"
  using assms unfolding lifecycle_def holding_def handed_def by blast

lemma state_after:
  assumes f: "finality_vouched C e origin v f" and life: "lifecycle C origin v"
  shows "state_at (origin_state C origin) (lv_transfers v) (sr_generation (fin_from f) + 1) = successor_state f"
proof -
  let ?s0 = "origin_state C origin"
  let ?g = "sr_generation (fin_from f)"
  obtain s where s: "reached ?s0 (lv_transfers v) s"
    using lifecycle_reached [OF life finality_bounds(3) [OF f life]] .
  have t: "lv_transfers v ?g = Some (fin_successor f)" "fin_from f = state_at ?s0 (lv_transfers v) ?g"
    using f by (simp_all add: finality_vouched_def)
  have g: "sr_generation ?s0 \<le> ?g" "?g < sr_generation s"
    using reached_bounds(2) [OF s t(1)] by blast+
  then have "?g + 1 \<noteq> sr_generation ?s0"
    using word_less_Suc [of ?g "sr_generation ?s0"] by (metis leD order_less_irrefl word_n1_ge)
  moreover have "sr_coin (fin_from f) = COIN_ID"
    using s t(2) state_at_fields(2) unfolding reached_def by metis
  ultimately show ?thesis
    using t(1) by (simp add: state_at_def successor_coin_state)
qed

lemma handoff_continues:
  assumes h: "lineage_history C e faulty P S" "legal_origin e P origin"
    and "final_of C e faulty S a" and "rotation_of C e faulty S b"
    and g: "sr_generation (ro_state (rc_handoff b)) = sr_generation (fin_from (fc_finality a)) + 1"
  shows "ro_state (rc_handoff b) = successor_state (fc_finality a)"
proof -
  obtain i v where v: "lifecycle C origin v" "vouched C e origin v i (final_share_message (fc_finality a) i)"
    "vouched C e origin v i (rotation_share_message (rc_handoff b) i)"
    by (rule shared_view [OF h]) (use assms(3) [THEN final_ofD] assms(4) [THEN rotation_ofD] in blast)+
  then have "ro_state (rc_handoff b) = state_at (origin_state C origin) (lv_transfers v) (sr_generation (ro_state (rc_handoff b)))"
    unfolding vouched_rotation handed_def reached_def by blast
  then show ?thesis
    using state_after v(1,2) unfolding vouched_final g by metis
qed

lemma finality_continues:
  assumes h: "lineage_history C e faulty P S" "legal_origin e P origin"
    and "final_of C e faulty S a" and "final_of C e faulty S b"
    and g: "sr_generation (fin_from (fc_finality b)) = sr_generation (fin_from (fc_finality a)) + 1"
  shows "fin_from (fc_finality b) = successor_state (fc_finality a)"
proof -
  obtain i v where v: "lifecycle C origin v" "vouched C e origin v i (final_share_message (fc_finality a) i)"
    "vouched C e origin v i (final_share_message (fc_finality b) i)"
    by (rule shared_view [OF h]) (use assms(3,4) [THEN final_ofD] in blast)+
  then have "fin_from (fc_finality b) = state_at (origin_state C origin) (lv_transfers v) (sr_generation (fin_from (fc_finality b)))"
    unfolding vouched_final finality_vouched_def by blast
  then show ?thesis
    using state_after v(1,2) unfolding vouched_final g by metis
qed

lemma finality_not_last:
  assumes h: "lineage_history C e faulty P S" "legal_origin e P origin" and "final_of C e faulty S a"
  shows "sr_generation (fin_from (fc_finality a)) \<noteq> - 1"
proof -
  obtain i v where v: "lifecycle C origin v" "vouched C e origin v i (final_share_message (fc_finality a) i)"
    by (rule shared_view [OF h]) (use assms(3) [THEN final_ofD] in blast)+
  then have f: "finality_vouched C e origin v (fc_finality a)"
    by (simp add: vouched_final)
  obtain s where s: "reached (origin_state C origin) (lv_transfers v) s"
    using lifecycle_reached [OF v(1) finality_bounds(3) [OF f v(1)]] .
  have "lv_transfers v (sr_generation (fin_from (fc_finality a))) = Some (fin_successor (fc_finality a))"
    using f by (simp add: finality_vouched_def)
  then have "sr_generation (fin_from (fc_finality a)) < sr_generation s"
    using reached_bounds(2) [OF s] by blast
  then show ?thesis
    by (metis leD word_n1_ge)
qed

lemma handoff_at_origin:
  assumes h: "lineage_history C e faulty P S" "legal_origin e P origin" and "rotation_of C e faulty S b"
    and g: "sr_generation (ro_state (rc_handoff b)) = sr_generation (origin_state C origin)"
  shows "ro_state (rc_handoff b) = origin_state C origin"
proof -
  obtain i v where v: "vouched C e origin v i (rotation_share_message (rc_handoff b) i)"
    by (rule shared_view [OF h]) (use assms(3) [THEN rotation_ofD] in blast)+
  then have "ro_state (rc_handoff b) = state_at (origin_state C origin) (lv_transfers v) (sr_generation (ro_state (rc_handoff b)))"
    unfolding vouched_rotation handed_def reached_def by blast
  then show ?thesis
    unfolding g by (simp add: state_at_def)
qed

lemma finality_at_origin:
  assumes h: "lineage_history C e faulty P S" "legal_origin e P origin" and "final_of C e faulty S a"
    and g: "sr_generation (fin_from (fc_finality a)) = sr_generation (origin_state C origin)"
  shows "fin_from (fc_finality a) = origin_state C origin"
proof -
  obtain i v where v: "vouched C e origin v i (final_share_message (fc_finality a) i)"
    by (rule shared_view [OF h]) (use assms(3) [THEN final_ofD] in blast)+
  then have "fin_from (fc_finality a) = state_at (origin_state C origin) (lv_transfers v) (sr_generation (fin_from (fc_finality a)))"
    unfolding vouched_final finality_vouched_def by blast
  then show ?thesis
    unfolding g by (simp add: state_at_def)
qed

end
