(* ===== verification/LineageChain.thy ===== *)
theory LineageChain
  imports LineageUnicity
begin

text \<open>
  Many committees, one history: each committee starts from the hand-off its predecessor certified.
  And what a committee can no longer do once it has handed its state over.
\<close>

section \<open>A sequence of committees\<close>

definition lineage_epoch :: "nat \<Rightarrow> u64" where
  "lineage_epoch k = EPOCH_30 + of_nat k"

text \<open>
  The certificates that may reach committee \<open>k\<close>: none for the first, and after that those whose
  correct signers are members of committee \<open>k - 1\<close> that signed them.
\<close>

definition certified_before :: "crypto \<Rightarrow> (nat \<Rightarrow> nat set) \<Rightarrow> (nat \<Rightarrow> lineage_committee) \<Rightarrow> nat \<Rightarrow> rotation_cert \<Rightarrow> bool" where
  "certified_before C faulty S k cert =
    (case k of 0 \<Rightarrow> False | Suc j \<Rightarrow> rotation_of C (lineage_epoch j) (faulty j) (S j) cert)"

definition lineage_histories :: "crypto \<Rightarrow> (nat \<Rightarrow> nat set) \<Rightarrow> (nat \<Rightarrow> lineage_committee) \<Rightarrow> nat \<Rightarrow> bool" where
  "lineage_histories C faulty S n \<longleftrightarrow>
    (\<forall>k \<le> n. lineage_history C (lineage_epoch k) (faulty k) (certified_before C faulty S k) (S k))"

lemma lineage_epoch_first:
  assumes "k < 2 ^ 64"
  shows "lineage_epoch k = EPOCH_30 \<longleftrightarrow> k = 0"
proof -
  have "lineage_epoch k = EPOCH_30 \<longleftrightarrow> (of_nat k :: u64) = 0"
    by (simp add: lineage_epoch_def)
  also have "\<dots> \<longleftrightarrow> k = 0"
    using assms by (simp add: word_of_nat_eq_0_iff nat_dvd_not_less dvd_eq_mod_eq_0)
  finally show ?thesis .
qed

lemma legal_origins:
  assumes runs: "lineage_histories C faulty S n" and n: "n < 2 ^ 64"
  shows "k \<le> n \<Longrightarrow> \<exists>origin. legal_origin (lineage_epoch k) (certified_before C faulty S k) origin \<and>
    (\<forall>cert. certified_before C faulty S k cert \<longrightarrow> origin = Some (rc_handoff cert))"
proof (induction k)
  case 0
  then show ?case
    by (intro exI [of _ None]) (simp add: legal_origin_def brings_def certified_before_def)
next
  case (Suc k)
  let ?P = "certified_before C faulty S (Suc k)"
  obtain origin where o: "legal_origin (lineage_epoch k) (certified_before C faulty S k) origin"
    using Suc by auto
  have h: "lineage_history C (lineage_epoch k) (faulty k) (certified_before C faulty S k) (S k)"
    using runs Suc.prems by (simp add: lineage_histories_def)
  have later: "lineage_epoch (Suc k) \<noteq> EPOCH_30"
    using lineage_epoch_first [of "Suc k"] Suc.prems n by simp
  show ?case
  proof (cases "\<exists>cert. ?P cert")
    case False
    then show ?thesis
      using later by (simp add: legal_origin_def brings_def)
  next
    case True
    then obtain cert where cert: "rotation_of C (lineage_epoch k) (faulty k) (S k) cert"
      by (auto simp: certified_before_def)
    have "rc_handoff c = rc_handoff cert \<and> sr_coin (ro_state (rc_handoff c)) = COIN_ID" if "?P c" for c
      using that handoff_unique [OF h o _ cert] handoff_from_origin(2) [OF h o]
      by (simp add: certified_before_def)
    moreover have "sr_coin (ro_state (rc_handoff cert)) = COIN_ID"
      using handoff_from_origin(2) [OF h o cert] .
    ultimately show ?thesis
      using later by (intro exI [of _ "Some (rc_handoff cert)"]) (auto simp: legal_origin_def brings_def)
  qed
qed

text \<open>A committee after the first that has signed anything was activated by a certificate.\<close>

lemma activated_by:
  assumes "lineage_history C e faulty P S" and "e \<noteq> EPOCH_30"
    and i: "i < LINEAGE_N" "i \<notin> faulty" "stored_view C (mb_nodes S ! i) = Some v" "v \<noteq> empty_view"
  shows "\<exists>cert. P cert"
proof (rule ccontr)
  assume none: "\<nexists>cert. P cert"
  obtain S0 where S0: "lineage_start C e faulty S0" "lineage_run C e P S0 S"
    using assms(1) by (auto simp: lineage_history_def)
  have acts: "lv_activations v = origin_activations C (Some h)" for h
  proof -
    have "brings P (Some h)"
      using none by (simp add: brings_def)
    then obtain w where "stored_view C (mb_nodes S ! i) = Some w" "lifecycle C (Some h) w"
      using honest_view [OF S0 _ _ i(1,2)] assms(2) by metis
    then show ?thesis
      using i(3,4) by (auto simp: lifecycle_def holding_def handed_def)
  qed
  let ?h = "\<lambda>d. \<lparr>ro_from_epoch = d, ro_to_epoch = 0, ro_state = genesis_state C\<rparr>"
  have "dom (lv_activations v) = {(d, sr_generation (genesis_state C))}" for d
    unfolding acts [of "?h d"] by (simp add: origin_activations_def)
  from this [of 0] this [of 1] show False
    by simp
qed

lemma lineage_committee_at:
  assumes "lineage_histories C faulty S n" and "n < 2 ^ 64" and "k \<le> n"
  obtains origin where "lineage_history C (lineage_epoch k) (faulty k) (certified_before C faulty S k) (S k)"
    "legal_origin (lineage_epoch k) (certified_before C faulty S k) origin"
    "\<And>cert. certified_before C faulty S k cert \<Longrightarrow> origin_state C origin = ro_state (rc_handoff cert)"
proof -
  obtain origin where "legal_origin (lineage_epoch k) (certified_before C faulty S k) origin"
    "\<forall>cert. certified_before C faulty S k cert \<longrightarrow> origin = Some (rc_handoff cert)"
    using legal_origins [OF assms] by blast
  then show thesis
    using that [of origin] assms(1,3) by (simp add: lineage_histories_def origin_state_def)
qed

lemma later_activated:
  assumes "lineage_histories C faulty S n" and "n < 2 ^ 64" and "0 < k" "k \<le> n"
    and "\<exists>i < LINEAGE_N. i \<notin> faulty k \<and> (\<exists>v. stored_view C (mb_nodes (S k) ! i) = Some v \<and> v \<noteq> empty_view)"
  shows "\<exists>cert. certified_before C faulty S k cert"
proof -
  have "lineage_epoch k \<noteq> EPOCH_30"
    using lineage_epoch_first [of k] assms(2-4) by simp
  then show ?thesis
    using activated_by [where e = "lineage_epoch k"] assms(1,4,5) unfolding lineage_histories_def by blast
qed

text \<open>The certified states after a finality: above its generation, and its successor if next to it.\<close>

definition follows :: "finality \<Rightarrow> state_ref \<Rightarrow> bool" where
  "follows f s \<longleftrightarrow> sr_generation (fin_from f) < sr_generation s \<and>
    (sr_generation s = sr_generation (fin_from f) + 1 \<longrightarrow> s = successor_state f)"

lemma follows_later:
  assumes "follows f s" and "sr_generation s \<le> sr_generation t" and "sr_generation t = sr_generation s \<Longrightarrow> t = s"
  shows "follows f t"
  using assms word_between [of "sr_generation (fin_from f)" "sr_generation s"] by (auto simp: follows_def)

lemma certified_follows:
  assumes runs: "lineage_histories C faulty S n" and n: "n < 2 ^ 64"
    and a: "final_of C (lineage_epoch j) (faulty j) (S j) a"
  shows "j < k \<Longrightarrow> k \<le> n \<Longrightarrow> certified_before C faulty S k cert \<Longrightarrow> follows (fc_finality a) (ro_state (rc_handoff cert))"
proof (induction k arbitrary: cert)
  case (Suc m)
  obtain origin where m: "lineage_history C (lineage_epoch m) (faulty m) (certified_before C faulty S m) (S m)"
    "legal_origin (lineage_epoch m) (certified_before C faulty S m) origin"
    "\<And>cert. certified_before C faulty S m cert \<Longrightarrow> origin_state C origin = ro_state (rc_handoff cert)"
    using lineage_committee_at [OF runs n, of m] Suc.prems(2) by auto
  have cert: "rotation_of C (lineage_epoch m) (faulty m) (S m) cert"
    using Suc.prems(3) by (simp add: certified_before_def)
  show ?case
  proof (cases "m = j")
    case True
    then show ?thesis
      using finality_before_handoff [OF m(1,2) _ cert] handoff_continues [OF m(1,2) _ cert] a by (simp add: follows_def)
  next
    case False
    then have jm: "j < m" "m \<le> n"
      using Suc.prems by simp_all
    then obtain c where c: "certified_before C faulty S m c"
      using later_activated [OF runs n, of m] handoff_from_origin(4) [OF m(1,2) cert] by auto
    have "follows (fc_finality a) (origin_state C origin)"
      using Suc.IH [OF jm c] m(3) [OF c] by simp
    then show ?thesis
      using follows_later handoff_from_origin(1) [OF m(1,2) cert] handoff_at_origin [OF m(1,2) cert] by blast
  qed
qed simp

lemma finality_follows:
  assumes runs: "lineage_histories C faulty S n" and n: "n < 2 ^ 64"
    and a: "final_of C (lineage_epoch j) (faulty j) (S j) a"
    and b: "final_of C (lineage_epoch k) (faulty k) (S k) b" and jk: "j < k" "k \<le> n"
  shows "follows (fc_finality a) (fin_from (fc_finality b))"
proof -
  obtain origin where m: "lineage_history C (lineage_epoch k) (faulty k) (certified_before C faulty S k) (S k)"
    "legal_origin (lineage_epoch k) (certified_before C faulty S k) origin"
    "\<And>cert. certified_before C faulty S k cert \<Longrightarrow> origin_state C origin = ro_state (rc_handoff cert)"
    using lineage_committee_at [OF runs n jk(2)] by auto
  obtain c where c: "certified_before C faulty S k c"
    using later_activated [OF runs n, of k] finality_from_origin(2) [OF m(1,2) b] jk by auto
  have "follows (fc_finality a) (origin_state C origin)"
    using certified_follows [OF runs n a jk c] m(3) [OF c] by simp
  then show ?thesis
    using follows_later finality_from_origin(1) [OF m(1,2) b] finality_at_origin [OF m(1,2) b] by blast
qed

lemma one_history:
  assumes runs: "lineage_histories C faulty S n" and n: "n < 2 ^ 64"
    and a: "final_of C (lineage_epoch j) (faulty j) (S j) a" "j \<le> n"
    and b: "final_of C (lineage_epoch k) (faulty k) (S k) b" "k \<le> n"
  shows "sr_generation (fin_from (fc_finality b)) = sr_generation (fin_from (fc_finality a)) \<Longrightarrow> fc_finality b = fc_finality a"
    and "sr_generation (fin_from (fc_finality b)) = sr_generation (fin_from (fc_finality a)) + 1 \<Longrightarrow>
      fin_from (fc_finality b) = successor_state (fc_finality a)"
proof -
  let ?a = "fc_finality a" and ?b = "fc_finality b"
  obtain origin where m: "lineage_history C (lineage_epoch j) (faulty j) (certified_before C faulty S j) (S j)"
    "legal_origin (lineage_epoch j) (certified_before C faulty S j) origin"
    by (rule lineage_committee_at [OF runs n a(2)])
  consider "j = k" | "follows ?a (fin_from ?b)" | "follows ?b (fin_from ?a)"
    using finality_follows [OF runs n a(1) b(1) _ b(2)] finality_follows [OF runs n b(1) a(1) _ a(2)]
    by (metis linorder_neqE_nat)
  then have "(sr_generation (fin_from ?b) = sr_generation (fin_from ?a) \<longrightarrow> ?b = ?a) \<and>
    (sr_generation (fin_from ?b) = sr_generation (fin_from ?a) + 1 \<longrightarrow> fin_from ?b = successor_state ?a)"
  proof cases
    case 1
    then show ?thesis
      using finality_unique [OF m] finality_continues [OF m] a b by metis
  next
    case 2
    then show ?thesis
      by (auto simp: follows_def)
  next
    case 3
    have "sr_generation (fin_from ?a) < sr_generation (fin_from ?a) + 1"
      using word_less_Suc [OF finality_not_last [OF m a(1)]] by simp
    then have "sr_generation (fin_from ?b) \<noteq> sr_generation (fin_from ?a) + 1"
      using 3 by (auto simp: follows_def)
    then show ?thesis
      using 3 by (auto simp: follows_def)
  qed
  then show "sr_generation (fin_from ?b) = sr_generation (fin_from ?a) \<Longrightarrow> ?b = ?a"
    and "sr_generation (fin_from ?b) = sr_generation (fin_from ?a) + 1 \<Longrightarrow> fin_from ?b = successor_state ?a"
    by blast+
qed

section \<open>After a hand-off\<close>

text \<open>A member that has handed its state over refuses every request that would need a signature.\<close>

lemma handed_refuses_op:
  assumes "handed C origin (ls_view st) h"
  shows "finalize C io f st = (Some False, st)" and "retire C io g st = (Some False, st)"
    and "origin = Some g \<Longrightarrow> activate C io g st = (Some False, st)" and "\<not> active_matches st s"
  using assms by (auto simp: handed_def finalize_def retire_def activate_def active_matches_def Let_def origin_activations_def)

lemma with_store_refuses:
  "ln_store node = Some st \<Longrightarrow> op st = (Some False, st) \<Longrightarrow> with_store op node = (Some False, node)"
  by (simp add: with_store_def)

lemma refused: "answer_if C sent m (Some False, node) = (reply, ms, node') \<Longrightarrow> ms = [] \<and> node' = node"
  by (simp add: answer_if_def answer_plain_def)

lemma handed_silent:
  assumes arrives: "lineage_arrives C e P request" and P: "brings P origin" and inv: "lineage_inv C e origin i node M"
    and v: "stored_view C node = Some v" "handed C origin v h"
    and run: "lineage_connection C io sent request node = (reply, ms, node')"
  shows "ms = [] \<and> (node' = node \<or> node' = node\<lparr>ln_up := False\<rparr>)"
proof (cases "ln_up node \<and> request \<noteq> []")
  case False
  then show ?thesis
    using run by (auto simp: lineage_connection_def split: if_splits list.splits)
next
  case True
  then obtain op body where request: "request = op # body" and up: "ln_up node"
    by (cases request) auto
  obtain st where st: "ln_store node = Some st" "running_store C st"
    using lineage_inv_store [OF inv up] by blast
  have node: "\<not> ln_byzantine node" "ln_epoch node = e"
    using inv by (simp_all add: lineage_inv_def)
  have "handed C origin (ls_view st) h"
    using v st by (simp add: stored_view_def running_store_def)
  note refuse = handed_refuses_op [OF this]
  have final: "with_store (finalize C io f) node = (Some False, node)" for f
    by (rule with_store_refuses [OF st(1)]) (simp add: refuse(1))
  have retire: "with_store (retire C io g) node = (Some False, node)" for g
    by (rule with_store_refuses [OF st(1)]) (simp add: refuse(2))
  consider "op = LN_FINALIZE" "finalize_request C io sent body node = (reply, ms, node')"
    | "rotation_request C io sent body node = (reply, ms, node')"
    | "op = LN_ACTIVATE" "activate_request C io sent body node = (reply, ms, node')"
    | "freshness_request C sent body node = (reply, ms, node')"
    | "ms = []" "node' = node \<or> node' = node\<lparr>ln_up := False\<rparr>"
    using run request up by (auto simp: lineage_connection_def answer_plain_def split: if_splits)
  then show ?thesis
  proof cases
    case 1
    then show ?thesis
      using node final refused
      by (fastforce simp: finalize_request_def member_dies_def split: option.splits)
  next
    case 2
    then show ?thesis
      using node retire refused
      by (fastforce simp: rotation_request_def member_dies_def split: option.splits)
  next
    case 3
    show ?thesis
    proof (cases "read_rotation_cert body")
      case None
      then show ?thesis
        using 3(2) by (simp add: activate_request_def member_dies_def)
    next
      case (Some cr)
      then obtain cert rest where cert: "read_rotation_cert body = Some (cert, rest)"
        by (cases cr) auto
      have "with_store (activate C io (rc_handoff cert)) node = (Some False, node)"
        if "verify_rotation_cert C cert" "ro_to_epoch (rc_handoff cert) = e"
      proof -
        have "P cert"
          using arrives request 3(1) cert that by (simp add: lineage_arrives_def)
        then have "origin = Some (rc_handoff cert)"
          using P by (simp add: brings_def)
        then show ?thesis
          by (intro with_store_refuses [OF st(1)] refuse(3))
      qed
      then show ?thesis
        using 3(2) cert node refused by (fastforce simp: activate_request_def split: if_splits)
    qed
  next
    case 4
    have "with_store (\<lambda>st. (Some (active_matches st s), st)) node = (Some False, node)" for s
      by (rule with_store_refuses [OF st(1)]) (simp add: refuse(4))
    then show ?thesis
      using 4 node refused by (fastforce simp: freshness_request_def member_dies_def split: option.splits if_splits)
  qed simp
qed

definition lineage_silent ::
  "crypto \<Rightarrow> u64 \<Rightarrow> (rotation_cert \<Rightarrow> bool) \<Rightarrow> rotation option \<Rightarrow> nat \<Rightarrow> u8 list set \<Rightarrow> lineage_node \<Rightarrow> u8 list set \<Rightarrow> bool" where
  "lineage_silent C e P origin i M0 node M \<longleftrightarrow> lineage_tracked C e P origin i node M \<and> M = M0 \<and>
    (\<exists>v h. stored_view C node = Some v \<and> handed C origin v h)"

lemma restart_member_view:
  assumes "may_reopen C node" and inv: "lineage_inv C e origin i node M"
    and v: "stored_view C node = Some v" "handed C origin v h"
  shows "stored_view C (restart_member C io node) = Some v"
proof -
  have node: "\<not> ln_byzantine node" "ln_epoch node = e" "e \<noteq> EPOCH_30"
    using inv assms(1) v handed_retired by (auto simp: lineage_inv_def may_reopen_def)
  obtain st where st: "ln_store node = Some st" "ls_epoch st = e" "logged C st = Some v"
    using inv v by (auto simp: lineage_inv_def stored_view_def)
  show ?thesis
  proof (cases "open_lineage C e (ls_file st)")
    case None
    then show ?thesis
      using st node by (simp add: restart_member_def start_member_def member_file_def stored_view_def logged_def)
  next
    case (Some st')
    then have "ls_file st' = ls_file st" "ls_epoch st' = e"
      using open_lineage_running by blast+
    then show ?thesis
      using Some st node by (simp add: restart_member_def start_member_def member_file_def stored_view_def logged_def Let_def)
  qed
qed

interpretation handed_members: member_invariant "lineage_connection C" "restart_member C" "lineage_arrives C e P" "may_reopen C"
    "lineage_silent C e P origin i M0" for C e P origin i M0
proof
  show "lineage_silent C e P origin i M0 node' (M \<union> set ms)"
    if a: "lineage_arrives C e P request" and s: "lineage_silent C e P origin i M0 node M"
      and r: "lineage_connection C io sent request node = (reply, ms, node')" for request node M io sent reply ms node'
  proof -
    obtain v h where v: "stored_view C node = Some v" "handed C origin v h" and t: "lineage_tracked C e P origin i node M" "M = M0"
      using s unfolding lineage_silent_def by blast
    have ms: "ms = []" "node' = node \<or> node' = node\<lparr>ln_up := False\<rparr>"
      using handed_silent [OF a _ _ v r] t by (auto simp: lineage_tracked_def)
    then have "stored_view C node' = Some v"
      using v(1) by (auto simp: stored_view_def)
    then show ?thesis
      using lineage_members.serve_inv [OF a t(1) r] v(2) t(2) ms(1) unfolding lineage_silent_def by auto
  qed
  show "lineage_silent C e P origin i M0 (restart_member C io node) M"
    if "may_reopen C node" and s: "lineage_silent C e P origin i M0 node M" for node M io
  proof -
    obtain v h where v: "stored_view C node = Some v" "handed C origin v h" and t: "lineage_tracked C e P origin i node M" "M = M0"
      using s unfolding lineage_silent_def by blast
    have "stored_view C (restart_member C io node) = Some v"
      using restart_member_view [OF that(1) _ v] t(1) by (auto simp: lineage_tracked_def)
    then show ?thesis
      using lineage_members.reopen_inv [OF that(1) t(1)] v(2) t(2) unfolding lineage_silent_def by blast
  qed
qed

text \<open>A correct signer of a certified hand-off signs nothing more.\<close>

lemma signer_retired:
  assumes start: "lineage_start C e faulty S0" and run: "lineage_run C e P S0 S" and origin: "legal_origin e P origin"
    and i: "i < LINEAGE_N" "i \<notin> faulty" and signed: "(i, rotation_share_message h i) \<in> mb_signed S"
    and later: "lineage_run C e P S S'"
  shows "signed_by S' i = signed_by S i"
proof -
  have o: "brings P origin" "e = EPOCH_30 \<Longrightarrow> origin = None"
    using origin by (simp_all add: legal_origin_def)
  obtain v where v: "stored_view C (mb_nodes S ! i) = Some v" "\<forall>m. (i, m) \<in> mb_signed S \<longrightarrow> vouched C e origin v i m"
    by (rule honest_view [OF start run o i])
  have "vouched C e origin v i (rotation_share_message h i)"
    using v(2) signed by blast
  then have "handed C origin v h"
    by (simp add: vouched_rotation)
  moreover have "lineage_inv C e origin i (mb_nodes S ! i) (signed_by S i)"
    by (rule honest_member [OF start run o i])
  ultimately have now: "lineage_silent C e P origin i (signed_by S i) (mb_nodes S ! i) (signed_by S i)"
    using v(1) o unfolding lineage_silent_def lineage_tracked_def by blast
  have "i < length (mb_nodes S)"
    using members_run_length [OF run] start i(1) by (simp add: lineage_start_def)
  then show ?thesis
    using handed_members.run_inv [OF later _ now] by (simp add: lineage_silent_def)
qed

end
