(* ===== verification/LineageLab.thy ===== *)
theory LineageLab
  imports LineageRun LineageChain
begin

text \<open>
  Concrete lineage committees: what happens when members of the first committee restart after their
  hand-off, and the runs that show the hypotheses of the theorems can hold.
\<close>

section \<open>The first committee after a restart\<close>

definition fresh_members :: "crypto \<Rightarrow> u64 \<Rightarrow> lineage_node list" where
  "fresh_members C e = map (\<lambda>i. start_member C None e i False []) [0..<LINEAGE_N]"

lemma fresh_members_at: "committee_at C e {} (\<lambda>_. first_view C e) (fresh_members C e)"
  using start_member_at [of _ False e C] by (simp add: committee_at_def fresh_members_def)

lemma restart_first_member:
  assumes at: "member_at C EPOCH_30 i v node" and v: "lv_active v = None"
  shows "member_at C EPOCH_30 i (v\<lparr>lv_active := Some (genesis_state C)\<rparr>) (restart_member C None node)"
proof -
  obtain st where st: "ln_store node = Some st" "ls_epoch st = EPOCH_30" "running_store C st" "ls_view st = v"
    by (rule member_store [OF at])
  obtain r st' where b: "bootstrap C None (genesis_state C) st = (r, st')"
    by force
  have coin: "sr_coin (genesis_state C) = COIN_ID"
    by (simp add: scenario_states)
  from b coin have "records C st (v\<lparr>lv_active := Some (genesis_state C)\<rparr>) r st' \<and> r = Some True"
  proof (cases rule: bootstrap_cases)
    case 2
    then show ?thesis
      using b st(4) v by (simp add: bootstrap_def append_entry_def)
  qed (use v st(4) in simp)
  then have rec: "records C st (v\<lparr>lv_active := Some (genesis_state C)\<rparr>) (Some True) st'" and r: "r = Some True"
    by auto
  have st': "running_store C st'" "ls_view st' = v\<lparr>lv_active := Some (genesis_state C)\<rparr>" "ls_epoch st' = EPOCH_30"
    using records_logged [OF st(3) rec] st(2) by simp_all
  have "open_lineage C EPOCH_30 (ls_file st) = Some st"
    using open_running [OF st(3)] st(2) by simp
  then show ?thesis
    using at st(1) b r st' by (auto simp: restart_member_def start_member_def member_file_def member_at_def)
qed

lemma restarted_committee:
  assumes "committee_at C EPOCH_30 {} (\<lambda>_. v) nodes" and "lv_active v = None"
  shows "committee_at C EPOCH_30 {} (\<lambda>_. v\<lparr>lv_active := Some (genesis_state C)\<rparr>) (map (restart_member C None) nodes)"
  using assms restart_first_member by (auto simp: committee_at_def)

definition genesis_handoff :: "crypto \<Rightarrow> rotation" where
  "genesis_handoff C = \<lparr>ro_from_epoch = EPOCH_30, ro_to_epoch = EPOCH_31, ro_state = genesis_state C\<rparr>"

definition genesis_spend :: "crypto \<Rightarrow> u64 \<Rightarrow> digest \<Rightarrow> finality" where
  "genesis_spend C e d = \<lparr>fin_epoch = e, fin_from = genesis_state C, fin_successor = d\<rparr>"

lemma revived_genesis:
  assumes sigs: "signatures_verify C" and order: "\<And>xs. mset (order xs) = mset xs"
  shows "\<exists>hc c0 a c0' ac c1 b c1'.
    collect_rotation C order (genesis_handoff C) (ask_members [0, 1, 2, 3, 4, 5, 6]) (fresh_members C EPOCH_30) = Some (hc, c0) \<and>
    verify_rotation_cert C hc \<and>
    collect_final C order (genesis_spend C EPOCH_30 d) (ask_members [0, 1, 2, 3, 4, 5, 6]) (map (restart_member C None) c0) = Some (a, c0') \<and>
    fc_finality a = genesis_spend C EPOCH_30 d \<and> verify_final_cert C a \<and>
    collect_epoch_activation C order hc (ask_members [0, 1, 2, 3, 4, 5, 6]) (fresh_members C EPOCH_31) = Some (ac, c1) \<and>
    verify_rotation_activation C ac hc \<and>
    collect_final C order (genesis_spend C EPOCH_31 d') (ask_members [0, 1, 2, 3, 4, 5, 6]) c1 = Some (b, c1') \<and>
    fc_finality b = genesis_spend C EPOCH_31 d' \<and> verify_final_cert C b"
proof -
  note st = scenario_states
  let ?h = "genesis_handoff C" and ?f = "genesis_spend C EPOCH_30 d" and ?g = "genesis_spend C EPOCH_31 d'"
  let ?all = "[0, 1, 2, 3, 4, 5, 6 :: nat]"
  have h: "ro_from_epoch ?h = EPOCH_30" "ro_to_epoch ?h = EPOCH_30 + 1" "ro_to_epoch ?h = EPOCH_31" "sr_coin (ro_state ?h) = COIN_ID"
    by (simp_all add: genesis_handoff_def st)
  have r0: "lv_active (first_view C EPOCH_30) = Some (ro_state ?h) \<and> lv_retired (first_view C EPOCH_30) (ro_state ?h) = None"
    by (simp add: first_view_fields genesis_handoff_def)
  obtain hc c0 where a: "collect_rotation C order ?h (ask_members ?all) (fresh_members C EPOCH_30) = Some (hc, c0)"
    "rc_handoff hc = ?h" "verify_rotation_cert C hc \<longleftrightarrow> LINEAGE_Q \<le> length ?all" "sendable_rotation hc"
    "committee_at C EPOCH_30 {} (updated ?all (after_handoff C ?h) (\<lambda>_. first_view C EPOCH_30)) c0"
    by (rule collect_rotation_ready [OF sigs order fresh_members_at everyone(2) member_numbers(1) h(1,2,4) r0])
  have hc: "verify_rotation_cert C hc"
    using a(3) everyone(3) by blast
  let ?v = "after_handoff C ?h (first_view C EPOCH_30)\<lparr>lv_active := Some (genesis_state C)\<rparr>"
  have again: "committee_at C EPOCH_30 {} (\<lambda>_. ?v) (map (restart_member C None) c0)"
    by (rule restarted_committee [OF committee_all [OF a(5)]]) (simp add: after_fields)
  have f: "fin_epoch ?f = EPOCH_30" "sr_coin (fin_from ?f) = COIN_ID" "fin_epoch ?g = EPOCH_31" "sr_coin (fin_from ?g) = COIN_ID"
    by (simp_all add: genesis_spend_def st)
  have r1: "lv_active ?v = Some (fin_from ?f) \<and> lv_transfers ?v (sr_generation (fin_from ?f)) = None"
    by (simp add: genesis_spend_def after_handoff_def first_view_fields)
  obtain fa c0' where b: "collect_final C order ?f (ask_members ?all) (map (restart_member C None) c0) = Some (fa, c0')"
    "fc_finality fa = ?f" "verify_final_cert C fa \<longleftrightarrow> LINEAGE_Q \<le> length ?all"
    by (rule collect_final_ready [OF sigs order again everyone(2) member_numbers(1) f(1,2) r1])
  have c1: "committee_at C EPOCH_31 {} (\<lambda>_. empty_view) (fresh_members C EPOCH_31)"
    using fresh_members_at [of C EPOCH_31] first_view_fields(5) [OF st(16)] by simp
  have r2: "lv_active empty_view = None \<and> lv_activations empty_view (ro_from_epoch ?h, sr_generation (ro_state ?h)) = None"
    by (simp add: empty_view_def)
  obtain ac c1a where c: "collect_epoch_activation C order hc (ask_members ?all) (fresh_members C EPOCH_31) = Some (ac, c1a)"
    "verify_rotation_activation C ac hc \<longleftrightarrow> LINEAGE_Q \<le> length ?all"
    "committee_at C EPOCH_31 {} (updated ?all (after_activation C ?h) (\<lambda>_. empty_view)) c1a"
    by (rule collect_epoch_activation_ready [OF sigs order c1 everyone(2) member_numbers(1) hc a(4,2) h(3,4) r2])
  have r3: "lv_active (after_activation C ?h empty_view) = Some (fin_from ?g) \<and>
      lv_transfers (after_activation C ?h empty_view) (sr_generation (fin_from ?g)) = None"
    by (simp add: genesis_spend_def genesis_handoff_def after_activation_def empty_view_def)
  obtain fb c1' where e: "collect_final C order ?g (ask_members ?all) c1a = Some (fb, c1')" "fc_finality fb = ?g"
    "verify_final_cert C fb \<longleftrightarrow> LINEAGE_Q \<le> length ?all"
    by (rule collect_final_ready [OF sigs order committee_all [OF c(3)] everyone(2) member_numbers(1) f(3,4) r3])
  have "verify_final_cert C fa" "verify_rotation_activation C ac hc" "verify_final_cert C fb"
    using b(3) c(2) e(3) everyone(3) by blast+
  then show ?thesis
    using a(1) hc b(1,2) c(1) e(1,2) by blast
qed

section \<open>A signature scheme for the experiment\<close>

text \<open>Signatures that are the end of the message: they verify, and they tell two challenges apart.\<close>

definition lineage_crypto :: crypto where
  "lineage_crypto = lab_crypto\<lparr>sign_with := (\<lambda>sk m. mk_array (rev m)), verify_strict := (\<lambda>pk m s. s = mk_array (rev m))\<rparr>"

lemma lineage_crypto_verifies: "signatures_verify lineage_crypto"
  by (simp add: signatures_verify_def lineage_crypto_def)

lemma lineage_crypto_nonces: "old_nonce lineage_crypto \<noteq> fresh_nonce lineage_crypto"
proof
  assume "old_nonce lineage_crypto = fresh_nonce lineage_crypto"
  then have "array_bytes (old_nonce lineage_crypto) ! 14 = array_bytes (fresh_nonce lineage_crypto) ! 14"
    by simp
  then show False
    by (simp add: old_nonce_def fresh_nonce_def client_nonce_def lineage_crypto_def bytes_mk_array ascii_def)
qed

lemma lineage_crypto_replay: "replay_refused lineage_crypto"
proof -
  have differ: "(mk_array (rev (freshness_message e s n i)) :: signature) \<noteq> mk_array (rev (freshness_message e s n' i))"
    if "n \<noteq> n'" for e s n n' i
  proof
    assume "(mk_array (rev (freshness_message e s n i)) :: signature) = mk_array (rev (freshness_message e s n' i))"
    then have "take 64 (rev (freshness_message e s n i)) = take 64 (rev (freshness_message e s n' i))"
      by (simp add: array_eq_iff bytes_mk_array lineage_message_lengths)
    then have "rev (array_bytes n) = rev (array_bytes n')"
      by (simp add: freshness_message_def take_Cons')
    then show False
      using that by (simp add: array_eq_iff)
  qed
  then show ?thesis
    using lineage_crypto_nonces by (simp add: replay_refused_def lineage_crypto_def)
qed

section \<open>A history over two committees\<close>

definition cert_shares :: "crypto \<Rightarrow> u64 \<Rightarrow> (nat \<Rightarrow> u8 list) \<Rightarrow> signed_share list" where
  "cert_shares C e m = map (share_of C e m) [0..<LINEAGE_N]"

lemma cert_shares_quorum: "signatures_verify C \<Longrightarrow> lineage_quorum (member_signed C e m) (cert_shares C e m)"
  using quorum_of_shares(1) [of C "[0..<LINEAGE_N]" "cert_shares C e m" e m "\<lambda>_. True"]
  by (simp add: cert_shares_def LINEAGE_N_def LINEAGE_Q_def)

lemma cert_shares_issued: "\<forall>i < LINEAGE_N. (i, m i) \<in> mb_signed S \<Longrightarrow> issued faulty S m (cert_shares C e m)"
  by (auto simp: issued_def cert_shares_def)

lemma one_signs:
  assumes run: "lineage_run C e P S T" and k: "k < length (mb_nodes T)" and arrives: "lineage_arrives C e P request"
    and grants: "grants C e m k (lineage_connection C None None request (mb_nodes T ! k)) node'"
  shows "lineage_run C e P S \<lparr>mb_nodes = (mb_nodes T)[k := node'], mb_signed = insert (k, m k) (mb_signed T)\<rparr>"
proof -
  have "members_step (lineage_connection C) (restart_member C) (lineage_arrives C e P) (may_reopen C) T
      \<lparr>mb_nodes = (mb_nodes T)[k := node'], mb_signed = mb_signed T \<union> {k} \<times> set [m k]\<rparr>"
    by (rule members_step.connection) (rule k, rule arrives, rule grants [unfolded grants_def])
  then show ?thesis
    using rtranclp.rtrancl_into_rtrancl [OF run] by simp
qed

lemma all_sign:
  assumes arrives: "lineage_arrives C e P request" and at: "committee_at C e {} (\<lambda>_. v) (mb_nodes S)"
    and grants: "\<And>i node. member_at C e i v node \<Longrightarrow>
      \<exists>node'. grants C e m i (lineage_connection C None None request node) node' \<and> member_at C e i w node'"
  shows "k \<le> LINEAGE_N \<Longrightarrow> \<exists>S'. lineage_run C e P S S' \<and> mb_signed S' = mb_signed S \<union> (\<lambda>i. (i, m i)) ` {..<k} \<and>
    committee_at C e {} (\<lambda>i. if i < k then w else v) (mb_nodes S')"
proof (induction k)
  case 0
  then show ?case
    using at by (intro exI [of _ S]) simp
next
  case (Suc k)
  then obtain T where T: "lineage_run C e P S T" "mb_signed T = mb_signed S \<union> (\<lambda>i. (i, m i)) ` {..<k}"
    "committee_at C e {} (\<lambda>i. if i < k then w else v) (mb_nodes T)"
    by auto
  have "member_at C e k v (mb_nodes T ! k)"
    using T(3) Suc.prems unfolding committee_at_def by (metis Suc_le_eq empty_iff less_irrefl)
  then obtain node' where n: "grants C e m k (lineage_connection C None None request (mb_nodes T ! k)) node'" "member_at C e k w node'"
    using grants by blast
  have k: "k < length (mb_nodes T)"
    using T(3) Suc.prems by (simp add: committee_at_def)
  show ?case
    using one_signs [OF T(1) k arrives n(1)] T(2,3) n(2)
    by (intro exI [of _ "\<lparr>mb_nodes = (mb_nodes T)[k := node'], mb_signed = insert (k, m k) (mb_signed T)\<rparr>"])
      (auto simp: committee_at_def nth_list_update less_Suc_eq lessThan_Suc)
qed

lemma all_members_sign:
  assumes "lineage_arrives C e P request" and "committee_at C e {} (\<lambda>_. v) (mb_nodes S)"
    and "\<And>i node. member_at C e i v node \<Longrightarrow>
      \<exists>node'. grants C e m i (lineage_connection C None None request node) node' \<and> member_at C e i w node'"
  obtains S' where "lineage_run C e P S S'" "\<forall>i < LINEAGE_N. (i, m i) \<in> mb_signed S'"
    "committee_at C e {} (\<lambda>_. w) (mb_nodes S')" "mb_signed S' = mb_signed S \<union> (\<lambda>i. (i, m i)) ` {..<LINEAGE_N}"
proof -
  obtain S' where S': "lineage_run C e P S S'" "mb_signed S' = mb_signed S \<union> (\<lambda>i. (i, m i)) ` {..<LINEAGE_N}"
    "committee_at C e {} (\<lambda>i. if i < LINEAGE_N then w else v) (mb_nodes S')"
    using all_sign [OF assms, of LINEAGE_N] by auto
  show thesis
    by (rule that [OF S'(1)]) (use S'(2,3) in \<open>auto intro: committee_at_cong\<close>)
qed

definition fresh_lineage :: "crypto \<Rightarrow> u64 \<Rightarrow> lineage_committee" where
  "fresh_lineage C e = \<lparr>mb_nodes = fresh_members C e, mb_signed = {}\<rparr>"

lemma fresh_lineage_start: "lineage_start C e {} (fresh_lineage C e)"
  by (auto simp: lineage_start_def fresh_lineage_def fresh_members_def)

text \<open>The first committee moves the genesis state on and hands it over; the second moves it on again.\<close>

definition lab_certificates :: "crypto \<Rightarrow> final_cert \<times> rotation_cert \<times> final_cert" where
  "lab_certificates C =
    (\<lparr>fc_finality = first_transfer C, fc_shares = cert_shares C EPOCH_30 (final_share_message (first_transfer C))\<rparr>,
     \<lparr>rc_handoff = first_handoff C, rc_shares = cert_shares C EPOCH_30 (rotation_share_message (first_handoff C))\<rparr>,
     \<lparr>fc_finality = second_transfer C, fc_shares = cert_shares C EPOCH_31 (final_share_message (second_transfer C))\<rparr>)"

lemma arrives_finality: "sr_generation (fin_from f) \<noteq> - 1 \<Longrightarrow> lineage_arrives C e P (LN_FINALIZE # write_finality f)"
  by (auto simp: lineage_arrives_def lineage_ops finality_stream.get_put_nil)

lemma arrives_handoff: "lineage_arrives C e P (LN_HANDOFF # write_rotation h)"
  by (simp add: lineage_arrives_def lineage_ops)

lemma arrives_activation: "sendable_rotation cert \<Longrightarrow> P cert \<Longrightarrow> lineage_arrives C e P (LN_ACTIVATE # write_rotation_cert cert)"
  by (auto simp: lineage_arrives_def lineage_ops rotation_cert_stream.get_put_nil)

lemma first_generations: "sr_generation (fin_from (first_transfer C)) \<noteq> - 1" "sr_generation (fin_from (second_transfer C)) \<noteq> - 1"
  "sr_generation (fin_from (second_transfer C)) = sr_generation (fin_from (first_transfer C)) + 1"
  by (simp_all add: scenario_states successor_state_def)

lemma lab_first_committee:
  assumes sigs: "signatures_verify C" and C: "lab_certificates C = (a, h, b)"
  obtains T S where "lineage_run C EPOCH_30 P (fresh_lineage C EPOCH_30) T" "lineage_run C EPOCH_30 P T S"
    "final_of C EPOCH_30 {} T a" "final_of C EPOCH_30 {} S a" "rotation_of C EPOCH_30 {} S h"
    "mb_signed S = (\<lambda>i. (i, final_share_message (first_transfer C) i)) ` {..<LINEAGE_N} \<union>
      (\<lambda>i. (i, rotation_share_message (first_handoff C) i)) ` {..<LINEAGE_N}"
proof -
  note st = scenario_states
  have cert: "fc_finality a = first_transfer C" "fc_shares a = cert_shares C EPOCH_30 (final_share_message (first_transfer C))"
    "rc_handoff h = first_handoff C" "rc_shares h = cert_shares C EPOCH_30 (rotation_share_message (first_handoff C))"
    using C by (auto simp: lab_certificates_def)
  have at: "committee_at C EPOCH_30 {} (\<lambda>_. first_view C EPOCH_30) (mb_nodes (fresh_lineage C EPOCH_30))"
    using fresh_members_at by (simp add: fresh_lineage_def)
  have f: "\<exists>node'. grants C EPOCH_30 (final_share_message (first_transfer C)) i
      (lineage_connection C None None (LN_FINALIZE # write_finality (first_transfer C)) node) node' \<and>
      member_at C EPOCH_30 i (after_finality (first_transfer C) (first_view C EPOCH_30)) node'"
    if "member_at C EPOCH_30 i (first_view C EPOCH_30) node" for i node
    by (rule finality_granted [OF that, of "first_transfer C"]) (auto simp: st first_view_fields)
  obtain T where T: "lineage_run C EPOCH_30 P (fresh_lineage C EPOCH_30) T"
    "\<forall>i < LINEAGE_N. (i, final_share_message (first_transfer C) i) \<in> mb_signed T"
    "committee_at C EPOCH_30 {} (\<lambda>_. after_finality (first_transfer C) (first_view C EPOCH_30)) (mb_nodes T)"
    "mb_signed T = mb_signed (fresh_lineage C EPOCH_30) \<union> (\<lambda>i. (i, final_share_message (first_transfer C) i)) ` {..<LINEAGE_N}"
    by (rule all_members_sign [OF arrives_finality [where P = P, OF first_generations(1)] at f])
  let ?v = "after_finality (first_transfer C) (first_view C EPOCH_30)"
  have g: "\<exists>node'. grants C EPOCH_30 (rotation_share_message (first_handoff C)) i
      (lineage_connection C None None (LN_HANDOFF # write_rotation (first_handoff C)) node) node' \<and>
      member_at C EPOCH_30 i (after_handoff C (first_handoff C) ?v) node'"
    if "member_at C EPOCH_30 i ?v node" for i node
    by (rule handoff_granted [OF that, of "first_handoff C"]) (auto simp: st after_fields first_view_fields)
  obtain S where S: "lineage_run C EPOCH_30 P T S"
    "\<forall>i < LINEAGE_N. (i, rotation_share_message (first_handoff C) i) \<in> mb_signed S"
    "mb_signed S = mb_signed T \<union> (\<lambda>i. (i, rotation_share_message (first_handoff C) i)) ` {..<LINEAGE_N}"
    by (rule all_members_sign [OF arrives_handoff [where P = P] T(3) g])
  have "mb_signed T \<subseteq> mb_signed S"
    using members_run_signed [OF S(1)] .
  then have S_first: "\<forall>i < LINEAGE_N. (i, final_share_message (first_transfer C) i) \<in> mb_signed S"
    using T(2) by blast
  have fin: "final_of C EPOCH_30 {} T a" "final_of C EPOCH_30 {} S a"
    using cert_shares_quorum [OF sigs] cert_shares_issued [OF T(2)] cert_shares_issued [OF S_first]
    by (simp_all add: final_of_def final_issued_def verify_final_cert_def verify_final_share_def cert st)
  have rot: "rotation_of C EPOCH_30 {} S h"
    using cert_shares_quorum [OF sigs] cert_shares_issued [OF S(2)]
    by (simp add: rotation_of_def rotation_issued_def verify_rotation_cert_def verify_rotation_share_def cert st)
  have "mb_signed S = (\<lambda>i. (i, final_share_message (first_transfer C) i)) ` {..<LINEAGE_N} \<union>
      (\<lambda>i. (i, rotation_share_message (first_handoff C) i)) ` {..<LINEAGE_N}"
    unfolding S(3) T(4) by (simp add: fresh_lineage_def)
  then show thesis
    by (rule that [OF T(1) S(1) fin rot])
qed

lemma lab_second_committee:
  assumes sigs: "signatures_verify C" and C: "lab_certificates C = (a, h, b)" and P: "P h"
  obtains S where "lineage_run C EPOCH_31 P (fresh_lineage C EPOCH_31) S" "final_of C EPOCH_31 {} S b"
    "committee_at C EPOCH_31 {} (\<lambda>_. holding_view C) (mb_nodes S)"
    "\<And>m. m \<in> mb_signed S \<Longrightarrow> \<exists>i. m = (i, final_share_message (second_transfer C) i) \<or>
      m = (i, epoch_activation_message EPOCH_31 (rotation_hash C (first_handoff C)) i)"
proof -
  note st = scenario_states
  have cert: "fc_finality b = second_transfer C" "fc_shares b = cert_shares C EPOCH_31 (final_share_message (second_transfer C))"
    "rc_handoff h = first_handoff C" "rc_shares h = cert_shares C EPOCH_30 (rotation_share_message (first_handoff C))"
    using C by (auto simp: lab_certificates_def)
  have at: "committee_at C EPOCH_31 {} (\<lambda>_. empty_view) (mb_nodes (fresh_lineage C EPOCH_31))"
    using fresh_members_at [of C EPOCH_31] first_view_fields(5) [OF st(16)] by (simp add: fresh_lineage_def)
  have send: "sendable_rotation h" "verify_rotation_cert C h"
    using cert_shares_quorum [OF sigs]
    by (auto simp: sendable_rotation_def cert cert_shares_def LINEAGE_N_def verify_rotation_cert_def verify_rotation_share_def st)
  have f: "\<exists>node'. grants C EPOCH_31 (epoch_activation_message EPOCH_31 (rotation_hash C (first_handoff C))) i
      (lineage_connection C None None (LN_ACTIVATE # write_rotation_cert h) node) node' \<and>
      member_at C EPOCH_31 i (after_activation C (first_handoff C) empty_view) node'"
    if "member_at C EPOCH_31 i empty_view node" for i node
    by (rule activation_granted [OF that send(2,1) cert(3)]) (auto simp: st empty_view_def)
  let ?v = "after_activation C (first_handoff C) empty_view"
  obtain T where T: "lineage_run C EPOCH_31 P (fresh_lineage C EPOCH_31) T"
    "\<forall>i < LINEAGE_N. (i, epoch_activation_message EPOCH_31 (rotation_hash C (first_handoff C)) i) \<in> mb_signed T"
    "committee_at C EPOCH_31 {} (\<lambda>_. ?v) (mb_nodes T)"
    "mb_signed T = mb_signed (fresh_lineage C EPOCH_31) \<union>
      (\<lambda>i. (i, epoch_activation_message EPOCH_31 (rotation_hash C (first_handoff C)) i)) ` {..<LINEAGE_N}"
    by (rule all_members_sign [OF arrives_activation [where P = P, OF send(1) P] at f])
  have r: "lv_transfers ?v g = None" for g
    by (simp add: after_fields) (simp add: empty_view_def)
  have g: "\<exists>node'. grants C EPOCH_31 (final_share_message (second_transfer C)) i
      (lineage_connection C None None (LN_FINALIZE # write_finality (second_transfer C)) node) node' \<and>
      member_at C EPOCH_31 i (after_finality (second_transfer C) ?v) node'"
    if "member_at C EPOCH_31 i ?v node" for i node
    by (rule finality_granted [OF that, of "second_transfer C"]) (auto simp: st after_fields(3) r)
  obtain S where S: "lineage_run C EPOCH_31 P T S"
    "\<forall>i < LINEAGE_N. (i, final_share_message (second_transfer C) i) \<in> mb_signed S"
    "committee_at C EPOCH_31 {} (\<lambda>_. after_finality (second_transfer C) ?v) (mb_nodes S)"
    "mb_signed S = mb_signed T \<union> (\<lambda>i. (i, final_share_message (second_transfer C) i)) ` {..<LINEAGE_N}"
    by (rule all_members_sign [OF arrives_finality [where P = P, OF first_generations(2)] T(3) g])
  have "final_of C EPOCH_31 {} S b"
    using cert_shares_quorum [OF sigs] cert_shares_issued [OF S(2)]
    by (simp add: final_of_def final_issued_def verify_final_cert_def verify_final_share_def cert st)
  moreover have "\<exists>i. m = (i, final_share_message (second_transfer C) i) \<or>
      m = (i, epoch_activation_message EPOCH_31 (rotation_hash C (first_handoff C)) i)" if "m \<in> mb_signed S" for m
    using that unfolding S(4) T(4) by (auto simp: fresh_lineage_def)
  ultimately show thesis
    using that rtranclp_trans [OF T(1) S(1)] S(3) by (simp add: holding_view_def)
qed

text \<open>
  The second committee hands its state over by the shares of five members; the two others still hold it
  and answer the challenge that follows, and a member that has handed over restarts.
\<close>

definition lab_rotation_cert :: "crypto \<Rightarrow> rotation_cert" where
  "lab_rotation_cert C = \<lparr>rc_handoff = second_handoff C,
    rc_shares = map (share_of C EPOCH_31 (rotation_share_message (second_handoff C))) [0, 1, 2, 3, 4]\<rparr>"

definition lab_late_answers :: "crypto \<Rightarrow> fresh_cert" where
  "lab_late_answers C = \<lparr>fr_epoch = EPOCH_31, fr_state = second_state C, fr_nonce = fresh_nonce C,
    fr_shares = map (share_of C EPOCH_31 (freshness_message EPOCH_31 (second_state C) (fresh_nonce C))) [5, 6]\<rparr>"

lemma lab_second_handoff:
  assumes sigs: "signatures_verify C" and at: "committee_at C EPOCH_31 {} (\<lambda>_. holding_view C) (mb_nodes S)"
  obtains T where "lineage_run C EPOCH_31 P S T" "rotation_of C EPOCH_31 {} T (lab_rotation_cert C)"
    "mb_signed T = mb_signed S \<union> (\<lambda>i. (i, rotation_share_message (second_handoff C) i)) ` {..<5}"
    "committee_at C EPOCH_31 {} (\<lambda>i. if i < 5 then after_handoff C (second_handoff C) (holding_view C) else holding_view C) (mb_nodes T)"
proof -
  note st = scenario_states
  have g: "\<exists>node'. grants C EPOCH_31 (rotation_share_message (second_handoff C)) i
      (lineage_connection C None None (LN_HANDOFF # write_rotation (second_handoff C)) node) node' \<and>
      member_at C EPOCH_31 i (after_handoff C (second_handoff C) (holding_view C)) node'"
    if "member_at C EPOCH_31 i (holding_view C) node" for i node
    by (rule handoff_granted [OF that, of "second_handoff C"]) (auto simp: st holding_view_fields)
  obtain T where T: "lineage_run C EPOCH_31 P S T"
    "mb_signed T = mb_signed S \<union> (\<lambda>i. (i, rotation_share_message (second_handoff C) i)) ` {..<5}"
    "committee_at C EPOCH_31 {} (\<lambda>i. if i < 5 then after_handoff C (second_handoff C) (holding_view C) else holding_view C) (mb_nodes T)"
    using all_sign [OF arrives_handoff [where P = P] at g, of 5] by (auto simp: LINEAGE_N_def)
  have "lineage_quorum (member_signed C EPOCH_31 (rotation_share_message (second_handoff C))) (rc_shares (lab_rotation_cert C))"
    using quorum_of_shares(1) [OF sigs five_members(1) member_numbers(2), of "rc_shares (lab_rotation_cert C)" EPOCH_31
      "rotation_share_message (second_handoff C)" "\<lambda>_. True"] five_members(2)
    by (simp add: lab_rotation_cert_def)
  then have "rotation_of C EPOCH_31 {} T (lab_rotation_cert C)"
    using T(2) by (auto simp: rotation_of_def rotation_issued_def issued_def verify_rotation_cert_def verify_rotation_share_def
      lab_rotation_cert_def share_of_def st)
  then show thesis
    by (rule that [OF T(1) _ T(2,3)])
qed

lemma lab_late_challenge:
  assumes at: "committee_at C EPOCH_31 {} (\<lambda>i. if i < 5 then v else holding_view C) (mb_nodes T)"
  obtains S' where "lineage_run C EPOCH_31 P T S'"
    "issued {} S' (freshness_message EPOCH_31 (second_state C) (fresh_nonce C)) (fr_shares (lab_late_answers C))"
proof -
  let ?m = "freshness_message EPOCH_31 (second_state C) (fresh_nonce C)"
  let ?request = "LN_FRESHNESS # write_challenge (EPOCH_31, second_state C, fresh_nonce C)"
  have arrives: "lineage_arrives C EPOCH_31 P ?request"
    by (simp add: lineage_arrives_def lineage_ops)
  have len: "5 < length (mb_nodes T)" "6 < length (mb_nodes T)"
    using at by (simp_all add: committee_at_def LINEAGE_N_def)
  have each: "member_at C EPOCH_31 i (if i < 5 then v else holding_view C) (mb_nodes T ! i)" if "i < LINEAGE_N" for i
    using at that by (simp add: committee_at_def)
  have node: "member_at C EPOCH_31 5 (holding_view C) (mb_nodes T ! 5)" "member_at C EPOCH_31 6 (holding_view C) (mb_nodes T ! 6)"
    using each [of 5] each [of 6] by (simp_all add: LINEAGE_N_def)
  note answered = challenge_served(1) [of C EPOCH_31 _ "holding_view C" _ "second_state C" "fresh_nonce C", OF _ holding_view_fields(1)]
  define U where "U = \<lparr>mb_nodes = (mb_nodes T)[5 := mb_nodes T ! 5], mb_signed = insert (5, ?m 5) (mb_signed T)\<rparr>"
  have U: "lineage_run C EPOCH_31 P T U"
    unfolding U_def by (rule one_signs [OF rtranclp.rtrancl_refl len(1) arrives answered [OF node(1)]])
  have same: "mb_nodes U = mb_nodes T"
    by (simp add: U_def)
  have S': "lineage_run C EPOCH_31 P T \<lparr>mb_nodes = (mb_nodes U)[6 := mb_nodes U ! 6], mb_signed = insert (6, ?m 6) (mb_signed U)\<rparr>"
    by (rule one_signs [OF U _ arrives]) (use len(2) answered [OF node(2)] in \<open>simp_all add: same\<close>)
  show thesis
    by (rule that [OF S']) (auto simp: issued_def lab_late_answers_def share_of_def U_def)
qed

end
