(* ===== verification/Spec2Isabelle.thy ===== *)
theory Spec2Isabelle
  imports Threads Workers Rounds HandoffProgress LineageLab
begin

text \<open>
  The CALIBRE laboratory ledger: a committee of seven validators, at most two of them faulty, finalizes
  transfers of single-owner monetary cells by two rounds of votes, and every validator keeps its votes and
  its ledger in a write-ahead log.  This theory imports the whole development and states its properties
  (C1, C2, \<dots>); the definitions are in the other theories, which follow the files of the repository.

  \<^bold>\<open>How the program works.\<close>  The crate \<open>src/integration001\<close> is the protocol.  A controller (\<open>main.rs\<close>)
  builds a genesis, starts one process per validator and talks to them over framed TCP messages.  To
  finalize a transfer it collects prevotes from the five honest validators, assembles a prevote certificate,
  collects precommits that name the digest of that certificate, and assembles the finality certificate;
  then it has the transfer applied at every validator.  A validator (\<open>node.rs\<close>) checks each request
  against its ledger (\<open>model.rs\<close>) and its log (\<open>store.rs\<close>), writes the decision to the log before it answers,
  and rebuilds everything from the log when it restarts.  \<open>wire.rs\<close> is the byte format of all of it.
  \<open>src/sec012\<close> explores the round-change rule exhaustively, \<open>src/sec013\<close> is the hand-off of an input from
  one committee to the next, and \<open>src/sec015\<close> carries one monetary state through any number of committees and
  lets a client challenge the last of them for freshness.

  \<^bold>\<open>The theories.\<close>
  \<^item> \<open>Prelude\<close>, \<open>Bytes\<close>, \<open>Crypto\<close>: results as sums, loops as folds that stop at the first error, sorted iteration of
    finite maps, the arithmetic of quorums, the locale \<open>permanent_register\<close> (a value, once set, stays through every
    step); fixed-size byte arrays and the little-endian conversions; the cryptographic functions as a parameter.
  \<^item> \<open>Cells\<close>, \<open>Quorum\<close>, \<open>Ledger\<close> (\<open>model.rs\<close>): cells, transfers and authorizations; votes, certificates and
    proposals; the ledger, its root and \<open>apply_finalized\<close>.
  \<^item> \<open>Codec\<close>, \<open>Wire\<close>, \<open>Messages\<close> (\<open>wire.rs\<close>): encoder, decoder and frames; the format of every type; requests and
    responses.  Each \<open>put\<close>/\<open>take\<close> pair is an interpretation of the locale \<open>codec\<close> (or \<open>reader\<close>, where the
    decoder accepts more than the encoder writes).
  \<^item> \<open>Store\<close> (\<open>store.rs\<close>) and \<open>StoreSafety\<close>: the log, its replay and its operations; memory is the replay of the
    file, a torn record is recognised, locks and votes are permanent registers across failed writes and restarts.
  \<^item> \<open>Node\<close> (\<open>node.rs\<close>) and \<open>NodeSafety\<close>: arguments, start-up, the handlers, one served connection; what a
    validator keeps over any sequence of requests and restarts.
  \<^item> \<open>Config\<close> (\<open>config.rs\<close>), \<open>Metrics\<close> (\<open>metrics.rs\<close>), \<open>Fixture\<close> and \<open>Controller\<close> (\<open>main.rs\<close>): options; counters,
    summaries and the JSON report; genesis, negative matrices and schedules; the remote calls.
  \<^item> \<open>Clients\<close> (\<open>main.rs\<close>): the controller's threads as programs over requests, the crew they form, the join;
    the locale \<open>crew_property\<close> says that what every single step keeps holds after the join, whatever the
    schedule.  \<open>Concurrent\<close> interprets it for the threads that finalize, \<open>Workers\<close> for those that apply.
  \<^item> \<open>Gate\<close> (\<open>main.rs\<close>): the start gate (\<open>new_start_gate\<close>, \<open>wait_for_start\<close>, \<open>release_start\<close>) as a flag and a
    condition variable; the main thread that spawns, opens the gate, joins and leaves the scope, or gives up when a
    spawn fails; clients that sleep until they are woken.  The locale \<open>fair_run\<close> is the argument that a run ends in
    which every thread steps again and again; its interpretation on the gate shows that the calls return, and
    \<open>gated_crew_joins\<close> that what they return is the join of \<open>Clients\<close> for some schedule.
  \<^item> \<open>Phase\<close> (\<open>main.rs\<close>): the start and restart of the cluster, every stage of \<open>run_phase_a_once\<close>, and a
    clean run; \<open>PhaseStart\<close>: every run starts, its genesis included; \<open>Report\<close>: \<open>run_controller\<close>, from the comparison of the
    two runs to the audit of the executable and the evidence file; \<open>PhaseSafety\<close>: what a successful run
    establishes does not depend on the network, the certificates or the interleavings (a third interpretation of
    \<open>crew_property\<close>: what threads return and how many latencies they note).
  \<^item> \<open>Agreement\<close>: the committee under an adversary who sends any request to any validator at any time, makes
    writes fail anywhere and restarts processes; from the registers of \<open>StoreSafety\<close> to agreement on a cell.
  \<^item> \<open>Progress\<close>, \<open>Startup\<close>, \<open>Recovery\<close>, \<open>Shape\<close>, \<open>Delivery\<close>, \<open>Capacity\<close>: certificates can always be assembled and
    transfers finalized; a fresh validator starts; a restart gives back the validator that stopped; the checks
    on a ledger's shape never refuse a legal one; a finalized transfer is applied everywhere; a ledger fits its frame.
  \<^item> \<open>Rounds\<close> (\<open>src/sec012/src/main.rs\<close>): the explorer of round changes, every function of it.
  \<^item> \<open>Handoff\<close> (\<open>src/sec013/src/main.rs\<close>), \<open>HandoffSafety\<close>, \<open>HandoffWire\<close>, \<open>HandoffProgress\<close>: the two committees'
    servers, their log of choices, the certificates and their stream format; the locale \<open>choice_server\<close> is what
    both servers promise, and one committee's decisions are a permanent register by it.
  \<^item> \<open>Lineage\<close> (\<open>src/sec015/src/main.rs\<close>: data, messages, certificate checks, the log and the operations of
    \<open>Store\<close>), \<open>LineageNode\<close> (\<open>run_node\<close>, \<open>crash_restart\<close>, the \<open>rpc_\<close> and \<open>collect_\<close> functions), \<open>LineageControl\<close>
    (\<open>controller\<close>).  The source's \<open>Handoff\<close>, \<open>HandoffCert\<close> and \<open>ActivationCert\<close> are called \<open>rotation\<close>, \<open>rotation_cert\<close>
    and \<open>rotation_activation\<close> here, since \<open>sec013\<close> uses the same names for other types.
  \<^item> \<open>Members\<close>: a committee whose members serve requests in any order, lose writes and restart; the locale
    \<open>member_invariant\<close> lifts what one member keeps to the whole committee.  \<open>LineageLog\<close>: what a record does on
    replay is what its operation did in memory; \<open>LineageSafety\<close>: the life of a member (empty, holding a state,
    handed over) and what each signature it made vouches for; \<open>LineageUnicity\<close>: two certificates of one committee,
    by an interpretation of \<open>member_invariant\<close>; \<open>LineageChain\<close>: many committees, one history, and the silence of a
    retired one (a second interpretation); \<open>LineageWire\<close>, \<open>LineageProgress\<close>, \<open>LineageCollect\<close>, \<open>LineageRun\<close>: requests
    are read back, granted and collected, the whole experiment succeeds, and a restarted first committee revives
    the genesis state; \<open>LineageLab\<close>: concrete runs of two committees.
  \<^item> \<open>Lab\<close>, \<open>Threads\<close>: a concrete cryptography, committee, ledger and running cluster at which the hypotheses of
    the theorems are discharged.

  \<^bold>\<open>How state and code correspond.\<close>  A struct is a record with the fields of the source (prefixed), an enum a
  datatype, \<open>u8\<close> to \<open>u64\<close> are words that wrap or are checked where the source checks, a \<open>BTreeMap\<close> is a finite map
  iterated in the order of its keys, and \<open>Result\<close> is a sum whose left values are the errors of the source.  A
  handler returns its result together with the state it leaves.  A file is its bytes; an append takes how far
  its write got.  A validator process is a \<open>node_server\<close>, a cluster a list of them in \<open>world\<close>.

  \<^bold>\<open>Parameters.\<close>  BLAKE3 and Ed25519 are the record \<open>crypto\<close>; theorems assume of it at most that honest
  signatures verify, that nobody else signs for an honest validator (an explicit set of issued votes), and that single named
  digests - of the certificate the honest validators form, of a receipt - are not the zero array, which the code
  reserves.  Where a collision would matter, the statement names the messages that would collide: two transfers, two hand-offs (\<open>handoffs_collide\<close>), the
  labels of the genesis cells (\<open>labels_collide\<close>), the roots of a schedule (\<open>roots_collide\<close>).  The network is a function that says of each
  request whether it arrives, whether its reply is lost and how the log's write turns out; the schedule of
  the threads, which of them cannot be spawned, the time they measure, the pings that get through before a start times out and the iteration order of \<open>HashMap\<close>s are arguments too.

  \<^bold>\<open>What the theorems show.\<close>  Safety: agreement under any adversary, honest votes never contradict each other, no
  coin is made or lost, a cell is spent once, the hand-off of an input is unique and binds the new committee,
  a state has one history over any number of rotations, a retired committee answers no new challenge,
  the explorer finds no conflict.  Liveness: clusters start, transfers finalize and are applied, alone and with any
  interleaving of the benchmark's threads, hand-offs complete.  Termination: the call that starts the client threads returns in every fair order of
  their steps, spurious wake-ups and failing spawns included, and not because a client cannot wait: one that
  is not woken stays asleep.  Repeatability:
  two runs that succeed have the same roots and decisions, so the controller's comparison of them never fails, and what can
  still fail after two successful runs is the audit of the executable or the evidence file.
  Recovery: a restart is the identity on a healthy validator.  Formats: every message, snapshot and certificate is
  read back exactly.  Errors: the negative tests of the controller reject what they must, and a truncated
  hand-off request stops a member (a finding); a restart of the first committee of \<open>sec015\<close> revives a genesis
  state it has handed over (another).

  \<^bold>\<open>Bounds.\<close>  Frames hold \<open>MAX_FRAME_LEN\<close> bytes (1 MiB), collections \<open>MAX_COLLECTION_LEN\<close> (2048) entries, a log
  record \<open>MAX_PAYLOAD_BYTES\<close>.  \<open>Capacity\<close> shows that a ledger of g cells and t transfers fits while
  g + 9t is at most 2048; the largest run has g = 132 and t = 129.  Liveness theorems ask for room in the
  64-bit sequence number of the logs: two records per transfer alone, ten per thread when threads run together, since
  any of them may come first.  A thread takes at most eleven steps, so that
  \<open>14n + 6\<close> rounds in which each of n threads and the main thread step once are enough for a gated call (\<open>in_turn\<close>); \<open>gate_fair_returns\<close>
  shows that any fair order returns as well, with a result the model gives for some order.  The explorer needs no fuel: it runs over
  the finite list of states of three rounds; evaluating it gives the 12,359 states and 301,543 transitions
  the repository records.  The words of \<open>sec015\<close> wrap, as in the release build; its unicity theorem assumes that no request names the
  last generation, \<open>2^64 - 1\<close>, that a member of the first committee restarts only while it has retired nothing, and
  that a committee is shown only hand-off certificates whose correct signers did sign.
  No definition of the program uses fuel otherwise: recursion is on the input that is left.

  \<^bold>\<open>Not modelled.\<close>  Process spawning, ports, the timers behind timeouts, the accept loop, file locks and \<open>fsync\<close>, panics of
  threads and the poisoned mutexes they leave, environment variables, and wall-clock time: they are the operating system, whose outcomes are parameters
  above.  The arithmetic of \<open>f64\<close>: the
  report takes it as a parameter.  The lines printed on the terminal.  Worker threads that still run after
  \<open>apply_bench_to_live_nodes\<close> has returned the first error: the model lets them end first, which is one of the orders.  The benchmarks \<open>perf*\<close> and the root crate measure rates of synthetic work and share no state with
  the protocol; the build scripts of some rewrite the source of an earlier one, and what they generate is not in the
  repository.  The \<open>sec*\<close> crates other than 012, 013 and 015 are earlier stand-alone experiments that
  \<open>integration001\<close> supersedes, TPM probes that call into the operating system, or variants of these three.
\<close>

text \<open>
  C1: With at most two adversarial validators, two finality certificates for the same input cell whose honest
  votes were really issued by the validators of one run, restarts included, are for the same intent; so they
  finalize the same transfer, or the two transfers are an explicit BLAKE3 collision.
\<close>

theorem finality_agreement:
  assumes start: "system_start C configs S0" and run: "system_run C configs S0 S"
    and few: "card ({..<N} - honest configs) \<le> 2"
    and a: "check_finality C tx pq cq m = Inr x" "votes_issued configs (sys_votes S) cq"
    and b: "check_finality C ty pq' cq' m' = Inr y" "votes_issued configs (sys_votes S) cq'"
    and same: "cell_reference (tx_input tx) = cell_reference (tx_input ty)"
  shows "x = y \<and> (tx = ty \<or> (\<exists>bx by. tx_bytes tx = Inr bx \<and> tx_bytes ty = Inr by \<and>
    collide C (ascii ''CALIBRE_INTEGRATION001_TX_INTENT_V1'' @ bx) (ascii ''CALIBRE_INTEGRATION001_TX_INTENT_V1'' @ by)))"
proof -
  obtain r d where qa: "valid_qc C cq m PHASE_PRECOMMIT r (conflict_key C (cell_reference (tx_input tx))) x (Some d)"
    using check_finalityD(2) [OF a(1)] by blast
  obtain r' d' where qb: "valid_qc C cq' m' PHASE_PRECOMMIT r' (conflict_key C (cell_reference (tx_input tx))) y (Some d')"
    using check_finalityD(2) [OF b(1)] unfolding same by blast
  have xy: "x = y"
    using certificates_agree [OF system_run_inv [OF run system_start_inv [OF start]] few qa a(2) qb b(2)] .
  then show ?thesis
    using intent_hash_inj [OF check_finalityD(1) [OF a(1)] check_finalityD(1) [OF b(1), folded xy]] by metis
qed

lemma finality_agreement_witness:
  "let ty = (lab_tx 1)\<lparr>tx_fee := 2\<rparr> in ty \<noteq> lab_tx 1 \<and> (\<exists>x y. tx_bytes (lab_tx 1) = Inr x \<and> tx_bytes ty = Inr y \<and>
    collide lab_crypto (ascii ''CALIBRE_INTEGRATION001_TX_INTENT_V1'' @ x) (ascii ''CALIBRE_INTEGRATION001_TX_INTENT_V1'' @ y))"
proof -
  let ?ty = "(lab_tx 1)\<lparr>tx_fee := 2\<rparr>"
  obtain h where h: "intent_hash lab_crypto ?ty = Inr h"
    by (auto simp: intent_hash_def tx_bytes_def lab_tx_def)
  have input: "tx_input ?ty = tx_input (lab_tx 1)"
    by simp
  have "h = lab_intent 1"
    by (rule lab_intent_salt [OF h]) (simp add: lab_tx_def)
  then have fin: "check_finality lab_crypto ?ty (lab_prevote_qc 1) (lab_precommit_qc 1) lab_manifest = Inr (lab_intent 1)"
    using lab_finality(1) [of 1] h lab_intent [of 1] unfolding check_finality_def input by simp
  obtain S where S: "system_run lab_crypto (cluster_configs OLD_EPOCH) (lab_system [1]) S"
    "votes_issued (cluster_configs OLD_EPOCH) (sys_votes S) (lab_precommit_qc 1)"
    using lab_agreement_run .
  have start: "system_start lab_crypto (cluster_configs OLD_EPOCH) (lab_system [1])"
    by (rule lab_system_start) (simp_all add: MAX_COLLECTION_LEN_def)
  have "?ty \<noteq> lab_tx 1"
    by (simp add: lab_tx_def)
  then show ?thesis
    using finality_agreement [OF start S(1) lab_few_faulty lab_finality(1) S(2) fin S(2) input [symmetric, THEN arg_cong]]
    unfolding Let_def by metis
qed

text \<open>
  C2: An honest validator never issues two votes of the same phase and round for the same conflict key with
  different intents, and never two precommits for one conflict key with different intents in any rounds,
  whatever requests it gets and however often it is restarted from its log in between.
\<close>

theorem honest_votes_consistent:
  assumes start: "open_node C io0 io1 file content config = (Inr n0, file')" and "\<not> nc_byzantine config"
    and run: "node_run C config n0 n1" "handle_request C io req n1 = (Inr (VoteResponse v, sd), n2)"
    and again: "node_run C config n2 n3" "handle_request C io' req' n3 = (Inr (VoteResponse v', sd'), n4)"
    and same: "v_conflict_key v' = v_conflict_key v" "v_phase v' = v_phase v" "v_round v' = v_round v \<or> v_phase v = PHASE_PRECOMMIT"
  shows "v_intent v' = v_intent v"
proof -
  have i1: "node_inv C config n1"
    using node_votes.inv_run [OF run(1) open_node_inv [OF start]] .
  have i2: "node_inv C config n2"
    using node_step_inv [OF node_step.request [OF run(2)] i1] .
  have i3: "node_inv C config n3"
    using node_votes.inv_run [OF again(1) i2] .
  have run4: "node_run C config n2 n4"
    using again(1) node_step.request [OF again(2)] by (rule rtranclp.rtrancl_into_rtrancl)
  note v = vote_response_durable(2,3) [OF run(2) i1 assms(2)]
  note v' = vote_response_durable(2,3) [OF again(2) i3 assms(2)]
  show ?thesis
  proof (cases "v_phase v = PHASE_PRECOMMIT")
    case True
    then show ?thesis
      using node_locks.locked_agree [OF run4 i2 v(2)] v'(2) same(1,2) by simp
  next
    case False
    then have "key_of v' = key_of v"
      using same by (simp add: key_of_def)
    then show ?thesis
      using node_votes.locked_agree [OF run4 i2 v(1)] v'(1) by simp
  qed
qed

lemma honest_votes_consistent_witness:
  "\<exists>n1 n2 n3 v v' r. handle_request lab_crypto None (Prevote (lab_proposal 1 r)) (lab_node [1] 2) = (Inr (VoteResponse v, False), n1) \<and>
    node_run lab_crypto (cluster_configs OLD_EPOCH 2) n1 n2 \<and>
    handle_request lab_crypto None (Prevote (lab_proposal 1 r)) n2 = (Inr (VoteResponse v', False), n3) \<and>
    v_intent v' = v_intent v"
proof -
  let ?c = "conflict_key lab_crypto (cell_reference (lab_cell 1))"
  obtain r d where pq: "valid_qc lab_crypto (lab_prevote_qc 1) lab_manifest PHASE_PREVOTE r ?c (lab_intent 1) None"
    "qc_digest lab_crypto (lab_prevote_qc 1) lab_manifest = Inr d"
    using check_finalityD(2) [OF lab_finality(1) [of 1]] unfolding lab_tx_simps by blast
  have ks: "\<forall>k \<in> set [1 :: nat]. k < 2 ^ 64" "length [1 :: nat] \<le> MAX_COLLECTION_LEN" "2 \<in> honest (cluster_configs OLD_EPOCH)" "2 < N"
    by (simp_all add: MAX_COLLECTION_LEN_def lab_honest N_def)
  have honest: "\<not> nc_byzantine (cluster_configs OLD_EPOCH 2)"
    by (simp add: cluster_config_def)
  have live: "live_cell (ns_state (lab_node [1] 2)) (cell_reference (lab_cell 1)) = Some (lab_cell 1)"
    using lab_state_live [of 1 "[1]"] lab_fresh_voter(2) [OF ks(1-3)] by (simp add: live_cell_def)
  have voter: "voter lab_crypto (cluster_configs OLD_EPOCH 2) ?c r (lab_intent 1) (Suc (Suc 7)) (lab_node [1] 2)"
    using lab_fresh_voter(1) [OF ks(1-3), of ?c r "lab_intent 1"] by simp
  obtain v n1 u n2 where a: "handle_request lab_crypto None (Prevote (lab_proposal 1 r)) (lab_node [1] 2) = (Inr (VoteResponse v, False), n1)"
    "counts_for lab_crypto OLD_EPOCH PHASE_PREVOTE r ?c (lab_intent 1) None v"
    "handle_request lab_crypto None (Precommit (lab_proposal 1 r) (lab_prevote_qc 1)) n1 = (Inr (VoteResponse u, False), n2)"
    "voter lab_crypto (cluster_configs OLD_EPOCH 2) ?c r (lab_intent 1) 7 n2" "ns_state n2 = ns_state (lab_node [1] 2)"
    using lab_votes [OF voter live pq] by metis
  have seven: "(7 :: nat) = Suc (Suc 5)"
    by simp
  obtain v' n3 where b: "handle_request lab_crypto None (Prevote (lab_proposal 1 r)) n2 = (Inr (VoteResponse v', False), n3)"
    "counts_for lab_crypto OLD_EPOCH PHASE_PREVOTE r ?c (lab_intent 1) None v'"
    using lab_votes [OF a(4) [unfolded seven] _ pq] live a(5) by metis
  have run: "node_run lab_crypto (cluster_configs OLD_EPOCH 2) n1 n2"
    by (intro r_into_rtranclp) (rule node_step.request [OF a(3)])
  have "v_intent v' = v_intent v"
    using honest_votes_consistent [OF lab_node(1) [OF ks(1,2,4)] honest rtranclp.rtrancl_refl a(1) run b(1)] a(2) b(2)
    by (simp add: counts_for_def same_statement_def)
  then show ?thesis
    using a(1) run b(1) by blast
qed

text \<open>
  C3: When the five honest validators can be reached and their log writes succeed, each is active and healthy
  with room for two more log records, holds the input live and has no lock against the transfer and no vote
  against it in that round, the controller's two rounds of votes always finalize an authorized transfer:
  finalize_transfer returns a certificate of exactly five votes that every validator's finality check accepts,
  through the encoded frames of the wire protocol and the durable votes of the logs. The only assumption on
  the hash is that the digest of the one prevote certificate these five keys sign for the transfer in that
  round is not the all-zero value, which the code reserves for "no justification"; the only one on the
  signatures is that honest ones verify.
\<close>

theorem transfer_finalizes:
  assumes "signatures_verify C" and "honest_prevote_digest C e tx r \<noteq> Inr zero_array"
    and "verify_user_auth C tx auth (lab_committee C e) = Inr ()" and "intent_hash C tx = Inr x"
    and "cluster_ready C e configs tx r x 2 w" and "network_delivers net"
  shows "\<exists>ft w'. finalize_transfer C net elapsed (lab_committee C e) tx auth r w = (Inr ft, w') \<and>
    ft_tx ft = tx \<and> ft_auth ft = auth \<and> check_finality C tx (ft_prevote_qc ft) (ft_qc ft) (lab_committee C e) = Inr x \<and>
    length (qc_votes (ft_qc ft)) = Q \<and> cluster_ready C e configs tx r x 0 w'"
  by (rule finalize_succeeds [OF assms, of elapsed]) blast

lemma transfer_finalizes_witness:
  "\<exists>ft w'. finalize_transfer lab_crypto (\<lambda>_ _. Reached None) 5 (lab_committee lab_crypto OLD_EPOCH) (lab_tx 1) (lab_auth 1) 1 (lab_world [1, 2]) =
      (Inr ft, w') \<and> ft_tx ft = lab_tx 1"
proof -
  have world: "fresh_world lab_crypto OLD_EPOCH (lab_state [1, 2]) (lab_world [1, 2])"
    by (rule lab_world) (simp_all add: MAX_COLLECTION_LEN_def)
  have "live_cell (lab_state [1, 2]) (cell_reference (tx_input (lab_tx 1))) = Some (tx_input (lab_tx 1))"
    using lab_state_live [of 1 "[1, 2]"] by (simp add: live_cell_def)
  then have ready: "cluster_ready lab_crypto OLD_EPOCH (cluster_configs OLD_EPOCH) (lab_tx 1) 1 (lab_intent 1) 2 (lab_world [1, 2])"
    using fresh_world_ready [OF world] by simp
  have "network_delivers (\<lambda>_ _. Reached None)"
    by (simp add: network_delivers_def)
  from transfer_finalizes [OF lab_signatures_verify honest_prevote_digest_nonzero [OF lab_digest_nonzero]
      lab_auth_verifies [unfolded lab_manifest_def] lab_intent ready this, of 5]
  show ?thesis
    by blast
qed

text \<open>
  C4: The client threads of the benchmark do not disturb each other. Transfers that spend cells with different
  references are each finalized, in the order of the threads, with a certificate of exactly five votes that
  the finality check accepts, however the threads interleave once they could be spawned, from the start gate
  to the last join (any beginning of their order, after which they step in turn), or the conflict keys of two
  of the transfers are an explicit BLAKE3 collision. The honest validators can be reached and their writes
  succeed; each is active and healthy with room in its log for ten records per thread, holds the inputs live
  and has no lock or vote against the transfers; the digest of the prevote certificate these five keys sign
  for each transfer is not the reserved all-zero value; honest signatures verify.
\<close>

theorem concurrent_transfers_finalize:
  assumes "signatures_verify C" and "network_delivers net"
    and "\<forall>k < length transfers. honest_prevote_digest C e (fst (transfers ! k)) (100 + of_nat k) \<noteq> Inr zero_array"
    and "\<forall>t \<in> set transfers. verify_user_auth C (fst t) (snd t) (lab_committee C e) = Inr ()"
    and "distinct (map (\<lambda>t. cell_reference (tx_input (fst t))) transfers)"
    and "bench_ready C e configs transfers w" and "\<forall>k < length transfers. spawns k"
  shows "(\<exists>t \<in> set transfers. \<exists>u \<in> set transfers. collide C (key_preimage t) (key_preimage u)) \<or>
    (\<exists>fts w'. finalize_bench_concurrently C net spawns events elapsed (lab_committee C e) transfers w = (Inr fts, w') \<and>
      map (\<lambda>ft. (ft_tx ft, ft_auth ft)) fts = transfers \<and>
      (\<forall>ft \<in> set fts. length (qc_votes (ft_qc ft)) = Q \<and>
        check_finality C (ft_tx ft) (ft_prevote_qc ft) (ft_qc ft) (lab_committee C e) = intent_hash C (ft_tx ft)))"
proof (cases "\<exists>t \<in> set transfers. \<exists>u \<in> set transfers. collide C (key_preimage t) (key_preimage u)")
  case apart: False
  obtain fts w' where f: "finalize_bench_concurrently C net spawns events elapsed (lab_committee C e) transfers w = (Inr fts, w')"
    "list_all2 (finalized_as C e) (bench_jobs C e elapsed transfers) fts"
    using gated_finalization [OF assms(1-4) transfer_keys_distinct [OF assms(5) apart] assms(6,7)] by blast
  have job: "job_ok C e (job_of C e elapsed k (transfers ! k))" if "k < length transfers" for k
    using job_of_ok [of C "fst (transfers ! k)" "snd (transfers ! k)"] assms(4) that by simp
  have each: "length fts = length transfers"
    "\<And>k. k < length transfers \<Longrightarrow> finalized_as C e (job_of C e elapsed k (transfers ! k)) (fts ! k)"
    using f(2) by (simp_all add: list_all2_conv_all_nth)
  then have "map (\<lambda>ft. (ft_tx ft, ft_auth ft)) fts = transfers"
    by (simp add: list_eq_iff_nth_eq finalized_as_def job_of_def)
  moreover have "length (qc_votes (ft_qc ft)) = Q \<and>
      check_finality C (ft_tx ft) (ft_prevote_qc ft) (ft_qc ft) (lab_committee C e) = intent_hash C (ft_tx ft)"
    if ft: "ft \<in> set fts" for ft
  proof -
    obtain k where "k < length transfers" "ft = fts ! k"
      using ft each(1) by (metis in_set_conv_nth)
    then show ?thesis
      using each(2) [of k] job [of k] by (simp add: finalized_as_def job_ok_def)
  qed
  ultimately show ?thesis
    using f(1) by blast
qed blast

lemma concurrent_transfers_finalize_witness:
  "\<exists>fts w'. finalize_bench_concurrently lab_crypto (\<lambda>_ _. Reached None) (\<lambda>_. True) thread_events (\<lambda>_. 5)
      (lab_committee lab_crypto OLD_EPOCH) thread_transfers thread_world = (Inr fts, w') \<and>
    map (\<lambda>ft. (ft_tx ft, ft_auth ft)) fts = thread_transfers"
proof -
  have "network_delivers (\<lambda>_ _. Reached None)"
    "\<forall>k < length thread_transfers. honest_prevote_digest lab_crypto OLD_EPOCH (fst (thread_transfers ! k)) (100 + of_nat k) \<noteq> Inr zero_array"
    using honest_prevote_digest_nonzero [OF lab_digest_nonzero] by (auto simp: network_delivers_def)
  from concurrent_transfers_finalize [OF lab_signatures_verify this thread_authorized thread_cells thread_ready, of "\<lambda>_. True" thread_events]
  show ?thesis
    using thread_keys_apart by blast
qed

text \<open>
  C5: When every addressed validator is reachable with its writes succeeding, is healthy and active, holds the
  same ledger and has room in its log, a finalized transfer that the ledger accepts is applied by every one of
  them: each answers the same new root, none reports a duplicate, and each holds the new ledger, durably; sent
  again, each answers that root with the duplicate flag, and every validator, its ledger and its log included,
  is unchanged. The ledger is one grown from g genesis cells by t transfers with one more within the proved
  capacity, and neither the intent nor the digest of the certificate is the all-zero value, which the log
  refuses. The one other possibility, a refusal because the root did not move, is an explicit BLAKE3 collision
  of the two ledgers' root preimages.
\<close>

theorem cluster_applies_transfer:
  assumes "appliers C configs e s (Suc k) vs w" and "distinct vs" and "\<forall>i \<in> set vs. net (apply_request ft) i = Reached None"
    and "grown C g t s" and "g + 9 * Suc t \<le> capacity"
    and "apply_transfer_to C s ft e = Inr (Applied rc, s')" and "recordable C e ft"
  shows "collide C (root_preimage s) (root_preimage s') \<or>
    (\<exists>w1 w2. apply_at C net ft False vs w = (Inr (replicate (length vs) (state_root C s')), w1) \<and>
      appliers C configs e s' k vs w1 \<and>
      apply_at C net ft True vs w1 = (Inr (replicate (length vs) (state_root C s')), w2) \<and> w_nodes w2 = w_nodes w1)"
  by (rule grown_cluster_applies) (rule assms)+

lemma cluster_applies_transfer_witness:
  "\<exists>w1 w2. apply_at lab_crypto (\<lambda>_ _. Reached None) (lab_transfer 1) False [0..<N] (lab_world [1]) =
      (Inr (replicate N (state_root lab_crypto (lab_applied 1 (lab_state [1])))), w1) \<and>
    apply_at lab_crypto (\<lambda>_ _. Reached None) (lab_transfer 1) True [0..<N] w1 =
      (Inr (replicate N (state_root lab_crypto (lab_applied 1 (lab_state [1])))), w2) \<and> w_nodes w2 = w_nodes w1"
proof -
  have "appliers lab_crypto (cluster_configs OLD_EPOCH) OLD_EPOCH (lab_state [1]) (Suc 8) [0..<N] (lab_world [1])"
    using lab_appliers [of "[1]"] by (simp add: MAX_COLLECTION_LEN_def)
  from cluster_applies_transfer [OF this _ _ genesis_grown [OF lab_from_cell] _ lab_applied_one(1) lab_recordable, of "\<lambda>_ _. Reached None"]
  show ?thesis
    using lab_roots_apart by (simp add: capacity_def) blast
qed

text \<open>
  C6: Running validators converge: when every validator applies the same finalized transfers in an order of
  its own, all at once on threads that could be spawned and with their requests interleaved in any way, the
  controller's workers succeed and every validator ends with the one ledger that the sequential application of
  the transfers computes, durably and with its log in step; that the other orders are accepted too is proved.
  Or two consecutive ledgers of one of the orders, which differ, have state roots that are an explicit BLAKE3
  collision. The validators hold one ledger grown from g genesis cells by t transfers, within the proved
  capacity; they can be reached and their writes succeed, and each has room in its log for one record per
  transfer; the transfers spend cells of that ledger and are accepted in sequence; no intent and no
  certificate digest of them is the all-zero value, which the log refuses.
\<close>

theorem live_validators_converge:
  assumes "appliers C configs e s (length fts) [0..<length (w_nodes w)] w"
    and "length schedules = length (w_nodes w)"
    and "\<forall>i < length schedules. \<forall>ft \<in> set fts. net (apply_request ft) i = Reached None"
    and "\<forall>order \<in> set schedules. mset order = mset [0..<length fts]"
    and "grown C g t s" and "g + 9 * (t + length fts) \<le> capacity"
    and "\<forall>ft \<in> set fts. recordable C e ft"
    and "\<forall>ft \<in> set fts. live_cell s (cell_reference (tx_input (ft_tx ft))) \<noteq> None"
    and "apply_in_order C s fts [0..<length fts] (lab_committee C e) = Inr s'" and "\<forall>i < length schedules. spawns i"
  shows "(\<exists>order \<in> set schedules. roots_collide C e fts s order) \<or>
    (\<exists>w'. apply_bench_to_live_nodes C net spawns schedule fts schedules w = (Inr (), w') \<and>
      (\<forall>i < length schedules. applier C (configs i) s' 0 (w_nodes w' ! i)))"
proof (cases "\<exists>order \<in> set schedules. roots_collide C e fts s order")
  case False
  have "\<forall>ft \<in> set fts. cell_reference (tx_input (ft_tx ft)) |\<in>| fmdom (st_live s)"
    using assms(8) by (auto simp: live_cell_def intro: fmdomI)
  from workers_converge [OF assms(1-7) this assms(9,10) False] show ?thesis
    by blast
qed blast

lemma live_validators_converge_witness:
  "\<exists>w'. apply_bench_to_live_nodes lab_crypto (\<lambda>_ _. Reached None) (\<lambda>_. True) [3, 1, 1, 6] [lab_transfer 1] (replicate N [0]) (lab_world [1]) = (Inr (), w') \<and>
    list_all (\<lambda>i. ns_state (w_nodes w' ! i) = lab_applied 1 (lab_state [1])) [0..<N]"
proof -
  let ?s = "lab_state [1]" and ?w = "lab_world [1]"
  have len: "length (w_nodes ?w) = N"
    by (simp add: lab_world_def)
  have start: "appliers lab_crypto (cluster_configs OLD_EPOCH) OLD_EPOCH ?s (length [lab_transfer 1]) [0..<length (w_nodes ?w)] ?w"
    using lab_appliers [of "[1]"] unfolding len by (auto simp: appliers_def applier_def MAX_COLLECTION_LEN_def)
  have one: "apply_in_order lab_crypto ?s [lab_transfer 1] [0..<1] (lab_committee lab_crypto OLD_EPOCH) = Inr (lab_applied 1 ?s)"
    using lab_applied_one(1) by (auto simp: apply_in_order_def apply_transfer_iff)
  have "\<not> (\<exists>order \<in> set (replicate N [0]). roots_collide lab_crypto OLD_EPOCH [lab_transfer 1] ?s order)"
    using one lab_roots_apart by (auto simp: roots_collide_def apply_in_order_def)
  moreover have "grown lab_crypto 1 0 ?s"
    using genesis_grown [OF lab_from_cell] by simp
  moreover have "live_cell ?s (cell_reference (tx_input (ft_tx (lab_transfer 1)))) \<noteq> None"
    using lab_state_live [of 1 "[1]"] by (simp add: live_cell_def lab_transfer_def)
  ultimately show ?thesis
    using live_validators_converge [OF start, of "replicate N [0]" "\<lambda>_ _. Reached None" 1 0 "lab_applied 1 ?s" "\<lambda>_. True" "[3, 1, 1, 6]"]
      one len lab_recordable
    by (auto simp: applier_def list_all_iff capacity_def)
qed

text \<open>
  C7: The benchmark's client call returns. In every fair order of its threads (the main thread and each client
  step again and again; threads may be woken for no reason), whatever the validators answer, however the
  network fails and whichever threads the system refuses to spawn, no client is left asleep at the start gate
  and no join waits for ever: the main thread leaves the scope. It returns the spawn error of the first thread
  that could not be spawned; if there is none, it returns what the clients' requests give in one interleaving
  of them, joined in the order of the threads. And the model's finalize_bench_concurrently, in which the
  threads step in turn after a given beginning, always comes to such an end.
\<close>

theorem client_threads_end:
  assumes "fair_order (length transfers) \<sigma>"
  shows "\<exists>n r w'. gate_result (gate_run C net spawns message (finalize_programs C ports elapsed manifest transfers) (map \<sigma> [0..<n]) w) =
      Some (r, w') \<and>
    ((\<forall>k < length transfers. spawns k) \<and>
       (\<exists>schedule. join_crew C net schedule (finalize_programs C ports elapsed manifest transfers) w = (r, w')) \<or>
     (\<exists>k < length transfers. \<not> spawns k \<and> (\<forall>j < k. spawns j) \<and> r = Inl (RunFailed (message k)))) \<and>
    gate_result (gate_run C net spawns message (finalize_programs C ports elapsed manifest transfers)
      (events @ in_turn (length transfers)) w) \<noteq> None"
proof -
  let ?ps = "finalize_programs C ports elapsed manifest transfers"
  have ps: "\<forall>p \<in> set ?ps. bounded p" "fair_order (length ?ps) \<sigma>"
    using finalize_programs_end [of C ports elapsed manifest transfers] assms by (auto simp: bounded_def)
  obtain n r w' where n: "gate_result (gate_run C net spawns message ?ps (map \<sigma> [0..<n]) w) = Some (r, w')"
    by (rule gate_fair_returns [OF ps])
  moreover have "gate_result (gate_run C net spawns message ?ps (events @ in_turn (length ?ps)) w) \<noteq> None"
    by (rule gate_completes [OF finalize_programs_end, of C net spawns message C ports elapsed manifest transfers events w]) simp
  ultimately show ?thesis
    using gate_returns [OF ps(1) n] by (metis finalize_programs_length)
qed

lemma client_threads_end_witness:
  "(\<exists>n r w'. gate_result (gate_run lab_crypto (\<lambda>_ _. Unreachable) (\<lambda>_. True) decimal
      (finalize_programs lab_crypto N (\<lambda>_. 5) (lab_committee lab_crypto OLD_EPOCH) thread_transfers) (map thread_order [0..<n]) thread_world) =
      Some (r, w')) \<and>
    (\<exists>n w'. gate_result (gate_run lab_crypto (\<lambda>_ _. Unreachable) (\<lambda>k. k = 0) decimal
      (finalize_programs lab_crypto N (\<lambda>_. 5) (lab_committee lab_crypto OLD_EPOCH) thread_transfers) (map thread_order [0..<n]) thread_world) =
      Some (Inl (RunFailed (decimal 1)), w'))"
proof
  note ends = client_threads_end [OF thread_order_fair, of lab_crypto "\<lambda>_ _. Unreachable" _ decimal N "\<lambda>_. 5"
      "lab_committee lab_crypto OLD_EPOCH" thread_world "[]"]
  show "\<exists>n r w'. gate_result (gate_run lab_crypto (\<lambda>_ _. Unreachable) (\<lambda>_. True) decimal
      (finalize_programs lab_crypto N (\<lambda>_. 5) (lab_committee lab_crypto OLD_EPOCH) thread_transfers) (map thread_order [0..<n]) thread_world) =
      Some (r, w')"
    using ends [of "\<lambda>_. True"] by blast
  show "\<exists>n w'. gate_result (gate_run lab_crypto (\<lambda>_ _. Unreachable) (\<lambda>k. k = 0) decimal
      (finalize_programs lab_crypto N (\<lambda>_. 5) (lab_committee lab_crypto OLD_EPOCH) thread_transfers) (map thread_order [0..<n]) thread_world) =
      Some (Inl (RunFailed (decimal 1)), w')"
    using ends [of "\<lambda>k. k = 0"] by (auto simp: thread_transfers_def less_Suc_eq numeral_2_eq_2)
qed



text \<open>
  C9: Every run starts: for every configuration the controller accepts, when the log writes of the first start
  go through and one readiness request to each process arrives and is answered before the deadline (however
  many were lost before it), the genesis is built, has a value and fits a frame, the committee is valid, the
  preflight checks pass, and the seven processes answer with their identity and hold exactly the genesis,
  active, with no vote, lock or applied transfer; the measurements are untouched. Or two labels of the genesis
  cells are an explicit BLAKE3 collision. It is assumed that honest signatures verify and that the seven
  derived validator keys are distinct.
\<close>

theorem cluster_starts:
  assumes "parse_controller_args args = Inr config" and "signatures_verify C"
    and "inj_on (\<lambda>i. public_of C (lab_validator_key C OLD_EPOCH i)) {..<N}" and "starts_well env"
  shows "(\<exists>a \<in> set (fixture_labels (cc_bench_count config)). \<exists>b \<in> set (fixture_labels (cc_bench_count config)).
      collide C (genesis_preimage a) (genesis_preimage b)) \<or>
    (\<exists>fixture h gt bs ns. phase_setup C env (cc_bench_count config) \<lparr>w_nodes = [], w_metrics = metrics\<rparr> =
        (Inr (fixture, h, gt, bs), \<lparr>w_nodes = ns, w_metrics = metrics\<rparr>) \<and>
      total_value (fx_genesis fixture) = Inr gt \<and> length ns = N \<and>
      (\<forall>i < N. fresh_node C (env_config env OLD_EPOCH i) (fx_genesis fixture) (ns ! i)))"
proof -
  have "cc_bench_count config \<le> MAX_BENCH_COUNT"
    using assms(1) fold_option_ok [OF _ default_config_ok] by (auto simp: parse_controller_args_def parse_options_Inr_iff config_ok_def)
  then show ?thesis
    using setup_succeeds [OF assms(4) _ _ assms(2,3)] by (metis labels_collide_def)
qed

lemma cluster_starts_witness:
  "\<exists>fixture h gt bs ns. phase_setup lab_crypto lab_env DEFAULT_BENCH_COUNT \<lparr>w_nodes = [], w_metrics = new_metrics\<rparr> =
      (Inr (fixture, h, gt, bs), \<lparr>w_nodes = ns, w_metrics = new_metrics\<rparr>) \<and> length ns = N"
proof -
  have c: "parse_controller_args [] = Inr default_config" "cc_bench_count default_config = DEFAULT_BENCH_COUNT"
    by (simp_all add: parse_controller_args_def default_config_def)
  show ?thesis
    using cluster_starts [OF c(1) lab_signatures_verify lab_validator_keys_differ lab_starts_well, of new_metrics]
      lab_labels_apart [of DEFAULT_BENCH_COUNT] unfolding labels_collide_def c(2) by blast
qed

text \<open>
  C10: Whatever requests a validator has served, with or without failed writes and restarts in between, if its
  log is healthy and not full then killing it and starting it again on its log with the same genesis snapshot
  brings back exactly the state it had: same ledger, same votes, same locks, same keys; and the log is left as
  it was.
\<close>

theorem restart_restores_validator:
  assumes "open_node C io io' file content config = (Inr n0, file')" and "node_run C config n0 n"
    and "\<not> ws_poisoned (ns_store n)" and "has_room (ns_store n)"
  shows "open_node C None None (ws_file (ns_store n)) content config = (Inr n, ws_file (ns_store n))"
proof -
  have run: "synced C config n \<and> node_inv C config n" "rs_initial_snapshot (ws_state (ns_store n)) = rs_initial_snapshot (ws_state (ns_store n0))"
    using node_run_synced [OF assms(2) open_node_synced [OF assms(1)] open_node_inv [OF assms(1)]]
      node_run_initial [OF assms(2) open_node_inv [OF assms(1)]] by simp_all
  show ?thesis
    using run restart_restores_node [OF _ _ _ assms(3,4)] node_run_started [OF assms(1,2)] by blast
qed

lemma restart_restores_validator_witness:
  "\<exists>n. node_run lab_crypto (cluster_configs OLD_EPOCH 2) (lab_node [1] 2) n \<and> ns_store n \<noteq> ns_store (lab_node [1] 2) \<and>
    open_node lab_crypto None None (ws_file (ns_store n)) (lab_bytes [1]) (cluster_configs OLD_EPOCH 2) = (Inr n, ws_file (ns_store n))"
proof -
  obtain n where n: "node_run lab_crypto (cluster_configs OLD_EPOCH 2) (lab_node [1] 2) n" "ns_store n \<noteq> ns_store (lab_node [1] 2)"
    "\<not> ws_poisoned (ns_store n)" "has_room (ns_store n)"
    by (rule lab_prevoted)
  then show ?thesis
    using restart_restores_validator [OF lab_node_two(1) n(1,3,4)] by blast
qed

text \<open>
  C11: A validator's ledger holds the value of the genesis it first loaded in every state it can reach through
  requests, failed writes and restarts from its log, and it passes validate_state.
\<close>

theorem value_kept_by_validator:
  assumes "open_node C io io' file content config = (Inr n0, file')" and "node_run C config n0 n"
  shows "live_value (ns_state n) = live_value (ns_state n0) \<and> validate_state C (ns_state n) = Inr ()"
  using node_run_worth [OF assms(2) open_node_inv [OF assms(1)] open_node_worth [OF assms(1)]]
  by (simp add: node_worth_def validate_state_iff)

lemma value_kept_by_validator_witness:
  "\<exists>n. node_run lab_crypto (cluster_configs OLD_EPOCH 2) (lab_node [1] 2) n \<and> ns_store n \<noteq> ns_store (lab_node [1] 2) \<and>
    live_value (ns_state n) = live_value (lab_state [1])"
proof -
  obtain n where n: "node_run lab_crypto (cluster_configs OLD_EPOCH 2) (lab_node [1] 2) n" "ns_store n \<noteq> ns_store (lab_node [1] 2)"
    by (rule lab_prevoted)
  then show ?thesis
    using value_kept_by_validator [OF lab_node_two(1) n(1)] lab_node_two(2) by auto
qed

text \<open>
  C12: The exhaustive round-change explorer, run over all seven leader offsets, never meets two conflicting
  finalities and never fails to recover: it counts no violation and no recovery failure, needs at most three
  healed rounds, and exits with code 0.
\<close>

theorem explorer_finds_no_conflict:
  "explorer_exit_code = 0 \<and> sx_safety_violations (snd run_offsets) = 0 \<and>
    sx_recovery_failures (snd run_offsets) = 0 \<and> sx_max_recovery_rounds (snd run_offsets) \<le> 3"
  using run_offsets_sound
  by (simp add: explorer_exit_code_def Let_def sound_stats_def f3_boundary_witness_def CERT_Q_def)

text \<open>
  C13: Beyond the three rounds the program explores: in every state an adversary can reach in as many rounds
  as the certificate mask holds, a decision survives the next round whatever is delivered, and up to round
  five the healed network decides within three leaders, on the digest already decided if there is one.
\<close>

theorem decisions_are_final:
  assumes "reachable_round offset r st" and "unat r < 8"
  shows "(\<forall>d t s. es_finality st = Some d \<longrightarrow> t \<in> set (fst (expand_round st offset r s)) \<longrightarrow> es_finality t = Some d) \<and>
    (unat r \<le> 5 \<longrightarrow> (\<exists>d k. recover_after_gst st offset r = Some (d, k) \<and> k \<le> 3 \<and>
      (es_finality st = None \<or> es_finality st = Some d)))"
proof -
  note inv = reachable_round_inv [OF assms(1)]
  have "\<exists>d k. recover_after_gst st offset r = Some (d, k) \<and> k \<le> 3 \<and> (es_finality st = None \<or> es_finality st = Some d)"
    if "unat r \<le> 5"
    using recovers [OF inv that] by (metis option.exhaust)
  then show ?thesis
    using expand_round_good [OF inv assms(2)] by (auto simp: all_good_def successor_def)
qed

lemma decisions_are_final_witness:
  "\<exists>st d k. reachable_round 2 1 st \<and> recover_after_gst st 2 1 = Some (d, k) \<and> k \<le> 3"
proof -
  have "reachable_round 2 (0 + 1) genesis_rounds"
    by (rule reachable_round.advance [OF reachable_round.start _ expand_round_stays]) simp
  then have r: "reachable_round 2 1 genesis_rounds"
    by simp
  show ?thesis
    using r decisions_are_final [OF r] by auto
qed

text \<open>
  C14: An old committee with at most two faulty members certifies one hand-off per pair of epochs and input:
  whatever requests its members served, with failed writes and restarts in between, two certificates that
  verify for the same key carry the same hand-off, unless two of the hand-offs at hand (the two certified ones
  and those the members were asked to sign, the set asked) have the same BLAKE3 hash.
\<close>

theorem handoff_unicity:
  assumes "committee_start C OLD_WAL_MAGIC faulty S0" and "old_run C asked S0 S" and "card (faulty \<inter> {..<HANDOFF_N}) \<le> 2"
    and "verify_handoff_cert_any C a" and "shares_issued C faulty S a"
    and "verify_handoff_cert_any C b" and "shares_issued C faulty S b"
    and "choice_key_of (hc_handoff a) = choice_key_of (hc_handoff b)"
  shows "hc_handoff a = hc_handoff b \<or> handoffs_collide C (insert (hc_handoff a) (insert (hc_handoff b) asked))"
  by (rule handoffs_agree [OF assms])

lemma handoff_unicity_witness:
  "\<exists>S. old_run lab_crypto {lab_handoff} (fresh_committee lab_crypto OLD_WAL_MAGIC {5, 6}) S \<and> hs_signed S \<noteq> {} \<and>
    (hc_handoff lab_handoff_cert = hc_handoff (signed_handoff lab_crypto lab_handoff [2, 3, 4, 5, 6]) \<or>
      handoffs_collide lab_crypto {lab_handoff})"
proof -
  let ?b = "signed_handoff lab_crypto lab_handoff [2, 3, 4, 5, 6]"
  obtain S where S: "old_run lab_crypto {lab_handoff} (fresh_committee lab_crypto OLD_WAL_MAGIC {5, 6}) S"
    "shares_issued lab_crypto {5, 6} S lab_handoff_cert"
    using old_run_signs [of "[0, 1, 2, 3, 4]" lab_handoff lab_crypto "{5, 6}"] lab_handoff_status
    unfolding lab_handoff_cert_def by (auto simp: HANDOFF_N_def)
  have b: "verify_handoff_cert_any lab_crypto ?b"
    by (rule signed_handoff_verifies [OF lab_signatures_verify]) (auto simp: HANDOFF_N_def HANDOFF_Q_def lab_handoff_status)
  have issued: "shares_issued lab_crypto {5, 6} S ?b"
    using S(2) by (auto simp: shares_issued_def lab_handoff_cert_def signed_handoff_def)
  have few: "card ({5, 6} \<inter> {..<HANDOFF_N}) \<le> 2"
    by (simp add: HANDOFF_N_def)
  have key: "choice_key_of (hc_handoff lab_handoff_cert) = choice_key_of (hc_handoff ?b)"
    by (simp add: lab_handoff_cert(4) signed_handoff_def)
  have "hc_handoff ?b = lab_handoff"
    by (simp add: signed_handoff_def)
  with handoff_unicity [OF fresh_committee_start S(1) few lab_handoff_cert(1) S(2) b issued key]
  have "hc_handoff lab_handoff_cert = hc_handoff ?b \<or> handoffs_collide lab_crypto {lab_handoff}"
    by (simp add: lab_handoff_cert(4))
  moreover have "hs_signed S \<noteq> {}"
    using S(2) by (auto simp: shares_issued_def lab_handoff_cert_def signed_handoff_def)
  ultimately show ?thesis
    using S(1) by blast
qed

text \<open>
  C15: Monetary unicity across a rotation, with no member in both committees: once an input's state is
  certified by the old committee, a correct member of the new committee votes for it only if the state is
  locked and only for the inherited digest; a finalized input is never voted for again. The old committee has
  at most two faulty members, the new committee any number; the new members are shown only certificates (the
  set shown) whose correct signers issued them; and no two of the hand-offs at hand (the certified one, those
  shown, and those the old members were asked to sign) have the same BLAKE3 hash, or else such a pair exists
  among them.
\<close>

theorem inherited_state_binds:
  assumes old: "committee_start C OLD_WAL_MAGIC old_faulty A0" "old_run C asked A0 A" "card (old_faulty \<inter> {..<HANDOFF_N}) \<le> 2"
    and new: "committee_start C NEW_WAL_MAGIC new_faulty B0" "new_run C (\<lambda>c. c \<in> shown) B0 B"
    and genuine: "\<forall>c \<in> shown. shares_issued C old_faulty A c"
    and cert: "verify_handoff_cert_for_new_epoch C cert" "shares_issued C old_faulty A cert"
    and vote: "i < HANDOFF_N" "i \<notin> new_faulty" "(i, new_vote_message (ho_input (hc_handoff cert)) d i) \<in> hs_signed B"
  shows "ho_status (hc_handoff cert) = STATUS_LOCKED \<and> d = ho_digest (hc_handoff cert) \<or>
    handoffs_collide C (insert (hc_handoff cert) (hc_handoff ` shown \<union> asked))"
proof -
  obtain c where c: "c \<in> shown" "verify_handoff_cert_for_new_epoch C c"
    "ho_status (hc_handoff c) = STATUS_LOCKED" "ho_input (hc_handoff c) = ho_input (hc_handoff cert)"
    "ho_digest (hc_handoff c) = d"
    using new_vote_justified [OF new vote] by metis
  have "hc_handoff cert = hc_handoff c \<or> handoffs_collide C (insert (hc_handoff cert) (insert (hc_handoff c) asked))"
    by (rule handoffs_agree [OF old _ cert(2)])
      (use cert(1) c(1,2,4) genuine in \<open>simp_all add: verify_handoff_cert_for_new_epoch_def choice_key_of_def\<close>)
  then show ?thesis
  proof
    assume "handoffs_collide C (insert (hc_handoff cert) (insert (hc_handoff c) asked))"
    then have "handoffs_collide C (insert (hc_handoff cert) (hc_handoff ` shown \<union> asked))"
      by (rule handoffs_collide_mono) (use c(1) in auto)
    then show ?thesis ..
  qed (use c(3,5) in simp)
qed

lemma inherited_state_binds_witness:
  "\<exists>A B. old_run lab_crypto {lab_handoff} (fresh_committee lab_crypto OLD_WAL_MAGIC {5, 6}) A \<and>
    new_run lab_crypto (\<lambda>c. c \<in> {lab_handoff_cert}) (fresh_committee lab_crypto NEW_WAL_MAGIC {0}) B \<and>
    (3, new_vote_message (ho_input lab_handoff) (ho_digest lab_handoff) 3) \<in> hs_signed B \<and>
    (ho_status lab_handoff = STATUS_LOCKED \<and> ho_digest lab_handoff = ho_digest lab_handoff \<or> handoffs_collide lab_crypto {lab_handoff})"
proof -
  obtain A where A: "old_run lab_crypto {lab_handoff} (fresh_committee lab_crypto OLD_WAL_MAGIC {5, 6}) A"
    "shares_issued lab_crypto {5, 6} A lab_handoff_cert"
    using old_run_signs [of "[0, 1, 2, 3, 4]" lab_handoff lab_crypto "{5, 6}"] lab_handoff_status
    unfolding lab_handoff_cert_def by (auto simp: HANDOFF_N_def)
  obtain B where B: "new_run lab_crypto (\<lambda>c. c \<in> {lab_handoff_cert}) (fresh_committee lab_crypto NEW_WAL_MAGIC {0}) B"
    "\<And>i. i \<in> set [1, 2, 3, 4, 5] \<Longrightarrow> (i, new_vote_message (ho_input lab_handoff) (ho_digest lab_handoff) i) \<in> hs_signed B"
    using new_run_votes [where members = "[1, 2, 3, 4, 5]" and P = "\<lambda>c. c \<in> {lab_handoff_cert}" and faulty = "{0}",
        OF lab_signatures_verify _ _ _ singletonI lab_handoff_cert(2,3)] lab_handoff_cert(4) lab_handoff_status
    by (auto simp: HANDOFF_N_def HANDOFF_Q_def)
  have "ho_status lab_handoff = STATUS_LOCKED \<and> ho_digest lab_handoff = ho_digest lab_handoff \<or> handoffs_collide lab_crypto {lab_handoff}"
    using inherited_state_binds [where i = 3 and d = "ho_digest lab_handoff" and shown = "{lab_handoff_cert}", OF fresh_committee_start A(1) _
        fresh_committee_start B(1) _ lab_handoff_cert(2) A(2)] B(2) [of 3] A(2) lab_handoff_cert(4)
    by (auto simp: HANDOFF_N_def)
  then show ?thesis
    using A(1) B by auto
qed

text \<open>
  C16: The new committee alone never gives two quorums for one input: with at most two faulty new members, two
  sets of five votes for the same input name the same digest, whatever certificates the members were shown and
  however often they were killed and restarted, unless two of the verified hand-offs of that very input they
  were shown (the set shown) have the same BLAKE3 hash.
\<close>

theorem rotation_unicity:
  assumes start: "committee_start C NEW_WAL_MAGIC faulty S0" and run: "new_run C (\<lambda>c. c \<in> shown) S0 S"
    and few: "card (faulty \<inter> {..<HANDOFF_N}) \<le> 2"
    and a: "HANDOFF_Q \<le> card A" "new_votes_issued C faulty S x d A"
    and b: "HANDOFF_Q \<le> card B" "new_votes_issued C faulty S x e B"
  shows "d = e \<or> handoffs_collide C (shown_handoffs C shown x)"
proof -
  have "A \<subseteq> {..<HANDOFF_N}" "B \<subseteq> {..<HANDOFF_N}"
    using a(2) b(2) by (auto simp: new_votes_issued_def verify_new_vote_def)
  moreover have "HANDOFF_N + card (faulty \<inter> {..<HANDOFF_N}) < card A + card B"
    using a(1) b(1) few by (simp add: HANDOFF_N_def HANDOFF_Q_def)
  ultimately obtain i where i: "i \<in> A" "i \<in> B" "i < HANDOFF_N" "i \<notin> faulty"
    by (rule quorum_honest)
  have "(i, new_vote_message x d i) \<in> hs_signed S" "(i, new_vote_message x e i) \<in> hs_signed S"
    using a(2) b(2) i by (auto simp: new_votes_issued_def)
  then show ?thesis
    using new_votes_of_one_member [OF start run i(3,4)] by blast
qed

lemma rotation_unicity_witness:
  "\<exists>S. new_run lab_crypto (\<lambda>c. c \<in> {lab_handoff_cert}) (fresh_committee lab_crypto NEW_WAL_MAGIC {0, 6}) S \<and>
    new_votes_issued lab_crypto {0, 6} S (ho_input lab_handoff) (ho_digest lab_handoff) {1, 2, 3, 4, 5} \<and>
    (ho_digest lab_handoff = ho_digest lab_handoff \<or>
      handoffs_collide lab_crypto (shown_handoffs lab_crypto {lab_handoff_cert} (ho_input lab_handoff)))"
proof -
  obtain S where S: "new_run lab_crypto (\<lambda>c. c \<in> {lab_handoff_cert}) (fresh_committee lab_crypto NEW_WAL_MAGIC {0, 6}) S"
    "\<And>i. i \<in> set [1, 2, 3, 4, 5] \<Longrightarrow> (i, new_vote_message (ho_input lab_handoff) (ho_digest lab_handoff) i) \<in> hs_signed S"
    using new_run_votes [where members = "[1, 2, 3, 4, 5]" and P = "\<lambda>c. c \<in> {lab_handoff_cert}" and faulty = "{0, 6}",
        OF lab_signatures_verify _ _ _ singletonI lab_handoff_cert(2,3)] lab_handoff_cert(4) lab_handoff_status
    by (auto simp: HANDOFF_N_def HANDOFF_Q_def)
  have votes: "new_votes_issued lab_crypto {0, 6} S (ho_input lab_handoff) (ho_digest lab_handoff) {1, 2, 3, 4, 5}"
    unfolding new_votes_issued_def
  proof
    show "\<exists>v. nv_index v = i \<and> verify_new_vote lab_crypto v (ho_input lab_handoff) (ho_digest lab_handoff) \<and>
        (i \<notin> {0, 6} \<longrightarrow> (i, new_vote_message (ho_input lab_handoff) (ho_digest lab_handoff) i) \<in> hs_signed S)"
      if "i \<in> {1, 2, 3, 4, 5}" for i
      using S(2) [of i] lab_new_vote [of i "ho_input lab_handoff" "ho_digest lab_handoff"] that by (auto simp: HANDOFF_N_def)
  qed
  have "ho_digest lab_handoff = ho_digest lab_handoff \<or> handoffs_collide lab_crypto (shown_handoffs lab_crypto {lab_handoff_cert} (ho_input lab_handoff))"
    by (rule rotation_unicity [OF fresh_committee_start S(1) _ _ votes _ votes]) (simp_all add: HANDOFF_N_def HANDOFF_Q_def)
  then show ?thesis
    using S(1) votes by blast
qed

text \<open>
  C17: A hand-off completes: when at least five old and five new members are up, have chosen nothing else for
  the key and the network delivers, the collectors return a certificate and an activation that verify, and
  every asked new member then votes for the inherited digest of a locked input.
\<close>

theorem handoff_completes:
  assumes sigs: "signatures_verify C" and order: "\<And>xs. mset (order xs) = mset xs" "\<And>xs. mset (order' xs) = mset xs"
    and old: "distinct olds" "HANDOFF_Q \<le> length olds" "\<And>i. i \<in> set olds \<Longrightarrow> i < length old_nodes \<and> ready C h i (old_nodes ! i)"
    and new: "distinct news" "HANDOFF_Q \<le> length news" "\<And>i. i \<in> set news \<Longrightarrow> i < length new_nodes \<and> ready C h i (new_nodes ! i)"
    and h: "ho_status h = STATUS_LOCKED" "ho_from_epoch h = EPOCH_OLD" "ho_to_epoch h = EPOCH_NEW"
  shows "\<exists>cert old_nodes' act new_nodes' new_nodes''.
    collect_old C order h (ask_members olds) old_nodes = Some (cert, old_nodes') \<and> verify_handoff_cert_for_new_epoch C cert \<and>
    collect_activation C order' cert (ask_members news) new_nodes = Some (act, new_nodes') \<and> verify_activation_cert C act cert \<and>
    count_new_votes C cert act (ho_digest h) (ask_members news) new_nodes' = Some (length news, new_nodes'')"
proof -
  have status: "ho_status h = STATUS_LOCKED \<or> ho_status h = STATUS_FINAL"
    using h(1) by simp
  obtain cert old_nodes' where cert: "collect_old C order h (ask_members olds) old_nodes = Some (cert, old_nodes')" "hc_handoff cert = h"
    "os_index ` set (hc_shares cert) = set olds" "list_all (verify_old_share C h) (hc_shares cert)" "sendable_cert cert"
    using collect_old_ready [OF sigs order(1) old(1,3) status] by blast
  have ok: "verify_handoff_cert_for_new_epoch C cert"
    using cert(2-4) h status old(1,2) by (simp add: verify_handoff_cert_for_new_epoch_def verify_handoff_cert_any_def distinct_card)
  obtain act new_nodes' where act: "collect_activation C order' cert (ask_members news) new_nodes = Some (act, new_nodes')"
    "act_handoff_hash act = handoff_hash C h" "as_index ` set (act_shares act) = set news"
    "list_all (verify_activation_share C (act_handoff_hash act)) (act_shares act)" "sendable_activation act"
    "length new_nodes' = length new_nodes" "\<And>i. i \<in> set news \<Longrightarrow> chosen C h i (new_nodes' ! i)"
    using collect_activation_ready [OF sigs order(2) new(1) _ ok cert(5), unfolded cert(2), OF new(3)] by blast
  have act_ok: "verify_activation_cert C act cert"
    using act(2-4) ok cert(2) new(1,2) by (simp add: verify_activation_cert_def distinct_card)
  have "\<exists>new_nodes''. count_new_votes C cert act (ho_digest h) (ask_members news) new_nodes' = Some (length news, new_nodes'')"
    by (rule count_votes_ready [OF sigs new(1) _ act_ok cert(5) act(5)]) (use new(3) act(6,7) cert(2) h(1) in simp_all)
  then show ?thesis
    using cert(1) ok act(1) act_ok by blast
qed

lemma handoff_completes_witness:
  "\<exists>cert old_nodes act new_nodes new_nodes'.
    collect_old lab_crypto rev lab_handoff (ask_members [4, 3, 2, 1, 0]) (hs_nodes (fresh_committee lab_crypto OLD_WAL_MAGIC {1})) = Some (cert, old_nodes) \<and>
    collect_activation lab_crypto rev cert (ask_members [2, 3, 4, 5, 6]) (hs_nodes (fresh_committee lab_crypto NEW_WAL_MAGIC {})) = Some (act, new_nodes) \<and>
    count_new_votes lab_crypto cert act (ho_digest lab_handoff) (ask_members [2, 3, 4, 5, 6]) new_nodes = Some (5, new_nodes')"
proof -
  have members: "i < length (hs_nodes (fresh_committee lab_crypto magic faulty)) \<and>
      ready lab_crypto lab_handoff i (hs_nodes (fresh_committee lab_crypto magic faulty) ! i)"
    if "i \<in> {0, 1, 2, 3, 4, 5, 6}" for i magic faulty
    using that fresh_ready [of i] by (auto simp: HANDOFF_N_def)
  have "\<exists>cert old_nodes act new_nodes new_nodes'.
    collect_old lab_crypto rev lab_handoff (ask_members [4, 3, 2, 1, 0]) (hs_nodes (fresh_committee lab_crypto OLD_WAL_MAGIC {1})) = Some (cert, old_nodes) \<and>
    verify_handoff_cert_for_new_epoch lab_crypto cert \<and>
    collect_activation lab_crypto rev cert (ask_members [2, 3, 4, 5, 6]) (hs_nodes (fresh_committee lab_crypto NEW_WAL_MAGIC {})) = Some (act, new_nodes) \<and>
    verify_activation_cert lab_crypto act cert \<and>
    count_new_votes lab_crypto cert act (ho_digest lab_handoff) (ask_members [2, 3, 4, 5, 6]) new_nodes = Some (length [2 :: nat, 3, 4, 5, 6], new_nodes')"
    by (rule handoff_completes [OF lab_signatures_verify])
      (use members lab_handoff_status lab_handoff_epochs in \<open>auto simp: HANDOFF_Q_def\<close>)
  then show ?thesis
    by auto
qed

text \<open>
  C18: One history over any number of committee rotations: when every committee has at most two faulty
  members, whatever requests arrive, with failed writes and restarts in between (restarts of the first
  committee only before it has handed over), two finality certificates for the same generation of the state
  are the same finality of the same epoch, and a finality of the next generation spends exactly the state the
  previous one produced, in whichever committees they were made. The generation counter is assumed not to
  wrap, and a committee is shown only hand-off certificates whose correct signers signed them.
\<close>

theorem lineage_unicity:
  assumes "lineage_histories C faulty S n" and "n < 2 ^ 64" and "j \<le> n" and "k \<le> n"
    and "final_of C (lineage_epoch j) (faulty j) (S j) a" and "final_of C (lineage_epoch k) (faulty k) (S k) b"
  shows "(sr_generation (fin_from (fc_finality b)) = sr_generation (fin_from (fc_finality a)) \<longrightarrow> fc_finality b = fc_finality a) \<and>
    (sr_generation (fin_from (fc_finality b)) = sr_generation (fin_from (fc_finality a)) + 1 \<longrightarrow>
      fin_from (fc_finality b) = successor_state (fc_finality a))"
  using one_history [OF assms(1,2,5,3,6,4)] by blast

lemma lineage_unicity_witness:
  "\<exists>S a b. lineage_histories lineage_crypto (\<lambda>_. {}) S 1 \<and> final_of lineage_crypto EPOCH_30 {} (S 0) a \<and>
    final_of lineage_crypto EPOCH_31 {} (S 1) b \<and> fin_from (fc_finality b) = successor_state (fc_finality a)"
proof -
  let ?C = lineage_crypto
  obtain a h b where C: "lab_certificates ?C = (a, h, b)"
    by (cases "lab_certificates ?C") auto
  obtain T S0 where S0: "lineage_run ?C EPOCH_30 (\<lambda>_. False) (fresh_lineage ?C EPOCH_30) T" "lineage_run ?C EPOCH_30 (\<lambda>_. False) T S0"
    "final_of ?C EPOCH_30 {} S0 a" "rotation_of ?C EPOCH_30 {} S0 h"
    by (rule lab_first_committee [OF lineage_crypto_verifies C])
  obtain S1 where S1: "lineage_run ?C EPOCH_31 (rotation_of ?C EPOCH_30 {} S0) (fresh_lineage ?C EPOCH_31) S1" "final_of ?C EPOCH_31 {} S1 b"
    by (rule lab_second_committee [OF lineage_crypto_verifies C, of "rotation_of ?C EPOCH_30 {} S0", OF S0(4)])
  let ?S = "\<lambda>k. if k = 0 then S0 else S1"
  have epochs: "lineage_epoch 0 = EPOCH_30" "lineage_epoch 1 = EPOCH_31" "lineage_epoch (Suc 0) = EPOCH_31"
    by (simp_all add: lineage_epoch_def EPOCH_30_def EPOCH_31_def)
  have P: "certified_before ?C (\<lambda>_. {}) ?S 0 = (\<lambda>_. False)" "certified_before ?C (\<lambda>_. {}) ?S (Suc 0) = rotation_of ?C EPOCH_30 {} S0"
    by (simp_all add: fun_eq_iff certified_before_def epochs)
  have hist: "lineage_histories ?C (\<lambda>_. {}) ?S 1"
    using fresh_lineage_start S1(1) rtranclp_trans [OF S0(1,2)]
    by (auto simp: lineage_histories_def lineage_history_def le_Suc_eq P epochs few_faulty_def)
  have next_one: "sr_generation (fin_from (fc_finality b)) = sr_generation (fin_from (fc_finality a)) + 1"
    using C first_generations(3) by (auto simp: lab_certificates_def)
  have "fin_from (fc_finality b) = successor_state (fc_finality a)"
    using lineage_unicity [OF hist, of 0 1 a b] S0(3) S1(2) next_one by (simp add: epochs)
  then show ?thesis
    using hist S0(3) S1(2) by (intro exI [of _ ?S] exI [of _ a] exI [of _ b]) simp
qed

text \<open>
  C19: A committee that has handed its state over cannot answer a new freshness challenge. Once the correct
  signers of a verified hand-off certificate of epoch e have signed it, whatever requests, failed writes and
  restarts follow, the shares correct members have signed never complete a freshness certificate that verifies
  for a challenge no correct member had signed before, whatever state it names. Hypotheses: at most two of the
  seven members are faulty; the hand-off certificates shown to the committee that verify for its epoch all
  carry one hand-off of this coin (none for the first committee); no request names the generation 2^64 - 1;
  and a member of the first committee (epoch 30) restarts only while its log holds no hand-off - a later
  restart revives the genesis state and its answers (restart_revives_genesis). Members of later committees
  restart at any time. Witness: epoch 31 hands over with five shares, and the two members that still hold the
  state then sign the challenge.
\<close>

theorem retired_committee_silent:
  assumes start: "lineage_start C e faulty S0" and run: "lineage_run C e P S0 S" and few: "few_faulty faulty"
    and origin: "legal_origin e P origin" and cert: "rotation_of C e faulty S cert" and later: "lineage_run C e P S S'"
    and new: "\<forall>i. i \<notin> faulty \<longrightarrow> (i, freshness_message e (fr_state c) (fr_nonce c) i) \<notin> mb_signed S"
    and c: "fr_epoch c = e" "issued faulty S' (freshness_message e (fr_state c) (fr_nonce c)) (fr_shares c)"
  shows "\<not> verify_fresh_cert C c"
proof
  assume "verify_fresh_cert C c"
  then have quorum: "lineage_quorum (member_signed C e (freshness_message e (fr_state c) (fr_nonce c))) (fr_shares c)"
    using fresh_cert_quorum c(1) by fastforce
  obtain i where i: "i < LINEAGE_N" "i \<notin> faulty" "(i, rotation_share_message (rc_handoff cert) i) \<in> mb_signed S"
    "(i, freshness_message e (fr_state c) (fr_nonce c) i) \<in> mb_signed S'"
    using quorums_meet [OF _ _ quorum c(2) few] rotation_ofD [OF cert] by metis
  have "signed_by S' i = signed_by S i"
    by (rule signer_retired [OF start run origin i(1-3) later])
  then show False
    using i(2,4) new by (auto simp: signed_by_def)
qed

lemma retired_committee_silent_witness:
  "\<exists>S S' P. lineage_run lineage_crypto EPOCH_31 P (fresh_lineage lineage_crypto EPOCH_31) S \<and>
    rotation_of lineage_crypto EPOCH_31 {} S (lab_rotation_cert lineage_crypto) \<and> lineage_run lineage_crypto EPOCH_31 P S S' \<and> S \<noteq> S' \<and>
    issued {} S' (freshness_message EPOCH_31 (second_state lineage_crypto) (fresh_nonce lineage_crypto)) (fr_shares (lab_late_answers lineage_crypto)) \<and>
    length (fr_shares (lab_late_answers lineage_crypto)) = 2 \<and> \<not> verify_fresh_cert lineage_crypto (lab_late_answers lineage_crypto)"
proof -
  let ?C = lineage_crypto
  let ?m = "\<lambda>i. freshness_message EPOCH_31 (second_state ?C) (fresh_nonce ?C) i"
  obtain a h b where C: "lab_certificates ?C = (a, h, b)"
    by (cases "lab_certificates ?C") auto
  let ?P = "\<lambda>cert. cert = h"
  obtain T where T: "lineage_run ?C EPOCH_31 ?P (fresh_lineage ?C EPOCH_31) T" "committee_at ?C EPOCH_31 {} (\<lambda>_. holding_view ?C) (mb_nodes T)"
    "\<And>m. m \<in> mb_signed T \<Longrightarrow> \<exists>i. m = (i, final_share_message (second_transfer ?C) i) \<or>
      m = (i, epoch_activation_message EPOCH_31 (rotation_hash ?C (first_handoff ?C)) i)"
    by (rule lab_second_committee [OF lineage_crypto_verifies C, of ?P]) auto
  obtain S where S: "lineage_run ?C EPOCH_31 ?P T S" "rotation_of ?C EPOCH_31 {} S (lab_rotation_cert ?C)"
    "mb_signed S = mb_signed T \<union> (\<lambda>i. (i, rotation_share_message (second_handoff ?C) i)) ` {..<5}"
    "committee_at ?C EPOCH_31 {} (\<lambda>i. if i < 5 then after_handoff ?C (second_handoff ?C) (holding_view ?C) else holding_view ?C) (mb_nodes S)"
    by (rule lab_second_handoff [OF lineage_crypto_verifies T(2)])
  obtain S' where S': "lineage_run ?C EPOCH_31 ?P S S'" "issued {} S' ?m (fr_shares (lab_late_answers ?C))"
    by (rule lab_late_challenge [OF S(4)])
  have unsigned: "(i, ?m i) \<notin> mb_signed S" for i
    unfolding S(3) by (auto dest!: T(3) simp: lineage_messages_differ [THEN not_sym])
  have run: "lineage_run ?C EPOCH_31 ?P (fresh_lineage ?C EPOCH_31) S"
    using rtranclp_trans [OF T(1) S(1)] .
  have "rc_handoff h = first_handoff ?C"
    using C by (auto simp: lab_certificates_def)
  then have origin: "legal_origin EPOCH_31 ?P (Some (first_handoff ?C))"
    by (simp add: legal_origin_def brings_def scenario_states)
  have few: "few_faulty {}"
    by (simp add: few_faulty_def)
  have fields: "fr_epoch (lab_late_answers ?C) = EPOCH_31" "fr_state (lab_late_answers ?C) = second_state ?C"
    "fr_nonce (lab_late_answers ?C) = fresh_nonce ?C" "length (fr_shares (lab_late_answers ?C)) = 2"
    by (simp_all add: lab_late_answers_def)
  have "\<not> verify_fresh_cert ?C (lab_late_answers ?C)"
    by (rule retired_committee_silent [OF fresh_lineage_start run few origin S(2) S'(1)]) (use unsigned S'(2) in \<open>simp_all add: fields\<close>)
  moreover have "(5, ?m 5) \<in> mb_signed S'"
    using S'(2) by (simp add: issued_def lab_late_answers_def share_of_def)
  then have "S \<noteq> S'"
    using unsigned by blast
  ultimately show ?thesis
    using run S(2) S' fields(4) by blast
qed

text \<open>
  C20: The whole long-range experiment is a theorem: when the network delivers and the signature scheme
  verifies its own signatures and does not let a signature on one nonce pass for another, the controller
  reaches its end for every iteration order of its hash maps: the three committees carry the state through two
  rotations, the stale prefix is valid as a history, exactly four of the seven retired members (two of them
  faulty) answer the fresh challenge, the replayed certificate and the restarted signer are refused, and the
  current committee answers.
\<close>

theorem lineage_experiment_passes:
  assumes "signatures_verify C" and "fine_env env" and "replay_refused C"
  shows "lineage_controller C env = Inr 4"
  by (rule lineage_controller_ready [OF assms])

lemma lineage_experiment_passes_witness:
  "lineage_controller lineage_crypto
    \<lparr>le_order = (\<lambda>k. rev), le_net = (\<lambda>k i. fine_link), le_log = (\<lambda>e i. None), le_ready = (\<lambda>e i. True)\<rparr> = Inr 4"
  by (rule lineage_experiment_passes [OF lineage_crypto_verifies _ lineage_crypto_replay]) (simp add: fine_env_def)

text \<open>
  C21: The log is the member: after any run of a later committee (epoch other than 30), with any requests,
  failed writes and restarts in between, a correct member that is running has a log that replays to exactly
  the fields it has in memory, so that killing and restarting it gives the same member back. Hypotheses on the
  requests: none names the generation 2^64 - 1 (the counter would wrap), and the hand-off certificates that
  verify for the committee's epoch all carry one hand-off of this coin. Witness: a member of epoch 31 that has
  activated on the first committee's certificate and finalized a transfer, so that its log and memory are not
  empty.
\<close>

theorem restart_restores_member:
  assumes "lineage_start C e faulty S0" and "lineage_run C e P S0 S" and "brings P origin" and "e \<noteq> EPOCH_30"
    and "i < LINEAGE_N" and "i \<notin> faulty" and "ln_up (mb_nodes S ! i)"
  shows "restart_member C io (mb_nodes S ! i) = mb_nodes S ! i"
proof -
  have inv: "lineage_inv C e origin i (mb_nodes S ! i) (signed_by S i)"
    by (rule honest_member [OF assms(1-3) _ assms(5,6)]) (use assms(4) in simp)
  obtain st where "ln_store (mb_nodes S ! i) = Some st" "ls_epoch st = e" "running_store C st"
    by (rule lineage_inv_store [OF inv assms(7)]) blast
  then have "member_at C e i (ls_view st) (mb_nodes S ! i)"
    using inv assms(5,7) by (auto simp: member_at_def lineage_inv_def)
  then show ?thesis
    by (rule restart_running [OF _ assms(4)])
qed

lemma restart_restores_member_witness:
  "\<exists>S P. lineage_run lineage_crypto EPOCH_31 P (fresh_lineage lineage_crypto EPOCH_31) S \<and>
    member_at lineage_crypto EPOCH_31 2 (holding_view lineage_crypto) (mb_nodes S ! 2) \<and> holding_view lineage_crypto \<noteq> empty_view \<and>
    mb_nodes (fresh_lineage lineage_crypto EPOCH_31) ! 2 \<noteq> mb_nodes S ! 2 \<and>
    restart_member lineage_crypto (Some 3) (mb_nodes S ! 2) = mb_nodes S ! 2"
proof -
  let ?C = lineage_crypto
  obtain a h b where C: "lab_certificates ?C = (a, h, b)"
    by (cases "lab_certificates ?C") auto
  let ?P = "\<lambda>cert. cert = h"
  obtain S where S: "lineage_run ?C EPOCH_31 ?P (fresh_lineage ?C EPOCH_31) S" "committee_at ?C EPOCH_31 {} (\<lambda>_. holding_view ?C) (mb_nodes S)"
    by (rule lab_second_committee [OF lineage_crypto_verifies C, of ?P]) auto
  have "rc_handoff h = first_handoff ?C"
    using C by (auto simp: lab_certificates_def)
  then have origin: "brings ?P (Some (first_handoff ?C))"
    by (simp add: brings_def scenario_states)
  have at: "member_at ?C EPOCH_31 2 (holding_view ?C) (mb_nodes S ! 2)"
    using S(2) by (simp add: committee_at_def LINEAGE_N_def)
  have fresh: "member_at ?C EPOCH_31 2 (first_view ?C EPOCH_31) (mb_nodes (fresh_lineage ?C EPOCH_31) ! 2)"
    using fresh_members_at [of ?C EPOCH_31] by (simp add: committee_at_def fresh_lineage_def LINEAGE_N_def)
  have view: "holding_view ?C \<noteq> empty_view"
    using holding_view_fields(1) [of ?C] by (auto simp: empty_view_def)
  have "mb_nodes (fresh_lineage ?C EPOCH_31) ! 2 \<noteq> mb_nodes S ! 2"
    using at fresh view by (auto simp: member_at_def first_view_fields(5) scenario_states)
  moreover have "restart_member ?C (Some 3) (mb_nodes S ! 2) = mb_nodes S ! 2"
    by (rule restart_restores_member [OF fresh_lineage_start S(1) origin]) (use at in \<open>simp_all add: scenario_states LINEAGE_N_def member_at_def\<close>)
  ultimately show ?thesis
    using S(1) at view by blast
qed

text \<open>
  C22: A restart undoes the retirement of the first committee, without a faulty member: after all seven
  members of epoch 30 have certified the hand-off of the genesis state and restarted, they finalize a
  successor of that state of the caller's choice, while epoch 31, activated by the same certificate, finalizes
  another; both certificates verify. (The start of a process of epoch 30 installs the genesis state whenever
  the replayed log holds no active state, which is also what a retirement leaves.)
\<close>

theorem restart_revives_genesis:
  assumes "signatures_verify C"
  shows "\<exists>hc c0 a c0' ac c1 b c1'.
    collect_rotation C rev (genesis_handoff C) (ask_members [0, 1, 2, 3, 4, 5, 6]) (fresh_members C EPOCH_30) = Some (hc, c0) \<and>
    verify_rotation_cert C hc \<and>
    collect_final C rev (genesis_spend C EPOCH_30 d) (ask_members [0, 1, 2, 3, 4, 5, 6]) (map (restart_member C None) c0) = Some (a, c0') \<and>
    fc_finality a = genesis_spend C EPOCH_30 d \<and> verify_final_cert C a \<and>
    collect_epoch_activation C rev hc (ask_members [0, 1, 2, 3, 4, 5, 6]) (fresh_members C EPOCH_31) = Some (ac, c1) \<and>
    verify_rotation_activation C ac hc \<and>
    collect_final C rev (genesis_spend C EPOCH_31 d') (ask_members [0, 1, 2, 3, 4, 5, 6]) c1 = Some (b, c1') \<and>
    fc_finality b = genesis_spend C EPOCH_31 d' \<and> verify_final_cert C b"
  by (rule revived_genesis [OF assms]) simp

lemma restart_revives_genesis_witness:
  "\<exists>a b. verify_final_cert lineage_crypto a \<and> verify_final_cert lineage_crypto b \<and>
    fc_finality a = genesis_spend lineage_crypto EPOCH_30 zero_array \<and>
    fc_finality b = genesis_spend lineage_crypto EPOCH_31 (repeat_array 1)"
  using restart_revives_genesis [OF lineage_crypto_verifies, of zero_array "repeat_array 1"] by blast

text \<open>
  C23: Capacity: a ledger that starts from g genesis cells and applies t transfers, whatever they are, encodes
  within the one-mebibyte frame and reads back as itself as long as g + 9t is at most 2048, the collection
  limit of the format; the largest run the controller accepts has g = 132 and t = 129.
\<close>

theorem ledger_always_fits:
  assumes "from_cells C cells = Inr s0" and "apply_in_order C s0 fts order m = Inr s" and "length cells + 9 * length order \<le> 2048"
  shows "\<exists>bs. encode_state s = Inr bs \<and> decode_state bs = Inr s \<and> length bs \<le> MAX_FRAME_LEN"
  using grown_encodes [OF apply_in_order_grown [OF assms(2) genesis_grown [OF assms(1)]]] assms(3)
  by (metis capacity_def add_0)

lemma ledger_always_fits_witness:
  "\<exists>bs. encode_state (lab_applied 2 (lab_applied 1 (lab_state [1, 2]))) = Inr bs \<and> length bs \<le> MAX_FRAME_LEN"
  using ledger_always_fits [OF lab_from_cells lab_apply_both] by auto

text \<open>
  C24: A ledger that passes the shape check every snapshot must pass (valid live cells, unique identifiers, no
  reference both live and spent, spends and receipts that refer to known outputs, no identifier shared by
  receipts) passes it after every accepted transfer whose certificate digest is not the reserved zero digest,
  so an applied transfer never makes a validator's next snapshot unloadable.
\<close>

theorem ledger_shape_preserved:
  assumes "validate_state_shape C s = Inr ()" and "apply_finalized C s tx auth pq cq m = Inr (outcome, s')"
    and "\<forall>rc. outcome = Applied rc \<longrightarrow> rc_certificate_digest rc \<noteq> zero_array"
  shows "validate_state_shape C s' = Inr ()"
proof (cases outcome)
  case (Applied rc)
  then show ?thesis
    using apply_shape_ok assms unfolding validate_state_shape_iff by blast
next
  case (AlreadyApplied rc)
  then show ?thesis
    using assms(1,2) by (auto simp: apply_AlreadyApplied_iff)
qed

lemma ledger_shape_preserved_witness:
  "\<exists>rc s. apply_finalized lab_crypto (lab_state [1]) (lab_tx 1) (lab_auth 1) (lab_prevote_qc 1) (lab_precommit_qc 1) lab_manifest =
      Inr (Applied rc, s) \<and> validate_state_shape lab_crypto s = Inr ()"
proof -
  have ap: "apply_finalized lab_crypto (lab_state [1]) (lab_tx 1) (lab_auth 1) (lab_prevote_qc 1) (lab_precommit_qc 1) lab_manifest =
      Inr (Applied (lab_receipt 1), lab_applied 1 (lab_state [1]))"
    by (rule lab_apply_genesis) simp_all
  have "validate_state_shape lab_crypto (lab_state [1]) = Inr ()"
    using pure_genesis_shape(1) [OF lab_genesis [of "[1]"]] by simp
  then show ?thesis
    using ledger_shape_preserved [OF _ ap] lab_applied_one(4) ap by blast
qed

text \<open>
  C25: A certificate that verify_qc accepts carries the signatures of at least five distinct committee
  members, each verified under the member's own key over the statement of the certificate, and any two
  accepted certificates share three signers.
\<close>

theorem finality_quorum:
  assumes "verify_qc C a m p r c x j = Inr ()" and "verify_qc C b m' p' r' c' x' j' = Inr ()"
  shows "Q \<le> card (signers a) \<and> signers a \<subseteq> {..<N} \<and>
    (\<forall>v \<in> set (qc_votes a). v_phase v = p \<and> v_round v = r \<and> v_conflict_key v = c \<and> v_intent v = x \<and>
      verify_strict C (cm_public_key (m_members m ! unat (v_signer_index v))) (signed_statement C m v) (v_signature v)) \<and>
    3 \<le> card (signers a \<inter> signers b)"
proof -
  have a: "valid_qc C a m p r c x j" and b: "valid_qc C b m' p' r' c' x' j'"
    using assms by (simp_all add: verify_qc_iff)
  show ?thesis
    using a quorums_intersect [OF valid_qc_signers(1) [OF a] valid_qc_signers(1) [OF b] valid_qc_signers(3) [OF a] valid_qc_signers(3) [OF b]]
      valid_qc_signers(1,3) [OF a] by (auto simp: valid_qc_def valid_vote_def same_statement_def)
qed

lemma finality_quorum_witness:
  "3 \<le> card (signers (lab_prevote_qc 1) \<inter> signers (fst (lab_chain 1 [2, 3, 4, 5, 6])))"
proof -
  obtain r d c x where a: "valid_qc lab_crypto (lab_prevote_qc 1) lab_manifest PHASE_PREVOTE r c x None"
    using check_finalityD(2) [OF lab_finality(1)] by blast
  obtain r' d' c' x' where b: "valid_qc lab_crypto (fst (lab_chain 1 [2, 3, 4, 5, 6])) lab_manifest PHASE_PREVOTE r' c' x' None"
    using check_finalityD(2) [OF lab_finality(2)] by blast
  show ?thesis
    using finality_quorum [OF a [folded verify_qc_iff [where u = "()"]] b [folded verify_qc_iff [where u = "()"]]] by simp
qed

text \<open>
  C26: Five or more valid votes of distinct members on one statement always assemble into a certificate that
  verify_qc accepts, and the certificate does not depend on the order in which the votes arrived.
\<close>

theorem certificate_assembly:
  assumes "votes_for C m p r c x j votes" and "Q \<le> length votes" and "mset votes' = mset votes"
  shows "\<exists>qc. assemble_qc C votes m p r c x j = Inr qc \<and> assemble_qc C votes' m p r c x j = Inr qc \<and>
    verify_qc C qc m p r c x j = Inr ()"
  using assemble_qc_complete [OF assms(1,2)] assemble_qc_perm assms(3) by (metis verify_qc_iff)

lemma certificate_assembly_witness:
  "\<exists>r c x qc. assemble_qc lab_crypto (rev (qc_votes (lab_prevote_qc 1))) lab_manifest PHASE_PREVOTE r c x None = Inr qc"
proof -
  obtain r d c x where a: "valid_qc lab_crypto (lab_prevote_qc 1) lab_manifest PHASE_PREVOTE r c x None"
    using check_finalityD(2) [OF lab_finality(1)] by blast
  then have "votes_for lab_crypto lab_manifest PHASE_PREVOTE r c x None (qc_votes (lab_prevote_qc 1))"
    by (auto simp: valid_qc_def votes_for_def strict_sorted_iff)
  then show ?thesis
    using certificate_assembly [of _ _ _ r c x None "qc_votes (lab_prevote_qc 1)" "rev (qc_votes (lab_prevote_qc 1))"] a
    by (force simp: valid_qc_def)
qed

text \<open>
  C27: Whatever finalized transfers a validator applies, in whatever order and however often, the value of its
  live cells stays what it was at genesis and the state keeps passing validate_state, so total_value returns
  the same sum.
\<close>

theorem value_conserved:
  assumes "ledger_run C m s s'" and "validate_state C s = Inr ()"
  shows "validate_state C s' = Inr () \<and> live_value s' = live_value s \<and>
    (\<forall>v. total_value s = Inr v \<longrightarrow> total_value s' = Inr v)"
  using ledger_run_value [OF assms(1)] assms(2) by (auto simp: validate_state_iff total_value_iff)

lemma value_conserved_witness:
  "validate_state lab_crypto (lab_applied 1 (lab_state [1, 2])) = Inr () \<and>
    live_value (lab_applied 1 (lab_state [1, 2])) = live_value (lab_state [1, 2])"
proof -
  have "apply_finalized lab_crypto (lab_state [1, 2]) (lab_tx 1) (lab_auth 1) (lab_prevote_qc 1) (lab_precommit_qc 1) lab_manifest =
      Inr (Applied (lab_receipt 1), lab_applied 1 (lab_state [1, 2]))"
    by (rule lab_apply_genesis) simp_all
  then have run: "ledger_run lab_crypto lab_manifest (lab_state [1, 2]) (lab_applied 1 (lab_state [1, 2]))"
    by (intro r_into_rtranclp) (rule ledger_step.applies)
  show ?thesis
    using value_conserved [OF run] lab_state_ok by (simp add: validate_state_iff)
qed

text \<open>
  C28: Applying a finalized transfer refines the abstract ledger of coins: the input coin of the owner
  disappears, and exactly the outputs of the transfer and the fee for the collector appear.
\<close>

theorem apply_moves_coins:
  assumes "apply_finalized C s tx auth pq cq m = Inr (Applied rc, s')" and "validate_state C s = Inr ()"
  shows "coins s' = coins s - {#(cell_owner (tx_input tx), unat (cell_amount (tx_input tx)))#} +
    mset (map (\<lambda>out. (out_owner out, unat (out_amount out))) (tx_outputs tx)) +
    {#(fee_collector C, unat (tx_fee tx))#}"
  using apply_refines_coins [OF assms(1)] assms(2) by (simp add: validate_state_iff spend_coins_def)

lemma apply_moves_coins_witness:
  "coins (lab_applied 1 (lab_state [1, 2])) = coins (lab_state [1, 2]) - {#(public_of lab_crypto lab_alice, 100)#} +
    {#(lab_bob, 60), (public_of lab_crypto lab_alice, 39)#} + {#(fee_collector lab_crypto, 1)#}"
proof -
  have "apply_finalized lab_crypto (lab_state [1, 2]) (lab_tx 1) (lab_auth 1) (lab_prevote_qc 1) (lab_precommit_qc 1) lab_manifest =
      Inr (Applied (lab_receipt 1), lab_applied 1 (lab_state [1, 2]))"
    by (rule lab_apply_genesis) simp_all
  from apply_moves_coins [OF this] lab_state_ok show ?thesis
    by (simp add: validate_state_iff lab_tx_def)
qed

text \<open>
  C29: Once a transfer that spends a cell has been applied, no later state of the ledger applies another
  transfer of that cell, whatever certificates come with it.
\<close>

theorem spent_only_once:
  assumes "apply_finalized C s tx auth pq cq m = Inr (Applied rc, s1)" and "validate_state C s = Inr ()"
    and "ledger_run C m s1 s2" and "cell_reference (tx_input ty) = cell_reference (tx_input tx)"
  shows "apply_finalized C s2 ty auth' pq' cq' m \<noteq> Inr (Applied rc', s3)"
  using no_double_spend [OF assms(1) _ assms(3,4)] assms(2) by (simp add: validate_state_iff)

lemma spent_only_once_witness:
  "\<forall>s3. apply_finalized lab_crypto (lab_applied 1 (lab_state [1])) ((lab_tx 1)\<lparr>tx_salt := zero_array\<rparr>) (lab_auth 1)
    (lab_prevote_qc 1) (lab_precommit_qc 1) lab_manifest \<noteq> Inr (Applied (lab_receipt 1), s3)"
proof -
  have "apply_finalized lab_crypto (lab_state [1]) (lab_tx 1) (lab_auth 1) (lab_prevote_qc 1) (lab_precommit_qc 1) lab_manifest =
      Inr (Applied (lab_receipt 1), lab_applied 1 (lab_state [1]))"
    by (rule lab_apply_genesis) simp_all
  from spent_only_once [OF this] show ?thesis
    by (simp add: validate_state_iff lab_state_ok)
qed

text \<open>
  C30: Replaying a transfer that was applied before changes nothing and returns the receipt of the first
  application, even when it comes back with other certificates.
\<close>

theorem apply_idempotent:
  assumes "apply_finalized C s tx auth pq cq m = Inr (Applied rc, s1)" and "ledger_run C m s1 s2"
    and "check_finality C tx pq' cq' m = Inr x"
  shows "apply_finalized C s2 tx auth pq' cq' m = Inr (AlreadyApplied rc, s2)"
  using apply_again [OF assms] .

lemma apply_idempotent_witness:
  "apply_finalized lab_crypto (lab_applied 1 (lab_state [1])) (lab_tx 1) (lab_auth 1)
    (fst (lab_chain 1 [2, 3, 4, 5, 6])) (snd (lab_chain 1 [2, 3, 4, 5, 6])) lab_manifest =
    Inr (AlreadyApplied (lab_receipt 1), lab_applied 1 (lab_state [1]))"
proof -
  have "apply_finalized lab_crypto (lab_state [1]) (lab_tx 1) (lab_auth 1) (lab_prevote_qc 1) (lab_precommit_qc 1) lab_manifest =
      Inr (Applied (lab_receipt 1), lab_applied 1 (lab_state [1]))"
    by (rule lab_apply_genesis) simp_all
  then show ?thesis
    by (rule apply_idempotent) (simp_all add: lab_finality)
qed

text \<open>
  C31: Finalized transfers that all spend cells of the starting state reach the same final state in every
  order in which the controller has them applied.
\<close>

theorem application_order_irrelevant:
  assumes "apply_in_order C s fts order m = Inr s'" and "validate_state C s = Inr ()"
    and "\<forall>j \<in> set order. live_cell s (cell_reference (tx_input (ft_tx (fts ! j)))) \<noteq> None"
    and "mset order' = mset order"
  shows "apply_in_order C s fts order' m = Inr s'"
  using apply_in_order_perm [OF assms(1) _ _ assms(4)] assms(2,3)
  by (simp add: validate_state_iff transfer_input_def live_cell_def fmdom'_notI fmlookup_dom_iff)

lemma application_order_irrelevant_witness:
  "apply_in_order lab_crypto (lab_state [1, 2]) (map lab_transfer [1, 2]) [1, 0] lab_manifest =
    Inr (lab_applied 2 (lab_applied 1 (lab_state [1, 2])))"
proof (rule application_order_irrelevant [OF lab_apply_both])
  show "\<forall>j \<in> set [0, 1]. live_cell (lab_state [1, 2]) (cell_reference (tx_input (ft_tx (map lab_transfer [1, 2] ! j)))) \<noteq> None"
    using lab_state_live [of 1 "[1, 2]"] lab_state_live [of 2 "[1, 2]"] by (simp add: live_cell_def lab_transfer_def)
qed (simp_all add: validate_state_iff lab_state_ok)

text \<open>
  C32: Two well formed states of serializable size with the same state root agree on the live cells, the spent
  cells, the known identifiers and the output references of the receipts, or the preimages of the two roots
  are a BLAKE3 collision.
\<close>

theorem root_binds_state:
  assumes "state_root C s = state_root C t" and "validate_state C s = Inr ()" and "validate_state C t = Inr ()"
    and "countable_state s" and "countable_state t"
  shows "semantic_view s = semantic_view t \<or>
    collide C (ascii ''CALIBRE_INTEGRATION001_STATE_ROOT_V1'' @ state_root_bytes s)
      (ascii ''CALIBRE_INTEGRATION001_STATE_ROOT_V1'' @ state_root_bytes t)"
  using hash_domain_collide [OF assms(1) [unfolded state_root_def]] state_root_bytes_inj assms
  by (metis validate_state_iff)

lemma root_binds_state_witness:
  "semantic_view (lab_state [1, 2]) = semantic_view (lab_state [2, 1]) \<or>
    collide lab_crypto (ascii ''CALIBRE_INTEGRATION001_STATE_ROOT_V1'' @ state_root_bytes (lab_state [1, 2]))
      (ascii ''CALIBRE_INTEGRATION001_STATE_ROOT_V1'' @ state_root_bytes (lab_state [2, 1]))"
proof (rule root_binds_state)
  show "state_root lab_crypto (lab_state [1, 2]) = state_root lab_crypto (lab_state [2, 1])"
    by (simp only: lab_state_swap)
qed (simp_all add: validate_state_iff lab_state_ok lab_state_countable)

text \<open>
  C33: Two transfers with the same intent hash are the same transfer in every field, or their canonical bytes
  are a BLAKE3 collision.
\<close>

theorem intent_binds_transfer:
  assumes "intent_hash C tx = Inr h" and "intent_hash C ty = Inr h"
  shows "tx = ty \<or> (\<exists>x y. tx_bytes tx = Inr x \<and> tx_bytes ty = Inr y \<and>
    collide C (ascii ''CALIBRE_INTEGRATION001_TX_INTENT_V1'' @ x) (ascii ''CALIBRE_INTEGRATION001_TX_INTENT_V1'' @ y))"
  by (rule intent_hash_inj [OF assms]) blast+

lemma intent_binds_transfer_witness:
  "let ty = (lab_tx 1)\<lparr>tx_fee := 2\<rparr> in ty \<noteq> lab_tx 1 \<and> (\<exists>x y. tx_bytes ty = Inr x \<and> tx_bytes (lab_tx 1) = Inr y \<and>
    collide lab_crypto (ascii ''CALIBRE_INTEGRATION001_TX_INTENT_V1'' @ x) (ascii ''CALIBRE_INTEGRATION001_TX_INTENT_V1'' @ y))"
proof -
  let ?ty = "(lab_tx 1)\<lparr>tx_fee := 2\<rparr>"
  obtain h where h: "intent_hash lab_crypto ?ty = Inr h"
    by (auto simp: intent_hash_def tx_bytes_def lab_tx_def)
  then have "h = lab_intent 1"
    by (rule lab_intent_salt) (simp add: lab_tx_def)
  moreover have "?ty \<noteq> lab_tx 1"
    by (simp add: lab_tx_def)
  ultimately show ?thesis
    using intent_binds_transfer [OF h, of "lab_tx 1"] lab_intent [of 1] by (simp add: Let_def)
qed

text \<open>
  C34: Starting from any valid transfer with two outputs, the four value-breaking variants of the controller
  (a hidden mint, missing value, an overflowing amount and a zero fee) are all refused by validate_tx, so the
  check passes.
\<close>

theorem conservation_checks_pass:
  assumes "validate_tx C tx (fx_manifest fixture) = Inr ()" and "2 \<le> length (tx_outputs tx)"
  shows "conservation_negatives_rejected C fixture tx = Inr ()"
  using conservation_negatives_ok assms by (simp add: validate_tx_iff)

lemma conservation_checks_pass_witness:
  "\<exists>fixture. fx_manifest fixture = lab_manifest \<and> conservation_negatives_rejected lab_crypto fixture (lab_tx 1) = Inr ()"
proof -
  obtain fixture :: lab_fixture where f: "fx_manifest fixture = lab_manifest"
    by (metis lab_fixture.select_convs(1))
  then have "validate_tx lab_crypto (lab_tx 1) (fx_manifest fixture) = Inr ()"
    using lab_tx_valid by (simp add: validate_tx_iff)
  then show ?thesis
    using conservation_checks_pass [of lab_crypto "lab_tx 1" fixture] f by auto
qed

text \<open>
  C35: For a valid final certificate the controller's matrix of seven corrupted certificates is refused in
  every entry that does not rest on the signature scheme, so the matrix reports seven refusals unless the
  scheme accepts the altered signature.
\<close>

theorem certificate_negatives_refused:
  assumes "check_finality C (ft_tx ft) (ft_prevote_qc ft) (ft_qc ft) m = Inr x" and "qc_votes (ft_qc ft) = v # vs"
  shows "quorum_negative_matrix C ft m =
    (if verify_qc C (with_first (\<lambda>v. v\<lparr>v_signature := flip_first (v_signature v)\<rparr>) (ft_qc ft)) m PHASE_PRECOMMIT (v_round v)
        (conflict_key C (cell_reference (tx_input (ft_tx ft)))) x (Some (v_justify v)) = Inr ()
     then Inl (NegativeAccepted ''invalid signature'') else Inr 7)"
proof -
  obtain r d where d: "valid_qc C (ft_qc ft) m PHASE_PRECOMMIT r (conflict_key C (cell_reference (tx_input (ft_tx ft)))) x (Some d)"
    using check_finalityD(2) [OF assms(1)] by blast
  then have "v_round v = r" "v_justify v = d"
    using assms(2) by (auto simp: valid_qc_def same_statement_def expected_ok_def)
  then show ?thesis
    using quorum_negative_matrix_result [OF check_finalityD(1) [OF assms(1)] assms(2)] d by (simp add: verify_qc_iff)
qed

lemma certificate_negatives_refused_witness:
  "quorum_negative_matrix lab_crypto (lab_transfer 1) lab_manifest \<noteq> Inl EmptyFinalityQc"
proof -
  have fin: "check_finality lab_crypto (ft_tx (lab_transfer 1)) (ft_prevote_qc (lab_transfer 1)) (ft_qc (lab_transfer 1)) lab_manifest = Inr (lab_intent 1)"
    using lab_finality(1) by (simp add: lab_transfer_def)
  then obtain r d where "valid_qc lab_crypto (ft_qc (lab_transfer 1)) lab_manifest PHASE_PRECOMMIT r
      (conflict_key lab_crypto (cell_reference (tx_input (ft_tx (lab_transfer 1))))) (lab_intent 1) (Some d)"
    using check_finalityD(2) by blast
  then obtain v vs where v: "qc_votes (ft_qc (lab_transfer 1)) = v # vs"
    using valid_qc_nonempty by metis
  show ?thesis
    unfolding certificate_negatives_refused [OF fin v] by simp
qed

text \<open>
  C36: The request codec is exact: the decoder accepts a payload as a request if and only if the encoder
  produces that payload for the request, so no byte string is read as two requests and none is accepted
  outside the canonical form.
\<close>

theorem request_codec_exact: "decode_request bs = Inr r \<longleftrightarrow> encode_request r = Inr bs"
  unfolding decode_request_def encode_request_def using request_codec.decode_iff by simp

text \<open>
  C37: Reading a hand-off certificate from a stream is exactly the inverse of writing it: it yields a
  certificate and the unread rest if and only if the stream is that certificate's bytes followed by the rest
  and the certificate has at most seven shares whose indices fit in a byte.
\<close>

theorem handoff_certificate_exact:
  "read_handoff_cert s = Some (cert, rest) \<longleftrightarrow>
    length (hc_shares cert) \<le> HANDOFF_N \<and> list_all (\<lambda>sh. os_index sh < 256) (hc_shares cert) \<and> s = write_handoff_cert cert @ rest"
  by (simp add: read_handoff_cert_exact sendable_cert_def list_all_iff)

text \<open>
  C38: A client that sends a request cut short ends the server process: whatever proper prefix of a hand-off,
  or of a certificate, follows the operation byte, the running member answers nothing and is down afterwards,
  with its log unchanged.
\<close>

theorem truncated_request_stops_member:
  assumes "cn_up node" and "k < length (write_handoff h)" and "k' < length (write_handoff_cert cert)" and "sendable_cert cert"
  shows "old_connection C io reply_io (OP_OLD_SIGN # take k (write_handoff h)) node = ([], [], node\<lparr>cn_up := False\<rparr>) \<and>
    new_connection C io reply_io (OP_NEW_ACTIVATE # take k' (write_handoff_cert cert)) node = ([], [], node\<lparr>cn_up := False\<rparr>)"
proof -
  have "read_handoff (take k (write_handoff h)) = None" "read_handoff_cert (take k' (write_handoff_cert cert)) = None"
    using handoff_stream.truncated [OF TrueI assms(2)] handoff_cert_stream.truncated [OF assms(4,3)] by simp_all
  then show ?thesis
    using assms(1) by (simp add: old_connection_def new_connection_def old_sign_request_def new_activate_request_def node_dies_def
      OP_OLD_SIGN_def OP_NEW_ACTIVATE_def OP_PING_def OP_SHUTDOWN_def)
qed

lemma truncated_request_stops_member_witness:
  "snd (snd (old_connection lab_crypto None None (OP_OLD_SIGN # take 10 (write_handoff lab_handoff))
      (hs_nodes (fresh_committee lab_crypto OLD_WAL_MAGIC {}) ! 2))) =
    (hs_nodes (fresh_committee lab_crypto OLD_WAL_MAGIC {}) ! 2)\<lparr>cn_up := False\<rparr>"
proof -
  have up: "cn_up (hs_nodes (fresh_committee lab_crypto OLD_WAL_MAGIC {}) ! 2)"
    by (simp add: fresh_committee_def HANDOFF_N_def)
  show ?thesis
    using truncated_request_stops_member [OF up _ _ lab_handoff_cert(3), of 10 lab_handoff 0]
    by (simp add: write_handoff_def write_handoff_cert_def)
qed

text \<open>
  C39: Every ledger state that the encoder accepts is read back unchanged from its bytes.
\<close>

theorem state_survives_encoding:
  assumes "encode_state s = Inr bs"
  shows "decode_state bs = Inr s"
  using state_reader.decode_encode [OF _ assms [unfolded encode_state_def]] by (simp add: decode_state_def)

lemma state_survives_encoding_witness: "decode_state (lab_bytes [1, 2]) = Inr (lab_state [1, 2])"
  by (rule state_survives_encoding, rule lab_bytes(1)) (simp_all add: MAX_COLLECTION_LEN_def)

text \<open>
  C40: The controller accepts exactly the sequences of well formed --bench-count and --evidence options,
  applies them from left to right over the defaults, and every accepted configuration has a benchmark count
  between one and the maximum and no empty evidence path.
\<close>

theorem controller_options_language:
  "parse_controller_args args = Inr c \<longleftrightarrow>
    (\<exists>opts. args = concat (map option_words opts) \<and> list_all option_valid opts \<and>
      c = fold apply_option opts default_config \<and> config_ok c)"
  unfolding parse_controller_args_def parse_options_Inr_iff list_all_iff
  using fold_option_ok default_config_ok by auto

end
